(* ===== verification/Py_Prelude.thy ===== *)
theory Py_Prelude
  imports Main "HOL-Library.AList" "HOL-Library.Sublist"
begin

text \<open>
  Shared ground of the development: the values, errors and library operations of
  Python that the modelled code uses.

  \<^item> Exceptions are values of \<open>py_error\<close>; a call that can raise returns \<open>py_error + 'a\<close>.
    The message texts of exceptions are not modelled, their class is.
  \<^item> \<open>str\<close> is \<open>string\<close>. A \<open>char\<close> below 128 is its ASCII character; the
    codes above 127 stand for the non-ASCII code points that the source's templates use,
    one \<open>char\<close> per code point, so that \<open>length\<close> is Python's \<open>len\<close>. White space and
    digits are the ASCII ones.
  \<^item> \<open>int\<close> is \<open>int\<close> (unbounded).
  \<^item> A \<open>dict\<close> is an association list in insertion order: \<open>map_of\<close> looks up,
    \<open>AList.update\<close> replaces in place or appends, \<open>AList.delete\<close> removes.
  \<^item> Slices with negative bounds follow Python's clamping rules (\<open>py_idx\<close>).
\<close>

section \<open>Errors and results\<close>

datatype py_error =
    ValueError | TypeError | KeyError | IndexError | RuntimeError | NotImplementedError
  | TimeoutError | CancelledError | OverflowError | RecursionError | AssertionError
  | ProtectedBlockError | DynamicNotResolvedError | FileTooLargeError | OSError
  | AdmissionTimeoutError | AdmissionCallCapError | AdmissionUnavailableError
  | QueueReadTimeoutError | ValidationError | AttributeError | IntegrityError | OperationalError
  | DatabaseError | CorruptDatabaseError | BlockSyntaxError
  | FileNotFoundError | UnicodeDecodeError | UnicodeEncodeError | StaleMatchError | JSONDecodeError

type_synonym 'a py_res = "py_error + 'a"

definition is_ok :: "'a py_res \<Rightarrow> bool" where
  "is_ok r = (case r of Inl _ \<Rightarrow> False | Inr _ \<Rightarrow> True)"

lemma is_ok_simps [simp]: "is_ok (Inl e) = False" "is_ok (Inr x) = True"
  by (simp_all add: is_ok_def)

definition py_bind :: "'a py_res \<Rightarrow> ('a \<Rightarrow> 'b py_res) \<Rightarrow> 'b py_res" where
  "py_bind r f = (case r of Inl e \<Rightarrow> Inl e | Inr x \<Rightarrow> f x)"

lemma py_bind_simps [simp]: "py_bind (Inl e) f = Inl e" "py_bind (Inr x) f = f x"
  by (simp_all add: py_bind_def)

lemma py_bind_Inr_iff: "py_bind r f = Inr y \<longleftrightarrow> (\<exists>x. r = Inr x \<and> f x = Inr y)"
  by (cases r) auto

lemma option_eqI: "(\<And>t. x = Some t \<longleftrightarrow> y = Some t) \<Longrightarrow> x = y"
  by (cases x; cases y) auto

text \<open>A comprehension whose element expression may raise: the first error is raised.\<close>

fun py_mapM :: "('a \<Rightarrow> 'b py_res) \<Rightarrow> 'a list \<Rightarrow> 'b list py_res" where
  "py_mapM f [] = Inr []"
| "py_mapM f (x # xs) = py_bind (f x) (\<lambda>y. py_bind (py_mapM f xs) (\<lambda>ys. Inr (y # ys)))"

lemma py_mapM_Inr_iff:
  "py_mapM f xs = Inr ys \<longleftrightarrow> list_all2 (\<lambda>x y. f x = Inr y) xs ys"
  by (induction xs arbitrary: ys) (auto simp: py_bind_Inr_iff list_all2_Cons1)

lemma remdups_snoc: "remdups (xs @ [p]) = filter (\<lambda>q. q \<noteq> p) (remdups xs) @ [p]"
  by (induction xs) auto

named_theorems py_str_simps \<open>facts on Python's string operations\<close>

section \<open>Dictionaries\<close>

type_synonym ('k, 'v) dict = "('k \<times> 'v) list"

abbreviation dict_get :: "('k, 'v) dict \<Rightarrow> 'k \<Rightarrow> 'v option" where
  "dict_get d k \<equiv> map_of d k"

abbreviation dict_set :: "'k \<Rightarrow> 'v \<Rightarrow> ('k, 'v) dict \<Rightarrow> ('k, 'v) dict" where
  "dict_set \<equiv> AList.update"

abbreviation dict_del :: "'k \<Rightarrow> ('k, 'v) dict \<Rightarrow> ('k, 'v) dict" where
  "dict_del \<equiv> AList.delete"

abbreviation dict_keys :: "('k, 'v) dict \<Rightarrow> 'k list" where
  "dict_keys d \<equiv> map fst d"

definition dict_has :: "('k, 'v) dict \<Rightarrow> 'k \<Rightarrow> bool" where
  "dict_has d k = (dict_get d k \<noteq> None)"

lemma dict_has_iff: "dict_has d k \<longleftrightarrow> k \<in> set (dict_keys d)"
  by (simp add: dict_has_def map_of_eq_None_iff image_iff)

lemma dict_get_set [simp]: "dict_get (dict_set k v d) k' = (if k' = k then Some v else dict_get d k')"
  by (simp add: update_conv)

lemma dict_get_del [simp]: "dict_get (dict_del k d) k' = (if k' = k then None else dict_get d k')"
  by (simp add: delete_conv)

lemma dict_keys_set:
  "dict_keys (dict_set k v d) = (if k \<in> set (dict_keys d) then dict_keys d else dict_keys d @ [k])"
  by (simp add: update_keys)

lemma dict_set_fresh: "k \<notin> set (dict_keys d) \<Longrightarrow> dict_set k v d = d @ [(k, v)]"
  by (induction d) auto

lemma dict_keys_del: "dict_keys (dict_del k d) = filter (\<lambda>x. x \<noteq> k) (dict_keys d)"
  by (induction d) auto

lemma distinct_keys_del [simp]: "distinct (dict_keys d) \<Longrightarrow> distinct (dict_keys (dict_del k d))"
  by (simp add: distinct_delete)

lemma distinct_keys_set [simp]: "distinct (dict_keys d) \<Longrightarrow> distinct (dict_keys (dict_set k v d))"
  by (simp add: distinct_update)

text \<open>\<open>d.update(other)\<close>: the entries of the other dictionary in its order.\<close>

definition dict_update :: "('k, 'v) dict \<Rightarrow> ('k, 'v) dict \<Rightarrow> ('k, 'v) dict" where
  "dict_update d other = fold (\<lambda>(k, v). dict_set k v) other d"

lemma distinct_keys_update [simp]: "distinct (dict_keys d) \<Longrightarrow> distinct (dict_keys (dict_update d other))"
  unfolding dict_update_def by (induction other arbitrary: d) auto

lemma dict_get_update:
  "distinct (dict_keys other) \<Longrightarrow>
   dict_get (dict_update d other) k = (case dict_get other k of Some v \<Rightarrow> Some v | None \<Rightarrow> dict_get d k)"
  unfolding dict_update_def
proof (induction other arbitrary: d)
  case (Cons p other)
  obtain k' v' where p: "p = (k', v')" by (cases p)
  with Cons.prems have "k' \<notin> set (dict_keys other)" by simp
  then have "map_of other k' = None" by (simp add: map_of_eq_None_iff)
  with Cons show ?case by (auto simp: p split: option.splits)
qed simp

section \<open>Layers\<close>

text \<open>
  A state built by applying layers one after another, where each layer acts on every key by itself:
  a lookup in the result is the layers' words on that key, in order.
\<close>

locale layering =
  fixes look :: "'s \<Rightarrow> 'k \<Rightarrow> 'v option"
    and apply_layer :: "'l \<Rightarrow> 's \<Rightarrow> 's"
    and word_on :: "'l \<Rightarrow> 'k \<Rightarrow> 'v option \<Rightarrow> 'v option"
    and ok :: "'s \<Rightarrow> bool"
    and good :: "'l \<Rightarrow> bool"
  assumes ok_apply: "ok s \<Longrightarrow> good l \<Longrightarrow> ok (apply_layer l s)"
    and look_apply: "ok s \<Longrightarrow> good l \<Longrightarrow> look (apply_layer l s) k = word_on l k (look s k)"
begin

lemma ok_layers: "ok s \<Longrightarrow> list_all good ls \<Longrightarrow> ok (fold apply_layer ls s)"
  by (induction ls arbitrary: s) (simp_all add: ok_apply)

lemma look_layers:
  "ok s \<Longrightarrow> list_all good ls \<Longrightarrow> look (fold apply_layer ls s) k = fold (\<lambda>l. word_on l k) ls (look s k)"
  by (induction ls arbitrary: s) (simp_all add: ok_apply look_apply)

lemma last_word:
  assumes "ok s" and "list_all good (pre @ l # post)"
    and "word_on l k = (\<lambda>_. v)" and "list_all (\<lambda>m. word_on m k = id) post"
  shows "look (fold apply_layer (pre @ l # post) s) k = v"
proof -
  have "fold (\<lambda>m. word_on m k) post x = x" for x
    using assms(4) by (induction post arbitrary: x) simp_all
  then show ?thesis unfolding look_layers [OF assms(1,2)] by (simp add: assms(3))
qed

end

section \<open>Runs\<close>

text \<open>A run takes actions that are enabled where they happen. An invariant of the steps holds after every run.\<close>

fun valid_run :: "('a \<Rightarrow> 's \<Rightarrow> bool) \<Rightarrow> ('a \<Rightarrow> 's \<Rightarrow> 's) \<Rightarrow> 'a list \<Rightarrow> 's \<Rightarrow> bool" where
  "valid_run enabled step [] s \<longleftrightarrow> True"
| "valid_run enabled step (a # as) s \<longleftrightarrow> enabled a s \<and> valid_run enabled step as (step a s)"

locale step_invariant =
  fixes enabled :: "'a \<Rightarrow> 's \<Rightarrow> bool"
    and step :: "'a \<Rightarrow> 's \<Rightarrow> 's"
    and inv :: "'s \<Rightarrow> bool"
  assumes step_inv: "inv s \<Longrightarrow> enabled a s \<Longrightarrow> inv (step a s)"
begin

lemma run_inv: "inv s \<Longrightarrow> valid_run enabled step as s \<Longrightarrow> inv (fold step as s)"
  by (induction as arbitrary: s) (simp_all add: step_inv)

end

section \<open>Slices\<close>

text \<open>A slice bound: negative bounds count from the end, both are clamped to the list.\<close>

definition py_idx :: "nat \<Rightarrow> int \<Rightarrow> nat" where
  "py_idx n i = (if i < 0 then nat (max 0 (int n + i)) else min n (nat i))"

definition slice_from :: "'a list \<Rightarrow> int \<Rightarrow> 'a list" where
  "slice_from xs i = drop (py_idx (length xs) i) xs"

definition slice_to :: "'a list \<Rightarrow> int \<Rightarrow> 'a list" where
  "slice_to xs i = take (py_idx (length xs) i) xs"

lemma slice_from_0 [simp]: "slice_from xs 0 = xs"
  by (simp add: slice_from_def py_idx_def)

lemma slice_from_neg: "0 < n \<Longrightarrow> slice_from xs (- int n) = drop (length xs - n) xs"
  by (simp add: slice_from_def py_idx_def nat_diff_distrib' max_def)

lemma slice_from_nat [simp]: "slice_from xs (int n) = drop n xs"
  by (simp add: slice_from_def py_idx_def min_def)

lemma slice_to_nat [simp]: "slice_to xs (int n) = take n xs"
  by (simp add: slice_to_def py_idx_def min_def)

lemma slice_to_slice_from: "slice_to xs i @ slice_from xs i = xs"
  by (simp add: slice_to_def slice_from_def)

lemma length_slice_to_le: "0 \<le> i \<Longrightarrow> length (slice_to xs i) \<le> nat i"
  by (simp add: slice_to_def py_idx_def)

section \<open>Strings\<close>

definition nl :: string where "nl = [CHR 0x0A]"

text \<open>The non-ASCII code points of the templates, one code each.\<close>

definition ellipsis :: string where "ellipsis = [CHR 0x80]"        \<comment> \<open>U+2026\<close>
definition middot :: string where "middot = [CHR 0x81]"            \<comment> \<open>U+00B7\<close>
definition circle :: string where "circle = [CHR 0x82]"            \<comment> \<open>U+25CB\<close>
definition check_mark :: string where "check_mark = [CHR 0x83]"    \<comment> \<open>U+2713\<close>
definition bullet_dot :: string where "bullet_dot = [CHR 0x84]"    \<comment> \<open>U+25CF\<close>

definition is_ws :: "char \<Rightarrow> bool" where
  "is_ws c = (c \<in> {CHR 0x09, CHR 0x0A, CHR 0x0B, CHR 0x0C, CHR 0x0D,
                   CHR 0x1C, CHR 0x1D, CHR 0x1E, CHR 0x1F, CHR 0x20})"

definition lstrip :: "string \<Rightarrow> string" where
  "lstrip s = dropWhile is_ws s"

definition rstrip :: "string \<Rightarrow> string" where
  "rstrip s = rev (dropWhile is_ws (rev s))"

definition strip :: "string \<Rightarrow> string" where
  "strip s = rstrip (lstrip s)"

lemma length_rstrip_le: "length (rstrip s) \<le> length s"
  by (simp add: rstrip_def) (metis length_dropWhile_le length_rev)

lemma strip_no_ws: "\<forall>c \<in> set s. \<not> is_ws c \<Longrightarrow> strip s = s"
proof -
  assume a: "\<forall>c \<in> set s. \<not> is_ws c"
  have drop_id: "dropWhile is_ws t = t" if "\<forall>c \<in> set t. \<not> is_ws c" for t
    using that by (cases t) auto
  from a show ?thesis by (simp add: strip_def lstrip_def rstrip_def drop_id)
qed

text \<open>\<open>sub in s\<close>.\<close>

fun str_contains :: "string \<Rightarrow> string \<Rightarrow> bool" where
  "str_contains sub [] = (sub = [])"
| "str_contains sub (c # cs) = (prefix sub (c # cs) \<or> str_contains sub cs)"

lemma str_contains_iff_sublist: "str_contains sub s \<longleftrightarrow> sublist sub s"
  by (induction s) (auto simp: sublist_Cons_right)

lemma str_contains_append: "str_contains sub (a @ sub @ b)"
  by (simp add: str_contains_iff_sublist)

text \<open>\<open>s.split(sep)\<close> for a non-empty separator.\<close>

function split_aux :: "string \<Rightarrow> string \<Rightarrow> string \<Rightarrow> string list" where
  "split_aux sep acc [] = [rev acc]"
| "split_aux sep acc (c # cs) =
     (if sep \<noteq> [] \<and> prefix sep (c # cs)
      then rev acc # split_aux sep [] (drop (length sep) (c # cs))
      else split_aux sep (c # acc) cs)"
  by pat_completeness auto
termination
  by (relation "measure (\<lambda>(sep, acc, s). length s)") auto

definition str_split :: "string \<Rightarrow> string \<Rightarrow> string list" where
  "str_split sep s = split_aux sep [] s"

text \<open>\<open>s.split()\<close>: the maximal runs of non-blank characters.\<close>

function words_of :: "string \<Rightarrow> string list" where
  "words_of s = (let t = dropWhile is_ws s in
     if t = [] then [] else takeWhile (\<lambda>c. \<not> is_ws c) t # words_of (dropWhile (\<lambda>c. \<not> is_ws c) t))"
  by pat_completeness auto
termination
proof (relation "measure length")
  fix s t
  assume t: "t = dropWhile is_ws s" and ne: "t \<noteq> []"
  obtain c cs where c: "t = c # cs" using ne by (cases t) auto
  have "\<not> is_ws c" using c t by (metis dropWhile_eq_Cons_conv)
  then have "length (dropWhile (\<lambda>c. \<not> is_ws c) t) \<le> length cs"
    by (simp add: c length_dropWhile_le)
  also have "\<dots> < length t" by (simp add: c)
  also have "\<dots> \<le> length s" by (simp add: t length_dropWhile_le)
  finally show "(dropWhile (\<lambda>c. \<not> is_ws c) t, s) \<in> measure length" by simp
qed simp

declare words_of.simps [simp del]

text \<open>\<open>sep.join(parts)\<close>.\<close>

fun str_join :: "string \<Rightarrow> string list \<Rightarrow> string" where
  "str_join sep [] = []"
| "str_join sep [x] = x"
| "str_join sep (x # y # xs) = x @ sep @ str_join sep (y # xs)"

definition to_lower_char :: "char \<Rightarrow> char" where
  "to_lower_char c =
     (let n = of_char c :: nat in if 65 \<le> n \<and> n \<le> 90 then char_of (n + 32) else c)"

definition str_lower :: "string \<Rightarrow> string" where
  "str_lower s = map to_lower_char s"

section \<open>Decimal integers: str(n) and int(s)\<close>

definition digit_char :: "nat \<Rightarrow> char" where
  "digit_char d = char_of (48 + d)"

definition is_digit :: "char \<Rightarrow> bool" where
  "is_digit c = (48 \<le> (of_char c :: nat) \<and> (of_char c :: nat) \<le> 57)"

definition digit_val :: "char \<Rightarrow> nat" where
  "digit_val c = of_char c - 48"

fun nat_str :: "nat \<Rightarrow> string" where
  "nat_str n = (if n < 10 then [digit_char n] else nat_str (n div 10) @ [digit_char (n mod 10)])"

declare nat_str.simps [simp del]

definition int_str :: "int \<Rightarrow> string" where
  "int_str i = (if i < 0 then CHR ''-'' # nat_str (nat (- i)) else nat_str (nat i))"

text \<open>
  The digits of \<open>int(s)\<close>: at least one, single underscores allowed between digits. The
  argument \<open>prev\<close> says whether the character before was a digit.
\<close>

fun parse_digits :: "nat \<Rightarrow> bool \<Rightarrow> string \<Rightarrow> nat option" where
  "parse_digits acc prev [] = (if prev then Some acc else None)"
| "parse_digits acc prev (c # cs) =
     (if is_digit c then parse_digits (acc * 10 + digit_val c) True cs
      else if c = CHR ''_'' \<and> prev then parse_digits acc False cs
      else None)"

text \<open>\<open>int(s)\<close>; \<open>None\<close> is the ValueError.\<close>

definition py_int :: "string \<Rightarrow> int option" where
  "py_int s =
     (case strip s of
        [] \<Rightarrow> None
      | c # cs \<Rightarrow>
          (if c = CHR ''-'' then map_option (\<lambda>n. - int n) (parse_digits 0 False cs)
           else if c = CHR ''+'' then map_option int (parse_digits 0 False cs)
           else map_option int (parse_digits 0 False (c # cs))))"

lemma of_char_digit_char: "d < 10 \<Longrightarrow> of_char (digit_char d) = 48 + d"
  by (simp add: digit_char_def)

lemma is_ws_of_char: "is_ws c \<Longrightarrow> (of_char c :: nat) \<le> 32"
  by (auto simp: is_ws_def)

lemma digit_char_props:
  assumes "d < 10"
  shows "is_digit (digit_char d)" "digit_val (digit_char d) = d" "\<not> is_ws (digit_char d)"
    "digit_char d \<noteq> CHR ''-''" "digit_char d \<noteq> CHR ''+''" "digit_char d \<noteq> CHR ''.''"
proof -
  note oc = of_char_digit_char [OF assms]
  have ne: "digit_char d \<noteq> c" if "(of_char c :: nat) < 48" for c
    using oc that by auto
  show "is_digit (digit_char d)" "digit_val (digit_char d) = d"
    using assms by (simp_all add: is_digit_def digit_val_def oc)
  show "\<not> is_ws (digit_char d)" using is_ws_of_char [of "digit_char d"] oc by auto
  show "digit_char d \<noteq> CHR ''-''" "digit_char d \<noteq> CHR ''+''" "digit_char d \<noteq> CHR ''.''"
    by (rule ne, simp)+
qed

lemma nat_str_set: "c \<in> set (nat_str n) \<Longrightarrow> \<exists>d < 10. c = digit_char d"
proof (induction n rule: nat_str.induct)
  case (1 n)
  show ?case
  proof (cases "n < 10")
    case True
    with "1.prems" show ?thesis by (auto simp: nat_str.simps [of n])
  next
    case False
    with "1" consider "c \<in> set (nat_str (n div 10))" | "c = digit_char (n mod 10)"
      by (auto simp: nat_str.simps [of n])
    then show ?thesis using "1.IH" False
      by cases (blast, metis mod_less_divisor zero_less_numeral)
  qed
qed

lemma nat_str_nonempty [simp]: "nat_str n \<noteq> []"
  by (subst nat_str.simps) simp

lemma nat_str_no_dot: "CHR ''.'' \<notin> set (nat_str n)"
  using nat_str_set digit_char_props(6) by metis

lemma nat_str_no_ws: "c \<in> set (nat_str n) \<Longrightarrow> \<not> is_ws c"
  using nat_str_set digit_char_props(3) by metis

lemma parse_digits_append:
  assumes "\<forall>c \<in> set xs. is_digit c" and "xs \<noteq> []"
  shows "parse_digits acc prev (xs @ ys)
    = parse_digits (fold (\<lambda>c a. a * 10 + digit_val c) xs acc) True ys"
  using assms
proof (induction xs arbitrary: acc prev)
  case (Cons x xs)
  then show ?case by (cases "xs = []") auto
qed simp

lemma fold_nat_str: "fold (\<lambda>c a. a * 10 + digit_val c) (nat_str n) 0 = n"
proof (induction n rule: nat_str.induct)
  case (1 n)
  show ?case
  proof (cases "n < 10")
    case True
    then show ?thesis by (simp add: nat_str.simps [of n] digit_char_props)
  next
    case False
    with "1.IH" show ?thesis
      by (simp add: nat_str.simps [of n] digit_char_props)
  qed
qed

lemma parse_digits_nat_str: "parse_digits 0 False (nat_str n) = Some n"
proof -
  have "\<forall>c \<in> set (nat_str n). is_digit c"
    using nat_str_set digit_char_props(1) by metis
  from parse_digits_append [OF this, of 0 False "[]"] show ?thesis
    by (simp add: fold_nat_str)
qed

text \<open>\<open>int(str(i)) == i\<close>.\<close>

lemma py_int_int_str [simp]: "py_int (int_str i) = Some i"
proof -
  have st: "strip (nat_str n) = nat_str n" for n
    by (rule strip_no_ws) (use nat_str_no_ws in blast)
  have "\<not> is_ws (CHR ''-'')" by (simp add: is_ws_def)
  then have st': "strip (CHR ''-'' # nat_str n) = CHR ''-'' # nat_str n" for n
    using nat_str_no_ws by (intro strip_no_ws) auto
  show ?thesis
  proof (cases "i < 0")
    case True
    then show ?thesis by (simp add: py_int_def int_str_def st' parse_digits_nat_str)
  next
    case False
    obtain c cs where c: "nat_str (nat i) = c # cs" by (cases "nat_str (nat i)") simp_all
    then have "c \<in> set (nat_str (nat i))" by simp
    from nat_str_set [OF this] obtain d where "d < 10" "c = digit_char d" by blast
    then have "c \<noteq> CHR ''-''" "c \<noteq> CHR ''+''" by (simp_all only: digit_char_props not_False_eq_True)
    with c False show ?thesis
      using parse_digits_nat_str [of "nat i"] st [of "nat i"]
      by (simp add: py_int_def int_str_def del: parse_digits.simps)
  qed
qed

lemma int_str_inj [simp]: "int_str i = int_str j \<longleftrightarrow> i = j"
  by (metis option.inject py_int_int_str)

lemma int_str_no_dot: "CHR ''.'' \<notin> set (int_str i)"
  by (auto simp: int_str_def nat_str_no_dot)

lemma str_contains_first: "str_contains sub s \<Longrightarrow> sub \<noteq> [] \<Longrightarrow> hd sub \<in> set s"
  by (induction s) (auto simp: prefix_def neq_Nil_conv)

lemma int_str_no_range [simp]: "\<not> str_contains ''..'' (int_str i)"
  using str_contains_first [of "''..''" "int_str i"] int_str_no_dot by auto

lemma split_aux_no_sep:
  "CHR ''.'' \<notin> set a \<Longrightarrow> split_aux ''..'' acc a = [rev acc @ a]"
  by (induction a arbitrary: acc) (auto simp: prefix_def)

lemma split_aux_sep:
  "CHR ''.'' \<notin> set a \<Longrightarrow> CHR ''.'' \<notin> set b \<Longrightarrow>
   split_aux ''..'' acc (a @ ''..'' @ b) = [rev acc @ a, b]"
proof (induction a arbitrary: acc)
  case Nil
  then show ?case using split_aux_no_sep [of b "[]"] by simp
next
  case (Cons c a)
  then show ?case by (auto simp: prefix_def)
qed

end
