(* ===== verification/Layered_Config.thy ===== *)
theory Layered_Config
  imports Py_Prelude
begin

text \<open>
  Layered configuration: \<^verbatim>\<open>src/nooa/layered_config.py\<close>.

  The file system and the YAML parser are parameters: \<open>resolve\<close> gives the canonical path of an
  existing file (\<^verbatim>\<open>_resolved_if_exists\<close>; a failing stat counts as missing), \<open>load\<close> what reading
  and parsing a path gives. A parsed value is null, a mapping or any other leaf. \<open>push\<close> keeps
  the chain of paths with its index map as the code does; the theorems state it as
  \<open>remdups\<close> and the merge of all layers as a lookup that the last layer with a word on a key decides.
\<close>

section \<open>The chain of files\<close>

record 'p chain =
  ch_paths :: "'p list"
  ch_seen :: "('p, nat) dict"

definition empty_chain :: "'p chain" where
  "empty_chain = \<lparr>ch_paths = [], ch_seen = []\<rparr>"

definition push :: "'p \<Rightarrow> 'p chain \<Rightarrow> 'p chain" where
  "push p c =
     (let c' = (case dict_get (ch_seen c) p of
          None \<Rightarrow> c
        | Some i \<Rightarrow> \<lparr>ch_paths = take i (ch_paths c) @ drop (Suc i) (ch_paths c),
                     ch_seen = dict_del p (map (\<lambda>(k, v). (k, if v > i then v - 1 else v)) (ch_seen c))\<rparr>)
      in \<lparr>ch_paths = ch_paths c' @ [p], ch_seen = dict_set p (length (ch_paths c')) (ch_seen c')\<rparr>)"

text \<open>The entries of the environment variable, and the files they name.\<close>

definition env_entries :: "string option \<Rightarrow> string list" where
  "env_entries var =
     (let raw = strip (case var of None \<Rightarrow> [] | Some s \<Rightarrow> s) in
      if raw = [] then [] else filter (\<lambda>e. e \<noteq> []) (map strip (str_split '','' raw)))"

definition env_paths :: "(string \<Rightarrow> 'p) \<Rightarrow> ('p \<Rightarrow> 'p option) \<Rightarrow> string option \<Rightarrow> ('p \<times> 'p option) list" where
  "env_paths to_path resolve var = map (\<lambda>e. (to_path e, resolve (to_path e))) (env_entries var)"

text \<open>
  \<open>prepend\<close> are the bundled defaults; \<open>env\<close> is \<open>None\<close> when the caller names no variable, and else
  the value of that variable. The second component lists the paths warned about.
\<close>

definition push_some :: "'p option \<Rightarrow> 'p chain \<Rightarrow> 'p chain" where
  "push_some r c = (case r of None \<Rightarrow> c | Some p \<Rightarrow> push p c)"

definition layered_paths ::
  "(string \<Rightarrow> 'p) \<Rightarrow> ('p \<Rightarrow> 'p option) \<Rightarrow> 'p list \<Rightarrow> 'p \<Rightarrow> 'p \<Rightarrow> string option option \<Rightarrow> 'p list \<times> 'p list" where
  "layered_paths to_path resolve prepend user project env =
     (let c1 = fold (\<lambda>p c. push_some (resolve p) c) prepend empty_chain;
          c2 = push_some (resolve user) c1;
          c3 = push_some (resolve project) c2;
          pairs = (case env of None \<Rightarrow> [] | Some var \<Rightarrow> env_paths to_path resolve var)
      in (ch_paths (fold (\<lambda>(raw, r) c. push_some r c) pairs c3),
          map fst (filter (\<lambda>(raw, r). r = None) pairs)))"

section \<open>Merging\<close>

datatype 'v cfg = Null | Leaf 'v | Mapping "(string \<times> 'v cfg) list"

fun deep_merge :: "(string, 'v cfg) dict \<Rightarrow> (string, 'v cfg) dict \<Rightarrow> (string, 'v cfg) dict" where
  "deep_merge base [] = base"
| "deep_merge base ((k, v) # overlay) =
     deep_merge
       (case v of
          Null \<Rightarrow> dict_del k base
        | Mapping m \<Rightarrow> (case dict_get base k of
             Some (Mapping b) \<Rightarrow> dict_set k (Mapping (deep_merge b m)) base
           | _ \<Rightarrow> dict_set k (Mapping (deep_merge [] m)) base)
        | Leaf x \<Rightarrow> dict_set k (Leaf x) base)
       overlay"

text \<open>What loading one file gives: an error of reading or parsing, or a value.\<close>

datatype 'v loaded = Load_failed | Loaded "'v cfg"

fun merge_file :: "'v loaded \<Rightarrow> (string, 'v cfg) dict \<Rightarrow> (string, 'v cfg) dict" where
  "merge_file Load_failed merged = merged"
| "merge_file (Loaded Null) merged = merged"
| "merge_file (Loaded (Leaf x)) merged = merged"
| "merge_file (Loaded (Mapping m)) merged = deep_merge merged m"

definition load_layered_yaml :: "('p \<Rightarrow> 'v loaded) \<Rightarrow> 'p list \<Rightarrow> (string, 'v cfg) dict" where
  "load_layered_yaml load paths = fold (\<lambda>p. merge_file (load p)) paths []"

section \<open>The chain keeps the last occurrence of each path\<close>

text \<open>The index map is the inverse of the list.\<close>

definition chain_ok :: "'p chain \<Rightarrow> bool" where
  "chain_ok c \<longleftrightarrow> distinct (ch_paths c) \<and>
     (\<forall>p i. dict_get (ch_seen c) p = Some i \<longleftrightarrow> i < length (ch_paths c) \<and> ch_paths c ! i = p)"

lemma chain_ok_empty [simp]: "chain_ok empty_chain" "ch_paths empty_chain = []"
  by (simp_all add: chain_ok_def empty_chain_def)

lemma seen_iff: "chain_ok c \<Longrightarrow> dict_get (ch_seen c) p = None \<longleftrightarrow> p \<notin> set (ch_paths c)"
  unfolding chain_ok_def in_set_conv_nth by (metis not_None_eq)

lemma take_drop_filter:
  assumes "distinct xs" and "i < length xs"
  shows "take i xs @ drop (Suc i) xs = filter (\<lambda>x. x \<noteq> xs ! i) xs"
proof -
  have xs: "xs = take i xs @ xs ! i # drop (Suc i) xs" using assms(2) by (rule id_take_nth_drop)
  have "xs ! i \<notin> set (take i xs) \<union> set (drop (Suc i) xs)"
    using assms(1) by (subst (asm) xs) auto
  then have "filter (\<lambda>x. x \<noteq> xs ! i) (take i xs) = take i xs"
      "filter (\<lambda>x. x \<noteq> xs ! i) (drop (Suc i) xs) = drop (Suc i) xs"
    by (auto simp: filter_id_conv)
  then show ?thesis by (subst (3) xs) simp
qed

lemma push_paths:
  assumes "chain_ok c"
  shows "ch_paths (push p c) = filter (\<lambda>q. q \<noteq> p) (ch_paths c) @ [p]"
proof (cases "dict_get (ch_seen c) p")
  case None
  then have "p \<notin> set (ch_paths c)" using seen_iff [OF assms] by simp
  then have "filter (\<lambda>q. q \<noteq> p) (ch_paths c) = ch_paths c" by (auto simp: filter_id_conv)
  then show ?thesis using None by (simp add: push_def)
next
  case (Some i)
  with assms have "distinct (ch_paths c)" "i < length (ch_paths c)" "ch_paths c ! i = p"
    by (auto simp: chain_ok_def)
  with take_drop_filter [of "ch_paths c" i] Some show ?thesis by (simp add: push_def)
qed

lemma map_values_get: "dict_get (map (\<lambda>(k, v). (k, f v)) d) k = map_option f (dict_get d k)"
  by (induction d) auto

lemma push_ok:
  assumes "chain_ok c"
  shows "chain_ok (push p c)"
proof (cases "dict_get (ch_seen c) p")
  case None
  then have "p \<notin> set (ch_paths c)" using seen_iff [OF assms] by simp
  with assms None show ?thesis
    by (auto simp: chain_ok_def push_def nth_append less_Suc_eq in_set_conv_nth)
next
  case (Some i)
  let ?xs = "ch_paths c"
  let ?ys = "take i ?xs @ drop (Suc i) ?xs"
  from assms Some have d: "distinct ?xs" and i: "i < length ?xs" "?xs ! i = p"
    by (auto simp: chain_ok_def)
  have len: "length ?ys = length ?xs - 1" using i by simp
  have nth: "?ys ! j = (if j < i then ?xs ! j else ?xs ! Suc j)" if "j < length ?ys" for j
    using that i by (auto simp: nth_append)
  have old: "dict_get (ch_seen c) q = Some j \<longleftrightarrow> j < length ?xs \<and> ?xs ! j = q" for q j
    using assms by (simp add: chain_ok_def)
  let ?seen = "dict_del p (map (\<lambda>(k, v). (k, if v > i then v - 1 else v)) (ch_seen c))"
  have new: "dict_get ?seen q = Some j \<longleftrightarrow> j < length ?ys \<and> ?ys ! j = q" if "q \<noteq> p" for q j
  proof -
    have "dict_get ?seen q = Some j \<longleftrightarrow> (\<exists>k. k < length ?xs \<and> ?xs ! k = q \<and> j = (if k > i then k - 1 else k))"
    proof -
      have "dict_get ?seen q = map_option (\<lambda>v. if v > i then v - 1 else v) (dict_get (ch_seen c) q)"
        using that by (simp add: map_values_get [where f = "\<lambda>v. if v > i then v - 1 else v"])
      then have "dict_get ?seen q = Some j \<longleftrightarrow>
          (\<exists>k. dict_get (ch_seen c) q = Some k \<and> (if k > i then k - 1 else k) = j)"
        by (simp only: map_option_eq_Some)
      then show ?thesis by (simp only: old eq_commute [of j] conj_assoc)
    qed
    also have "\<dots> \<longleftrightarrow> j < length ?ys \<and> ?ys ! j = q"
    proof
      assume "\<exists>k. k < length ?xs \<and> ?xs ! k = q \<and> j = (if k > i then k - 1 else k)"
      then obtain k where k: "k < length ?xs" "?xs ! k = q" "j = (if k > i then k - 1 else k)" by blast
      with that i have "k \<noteq> i" by auto
      with k i show "j < length ?ys \<and> ?ys ! j = q" using nth [of j] len by (cases "k > i") auto
    next
      assume j: "j < length ?ys \<and> ?ys ! j = q"
      then show "\<exists>k. k < length ?xs \<and> ?xs ! k = q \<and> j = (if k > i then k - 1 else k)"
        using nth [of j] len i by (intro exI [of _ "if j < i then j else Suc j"]) (auto split: if_splits)
    qed
    finally show ?thesis .
  qed
  have "p \<notin> set ?ys" using take_drop_filter [OF d i(1)] i(2) by simp
  moreover have "distinct ?ys" using take_drop_filter [OF d i(1)] d by simp
  moreover have "dict_get (ch_seen (push p c)) q = Some j
      \<longleftrightarrow> j < length (ch_paths (push p c)) \<and> ch_paths (push p c) ! j = q" for q j
  proof (cases "q = p")
    case True
    then show ?thesis using Some \<open>p \<notin> set ?ys\<close> len i
      by (auto simp: push_def nth_append less_Suc_eq set_conv_nth)
  next
    case False
    then show ?thesis using Some new [OF False, of j] len i
      by (auto simp: push_def nth_append less_Suc_eq)
  qed
  ultimately show ?thesis using Some by (simp add: chain_ok_def) (simp add: push_def)
qed

lemma push_remdups:
  "chain_ok (fold push ps empty_chain) \<and> ch_paths (fold push ps empty_chain) = remdups ps"
  by (induction ps rule: rev_induct) (auto simp: push_ok push_paths remdups_snoc simp del: remdups.simps)

lemma push_some_fold:
  "fold (\<lambda>r c. push_some r c) rs c = fold push (List.map_filter id rs) c"
  by (induction rs arbitrary: c) (auto simp: push_some_def List.map_filter_def split: option.split)

lemma push_some_eq: "push_some r c = fold (\<lambda>r c. push_some r c) [r] c"
  by simp

text \<open>Among the bundled, user, project and environment files that exist, in this order, each
  canonical path is listed once, where its last occurrence stands.\<close>

theorem layered_paths_last_occurrence:
  "fst (layered_paths to_path resolve prepend user project env) =
     remdups (List.map_filter resolve
       (prepend @ [user, project] @ (case env of None \<Rightarrow> [] | Some var \<Rightarrow> map to_path (env_entries var))))"
proof -
  define rs where "rs = map resolve prepend @ [resolve user, resolve project] @
    (case env of None \<Rightarrow> [] | Some var \<Rightarrow> map (resolve \<circ> to_path) (env_entries var))"
  have pre: "fold (\<lambda>p c. push_some (resolve p) c) prepend c = fold (\<lambda>r c. push_some r c) (map resolve prepend) c" for c
    by (simp add: fold_map comp_def)
  have env: "fold (\<lambda>(raw, r) c. push_some r c) (case env of None \<Rightarrow> [] | Some var \<Rightarrow> env_paths to_path resolve var) c
      = fold (\<lambda>r c. push_some r c) (case env of None \<Rightarrow> [] | Some var \<Rightarrow> map (resolve \<circ> to_path) (env_entries var)) c" for c
    by (simp add: env_paths_def fold_map comp_def split: option.split)
  have "fst (layered_paths to_path resolve prepend user project env)
      = ch_paths (fold (\<lambda>r c. push_some r c) rs empty_chain)"
    by (simp add: layered_paths_def Let_def pre env rs_def)
  also have "\<dots> = remdups (List.map_filter id rs)"
    by (simp add: push_some_fold push_remdups [THEN conjunct2])
  also have "List.map_filter id rs = List.map_filter resolve
       (prepend @ [user, project] @ (case env of None \<Rightarrow> [] | Some var \<Rightarrow> map to_path (env_entries var)))"
    by (simp add: rs_def List.map_filter_def filter_map comp_def split: option.split)
  finally show ?thesis .
qed

section \<open>What a merge of layers holds\<close>

text \<open>A mapping read from YAML has distinct keys at every level.\<close>

fun wf_cfg :: "'v cfg \<Rightarrow> bool" where
  "wf_cfg Null = True"
| "wf_cfg (Leaf x) = True"
| "wf_cfg (Mapping m) = (distinct (map fst m) \<and> (\<forall>kv \<in> set m. wf_cfg (snd kv)))"

text \<open>The leaf at a path of keys.\<close>

fun leaf_at :: "(string, 'v cfg) dict \<Rightarrow> string list \<Rightarrow> 'v option" where
  "leaf_at d [] = None"
| "leaf_at d [k] = (case dict_get d k of Some (Leaf x) \<Rightarrow> Some x | _ \<Rightarrow> None)"
| "leaf_at d (k # k' # ks) = (case dict_get d k of Some (Mapping m) \<Rightarrow> leaf_at m (k' # ks) | _ \<Rightarrow> None)"

text \<open>
  What one layer says of the leaf at a path: nothing, that there is none (a null, or a value of
  another shape on the way), or its value.
\<close>

datatype 'v word_on = Keep | Remove | Put 'v

fun word_of :: "(string, 'v cfg) dict \<Rightarrow> string list \<Rightarrow> 'v word_on" where
  "word_of d [] = Keep"
| "word_of d [k] = (case dict_get d k of None \<Rightarrow> Keep | Some (Leaf x) \<Rightarrow> Put x | _ \<Rightarrow> Remove)"
| "word_of d (k # k' # ks) =
     (case dict_get d k of None \<Rightarrow> Keep | Some (Mapping m) \<Rightarrow> word_of m (k' # ks) | _ \<Rightarrow> Remove)"

fun obey :: "'v word_on \<Rightarrow> 'v option \<Rightarrow> 'v option" where
  "obey Keep old = old"
| "obey Remove old = None"
| "obey (Put x) old = Some x"

lemma deep_merge_get:
  assumes "distinct (map fst overlay)"
  shows "dict_get (deep_merge base overlay) k = (case dict_get overlay k of
      None \<Rightarrow> dict_get base k
    | Some Null \<Rightarrow> None
    | Some (Leaf x) \<Rightarrow> Some (Leaf x)
    | Some (Mapping m) \<Rightarrow> Some (Mapping (deep_merge
        (case dict_get base k of Some (Mapping b) \<Rightarrow> b | _ \<Rightarrow> []) m)))"
  using assms
proof (induction overlay arbitrary: base)
  case (Cons e overlay)
  obtain k1 v1 where e: "e = (k1, v1)" by (cases e)
  from Cons.prems have fresh: "dict_get overlay k1 = None" by (simp add: e map_of_eq_None_iff)
  have IH: "dict_get (deep_merge b overlay) k = (case dict_get overlay k of
      None \<Rightarrow> dict_get b k
    | Some Null \<Rightarrow> None
    | Some (Leaf x) \<Rightarrow> Some (Leaf x)
    | Some (Mapping m) \<Rightarrow> Some (Mapping (deep_merge
        (case dict_get b k of Some (Mapping b) \<Rightarrow> b | _ \<Rightarrow> []) m)))" for b
    by (rule Cons.IH) (use Cons.prems in simp)
  show ?case
  proof (cases "k = k1")
    case True
    then show ?thesis using fresh
      by (cases v1) (auto simp: e IH [unfolded True] split: option.split cfg.split)
  next
    case False
    define b1 where "b1 = (case v1 of
          Null \<Rightarrow> dict_del k1 base
        | Mapping m \<Rightarrow> (case dict_get base k1 of
             Some (Mapping b) \<Rightarrow> dict_set k1 (Mapping (deep_merge b m)) base
           | _ \<Rightarrow> dict_set k1 (Mapping (deep_merge [] m)) base)
        | Leaf x \<Rightarrow> dict_set k1 (Leaf x) base)"
    have get: "dict_get b1 k = dict_get base k"
      using False by (auto simp: b1_def split: cfg.split option.split)
    have step: "deep_merge base (e # overlay) = deep_merge b1 overlay" by (simp add: e b1_def)
    show ?thesis unfolding step IH get using False by (simp add: e)
  qed
qed simp

lemma leaf_at_nil [simp]: "leaf_at [] p = None"
  by (cases "([] :: (string, 'a cfg) dict, p)" rule: leaf_at.cases) auto

lemma deep_merge_obeys:
  assumes "wf_cfg (Mapping overlay)"
  shows "leaf_at (deep_merge base overlay) p = obey (word_of overlay p) (leaf_at base p)"
  using assms
proof (induction overlay p arbitrary: base rule: word_of.induct)
  case (2 d k)
  then show ?case by (auto simp: deep_merge_get split: option.split cfg.split)
next
  case (3 d k k' ks)
  have d: "distinct (map fst d)" using 3(2) by simp
  show ?case
  proof (cases "dict_get d k")
    case None
    then show ?thesis by (simp add: deep_merge_get [OF d])
  next
    case (Some v)
    show ?thesis
    proof (cases v)
      case (Mapping m)
      with Some have "wf_cfg (Mapping m)" using 3(2) map_of_SomeD [OF Some] by (metis snd_conv wf_cfg.simps(3))
      from 3(1) [OF Some Mapping this] have IH:
        "leaf_at (deep_merge b m) (k' # ks) = obey (word_of m (k' # ks)) (leaf_at b (k' # ks))" for b .
      have base: "leaf_at base (k # k' # ks)
          = leaf_at (case dict_get base k of Some (Mapping b) \<Rightarrow> b | _ \<Rightarrow> []) (k' # ks)"
        by (auto split: option.split cfg.split)
      show ?thesis using Some Mapping
        by (simp only: base) (simp add: deep_merge_get [OF d] IH)
    qed (use Some in \<open>simp_all add: deep_merge_get [OF d]\<close>)
  qed
qed simp

text \<open>The layers that count: files that loaded and hold a mapping.\<close>

fun layer_of :: "'v loaded \<Rightarrow> (string, 'v cfg) dict option" where
  "layer_of (Loaded (Mapping m)) = Some m"
| "layer_of _ = None"

lemma merge_file_layer: "merge_file l merged = (case layer_of l of None \<Rightarrow> merged | Some m \<Rightarrow> deep_merge merged m)"
  by (cases "(l, merged)" rule: merge_file.cases) auto

interpretation cfg: layering leaf_at "\<lambda>m base. deep_merge base m" "\<lambda>m p. obey (word_of m p)"
  "\<lambda>_. True" "\<lambda>m. wf_cfg (Mapping m)"
  by unfold_locales (simp_all add: deep_merge_obeys)

lemma load_layers:
  "load_layered_yaml load paths = fold (\<lambda>m base. deep_merge base m) (List.map_filter (\<lambda>q. layer_of (load q)) paths) []"
proof -
  have "fold (\<lambda>q. merge_file (load q)) paths b
    = fold (\<lambda>m base. deep_merge base m) (List.map_filter (\<lambda>q. layer_of (load q)) paths) b" for b
    by (induction paths arbitrary: b) (simp_all add: merge_file_layer List.map_filter_simps split: option.split)
  then show ?thesis by (simp add: load_layered_yaml_def)
qed

lemma layers_good:
  assumes "\<And>q c. q \<in> set paths \<Longrightarrow> load q = Loaded c \<Longrightarrow> wf_cfg c"
  shows "list_all (\<lambda>m. wf_cfg (Mapping m)) (List.map_filter (\<lambda>q. layer_of (load q)) paths)"
proof -
  have "wf_cfg (Mapping m)" if "q \<in> set paths" "layer_of (load q) = Some m" for q m
  proof -
    from that(2) have "load q = Loaded (Mapping m)" by (cases "load q" rule: layer_of.cases) auto
    with that(1) show ?thesis by (rule assms)
  qed
  then show ?thesis by (force simp: list_all_iff List.map_filter_def)
qed

lemma obey_last:
  "fold (\<lambda>m. obey (f m)) ms old = (case find (\<lambda>m. f m \<noteq> Keep) (rev ms) of
      None \<Rightarrow> old | Some m \<Rightarrow> obey (f m) None)"
proof (induction ms rule: rev_induct)
  case (snoc m ms)
  then show ?case by (cases "f m") auto
qed simp

text \<open>C37: The value at a path of keys in the merged configuration is the word of the highest-priority
  file that mentions the path: its value, or nothing if it has a null or another shape there.\<close>

theorem layered_config_last_word:
  assumes "\<And>q c. q \<in> set paths \<Longrightarrow> load q = Loaded c \<Longrightarrow> wf_cfg c"
  shows "leaf_at (load_layered_yaml load paths) p =
    (case find (\<lambda>m. word_of m p \<noteq> Keep) (rev (List.map_filter (\<lambda>q. layer_of (load q)) paths)) of
       None \<Rightarrow> None
     | Some m \<Rightarrow> obey (word_of m p) None)"
proof -
  have "list_all (\<lambda>m. wf_cfg (Mapping m)) (List.map_filter (\<lambda>q. layer_of (load q)) paths)"
    by (rule layers_good) (rule assms)
  from cfg.look_layers [OF TrueI this, of "[]" p] show ?thesis by (simp add: load_layers obey_last)
qed

text \<open>Three files: bundled defaults, a broken user file, and a project file that deletes one key.\<close>

definition ex_load :: "nat \<Rightarrow> int loaded" where
  "ex_load q = (if q = 0 then Loaded (Mapping [(''llm'', Mapping [(''retries'', Leaf 3), (''timeout'', Leaf 60)])])
     else if q = 1 then Load_failed
     else Loaded (Mapping [(''llm'', Mapping [(''retries'', Leaf 5), (''timeout'', Null)])]))"

lemma layered_config_last_word_witness:
  "list_all (\<lambda>q. case ex_load q of Load_failed \<Rightarrow> True | Loaded c \<Rightarrow> wf_cfg c) [0, 1, 2] \<and>
   leaf_at (load_layered_yaml ex_load [0, 1, 2]) [''llm'', ''retries''] = Some 5 \<and>
   leaf_at (load_layered_yaml ex_load [0, 1, 2]) [''llm'', ''timeout''] = None"
proof -
  have wf: "wf_cfg c" if "q \<in> set [0, 1, 2]" "ex_load q = Loaded c" for q :: nat and c
    using that by (auto simp: ex_load_def split: if_splits)
  note last = layered_config_last_word [of "[0, 1, 2]" ex_load, OF wf]
  have "leaf_at (load_layered_yaml ex_load [0, 1, 2]) [''llm'', ''retries''] = Some 5"
    by (subst last) (simp_all add: ex_load_def List.map_filter_def)
  moreover have "leaf_at (load_layered_yaml ex_load [0, 1, 2]) [''llm'', ''timeout''] = None"
    by (subst last) (simp_all add: ex_load_def List.map_filter_def)
  moreover have "list_all (\<lambda>q. case ex_load q of Load_failed \<Rightarrow> True | Loaded c \<Rightarrow> wf_cfg c) [0, 1, 2]"
    by code_simp
  ultimately show ?thesis by simp
qed

end
