(* ===== verification/Context_Manager.thy ===== *)
theory Context_Manager
  imports Py_Prelude
begin

text \<open>
  The context blocks of an agent: \<^verbatim>\<open>src/nooa/runtime/context_manager.py\<close> and the values
  \<^verbatim>\<open>Context\<close> and \<^verbatim>\<open>DynamicContext\<close> of \<^verbatim>\<open>src/nooa/context_blocks/models.py\<close>.

  A block holds a value or an expression that is evaluated for each prompt; the results of the
  evaluation are cached. Whether an expression compiles is the parameter \<open>compiles\<close>. An operation
  that raises does so before it changes anything, so it returns an error or the new state.
\<close>

section \<open>Block values\<close>

text \<open>A plain value, and what a block can hold: a plain value or a \<^verbatim>\<open>DynamicContext\<close>.\<close>

datatype 'a plain = P_None | P_text string | P_obj 'a

datatype 'a block = Val "'a plain" | Dyn string

text \<open>A \<^verbatim>\<open>Context\<close>: its text or expression, and whether it goes into the cacheable prefix.\<close>

datatype ctx_value = Ctx_text string bool | Ctx_expr string bool

text \<open>What \<^verbatim>\<open>self.context[key] = value\<close> can be given.\<close>

datatype 'a setval = Set_None | Set_context ctx_value | Set_dynamic string | Set_value "'a plain"

definition dynamic_context :: "(string \<Rightarrow> bool) \<Rightarrow> string \<Rightarrow> 'a block py_res" where
  "dynamic_context compiles expr = (if compiles expr then Inr (Dyn expr) else Inl BlockSyntaxError)"

definition make_context ::
  "(string \<Rightarrow> bool) \<Rightarrow> string option \<Rightarrow> string option \<Rightarrow> bool \<Rightarrow> ctx_value py_res" where
  "make_context compiles value expr in_prefix =
     (case (value, expr) of
        (Some _, Some _) \<Rightarrow> Inl TypeError
      | (None, None) \<Rightarrow> Inl TypeError
      | (Some t, None) \<Rightarrow> Inr (Ctx_text t in_prefix)
      | (None, Some e) \<Rightarrow> if compiles e then Inr (Ctx_expr e in_prefix) else Inl BlockSyntaxError)"

section \<open>The manager\<close>

record 'a cm =
  cm_blocks :: "(string, 'a block) dict"
  cm_protected :: "string set"
  cm_cache :: "(string, string option) dict"
  cm_static :: "(string, bool) dict"
  cm_disabled :: "string set"

definition cm_init :: "'a cm" where
  "cm_init = \<lparr>cm_blocks = [], cm_protected = {}, cm_cache = [], cm_static = [], cm_disabled = {}\<rparr>"

definition invalidate :: "string \<Rightarrow> 'a cm \<Rightarrow> 'a cm" where
  "invalidate key s = s\<lparr>cm_cache := dict_del key (cm_cache s)\<rparr>"

text \<open>The common end of every setter: the block, its partition, enabled, and no cached value.\<close>

definition put_block :: "string \<Rightarrow> 'a block \<Rightarrow> bool \<Rightarrow> 'a cm \<Rightarrow> 'a cm" where
  "put_block key b static s = invalidate key (s\<lparr>cm_blocks := dict_set key b (cm_blocks s),
     cm_static := dict_set key static (cm_static s), cm_disabled := cm_disabled s - {key}\<rparr>)"

text \<open>Setters take a value (a block, since a \<^verbatim>\<open>DynamicContext\<close> may be passed) or an expression.\<close>

definition set_static ::
  "(string \<Rightarrow> bool) \<Rightarrow> string \<Rightarrow> 'a block option \<Rightarrow> string option \<Rightarrow> 'a cm \<Rightarrow> 'a cm py_res" where
  "set_static compiles key value expr s =
     (if key \<in> cm_protected s then Inl ProtectedBlockError
      else case (value, expr) of
        (Some _, Some _) \<Rightarrow> Inl TypeError
      | (None, Some e) \<Rightarrow> py_bind (dynamic_context compiles e) (\<lambda>b. Inr (put_block key b True s))
      | (Some (Dyn _), None) \<Rightarrow> Inl TypeError
      | (Some b, None) \<Rightarrow> Inr (put_block key b True s)
      | (None, None) \<Rightarrow> Inl TypeError)"

definition set_dynamic ::
  "(string \<Rightarrow> bool) \<Rightarrow> string \<Rightarrow> string option \<Rightarrow> 'a block option \<Rightarrow> 'a cm \<Rightarrow> 'a cm py_res" where
  "set_dynamic compiles key expr value s =
     (if key \<in> cm_protected s then Inl ProtectedBlockError
      else case (expr, value) of
        (Some _, Some _) \<Rightarrow> Inl TypeError
      | (Some e, None) \<Rightarrow> py_bind (dynamic_context compiles e) (\<lambda>b. Inr (put_block key b False s))
      | (None, Some b) \<Rightarrow> Inr (put_block key b False s)
      | (None, None) \<Rightarrow> Inl TypeError)"

definition protect :: "string \<Rightarrow> 'a cm \<Rightarrow> 'a cm" where
  "protect key s = s\<lparr>cm_protected := insert key (cm_protected s)\<rparr>"

definition set_static_protected ::
  "(string \<Rightarrow> bool) \<Rightarrow> string \<Rightarrow> 'a block \<Rightarrow> string option \<Rightarrow> 'a cm \<Rightarrow> 'a cm py_res" where
  "set_static_protected compiles key value expr s =
     (case expr of
        Some e \<Rightarrow> py_bind (dynamic_context compiles e) (\<lambda>b. Inr (put_block key b True (protect key s)))
      | None \<Rightarrow> Inr (put_block key value True (protect key s)))"

definition set_dynamic_protected ::
  "(string \<Rightarrow> bool) \<Rightarrow> string \<Rightarrow> string option \<Rightarrow> 'a block option \<Rightarrow> 'a cm \<Rightarrow> 'a cm py_res" where
  "set_dynamic_protected compiles key expr value s =
     (case (expr, value) of
        (Some e, _) \<Rightarrow> py_bind (dynamic_context compiles e) (\<lambda>b. Inr (put_block key b False (protect key s)))
      | (None, Some b) \<Rightarrow> Inr (put_block key b False (protect key s))
      | (None, None) \<Rightarrow> Inl TypeError)"

definition drop_block :: "string \<Rightarrow> 'a cm \<Rightarrow> 'a cm" where
  "drop_block key s = s\<lparr>cm_blocks := dict_del key (cm_blocks s), cm_static := dict_del key (cm_static s)\<rparr>"

definition remove_protected :: "string \<Rightarrow> 'a cm \<Rightarrow> 'a cm py_res" where
  "remove_protected key s =
     (if dict_has (cm_blocks s) key then
        Inr (invalidate key ((drop_block key s)\<lparr>cm_protected := cm_protected s - {key},
          cm_disabled := cm_disabled s - {key}\<rparr>))
      else Inl KeyError)"

definition cm_disable :: "string list \<Rightarrow> 'a cm \<Rightarrow> 'a cm" where
  "cm_disable ks s = fold invalidate ks (s\<lparr>cm_disabled := cm_disabled s \<union> set ks\<rparr>)"

definition cm_enable :: "string list \<Rightarrow> 'a cm \<Rightarrow> 'a cm" where
  "cm_enable ks s = s\<lparr>cm_disabled := cm_disabled s - set ks\<rparr>"

definition is_disabled :: "string \<Rightarrow> 'a cm \<Rightarrow> bool" where
  "is_disabled key s = (key \<in> cm_disabled s)"

definition is_static :: "string \<Rightarrow> 'a cm \<Rightarrow> bool" where
  "is_static key s = (case dict_get (cm_static s) key of Some b \<Rightarrow> b | None \<Rightarrow> False)"

text \<open>Suppressing a block: disabled, and its definition dropped unless it is protected.\<close>

definition suppress :: "string \<Rightarrow> 'a cm \<Rightarrow> 'a cm" where
  "suppress key s =
     (let s' = cm_disable [key] s in
      if dict_has (cm_blocks s') key \<and> key \<notin> cm_protected s' then drop_block key s' else s')"

definition cm_setitem :: "(string \<Rightarrow> bool) \<Rightarrow> string \<Rightarrow> 'a setval \<Rightarrow> 'a cm \<Rightarrow> 'a cm py_res" where
  "cm_setitem compiles key value s =
     (case value of
        Set_None \<Rightarrow> Inr (suppress key s)
      | Set_context (Ctx_expr e True) \<Rightarrow>
          (if key \<in> cm_protected s then set_static_protected compiles key (Val P_None) (Some e) s
           else set_static compiles key None (Some e) s)
      | Set_context (Ctx_expr e False) \<Rightarrow>
          (if key \<in> cm_protected s then set_dynamic_protected compiles key (Some e) None s
           else set_dynamic compiles key (Some e) None s)
      | Set_context (Ctx_text t True) \<Rightarrow>
          (if key \<in> cm_protected s then set_static_protected compiles key (Val (P_text t)) None s
           else set_static compiles key (Some (Val (P_text t))) None s)
      | Set_context (Ctx_text t False) \<Rightarrow>
          (if key \<in> cm_protected s then set_dynamic_protected compiles key None (Some (Val (P_text t))) s
           else set_dynamic compiles key None (Some (Val (P_text t))) s)
      | Set_dynamic e \<Rightarrow>
          (if key \<in> cm_protected s then set_dynamic_protected compiles key (Some e) None s
           else set_dynamic compiles key (Some e) None s)
      | Set_value v \<Rightarrow> set_dynamic compiles key None (Some (Val v)) s)"

definition cm_set ::
  "(string \<Rightarrow> bool) \<Rightarrow> string \<Rightarrow> string option \<Rightarrow> string option \<Rightarrow> bool \<Rightarrow> 'a cm \<Rightarrow> 'a cm py_res" where
  "cm_set compiles key value expr in_prefix s =
     (case (value, expr) of
        (Some _, Some _) \<Rightarrow> Inl TypeError
      | (None, None) \<Rightarrow> cm_setitem compiles key Set_None s
      | (None, Some e) \<Rightarrow> py_bind (make_context compiles None (Some e) in_prefix)
                              (\<lambda>c. cm_setitem compiles key (Set_context c) s)
      | (Some t, None) \<Rightarrow>
          (if in_prefix then py_bind (make_context compiles (Some t) None True)
                              (\<lambda>c. cm_setitem compiles key (Set_context c) s)
           else cm_setitem compiles key (Set_value (P_text t)) s))"

text \<open>Reading: the value of a block is plain, or the cached result of its expression.\<close>

datatype 'a got = Got "'a plain" | Resolved "string option" | Marker string

definition cm_getitem :: "string \<Rightarrow> 'a cm \<Rightarrow> 'a got py_res" where
  "cm_getitem key s =
     (case dict_get (cm_blocks s) key of
        None \<Rightarrow> Inl KeyError
      | Some (Val v) \<Rightarrow> Inr (Got v)
      | Some (Dyn e) \<Rightarrow> (case dict_get (cm_cache s) key of
            None \<Rightarrow> Inl DynamicNotResolvedError | Some r \<Rightarrow> Inr (Resolved r)))"

definition cm_get :: "string \<Rightarrow> 'a got \<Rightarrow> 'a cm \<Rightarrow> 'a got py_res" where
  "cm_get key dflt s = (case cm_getitem key s of Inl KeyError \<Rightarrow> Inr dflt | r \<Rightarrow> r)"

definition cm_delitem :: "string \<Rightarrow> 'a cm \<Rightarrow> 'a cm py_res" where
  "cm_delitem key s =
     (if \<not> dict_has (cm_blocks s) key then Inl KeyError
      else if key \<in> cm_protected s then Inl ProtectedBlockError
      else Inr (invalidate key ((drop_block key s)\<lparr>cm_disabled := cm_disabled s - {key}\<rparr>)))"

definition cm_pop :: "string \<Rightarrow> 'a got option \<Rightarrow> 'a cm \<Rightarrow> ('a got \<times> 'a cm) py_res" where
  "cm_pop key dflt s =
     (case dict_get (cm_blocks s) key of
        None \<Rightarrow> (case dflt of Some d \<Rightarrow> Inr (d, s) | None \<Rightarrow> Inl KeyError)
      | Some raw \<Rightarrow>
          if key \<in> cm_protected s then Inl ProtectedBlockError
          else Inr (case raw of
                      Val v \<Rightarrow> Got v
                    | Dyn e \<Rightarrow> (case dict_get (cm_cache s) key of None \<Rightarrow> Marker e | Some r \<Rightarrow> Resolved r),
                    invalidate key ((drop_block key s)\<lparr>cm_disabled := cm_disabled s - {key}\<rparr>)))"

definition cm_contains :: "string \<Rightarrow> 'a cm \<Rightarrow> bool" where
  "cm_contains key s = dict_has (cm_blocks s) key"

definition cm_len :: "'a cm \<Rightarrow> nat" where
  "cm_len s = length (cm_blocks s)"


definition apply_override :: "(string \<Rightarrow> bool) \<Rightarrow> string \<Rightarrow> 'a setval \<Rightarrow> 'a cm \<Rightarrow> 'a cm py_res" where
  "apply_override compiles key value s =
     (case value of
        Set_None \<Rightarrow> Inr (suppress key s)
      | Set_context c \<Rightarrow> cm_setitem compiles key (Set_context c) s
      | Set_dynamic e \<Rightarrow>
          (if key \<in> cm_protected s then
             (if is_static key s then set_static_protected compiles key (Val P_None) (Some e) s
              else set_dynamic_protected compiles key (Some e) None s)
           else set_dynamic compiles key (Some e) None s)
      | Set_value v \<Rightarrow>
          (if key \<in> cm_protected s then
             (if is_static key s then set_static_protected compiles key (Val v) None s
              else set_dynamic_protected compiles key None (Some (Val v)) s)
           else cm_setitem compiles key (Set_value v) s))"

definition update_resolved :: "(string, string option) dict \<Rightarrow> 'a cm \<Rightarrow> 'a cm" where
  "update_resolved resolved s = s\<lparr>cm_cache := dict_update (cm_cache s) resolved\<rparr>"

definition apply_context_dict :: "(string \<Rightarrow> bool) \<Rightarrow> (string \<times> 'a setval) list \<Rightarrow> 'a cm \<Rightarrow> 'a cm py_res" where
  "apply_context_dict compiles blocks s =
     fold (\<lambda>(k, v) r. py_bind r (apply_override compiles k v)) blocks (Inr s)"

section \<open>Operations as data\<close>

text \<open>The operations that code written by the model can call, and those of the framework.\<close>

datatype 'a cm_op =
    Op_setitem string "'a setval"
  | Op_set string "string option" "string option" bool
  | Op_set_static string "'a block option" "string option"
  | Op_set_dynamic string "string option" "'a block option"
  | Op_del string
  | Op_pop string "'a got option"
  | Op_disable "string list"
  | Op_enable "string list"
  | Op_override string "'a setval"
  | Op_static_protected string "'a block" "string option"
  | Op_dynamic_protected string "string option" "'a block option"
  | Op_remove_protected string

text \<open>An operation that raises leaves the state as it was.\<close>

definition keep_on_error :: "'s \<Rightarrow> 's py_res \<Rightarrow> 's" where
  "keep_on_error s r = (case r of Inl e \<Rightarrow> s | Inr s' \<Rightarrow> s')"

definition cm_step :: "(string \<Rightarrow> bool) \<Rightarrow> 'a cm_op \<Rightarrow> 'a cm \<Rightarrow> 'a cm" where
  "cm_step compiles op s = (case op of
     Op_setitem k v \<Rightarrow> keep_on_error s (cm_setitem compiles k v s)
   | Op_set k v e p \<Rightarrow> keep_on_error s (cm_set compiles k v e p s)
   | Op_set_static k v e \<Rightarrow> keep_on_error s (set_static compiles k v e s)
   | Op_set_dynamic k e v \<Rightarrow> keep_on_error s (set_dynamic compiles k e v s)
   | Op_del k \<Rightarrow> keep_on_error s (cm_delitem k s)
   | Op_pop k d \<Rightarrow> keep_on_error s (py_bind (cm_pop k d s) (\<lambda>(_, s'). Inr s'))
   | Op_disable ks \<Rightarrow> cm_disable ks s
   | Op_enable ks \<Rightarrow> cm_enable ks s
   | Op_override k v \<Rightarrow> keep_on_error s (apply_override compiles k v s)
   | Op_static_protected k v e \<Rightarrow> keep_on_error s (set_static_protected compiles k v e s)
   | Op_dynamic_protected k e v \<Rightarrow> keep_on_error s (set_dynamic_protected compiles k e v s)
   | Op_remove_protected k \<Rightarrow> keep_on_error s (remove_protected k s))"

lemma keep_on_error_simps [simp]: "keep_on_error s (Inl e) = s" "keep_on_error s (Inr s') = s'"
  by (simp_all add: keep_on_error_def)

section \<open>The invariant\<close>

text \<open>
  Keys are unique, every block has a partition and only blocks have one, every protected key has a
  block, and only enabled blocks that hold an expression have a cached value.
\<close>

definition cm_inv :: "'a cm \<Rightarrow> bool" where
  "cm_inv s \<longleftrightarrow> distinct (dict_keys (cm_blocks s)) \<and> distinct (dict_keys (cm_cache s)) \<and>
     (\<forall>k. dict_get (cm_static s) k = None \<longleftrightarrow> dict_get (cm_blocks s) k = None) \<and>
     (\<forall>k \<in> cm_protected s. dict_get (cm_blocks s) k \<noteq> None) \<and>
     (\<forall>k r. dict_get (cm_cache s) k = Some r \<longrightarrow>
        k \<notin> cm_disabled s \<and> (\<exists>e. dict_get (cm_blocks s) k = Some (Dyn e)))"

declare map_of_eq_Some_iff [simp del] Some_eq_map_of_iff [simp del]

named_theorems cm_keeps \<open>operations that keep the invariant\<close>

lemma cm_inv_init: "cm_inv cm_init"
  by (simp add: cm_inv_def cm_init_def)

lemma cm_inv_put [cm_keeps]: "cm_inv s \<Longrightarrow> cm_inv (put_block key b static s)"
  by (auto simp: cm_inv_def put_block_def invalidate_def split: if_splits)

lemma cm_inv_put_protect [cm_keeps]: "cm_inv s \<Longrightarrow> cm_inv (put_block key b static (protect key s))"
  by (auto simp: cm_inv_def put_block_def invalidate_def protect_def split: if_splits)

lemma fold_invalidate:
  "cm_blocks (fold invalidate ks s) = cm_blocks s" "cm_protected (fold invalidate ks s) = cm_protected s"
  "cm_static (fold invalidate ks s) = cm_static s" "cm_disabled (fold invalidate ks s) = cm_disabled s"
  "dict_get (cm_cache (fold invalidate ks s)) k = (if k \<in> set ks then None else dict_get (cm_cache s) k)"
  "distinct (dict_keys (cm_cache s)) \<Longrightarrow> distinct (dict_keys (cm_cache (fold invalidate ks s)))"
  by (induction ks arbitrary: s) (auto simp: invalidate_def)

lemma cm_inv_disable [cm_keeps]: "cm_inv s \<Longrightarrow> cm_inv (cm_disable ks s)"
  by (auto simp: cm_inv_def cm_disable_def fold_invalidate split: if_splits)

lemma cm_inv_enable [cm_keeps]: "cm_inv s \<Longrightarrow> cm_inv (cm_enable ks s)"
  by (auto simp: cm_inv_def cm_enable_def)

lemma cm_inv_suppress [cm_keeps]: "cm_inv s \<Longrightarrow> cm_inv (suppress key s)"
  by (auto simp: cm_inv_def suppress_def cm_disable_def drop_block_def invalidate_def Let_def split: if_splits)

lemma dynamic_context_ok: "dynamic_context compiles e = Inr b \<longleftrightarrow> compiles e \<and> b = Dyn e"
  by (auto simp: dynamic_context_def)

lemmas setter_defs = set_static_def set_dynamic_def set_static_protected_def set_dynamic_protected_def

lemma cm_inv_setters [cm_keeps]:
  "cm_inv s \<Longrightarrow> set_static compiles key v e s = Inr s' \<Longrightarrow> cm_inv s'"
  "cm_inv s \<Longrightarrow> set_dynamic compiles key e v s = Inr s' \<Longrightarrow> cm_inv s'"
  "cm_inv s \<Longrightarrow> set_static_protected compiles key b e s = Inr s' \<Longrightarrow> cm_inv s'"
  "cm_inv s \<Longrightarrow> set_dynamic_protected compiles key e v s = Inr s' \<Longrightarrow> cm_inv s'"
  by (auto simp: setter_defs py_bind_Inr_iff dynamic_context_ok cm_keeps
      split: if_splits option.splits block.splits)

lemma cm_inv_setitem [cm_keeps]: "cm_inv s \<Longrightarrow> cm_setitem compiles key v s = Inr s' \<Longrightarrow> cm_inv s'"
  by (auto simp: cm_setitem_def split: setval.splits ctx_value.splits if_splits bool.splits
      dest: cm_inv_setters cm_inv_suppress)

lemma cm_inv_set [cm_keeps]: "cm_inv s \<Longrightarrow> cm_set compiles key v e p s = Inr s' \<Longrightarrow> cm_inv s'"
  by (auto simp: cm_set_def py_bind_Inr_iff split: option.splits if_splits dest: cm_inv_setitem)

lemma cm_inv_delitem [cm_keeps]: "cm_inv s \<Longrightarrow> cm_delitem key s = Inr s' \<Longrightarrow> cm_inv s'"
  by (auto simp: cm_inv_def cm_delitem_def drop_block_def invalidate_def split: if_splits)

lemma cm_inv_pop [cm_keeps]: "cm_inv s \<Longrightarrow> cm_pop key d s = Inr (v, s') \<Longrightarrow> cm_inv s'"
  by (auto simp: cm_inv_def cm_pop_def drop_block_def invalidate_def split: if_splits option.splits)

lemma cm_inv_remove_protected [cm_keeps]: "cm_inv s \<Longrightarrow> remove_protected key s = Inr s' \<Longrightarrow> cm_inv s'"
  by (auto simp: cm_inv_def remove_protected_def drop_block_def invalidate_def split: if_splits)

lemma cm_inv_override [cm_keeps]: "cm_inv s \<Longrightarrow> apply_override compiles key v s = Inr s' \<Longrightarrow> cm_inv s'"
  by (auto simp: apply_override_def split: setval.splits if_splits
      dest: cm_inv_setters cm_inv_suppress cm_inv_setitem)

lemma cm_inv_step: "cm_inv s \<Longrightarrow> cm_inv (cm_step compiles op s)"
proof -
  assume s: "cm_inv s"
  have keep: "cm_inv (keep_on_error s r)" if "\<And>s'. r = Inr s' \<Longrightarrow> cm_inv s'" for r
    using s that by (cases r) auto
  show ?thesis using s
    by (cases op) (auto simp: cm_step_def py_bind_Inr_iff intro!: keep cm_inv_disable cm_inv_enable
        dest: cm_inv_setters cm_inv_setitem cm_inv_set cm_inv_delitem cm_inv_pop cm_inv_remove_protected
          cm_inv_override)
qed

section \<open>Protected blocks\<close>



definition same_block :: "string \<Rightarrow> 'a cm \<Rightarrow> 'a cm \<Rightarrow> bool" where
  "same_block k s s' \<longleftrightarrow> (k \<in> cm_protected s \<longrightarrow> k \<in> cm_protected s' \<and>
     dict_get (cm_blocks s') k = dict_get (cm_blocks s) k \<and> dict_get (cm_static s') k = dict_get (cm_static s) k)"

lemma same_block_refl [simp]: "same_block k s s"
  by (simp add: same_block_def)


















text \<open>
  The protection has a hole: assigning a \<^verbatim>\<open>Context\<close> or \<^verbatim>\<open>DynamicContext\<close>, or calling \<^verbatim>\<open>set\<close> with a prefix or an
  expression, replaces a protected block.
\<close>

lemma protected_block_overwritten:
  assumes "key \<in> cm_protected s"
  shows "\<exists>s'. cm_set compiles key (Some t) None True s = Inr s' \<and> dict_get (cm_blocks s') key = Some (Val (P_text t))"
  using assms by (simp add: cm_set_def make_context_def cm_setitem_def set_static_protected_def
      put_block_def invalidate_def)

end
