(* ===== verification/Event_Backend.thy ===== *)
theory Event_Backend
  imports Py_Prelude
begin

text \<open>
  Events and their storage: \<^verbatim>\<open>src/nooa/context_blocks/events.py\<close>, the class \<^verbatim>\<open>Summary\<close> of
  \<^verbatim>\<open>src/nooa/events.py\<close> and \<^verbatim>\<open>src/nooa/runtime/event_backend.py\<close>.

  The protocol \<^verbatim>\<open>EventBackend\<close> is the record \<open>backend_ops\<close> of its methods over a
  backend state; the locale \<open>event_backend\<close> states the laws its docstrings promise, and
  the interpretation \<open>imb\<close> discharges them for \<^verbatim>\<open>InMemoryBackend\<close>.

  \<^verbatim>\<open>InMemoryBackend\<close> keeps event objects in a list and in a dictionary; both hold
  references to the same objects, so \<open>update\<close> and \<open>set_status\<close> are visible through both.
  The model has an explicit heap of event objects; \<open>store\<close> puts the object it is given in a
  fresh cell (an event object is handed over once; a caller's own later mutation of an
  object it kept is outside the model).
\<close>

section \<open>Events\<close>

type_synonym tag = string
type_synonym ref = nat

text \<open>Python values as they occur in metadata and event fields.\<close>

datatype py_val = VNone | VStr string | VInt int | VBool bool | VList "py_val list"

datatype role = SYSTEM | USER | ASSISTANT | TOOL | RUNTIME_EVENT | METADATA

datatype event_status = ACTIVE | ARCHIVED

text \<open>The fields that the subclass \<^verbatim>\<open>Summary\<close> adds.\<close>

record summary_fields =
  summary_tag :: tag
  replaced_range :: "int \<times> int"
  children_tags :: "tag list"
  summary_text :: "string option"
  summary_doc :: string

text \<open>
  \<open>ev_class\<close> is the name of the Python class, \<open>ev_role\<close> its class variable \<^verbatim>\<open>_role\<close>,
  \<open>ev_summary\<close> is present exactly for instances of \<^verbatim>\<open>Summary\<close>, \<open>ev_execution_status\<close> is the
  value of that attribute where the class has it, \<open>ev_fields\<close> are the public fields of the
  subclass.
\<close>

record event =
  ev_class :: string
  ev_event_type :: string
  ev_role :: role
  ev_id :: string
  ev_metadata :: "(string, py_val) dict"
  ev_status :: event_status
  ev_tag :: "tag option"
  ev_summary :: "summary_fields option"
  ev_execution_status :: "string option"
  ev_fields :: "(string, py_val) dict"

text \<open>\<^verbatim>\<open>_is_empty\<close>: what is left out of the model-facing serialisation.\<close>

fun val_is_empty :: "py_val \<Rightarrow> bool" where
  "val_is_empty VNone = True"
| "val_is_empty (VStr s) = (s = [])"
| "val_is_empty (VList l) = (l = [])"
| "val_is_empty (VInt _) = False"
| "val_is_empty (VBool _) = False"

text \<open>
  A keyword argument of \<^verbatim>\<open>update(tag, **fields)\<close>. \<open>UField\<close> names a field of the event's
  subclass; the other constructors are the fields every event has. The timestamp and the fields of a
  \<^verbatim>\<open>Summary\<close> are not updated.
\<close>

datatype field_update =
    UMetadata "(string, py_val) dict"
  | UStatus event_status
  | UTag "tag option"
  | UEventType string
  | UId string
  | UField string py_val

fun apply_update :: "field_update \<Rightarrow> event \<Rightarrow> event" where
  "apply_update (UMetadata m) e = e\<lparr>ev_metadata := dict_update (ev_metadata e) m\<rparr>"
| "apply_update (UStatus s) e = e\<lparr>ev_status := s\<rparr>"
| "apply_update (UTag t) e = e\<lparr>ev_tag := t\<rparr>"
| "apply_update (UEventType t) e = e\<lparr>ev_event_type := t\<rparr>"
| "apply_update (UId i) e = e\<lparr>ev_id := i\<rparr>"
| "apply_update (UField k v) e =
     (if dict_has (ev_fields e) k then e\<lparr>ev_fields := dict_set k v (ev_fields e)\<rparr> else e)"

definition apply_updates :: "field_update list \<Rightarrow> event \<Rightarrow> event" where
  "apply_updates us e = fold apply_update us e"

section \<open>Tags\<close>

text \<open>\<^verbatim>\<open>_tag_max_num\<close>: the highest number a tag encodes, 0 for one that is not numeric.\<close>

definition tag_max_num :: "tag \<Rightarrow> int" where
  "tag_max_num t =
     (case (if str_contains ''..'' t then py_int (str_split ''..'' t ! 1) else py_int t) of
        None \<Rightarrow> 0 | Some n \<Rightarrow> n)"

text \<open>A range tag as \<^verbatim>\<open>collapse\<close> writes it.\<close>

definition range_tag :: "int \<Rightarrow> int \<Rightarrow> tag" where
  "range_tag a b = int_str a @ ''..'' @ int_str b"

lemma range_tag_contains [simp]: "str_contains ''..'' (range_tag a b)"
  unfolding range_tag_def by (rule str_contains_append)

lemma range_tag_split [simp]: "str_split ''..'' (range_tag a b) = [int_str a, int_str b]"
  using split_aux_sep [OF int_str_no_dot int_str_no_dot, where acc = "[]"]
  by (simp add: str_split_def range_tag_def)

lemma tag_max_num_int [simp]: "tag_max_num (int_str n) = n"
  by (simp add: tag_max_num_def)

lemma tag_max_num_range [simp]: "tag_max_num (range_tag a b) = b"
  by (simp add: tag_max_num_def)

section \<open>The backend protocol\<close>

record 'b backend_ops =
  be_store :: "tag \<Rightarrow> event \<Rightarrow> 'b \<Rightarrow> 'b"
  be_get :: "tag \<Rightarrow> 'b \<Rightarrow> event option"
  be_get_by_id :: "string \<Rightarrow> 'b \<Rightarrow> event option"
  be_update :: "tag \<Rightarrow> field_update list \<Rightarrow> 'b \<Rightarrow> bool \<times> 'b"
  be_remove :: "tag \<Rightarrow> 'b \<Rightarrow> bool \<times> 'b"
  be_set_status :: "tag \<Rightarrow> event_status \<Rightarrow> 'b \<Rightarrow> bool \<times> 'b"
  be_active_tags :: "'b \<Rightarrow> tag list"
  be_insert_active_tag :: "tag \<Rightarrow> int \<Rightarrow> 'b \<Rightarrow> 'b"
  be_remove_active_tag :: "tag \<Rightarrow> 'b \<Rightarrow> bool \<times> 'b"
  be_all_events :: "'b \<Rightarrow> event list"
  be_find_tag :: "event \<Rightarrow> 'b \<Rightarrow> tag option"
  be_clear :: "'b \<Rightarrow> 'b"
  be_allocate_next_tag :: "'b \<Rightarrow> tag \<times> 'b"
  be_len :: "'b \<Rightarrow> nat"

section \<open>InMemoryBackend\<close>

record imb =
  imb_heap :: "event list"
  imb_events :: "ref list"
  imb_tag_to_event :: "(tag, ref) dict"
  imb_active :: "tag list"
  imb_next_tag_num :: int

definition imb_obj :: "imb \<Rightarrow> ref \<Rightarrow> event" where
  "imb_obj b r = imb_heap b ! r"

lemma imb_obj_alt: "imb_obj b = (!) (imb_heap b)"
  by (simp add: imb_obj_def fun_eq_iff)

definition imb_max_tag_num :: "imb \<Rightarrow> int" where
  "imb_max_tag_num b =
     (if imb_tag_to_event b = [] then 0
      else Max (set (map tag_max_num (dict_keys (imb_tag_to_event b)))))"

definition imb_init :: imb where
  "imb_init =
     (let b = \<lparr>imb_heap = [], imb_events = [], imb_tag_to_event = [], imb_active = [],
               imb_next_tag_num = 0\<rparr>
      in b\<lparr>imb_next_tag_num := imb_max_tag_num b + 1\<rparr>)"

definition imb_store :: "tag \<Rightarrow> event \<Rightarrow> imb \<Rightarrow> imb" where
  "imb_store t e b =
     (let r = length (imb_heap b) in
      b\<lparr>imb_heap := imb_heap b @ [e],
        imb_events := imb_events b @ [r],
        imb_tag_to_event := dict_set t r (imb_tag_to_event b),
        imb_active := imb_active b @ [t],
        imb_next_tag_num := max (imb_next_tag_num b) (tag_max_num t + 1)\<rparr>)"

definition imb_get :: "tag \<Rightarrow> imb \<Rightarrow> event option" where
  "imb_get t b = map_option (imb_obj b) (dict_get (imb_tag_to_event b) t)"

definition imb_all_events :: "imb \<Rightarrow> event list" where
  "imb_all_events b = map (imb_obj b) (imb_events b)"

definition imb_get_by_id :: "string \<Rightarrow> imb \<Rightarrow> event option" where
  "imb_get_by_id i b = find (\<lambda>e. ev_id e = i) (imb_all_events b)"

definition imb_modify :: "tag \<Rightarrow> (event \<Rightarrow> event) \<Rightarrow> imb \<Rightarrow> bool \<times> imb" where
  "imb_modify t f b =
     (case dict_get (imb_tag_to_event b) t of
        None \<Rightarrow> (False, b)
      | Some r \<Rightarrow> (True, b\<lparr>imb_heap := (imb_heap b)[r := f (imb_obj b r)]\<rparr>))"

definition imb_update :: "tag \<Rightarrow> field_update list \<Rightarrow> imb \<Rightarrow> bool \<times> imb" where
  "imb_update t us b = imb_modify t (apply_updates us) b"

definition imb_set_status :: "tag \<Rightarrow> event_status \<Rightarrow> imb \<Rightarrow> bool \<times> imb" where
  "imb_set_status t s b = imb_modify t (\<lambda>e. e\<lparr>ev_status := s\<rparr>) b"

text \<open>Pop the first element that satisfies the test.\<close>

fun pop_first :: "('a \<Rightarrow> bool) \<Rightarrow> 'a list \<Rightarrow> 'a list" where
  "pop_first p [] = []"
| "pop_first p (x # xs) = (if p x then xs else x # pop_first p xs)"

definition imb_remove :: "tag \<Rightarrow> imb \<Rightarrow> bool \<times> imb" where
  "imb_remove t b =
     (case dict_get (imb_tag_to_event b) t of
        None \<Rightarrow> (False, b)
      | Some r \<Rightarrow>
          (True,
           b\<lparr>imb_tag_to_event := dict_del t (imb_tag_to_event b),
             imb_active := remove1 t (imb_active b),
             imb_events :=
               pop_first (\<lambda>r'. ev_id (imb_obj b r') = ev_id (imb_obj b r)) (imb_events b)\<rparr>))"

definition imb_insert_active_tag :: "tag \<Rightarrow> int \<Rightarrow> imb \<Rightarrow> imb" where
  "imb_insert_active_tag t i b =
     b\<lparr>imb_active := slice_to (imb_active b) i @ t # slice_from (imb_active b) i\<rparr>"

definition imb_remove_active_tag :: "tag \<Rightarrow> imb \<Rightarrow> bool \<times> imb" where
  "imb_remove_active_tag t b =
     (if t \<in> set (imb_active b) then (True, b\<lparr>imb_active := remove1 t (imb_active b)\<rparr>)
      else (False, b))"

definition imb_find_tag :: "event \<Rightarrow> imb \<Rightarrow> tag option" where
  "imb_find_tag e b =
     map_option fst (find (\<lambda>(t, r). ev_id (imb_obj b r) = ev_id e) (imb_tag_to_event b))"

definition imb_clear :: "imb \<Rightarrow> imb" where
  "imb_clear b =
     b\<lparr>imb_events := [], imb_tag_to_event := [], imb_active := [], imb_next_tag_num := 1\<rparr>"

definition imb_allocate_next_tag :: "imb \<Rightarrow> tag \<times> imb" where
  "imb_allocate_next_tag b =
     (int_str (imb_next_tag_num b), b\<lparr>imb_next_tag_num := imb_next_tag_num b + 1\<rparr>)"

definition imb_len :: "imb \<Rightarrow> nat" where
  "imb_len b = length (imb_events b)"

definition inmem_ops :: "imb backend_ops" where
  "inmem_ops =
     \<lparr>be_store = imb_store, be_get = imb_get, be_get_by_id = imb_get_by_id,
      be_update = imb_update, be_remove = imb_remove, be_set_status = imb_set_status,
      be_active_tags = imb_active, be_insert_active_tag = imb_insert_active_tag,
      be_remove_active_tag = imb_remove_active_tag, be_all_events = imb_all_events,
      be_find_tag = imb_find_tag, be_clear = imb_clear,
      be_allocate_next_tag = imb_allocate_next_tag, be_len = imb_len\<rparr>"

lemma inmem_ops_simps [simp]:
  "be_store inmem_ops = imb_store" "be_get inmem_ops = imb_get"
  "be_get_by_id inmem_ops = imb_get_by_id" "be_update inmem_ops = imb_update"
  "be_remove inmem_ops = imb_remove" "be_set_status inmem_ops = imb_set_status"
  "be_active_tags inmem_ops = imb_active"
  "be_insert_active_tag inmem_ops = imb_insert_active_tag"
  "be_remove_active_tag inmem_ops = imb_remove_active_tag"
  "be_all_events inmem_ops = imb_all_events" "be_find_tag inmem_ops = imb_find_tag"
  "be_clear inmem_ops = imb_clear" "be_allocate_next_tag inmem_ops = imb_allocate_next_tag"
  "be_len inmem_ops = imb_len"
  by (simp_all add: inmem_ops_def)

text \<open>
  The representation invariant: references point into the heap, no tag is entered twice, no
  two tags share an object, and the counter is above every number a stored tag encodes.
\<close>

definition imb_inv :: "imb \<Rightarrow> bool" where
  "imb_inv b \<longleftrightarrow>
     (\<forall>r \<in> set (imb_events b) \<union> snd ` set (imb_tag_to_event b). r < length (imb_heap b)) \<and>
     distinct (dict_keys (imb_tag_to_event b)) \<and>
     distinct (map snd (imb_tag_to_event b)) \<and>
     0 < imb_next_tag_num b \<and>
     (\<forall>t \<in> set (dict_keys (imb_tag_to_event b)). tag_max_num t < imb_next_tag_num b)"


lemma imb_invI:
  assumes "\<And>r. r \<in> set (imb_events b) \<Longrightarrow> r < length (imb_heap b)"
    and "\<And>r. r \<in> snd ` set (imb_tag_to_event b) \<Longrightarrow> r < length (imb_heap b)"
    and "distinct (dict_keys (imb_tag_to_event b))" and "distinct (map snd (imb_tag_to_event b))"
    and "0 < imb_next_tag_num b"
    and "\<And>t. t \<in> set (dict_keys (imb_tag_to_event b)) \<Longrightarrow> tag_max_num t < imb_next_tag_num b"
  shows "imb_inv b"
  using assms by (auto simp: imb_inv_def)

lemma imb_inv_init: "imb_inv imb_init"
  by (simp add: imb_inv_def imb_init_def Let_def imb_max_tag_num_def)

lemma snd_dict_set: "snd ` set (dict_set k v d) \<subseteq> insert v (snd ` set d)"
  by (induction d) auto

lemma distinct_snd_dict_set:
  "distinct (map snd d) \<Longrightarrow> v \<notin> snd ` set d \<Longrightarrow> distinct (map snd (dict_set k v d))"
proof (induction d)
  case (Cons p d)
  then show ?case using snd_dict_set [of k v d] by (cases p) auto
qed simp

lemma snd_dict_del: "snd ` set (dict_del k d) \<subseteq> snd ` set d"
  by (induction d) auto

lemma distinct_snd_dict_del: "distinct (map snd d) \<Longrightarrow> distinct (map snd (dict_del k d))"
proof (induction d)
  case (Cons p d)
  then show ?case using snd_dict_del [of k d] by (cases p) auto
qed simp

lemma set_pop_first: "set (pop_first p xs) \<subseteq> set xs"
  by (induction xs) auto

lemma map_of_snd: "map_of d k = Some v \<Longrightarrow> v \<in> snd ` set d"
  by (force dest: map_of_SomeD)

lemma map_of_inj_snd:
  "distinct (map snd d) \<Longrightarrow> map_of d k = Some v \<Longrightarrow> map_of d k' = Some v \<Longrightarrow> k = k'"
  by (induction d) (auto split: if_splits dest: map_of_snd)

lemma imb_inv_refs: "imb_inv b \<Longrightarrow> r \<in> snd ` set (imb_tag_to_event b) \<Longrightarrow> r < length (imb_heap b)"
  by (simp add: imb_inv_def)

lemma imb_inv_ref: "imb_inv b \<Longrightarrow> map_of (imb_tag_to_event b) t = Some r \<Longrightarrow> r < length (imb_heap b)"
  by (rule imb_inv_refs [OF _ map_of_snd])

lemma imb_inv_keys:
  assumes "imb_inv b"
  shows "distinct (dict_keys (imb_tag_to_event b))" "distinct (map snd (imb_tag_to_event b))"
    "0 < imb_next_tag_num b"
    "t \<in> set (dict_keys (imb_tag_to_event b)) \<Longrightarrow> tag_max_num t < imb_next_tag_num b"
  using assms by (auto simp: imb_inv_def)

lemma imb_inv_events: "imb_inv b \<Longrightarrow> r \<in> set (imb_events b) \<Longrightarrow> r < length (imb_heap b)"
  by (simp add: imb_inv_def)

lemma imb_inv_store: "imb_inv b \<Longrightarrow> imb_inv (imb_store t e b)"
proof (rule imb_invI)
  assume inv: "imb_inv b"
  let ?b = "imb_store t e b"
  have f: "imb_events ?b = imb_events b @ [length (imb_heap b)]"
    "imb_tag_to_event ?b = dict_set t (length (imb_heap b)) (imb_tag_to_event b)"
    "length (imb_heap ?b) = Suc (length (imb_heap b))"
    "imb_next_tag_num ?b = max (imb_next_tag_num b) (tag_max_num t + 1)"
    by (simp_all add: imb_store_def Let_def)
  show "r < length (imb_heap ?b)" if "r \<in> set (imb_events ?b)" for r
    using imb_inv_events [OF inv, of r] that by (auto simp: f)
  show "r < length (imb_heap ?b)" if "r \<in> snd ` set (imb_tag_to_event ?b)" for r
  proof -
    from subsetD [OF snd_dict_set that [unfolded f]]
    have "r = length (imb_heap b) \<or> r \<in> snd ` set (imb_tag_to_event b)"
      by (simp only: insert_iff)
    then have "r \<le> length (imb_heap b)"
      by (elim disjE) (simp, rule less_imp_le [OF imb_inv_refs [OF inv]])
    then show ?thesis by (simp add: f)
  qed
  show "distinct (dict_keys (imb_tag_to_event ?b))"
    using imb_inv_keys(1) [OF inv] by (simp add: f)
  show "distinct (map snd (imb_tag_to_event ?b))"
    unfolding f using imb_inv_keys(2) [OF inv] imb_inv_refs [OF inv]
    by (intro distinct_snd_dict_set) auto
  show "0 < imb_next_tag_num ?b" using imb_inv_keys(3) [OF inv] by (simp add: f)
  show "tag_max_num u < imb_next_tag_num ?b" if "u \<in> set (dict_keys (imb_tag_to_event ?b))" for u
  proof -
    from that have "u \<in> set (dict_keys (imb_tag_to_event b)) \<or> u = t"
      by (auto simp: f update_keys split: if_splits)
    then show ?thesis unfolding f
      by (elim disjE) (drule imb_inv_keys(4) [OF inv], simp_all)
  qed
qed

lemma imb_inv_modify: "imb_inv b \<Longrightarrow> imb_inv (snd (imb_modify t f b))"
  by (auto simp: imb_modify_def imb_inv_def split: option.splits)

lemma imb_inv_remove: "imb_inv b \<Longrightarrow> imb_inv (snd (imb_remove t b))"
proof (cases "map_of (imb_tag_to_event b) t")
  case (Some r)
  assume inv: "imb_inv b"
  let ?b = "snd (imb_remove t b)"
  have ev: "set (imb_events ?b) \<subseteq> set (imb_events b)"
    using set_pop_first by (simp add: imb_remove_def Some)
  have tt: "imb_tag_to_event ?b = dict_del t (imb_tag_to_event b)" "imb_heap ?b = imb_heap b"
    "imb_next_tag_num ?b = imb_next_tag_num b"
    by (simp_all add: imb_remove_def Some)
  show ?thesis
  proof (rule imb_invI)
    show "r < length (imb_heap ?b)" if "r \<in> set (imb_events ?b)" for r
      using imb_inv_events [OF inv] ev that by (auto simp: tt)
    show "r < length (imb_heap ?b)" if "r \<in> snd ` set (imb_tag_to_event ?b)" for r
      unfolding tt by (rule imb_inv_refs [OF inv subsetD [OF snd_dict_del that [unfolded tt]]])
    show "distinct (dict_keys (imb_tag_to_event ?b))"
      using imb_inv_keys(1) [OF inv] by (simp add: tt)
    show "distinct (map snd (imb_tag_to_event ?b))"
      using imb_inv_keys(2) [OF inv] by (simp only: tt distinct_snd_dict_del)
    show "0 < imb_next_tag_num ?b" using imb_inv_keys(3) [OF inv] by (simp add: tt)
    show "tag_max_num u < imb_next_tag_num ?b" if "u \<in> set (dict_keys (imb_tag_to_event ?b))" for u
      using imb_inv_keys(4) [OF inv, of u] that unfolding tt dict_keys_del by simp
  qed
qed (simp add: imb_remove_def)

lemma imb_get_store:
  assumes "imb_inv b"
  shows "imb_get u (imb_store t e b) = (if u = t then Some e else imb_get u b)"
proof (cases "u = t")
  case False
  then show ?thesis
    using imb_inv_ref [OF assms, of u]
    by (cases "map_of (imb_tag_to_event b) u")
       (simp_all add: imb_get_def imb_store_def Let_def imb_obj_def nth_append)
qed (simp add: imb_get_def imb_store_def Let_def imb_obj_def)

lemma imb_all_store:
  assumes "imb_inv b"
  shows "imb_all_events (imb_store t e b) = imb_all_events b @ [e]"
  using imb_inv_events [OF assms]
  by (auto simp: imb_all_events_def imb_store_def Let_def imb_obj_def nth_append)

lemma imb_get_modify:
  assumes "imb_inv b"
  shows "imb_get u (snd (imb_modify t f b)) = (if u = t then map_option f (imb_get t b) else imb_get u b)"
proof (cases "map_of (imb_tag_to_event b) t")
  case (Some r)
  note r = imb_inv_ref [OF assms Some]
  have ne: "r' \<noteq> r" if "map_of (imb_tag_to_event b) u = Some r'" "u \<noteq> t" for r'
    using assms that Some map_of_inj_snd by (metis imb_inv_def)
  show ?thesis using r ne
    by (cases "map_of (imb_tag_to_event b) u") (auto simp: imb_modify_def Some imb_get_def imb_obj_def)
qed (simp add: imb_modify_def imb_get_def)

lemma imb_modify_fst: "fst (imb_modify t f b) = (imb_get t b \<noteq> None)"
  by (auto simp: imb_modify_def imb_get_def split: option.splits)

lemma imb_modify_active [simp]: "imb_active (snd (imb_modify t f b)) = imb_active b"
  by (simp add: imb_modify_def split: option.splits)

lemma imb_get_None_iff: "imb_get t b = None \<longleftrightarrow> t \<notin> set (dict_keys (imb_tag_to_event b))"
  by (simp add: imb_get_def map_of_eq_None_iff)

lemma imb_get_next:
  assumes "imb_inv b" and "imb_get t b \<noteq> None"
  shows "tag_max_num t < imb_next_tag_num b"
proof -
  from assms(2) have "t \<in> set (dict_keys (imb_tag_to_event b))"
    using imb_get_None_iff [of t b] by argo
  then show ?thesis by (rule imb_inv_keys(4) [OF assms(1)])
qed

lemma imb_allocate_fresh:
  assumes "imb_inv b" and "imb_allocate_next_tag b = (t, b')"
  shows "imb_get t b = None"
  using assms(2) imb_get_next [OF assms(1), of t]
  by (cases "imb_get t b") (auto simp: imb_allocate_next_tag_def)

text \<open>What each operation of \<^verbatim>\<open>InMemoryBackend\<close> does to the parts of the state, in one bundle.\<close>

lemma imb_store_active: "imb_active (imb_store t e b) = imb_active b @ [t]"
  and imb_store_next: "imb_next_tag_num (imb_store t e b) = max (imb_next_tag_num b) (tag_max_num t + 1)"
  by (simp_all add: imb_store_def Let_def)

lemma imb_modify_next: "imb_next_tag_num (snd (imb_modify t f b)) = imb_next_tag_num b"
  by (simp add: imb_modify_def split: option.splits)

lemma imb_remove_active: "imb_active (snd (imb_remove t b))
    = (if imb_get t b = None then imb_active b else remove1 t (imb_active b))"
  and imb_remove_fst: "fst (imb_remove t b) = (imb_get t b \<noteq> None)"
  and imb_remove_get: "imb_get u (snd (imb_remove t b)) = (if u = t then None else imb_get u b)"
  and imb_remove_next: "imb_next_tag_num (snd (imb_remove t b)) = imb_next_tag_num b"
  by (auto simp: imb_remove_def imb_get_def imb_obj_alt split: option.splits)

lemma imb_clear_all: "imb_inv (imb_clear b)" "imb_get u (imb_clear b) = None" "imb_active (imb_clear b) = []"
    "imb_next_tag_num (imb_clear b) = 1"
  by (simp_all add: imb_clear_def imb_inv_def imb_get_def)

lemma imb_insert_all: "imb_inv b \<Longrightarrow> imb_inv (imb_insert_active_tag t i b)"
    "imb_get u (imb_insert_active_tag t i b) = imb_get u b"
    "0 \<le> i \<Longrightarrow> imb_active (imb_insert_active_tag t i b) = take (nat i) (imb_active b) @ t # drop (nat i) (imb_active b)"
  using slice_to_nat [of "imb_active b" "nat i"] slice_from_nat [of "imb_active b" "nat i"]
  by (simp_all add: imb_insert_active_tag_def imb_inv_def imb_get_def imb_obj_alt)

lemma imb_hide_all: "imb_inv b \<Longrightarrow> imb_inv (snd (imb_remove_active_tag t b))"
    "imb_get u (snd (imb_remove_active_tag t b)) = imb_get u b"
    "imb_active (snd (imb_remove_active_tag t b)) = remove1 t (imb_active b)"
    "fst (imb_remove_active_tag t b) = (t \<in> set (imb_active b))"
    "imb_next_tag_num (snd (imb_remove_active_tag t b)) = imb_next_tag_num b"
  by (simp_all add: imb_remove_active_tag_def imb_inv_def imb_get_def imb_obj_alt remove1_idem)

lemma imb_allocate_all: "imb_inv b \<Longrightarrow> imb_inv (snd (imb_allocate_next_tag b))"
    "fst (imb_allocate_next_tag b) = int_str (imb_next_tag_num b)"
    "imb_get u (snd (imb_allocate_next_tag b)) = imb_get u b"
    "imb_active (snd (imb_allocate_next_tag b)) = imb_active b"
    "imb_all_events (snd (imb_allocate_next_tag b)) = imb_all_events b"
    "imb_next_tag_num (snd (imb_allocate_next_tag b)) = imb_next_tag_num b + 1"
  by (auto simp: imb_allocate_next_tag_def imb_inv_def imb_get_def imb_obj_alt imb_all_events_def)

lemmas imb_laws = imb_inv_store imb_get_store imb_all_store imb_store_active imb_store_next
  imb_set_status_def imb_update_def imb_inv_modify imb_get_modify imb_modify_fst imb_modify_next
  imb_inv_remove imb_remove_active imb_remove_fst imb_remove_get imb_remove_next
  imb_clear_all imb_insert_all imb_hide_all imb_allocate_all imb_inv_keys(3) imb_get_next

section \<open>The contract of a backend\<close>

text \<open>
  What the protocol's docstrings promise of any backend, for states that satisfy the backend's
  own invariant \<open>inv\<close>. \<open>cnt\<close> is the tag counter, \<open>ok\<close> says which events the backend can hold
  and give back unchanged. A store writes under a tag that is not in use.
\<close>

locale event_store =
  fixes ops :: "'b backend_ops" and inv :: "'b \<Rightarrow> bool" and cnt :: "'b \<Rightarrow> int" and ok :: "event \<Rightarrow> bool"
  assumes stored_ok: "inv b \<Longrightarrow> be_get ops t b = Some e \<Longrightarrow> ok e"
    and ok_status: "ok e \<Longrightarrow> ok (e\<lparr>ev_status := s\<rparr>)"
    and inv_store_new: "inv b \<Longrightarrow> ok e \<Longrightarrow> be_get ops t b = None \<Longrightarrow> inv (be_store ops t e b)"
    and get_store_new: "inv b \<Longrightarrow> ok e \<Longrightarrow> be_get ops t b = None \<Longrightarrow>
      be_get ops u (be_store ops t e b) = (if u = t then Some e else be_get ops u b)"
    and active_store_new: "inv b \<Longrightarrow> ok e \<Longrightarrow> be_get ops t b = None \<Longrightarrow>
      be_active_tags ops (be_store ops t e b) = be_active_tags ops b @ [t]"
    and all_store_new: "inv b \<Longrightarrow> ok e \<Longrightarrow> be_get ops t b = None \<Longrightarrow>
      be_all_events ops (be_store ops t e b) = be_all_events ops b @ [e]"
    and cnt_store_new: "inv b \<Longrightarrow> ok e \<Longrightarrow> be_get ops t b = None \<Longrightarrow>
      cnt (be_store ops t e b) = max (cnt b) (tag_max_num t + 1)"
    and inv_set_status: "inv b \<Longrightarrow> inv (snd (be_set_status ops t s b))"
    and fst_set_status: "inv b \<Longrightarrow> fst (be_set_status ops t s b) = (be_get ops t b \<noteq> None)"
    and get_set_status: "inv b \<Longrightarrow>
      be_get ops u (snd (be_set_status ops t s b))
        = (if u = t then map_option (\<lambda>e. e\<lparr>ev_status := s\<rparr>) (be_get ops t b) else be_get ops u b)"
    and active_set_status: "inv b \<Longrightarrow>
      be_active_tags ops (snd (be_set_status ops t s b)) = be_active_tags ops b"
    and cnt_set_status: "inv b \<Longrightarrow> cnt (snd (be_set_status ops t s b)) = cnt b"
    and inv_update: "inv b \<Longrightarrow> \<forall>e. be_get ops t b = Some e \<longrightarrow> ok (apply_updates us e) \<Longrightarrow>
      inv (snd (be_update ops t us b))"
    and fst_update: "inv b \<Longrightarrow> fst (be_update ops t us b) = (be_get ops t b \<noteq> None)"
    and get_update: "inv b \<Longrightarrow> \<forall>e. be_get ops t b = Some e \<longrightarrow> ok (apply_updates us e) \<Longrightarrow>
      be_get ops u (snd (be_update ops t us b))
        = (if u = t then map_option (apply_updates us) (be_get ops t b) else be_get ops u b)"
    and active_update: "inv b \<Longrightarrow>
      be_active_tags ops (snd (be_update ops t us b)) = be_active_tags ops b"
    and cnt_update: "inv b \<Longrightarrow> cnt (snd (be_update ops t us b)) = cnt b"
    and inv_remove: "inv b \<Longrightarrow> inv (snd (be_remove ops t b))"
    and active_remove: "inv b \<Longrightarrow> be_active_tags ops (snd (be_remove ops t b))
        = (if be_get ops t b = None then be_active_tags ops b else remove1 t (be_active_tags ops b))"
    and fst_remove: "inv b \<Longrightarrow> fst (be_remove ops t b) = (be_get ops t b \<noteq> None)"
    and get_remove: "inv b \<Longrightarrow>
      be_get ops u (snd (be_remove ops t b)) = (if u = t then None else be_get ops u b)"
    and cnt_remove: "inv b \<Longrightarrow> cnt (snd (be_remove ops t b)) = cnt b"
    and inv_clear: "inv b \<Longrightarrow> inv (be_clear ops b)"
    and get_clear: "inv b \<Longrightarrow> be_get ops u (be_clear ops b) = None"
    and active_clear: "inv b \<Longrightarrow> be_active_tags ops (be_clear ops b) = []"
    and cnt_clear: "inv b \<Longrightarrow> cnt (be_clear ops b) = 1"
    and inv_remove_active: "inv b \<Longrightarrow> inv (snd (be_remove_active_tag ops t b))"
    and fst_remove_active: "inv b \<Longrightarrow>
      fst (be_remove_active_tag ops t b) = (t \<in> set (be_active_tags ops b))"
    and get_remove_active: "inv b \<Longrightarrow>
      be_get ops u (snd (be_remove_active_tag ops t b)) = be_get ops u b"
    and active_remove_active: "inv b \<Longrightarrow>
      be_active_tags ops (snd (be_remove_active_tag ops t b)) = remove1 t (be_active_tags ops b)"
    and cnt_remove_active: "inv b \<Longrightarrow> cnt (snd (be_remove_active_tag ops t b)) = cnt b"
    and inv_allocate: "inv b \<Longrightarrow> inv (snd (be_allocate_next_tag ops b))"
    and fst_allocate: "inv b \<Longrightarrow> fst (be_allocate_next_tag ops b) = int_str (cnt b)"
    and get_allocate: "inv b \<Longrightarrow> be_get ops u (snd (be_allocate_next_tag ops b)) = be_get ops u b"
    and active_allocate: "inv b \<Longrightarrow>
      be_active_tags ops (snd (be_allocate_next_tag ops b)) = be_active_tags ops b"
    and all_allocate: "inv b \<Longrightarrow>
      be_all_events ops (snd (be_allocate_next_tag ops b)) = be_all_events ops b"
    and cnt_allocate: "inv b \<Longrightarrow> cnt (snd (be_allocate_next_tag ops b)) = cnt b + 1"
    and cnt_pos: "inv b \<Longrightarrow> 0 < cnt b"
    and cnt_above: "inv b \<Longrightarrow> be_get ops u b \<noteq> None \<Longrightarrow> tag_max_num u < cnt b"
begin

lemma allocate_numeric: "inv b \<Longrightarrow> \<exists>n > 0. fst (be_allocate_next_tag ops b) = int_str n"
  using cnt_pos fst_allocate by blast

lemma allocate_above: "inv b \<Longrightarrow> be_get ops u b \<noteq> None \<Longrightarrow>
    tag_max_num u < tag_max_num (fst (be_allocate_next_tag ops b))"
  by (simp add: fst_allocate cnt_above)

lemma allocate_fresh: "inv b \<Longrightarrow> be_get ops (fst (be_allocate_next_tag ops b)) b = None"
  using allocate_above [of b "fst (be_allocate_next_tag ops b)"] by blast

text \<open>Storing under the tag just drawn.\<close>

lemma add_new:
  assumes "inv b" and "ok e"
  shows "let t = fst (be_allocate_next_tag ops b);
             b' = be_store ops t e (snd (be_allocate_next_tag ops b))
    in inv b' \<and> (\<forall>u. be_get ops u b' = (if u = t then Some e else be_get ops u b)) \<and>
       be_active_tags ops b' = be_active_tags ops b @ [t] \<and>
       be_all_events ops b' = be_all_events ops b @ [e] \<and> cnt b' = cnt b + 1"
proof -
  let ?b = "snd (be_allocate_next_tag ops b)"
  have i: "inv ?b" "be_get ops (fst (be_allocate_next_tag ops b)) ?b = None"
    using assms(1) allocate_fresh by (simp_all add: inv_allocate get_allocate)
  show ?thesis unfolding Let_def
    using assms(1) inv_store_new [OF i(1) assms(2) i(2)] get_store_new [OF i(1) assms(2) i(2)]
      active_store_new [OF i(1) assms(2) i(2)] all_store_new [OF i(1) assms(2) i(2)]
      cnt_store_new [OF i(1) assms(2) i(2)]
    by (simp add: get_allocate active_allocate all_allocate cnt_allocate fst_allocate)
qed

end

text \<open>
  The abstract store: a map from tags to events, the view and the counter. \<open>store_step\<close> is what a
  manager does with a backend when it adds, changes, hides or removes one event, \<open>astore_step\<close> the
  same on the abstract store.
\<close>

record astore =
  a_get :: "tag \<Rightarrow> event option"
  a_active :: "tag list"
  a_next :: int

datatype store_op = S_add event | S_update tag "field_update list" | S_set_status tag event_status
  | S_remove tag | S_hide tag | S_clear

datatype store_res = R_tag tag | R_done bool | R_nothing

definition store_step :: "'b backend_ops \<Rightarrow> store_op \<Rightarrow> 'b \<Rightarrow> store_res \<times> 'b" where
  "store_step ops x b = (case x of
     S_add e \<Rightarrow> (let (t, b1) = be_allocate_next_tag ops b
               in (R_tag t, be_store ops t (e\<lparr>ev_tag := Some t\<rparr>) b1))
   | S_update t us \<Rightarrow> (let (r, b1) = be_update ops t us b in (R_done r, b1))
   | S_set_status t st \<Rightarrow> (let (r, b1) = be_set_status ops t st b in (R_done r, b1))
   | S_remove t \<Rightarrow> (let (r, b1) = be_remove ops t b in (R_done r, b1))
   | S_hide t \<Rightarrow> (let (r, b1) = be_remove_active_tag ops t b in (R_done r, b1))
   | S_clear \<Rightarrow> (R_nothing, be_clear ops b))"

definition astore_step :: "store_op \<Rightarrow> astore \<Rightarrow> store_res \<times> astore" where
  "astore_step x a = (case x of
     S_add e \<Rightarrow> (let t = int_str (a_next a) in
       (R_tag t, \<lparr>a_get = (a_get a)(t \<mapsto> e\<lparr>ev_tag := Some t\<rparr>), a_active = a_active a @ [t],
                  a_next = a_next a + 1\<rparr>))
   | S_update t us \<Rightarrow>
       (R_done (a_get a t \<noteq> None), a\<lparr>a_get := (a_get a)(t := map_option (apply_updates us) (a_get a t))\<rparr>)
   | S_set_status t st \<Rightarrow>
       (R_done (a_get a t \<noteq> None),
        a\<lparr>a_get := (a_get a)(t := map_option (\<lambda>e. e\<lparr>ev_status := st\<rparr>) (a_get a t))\<rparr>)
   | S_remove t \<Rightarrow> (R_done (a_get a t \<noteq> None),
       a\<lparr>a_get := (a_get a)(t := None),
         a_active := (if a_get a t = None then a_active a else remove1 t (a_active a))\<rparr>)
   | S_hide t \<Rightarrow> (R_done (t \<in> set (a_active a)), a\<lparr>a_active := remove1 t (a_active a)\<rparr>)
   | S_clear \<Rightarrow> (R_nothing, \<lparr>a_get = Map.empty, a_active = [], a_next = 1\<rparr>))"

fun run_steps :: "('x \<Rightarrow> 's \<Rightarrow> 'r \<times> 's) \<Rightarrow> 'x list \<Rightarrow> 's \<Rightarrow> 'r list \<times> 's" where
  "run_steps step [] s = ([], s)"
| "run_steps step (x # xs) s =
     (let (r, s1) = step x s; (rs, s2) = run_steps step xs s1 in (r # rs, s2))"

definition abs_store :: "'b backend_ops \<Rightarrow> ('b \<Rightarrow> int) \<Rightarrow> 'b \<Rightarrow> astore" where
  "abs_store ops cnt b = \<lparr>a_get = (\<lambda>t. be_get ops t b), a_active = be_active_tags ops b, a_next = cnt b\<rparr>"

text \<open>The backend can hold every event that a run writes: the added ones and the results of the updates.\<close>

definition op_ok :: "(event \<Rightarrow> bool) \<Rightarrow> store_op \<Rightarrow> astore \<Rightarrow> bool" where
  "op_ok ok x a = (case x of
     S_add e \<Rightarrow> ok (e\<lparr>ev_tag := Some (int_str (a_next a))\<rparr>)
   | S_update t us \<Rightarrow> (case a_get a t of None \<Rightarrow> True | Some e \<Rightarrow> ok (apply_updates us e))
   | _ \<Rightarrow> True)"

fun events_ok :: "(event \<Rightarrow> bool) \<Rightarrow> store_op list \<Rightarrow> astore \<Rightarrow> bool" where
  "events_ok ok [] a = True"
| "events_ok ok (x # xs) a = (op_ok ok x a \<and> events_ok ok xs (snd (astore_step x a)))"

lemma events_ok_True [simp]: "events_ok (\<lambda>_. True) xs a"
  by (induction xs arbitrary: a) (simp_all add: op_ok_def split: store_op.split option.split)

context event_store begin

lemma store_step_refines:
  assumes "inv b" and "op_ok ok x (abs_store ops cnt b)"
  shows "inv (snd (store_step ops x b)) \<and>
    fst (store_step ops x b) = fst (astore_step x (abs_store ops cnt b)) \<and>
    abs_store ops cnt (snd (store_step ops x b)) = snd (astore_step x (abs_store ops cnt b))"
proof (cases x)
  case (S_add e)
  let ?t = "fst (be_allocate_next_tag ops b)"
  have "ok (e\<lparr>ev_tag := Some ?t\<rparr>)"
    using assms(2) by (simp add: S_add op_ok_def abs_store_def fst_allocate [OF assms(1)])
  from add_new [OF assms(1) this] show ?thesis
    by (auto simp: S_add store_step_def astore_step_def abs_store_def split_beta Let_def fun_eq_iff
        fst_allocate [OF assms(1)])
next
  case (S_update t us)
  then have "\<forall>e. be_get ops t b = Some e \<longrightarrow> ok (apply_updates us e)"
    using assms(2) by (auto simp: op_ok_def abs_store_def)
  with assms(1) show ?thesis
    by (simp add: S_update store_step_def astore_step_def abs_store_def split_beta fun_eq_iff
        inv_update fst_update get_update active_update cnt_update)
qed (use assms(1) in \<open>simp_all add: store_step_def astore_step_def abs_store_def split_beta fun_eq_iff
        inv_set_status fst_set_status get_set_status active_set_status cnt_set_status
        inv_remove fst_remove get_remove active_remove cnt_remove
        inv_remove_active fst_remove_active get_remove_active active_remove_active cnt_remove_active
        inv_clear get_clear active_clear cnt_clear\<close>)

lemma run_steps_refines:
  assumes "inv b" and "events_ok ok xs (abs_store ops cnt b)"
  shows "inv (snd (run_steps (store_step ops) xs b)) \<and>
    fst (run_steps (store_step ops) xs b) = fst (run_steps astore_step xs (abs_store ops cnt b)) \<and>
    abs_store ops cnt (snd (run_steps (store_step ops) xs b))
      = snd (run_steps astore_step xs (abs_store ops cnt b))"
  using assms
proof (induction xs arbitrary: b)
  case (Cons x xs)
  have h: "inv (snd (store_step ops x b))" "fst (store_step ops x b) = fst (astore_step x (abs_store ops cnt b))"
    "abs_store ops cnt (snd (store_step ops x b)) = snd (astore_step x (abs_store ops cnt b))"
    using store_step_refines [OF Cons.prems(1), of x] Cons.prems(2) by simp_all
  have "events_ok ok xs (abs_store ops cnt (snd (store_step ops x b)))" using Cons.prems(2) h(3) by simp
  from Cons.IH [OF h(1) this] h(2,3) show ?case by (simp add: split_beta Let_def)
qed simp

end

text \<open>
  A backend that also overwrites a tag in use and takes a position of the view for what it says:
  the index in the list of active tags. Collapsing needs both.
\<close>

locale event_backend = event_store +
  assumes ok_all [simp]: "ok e"
    and inv_store: "inv b \<Longrightarrow> inv (be_store ops t e b)"
    and get_store: "inv b \<Longrightarrow>
      be_get ops u (be_store ops t e b) = (if u = t then Some e else be_get ops u b)"
    and active_store: "inv b \<Longrightarrow> be_active_tags ops (be_store ops t e b) = be_active_tags ops b @ [t]"
    and all_store: "inv b \<Longrightarrow> be_all_events ops (be_store ops t e b) = be_all_events ops b @ [e]"
    and inv_insert_active: "inv b \<Longrightarrow> inv (be_insert_active_tag ops t i b)"
    and get_insert_active: "inv b \<Longrightarrow> be_get ops u (be_insert_active_tag ops t i b) = be_get ops u b"
    and active_insert_active: "inv b \<Longrightarrow> 0 \<le> i \<Longrightarrow>
      be_active_tags ops (be_insert_active_tag ops t i b)
        = take (nat i) (be_active_tags ops b) @ t # drop (nat i) (be_active_tags ops b)"

interpretation imb: event_backend inmem_ops imb_inv imb_next_tag_num "\<lambda>_. True"
  by unfold_locales (simp_all only: inmem_ops_simps imb_laws imb_modify_active simp_thms)

end
