(* ===== verification/Event_Manager.thy ===== *)
theory Event_Manager
  imports Event_Backend
begin

text \<open>
  The event pipeline: \<^verbatim>\<open>src/nooa/runtime/event_manager.py\<close>, the query object of
  \<^verbatim>\<open>src/nooa/runtime/event_query.py\<close> and the agent-facing facade of
  \<^verbatim>\<open>src/nooa/runtime/events.py\<close>.

  Every operation takes the backend's method table \<open>ops\<close>, as the class holds a backend
  object. Subscribers are numbered; what a subscriber does to the subscription table when it
  runs is the parameter \<open>beh\<close> (a subscriber's exception is swallowed by the code, so only
  that effect can be seen). An operation that emits returns the subscribers it fired, in order.

  The lemmas of the pipeline are proved once, inside the backend's contract, and reach
  \<^verbatim>\<open>InMemoryBackend\<close> through the interpretation \<open>imb\<close>.
\<close>

section \<open>Tags\<close>

definition parse_tag_start :: "tag \<Rightarrow> int py_res" where
  "parse_tag_start t =
     (case (if str_contains ''..'' t then py_int (str_split ''..'' t ! 0) else py_int t) of
        None \<Rightarrow> Inl ValueError | Some n \<Rightarrow> Inr n)"

definition parse_tag_end :: "tag \<Rightarrow> int py_res" where
  "parse_tag_end t =
     (case (if str_contains ''..'' t then py_int (str_split ''..'' t ! 1) else py_int t) of
        None \<Rightarrow> Inl ValueError | Some n \<Rightarrow> Inr n)"

definition validate_tag :: "tag \<Rightarrow> unit py_res" where
  "validate_tag t =
     (if str_contains ''..'' t then
        (let parts = str_split ''..'' t in
         if length parts \<noteq> 2 then Inl ValueError
         else case (py_int (parts ! 0), py_int (parts ! 1)) of
                (Some a, Some b) \<Rightarrow> if a > b then Inl ValueError else Inr ()
              | _ \<Rightarrow> Inl ValueError)
      else case py_int t of None \<Rightarrow> Inl ValueError | Some _ \<Rightarrow> Inr ())"

definition removed_event_types :: "string list" where
  "removed_event_types = [''LLMOutput'', ''LLMComplete'']"

definition validate_event_type_name :: "string \<Rightarrow> unit py_res" where
  "validate_event_type_name t = (if t \<in> set removed_event_types then Inl ValueError else Inr ())"

section \<open>Queries\<close>

record event_query =
  q_type :: "string option"
  q_call_id :: "string option"
  q_query :: "string option"
  q_regex :: bool
  q_limit :: "int option"

definition make_query ::
    "string option \<Rightarrow> string option \<Rightarrow> string option \<Rightarrow> bool \<Rightarrow> int option \<Rightarrow> event_query py_res" where
  "make_query ty cid q rx lim =
     py_bind (case ty of None \<Rightarrow> Inr () | Some t \<Rightarrow> validate_event_type_name t)
       (\<lambda>_. Inr \<lparr>q_type = ty, q_call_id = cid, q_query = q, q_regex = rx, q_limit = lim\<rparr>)"

definition current_call :: "int option \<Rightarrow> event_query py_res" where
  "current_call lim = make_query None (Some ''current'') None False lim"

definition by_type :: "string \<Rightarrow> int option \<Rightarrow> event_query py_res" where
  "by_type ty lim = make_query (Some ty) None None False lim"

definition last_n :: "int \<Rightarrow> event_query py_res" where
  "last_n n = make_query None None None False (Some n)"

text \<open>
  \<^verbatim>\<open>EventQuery.apply\<close>. \<open>str_of\<close> is \<^verbatim>\<open>str(event)\<close>; \<open>re_compile\<close> is \<^verbatim>\<open>re.compile(p)\<close> with its
  \<^verbatim>\<open>search\<close>: an error, or the test whether the pattern occurs in a text.
\<close>

definition query_apply ::
    "(event \<Rightarrow> string) \<Rightarrow> (string \<Rightarrow> (string \<Rightarrow> bool) py_res) \<Rightarrow> event_query \<Rightarrow>
     event list \<Rightarrow> string option \<Rightarrow> event list py_res" where
  "query_apply str_of re_compile q events current_call_id =
     (let f1 = (case q_call_id q of None \<Rightarrow> events
                | Some c \<Rightarrow>
                    let target = (if c = ''current'' then current_call_id else Some c) in
                    filter (\<lambda>e. case dict_get (ev_metadata e) ''call_id'' of
                                  None \<Rightarrow> target = None
                                | Some VNone \<Rightarrow> target = None
                                | Some v \<Rightarrow> target \<noteq> None \<and> v = VStr (the target)) events);
          f2 = (case q_type q of None \<Rightarrow> f1 | Some t \<Rightarrow> filter (\<lambda>e. ev_class e = t) f1);
          r3 = (case q_query q of None \<Rightarrow> Inr f2
                | Some p \<Rightarrow>
                    if q_regex q then py_bind (re_compile p) (\<lambda>m. Inr (filter (\<lambda>e. m (str_of e)) f2))
                    else Inr (filter (\<lambda>e. str_contains (str_lower p) (str_lower (str_of e))) f2))
      in py_bind r3 (\<lambda>f3. Inr (case q_limit q of None \<Rightarrow> f3 | Some n \<Rightarrow> slice_from f3 (- n))))"

section \<open>The manager\<close>

type_synonym handler_table = "(string, nat list) dict"
type_synonym handler_effect = "nat \<Rightarrow> event \<Rightarrow> handler_table \<Rightarrow> handler_table"

record 'b em =
  em_backend :: 'b
  em_handlers :: handler_table
  em_close_callbacks :: "nat list"
  em_event_query :: "event_query option"
  em_middleware :: "(string, nat list) dict"

definition em_init :: "'b \<Rightarrow> 'b em" where
  "em_init b = \<lparr>em_backend = b, em_handlers = [], em_close_callbacks = [], em_event_query = None,
     em_middleware = [(''agent_call'', []), (''llm_call'', []), (''decision_call'', []),
                      (''execute_python'', [])]\<rparr>"

definition handlers_for :: "handler_table \<Rightarrow> string \<Rightarrow> nat list" where
  "handlers_for h ty = (case dict_get h ty of None \<Rightarrow> [] | Some l \<Rightarrow> l)"

text \<open>\<^verbatim>\<open>_emit\<close>: the typed subscribers, then the wildcard ones, each list copied before its loop.\<close>

definition emit :: "handler_effect \<Rightarrow> event \<Rightarrow> handler_table \<Rightarrow> nat list \<times> handler_table" where
  "emit beh e h =
     (let typed = handlers_for h (ev_event_type e);
          h1 = fold (\<lambda>i. beh i e) typed h;
          wild = handlers_for h1 ''*'';
          h2 = fold (\<lambda>i. beh i e) wild h1
      in (typed @ wild, h2))"

definition em_emit :: "handler_effect \<Rightarrow> event \<Rightarrow> 'b em \<Rightarrow> nat list \<times> 'b em" where
  "em_emit beh e s = (let (fired, h) = emit beh e (em_handlers s) in (fired, s\<lparr>em_handlers := h\<rparr>))"

text \<open>What \<^verbatim>\<open>add\<close> writes into the event's metadata from the two context variables.\<close>

definition stamp_metadata :: "string list \<Rightarrow> py_val option \<Rightarrow> event \<Rightarrow> event" where
  "stamp_metadata stack fmt e =
     (let m = ev_metadata e;
          m1 = (if stack \<noteq> [] \<and> \<not> dict_has m ''call_id''
                then dict_set ''call_id'' (VStr (last stack)) m else m);
          m2 = (case fmt of
                  None \<Rightarrow> m1
                | Some f \<Rightarrow> if \<not> dict_has m1 ''truncation_event_format''
                            then dict_set ''truncation_event_format'' f m1 else m1)
      in e\<lparr>ev_metadata := m2\<rparr>)"

text \<open>The tag that a \<^verbatim>\<open>Summary\<close> may bring along.\<close>

definition own_tag :: "event \<Rightarrow> tag option" where
  "own_tag e = (case ev_summary e of
     Some sf \<Rightarrow> if summary_tag sf \<noteq> [] then Some (summary_tag sf) else None | None \<Rightarrow> None)"

definition em_add ::
    "'b backend_ops \<Rightarrow> handler_effect \<Rightarrow> string list \<Rightarrow> py_val option \<Rightarrow> event \<Rightarrow> bool \<Rightarrow> 'b em
     \<Rightarrow> string py_res \<times> nat list \<times> 'b em" where
  "em_add ops beh stack fmt event rec s =
     (let e = stamp_metadata stack fmt event;
          (fired, s1) = em_emit beh e s
      in if rec \<and> ev_role e \<noteq> RUNTIME_EVENT then
           (case ev_summary e of
              Some sf \<Rightarrow>
                if summary_tag sf \<noteq> [] then
                  (case validate_tag (summary_tag sf) of
                     Inl err \<Rightarrow> (Inl err, fired, s1)
                   | Inr _ \<Rightarrow>
                       let t = summary_tag sf in
                       (Inr t, fired,
                        s1\<lparr>em_backend := be_store ops t (e\<lparr>ev_tag := Some t\<rparr>) (em_backend s1)\<rparr>))
                else
                  let (t, b) = be_allocate_next_tag ops (em_backend s1) in
                  (Inr t, fired, s1\<lparr>em_backend := be_store ops t (e\<lparr>ev_tag := Some t\<rparr>) b\<rparr>)
            | None \<Rightarrow>
                let (t, b) = be_allocate_next_tag ops (em_backend s1) in
                (Inr t, fired, s1\<lparr>em_backend := be_store ops t (e\<lparr>ev_tag := Some t\<rparr>) b\<rparr>))
         else (Inr (ev_id e), fired, s1))"

definition em_on :: "string \<Rightarrow> nat \<Rightarrow> 'b em \<Rightarrow> 'b em py_res" where
  "em_on ty h s =
     py_bind (validate_event_type_name ty)
       (\<lambda>_. Inr (s\<lparr>em_handlers := dict_set ty (handlers_for (em_handlers s) ty @ [h]) (em_handlers s)\<rparr>))"

text \<open>The function \<^verbatim>\<open>on\<close> returns.\<close>

definition em_unsubscribe :: "string \<Rightarrow> nat \<Rightarrow> 'b em \<Rightarrow> 'b em" where
  "em_unsubscribe ty h s =
     s\<lparr>em_handlers := dict_set ty (remove1 h (handlers_for (em_handlers s) ty)) (em_handlers s)\<rparr>"

definition em_on_close :: "nat \<Rightarrow> 'b em \<Rightarrow> 'b em" where
  "em_on_close c s = s\<lparr>em_close_callbacks := em_close_callbacks s @ [c]\<rparr>"

definition em_off_close :: "nat \<Rightarrow> 'b em \<Rightarrow> 'b em" where
  "em_off_close c s = s\<lparr>em_close_callbacks := remove1 c (em_close_callbacks s)\<rparr>"

text \<open>
  \<^verbatim>\<open>_drain_close_callbacks\<close>: the list is taken over and emptied, then run in reverse. A
  callback may register further callbacks (\<open>eff\<close>); its exceptions are swallowed.
\<close>

definition em_drain_close ::
    "(nat \<Rightarrow> nat list \<Rightarrow> nat list) \<Rightarrow> 'b em \<Rightarrow> nat list \<times> 'b em" where
  "em_drain_close eff s =
     (let cbs = rev (em_close_callbacks s)
      in (cbs, s\<lparr>em_close_callbacks := fold eff cbs []\<rparr>))"

definition em_set_backend :: "'b \<Rightarrow> 'b em \<Rightarrow> 'b em" where
  "em_set_backend b s = s\<lparr>em_backend := b\<rparr>"

definition em_set_event_query :: "event_query option \<Rightarrow> 'b em \<Rightarrow> 'b em" where
  "em_set_event_query q s = s\<lparr>em_event_query := q\<rparr>"

definition em_intercept :: "string \<Rightarrow> nat \<Rightarrow> 'b em \<Rightarrow> 'b em py_res" where
  "em_intercept kind m s =
     (case dict_get (em_middleware s) kind of
        None \<Rightarrow> Inl ValueError
      | Some l \<Rightarrow> Inr (s\<lparr>em_middleware := dict_set kind (l @ [m]) (em_middleware s)\<rparr>))"

text \<open>
  Middleware: a function of the context and of the continuation. A result \<open>Inr None\<close> is a
  middleware that returned \<^verbatim>\<open>None\<close>.
\<close>

type_synonym 'c mw_next = "'c \<Rightarrow> 'c option py_res"
type_synonym 'c mw = "'c \<Rightarrow> 'c mw_next \<Rightarrow> 'c option py_res"

definition make_next :: "'c mw \<Rightarrow> 'c mw_next \<Rightarrow> 'c mw_next" where
  "make_next m nxt = (\<lambda>ctx. case m ctx nxt of Inl e \<Rightarrow> Inl e | Inr None \<Rightarrow> Inl RuntimeError
                                            | Inr (Some c) \<Rightarrow> Inr (Some c))"

definition run_middleware ::
    "(nat \<Rightarrow> 'c mw) \<Rightarrow> string \<Rightarrow> 'c \<Rightarrow> 'c mw_next \<Rightarrow> 'b em \<Rightarrow> 'c option py_res" where
  "run_middleware impl kind ctx core s =
     (case dict_get (em_middleware s) kind of
        None \<Rightarrow> core ctx
      | Some entries \<Rightarrow>
          if entries = [] then core ctx
          else fold (\<lambda>m nxt. make_next (impl m) nxt) (rev entries) core ctx)"

section \<open>Access\<close>

definition em_get :: "'b backend_ops \<Rightarrow> string \<Rightarrow> 'b em \<Rightarrow> event option" where
  "em_get ops key s =
     (case be_get ops key (em_backend s) of
        Some e \<Rightarrow> Some e | None \<Rightarrow> be_get_by_id ops key (em_backend s))"

definition em_getitem :: "'b backend_ops \<Rightarrow> string \<Rightarrow> 'b em \<Rightarrow> event py_res" where
  "em_getitem ops key s = (case em_get ops key s of None \<Rightarrow> Inl KeyError | Some e \<Rightarrow> Inr e)"

definition em_contains :: "'b backend_ops \<Rightarrow> string \<Rightarrow> 'b em \<Rightarrow> bool" where
  "em_contains ops key s = (em_get ops key s \<noteq> None)"

definition em_keys :: "'b backend_ops \<Rightarrow> 'b em \<Rightarrow> tag list" where
  "em_keys ops s = be_active_tags ops (em_backend s)"

definition em_items :: "'b backend_ops \<Rightarrow> 'b em \<Rightarrow> (tag \<times> event) list" where
  "em_items ops s =
     List.map_filter (\<lambda>t. map_option (Pair t) (be_get ops t (em_backend s))) (em_keys ops s)"

definition em_values :: "'b backend_ops \<Rightarrow> 'b em \<Rightarrow> event list" where
  "em_values ops s = List.map_filter (\<lambda>t. be_get ops t (em_backend s)) (em_keys ops s)"

definition em_all_events :: "'b backend_ops \<Rightarrow> 'b em \<Rightarrow> event list" where
  "em_all_events ops s = be_all_events ops (em_backend s)"

text \<open>\<open>text_of\<close> is \<^verbatim>\<open>_get_searchable_text\<close>; \<open>re_compile\<close> compiles with \<^verbatim>\<open>re.IGNORECASE\<close>.\<close>

definition em_filter ::
    "'b backend_ops \<Rightarrow> (event \<Rightarrow> string) \<Rightarrow> (string \<Rightarrow> (string \<Rightarrow> bool) py_res) \<Rightarrow>
     string option \<Rightarrow> string option \<Rightarrow> string option \<Rightarrow> string option \<Rightarrow> bool \<Rightarrow> int option \<Rightarrow>
     'b em \<Rightarrow> event list py_res" where
  "em_filter ops text_of re_compile ty call_id exec_status query regex limit s =
     py_bind (case ty of None \<Rightarrow> Inr () | Some t \<Rightarrow> validate_event_type_name t) (\<lambda>_.
       let e0 = be_all_events ops (em_backend s);
           e1 = (case ty of None \<Rightarrow> e0 | Some t \<Rightarrow> filter (\<lambda>e. ev_event_type e = t) e0);
           e2 = (case call_id of None \<Rightarrow> e1
                 | Some c \<Rightarrow> filter (\<lambda>e. dict_get (ev_metadata e) ''call_id'' = Some (VStr c)) e1);
           e3 = (case exec_status of None \<Rightarrow> e2
                 | Some x \<Rightarrow> filter (\<lambda>e. ev_execution_status e = Some x) e2);
           r4 = (case query of None \<Rightarrow> Inr e3
                 | Some q \<Rightarrow>
                     if regex then py_bind (re_compile q) (\<lambda>m. Inr (filter (\<lambda>e. m (text_of e)) e3))
                     else Inr (filter (\<lambda>e. str_contains (str_lower q) (str_lower (text_of e))) e3))
       in py_bind r4 (\<lambda>e4. Inr (case limit of None \<Rightarrow> e4
            | Some n \<Rightarrow> if int (length e4) > n then slice_from e4 (- n) else e4)))"

section \<open>Mutation\<close>

text \<open>Both \<^verbatim>\<open>update\<close> and \<^verbatim>\<open>remove\<close> try the key as a tag, then as an id.\<close>

definition em_via_key ::
    "'b backend_ops \<Rightarrow> (tag \<Rightarrow> 'b \<Rightarrow> bool \<times> 'b) \<Rightarrow> string \<Rightarrow> 'b em \<Rightarrow> bool \<times> 'b em" where
  "em_via_key ops f key s =
     (let (done1, b1) = f key (em_backend s) in
      if done1 then (True, s\<lparr>em_backend := b1\<rparr>)
      else case be_get_by_id ops key b1 of
             None \<Rightarrow> (False, s\<lparr>em_backend := b1\<rparr>)
           | Some e \<Rightarrow>
               (case be_find_tag ops e b1 of
                  None \<Rightarrow> (False, s\<lparr>em_backend := b1\<rparr>)
                | Some t \<Rightarrow>
                    if t = [] then (False, s\<lparr>em_backend := b1\<rparr>)
                    else let (done2, b2) = f t b1 in (done2, s\<lparr>em_backend := b2\<rparr>)))"

definition em_update ::
    "'b backend_ops \<Rightarrow> string \<Rightarrow> field_update list \<Rightarrow> 'b em \<Rightarrow> bool \<times> 'b em" where
  "em_update ops key us s = em_via_key ops (\<lambda>t. be_update ops t us) key s"

definition em_remove :: "'b backend_ops \<Rightarrow> string \<Rightarrow> 'b em \<Rightarrow> bool \<times> 'b em" where
  "em_remove ops key s = em_via_key ops (be_remove ops) key s"

definition em_clear :: "'b backend_ops \<Rightarrow> 'b em \<Rightarrow> 'b em" where
  "em_clear ops s = s\<lparr>em_backend := be_clear ops (em_backend s)\<rparr>"

section \<open>Collapse\<close>

text \<open>The tags whose range meets the requested one; every active tag is parsed.\<close>

fun collapse_select :: "int \<Rightarrow> int \<Rightarrow> tag list \<Rightarrow> tag list py_res" where
  "collapse_select a b [] = Inr []"
| "collapse_select a b (t # ts) =
     py_bind (parse_tag_start t) (\<lambda>x.
     py_bind (parse_tag_end t) (\<lambda>y.
     py_bind (collapse_select a b ts) (\<lambda>rest.
       Inr (if x \<le> b \<and> y \<ge> a then t # rest else rest))))"

text \<open>The bounds of a tag that has been parsed before.\<close>

definition start_of :: "tag \<Rightarrow> int" where
  "start_of t = (case parse_tag_start t of Inr n \<Rightarrow> n | Inl _ \<Rightarrow> 0)"

definition end_of :: "tag \<Rightarrow> int" where
  "end_of t = (case parse_tag_end t of Inr n \<Rightarrow> n | Inl _ \<Rightarrow> 0)"

definition archive_all :: "'b backend_ops \<Rightarrow> tag list \<Rightarrow> 'b \<Rightarrow> 'b" where
  "archive_all ops ts b =
     fold (\<lambda>t b. snd (be_remove_active_tag ops t (snd (be_set_status ops t ARCHIVED b)))) ts b"

text \<open>The first position whose tag starts after the first collapsed one.\<close>

fun insert_index :: "int \<Rightarrow> tag list \<Rightarrow> nat" where
  "insert_index x [] = 0"
| "insert_index x (t # ts) = (if start_of t > x then 0 else Suc (insert_index x ts))"

definition collapse_doc :: "int \<Rightarrow> tag \<Rightarrow> string" where
  "collapse_doc start st =
     ''Search original events (including archived): self.events.query(query=\"keyword\", limit=10). Read by tag, e.g. self.events[\"'' @
     int_str start @ ''\"]. Expand this summary: self.events[self.events[\"'' @ st @
     ''\"].children_tags]. For nested summaries, expand their children_tags again. Inspect originals when exact wording or omitted details matter.''"

definition make_summary :: "string \<Rightarrow> tag \<Rightarrow> int \<Rightarrow> int \<Rightarrow> tag list \<Rightarrow> string option \<Rightarrow> event" where
  "make_summary uid st a b children stext =
     \<lparr>ev_class = ''Summary'', ev_event_type = ''Summary'', ev_role = ASSISTANT, ev_id = uid,
      ev_metadata = [], ev_status = ACTIVE, ev_tag = Some st,
      ev_summary = Some \<lparr>summary_tag = st, replaced_range = (a, b), children_tags = children,
                         summary_text = stext, summary_doc = collapse_doc a st\<rparr>,
      ev_execution_status = None, ev_fields = []\<rparr>"

definition em_collapse ::
    "'b backend_ops \<Rightarrow> handler_effect \<Rightarrow> string \<Rightarrow> tag \<Rightarrow> tag \<Rightarrow> string option \<Rightarrow> 'b em
     \<Rightarrow> tag py_res \<times> nat list \<times> 'b em" where
  "em_collapse ops beh uid start_tag end_tag stext s =
     (case py_bind (parse_tag_start start_tag) (\<lambda>a. py_bind (parse_tag_end end_tag)
             (\<lambda>b. collapse_select a b (be_active_tags ops (em_backend s)))) of
        Inl err \<Rightarrow> (Inl err, [], s)
      | Inr sel \<Rightarrow>
          if sel = [] then (Inl ValueError, [], s)
          else
            let b1 = archive_all ops sel (em_backend s);
                a = Min (set (map start_of sel));
                z = Max (set (map end_of sel));
                st = range_tag a z;
                i = insert_index (start_of (hd sel)) (be_active_tags ops b1);
                e = make_summary uid st a z sel stext;
                b2 = be_store ops st e b1;
                b3 = snd (be_remove_active_tag ops st b2);
                b4 = be_insert_active_tag ops st (int i) b3;
                (fired, s') = em_emit beh e (s\<lparr>em_backend := b4\<rparr>)
            in (Inr st, fired, s'))"

text \<open>
  \<^verbatim>\<open>_all_originals\<close>. The recursion follows stored tags and need not end; the first argument
  bounds its depth and \<open>None\<close> is the interpreter's RecursionError.
\<close>

fun all_originals :: "nat \<Rightarrow> 'b backend_ops \<Rightarrow> tag \<Rightarrow> 'b \<Rightarrow> event list option" where
  "all_originals 0 ops t b = None"
| "all_originals (Suc n) ops t b =
     (case be_get ops t b of
        None \<Rightarrow> Some []
      | Some e \<Rightarrow>
          (case ev_summary e of
             None \<Rightarrow> Some [e]
           | Some sf \<Rightarrow>
               fold (\<lambda>c acc.
                 case acc of None \<Rightarrow> None
                 | Some out \<Rightarrow>
                     (case be_get ops c b of
                        None \<Rightarrow> Some out
                      | Some child \<Rightarrow>
                          (case ev_summary child of
                             None \<Rightarrow> Some (out @ [child])
                           | Some csf \<Rightarrow>
                               (case all_originals n ops (summary_tag csf) b of
                                  None \<Rightarrow> None | Some l \<Rightarrow> Some (out @ l)))))
                 (children_tags sf) (Some [])))"

section \<open>The agent-facing API\<close>

definition api_get_list :: "'b backend_ops \<Rightarrow> string list \<Rightarrow> 'b em \<Rightarrow> event list" where
  "api_get_list ops ks s = List.map_filter (\<lambda>k. em_get ops k s) ks"

definition api_getitem_list :: "'b backend_ops \<Rightarrow> string list \<Rightarrow> 'b em \<Rightarrow> event list py_res" where
  "api_getitem_list ops ks s =
     py_mapM (\<lambda>k. case em_get ops k s of None \<Rightarrow> Inl KeyError | Some e \<Rightarrow> Inr e) ks"

text \<open>A tag argument of \<^verbatim>\<open>EventsApi.collapse\<close>: a string, an int, or a value of another type.\<close>

datatype tag_arg = TagStr string | TagInt int | TagOther

definition api_tag :: "'b backend_ops \<Rightarrow> 'b em \<Rightarrow> tag_arg \<Rightarrow> tag py_res" where
  "api_tag ops s a =
     (case a of
        TagInt n \<Rightarrow> if em_get ops (int_str n) s = None then Inl ValueError else Inr (int_str n)
      | TagStr t \<Rightarrow> Inr t
      | TagOther \<Rightarrow> Inl TypeError)"

definition api_collapse ::
    "'b backend_ops \<Rightarrow> handler_effect \<Rightarrow> string \<Rightarrow> tag_arg \<Rightarrow> tag_arg \<Rightarrow> string option \<Rightarrow> 'b em
     \<Rightarrow> tag py_res \<times> nat list \<times> 'b em" where
  "api_collapse ops beh uid a1 a2 stext s =
     (case py_bind (api_tag ops s a1) (\<lambda>t1. py_bind (api_tag ops s a2) (\<lambda>t2. Inr (t1, t2))) of
        Inl err \<Rightarrow> (Inl err, [], s)
      | Inr (t1, t2) \<Rightarrow> em_collapse ops beh uid t1 t2 stext s)"


section \<open>Ordered views\<close>

text \<open>
  A view is in order when its tags parse, each range runs forwards and every range ends
  before the next begins.
\<close>

definition tag_ok :: "tag \<Rightarrow> bool" where
  "tag_ok t \<longleftrightarrow> is_ok (parse_tag_start t) \<and> is_ok (parse_tag_end t) \<and> start_of t \<le> end_of t"

definition view_ok :: "tag list \<Rightarrow> bool" where
  "view_ok ts \<longleftrightarrow> list_all tag_ok ts \<and> sorted_wrt (\<lambda>t u. end_of t < start_of u) ts"

text \<open>Whether a tag's range meets the interval from \<open>a\<close> to \<open>b\<close>.\<close>

definition meets :: "int \<Rightarrow> int \<Rightarrow> tag \<Rightarrow> bool" where
  "meets a b t \<longleftrightarrow> start_of t \<le> b \<and> a \<le> end_of t"

lemma parse_int_str [simp]:
  "parse_tag_start (int_str n) = Inr n" "parse_tag_end (int_str n) = Inr n"
  "start_of (int_str n) = n" "end_of (int_str n) = n"
  by (simp_all add: parse_tag_start_def parse_tag_end_def start_of_def end_of_def)

lemma parse_range_tag [simp]:
  "parse_tag_start (range_tag a b) = Inr a" "parse_tag_end (range_tag a b) = Inr b"
  "start_of (range_tag a b) = a" "end_of (range_tag a b) = b"
  by (simp_all add: parse_tag_start_def parse_tag_end_def start_of_def end_of_def)

lemma end_of_tag_max_num: "end_of t = tag_max_num t"
  by (simp add: end_of_def parse_tag_end_def tag_max_num_def split: option.splits)

lemma range_tag_nonempty [simp]: "range_tag a b \<noteq> []"
  by (simp add: range_tag_def)

lemma collapse_select_filter:
  "collapse_select a b ts = Inr sel \<Longrightarrow>
   sel = filter (meets a b) ts \<and> (\<forall>t \<in> set ts. is_ok (parse_tag_start t) \<and> is_ok (parse_tag_end t))"
  by (induction ts arbitrary: sel)
     (auto simp: py_bind_Inr_iff meets_def start_of_def end_of_def split: if_splits)

lemma collapse_select_total:
  "\<forall>t \<in> set ts. is_ok (parse_tag_start t) \<and> is_ok (parse_tag_end t) \<Longrightarrow>
   collapse_select a b ts = Inr (filter (meets a b) ts)"
  by (induction ts)
     (auto simp: is_ok_def meets_def start_of_def end_of_def split: sum.splits)

lemma view_ok_distinct: "view_ok ts \<Longrightarrow> distinct ts"
proof (induction ts)
  case (Cons t ts)
  then have "tag_ok t" "\<forall>u \<in> set ts. end_of t < start_of u" and ok: "view_ok ts"
    by (simp_all add: view_ok_def)
  then have "t \<notin> set ts" by (fastforce simp: tag_ok_def)
  with Cons.IH [OF ok] show ?case by simp
qed simp

lemma view_ok_append:
  "view_ok (xs @ ys) \<longleftrightarrow>
   view_ok xs \<and> view_ok ys \<and> (\<forall>t \<in> set xs. \<forall>u \<in> set ys. end_of t < start_of u)"
  by (auto simp: view_ok_def sorted_wrt_append)

lemma view_ok_Cons:
  "view_ok (t # ts) \<longleftrightarrow> tag_ok t \<and> view_ok ts \<and> (\<forall>u \<in> set ts. end_of t < start_of u)"
  by (auto simp: view_ok_def)

lemma view_ok_remove1: "view_ok ts \<Longrightarrow> view_ok (remove1 t ts)"
proof (induction ts)
  case (Cons u ts)
  then show ?case using set_remove1_subset [of t ts] by (auto simp: view_ok_Cons)
qed simp

text \<open>In an ordered view the tags that meet an interval stand side by side.\<close>

lemma view_ok_split:
  assumes "view_ok ts"
  shows "\<exists>pre post. ts = pre @ filter (meets a b) ts @ post \<and>
           filter (\<lambda>t. \<not> meets a b t) ts = pre @ post"
  using assms
proof (induction ts)
  case (Cons t ts)
  then have ok: "view_ok ts" and t: "tag_ok t" "\<forall>u \<in> set ts. end_of t < start_of u"
    by (simp_all add: view_ok_Cons)
  from Cons.IH [OF ok] obtain pre post where
    IH: "ts = pre @ filter (meets a b) ts @ post" "filter (\<lambda>t. \<not> meets a b t) ts = pre @ post"
    by blast
  consider (no) "\<not> meets a b t" | (yes_none) "meets a b t" "filter (meets a b) ts = []"
    | (yes_some) "meets a b t" "filter (meets a b) ts \<noteq> []"
    by blast
  then show ?case
  proof cases
    case no
    with IH show ?thesis by (intro exI [of _ "t # pre"] exI [of _ post]) simp
  next
    case yes_none
    then show ?thesis
      by (intro exI [of _ "[]"] exI [of _ ts]) (simp add: filter_empty_conv)
  next
    case yes_some
    have "pre = []"
    proof (rule ccontr)
      assume "pre \<noteq> []"
      then obtain p ps where pre: "pre = p # ps" by (cases pre) auto
      obtain u where u: "u \<in> set (filter (meets a b) ts)"
        using yes_some(2) by (cases "filter (meets a b) ts") auto
      have "p \<in> set ts" using IH(1) pre by (metis append_Cons list.set_intros(1))
      moreover have "p \<in> set (filter (\<lambda>t. \<not> meets a b t) ts)" using IH(2) pre by simp
      ultimately have p: "\<not> meets a b p" "tag_ok p" "end_of t < start_of p"
        using ok t by (auto simp: view_ok_def list_all_iff)
      have "view_ok (p # (ps @ filter (meets a b) ts @ post))"
        using ok IH(1) pre by (metis append_Cons)
      with u have "end_of p < start_of u" by (auto simp: view_ok_Cons)
      with p u yes_some(1) t(1) show False by (auto simp: meets_def tag_ok_def)
    qed
    with IH yes_some(1) show ?thesis
      by (intro exI [of _ "[]"] exI [of _ post]) simp
  qed
qed simp

lemma insert_index_append:
  "(\<forall>t \<in> set pre. start_of t \<le> x) \<Longrightarrow> (\<forall>t \<in> set post. x < start_of t) \<Longrightarrow>
   insert_index x (pre @ post) = length pre"
  by (induction pre) (cases post, auto)

text \<open>The bounds of an ordered block are those of its ends.\<close>

lemma view_ok_Min_start:
  assumes "view_ok ts" and "ts \<noteq> []"
  shows "Min (set (map start_of ts)) = start_of (hd ts)"
proof (rule Min_eqI)
  obtain t us where ts: "ts = t # us" using assms(2) by (cases ts) auto
  show "start_of (hd ts) \<le> x" if "x \<in> set (map start_of ts)" for x
    using assms(1) that by (fastforce simp: ts view_ok_Cons tag_ok_def)
qed (use assms(2) in simp_all)

lemma view_ok_Max_end:
  assumes "view_ok ts" and "ts \<noteq> []"
  shows "Max (set (map end_of ts)) = end_of (last ts)"
proof (rule Max_eqI)
  obtain us t where ts: "ts = us @ [t]" using assms(2) by (cases ts rule: rev_cases) auto
  show "x \<le> end_of (last ts)" if "x \<in> set (map end_of ts)" for x
    using assms(1) that by (fastforce simp: ts view_ok_append view_ok_Cons tag_ok_def)
qed (use assms(2) in simp_all)

text \<open>The view that \<^verbatim>\<open>collapse\<close> leaves: the selected tags give way to one range tag.\<close>

definition collapsed_view :: "tag list \<Rightarrow> tag list \<Rightarrow> tag \<Rightarrow> tag list" where
  "collapsed_view ts sel st =
     (let rest = filter (\<lambda>t. t \<notin> set sel) ts; i = insert_index (start_of (hd sel)) rest
      in take i rest @ st # drop i rest)"

lemma collapsed_view_ok:
  assumes ok: "view_ok ts" and sel: "sel = filter (meets a b) ts" "sel \<noteq> []"
    and st: "st = range_tag (Min (set (map start_of sel))) (Max (set (map end_of sel)))"
  obtains pre post where "ts = pre @ sel @ post" "collapsed_view ts sel st = pre @ st # post"
    "view_ok (pre @ st # post)"
proof -
  from view_ok_split [OF ok] obtain pre post where
    ts: "ts = pre @ sel @ post" and rest: "filter (\<lambda>t. \<not> meets a b t) ts = pre @ post"
    unfolding sel(1) by blast
  have rest': "filter (\<lambda>t. t \<notin> set sel) ts = pre @ post"
    using rest by (simp add: sel(1) cong: filter_cong)
  have oks: "view_ok pre" "view_ok sel" "view_ok post"
    "\<And>t u. t \<in> set pre \<Longrightarrow> u \<in> set sel \<Longrightarrow> end_of t < start_of u"
    "\<And>t u. t \<in> set pre \<Longrightarrow> u \<in> set post \<Longrightarrow> end_of t < start_of u"
    "\<And>t u. t \<in> set sel \<Longrightarrow> u \<in> set post \<Longrightarrow> end_of t < start_of u"
    using ok unfolding ts view_ok_append by auto
  have t_ok: "start_of t \<le> end_of t" if "t \<in> set ts" for t
    using ok that by (auto simp: view_ok_def list_all_iff tag_ok_def)
  have hd: "hd sel \<in> set sel" using sel(2) by simp
  have le: "start_of t \<le> start_of (hd sel)" if "t \<in> set pre" for t
    using oks(4) [OF that hd] t_ok [of t] that ts by simp
  have gt: "start_of (hd sel) < start_of u" if "u \<in> set post" for u
    using oks(6) [OF hd that] t_ok [of "hd sel"] hd ts by simp
  have "insert_index (start_of (hd sel)) (pre @ post) = length pre"
    using le gt by (intro insert_index_append) auto
  then have view: "collapsed_view ts sel st = pre @ st # post"
    by (simp add: collapsed_view_def rest' Let_def)
  have "Min (set (map start_of sel)) \<le> start_of (hd sel)" using hd by simp
  also have "\<dots> \<le> end_of (hd sel)" using t_ok hd ts by simp
  also have "\<dots> \<le> Max (set (map end_of sel))" using hd by simp
  finally have "tag_ok st" by (simp add: st tag_ok_def)
  moreover have "end_of t < start_of st" if "t \<in> set pre" for t
    using oks(4) [OF that] sel(2) by (simp add: st)
  moreover have "end_of st < start_of u" if "u \<in> set post" for u
    using oks(6) [OF _ that] sel(2) by (simp add: st)
  ultimately have "view_ok (pre @ st # post)"
    using oks by (auto simp: view_ok_append view_ok_Cons)
  with ts view show thesis by (rule that)
qed


section \<open>The pipeline over any backend\<close>

lemma fold_remove1_filter:
  "distinct xs \<Longrightarrow> fold remove1 ts xs = filter (\<lambda>x. x \<notin> set ts) xs"
proof (induction ts arbitrary: xs)
  case (Cons t ts)
  have rm: "remove1 t xs = filter (\<lambda>x. x \<noteq> t) xs"
    using Cons.prems by (simp add: distinct_remove1_removeAll removeAll_filter_not_eq eq_commute)
  show ?case using Cons.IH [of "remove1 t xs"] Cons.prems by (simp add: rm conj_commute)
qed simp

lemma em_emit_backend [simp]: "em_backend (snd (em_emit beh e s)) = em_backend s"
  by (simp add: em_emit_def split: prod.splits)

lemma em_emit_backendD: "em_emit beh e s = (fired, s1) \<Longrightarrow> em_backend s1 = em_backend s"
  using em_emit_backend [of beh e s] by simp

text \<open>The invariant of a manager: the backend's own, an ordered view, and no dangling tag.\<close>

definition em_ok :: "'b backend_ops \<Rightarrow> ('b \<Rightarrow> bool) \<Rightarrow> 'b em \<Rightarrow> bool" where
  "em_ok ops binv s \<longleftrightarrow>
     binv (em_backend s) \<and> view_ok (em_keys ops s) \<and>
     (\<forall>t \<in> set (em_keys ops s). be_get ops t (em_backend s) \<noteq> None)"

text \<open>What the ordered view asks of a call of \<^verbatim>\<open>add\<close>: a tag that comes with the event lies behind the view.\<close>

definition follows_view :: "'b backend_ops \<Rightarrow> event \<Rightarrow> bool \<Rightarrow> 'b em \<Rightarrow> bool" where
  "follows_view ops e rec s =
     (case own_tag e of
        None \<Rightarrow> True
      | Some t \<Rightarrow> rec \<and> ev_role e \<noteq> RUNTIME_EVENT \<and> is_ok (validate_tag t) \<longrightarrow>
          tag_ok t \<and> (\<forall>u \<in> set (em_keys ops s). end_of u < start_of t))"

text \<open>A collapse that fails changes nothing.\<close>

lemma collapse_failure:
  assumes "em_collapse ops beh uid t1 t2 stext s = (Inl err, fired, s')"
  shows "err = ValueError \<and> fired = [] \<and> s' = s"
proof -
  have ps: "parse_tag_start t = Inl err \<Longrightarrow> err = ValueError" "parse_tag_end t = Inl err \<Longrightarrow> err = ValueError"
    for t err by (auto simp: parse_tag_start_def parse_tag_end_def split: option.splits)
  have cs: "collapse_select a b ts = Inl err \<Longrightarrow> err = ValueError" for a b ts err
    by (induction ts) (auto simp: py_bind_def split: sum.splits if_splits dest: ps)
  show ?thesis using assms
    by (auto simp: em_collapse_def py_bind_def Let_def split: sum.splits if_splits prod.splits dest: ps cs)
qed

context event_store begin

lemma archive_all_spec:
  assumes "inv b"
  shows "inv (archive_all ops ts b) \<and>
     be_active_tags ops (archive_all ops ts b) = fold remove1 ts (be_active_tags ops b) \<and>
     be_get ops u (archive_all ops ts b) =
       (if u \<in> set ts then map_option (\<lambda>e. e\<lparr>ev_status := ARCHIVED\<rparr>) (be_get ops u b)
        else be_get ops u b)"
  using assms
proof (induction ts arbitrary: b)
  case (Cons t ts)
  let ?b = "snd (be_remove_active_tag ops t (snd (be_set_status ops t ARCHIVED b)))"
  have b: "inv ?b" "be_active_tags ops ?b = remove1 t (be_active_tags ops b)"
    "\<And>u. be_get ops u ?b = (if u = t then map_option (\<lambda>e. e\<lparr>ev_status := ARCHIVED\<rparr>) (be_get ops t b)
                           else be_get ops u b)"
    using Cons.prems
    by (simp_all add: inv_set_status inv_remove_active get_remove_active get_set_status
        active_remove_active active_set_status)
  have eq: "archive_all ops (t # ts) b = archive_all ops ts ?b"
    by (simp add: archive_all_def)
  show ?case
    unfolding eq using Cons.IH [OF b(1)] by (auto simp: b option.map_comp comp_def)
qed (simp add: archive_all_def)

end

context event_backend
begin

text \<open>What a successful collapse does, tag by tag.\<close>

lemma collapse_success:
  assumes inv: "inv (em_backend s)" and dist: "distinct (em_keys ops s)"
    and run: "em_collapse ops beh uid t1 t2 stext s = (Inr st, fired, s')"
  shows "\<exists>a b sel. parse_tag_start t1 = Inr a \<and> parse_tag_end t2 = Inr b \<and>
      sel = filter (meets a b) (em_keys ops s) \<and> sel \<noteq> [] \<and>
      st = range_tag (Min (set (map start_of sel))) (Max (set (map end_of sel))) \<and>
      inv (em_backend s') \<and>
      em_keys ops s' = collapsed_view (em_keys ops s) sel st \<and>
      (\<forall>u. be_get ops u (em_backend s') =
         (if u = st then
            Some (make_summary uid st (Min (set (map start_of sel))) (Max (set (map end_of sel))) sel stext)
          else if u \<in> set sel then map_option (\<lambda>e. e\<lparr>ev_status := ARCHIVED\<rparr>) (be_get ops u (em_backend s))
          else be_get ops u (em_backend s)))"
proof -
  from run obtain a b sel where
    a: "parse_tag_start t1 = Inr a" and b: "parse_tag_end t2 = Inr b"
    and cs: "collapse_select a b (em_keys ops s) = Inr sel" and ne: "sel \<noteq> []"
    by (cases "parse_tag_start t1"; cases "parse_tag_end t2"; cases "collapse_select (projr (parse_tag_start t1)) (projr (parse_tag_end t2)) (em_keys ops s)")
       (auto simp: em_collapse_def em_keys_def split: if_splits)
  define b1 where "b1 = archive_all ops sel (em_backend s)"
  define x where "x = Min (set (map start_of sel))"
  define y where "y = Max (set (map end_of sel))"
  define e where "e = make_summary uid (range_tag x y) x y sel stext"
  define i where "i = insert_index (start_of (hd sel)) (be_active_tags ops b1)"
  define b2 where "b2 = be_store ops (range_tag x y) e b1"
  define b3 where "b3 = snd (be_remove_active_tag ops (range_tag x y) b2)"
  define b4 where "b4 = be_insert_active_tag ops (range_tag x y) (int i) b3"
  have st: "st = range_tag x y" and s': "em_backend s' = b4"
    using run a b cs ne
    by (auto simp: em_collapse_def em_keys_def Let_def b1_def x_def y_def e_def i_def b2_def b3_def
        b4_def split: prod.splits dest!: em_emit_backendD)
  from collapse_select_filter [OF cs] have sel: "sel = filter (meets a b) (em_keys ops s)" by blast
  note arch = archive_all_spec [OF inv, of sel, folded b1_def]
  have act1: "be_active_tags ops b1 = filter (\<lambda>t. t \<notin> set sel) (em_keys ops s)"
    using arch dist by (simp add: fold_remove1_filter em_keys_def)
  have "range_tag x y \<notin> set (be_active_tags ops b1)"
  proof
    assume mem: "range_tag x y \<in> set (be_active_tags ops b1)"
    have hd: "hd sel \<in> set sel" using ne by simp
    then have "start_of (hd sel) \<le> b" "a \<le> end_of (hd sel)" by (simp_all add: sel meets_def)
    moreover have "x \<le> start_of (hd sel)" "end_of (hd sel) \<le> y"
      using hd by (simp_all add: x_def y_def)
    ultimately have "meets a b (range_tag x y)" by (simp add: meets_def)
    with mem show False by (simp add: act1 sel)
  qed
  then have act3: "be_active_tags ops b3 = be_active_tags ops b1"
    using arch by (simp add: b3_def b2_def active_remove_active inv_store active_store remove1_append)
  have inv3: "inv b3" using arch by (simp add: b3_def b2_def inv_store inv_remove_active)
  then have inv4: "inv b4" by (simp add: b4_def inv_insert_active)
  have keys: "em_keys ops s' = collapsed_view (em_keys ops s) sel st"
    using inv3 by (simp add: em_keys_def s' b4_def active_insert_active act3 collapsed_view_def st
        i_def act1 Let_def)
  have get: "be_get ops u (em_backend s') = (if u = st then Some e else
      if u \<in> set sel then map_option (\<lambda>e. e\<lparr>ev_status := ARCHIVED\<rparr>) (be_get ops u (em_backend s))
      else be_get ops u (em_backend s))" for u
    using inv3 archive_all_spec [OF inv, of sel u, folded b1_def]
    by (simp add: s' st b4_def get_insert_active b3_def get_remove_active b2_def inv_store get_store)
  show ?thesis
    using a b sel ne st inv4 keys get unfolding x_def y_def s' e_def
    by (intro exI [of _ a] exI [of _ b] exI [of _ sel]) simp
qed

lemma add_plain:
  assumes inv: "inv (em_backend s)" and plain: "own_tag e = None" "ev_role e \<noteq> RUNTIME_EVENT"
    and run: "em_add ops beh stack fmt e True s = (r, fired, s')"
  shows "\<exists>n > 0. r = Inr (int_str n) \<and> be_get ops (int_str n) (em_backend s) = None \<and>
      (\<forall>u. be_get ops u (em_backend s) \<noteq> None \<longrightarrow> tag_max_num u < n) \<and>
      inv (em_backend s') \<and> em_keys ops s' = em_keys ops s @ [int_str n] \<and>
      (\<forall>u. be_get ops u (em_backend s') =
        (if u = int_str n then Some ((stamp_metadata stack fmt e)\<lparr>ev_tag := Some (int_str n)\<rparr>)
         else be_get ops u (em_backend s)))"
proof -
  let ?b = "em_backend s"
  from allocate_numeric [OF inv] obtain n where n: "n > 0" "fst (be_allocate_next_tag ops ?b) = int_str n"
    by blast
  let ?e = "stamp_metadata stack fmt e"
  have plain': "own_tag ?e = None" "ev_role ?e \<noteq> RUNTIME_EVENT"
    using plain by (simp_all add: stamp_metadata_def Let_def own_tag_def)
  have r: "r = Inr (int_str n)"
    and s': "em_backend s' = be_store ops (int_str n) (?e\<lparr>ev_tag := Some (int_str n)\<rparr>) (snd (be_allocate_next_tag ops ?b))"
    using run n(2) plain'
    by (auto simp: em_add_def own_tag_def Let_def split: prod.splits option.splits if_splits dest!: em_emit_backendD)
  show ?thesis
    using n(1) r allocate_fresh [OF inv] allocate_above [OF inv]
    by (intro exI [of _ n])
       (auto simp: n(2) s' em_keys_def inv_allocate inv inv_store active_store active_allocate
          get_store get_allocate)
qed

lemma em_ok_backend_cong:
  "em_backend s' = em_backend s \<Longrightarrow> em_ok ops inv s' = em_ok ops inv s"
  by (simp add: em_ok_def em_keys_def)

lemma collapse_ok:
  assumes ok: "em_ok ops inv s" and run: "em_collapse ops beh uid t1 t2 stext s = (Inr st, fired, s')"
  shows "em_ok ops inv s' \<and> (\<exists>pre sel post. sel \<noteq> [] \<and>
      em_keys ops s = pre @ sel @ post \<and> em_keys ops s' = pre @ st # post)"
proof -
  have inv: "inv (em_backend s)" and view: "view_ok (em_keys ops s)"
    and stored: "\<And>t. t \<in> set (em_keys ops s) \<Longrightarrow> be_get ops t (em_backend s) \<noteq> None"
    using ok by (simp_all add: em_ok_def)
  from collapse_success [OF inv view_ok_distinct [OF view] run] obtain a b sel where
    sel: "sel = filter (meets a b) (em_keys ops s)" "sel \<noteq> []"
    and st: "st = range_tag (Min (set (map start_of sel))) (Max (set (map end_of sel)))"
    and inv': "inv (em_backend s')" and keys: "em_keys ops s' = collapsed_view (em_keys ops s) sel st"
    and get: "\<And>u. be_get ops u (em_backend s') = (if u = st then
        Some (make_summary uid st (Min (set (map start_of sel))) (Max (set (map end_of sel))) sel stext)
        else if u \<in> set sel then map_option (\<lambda>e. e\<lparr>ev_status := ARCHIVED\<rparr>) (be_get ops u (em_backend s))
        else be_get ops u (em_backend s))"
    by blast
  from collapsed_view_ok [OF view sel st] obtain pre post where
    parts: "em_keys ops s = pre @ sel @ post" "collapsed_view (em_keys ops s) sel st = pre @ st # post"
    and ok': "view_ok (pre @ st # post)" by blast
  have "be_get ops t (em_backend s') \<noteq> None" if "t \<in> set (pre @ st # post)" for t
    using that stored [of t] by (cases "t = st") (auto simp: get parts)
  then have "em_ok ops inv s'" using inv' ok' by (simp add: em_ok_def keys parts(2))
  with sel(2) parts keys show ?thesis by (metis (no_types))
qed

lemma collapse_range_block:
  assumes ok: "em_ok ops inv s"
    and run: "em_collapse ops beh uid t1 t2 stext s = (Inr st, fired, s')"
  shows "\<exists>a b pre sel post. parse_tag_start t1 = Inr a \<and> parse_tag_end t2 = Inr b \<and>
      sel = filter (meets a b) (em_keys ops s) \<and> sel \<noteq> [] \<and> em_keys ops s = pre @ sel @ post \<and>
      em_keys ops s' = pre @ st # post \<and> view_ok (em_keys ops s') \<and>
      st = range_tag (start_of (hd sel)) (end_of (last sel)) \<and>
      be_get ops st (em_backend s') =
        Some (make_summary uid st (start_of (hd sel)) (end_of (last sel)) sel stext) \<and>
      (\<forall>u. u \<noteq> st \<longrightarrow> be_get ops u (em_backend s') =
         (if u \<in> set sel then map_option (\<lambda>e. e\<lparr>ev_status := ARCHIVED\<rparr>) (be_get ops u (em_backend s))
          else be_get ops u (em_backend s)))"
proof -
  have inv: "inv (em_backend s)" and view: "view_ok (em_keys ops s)"
    using ok by (simp_all add: em_ok_def)
  from collapse_success [OF inv view_ok_distinct [OF view] run] obtain a b sel where
    ab: "parse_tag_start t1 = Inr a" "parse_tag_end t2 = Inr b" and sel: "sel = filter (meets a b) (em_keys ops s)" "sel \<noteq> []"
    and st: "st = range_tag (Min (set (map start_of sel))) (Max (set (map end_of sel)))"
    and keys: "em_keys ops s' = collapsed_view (em_keys ops s) sel st"
    and get: "\<forall>u. be_get ops u (em_backend s') = (if u = st then
        Some (make_summary uid st (Min (set (map start_of sel))) (Max (set (map end_of sel))) sel stext)
        else if u \<in> set sel then map_option (\<lambda>e. e\<lparr>ev_status := ARCHIVED\<rparr>) (be_get ops u (em_backend s))
        else be_get ops u (em_backend s))"
    by auto
  from collapsed_view_ok [OF view sel st] obtain pre post where
    parts: "em_keys ops s = pre @ sel @ post"
    "collapsed_view (em_keys ops s) sel st = pre @ st # post" "view_ok (pre @ st # post)"
    by blast
  have vs: "view_ok sel" using view by (simp add: parts(1) view_ok_append)
  note bounds = view_ok_Min_start [OF vs sel(2)] view_ok_Max_end [OF vs sel(2)]
  show ?thesis
  proof (intro exI conjI)
    show "parse_tag_start t1 = Inr a" "parse_tag_end t2 = Inr b" by (rule ab)+
    show "sel = filter (meets a b) (em_keys ops s)" by (rule sel(1))
    show "em_keys ops s' = pre @ st # post" using keys parts(2) by simp
  qed (use sel(2) parts keys get st bounds in simp_all)
qed

lemma collapse_block:
  assumes ok: "em_ok ops inv s"
    and run: "em_collapse ops beh uid t1 t2 stext s = (Inr st, fired, s')"
  shows "\<exists>pre sel post. sel \<noteq> [] \<and> em_keys ops s = pre @ sel @ post \<and>
      em_keys ops s' = pre @ st # post \<and> view_ok (em_keys ops s') \<and>
      st = range_tag (start_of (hd sel)) (end_of (last sel)) \<and>
      be_get ops st (em_backend s') =
        Some (make_summary uid st (start_of (hd sel)) (end_of (last sel)) sel stext) \<and>
      (\<forall>u. u \<noteq> st \<longrightarrow> be_get ops u (em_backend s') =
         (if u \<in> set sel then map_option (\<lambda>e. e\<lparr>ev_status := ARCHIVED\<rparr>) (be_get ops u (em_backend s))
          else be_get ops u (em_backend s)))"
  using collapse_range_block [OF ok run] by blast

lemma collapse_keeps_ok:
  assumes ok: "em_ok ops inv s"
  shows "em_ok ops inv (snd (snd (em_collapse ops beh uid t1 t2 stext s)))"
proof -
  obtain r fired s' where run: "em_collapse ops beh uid t1 t2 stext s = (r, fired, s')"
    by (metis prod_cases3)
  show ?thesis
  proof (cases r)
    case (Inl err)
    with collapse_failure [of ops beh uid t1 t2 stext s] run ok show ?thesis by simp
  next
    case (Inr st)
    with collapse_ok [OF ok] run show ?thesis by simp
  qed
qed

text \<open>A tag that comes with its event is stored as it is and appended, wherever its range lies.\<close>

lemma add_tagged:
  assumes inv: "inv (em_backend s)" and t: "own_tag e = Some t" "is_ok (validate_tag t)" "ev_role e \<noteq> RUNTIME_EVENT"
  shows "inv (em_backend (snd (snd (em_add ops beh stack fmt e True s)))) \<and>
    em_keys ops (snd (snd (em_add ops beh stack fmt e True s))) = em_keys ops s @ [t] \<and>
    be_get ops u (em_backend (snd (snd (em_add ops beh stack fmt e True s)))) =
      (if u = t then Some ((stamp_metadata stack fmt e)\<lparr>ev_tag := Some t\<rparr>) else be_get ops u (em_backend s))"
proof -
  let ?e = "stamp_metadata stack fmt e"
  have e': "own_tag ?e = Some t" "ev_role ?e \<noteq> RUNTIME_EVENT"
    using t by (simp_all add: stamp_metadata_def Let_def own_tag_def)
  then have "em_backend (snd (snd (em_add ops beh stack fmt e True s))) =
      be_store ops t (?e\<lparr>ev_tag := Some t\<rparr>) (em_backend s)"
    using t(2) by (auto simp: em_add_def own_tag_def is_ok_def Let_def
        split: prod.splits option.splits if_splits sum.splits dest!: em_emit_backendD)
  then show ?thesis using inv by (simp add: em_keys_def inv_store active_store get_store)
qed

lemma add_ok:
  assumes ok: "em_ok ops inv s" and fits: "follows_view ops e rec s"
  shows "em_ok ops inv (snd (snd (em_add ops beh stack fmt e rec s)))"
proof (cases "rec \<and> ev_role e \<noteq> RUNTIME_EVENT \<and> (\<forall>t. own_tag e = Some t \<longrightarrow> is_ok (validate_tag t))")
  case True
  from ok have inv: "inv (em_backend s)" by (simp add: em_ok_def)
  show ?thesis
  proof (cases "own_tag e")
    case None
    obtain r fired s' where run: "em_add ops beh stack fmt e True s = (r, fired, s')"
      by (cases "em_add ops beh stack fmt e True s")
    from add_plain [OF inv None _ run] True obtain n where
      above: "\<And>u. be_get ops u (em_backend s) \<noteq> None \<Longrightarrow> tag_max_num u < n"
      and new: "inv (em_backend s')" "em_keys ops s' = em_keys ops s @ [int_str n]"
      "\<And>u. be_get ops u (em_backend s') =
          (if u = int_str n then Some ((stamp_metadata stack fmt e)\<lparr>ev_tag := Some (int_str n)\<rparr>)
           else be_get ops u (em_backend s))"
      by blast
    have "view_ok [int_str n]" by (simp add: view_ok_def tag_ok_def)
    then have "view_ok (em_keys ops s @ [int_str n])"
      using ok above by (auto simp: em_ok_def view_ok_append end_of_tag_max_num)
    then show ?thesis using ok run True new by (auto simp: em_ok_def)
  next
    case (Some t)
    with True fits have "view_ok (em_keys ops s @ [t])"
      using ok by (auto simp: em_ok_def follows_view_def view_ok_append view_ok_Cons view_ok_def [of "[]"])
    then show ?thesis
      using add_tagged [OF inv Some, of beh stack fmt] True Some ok by (auto simp: em_ok_def)
  qed
next
  case False
  then have "em_backend (snd (snd (em_add ops beh stack fmt e rec s))) = em_backend s"
    by (auto simp: em_add_def own_tag_def Let_def stamp_metadata_def is_ok_def
        split: prod.splits option.splits if_splits sum.splits dest!: em_emit_backendD)
  then show ?thesis using ok em_ok_backend_cong by blast
qed

lemma via_key_ok:
  assumes ok: "em_ok ops inv s"
    and keeps: "\<And>t b. em_ok ops inv (s\<lparr>em_backend := b\<rparr>) \<Longrightarrow> em_ok ops inv (s\<lparr>em_backend := snd (f t b)\<rparr>)"
  shows "em_ok ops inv (snd (em_via_key ops f key s))"
proof -
  have "em_ok ops inv (s\<lparr>em_backend := em_backend s\<rparr>)" using ok by simp
  from keeps [OF this] have 1: "em_ok ops inv (s\<lparr>em_backend := snd (f key (em_backend s))\<rparr>)" .
  have 2: "em_ok ops inv (s\<lparr>em_backend := snd (f t (snd (f key (em_backend s))))\<rparr>)" for t
    by (rule keeps [OF 1])
  show ?thesis using 1 2
    by (auto simp: em_via_key_def Let_def split: prod.splits option.splits) (metis snd_conv)+
qed

lemma update_ok: "em_ok ops inv s \<Longrightarrow> em_ok ops inv (snd (em_update ops key us s))"
  unfolding em_update_def
  by (rule via_key_ok)
     (auto simp: em_ok_def em_keys_def inv_update active_update get_update split: if_splits)

lemma remove_ok: "em_ok ops inv s \<Longrightarrow> em_ok ops inv (snd (em_remove ops key s))"
  unfolding em_remove_def
proof (rule via_key_ok)
  fix t b
  assume ok: "em_ok ops inv (s\<lparr>em_backend := b\<rparr>)"
  then have d: "distinct (be_active_tags ops b)" and i: "inv b"
    using view_ok_distinct by (auto simp: em_ok_def em_keys_def)
  show "em_ok ops inv (s\<lparr>em_backend := snd (be_remove ops t b)\<rparr>)"
    using ok i d by (auto simp: em_ok_def em_keys_def inv_remove active_remove get_remove
        view_ok_remove1 set_remove1_eq)
qed

lemma clear_ok: "em_ok ops inv s \<Longrightarrow> em_ok ops inv (em_clear ops s)"
  by (simp add: em_ok_def em_clear_def em_keys_def inv_clear active_clear view_ok_def)

end

section \<open>Runs of the manager\<close>

text \<open>
  One call on the manager. \<^verbatim>\<open>add\<close> stores a \<^verbatim>\<open>Summary\<close> that brings a tag of its own wherever that tag lies; a step
  is such an addition only if the tag is behind the view. Subscribers change the table of subscribers; a
  subscriber that calls the manager's other methods while it is notified is not a step.
\<close>

inductive em_step :: "'b backend_ops \<Rightarrow> handler_effect \<Rightarrow> 'b em \<Rightarrow> 'b em \<Rightarrow> bool"
  for ops beh where
  step_add: "follows_view ops e rec s \<Longrightarrow>
    em_step ops beh s (snd (snd (em_add ops beh stack fmt e rec s)))"
| step_collapse: "em_step ops beh s (snd (snd (em_collapse ops beh uid t1 t2 stext s)))"
| step_update: "em_step ops beh s (snd (em_update ops key us s))"
| step_remove: "em_step ops beh s (snd (em_remove ops key s))"
| step_clear: "em_step ops beh s (em_clear ops s)"
| step_on: "em_on ty h s = Inr s' \<Longrightarrow> em_step ops beh s s'"
| step_unsubscribe: "em_step ops beh s (em_unsubscribe ty h s)"

inductive em_reachable :: "'b backend_ops \<Rightarrow> handler_effect \<Rightarrow> 'b em \<Rightarrow> 'b em \<Rightarrow> bool"
  for ops beh s0 where
  reach_start: "em_reachable ops beh s0 s0"
| reach_step: "em_reachable ops beh s0 s \<Longrightarrow> em_step ops beh s s' \<Longrightarrow> em_reachable ops beh s0 s'"

context event_backend
begin

lemma step_ok: "em_step ops beh s s' \<Longrightarrow> em_ok ops inv s \<Longrightarrow> em_ok ops inv s'"
proof (induction rule: em_step.induct)
  case (step_on ty h s s')
  then have "em_backend s' = em_backend s"
    by (auto simp: em_on_def py_bind_Inr_iff)
  with step_on show ?case using em_ok_backend_cong by blast
next
  case (step_unsubscribe s ty h)
  then show ?case by (simp add: em_unsubscribe_def em_ok_def em_keys_def)
qed (simp_all add: add_ok collapse_keeps_ok update_ok remove_ok clear_ok)

lemma reachable_ok: "em_reachable ops beh s0 s \<Longrightarrow> em_ok ops inv s0 \<Longrightarrow> em_ok ops inv s"
  by (induction rule: em_reachable.induct) (auto intro: step_ok)

end

section \<open>Properties of the pipeline over InMemoryBackend\<close>

lemma em_ok_init: "em_ok inmem_ops imb_inv (em_init imb_init)"
  by (simp add: em_ok_def em_init_def em_keys_def imb_inv_init)
     (simp add: imb_init_def Let_def view_ok_def)

text \<open>Sample values for the witnesses below.\<close>

definition ex_event :: event where
  "ex_event = \<lparr>ev_class = ''Task'', ev_event_type = ''Task'', ev_role = USER, ev_id = ''u1'',
     ev_metadata = [], ev_status = ACTIVE, ev_tag = None, ev_summary = None,
     ev_execution_status = None, ev_fields = []\<rparr>"

definition ex_beh :: handler_effect where
  "ex_beh i e h = h"

definition ex_state1 :: "imb em" where
  "ex_state1 = snd (snd (em_add inmem_ops ex_beh [] None ex_event True (em_init imb_init)))"

definition ex_state2 :: "imb em" where
  "ex_state2 = snd (snd (em_add inmem_ops ex_beh [] None ex_event True ex_state1))"

lemma ex_reach1: "em_reachable inmem_ops ex_beh (em_init imb_init) ex_state1"
  unfolding ex_state1_def
  by (rule reach_step [OF reach_start], rule step_add) (simp add: ex_event_def follows_view_def own_tag_def)

lemma ex_reach2: "em_reachable inmem_ops ex_beh (em_init imb_init) ex_state2"
  unfolding ex_state2_def
  by (rule reach_step [OF ex_reach1], rule step_add) (simp add: ex_event_def follows_view_def own_tag_def)

lemma ex_ok2: "em_ok inmem_ops imb_inv ex_state2"
  by (rule imb.reachable_ok [OF ex_reach2 em_ok_init])

lemma ex_keys2: "em_keys inmem_ops ex_state2 = [int_str 1, int_str 2]"
  by (simp add: ex_state2_def ex_state1_def em_add_def Let_def em_emit_def emit_def em_init_def
      stamp_metadata_def ex_event_def em_keys_def imb_allocate_next_tag_def imb_store_def
      imb_init_def imb_max_tag_num_def split: prod.splits)

lemma ex_collapse2:
  "\<exists>st fired s'. em_collapse inmem_ops ex_beh ''u2'' (int_str 1) (int_str 2) None ex_state2 = (Inr st, fired, s')"
  using ex_keys2
  by (simp add: em_collapse_def em_keys_def em_emit_def Let_def split: prod.splits)

text \<open>C1: In every state a manager over the in-memory backend reaches by adding events,
  collapsing, updating, removing, clearing and (un)subscribing, where a Summary added with a tag of its own
  has that tag behind the view, the model's view is in order: its tags parse, their ranges run forwards and never
  overlap, no tag is listed twice and every listed tag names a stored event. The condition is what the order
  needs: adding a Summary with any other valid tag puts the view out of order.\<close>

theorem event_view_invariant:
  assumes "em_reachable inmem_ops beh (em_init imb_init) s"
  shows "view_ok (em_keys inmem_ops s) \<and> distinct (em_keys inmem_ops s) \<and>
    length (em_items inmem_ops s) = length (em_keys inmem_ops s) \<and>
    (\<forall>e t stack fmt. own_tag e = Some t \<and> is_ok (validate_tag t) \<and> ev_role e \<noteq> RUNTIME_EVENT \<longrightarrow>
       view_ok (em_keys inmem_ops (snd (snd (em_add inmem_ops beh stack fmt e True s)))) =
         follows_view inmem_ops e True s)"
proof -
  have ok: "em_ok inmem_ops imb_inv s" using imb.reachable_ok [OF assms em_ok_init] .
  have "length (List.map_filter f xs) = length xs" if "\<forall>x \<in> set xs. f x \<noteq> None"
    for f :: "tag \<Rightarrow> (tag \<times> event) option" and xs
    using that by (induction xs) (auto simp: List.map_filter_def)
  moreover have "view_ok (em_keys inmem_ops (snd (snd (em_add inmem_ops beh stack fmt e True s)))) =
      follows_view inmem_ops e True s"
    if "own_tag e = Some t" "is_ok (validate_tag t)" "ev_role e \<noteq> RUNTIME_EVENT" for e t stack fmt
    using imb.add_tagged [OF _ that, of s beh stack fmt] ok that
    by (auto simp: em_ok_def follows_view_def view_ok_append view_ok_Cons view_ok_def [of "[]"])
  ultimately show ?thesis using ok view_ok_distinct by (simp add: em_ok_def em_items_def)
qed

theorem event_view_invariant_witness:
  "view_ok (em_keys inmem_ops ex_state2) \<and> distinct (em_keys inmem_ops ex_state2) \<and>
    length (em_items inmem_ops ex_state2) = length (em_keys inmem_ops ex_state2) \<and>
    em_keys inmem_ops ex_state2 = [int_str 1, int_str 2]"
  using event_view_invariant [OF ex_reach2] ex_keys2 by simp

text \<open>C2: Over the in-memory backend and an ordered view (every reached state has one), a successful collapse
  replaces one contiguous block of the view, the active tags whose range meets the requested one, by a single tag,
  the range from the first number of the block to its last, which names a stored Summary whose children are the
  block. Every other tag still names the event it named, an event of the block with only its status changed
  to archived. (A lone Summary that is collapsed again has the tag of the new one and is overwritten.)\<close>

theorem collapse_replaces_block:
  assumes ok: "em_ok inmem_ops imb_inv s"
    and run: "em_collapse inmem_ops beh uid t1 t2 stext s = (Inr st, fired, s')"
  shows "\<exists>a b pre sel post. parse_tag_start t1 = Inr a \<and> parse_tag_end t2 = Inr b \<and>
      sel = filter (meets a b) (em_keys inmem_ops s) \<and> sel \<noteq> [] \<and> em_keys inmem_ops s = pre @ sel @ post \<and>
      em_keys inmem_ops s' = pre @ st # post \<and> view_ok (em_keys inmem_ops s') \<and>
      st = range_tag (start_of (hd sel)) (end_of (last sel)) \<and>
      imb_get st (em_backend s') =
        Some (make_summary uid st (start_of (hd sel)) (end_of (last sel)) sel stext) \<and>
      (\<forall>u. u \<noteq> st \<longrightarrow> imb_get u (em_backend s') =
         (if u \<in> set sel then map_option (\<lambda>e. e\<lparr>ev_status := ARCHIVED\<rparr>) (imb_get u (em_backend s))
          else imb_get u (em_backend s)))"
  using imb.collapse_range_block [OF ok run] unfolding inmem_ops_simps .

theorem collapse_replaces_block_witness:
  "\<exists>st fired s'.
     em_collapse inmem_ops ex_beh ''u2'' (int_str 1) (int_str 2) None ex_state2 = (Inr st, fired, s') \<and>
     em_ok inmem_ops imb_inv ex_state2 \<and>
     (\<exists>pre sel post. sel = filter (meets 1 2) [int_str 1, int_str 2] \<and> [int_str 1, int_str 2] = pre @ sel @ post \<and>
        em_keys inmem_ops s' = pre @ st # post)"
proof -
  obtain st fired s' where run:
    "em_collapse inmem_ops ex_beh ''u2'' (int_str 1) (int_str 2) None ex_state2 = (Inr st, fired, s')"
    using ex_collapse2 by blast
  from collapse_replaces_block [OF ex_ok2 run] run ex_ok2 ex_keys2 show ?thesis
    by (metis Inr_inject parse_int_str(1,2))
qed


text \<open>Adding an ordinary event allocates a numeric tag that no stored event has and that is
  above every number a stored tag encodes, appends it to the view, and changes no other tag.\<close>

theorem add_allocates_fresh_tag:
  assumes ok: "em_ok inmem_ops imb_inv s" and plain: "ev_summary e = None" "ev_role e \<noteq> RUNTIME_EVENT"
    and run: "em_add inmem_ops beh stack fmt e True s = (r, fired, s')"
  shows "\<exists>n > 0. r = Inr (int_str n) \<and> imb_get (int_str n) (em_backend s) = None \<and>
      (\<forall>u. imb_get u (em_backend s) \<noteq> None \<longrightarrow> tag_max_num u < n) \<and>
      em_keys inmem_ops s' = em_keys inmem_ops s @ [int_str n] \<and>
      (\<forall>u. u \<noteq> int_str n \<longrightarrow> imb_get u (em_backend s') = imb_get u (em_backend s)) \<and>
      em_all_events inmem_ops s' =
        em_all_events inmem_ops s @ [(stamp_metadata stack fmt e)\<lparr>ev_tag := Some (int_str n)\<rparr>]"
proof -
  from ok have inv: "imb_inv (em_backend s)" by (simp add: em_ok_def)
  have "own_tag e = None" using plain(1) by (simp add: own_tag_def)
  from imb.add_plain [OF inv this plain(2) run] obtain n where n: "n > 0" "r = Inr (int_str n)"
    "imb_get (int_str n) (em_backend s) = None"
    "\<And>u. imb_get u (em_backend s) \<noteq> None \<Longrightarrow> tag_max_num u < n"
    "em_keys inmem_ops s' = em_keys inmem_ops s @ [int_str n]"
    "\<And>u. imb_get u (em_backend s') =
        (if u = int_str n then Some ((stamp_metadata stack fmt e)\<lparr>ev_tag := Some (int_str n)\<rparr>)
         else imb_get u (em_backend s))"
    by auto
  have "em_all_events inmem_ops s' =
      em_all_events inmem_ops s @ [(stamp_metadata stack fmt e)\<lparr>ev_tag := Some (int_str n)\<rparr>]"
    using run plain n(2) imb.all_store [OF imb.inv_allocate [OF inv]] imb.all_allocate [OF inv]
    by (auto simp: em_add_def Let_def em_all_events_def stamp_metadata_def split: prod.splits
        dest!: em_emit_backendD)
  with n show ?thesis by (intro exI [of _ n]) simp
qed

theorem add_allocates_fresh_tag_witness:
  "\<exists>r fired s'. em_add inmem_ops ex_beh [''call-1''] None ex_event True ex_state2 = (r, fired, s') \<and>
     (\<exists>n > 0. r = Inr (int_str n) \<and> imb_get (int_str n) (em_backend ex_state2) = None \<and>
        em_keys inmem_ops s' = [int_str 1, int_str 2, int_str n])"
proof -
  obtain r fired s' where run:
    "em_add inmem_ops ex_beh [''call-1''] None ex_event True ex_state2 = (r, fired, s')"
    by (metis prod_cases3)
  have p: "ev_summary ex_event = None" "ev_role ex_event \<noteq> RUNTIME_EVENT"
    by (simp_all add: ex_event_def)
  from add_allocates_fresh_tag [OF ex_ok2 p run] run ex_keys2 show ?thesis
    by (metis append_Cons append_Nil)
qed

text \<open>Whatever the caller asks, a runtime event is delivered to the subscribers and never
  recorded; so is any event added with \<open>record=False\<close>. The backend is untouched and the returned
  string is the event's id.\<close>

theorem runtime_events_never_recorded:
  assumes "ev_role e = RUNTIME_EVENT \<or> \<not> rec"
  shows "\<exists>fired s'. em_add ops beh stack fmt e rec s = (Inr (ev_id e), fired, s') \<and>
      em_backend s' = em_backend s \<and> fired = fst (emit beh (stamp_metadata stack fmt e) (em_handlers s))"
  using assms
  by (auto simp: em_add_def Let_def em_emit_def stamp_metadata_def split: prod.splits)

theorem runtime_events_never_recorded_witness:
  "\<exists>fired s'. em_add inmem_ops ex_beh [] None (ex_event\<lparr>ev_role := RUNTIME_EVENT\<rparr>) True ex_state2
       = (Inr ''u1'', fired, s') \<and> em_backend s' = em_backend ex_state2"
  using runtime_events_never_recorded
    [of "ex_event\<lparr>ev_role := RUNTIME_EVENT\<rparr>" True inmem_ops ex_beh "[]" None ex_state2]
  by (simp add: ex_event_def) blast

definition passes :: "(event \<Rightarrow> string) \<Rightarrow> string option \<Rightarrow> string option \<Rightarrow> string option \<Rightarrow> string option
    \<Rightarrow> event \<Rightarrow> bool" where
  "passes text_of ty call_id exec_status query e \<longleftrightarrow>
     (\<forall>t. ty = Some t \<longrightarrow> ev_event_type e = t) \<and>
     (\<forall>c. call_id = Some c \<longrightarrow> dict_get (ev_metadata e) ''call_id'' = Some (VStr c)) \<and>
     (\<forall>x. exec_status = Some x \<longrightarrow> ev_execution_status e = Some x) \<and>
     (\<forall>q. query = Some q \<longrightarrow> str_contains (str_lower q) (str_lower (text_of e)))"

lemma em_filter_unlimited:
  "ty \<noteq> Some ''LLMOutput'' \<Longrightarrow> ty \<noteq> Some ''LLMComplete'' \<Longrightarrow>
   em_filter ops text_of rc ty call_id exec_status query False None s
     = Inr (filter (passes text_of ty call_id exec_status query) (em_all_events ops s))"
  by (cases ty; cases call_id; cases exec_status; cases query)
     (simp_all add: em_filter_def Let_def passes_def em_all_events_def validate_event_type_name_def
        removed_event_types_def conj_commute conj_left_commute cong: conj_cong filter_cong)

lemma em_filter_limit:
  "em_filter ops text_of rc ty call_id exec_status query regex (Some n) s =
     py_bind (em_filter ops text_of rc ty call_id exec_status query regex None s)
       (\<lambda>l. Inr (if int (length l) > n then slice_from l (- n) else l))"
  by (cases query; cases regex) (auto simp: em_filter_def Let_def py_bind_def split: sum.splits)

text \<open>A query returns exactly the stored events, archived ones included, that pass every given
  test, in insertion order; with a positive limit it returns the last ones of them.\<close>

theorem filter_returns_matching_tail:
  assumes "ty \<noteq> Some ''LLMOutput''" and "ty \<noteq> Some ''LLMComplete''" and "0 < n"
  shows "\<exists>l. em_filter ops text_of rc ty call_id exec_status query False None s = Inr l \<and>
      l = filter (passes text_of ty call_id exec_status query) (em_all_events ops s) \<and>
      em_filter ops text_of rc ty call_id exec_status query False (Some (int n)) s
        = Inr (drop (length l - n) l)"
  using assms(3) by (auto simp: em_filter_limit em_filter_unlimited [OF assms(1,2)] slice_from_neg)

theorem filter_returns_matching_tail_witness:
  "\<exists>l. em_filter inmem_ops (\<lambda>e. ''text'') (\<lambda>p. Inl ValueError) (Some ''Task'') None None None False None ex_state2 = Inr l \<and>
      length l = 2 \<and>
      em_filter inmem_ops (\<lambda>e. ''text'') (\<lambda>p. Inl ValueError) (Some ''Task'') None None None False (Some (int 1)) ex_state2
        = Inr (drop 1 l)"
proof -
  have all: "map ev_event_type (em_all_events inmem_ops ex_state2) = [''Task'', ''Task'']"
    by (simp add: ex_state2_def ex_state1_def em_add_def Let_def em_emit_def emit_def em_init_def
        stamp_metadata_def ex_event_def em_all_events_def imb_allocate_next_tag_def imb_store_def
        imb_init_def imb_max_tag_num_def imb_all_events_def imb_obj_def split: prod.splits)
  have "\<forall>e \<in> set (em_all_events inmem_ops ex_state2). ev_event_type e = ''Task''"
    using all by auto
  then have len: "length (filter (passes (\<lambda>e. ''text'') (Some ''Task'') None None None)
      (em_all_events inmem_ops ex_state2)) = 2"
    using arg_cong [OF all, of length] by (simp add: passes_def cong: filter_cong)
  show ?thesis
    using filter_returns_matching_tail [of "Some ''Task''" 1 inmem_ops "\<lambda>e. ''text''"
        "\<lambda>p. Inl ValueError" None None None ex_state2] len
    by simp
qed

text \<open>A limit of zero is not a limit: the slice \<open>events[-0:]\<close> is the whole list, so a query
  with \<open>limit=0\<close> returns every match, as it does with no limit at all.\<close>

theorem filter_limit_zero_returns_all:
  "em_filter ops text_of rc ty call_id exec_status query regex (Some 0) s
     = em_filter ops text_of rc ty call_id exec_status query regex None s"
  by (cases "em_filter ops text_of rc ty call_id exec_status query regex None s")
     (simp_all add: em_filter_limit)

lemma view_ok_meets_self:
  assumes "view_ok ts" and "t \<in> set ts"
  shows "filter (meets (start_of t) (end_of t)) ts = [t]"
proof -
  from assms(2) obtain pre post where ts: "ts = pre @ t # post" by (meson split_list)
  have t: "tag_ok t" and pre: "\<forall>u \<in> set pre. end_of u < start_of t" and post: "\<forall>u \<in> set post. end_of t < start_of u"
    using assms(1) by (auto simp: ts view_ok_append view_ok_Cons)
  have "filter (meets (start_of t) (end_of t)) pre = []" "filter (meets (start_of t) (end_of t)) post = []"
    using pre post by (auto simp: filter_empty_conv meets_def)
  then show ?thesis using t by (simp add: ts meets_def tag_ok_def)
qed

lemma all_originals_self_child:
  assumes "be_get ops t b = Some e" and "ev_summary e = Some sf"
    and "children_tags sf = [t]" and "summary_tag sf = t"
  shows "all_originals n ops t b = None"
  using assms by (induction n) simp_all

text \<open>Collapsing a range that an existing Summary covers alone replaces that Summary under its
  own tag: the new one lists its own tag as its only child, and expanding it to its original
  events recurses at every depth. The children of the replaced Summary are no longer reachable
  from the view.\<close>

theorem recollapse_self_reference:
  assumes ok: "em_ok inmem_ops imb_inv s" and mem: "range_tag a b \<in> set (em_keys inmem_ops s)"
  shows "\<exists>fired s'. em_collapse inmem_ops beh uid (range_tag a b) (range_tag a b) stext s
        = (Inr (range_tag a b), fired, s') \<and>
      imb_get (range_tag a b) (em_backend s') = Some (make_summary uid (range_tag a b) a b [range_tag a b] stext) \<and>
      (\<forall>n. all_originals n inmem_ops (range_tag a b) (em_backend s') = None)"
proof -
  let ?t = "range_tag a b"
  have view: "view_ok (em_keys inmem_ops s)" and inv: "imb_inv (em_backend s)"
    using ok by (simp_all add: em_ok_def)
  from view_ok_meets_self [OF view mem] have sel: "filter (meets a b) (em_keys inmem_ops s) = [?t]" by simp
  have parsed: "\<forall>t \<in> set (em_keys inmem_ops s). is_ok (parse_tag_start t) \<and> is_ok (parse_tag_end t)"
    using view by (auto simp: view_ok_def list_all_iff tag_ok_def)
  have "fst (em_collapse inmem_ops beh uid ?t ?t stext s) = Inr ?t"
    using collapse_select_total [OF parsed, of a b] sel
    by (simp add: em_collapse_def em_keys_def Let_def split: prod.splits)
  then obtain fired s' where run: "em_collapse inmem_ops beh uid ?t ?t stext s = (Inr ?t, fired, s')"
    by (metis prod.collapse)
  from imb.collapse_success [OF inv view_ok_distinct [OF view] run] obtain a' b' ts where
    "a' = a" "b' = b" and ts: "ts = filter (meets a' b') (em_keys inmem_ops s)"
    and upd: "be_get inmem_ops ?t (em_backend s')
      = Some (make_summary uid ?t (Min (set (map start_of ts))) (Max (set (map end_of ts))) ts stext)"
    by auto
  then have "ts = [?t]" using sel by simp
  then have get: "imb_get ?t (em_backend s') = Some (make_summary uid ?t a b [?t] stext)"
    using upd by simp
  have "all_originals n inmem_ops ?t (em_backend s') = None" for n
    using all_originals_self_child [of inmem_ops ?t "em_backend s'" "make_summary uid ?t a b [?t] stext"
        "the (ev_summary (make_summary uid ?t a b [?t] stext))" n] get
    by (simp add: make_summary_def)
  with run get show ?thesis by blast
qed

definition ex_state3 :: "imb em" where
  "ex_state3 = snd (snd (em_collapse inmem_ops ex_beh ''u2'' (int_str 1) (int_str 2) None ex_state2))"

lemma ex_state3_props:
  "em_ok inmem_ops imb_inv ex_state3 \<and> range_tag 1 2 \<in> set (em_keys inmem_ops ex_state3)"
proof -
  obtain st fired s' where run:
    "em_collapse inmem_ops ex_beh ''u2'' (int_str 1) (int_str 2) None ex_state2 = (Inr st, fired, s')"
    using ex_collapse2 by blast
  have st: "st = range_tag 1 2"
    using run ex_keys2 by (auto simp: em_collapse_def em_keys_def Let_def split: prod.splits)
  show ?thesis using imb.collapse_ok [OF ex_ok2 run] run st by (auto simp: ex_state3_def)
qed

theorem recollapse_self_reference_witness:
  "\<exists>fired s'. em_collapse inmem_ops ex_beh ''u3'' (range_tag 1 2) (range_tag 1 2) (Some ''again'') ex_state3
        = (Inr (range_tag 1 2), fired, s') \<and>
      (\<forall>n. all_originals n inmem_ops (range_tag 1 2) (em_backend s') = None)"
  using recollapse_self_reference [OF conjunct1 [OF ex_state3_props] conjunct2 [OF ex_state3_props]]
  by blast

text \<open>The access path a Summary documents works: after a collapse that does not reuse the tag
  of one of the collapsed events, the list access on the Summary's children returns the collapsed
  events, archived, in the order they had in the view.\<close>

theorem summary_children_access:
  assumes ok: "em_ok inmem_ops imb_inv s"
    and run: "em_collapse inmem_ops beh uid t1 t2 stext s = (Inr st, fired, s')"
    and sm: "imb_get st (em_backend s') = Some sm" "ev_summary sm = Some sf"
    and fresh: "st \<notin> set (children_tags sf)"
  shows "api_getitem_list inmem_ops (children_tags sf) s'
     = Inr (map (\<lambda>t. (the (imb_get t (em_backend s)))\<lparr>ev_status := ARCHIVED\<rparr>) (children_tags sf))"
proof -
  from imb.collapse_block [OF ok run] obtain pre sel post where
    keys: "em_keys inmem_ops s = pre @ sel @ post"
    and get_st: "imb_get st (em_backend s') =
        Some (make_summary uid st (start_of (hd sel)) (end_of (last sel)) sel stext)"
    and get: "\<And>u. u \<noteq> st \<Longrightarrow> imb_get u (em_backend s') =
         (if u \<in> set sel then map_option (\<lambda>e. e\<lparr>ev_status := ARCHIVED\<rparr>) (imb_get u (em_backend s))
          else imb_get u (em_backend s))"
    by auto
  have ch: "children_tags sf = sel" using sm get_st by (auto simp: make_summary_def)
  have "list_all2 (\<lambda>k e. (case em_get inmem_ops k s' of None \<Rightarrow> Inl KeyError | Some e \<Rightarrow> Inr e) = Inr e)
      sel (map (\<lambda>t. (the (imb_get t (em_backend s)))\<lparr>ev_status := ARCHIVED\<rparr>) sel)"
  proof (rule list_all2_all_nthI)
    fix i assume i: "i < length sel"
    then have mem: "sel ! i \<in> set sel" by simp
    then have "imb_get (sel ! i) (em_backend s) \<noteq> None" "sel ! i \<noteq> st"
      using ok fresh by (auto simp: em_ok_def keys ch)
    with get [of "sel ! i"] mem i show "(case em_get inmem_ops (sel ! i) s' of None \<Rightarrow> Inl KeyError | Some e \<Rightarrow> Inr e)
        = Inr (map (\<lambda>t. (the (imb_get t (em_backend s)))\<lparr>ev_status := ARCHIVED\<rparr>) sel ! i)"
      by (auto simp: em_get_def)
  qed simp
  then show ?thesis by (simp add: ch api_getitem_list_def py_mapM_Inr_iff)
qed

theorem summary_children_access_witness:
  "\<exists>sf :: summary_fields. api_getitem_list inmem_ops (children_tags sf) ex_state3
     = Inr (map (\<lambda>t. (the (imb_get t (em_backend ex_state2)))\<lparr>ev_status := ARCHIVED\<rparr>) (children_tags sf)) \<and>
   children_tags sf = [int_str 1, int_str 2]"
proof -
  obtain st fired s' where run:
    "em_collapse inmem_ops ex_beh ''u2'' (int_str 1) (int_str 2) None ex_state2 = (Inr st, fired, s')"
    using ex_collapse2 by blast
  from imb.collapse_success [OF _ _ run] ex_ok2 ex_keys2 have
    get: "imb_get st (em_backend s') = Some (make_summary ''u2'' st 1 2 [int_str 1, int_str 2] None)"
    and st: "st = range_tag 1 2"
    by (auto simp: em_ok_def meets_def)
  define sf where "sf = the (ev_summary (make_summary ''u2'' st 1 2 [int_str 1, int_str 2] None))"
  have sf: "ev_summary (make_summary ''u2'' st 1 2 [int_str 1, int_str 2] None) = Some sf"
    "children_tags sf = [int_str 1, int_str 2]"
    by (simp_all add: sf_def make_summary_def)
  have "st \<notin> set (children_tags sf)"
    unfolding sf(2) st by (metis int_str_no_range range_tag_contains set_ConsD empty_iff list.set(1))
  note access = summary_children_access [OF ex_ok2 run get sf(1) this]
  have "ex_state3 = s'" by (simp add: ex_state3_def run)
  with access sf(2) show ?thesis by blast
qed

lemma middleware_fold:
  assumes "\<And>m c nxt. m \<in> set entries \<Longrightarrow> impl m c nxt = py_bind (nxt (pre m c)) (\<lambda>r. Inr (map_option (post m) r))"
    and "\<And>c. core c = Inr (Some (g c))"
  shows "fold (\<lambda>m nxt. make_next (impl m) nxt) (rev entries) core ctx
     = Inr (Some (fold post (rev entries) (g (fold pre entries ctx))))"
  using assms(1)
proof (induction entries arbitrary: ctx)
  case Nil
  then show ?case by (simp add: assms(2))
next
  case (Cons m ms)
  then show ?case by (simp add: make_next_def)
qed

text \<open>Middleware nests in registration order: the first registered is the outermost. When
  each middleware passes a transformed context on and transforms what comes back, the inputs are
  transformed in registration order and the results in the reverse order.\<close>

theorem middleware_nests_in_registration_order:
  assumes "dict_get (em_middleware s) kind = Some entries"
    and "\<And>m c nxt. m \<in> set entries \<Longrightarrow> impl m c nxt = py_bind (nxt (pre m c)) (\<lambda>r. Inr (map_option (post m) r))"
    and "\<And>c. core c = Inr (Some (g c))"
  shows "run_middleware impl kind ctx core s = Inr (Some (fold post (rev entries) (g (fold pre entries ctx))))"
  using assms(1,3) middleware_fold [of entries impl pre post core g ctx, OF assms(2,3)]
  by (simp add: run_middleware_def)

theorem middleware_nests_in_registration_order_witness:
  "run_middleware (\<lambda>m c nxt. py_bind (nxt (c @ [m])) (\<lambda>r. Inr (map_option (\<lambda>l. l @ [100 + m]) r)))
     ''llm_call'' [] (\<lambda>c. Inr (Some (c @ [0])))
     (\<lparr>em_backend = imb_init, em_handlers = [], em_close_callbacks = [], em_event_query = None,
       em_middleware = [(''llm_call'', [1, 2])]\<rparr>)
   = Inr (Some [1, 2, 0, 102, 101::nat])"
  by (subst middleware_nests_in_registration_order
        [where entries = "[1, 2]" and pre = "\<lambda>m c. c @ [m]" and post = "\<lambda>m l. l @ [100 + m]"
           and g = "\<lambda>c. c @ [0]"]) simp_all

end
