(* ===== verification/Context_Builder.thy ===== *)
theory Context_Builder
  imports Context_Manager Event_Manager "HOL-Library.Multiset"
begin

text \<open>
  From blocks, overrides and events to what the model sees: \<^verbatim>\<open>src/nooa/runtime/context_builder.py\<close> and
  the end of \<^verbatim>\<open>_prepare_context\<close> in \<^verbatim>\<open>src/nooa/runtime/actor.py\<close>.

  \<open>resolve\<close> is the function that evaluates an expression or passes a text through; \<open>fmt\<close> renders the
  value of a block; \<open>ev_is_empty\<close> is the property \<^verbatim>\<open>is_empty\<close> of an event; the strategy is what its
  three methods return. The phases are composed as in \<^verbatim>\<open>build_context\<close>.
\<close>

declare map_of_eq_Some_iff [simp del] Some_eq_map_of_iff [simp del]

section \<open>Blocks\<close>

record block_meta =
  bm_expr :: "string option"
  bm_tag :: "string option"
  bm_truncated :: bool
  bm_user :: bool
  bm_static :: bool
  bm_source_dynamic :: bool

definition meta0 :: block_meta where
  "meta0 = \<lparr>bm_expr = None, bm_tag = None, bm_truncated = False, bm_user = False, bm_static = False,
     bm_source_dynamic = False\<rparr>"

record rblock =
  rb_key :: string
  rb_content :: string
  rb_role :: role
  rb_meta :: block_meta
  rb_event :: "event option"

datatype source = Src_text string | Src_expr string

datatype override = Ov_none | Ov_text string | Ov_dyn string | Ov_context ctx_value

section \<open>Overrides\<close>

text \<open>A \<^verbatim>\<open>Context\<close> becomes its text or expression, with its own word on the placement.\<close>

fun normalize :: "override \<Rightarrow> (bool option \<times> source) option" where
  "normalize Ov_none = None"
| "normalize (Ov_text t) = Some (None, Src_text t)"
| "normalize (Ov_dyn e) = Some (None, Src_expr e)"
| "normalize (Ov_context (Ctx_expr e p)) = Some (Some p, Src_expr e)"
| "normalize (Ov_context (Ctx_text t p)) = Some (Some p, Src_text t)"

record phase =
  ph_static_expr :: "string \<Rightarrow> string"
  ph_static_keys :: "string set option"
  ph_disabled :: "string set"

definition override_block ::
  "(string \<Rightarrow> source \<Rightarrow> string option) \<Rightarrow> phase \<Rightarrow> string \<Rightarrow> bool option \<Rightarrow> source \<Rightarrow> rblock option \<Rightarrow> rblock" where
  "override_block resolve ph key own src old =
     (let content = (case resolve key src of Some c \<Rightarrow> c | None \<Rightarrow> ''None'');
          dyn = (case src of Src_expr _ \<Rightarrow> True | Src_text _ \<Rightarrow> False);
          static = (case own of Some p \<Rightarrow> p
            | None \<Rightarrow> (case old of Some b \<Rightarrow> bm_static (rb_meta b)
                | None \<Rightarrow> (case ph_static_keys ph of Some ks \<Rightarrow> key \<in> ks | None \<Rightarrow> False) \<or> \<not> dyn))
      in \<lparr>rb_key = key, rb_content = content, rb_role = SYSTEM,
           rb_meta = meta0\<lparr>bm_expr := Some (case src of Src_expr e \<Rightarrow> e | Src_text _ \<Rightarrow> ph_static_expr ph key),
                           bm_static := static\<rparr>,
           rb_event = None\<rparr>)"

text \<open>The index: where a key first occurs.\<close>

definition position :: "rblock list \<Rightarrow> string \<Rightarrow> nat option" where
  "position blocks key = dict_get (zip (map rb_key blocks) [0..<length blocks]) key"

text \<open>One pass over the overrides collects replacements by position and blocks to append.\<close>

type_synonym plan = "(nat, rblock option) dict \<times> rblock list"

definition override_step ::
  "(string \<Rightarrow> source \<Rightarrow> string option) \<Rightarrow> phase \<Rightarrow> rblock list \<Rightarrow> string \<times> override \<Rightarrow> plan \<Rightarrow> plan" where
  "override_step resolve ph blocks = (\<lambda>(key, value) (repl, app).
     (let pos = position blocks key;
          remove = (case pos of Some i \<Rightarrow> dict_set i None repl | None \<Rightarrow> repl)
      in if key \<in> ph_disabled ph then (remove, app)
         else case normalize value of
           None \<Rightarrow> (remove, app)
         | Some (own, src) \<Rightarrow>
             (case pos of
                Some i \<Rightarrow> (dict_set i (Some (override_block resolve ph key own src (Some (blocks ! i)))) repl, app)
              | None \<Rightarrow> (repl, app @ [override_block resolve ph key own src None]))))"

definition rebuild :: "rblock list \<Rightarrow> plan \<Rightarrow> rblock list" where
  "rebuild blocks = (\<lambda>(repl, app).
     List.map_filter (\<lambda>(i, b). case dict_get repl i of Some r \<Rightarrow> r | None \<Rightarrow> Some b)
       (zip [0..<length blocks] blocks) @ app)"

definition apply_overrides ::
  "(string \<Rightarrow> source \<Rightarrow> string option) \<Rightarrow> phase \<Rightarrow> rblock list \<Rightarrow> (string, override) dict \<Rightarrow> rblock list" where
  "apply_overrides resolve ph blocks overrides =
     (if overrides = [] then blocks
      else rebuild blocks (fold (override_step resolve ph blocks) overrides ([], [])))"

section \<open>Order\<close>

text \<open>The rank of a key: its last position in the strategy's list.\<close>

definition key_rank :: "string list \<Rightarrow> string \<Rightarrow> nat option" where
  "key_rank ks = map_of (rev (zip ks [0..<length ks]))"

definition reorder_blocks :: "string list option \<Rightarrow> rblock list \<Rightarrow> rblock list" where
  "reorder_blocks order blocks =
     (case order of
        None \<Rightarrow> blocks
      | Some ks \<Rightarrow>
          sort_key (\<lambda>b. the (key_rank ks (rb_key b))) (filter (\<lambda>b. key_rank ks (rb_key b) \<noteq> None) blocks)
            @ filter (\<lambda>b. key_rank ks (rb_key b) = None) blocks)"

section \<open>The phases\<close>

definition context_expr :: "string \<Rightarrow> string" where
  "context_expr key = ''self.context[\"'' @ key @ ''\"]''"

definition persistent_block ::
  "(string \<Rightarrow> source \<Rightarrow> string option) \<Rightarrow> ('a plain \<Rightarrow> string) \<Rightarrow> 'a cm \<Rightarrow> string \<Rightarrow> 'a block \<Rightarrow> rblock" where
  "persistent_block resolve fmt m key value =
     (let m0 = meta0\<lparr>bm_user := key \<notin> cm_protected m, bm_static := is_static key m\<rparr> in
      case value of
        Dyn e \<Rightarrow> \<lparr>rb_key = key,
          rb_content = (case resolve key (Src_expr e) of Some c \<Rightarrow> c | None \<Rightarrow> ''None''),
          rb_role = SYSTEM, rb_meta = m0\<lparr>bm_expr := Some e, bm_source_dynamic := True\<rparr>, rb_event = None\<rparr>
      | Val v \<Rightarrow> \<lparr>rb_key = key, rb_content = (if v = P_None then ''None'' else fmt v),
          rb_role = SYSTEM, rb_meta = m0\<lparr>bm_expr := Some (context_expr key)\<rparr>, rb_event = None\<rparr>)"

definition phase_persistent_blocks ::
  "(string \<Rightarrow> source \<Rightarrow> string option) \<Rightarrow> ('a plain \<Rightarrow> string) \<Rightarrow> 'a cm \<Rightarrow> rblock list \<times> (string, string option) dict" where
  "phase_persistent_blocks resolve fmt m =
     fold (\<lambda>(key, value) (blocks, cache).
         if is_disabled key m then (blocks, cache)
         else (blocks @ [persistent_block resolve fmt m key value],
               case value of Dyn e \<Rightarrow> dict_set key (resolve key (Src_expr e)) cache | Val _ \<Rightarrow> cache))
       (cm_blocks m) ([], [])"

record strategy =
  st_overrides :: "(string, override) dict option"
  st_static_keys :: "string set option"
  st_order :: "string list option"

definition phase_strategy_overrides ::
  "(string \<Rightarrow> source \<Rightarrow> string option) \<Rightarrow> strategy option \<Rightarrow> string set \<Rightarrow> rblock list \<Rightarrow> rblock list" where
  "phase_strategy_overrides resolve strat disabled blocks =
     (case strat of
        None \<Rightarrow> blocks
      | Some st \<Rightarrow> (case st_overrides st of
          None \<Rightarrow> blocks
        | Some ov \<Rightarrow> apply_overrides resolve \<lparr>ph_static_expr = (\<lambda>key. ''strategy.'' @ key),
            ph_static_keys = st_static_keys st, ph_disabled = disabled\<rparr> blocks ov))"

definition phase_decorator_context ::
  "(string \<Rightarrow> source \<Rightarrow> string option) \<Rightarrow> (string, override) dict option \<Rightarrow> string set \<Rightarrow> rblock list \<Rightarrow> rblock list" where
  "phase_decorator_context resolve decorator disabled blocks =
     (case decorator of
        None \<Rightarrow> blocks
      | Some ov \<Rightarrow> apply_overrides resolve \<lparr>ph_static_expr = (\<lambda>key. ''@strategy.context[\"'' @ key @ ''\"]''),
          ph_static_keys = None, ph_disabled = disabled\<rparr> blocks ov)"

definition phase_scoped_blocks ::
  "(string \<Rightarrow> source \<Rightarrow> string option) \<Rightarrow> (string, override) dict option \<Rightarrow> string set \<Rightarrow> rblock list \<Rightarrow> rblock list" where
  "phase_scoped_blocks resolve scoped disabled blocks =
     (case scoped of
        None \<Rightarrow> blocks
      | Some ov \<Rightarrow> apply_overrides resolve \<lparr>ph_static_expr = context_expr,
          ph_static_keys = None, ph_disabled = disabled\<rparr> blocks ov)"

definition event_block :: "event \<Rightarrow> rblock" where
  "event_block e =
     (let tag = (case ev_tag e of Some t \<Rightarrow> t | None \<Rightarrow> ev_id e) in
      \<lparr>rb_key = ''event_'' @ tag, rb_content = [], rb_role = ev_role e,
       rb_meta = meta0\<lparr>bm_expr := Some (''self.events[\"'' @ tag @ ''\"]''), bm_tag := Some tag\<rparr>,
       rb_event = Some e\<rparr>)"

text \<open>The query in force: runtime, scoped, decorator, agent.\<close>

definition active_query :: "event_query option list \<Rightarrow> event_query option" where
  "active_query qs = (case List.map_filter id qs of [] \<Rightarrow> None | q # _ \<Rightarrow> Some q)"

record 'b event_source =
  es_ops :: "'b backend_ops"
  es_manager :: "'b em"
  es_queries :: "event_query option list"
  es_call_id :: "string option"
  es_text :: "event \<Rightarrow> string"
  es_compile :: "string \<Rightarrow> (string \<Rightarrow> bool) py_res"
  es_is_empty :: "event \<Rightarrow> bool"

definition phase_events :: "'b event_source \<Rightarrow> rblock list \<Rightarrow> rblock list py_res" where
  "phase_events es blocks =
     py_bind (case active_query (es_queries es) of
         None \<Rightarrow> Inr (em_values (es_ops es) (es_manager es))
       | Some q \<Rightarrow> query_apply (es_text es) (es_compile es) q (em_values (es_ops es) (es_manager es)) (es_call_id es))
       (\<lambda>events. Inr (blocks @ map event_block (filter (\<lambda>e. \<not> es_is_empty es e) events)))"

definition system_blocks ::
  "(string \<Rightarrow> source \<Rightarrow> string option) \<Rightarrow> ('a plain \<Rightarrow> string) \<Rightarrow> 'a cm \<Rightarrow> strategy option \<Rightarrow>
   (string, override) dict option \<Rightarrow> (string, override) dict option \<Rightarrow> rblock list" where
  "system_blocks resolve fmt m strat decorator scoped =
     (let b1 = fst (phase_persistent_blocks resolve fmt m);
          b2 = phase_strategy_overrides resolve strat (cm_disabled m) b1;
          b3 = phase_decorator_context resolve decorator (cm_disabled m) b2;
          b4 = phase_scoped_blocks resolve scoped (cm_disabled m) b3
      in reorder_blocks (Option.bind strat st_order) b4)"

definition build_context ::
  "(string \<Rightarrow> source \<Rightarrow> string option) \<Rightarrow> ('a plain \<Rightarrow> string) \<Rightarrow> 'a cm \<Rightarrow> 'b event_source \<Rightarrow> strategy option \<Rightarrow>
   (string, override) dict option \<Rightarrow> (string, override) dict option \<Rightarrow>
   (rblock list \<times> (string, string option) dict) py_res" where
  "build_context resolve fmt m es strat decorator scoped =
     py_bind (phase_events es (system_blocks resolve fmt m strat decorator scoped))
       (\<lambda>blocks. Inr (blocks, snd (phase_persistent_blocks resolve fmt m)))"

text \<open>\<^verbatim>\<open>_prepare_context\<close>: build, cache what was resolved, hide the guide to hidden events.\<close>

definition prepare_context ::
  "(string \<Rightarrow> source \<Rightarrow> string option) \<Rightarrow> ('a plain \<Rightarrow> string) \<Rightarrow> bool \<Rightarrow> 'a cm \<Rightarrow> 'b event_source \<Rightarrow> strategy option \<Rightarrow>
   (string, override) dict option \<Rightarrow> (string, override) dict option \<Rightarrow> (rblock list \<times> 'a cm) py_res" where
  "prepare_context resolve fmt events_hidden m es strat decorator scoped =
     py_bind (build_context resolve fmt m es strat decorator scoped) (\<lambda>(blocks, cache).
       Inr (if events_hidden then filter (\<lambda>b. rb_key b \<noteq> ''events_api'') blocks else blocks,
            update_resolved cache m))"

section \<open>What a phase of overrides does to each block\<close>

definition block_at :: "string \<Rightarrow> rblock list \<Rightarrow> rblock option" where
  "block_at k bs = find (\<lambda>b. rb_key b = k) bs"

definition override_at ::
  "(string \<Rightarrow> source \<Rightarrow> string option) \<Rightarrow> phase \<Rightarrow> string \<Rightarrow> override \<Rightarrow> rblock option \<Rightarrow> rblock option" where
  "override_at resolve ph key value old =
     (if key \<in> ph_disabled ph then None
      else case normalize value of None \<Rightarrow> None
        | Some (own, src) \<Rightarrow> Some (override_block resolve ph key own src old))"

lemma override_block_key [simp]:
  "rb_key (override_block resolve ph key own src old) = key"
  "rb_event (override_block resolve ph key own src old) = None"
  by (simp_all add: override_block_def Let_def)

lemma override_at_key: "override_at resolve ph key v old = Some b \<Longrightarrow> rb_key b = key \<and> rb_event b = None"
  by (auto simp: override_at_def split: if_splits option.splits)

lemma position_iff:
  assumes "distinct (map rb_key blocks)"
  shows "position blocks key = Some i
    \<longleftrightarrow> i < length blocks \<and> rb_key (blocks ! i) = key"
proof -
  have "distinct (map fst (zip (map rb_key blocks) [0..<length blocks]))" using assms by simp
  then have "position blocks key = Some i
    \<longleftrightarrow> (key, i) \<in> set (zip (map rb_key blocks) [0..<length blocks])"
    unfolding position_def by (rule map_of_eq_Some_iff)
  also have "\<dots> \<longleftrightarrow> i < length blocks \<and> rb_key (blocks ! i) = key"
    by (auto simp: in_set_zip intro!: exI [of _ i])
  finally show ?thesis .
qed

lemma position_none:
  "position blocks key = None \<longleftrightarrow> key \<notin> rb_key ` set blocks"
  unfolding position_def map_of_eq_None_iff by (simp flip: set_map)

definition planned :: "(string \<Rightarrow> source \<Rightarrow> string option) \<Rightarrow> phase \<Rightarrow> rblock list \<Rightarrow> (string, override) dict \<Rightarrow> plan \<Rightarrow> bool" where
  "planned resolve ph blocks ov pl \<longleftrightarrow>
     (\<forall>i < length blocks. dict_get (fst pl) i =
        map_option (\<lambda>v. override_at resolve ph (rb_key (blocks ! i)) v (Some (blocks ! i)))
          (dict_get ov (rb_key (blocks ! i)))) \<and>
     snd pl = List.map_filter (\<lambda>(k, v). if k \<in> rb_key ` set blocks then None else override_at resolve ph k v None) ov"

lemma override_step_eq:
  "override_step resolve ph blocks (key, value) (repl, app) =
     (case position blocks key of
        Some i \<Rightarrow> (dict_set i (override_at resolve ph key value (Some (blocks ! i))) repl, app)
      | None \<Rightarrow> (repl, app @ (case override_at resolve ph key value None of Some b \<Rightarrow> [b] | None \<Rightarrow> [])))"
  by (cases "position blocks key"; cases "normalize value")
    (auto simp: override_step_def override_at_def Let_def)

lemma fold_planned:
  assumes "distinct (map rb_key blocks)" and "distinct (map fst ov)"
  shows "planned resolve ph blocks ov (fold (override_step resolve ph blocks) ov ([], []))"
  using assms(2)
proof (induction ov rule: rev_induct)
  case Nil
  then show ?case by (simp add: planned_def List.map_filter_def)
next
  case (snoc e ov)
  obtain key v where e: "e = (key, v)" by (cases e)
  obtain repl app where f: "fold (override_step resolve ph blocks) ov ([], []) = (repl, app)"
    by (cases "fold (override_step resolve ph blocks) ov ([], [])")
  from snoc have IH: "planned resolve ph blocks ov (repl, app)" by (simp add: f)
  from snoc.prems have fresh: "dict_get ov key = None" by (auto simp: e map_of_eq_None_iff)
  have get: "([key \<mapsto> v] ++ map_of ov) k = (if k = key then Some v else dict_get ov k)" for k
    using fresh by (auto simp: map_add_def split: option.split)
  show ?case
  proof (cases "position blocks key")
    case None
    then have out: "key \<notin> rb_key ` set blocks" by (simp add: position_none)
    then have "rb_key (blocks ! i) \<noteq> key" if "i < length blocks" for i using that by auto
    with IH None out show ?thesis
      by (auto simp: planned_def e f override_step_eq get List.map_filter_def split: option.split)
  next
    case (Some i)
    then have i: "i < length blocks" "rb_key (blocks ! i) = key" by (simp_all add: position_iff [OF assms(1)])
    have other: "rb_key (blocks ! j) = key \<longleftrightarrow> j = i" if "j < length blocks" for j
      using i that assms(1) by (auto simp: distinct_conv_nth)
    have mem: "key \<in> rb_key ` set blocks" using i by auto
    show ?thesis using IH Some i(1) other
      by (auto simp: planned_def e f override_step_eq get List.map_filter_def mem i(2))
  qed
qed

lemma map_filter_zip:
  assumes "\<And>i. i < length xs \<Longrightarrow> f (n + i, xs ! i) = g (xs ! i)"
  shows "List.map_filter f (zip [n..<n + length xs] xs) = List.map_filter g xs"
  using assms
proof (induction xs arbitrary: n)
  case (Cons x xs)
  have "List.map_filter f (zip [Suc n..<Suc n + length xs] xs) = List.map_filter g xs"
    by (rule Cons.IH) (use Cons.prems [of "Suc _"] in auto)
  moreover have "f (n, x) = g x" using Cons.prems [of 0] by simp
  moreover have "[n..<n + length (x # xs)] = n # [Suc n..<Suc n + length xs]"
    by (subst upt_conv_Cons) simp_all
  ultimately show ?case by (simp only: zip_Cons_Cons List.map_filter_simps)
qed (simp add: List.map_filter_def)

lemma apply_overrides_eq:
  assumes "distinct (map rb_key blocks)" and "distinct (map fst ov)"
  shows "apply_overrides resolve ph blocks ov =
    List.map_filter (\<lambda>b. case dict_get ov (rb_key b) of
        None \<Rightarrow> Some b | Some v \<Rightarrow> override_at resolve ph (rb_key b) v (Some b)) blocks @
    List.map_filter (\<lambda>(k, v). if k \<in> rb_key ` set blocks then None else override_at resolve ph k v None) ov"
proof (cases "ov = []")
  case True
  then show ?thesis by (simp add: apply_overrides_def List.map_filter_def)
next
  case False
  obtain repl app where f: "fold (override_step resolve ph blocks) ov ([], []) = (repl, app)"
    by (cases "fold (override_step resolve ph blocks) ov ([], [])")
  have pl: "planned resolve ph blocks ov (repl, app)" using fold_planned [OF assms] f by metis
  have "List.map_filter (\<lambda>(i, b). case dict_get repl i of Some r \<Rightarrow> r | None \<Rightarrow> Some b) (zip [0..<0 + length blocks] blocks)
      = List.map_filter (\<lambda>b. case dict_get ov (rb_key b) of
        None \<Rightarrow> Some b | Some v \<Rightarrow> override_at resolve ph (rb_key b) v (Some b)) blocks"
    by (rule map_filter_zip) (use pl in \<open>auto simp: planned_def split: option.split\<close>)
  then show ?thesis using False pl by (simp add: apply_overrides_def f rebuild_def planned_def)
qed

lemma block_at_append: "block_at k (xs @ ys) = (case block_at k xs of None \<Rightarrow> block_at k ys | Some b \<Rightarrow> Some b)"
  by (induction xs) (auto simp: block_at_def)

lemma block_at_none: "block_at k bs = None \<longleftrightarrow> k \<notin> rb_key ` set bs"
  by (auto simp: block_at_def find_None_iff)

lemma block_at_some: "block_at k bs = Some b \<Longrightarrow> b \<in> set bs \<and> rb_key b = k"
  by (auto simp: block_at_def find_Some_iff)

lemma block_at_map_filter:
  assumes "distinct (map rb_key bs)" and "\<And>b b'. g b = Some b' \<Longrightarrow> rb_key b' = rb_key b"
  shows "block_at k (List.map_filter g bs) = Option.bind (block_at k bs) g"
  using assms(1)
proof (induction bs)
  case (Cons b bs)
  have rest: "block_at k (List.map_filter g bs) = None" if "rb_key b = k"
  proof -
    have "block_at k bs = None" using that Cons.prems by (auto simp: block_at_none)
    with Cons show ?thesis by simp
  qed
  show ?case
  proof (cases "g b")
    case None
    then show ?thesis using Cons rest by (auto simp: block_at_def List.map_filter_simps)
  next
    case (Some b')
    with assms(2) have "rb_key b' = rb_key b" by simp
    then show ?thesis using Cons rest Some by (auto simp: block_at_def List.map_filter_simps)
  qed
qed (simp add: block_at_def List.map_filter_def)

lemma block_at_new:
  assumes "distinct (map fst ov)" and "\<And>k v b. g k v = Some b \<Longrightarrow> rb_key b = k"
  shows "block_at k (List.map_filter (\<lambda>(k, v). g k v) ov) = Option.bind (dict_get ov k) (g k)"
  using assms(1)
proof (induction ov)
  case (Cons e ov)
  obtain k1 v where e: "e = (k1, v)" by (cases e)
  have rest: "block_at k (List.map_filter (\<lambda>(k, v). g k v) ov) = None" if "k1 = k"
  proof -
    have "dict_get ov k = None" using that Cons.prems by (simp add: e map_of_eq_None_iff)
    with Cons show ?thesis by simp
  qed
  show ?case
  proof (cases "g k1 v")
    case None
    then show ?thesis using Cons rest by (auto simp: e block_at_def List.map_filter_simps)
  next
    case (Some b)
    with assms(2) have "rb_key b = k1" by simp
    then show ?thesis using Cons rest Some by (auto simp: e block_at_def List.map_filter_simps)
  qed
qed (simp add: block_at_def List.map_filter_def)

lemma apply_overrides_at:
  assumes "distinct (map rb_key blocks)" and "distinct (map fst ov)"
  shows "block_at k (apply_overrides resolve ph blocks ov) =
    (case dict_get ov k of None \<Rightarrow> block_at k blocks
     | Some v \<Rightarrow> override_at resolve ph k v (block_at k blocks))"
proof -
  let ?g = "\<lambda>b. case dict_get ov (rb_key b) of
        None \<Rightarrow> Some b | Some v \<Rightarrow> override_at resolve ph (rb_key b) v (Some b)"
  let ?h = "\<lambda>k v. if k \<in> rb_key ` set blocks then None else override_at resolve ph k v None"
  have old: "block_at k (List.map_filter ?g blocks) = Option.bind (block_at k blocks) ?g"
    by (rule block_at_map_filter [OF assms(1)]) (auto split: option.splits dest: override_at_key)
  have new: "block_at k (List.map_filter (\<lambda>(k, v). ?h k v) ov) = Option.bind (dict_get ov k) (?h k)"
    by (rule block_at_new [OF assms(2)]) (auto split: if_splits dest: override_at_key)
  show ?thesis
  proof (cases "block_at k blocks")
    case None
    then have "k \<notin> rb_key ` set blocks" by (simp add: block_at_none)
    with None show ?thesis
      by (simp add: apply_overrides_eq [OF assms] block_at_append old new split: option.split)
  next
    case (Some b)
    then have "rb_key b = k" "k \<in> rb_key ` set blocks" by (auto dest: block_at_some)
    with Some show ?thesis
      by (auto simp: apply_overrides_eq [OF assms] block_at_append old new split: option.split)
  qed
qed

section \<open>Keys stay unique\<close>

lemma distinct_kept:
  assumes "distinct (map rb_key bs)" and "\<And>b b'. g b = Some b' \<Longrightarrow> rb_key b' = rb_key b"
  shows "distinct (map rb_key (List.map_filter g bs)) \<and> rb_key ` set (List.map_filter g bs) \<subseteq> rb_key ` set bs"
  using assms
proof (induction bs)
  case (Cons b bs)
  then have IH: "distinct (map rb_key (List.map_filter g bs))"
      "rb_key ` set (List.map_filter g bs) \<subseteq> rb_key ` set bs" "rb_key b \<notin> rb_key ` set bs"
    by simp_all
  show ?case
  proof (cases "g b")
    case (Some b')
    with Cons.prems(2) have "rb_key b' = rb_key b" by simp
    with IH Some show ?thesis unfolding List.map_filter_simps by simp blast
  qed (use IH in \<open>unfold List.map_filter_simps, auto\<close>)
qed (simp add: List.map_filter_def)

lemma distinct_new:
  assumes "distinct (map fst ov)" and "\<And>k v b. g k v = Some b \<Longrightarrow> rb_key b = k"
  shows "distinct (map rb_key (List.map_filter (\<lambda>(k, v). g k v) ov)) \<and>
    rb_key ` set (List.map_filter (\<lambda>(k, v). g k v) ov) \<subseteq> fst ` set ov"
  using assms
proof (induction ov)
  case (Cons e ov)
  obtain k v where e: "e = (k, v)" by (cases e)
  from Cons have IH: "distinct (map rb_key (List.map_filter (\<lambda>(k, v). g k v) ov))"
      "rb_key ` set (List.map_filter (\<lambda>(k, v). g k v) ov) \<subseteq> fst ` set ov" "k \<notin> fst ` set ov"
    by (simp_all add: e)
  show ?case
  proof (cases "g k v")
    case (Some b)
    with Cons.prems(2) have "rb_key b = k" by simp
    with IH Some show ?thesis unfolding e List.map_filter_simps by simp blast
  qed (use IH in \<open>unfold e List.map_filter_simps, auto\<close>)
qed (simp add: List.map_filter_def)

lemma apply_overrides_distinct:
  assumes "distinct (map rb_key blocks)" and "distinct (map fst ov)"
  shows "distinct (map rb_key (apply_overrides resolve ph blocks ov))"
proof -
  let ?g = "\<lambda>b. case dict_get ov (rb_key b) of
        None \<Rightarrow> Some b | Some v \<Rightarrow> override_at resolve ph (rb_key b) v (Some b)"
  let ?h = "\<lambda>k v. if k \<in> rb_key ` set blocks then None else override_at resolve ph k v None"
  have old: "distinct (map rb_key (List.map_filter ?g blocks)) \<and>
      rb_key ` set (List.map_filter ?g blocks) \<subseteq> rb_key ` set blocks"
    by (rule distinct_kept [OF assms(1)]) (auto split: option.splits dest: override_at_key)
  have new: "distinct (map rb_key (List.map_filter (\<lambda>(k, v). ?h k v) ov))"
    by (rule conjunct1 [OF distinct_new [OF assms(2)]]) (auto split: if_splits dest: override_at_key)
  have "rb_key b \<notin> rb_key ` set blocks" if "b \<in> set (List.map_filter (\<lambda>(k, v). ?h k v) ov)" for b
    using that by (auto simp: List.map_filter_def split: if_splits dest!: override_at_key)
  then have "rb_key ` set (List.map_filter (\<lambda>(k, v). ?h k v) ov) \<inter> rb_key ` set blocks = {}" by blast
  then have "rb_key ` set (List.map_filter ?g blocks) \<inter> rb_key ` set (List.map_filter (\<lambda>(k, v). ?h k v) ov) = {}"
    using old by blast
  then show ?thesis using old new unfolding apply_overrides_eq [OF assms] map_append distinct_append set_map by simp
qed

section \<open>The persistent blocks\<close>

lemma persistent_key [simp]:
  "rb_key (persistent_block resolve fmt m key v) = key" "rb_event (persistent_block resolve fmt m key v) = None"
  by (auto simp: persistent_block_def Let_def split: block.split)

definition cache_step :: "(string \<Rightarrow> source \<Rightarrow> string option) \<Rightarrow> string set \<Rightarrow> string \<times> 'a block \<Rightarrow>
    (string, string option) dict \<Rightarrow> (string, string option) dict" where
  "cache_step resolve D = (\<lambda>(k, v) c. case v of
     Dyn e \<Rightarrow> if k \<in> D then c else dict_set k (resolve k (Src_expr e)) c | Val _ \<Rightarrow> c)"

lemma persistent_fold:
  "phase_persistent_blocks resolve fmt m =
    (map (\<lambda>(k, v). persistent_block resolve fmt m k v) (filter (\<lambda>(k, v). k \<notin> cm_disabled m) (cm_blocks m)),
     fold (cache_step resolve (cm_disabled m)) (cm_blocks m) [])"
proof -
  define F where "F = (\<lambda>(key, val) (blocks, cache).
         if is_disabled key m then (blocks, cache)
         else (blocks @ [persistent_block resolve fmt m key val],
               case val of Dyn e \<Rightarrow> dict_set key (resolve key (Src_expr e)) cache | Val _ \<Rightarrow> cache))"
  have step: "F (k, v) (bs, c) = (bs @ (if k \<in> cm_disabled m then [] else [persistent_block resolve fmt m k v]),
      cache_step resolve (cm_disabled m) (k, v) c)" for k v bs c
    by (cases v) (simp_all add: F_def cache_step_def is_disabled_def)
  have "fold F kvs (bs, c) = (bs @ map (\<lambda>(k, v). persistent_block resolve fmt m k v)
      (filter (\<lambda>(k, v). k \<notin> cm_disabled m) kvs), fold (cache_step resolve (cm_disabled m)) kvs c)" for kvs bs c
    by (induction kvs arbitrary: bs c) (auto simp: step)
  then show ?thesis unfolding phase_persistent_blocks_def F_def [symmetric] by simp
qed

lemma cache_get:
  assumes "distinct (dict_keys kvs)"
  shows "dict_get (fold (cache_step resolve D) kvs cache) k
    = (case dict_get kvs k of
         Some (Dyn e) \<Rightarrow> if k \<in> D then dict_get cache k else Some (resolve k (Src_expr e))
       | _ \<Rightarrow> dict_get cache k)"
  using assms
proof (induction kvs arbitrary: cache)
  case (Cons e kvs)
  obtain k1 v where e: "e = (k1, v)" by (cases e)
  from Cons.prems have "dict_get kvs k1 = None" by (simp add: e map_of_eq_None_iff)
  then show ?case using Cons.IH Cons.prems
    by (cases v; cases "dict_get kvs k") (auto simp: e cache_step_def split: block.split)
qed simp

lemma cache_distinct:
  "distinct (dict_keys cache) \<Longrightarrow> distinct (dict_keys (fold (cache_step resolve D) kvs cache))"
proof (induction kvs arbitrary: cache)
  case (Cons e kvs)
  then show ?case by (cases e; cases "snd e") (auto simp: cache_step_def)
qed simp

lemma persistent_blocks_at:
  assumes "cm_inv m"
  shows "distinct (map rb_key (fst (phase_persistent_blocks resolve fmt m)))"
    "block_at k (fst (phase_persistent_blocks resolve fmt m)) =
      (if k \<in> cm_disabled m then None
       else map_option (persistent_block resolve fmt m k) (dict_get (cm_blocks m) k))"
proof -
  have eq: "fst (phase_persistent_blocks resolve fmt m) =
      map (\<lambda>(k, v). persistent_block resolve fmt m k v) (filter (\<lambda>(k, v). k \<notin> cm_disabled m) (cm_blocks m))"
    by (simp add: persistent_fold)
  have keys: "map rb_key (fst (phase_persistent_blocks resolve fmt m))
      = map fst (filter (\<lambda>(k, v). k \<notin> cm_disabled m) (cm_blocks m))"
    by (simp add: eq comp_def case_prod_beta)
  have d: "distinct (map fst (cm_blocks m))" using assms by (simp add: cm_inv_def)
  then show "distinct (map rb_key (fst (phase_persistent_blocks resolve fmt m)))"
    unfolding keys by (rule distinct_map_filter)
  show "block_at k (fst (phase_persistent_blocks resolve fmt m)) =
      (if k \<in> cm_disabled m then None
       else map_option (persistent_block resolve fmt m k) (dict_get (cm_blocks m) k))"
  proof -
    have "block_at k (map (\<lambda>(k, v). persistent_block resolve fmt m k v) (filter (\<lambda>(k, v). k \<notin> cm_disabled m) kvs))
      = (if k \<in> cm_disabled m then None else map_option (persistent_block resolve fmt m k) (dict_get kvs k))" for kvs
      by (induction kvs) (auto simp: block_at_def)
    then show ?thesis unfolding eq .
  qed
qed

lemma persistent_cache:
  assumes "cm_inv m"
  shows "dict_get (snd (phase_persistent_blocks resolve fmt m)) k =
    (case dict_get (cm_blocks m) k of
       Some (Dyn e) \<Rightarrow> if k \<in> cm_disabled m then None else Some (resolve k (Src_expr e)) | _ \<Rightarrow> None)"
    "distinct (dict_keys (snd (phase_persistent_blocks resolve fmt m)))"
  using assms unfolding persistent_fold
  by (auto simp: cm_inv_def cache_get cache_distinct split: option.split block.split)

section \<open>Order\<close>

lemma block_at_iff: "distinct (map rb_key bs) \<Longrightarrow> block_at k bs = Some b \<longleftrightarrow> b \<in> set bs \<and> rb_key b = k"
  by (induction bs) (auto simp: block_at_def)

lemma distinct_keys_perm:
  assumes "mset xs = mset ys" and "distinct (map rb_key xs)"
  shows "distinct (map rb_key ys)"
  using assms by (metis mset_eq_imp_distinct_iff mset_map)

lemma block_at_perm:
  assumes "mset xs = mset ys" and "distinct (map rb_key xs)"
  shows "block_at k xs = block_at k ys"
proof -
  have "distinct (map rb_key ys)" using assms by (rule distinct_keys_perm)
  moreover have "set xs = set ys" using assms(1) by (rule mset_eq_setD)
  ultimately show ?thesis using block_at_iff [OF assms(2)] block_at_iff by (intro option_eqI) simp
qed

lemma reorder_mset: "mset (reorder_blocks order bs) = mset bs"
proof (cases order)
  case (Some ks)
  define P where "P = (\<lambda>b :: rblock. key_rank ks (rb_key b) \<noteq> None)"
  have "mset (filter P bs) + mset (filter (\<lambda>b. \<not> P b) bs) = mset bs"
    by (simp add: multiset_partition [symmetric])
  then show ?thesis by (simp add: reorder_blocks_def Some P_def)
qed (simp add: reorder_blocks_def)

lemma key_rank_nil [simp]: "key_rank [] x = None"
  by (simp add: key_rank_def)

lemma key_rank_snoc: "key_rank (ks @ [k]) x = (if x = k then Some (length ks) else key_rank ks x)"
  by (simp add: key_rank_def)

lemma key_rank_none: "key_rank ks x = None \<longleftrightarrow> x \<notin> set ks"
  by (induction ks rule: rev_induct) (auto simp: key_rank_snoc)

lemma key_rank_less: "key_rank ks x = Some i \<Longrightarrow> i < length ks"
  by (induction ks rule: rev_induct) (auto simp: key_rank_snoc split: if_splits)

lemma remdups_ranked: "sorted_wrt (\<lambda>x y. the (key_rank ks x) < the (key_rank ks y)) (remdups ks)"
proof (induction ks rule: rev_induct)
  case (snoc k ks)
  let ?r = "filter (\<lambda>q. q \<noteq> k) (remdups ks)"
  have "sorted_wrt (\<lambda>x y. the (key_rank ks x) < the (key_rank ks y)) ?r"
    using snoc by (rule sorted_wrt_filter)
  then have "sorted_wrt (\<lambda>x y. the (key_rank (ks @ [k]) x) < the (key_rank (ks @ [k]) y)) ?r"
    by (rule sorted_wrt_mono_rel [rotated]) (auto simp: key_rank_snoc)
  moreover have "the (key_rank (ks @ [k]) x) < length ks" if "x \<in> set ?r" for x
  proof -
    from that have "x \<in> set ks" "x \<noteq> k" by auto
    then obtain i where "key_rank ks x = Some i" using key_rank_none by fastforce
    with \<open>x \<noteq> k\<close> key_rank_less show ?thesis by (simp add: key_rank_snoc)
  qed
  ultimately show ?case by (simp add: remdups_snoc sorted_wrt_append key_rank_snoc del: remdups.simps)
qed simp

lemma reorder_keys:
  assumes "distinct (map rb_key bs)"
  shows "map rb_key (reorder_blocks (Some ks) bs) =
    filter (\<lambda>k. k \<in> rb_key ` set bs) (remdups ks) @ filter (\<lambda>k. k \<notin> set ks) (map rb_key bs)"
proof -
  let ?f = "\<lambda>b. the (key_rank ks (rb_key b))"
  let ?L = "sort_key ?f (filter (\<lambda>b. rb_key b \<in> set ks) bs)"
  let ?R = "filter (\<lambda>k. k \<in> rb_key ` set bs) (remdups ks)"
  have inj: "inj_on (\<lambda>k. the (key_rank ks k)) (set ks)"
  proof (rule inj_onI)
    fix x y assume xy: "x \<in> set ks" "y \<in> set ks" "the (key_rank ks x) = the (key_rank ks y)"
    have "distinct (map (\<lambda>k. the (key_rank ks k)) (remdups ks))"
      using remdups_ranked [of ks] strict_sorted_iff sorted_wrt_map by blast
    then have "inj_on (\<lambda>k. the (key_rank ks k)) (set (remdups ks))" by (simp add: distinct_map)
    with xy show "x = y" by (simp add: inj_on_def)
  qed
  have sR: "sorted_wrt (<) (map (\<lambda>k. the (key_rank ks k)) ?R)"
    unfolding sorted_wrt_map by (rule sorted_wrt_filter [OF remdups_ranked])
  have dL: "distinct (map rb_key ?L)"
  proof -
    have "mset ?L = mset (filter (\<lambda>b. rb_key b \<in> set ks) bs)" by simp
    then show ?thesis using distinct_map_filter [OF assms] by (metis mset_eq_imp_distinct_iff mset_map)
  qed
  have "sorted (map (\<lambda>k. the (key_rank ks k)) (map rb_key ?L))" by (simp add: comp_def)
  moreover have "distinct (map (\<lambda>k. the (key_rank ks k)) (map rb_key ?L))"
    unfolding distinct_map [of _ "map rb_key ?L"] using dL inj by (auto intro: inj_on_subset)
  ultimately have sL: "sorted_wrt (<) (map (\<lambda>k. the (key_rank ks k)) (map rb_key ?L))"
    by (simp add: strict_sorted_iff)
  have sets: "set (map rb_key ?L) = set ?R" by auto
  have "map (\<lambda>k. the (key_rank ks k)) (map rb_key ?L) = map (\<lambda>k. the (key_rank ks k)) ?R"
  proof (rule strict_sorted_equal [OF sR sL])
    show "set (map (\<lambda>k. the (key_rank ks k)) (map rb_key ?L)) = set (map (\<lambda>k. the (key_rank ks k)) ?R)"
      using sets by (metis set_map)
  qed
  moreover have "inj_on (\<lambda>k. the (key_rank ks k)) (set (map rb_key ?L) \<union> set ?R)"
    using inj sets by (auto intro: inj_on_subset)
  ultimately have "map rb_key ?L = ?R" by (metis inj_on_map_eq_map)
  moreover have "reorder_blocks (Some ks) bs = ?L @ filter (\<lambda>b. rb_key b \<notin> set ks) bs"
    by (simp add: reorder_blocks_def key_rank_none)
  ultimately show ?thesis by (simp add: filter_map comp_def)
qed

section \<open>The whole context\<close>

text \<open>The sources of overrides in the order in which they are applied.\<close>

definition override_layers ::
  "strategy option \<Rightarrow> (string, override) dict option \<Rightarrow> (string, override) dict option \<Rightarrow> string set \<Rightarrow>
   (phase \<times> (string, override) dict) list" where
  "override_layers strat decorator scoped disabled =
     (case strat of
        Some st \<Rightarrow> (case st_overrides st of
            Some ov \<Rightarrow> [(\<lparr>ph_static_expr = (\<lambda>key. ''strategy.'' @ key), ph_static_keys = st_static_keys st,
              ph_disabled = disabled\<rparr>, ov)]
          | None \<Rightarrow> [])
      | None \<Rightarrow> []) @
     (case decorator of
        Some ov \<Rightarrow> [(\<lparr>ph_static_expr = (\<lambda>key. ''@strategy.context[\"'' @ key @ ''\"]''), ph_static_keys = None,
          ph_disabled = disabled\<rparr>, ov)]
      | None \<Rightarrow> []) @
     (case scoped of
        Some ov \<Rightarrow> [(\<lparr>ph_static_expr = context_expr, ph_static_keys = None, ph_disabled = disabled\<rparr>, ov)]
      | None \<Rightarrow> [])"

definition layer_word ::
  "(string \<Rightarrow> source \<Rightarrow> string option) \<Rightarrow> phase \<times> (string, override) dict \<Rightarrow> string \<Rightarrow> rblock option \<Rightarrow> rblock option" where
  "layer_word resolve l k old = (case dict_get (snd l) k of
     None \<Rightarrow> old | Some v \<Rightarrow> override_at resolve (fst l) k v old)"

interpretation ctx: layering "\<lambda>bs k. block_at k bs" "\<lambda>l bs. apply_overrides resolve (fst l) bs (snd l)"
  "layer_word resolve" "\<lambda>bs. distinct (map rb_key bs)" "\<lambda>l. distinct (map fst (snd l))"
  for resolve :: "string \<Rightarrow> source \<Rightarrow> string option"
  by unfold_locales (simp_all add: apply_overrides_distinct apply_overrides_at layer_word_def)

lemma phases_layers:
  "phase_scoped_blocks resolve scoped D (phase_decorator_context resolve decorator D
     (phase_strategy_overrides resolve strat D bs)) =
   fold (\<lambda>l bs. apply_overrides resolve (fst l) bs (snd l)) (override_layers strat decorator scoped D) bs"
  by (cases strat; cases decorator; cases scoped)
    (auto simp: phase_scoped_blocks_def phase_decorator_context_def phase_strategy_overrides_def
      override_layers_def split: option.split)

lemma fold_None: "(\<And>l. l \<in> set ls \<Longrightarrow> f l None = None) \<Longrightarrow> fold f ls None = None"
  by (induction ls) simp_all

lemma disabled_words:
  assumes "k \<in> D"
  shows "fold (\<lambda>l. layer_word resolve l k) (override_layers strat decorator scoped D) None = None"
proof -
  have "layer_word resolve l k None = None" if "l \<in> set (override_layers strat decorator scoped D)" for l
  proof -
    from that have "ph_disabled (fst l) = D" by (auto simp: override_layers_def split: option.splits)
    with assms show ?thesis by (simp add: layer_word_def override_at_def split: option.split)
  qed
  then show ?thesis by (rule fold_None)
qed

definition unique_overrides :: "strategy option \<Rightarrow> (string, override) dict option \<Rightarrow> (string, override) dict option \<Rightarrow> bool" where
  "unique_overrides strat decorator scoped \<longleftrightarrow>
     list_all (\<lambda>l. distinct (map fst (snd l))) (override_layers strat decorator scoped {})"

lemma unique_overrides_any:
  "unique_overrides strat decorator scoped \<Longrightarrow>
   list_all (\<lambda>l. distinct (map fst (snd l))) (override_layers strat decorator scoped D)"
  by (auto simp: unique_overrides_def override_layers_def split: option.splits)

lemma system_block_at:
  assumes m: "cm_inv m" and ov: "unique_overrides strat decorator scoped"
  shows "distinct (map rb_key (system_blocks resolve fmt m strat decorator scoped)) \<and>
    block_at k (system_blocks resolve fmt m strat decorator scoped) =
      (if k \<in> cm_disabled m then None
       else fold (\<lambda>l. layer_word resolve l k) (override_layers strat decorator scoped (cm_disabled m))
         (map_option (persistent_block resolve fmt m k) (dict_get (cm_blocks m) k)))"
proof -
  let ?b1 = "fst (phase_persistent_blocks resolve fmt m)"
  let ?b4 = "fold (\<lambda>l bs. apply_overrides resolve (fst l) bs (snd l))
    (override_layers strat decorator scoped (cm_disabled m)) ?b1"
  note p = persistent_blocks_at [OF m, where resolve = resolve and fmt = fmt]
  note good = unique_overrides_any [OF ov, of "cm_disabled m"]
  have d4: "distinct (map rb_key ?b4)" by (rule ctx.ok_layers [OF p(1) good])
  have eq: "system_blocks resolve fmt m strat decorator scoped = reorder_blocks (Option.bind strat st_order) ?b4"
    unfolding system_blocks_def Let_def phases_layers ..
  have "distinct (map rb_key (system_blocks resolve fmt m strat decorator scoped))"
    unfolding eq by (rule distinct_keys_perm [OF reorder_mset [symmetric] d4])
  moreover have "block_at k (system_blocks resolve fmt m strat decorator scoped) = block_at k ?b4"
    unfolding eq by (rule block_at_perm [symmetric]) (simp_all add: reorder_mset d4)
  ultimately show ?thesis
    by (simp add: ctx.look_layers [OF p(1) good] p(2) disabled_words)
qed

text \<open>C19: Every key has at most one system block, and it is the persistent block as changed by the strategy,
  then the decorator, then the scope, each of which may replace, remove or add it; a disabled key has none.\<close>

theorem system_block_priority:
  assumes "cm_inv m" and "unique_overrides strat decorator scoped"
  shows "distinct (map rb_key (system_blocks resolve fmt m strat decorator scoped)) \<and>
    block_at k (system_blocks resolve fmt m strat decorator scoped) =
      (if k \<in> cm_disabled m then None
       else fold (\<lambda>l. layer_word resolve l k) (override_layers strat decorator scoped (cm_disabled m))
         (map_option (persistent_block resolve fmt m k) (dict_get (cm_blocks m) k)))"
  by (rule system_block_at [OF assms])

text \<open>With a strategy's order, the listed keys come first in that order and the others after them in
  their own.\<close>

theorem system_block_order:
  assumes "distinct (map rb_key bs)"
  shows "map rb_key (reorder_blocks (Some ks) bs) =
      filter (\<lambda>k. k \<in> rb_key ` set bs) (remdups ks) @ filter (\<lambda>k. k \<notin> set ks) (map rb_key bs) \<and>
    mset (reorder_blocks (Some ks) bs) = mset bs"
  unfolding reorder_keys [OF assms] reorder_mset by simp

section \<open>Turns\<close>





lemma prepare_context_ok:
  "prepare_context resolve fmt hid m es strat decorator scoped = Inr (blocks, m') \<longleftrightarrow>
   (\<exists>bs. phase_events es (system_blocks resolve fmt m strat decorator scoped) = Inr bs \<and>
      blocks = (if hid then filter (\<lambda>b. rb_key b \<noteq> ''events_api'') bs else bs) \<and>
      m' = update_resolved (snd (phase_persistent_blocks resolve fmt m)) m)"
  by (auto simp: prepare_context_def build_context_def py_bind_Inr_iff)

lemma phase_events_prefix: "phase_events es bs = Inr cs \<Longrightarrow> \<exists>ev. cs = bs @ ev"
  by (auto simp: phase_events_def py_bind_Inr_iff)

lemma untouched_word:
  assumes "\<forall>l \<in> set ls. dict_get (snd l) k = None"
  shows "fold (\<lambda>l. layer_word resolve l k) ls old = old"
  using assms by (induction ls arbitrary: old) (simp_all add: layer_word_def)

text \<open>After a prompt is prepared, reading an enabled expression block gives the value its expression
  resolved to, and unless an override speaks of the key, that value is what the prompt shows.\<close>

theorem prompt_agrees_with_reads:
  assumes m: "cm_inv m" and ov: "unique_overrides strat decorator scoped"
    and run: "prepare_context resolve fmt hid m es strat decorator scoped = Inr (blocks, m')"
    and blk: "dict_get (cm_blocks m) k = Some (Dyn e)" and on: "k \<notin> cm_disabled m"
  shows "cm_getitem k m' = Inr (Resolved (resolve k (Src_expr e))) \<and>
    (k \<noteq> ''events_api'' \<longrightarrow>
     (\<forall>l \<in> set (override_layers strat decorator scoped (cm_disabled m)). dict_get (snd l) k = None) \<longrightarrow>
     (\<exists>b \<in> set blocks. rb_key b = k \<and> rb_event b = None \<and>
        rb_content b = (case resolve k (Src_expr e) of Some c \<Rightarrow> c | None \<Rightarrow> ''None'')))"
proof
  have m': "m' = update_resolved (snd (phase_persistent_blocks resolve fmt m)) m"
    using run by (auto simp: prepare_context_ok)
  show "cm_getitem k m' = Inr (Resolved (resolve k (Src_expr e)))"
    using blk on persistent_cache [OF m, of resolve fmt]
    by (simp add: m' cm_getitem_def update_resolved_def dict_get_update)
  show "k \<noteq> ''events_api'' \<longrightarrow>
     (\<forall>l \<in> set (override_layers strat decorator scoped (cm_disabled m)). dict_get (snd l) k = None) \<longrightarrow>
     (\<exists>b \<in> set blocks. rb_key b = k \<and> rb_event b = None \<and>
        rb_content b = (case resolve k (Src_expr e) of Some c \<Rightarrow> c | None \<Rightarrow> ''None''))"
  proof (intro impI)
    assume k: "k \<noteq> ''events_api''"
      and silent: "\<forall>l \<in> set (override_layers strat decorator scoped (cm_disabled m)). dict_get (snd l) k = None"
    let ?b = "persistent_block resolve fmt m k (Dyn e)"
    have "block_at k (system_blocks resolve fmt m strat decorator scoped) = Some ?b"
      using system_block_at [OF m ov] untouched_word [OF silent] blk on by simp
    then have "?b \<in> set (system_blocks resolve fmt m strat decorator scoped)" by (auto dest: block_at_some)
    then have "?b \<in> set blocks" using run k
      by (auto simp: prepare_context_ok dest: phase_events_prefix split: if_splits)
    then show "\<exists>b \<in> set blocks. rb_key b = k \<and> rb_event b = None \<and>
        rb_content b = (case resolve k (Src_expr e) of Some c \<Rightarrow> c | None \<Rightarrow> ''None'')"
      by (intro bexI [of _ ?b]) (simp_all add: persistent_block_def Let_def)
  qed
qed

section \<open>An agent's context\<close>

definition ex_cm :: "nat cm" where
  "ex_cm = fold (cm_step (\<lambda>e. True))
     [Op_static_protected ''system_prompt'' (Val (P_text ''rules'')) None,
      Op_dynamic_protected ''state'' (Some ''show'') None,
      Op_setitem ''notes'' (Set_value (P_text ''n'')),
      Op_setitem ''old'' (Set_value (P_text ''o'')),
      Op_disable [''old'']] cm_init"

definition ex_resolve :: "string \<Rightarrow> source \<Rightarrow> string option" where
  "ex_resolve k src = (case src of Src_text t \<Rightarrow> Some t | Src_expr e \<Rightarrow> Some (''val of '' @ e))"

definition ex_fmt :: "nat plain \<Rightarrow> string" where
  "ex_fmt v = (case v of P_text t \<Rightarrow> t | _ \<Rightarrow> [])"

definition ex_strategy :: strategy where
  "ex_strategy = \<lparr>st_overrides = Some [(''strategy_prompt'', Ov_dyn ''instructions''), (''old'', Ov_text ''x'')],
     st_static_keys = Some {''strategy_prompt''}, st_order = Some [''strategy_prompt'', ''system_prompt'']\<rparr>"

definition ex_scoped :: "(string, override) dict" where
  "ex_scoped = [(''notes'', Ov_none), (''focus'', Ov_context (Ctx_text ''f'' True))]"

definition ex_source :: "imb event_source" where
  "ex_source = \<lparr>es_ops = inmem_ops, es_manager = em_init imb_init, es_queries = [None, None, None, None],
     es_call_id = None, es_text = (\<lambda>e. []), es_compile = (\<lambda>p. Inl ValueError), es_is_empty = (\<lambda>e. False)\<rparr>"

lemma ex_cm_inv: "cm_inv ex_cm"
  unfolding ex_cm_def by (simp add: cm_inv_step cm_inv_init)

lemma ex_unique: "unique_overrides (Some ex_strategy) None (Some ex_scoped)"
  by (simp add: unique_overrides_def override_layers_def ex_strategy_def ex_scoped_def)

lemma ex_system_keys:
  "map (\<lambda>b. (rb_key b, rb_content b)) (system_blocks ex_resolve ex_fmt ex_cm (Some ex_strategy) None (Some ex_scoped)) =
    [(''strategy_prompt'', ''val of instructions''), (''system_prompt'', ''rules''), (''state'', ''val of show''),
     (''focus'', ''f'')]"
  by code_simp

lemma system_block_priority_witness:
  "cm_inv ex_cm \<and> unique_overrides (Some ex_strategy) None (Some ex_scoped) \<and>
   block_at ''notes'' (system_blocks ex_resolve ex_fmt ex_cm (Some ex_strategy) None (Some ex_scoped)) = None \<and>
   map_option rb_content (block_at ''focus''
     (system_blocks ex_resolve ex_fmt ex_cm (Some ex_strategy) None (Some ex_scoped))) = Some ''f''"
proof -
  note at = system_block_priority [OF ex_cm_inv ex_unique, THEN conjunct2, of _ ex_resolve ex_fmt]
  have "(if ''notes'' \<in> cm_disabled ex_cm then None
       else fold (\<lambda>l. layer_word ex_resolve l ''notes'') (override_layers (Some ex_strategy) None (Some ex_scoped) (cm_disabled ex_cm))
         (map_option (persistent_block ex_resolve ex_fmt ex_cm ''notes'') (dict_get (cm_blocks ex_cm) ''notes''))) = None"
    by code_simp
  moreover have "map_option rb_content (if ''focus'' \<in> cm_disabled ex_cm then None
       else fold (\<lambda>l. layer_word ex_resolve l ''focus'') (override_layers (Some ex_strategy) None (Some ex_scoped) (cm_disabled ex_cm))
         (map_option (persistent_block ex_resolve ex_fmt ex_cm ''focus'') (dict_get (cm_blocks ex_cm) ''focus''))) = Some ''f''"
    by code_simp
  ultimately show ?thesis unfolding at by (simp only: ex_cm_inv ex_unique simp_thms)
qed

lemma system_block_order_witness:
  "distinct (map rb_key (fst (phase_persistent_blocks ex_resolve ex_fmt ex_cm))) \<and>
   map rb_key (reorder_blocks (Some [''state'', ''x'', ''state'']) (fst (phase_persistent_blocks ex_resolve ex_fmt ex_cm)))
     = [''state'', ''system_prompt'', ''notes'']"
proof -
  note d = persistent_blocks_at(1) [OF ex_cm_inv, of ex_resolve ex_fmt]
  have keys: "map rb_key (fst (phase_persistent_blocks ex_resolve ex_fmt ex_cm)) = [''system_prompt'', ''state'', ''notes'']"
    by code_simp
  then have "rb_key ` set (fst (phase_persistent_blocks ex_resolve ex_fmt ex_cm)) = {''system_prompt'', ''state'', ''notes''}"
    unfolding set_map [symmetric] by simp
  then have "map rb_key (reorder_blocks (Some [''state'', ''x'', ''state'']) (fst (phase_persistent_blocks ex_resolve ex_fmt ex_cm)))
     = [''state'', ''system_prompt'', ''notes'']"
    unfolding system_block_order [OF d, of "[''state'', ''x'', ''state'']", THEN conjunct1] keys by simp
  with d show ?thesis by (rule conjI)
qed

lemma prompt_agrees_with_reads_witness:
  "\<exists>blocks m'. prepare_context ex_resolve ex_fmt True ex_cm ex_source (Some ex_strategy) None (Some ex_scoped) = Inr (blocks, m') \<and>
     cm_inv ex_cm \<and> unique_overrides (Some ex_strategy) None (Some ex_scoped) \<and>
     dict_get (cm_blocks ex_cm) ''state'' = Some (Dyn ''show'') \<and> ''state'' \<notin> cm_disabled ex_cm \<and>
     cm_getitem ''state'' m' = Inr (Resolved (Some ''val of show''))"
proof -
  have events: "phase_events ex_source bs = Inr bs" for bs
    by (simp add: phase_events_def ex_source_def active_query_def List.map_filter_def em_values_def em_keys_def
        em_init_def imb_init_def inmem_ops_def)
  then obtain blocks m' where run:
    "prepare_context ex_resolve ex_fmt True ex_cm ex_source (Some ex_strategy) None (Some ex_scoped) = Inr (blocks, m')"
    by (simp add: prepare_context_def build_context_def)
  have blk: "dict_get (cm_blocks ex_cm) ''state'' = Some (Dyn ''show'')" by code_simp
  have on: "''state'' \<notin> cm_disabled ex_cm" by code_simp
  from prompt_agrees_with_reads [OF ex_cm_inv ex_unique run blk on] run blk on ex_cm_inv ex_unique
  show ?thesis by (auto simp: ex_resolve_def)
qed

end
