(* ===== verification/Channels.thy ===== *)
theory Channels
  imports Py_Prelude
begin

text \<open>
  Channels for agent input: the class \<^verbatim>\<open>Channel\<close> of \<^verbatim>\<open>src/nooa/runtime/channels.py\<close>.

  The state holds all channels, the futures their consumers wait on, the consumers (asyncio tasks
  that run \<^verbatim>\<open>_drain_one\<close> or \<^verbatim>\<open>get\<close>), the callbacks passed to \<^verbatim>\<open>call_soon_threadsafe\<close> that have not run,
  and the history of what went in and out. Channels, futures and tasks are named by their position.
  Of asyncio the model uses this: a task runs alone until it awaits; a task parked on a future can run
  again once the future is done; cancelling a parked task cancels a pending future, and else the next
  run of the task raises \<^verbatim>\<open>CancelledError\<close>; a task cancelled before its first run never enters its
  body. The order in which runnable tasks and callbacks run is left open.

  \<open>r\<close> is the event loop of the calling thread, \<open>None\<close> in a thread without one. Items are compared by
  identity; the values of the model are the identities.
\<close>

section \<open>The state\<close>

datatype fut_state = Pending | Ready | Cancelled

record fut =
  fu_loop :: nat
  fu_state :: fut_state

datatype mode = Queue_mode | Event_mode

record 'a chan =
  ch_name :: string
  ch_mode :: mode
  ch_has_events :: bool
  ch_items :: "'a list"
  ch_waiters :: "nat list"

datatype 'a pc = Fresh | Testing | Parked nat | Finished 'a | Aborted | Spent

text \<open>A consumer that is \<open>Testing\<close> has found the channel empty and has not queued its waiter yet.\<close>

text \<open>A consumer: a call of \<^verbatim>\<open>get\<close>, or a drain of \<^verbatim>\<open>race\<close>, which leaves the hook to its caller.\<close>

record 'a task =
  tk_chan :: nat
  tk_loop :: nat
  tk_fires :: bool
  tk_cancel :: bool
  tk_pc :: "'a pc"

text \<open>The history: items put, given to a consumer, dropped, taken back by the caller; events recorded by
  an event channel; calls of the \<^verbatim>\<open>on_put\<close> hook.\<close>

datatype 'a entry =
    Put nat 'a | Consumed nat 'a | Discarded nat "'a list" | Withdrawn nat 'a
  | Recorded nat 'a | Notified nat

record 'a net =
  n_chans :: "'a chan list"
  n_futs :: "fut list"
  n_soon :: "nat list"
  n_closed :: "nat set"
  n_tasks :: "'a task list"
  n_notes :: "'a entry list"

definition chan_at :: "nat \<Rightarrow> 'a net \<Rightarrow> 'a chan" where
  "chan_at c w = n_chans w ! c"

definition set_chan :: "nat \<Rightarrow> 'a chan \<Rightarrow> 'a net \<Rightarrow> 'a net" where
  "set_chan c ch w = w\<lparr>n_chans := (n_chans w)[c := ch]\<rparr>"

definition set_items :: "nat \<Rightarrow> 'a list \<Rightarrow> 'a net \<Rightarrow> 'a net" where
  "set_items c xs w = set_chan c ((chan_at c w)\<lparr>ch_items := xs\<rparr>) w"

definition set_waiters :: "nat \<Rightarrow> nat list \<Rightarrow> 'a net \<Rightarrow> 'a net" where
  "set_waiters c fs w = set_chan c ((chan_at c w)\<lparr>ch_waiters := fs\<rparr>) w"

definition set_fut :: "nat \<Rightarrow> fut_state \<Rightarrow> fut list \<Rightarrow> fut list" where
  "set_fut f st futs = futs[f := (futs ! f)\<lparr>fu_state := st\<rparr>]"

definition set_pc :: "nat \<Rightarrow> 'a pc \<Rightarrow> 'a net \<Rightarrow> 'a net" where
  "set_pc t p w = w\<lparr>n_tasks := (n_tasks w)[t := (n_tasks w ! t)\<lparr>tk_pc := p\<rparr>]\<rparr>"

definition record_note :: "'a entry \<Rightarrow> 'a net \<Rightarrow> 'a net" where
  "record_note n w = w\<lparr>n_notes := n_notes w @ [n]\<rparr>"

definition items_of :: "nat \<Rightarrow> 'a net \<Rightarrow> 'a list" where
  "items_of c w = ch_items (chan_at c w)"

definition waiters_of :: "nat \<Rightarrow> 'a net \<Rightarrow> nat list" where
  "waiters_of c w = ch_waiters (chan_at c w)"

section \<open>Producers\<close>

text \<open>The channel is constructed with one of the two modes; an unknown one is rejected.\<close>

definition chan_init :: "string \<Rightarrow> string \<Rightarrow> bool \<Rightarrow> 'a chan py_res" where
  "chan_init name m has_events =
     (if m = ''queue'' \<or> m = ''event'' then
        Inr \<lparr>ch_name = name, ch_mode = (if m = ''queue'' then Queue_mode else Event_mode),
             ch_has_events = has_events, ch_items = [], ch_waiters = []\<rparr>
      else Inl ValueError)"

text \<open>Waiters are popped until one is live: woken at once on the caller's own loop, through a callback on
  another loop, skipped when that loop is closed.\<close>

fun wake_from :: "nat option \<Rightarrow> nat set \<Rightarrow> fut list \<Rightarrow> nat list \<Rightarrow> nat list \<times> fut list \<times> nat list" where
  "wake_from r closed futs [] = ([], futs, [])"
| "wake_from r closed futs (f # fs) =
     (if fu_state (futs ! f) \<noteq> Pending then wake_from r closed futs fs
      else if r = Some (fu_loop (futs ! f)) then (fs, set_fut f Ready futs, [])
      else if fu_loop (futs ! f) \<in> closed then wake_from r closed futs fs
      else (fs, futs, [f]))"

definition wake_next_waiter :: "nat option \<Rightarrow> nat \<Rightarrow> 'a net \<Rightarrow> 'a net" where
  "wake_next_waiter r c w =
     (case wake_from r (n_closed w) (n_futs w) (waiters_of c w) of
        (fs, futs, soon) \<Rightarrow> (set_waiters c fs w)\<lparr>n_futs := futs, n_soon := n_soon w @ soon\<rparr>)"

definition put :: "nat option \<Rightarrow> nat \<Rightarrow> 'a \<Rightarrow> 'a net \<Rightarrow> 'a net py_res" where
  "put r c x w =
     (case ch_mode (chan_at c w) of
        Event_mode \<Rightarrow>
          if ch_has_events (chan_at c w) then Inr (record_note (Notified c) (record_note (Recorded c x) w))
          else Inl RuntimeError
      | Queue_mode \<Rightarrow>
          Inr (record_note (Notified c) (wake_next_waiter r c
            (record_note (Put c x) (set_items c (items_of c w @ [x]) w)))))"

definition restore_front :: "nat option \<Rightarrow> nat \<Rightarrow> 'a \<Rightarrow> 'a net \<Rightarrow> 'a net" where
  "restore_front r c x w =
     record_note (Notified c) (wake_next_waiter r c (set_items c (x # items_of c w) w))"

text \<open>The callback on the waiter's own loop.\<close>

definition safe_wake :: "nat \<Rightarrow> fut list \<Rightarrow> fut list" where
  "safe_wake f futs = (if fu_state (futs ! f) = Pending then set_fut f Ready futs else futs)"

definition run_soon :: "nat \<Rightarrow> 'a net \<Rightarrow> 'a net" where
  "run_soon i w = w\<lparr>n_futs := safe_wake (n_soon w ! i) (n_futs w),
     n_soon := take i (n_soon w) @ drop (Suc i) (n_soon w)\<rparr>"

section \<open>Consumers\<close>

text \<open>\<^verbatim>\<open>_fire_on_get\<close> never raises, whatever the hook or a subscriber does.\<close>

definition fire_on_get :: "nat \<Rightarrow> 'a \<Rightarrow> 'a net \<Rightarrow> 'a net" where
  "fire_on_get c x w = record_note (Consumed c x) w"

text \<open>A call of \<^verbatim>\<open>get\<close> or \<^verbatim>\<open>_drain_one\<close> on loop \<open>l\<close>.\<close>

definition start_drain :: "nat \<Rightarrow> nat \<Rightarrow> bool \<Rightarrow> 'a net \<Rightarrow> 'a net py_res" where
  "start_drain c l fires w =
     (if ch_mode (chan_at c w) = Queue_mode then
        Inr (w\<lparr>n_tasks := n_tasks w @ [\<lparr>tk_chan = c, tk_loop = l, tk_fires = fires, tk_cancel = False,
                                        tk_pc = Fresh\<rparr>]\<rparr>)
      else Inl NotImplementedError)"

text \<open>One turn of the loop of \<^verbatim>\<open>_drain_one\<close>: take the head, or park behind a new future.\<close>

definition take_head :: "nat \<Rightarrow> 'a net \<Rightarrow> 'a net" where
  "take_head t w =
     (let c = tk_chan (n_tasks w ! t); x = hd (items_of c w);
          w' = set_pc t (Finished x) (set_items c (tl (items_of c w)) w)
      in if tk_fires (n_tasks w ! t) then fire_on_get c x w' else w')"

definition park :: "nat \<Rightarrow> 'a net \<Rightarrow> 'a net" where
  "park t w =
     (let c = tk_chan (n_tasks w ! t); f = length (n_futs w)
      in set_pc t (Parked f) (set_waiters c (waiters_of c w @ [f])
           (w\<lparr>n_futs := n_futs w @ [\<lparr>fu_loop = tk_loop (n_tasks w ! t), fu_state = Pending\<rparr>]\<rparr>)))"

definition drain_turn :: "nat \<Rightarrow> 'a net \<Rightarrow> 'a net" where
  "drain_turn t w = (if items_of (tk_chan (n_tasks w ! t)) w \<noteq> [] then take_head t w else park t w)"

text \<open>
  The test for an item and the queueing of the waiter are two instructions: a thread other than the
  consumer's can act between them. \<open>find_empty\<close> is a turn up to the failed test; \<open>run_task\<close> goes on from there.
\<close>

definition starts_turn :: "nat \<Rightarrow> 'a net \<Rightarrow> bool" where
  "starts_turn t w =
     (case tk_pc (n_tasks w ! t) of
        Fresh \<Rightarrow> \<not> tk_cancel (n_tasks w ! t)
      | Parked f \<Rightarrow> fu_state (n_futs w ! f) = Ready \<and> \<not> tk_cancel (n_tasks w ! t)
      | _ \<Rightarrow> False)"

definition find_empty :: "nat \<Rightarrow> 'a net \<Rightarrow> 'a net" where
  "find_empty t w = set_pc t Testing w"

text \<open>The handler of a cancellation while waiting.\<close>

definition abort_wait :: "nat \<Rightarrow> nat \<Rightarrow> 'a net \<Rightarrow> 'a net" where
  "abort_wait t f w =
     (let c = tk_chan (n_tasks w ! t);
          w1 = set_waiters c (remove1 f (waiters_of c w)) w;
          w2 = (if items_of c w1 \<noteq> [] then wake_next_waiter (Some (tk_loop (n_tasks w ! t))) c w1 else w1)
      in set_pc t Aborted w2)"

definition runnable :: "nat \<Rightarrow> 'a net \<Rightarrow> bool" where
  "runnable t w \<longleftrightarrow> tk_loop (n_tasks w ! t) \<notin> n_closed w \<and>
     (case tk_pc (n_tasks w ! t) of
        Fresh \<Rightarrow> True
      | Testing \<Rightarrow> True
      | Parked f \<Rightarrow> fu_state (n_futs w ! f) \<noteq> Pending
      | _ \<Rightarrow> False)"

definition run_task :: "nat \<Rightarrow> 'a net \<Rightarrow> 'a net" where
  "run_task t w =
     (case tk_pc (n_tasks w ! t) of
        Fresh \<Rightarrow> if tk_cancel (n_tasks w ! t) then set_pc t Aborted w else drain_turn t w
      | Testing \<Rightarrow> park t w
      | Parked f \<Rightarrow>
          if fu_state (n_futs w ! f) = Cancelled \<or> tk_cancel (n_tasks w ! t) then abort_wait t f w
          else drain_turn t w
      | _ \<Rightarrow> w)"

text \<open>Cancellation by the owner of the task or by a timeout.\<close>

definition cancel_task :: "nat \<Rightarrow> 'a net \<Rightarrow> 'a net" where
  "cancel_task t w =
     (let flag = w\<lparr>n_tasks := (n_tasks w)[t := (n_tasks w ! t)\<lparr>tk_cancel := True\<rparr>]\<rparr> in
      case tk_pc (n_tasks w ! t) of
        Fresh \<Rightarrow> flag
      | Parked f \<Rightarrow>
          if fu_state (n_futs w ! f) = Pending then w\<lparr>n_futs := set_fut f Cancelled (n_futs w)\<rparr> else flag
      | _ \<Rightarrow> w)"

section \<open>Operations that do not wait\<close>

definition drain :: "nat \<Rightarrow> 'a net \<Rightarrow> 'a list \<times> 'a net" where
  "drain c w =
     (if ch_mode (chan_at c w) = Queue_mode then
        (items_of c w, set_items c [] (fold (fire_on_get c) (items_of c w) w))
      else ([], w))"

definition qsize :: "nat \<Rightarrow> 'a net \<Rightarrow> nat" where
  "qsize c w = length (items_of c w)"

definition has_waiters :: "nat \<Rightarrow> 'a net \<Rightarrow> bool" where
  "has_waiters c w = list_ex (\<lambda>f. fu_state (n_futs w ! f) = Pending) (waiters_of c w)"

definition pop_last :: "nat \<Rightarrow> 'a net \<Rightarrow> 'a option \<times> 'a net" where
  "pop_last c w =
     (if items_of c w = [] then (None, w)
      else (Some (last (items_of c w)),
            record_note (Withdrawn c (last (items_of c w))) (set_items c (butlast (items_of c w)) w)))"

definition remove_item :: "nat \<Rightarrow> 'a \<Rightarrow> 'a net \<Rightarrow> bool \<times> 'a net" where
  "remove_item c x w =
     (if x \<in> set (items_of c w) then
        (True, record_note (Withdrawn c x) (set_items c (remove1 x (items_of c w)) w))
      else (False, w))"

definition fire_on_discard :: "nat \<Rightarrow> 'a list \<Rightarrow> 'a net \<Rightarrow> 'a net" where
  "fire_on_discard c xs w = (if xs = [] then w else record_note (Discarded c xs) w)"

definition clear :: "nat \<Rightarrow> 'a net \<Rightarrow> 'a net" where
  "clear c w = fire_on_discard c (items_of c w) (set_items c [] w)"

definition cancel_waiter :: "nat \<Rightarrow> fut list \<Rightarrow> fut list" where
  "cancel_waiter f futs = (if fu_state (futs ! f) = Pending then set_fut f Cancelled futs else futs)"

definition flush :: "nat \<Rightarrow> 'a net \<Rightarrow> nat \<times> 'a net" where
  "flush c w =
     (let dropped = items_of c w;
          w1 = set_items c [] w;
          w2 = (set_waiters c [] w1)\<lparr>n_futs := fold cancel_waiter (waiters_of c w1) (n_futs w1)\<rparr>
      in (length dropped, fire_on_discard c dropped w2))"

end
