(* ===== verification/Channel_Runs.thy ===== *)
theory Channel_Runs
  imports Channels "HOL-Library.Multiset"
begin

text \<open>
  What the channels of \<^verbatim>\<open>src/nooa/runtime/channels.py\<close> guarantee under every interleaving of producers,
  consumers, cancellations and flushes: the actions of the theory \<open>Channels\<close> as the steps of a run, the
  invariants of those steps, and the properties they give.
\<close>

section \<open>Runs\<close>

text \<open>
  What producers, consumers and the event loops do. A loop is closed only when none of its tasks has
  a wake-up outstanding. \<open>A_run\<close> is a turn that nothing interrupts; \<open>A_test\<close> begins one that finds the channel
  empty, any actions may follow, and \<open>A_run\<close> ends it. (A consumer is not cancelled in the middle of a turn: its
  loop is busy, and other threads may not cancel a task.) \<open>A_give_back\<close> and \<open>A_deliver\<close> are what \<^verbatim>\<open>race\<close> does with a drained item.
\<close>

datatype 'a act =
    A_new string string bool
  | A_put "nat option" nat 'a
  | A_soon nat
  | A_start nat nat bool
  | A_run nat
  | A_test nat
  | A_cancel nat
  | A_drain nat
  | A_pop_last nat
  | A_remove nat 'a
  | A_clear nat
  | A_flush nat
  | A_give_back nat
  | A_deliver nat
  | A_close nat

definition give_back :: "nat \<Rightarrow> 'a net \<Rightarrow> 'a net" where
  "give_back t w =
     (case tk_pc (n_tasks w ! t) of
        Finished x \<Rightarrow>
          restore_front (Some (tk_loop (n_tasks w ! t))) (tk_chan (n_tasks w ! t)) x (set_pc t Spent w)
      | _ \<Rightarrow> w)"

definition deliver :: "nat \<Rightarrow> 'a net \<Rightarrow> 'a net" where
  "deliver t w =
     (case tk_pc (n_tasks w ! t) of
        Finished x \<Rightarrow> fire_on_get (tk_chan (n_tasks w ! t)) x (set_pc t Spent w)
      | _ \<Rightarrow> w)"

definition keep :: "'s \<Rightarrow> 's py_res \<Rightarrow> 's" where
  "keep w r = (case r of Inl _ \<Rightarrow> w | Inr w' \<Rightarrow> w')"

definition net_step :: "'a act \<Rightarrow> 'a net \<Rightarrow> 'a net" where
  "net_step a w = (case a of
     A_new name m e \<Rightarrow> (case chan_init name m e of Inl _ \<Rightarrow> w | Inr ch \<Rightarrow> w\<lparr>n_chans := n_chans w @ [ch]\<rparr>)
   | A_put r c x \<Rightarrow> keep w (put r c x w)
   | A_soon i \<Rightarrow> run_soon i w
   | A_start c l fires \<Rightarrow> keep w (start_drain c l fires w)
   | A_run t \<Rightarrow> run_task t w
   | A_test t \<Rightarrow> find_empty t w
   | A_cancel t \<Rightarrow> cancel_task t w
   | A_drain c \<Rightarrow> snd (drain c w)
   | A_pop_last c \<Rightarrow> snd (pop_last c w)
   | A_remove c x \<Rightarrow> snd (remove_item c x w)
   | A_clear c \<Rightarrow> clear c w
   | A_flush c \<Rightarrow> snd (flush c w)
   | A_give_back t \<Rightarrow> give_back t w
   | A_deliver t \<Rightarrow> deliver t w
   | A_close l \<Rightarrow> w\<lparr>n_closed := insert l (n_closed w)\<rparr>)"

definition parked :: "nat \<Rightarrow> nat \<Rightarrow> 'a net \<Rightarrow> bool" where
  "parked t f w \<longleftrightarrow> t < length (n_tasks w) \<and> tk_pc (n_tasks w ! t) = Parked f"

abbreviation chan_of :: "nat \<Rightarrow> 'a net \<Rightarrow> nat" where
  "chan_of t w \<equiv> tk_chan (n_tasks w ! t)"

abbreviation loop_of :: "nat \<Rightarrow> 'a net \<Rightarrow> nat" where
  "loop_of t w \<equiv> tk_loop (n_tasks w ! t)"

abbreviation n_chan :: "'a net \<Rightarrow> nat" where
  "n_chan w \<equiv> length (n_chans w)"

text \<open>A task is in flight when it is parked but no longer among the waiters, its wake-up is on the way, or in the
  middle of a turn.\<close>

definition in_flight :: "nat \<Rightarrow> 'a net \<Rightarrow> bool" where
  "in_flight t w = (case tk_pc (n_tasks w ! t) of
     Testing \<Rightarrow> True | Parked f \<Rightarrow> f \<notin> set (waiters_of (chan_of t w) w) | _ \<Rightarrow> False)"

definition open_loop :: "nat option \<Rightarrow> 'a net \<Rightarrow> bool" where
  "open_loop r w = (case r of None \<Rightarrow> True | Some l \<Rightarrow> l \<notin> n_closed w)"

definition enabled :: "'a act \<Rightarrow> 'a net \<Rightarrow> bool" where
  "enabled a w = (case a of
     A_new name m e \<Rightarrow> True
   | A_put r c x \<Rightarrow> c < n_chan w \<and> open_loop r w
   | A_soon i \<Rightarrow> i < length (n_soon w)
   | A_start c l fires \<Rightarrow> c < n_chan w \<and> l \<notin> n_closed w
   | A_run t \<Rightarrow> t < length (n_tasks w) \<and> runnable t w
   | A_test t \<Rightarrow> t < length (n_tasks w) \<and> runnable t w \<and> starts_turn t w \<and> items_of (chan_of t w) w = []
   | A_cancel t \<Rightarrow> t < length (n_tasks w) \<and> tk_pc (n_tasks w ! t) \<noteq> Testing
   | A_drain c \<Rightarrow> c < n_chan w
   | A_pop_last c \<Rightarrow> c < n_chan w
   | A_remove c x \<Rightarrow> c < n_chan w
   | A_clear c \<Rightarrow> c < n_chan w
   | A_flush c \<Rightarrow> c < n_chan w
   | A_give_back t \<Rightarrow> t < length (n_tasks w) \<and> \<not> tk_fires (n_tasks w ! t) \<and> loop_of t w \<notin> n_closed w
   | A_deliver t \<Rightarrow> t < length (n_tasks w) \<and> \<not> tk_fires (n_tasks w ! t)
   | A_close l \<Rightarrow> list_all (\<lambda>t. loop_of t w = l \<longrightarrow> \<not> in_flight t w) [0..<length (n_tasks w)])"

definition net_init :: "'a net" where
  "net_init = \<lparr>n_chans = [], n_futs = [], n_soon = [], n_closed = {}, n_tasks = [], n_notes = []\<rparr>"

section \<open>The invariant\<close>

lemma nth_upd: "xs[i := v] ! j = (if i = j \<and> j < length xs then v else xs ! j)"
  by (cases "i < length xs") (auto simp: nth_list_update not_less list_update_beyond)

lemma access_set [simp]:
  "n_futs (set_items c xs w) = n_futs w" "n_futs (set_waiters c fs w) = n_futs w" "n_futs (set_pc t p w) = n_futs w"
  "n_soon (set_items c xs w) = n_soon w" "n_soon (set_waiters c fs w) = n_soon w" "n_soon (set_pc t p w) = n_soon w"
  "n_closed (set_items c xs w) = n_closed w" "n_closed (set_waiters c fs w) = n_closed w" "n_closed (set_pc t p w) = n_closed w"
  "n_tasks (set_items c xs w) = n_tasks w" "n_tasks (set_waiters c fs w) = n_tasks w"
  "n_chan (set_items c xs w) = n_chan w" "n_chan (set_waiters c fs w) = n_chan w" "n_chans (set_pc t p w) = n_chans w"
  "n_notes (set_items c xs w) = n_notes w" "n_notes (set_waiters c fs w) = n_notes w" "n_notes (set_pc t p w) = n_notes w"
  "length (n_tasks (set_pc t p w)) = length (n_tasks w)"
  by (simp_all add: set_items_def set_waiters_def set_pc_def set_chan_def)

lemma access_record [simp]:
  "n_futs (record_note n w) = n_futs w" "n_soon (record_note n w) = n_soon w" "n_closed (record_note n w) = n_closed w"
  "n_tasks (record_note n w) = n_tasks w" "n_chans (record_note n w) = n_chans w"
  "n_notes (record_note n w) = n_notes w @ [n]"
  "items_of c (record_note n w) = items_of c w" "waiters_of c (record_note n w) = waiters_of c w"
  by (simp_all add: record_note_def items_of_def waiters_of_def chan_at_def)

lemma access_chan [simp]:
  "items_of c (set_items c' xs w) = (if c = c' \<and> c < n_chan w then xs else items_of c w)"
  "waiters_of c (set_items c' xs w) = waiters_of c w"
  "items_of c (set_waiters c' fs w) = items_of c w"
  "waiters_of c (set_waiters c' fs w) = (if c = c' \<and> c < n_chan w then fs else waiters_of c w)"
  "items_of c (set_pc t p w) = items_of c w" "waiters_of c (set_pc t p w) = waiters_of c w"
  "items_of c (w\<lparr>n_futs := fu\<rparr>) = items_of c w" "waiters_of c (w\<lparr>n_futs := fu\<rparr>) = waiters_of c w"
  "items_of c (w\<lparr>n_soon := so\<rparr>) = items_of c w" "waiters_of c (w\<lparr>n_soon := so\<rparr>) = waiters_of c w"
  "items_of c (w\<lparr>n_tasks := ta\<rparr>) = items_of c w" "waiters_of c (w\<lparr>n_tasks := ta\<rparr>) = waiters_of c w"
  "items_of c (w\<lparr>n_closed := cl\<rparr>) = items_of c w" "waiters_of c (w\<lparr>n_closed := cl\<rparr>) = waiters_of c w"
  by (auto simp: items_of_def waiters_of_def chan_at_def set_items_def set_waiters_def set_chan_def set_pc_def nth_upd)

lemma chan_at_set [simp]: 
  "ch_mode (chan_at c (set_items c' xs w)) = ch_mode (chan_at c w)"
  "ch_mode (chan_at c (set_waiters c' fs w)) = ch_mode (chan_at c w)"
  by (auto simp: chan_at_def set_items_def set_waiters_def set_chan_def nth_upd)

lemma set_pc_nth [simp]:
  "t' < length (n_tasks w) \<Longrightarrow> n_tasks (set_pc t p w) ! t' = (if t' = t then (n_tasks w ! t)\<lparr>tk_pc := p\<rparr> else n_tasks w ! t')"
  by (simp add: set_pc_def nth_list_update)

lemma set_fut_simps [simp]: "length (set_fut f st futs) = length futs"
  "fu_loop (set_fut f st futs ! g) = fu_loop (futs ! g)"
  "f < length futs \<Longrightarrow> fu_state (set_fut f st futs ! g) = (if g = f then st else fu_state (futs ! g))"
  by (auto simp: set_fut_def nth_upd)

definition net_ok :: "'a net \<Rightarrow> bool" where
  "net_ok w \<longleftrightarrow>
     (\<forall>c < n_chan w. distinct (waiters_of c w) \<and>
        (\<forall>f \<in> set (waiters_of c w). fu_state (n_futs w ! f) \<noteq> Ready \<and> f \<notin> set (n_soon w) \<and>
           (\<exists>t. parked t f w \<and> chan_of t w = c))) \<and>
     (\<forall>t f. parked t f w \<longrightarrow> f < length (n_futs w) \<and> fu_loop (n_futs w ! f) = loop_of t w \<and>
        (f \<in> set (waiters_of (chan_of t w) w) \<or> fu_state (n_futs w ! f) \<noteq> Pending \<or> f \<in> set (n_soon w)
           \<or> loop_of t w \<in> n_closed w)) \<and>
     (\<forall>t t' f. parked t f w \<longrightarrow> parked t' f w \<longrightarrow> t = t') \<and>
     (\<forall>t < length (n_tasks w). chan_of t w < n_chan w) \<and>
     (\<forall>f \<in> set (n_soon w). f < length (n_futs w))"

text \<open>The tasks of channel \<open>c\<close> that are in flight on an open loop.\<close>

definition flying :: "nat \<Rightarrow> 'a net \<Rightarrow> nat set" where
  "flying c w = {t. (\<exists>f. parked t f w \<and> f \<notin> set (waiters_of c w)) \<and> chan_of t w = c \<and> loop_of t w \<notin> n_closed w}"

text \<open>While a live waiter queues, there are at most \<open>k\<close> more items than wake-ups on the way.\<close>

definition live_waiter :: "nat \<Rightarrow> 'a net \<Rightarrow> bool" where
  "live_waiter c w \<longleftrightarrow> (\<exists>f \<in> set (waiters_of c w). fu_state (n_futs w ! f) = Pending \<and> fu_loop (n_futs w ! f) \<notin> n_closed w)"

definition served :: "nat \<Rightarrow> nat \<Rightarrow> 'a net \<Rightarrow> bool" where
  "served c k w \<longleftrightarrow> (live_waiter c w \<longrightarrow> length (items_of c w) \<le> card (flying c w) + k)"

lemma finite_flying [simp]: "finite (flying c w)"
  by (rule finite_subset [of _ "{..<length (n_tasks w)}"]) (auto simp: flying_def parked_def)

lemma net_ok_cong:
  assumes "\<And>t f. parked t f w' = parked t f w" "\<And>t. chan_of t w' = chan_of t w" "\<And>t. loop_of t w' = loop_of t w"
    and "\<And>c. waiters_of c w' = waiters_of c w" "n_futs w' = n_futs w" "n_soon w' = n_soon w" "n_closed w' = n_closed w"
    and "n_chan w' = n_chan w" "length (n_tasks w') = length (n_tasks w)"
  shows "net_ok w' = net_ok w" "flying c w' = flying c w" "live_waiter c w' = live_waiter c w"
  using assms by (simp_all add: net_ok_def flying_def live_waiter_def)

lemma parked_set [simp]:
  "parked t f (set_items c xs w) = parked t f w" "parked t f (set_waiters c fs w) = parked t f w"
  "parked t f (record_note n w) = parked t f w"
  "parked t f (w\<lparr>n_futs := fu\<rparr>) = parked t f w" "parked t f (w\<lparr>n_soon := so\<rparr>) = parked t f w"
  "parked t f (w\<lparr>n_closed := cl\<rparr>) = parked t f w"
  by (simp_all add: parked_def)

lemma net_ok_items [simp]: "net_ok (set_items c xs w) = net_ok w" "flying d (set_items c xs w) = flying d w"
    "live_waiter d (set_items c xs w) = live_waiter d w"
  by (rule net_ok_cong; simp)+

lemma net_ok_record [simp]: "net_ok (record_note n w) = net_ok w" "flying d (record_note n w) = flying d w"
    "live_waiter d (record_note n w) = live_waiter d w"
  by (rule net_ok_cong; simp)+

lemma served_record [simp]: "served c k (record_note n w) = served c k w"
  by (simp add: served_def)

text \<open>Waking: either one live waiter is popped, or none is left.\<close>

lemma wake_from_cases:
  assumes "wake_from r cl futs fs = (fs', futs', soon)" and "\<And>l. r = Some l \<Longrightarrow> l \<notin> cl"
  shows "(fs' = [] \<and> futs' = futs \<and> soon = [] \<and>
            (\<forall>f \<in> set fs. fu_state (futs ! f) \<noteq> Pending \<or> fu_loop (futs ! f) \<in> cl)) \<or>
         (\<exists>pre f. fs = pre @ f # fs' \<and> fu_state (futs ! f) = Pending \<and> fu_loop (futs ! f) \<notin> cl \<and>
            (futs' = set_fut f Ready futs \<and> soon = [] \<or> futs' = futs \<and> soon = [f]) \<and>
            (\<forall>g \<in> set pre. fu_state (futs ! g) \<noteq> Pending \<or> fu_loop (futs ! g) \<in> cl))"
  using assms(1)
proof (induction fs)
  case (Cons f fs)
  show ?case
  proof (cases "fu_state (futs ! f) \<noteq> Pending \<or> (r \<noteq> Some (fu_loop (futs ! f)) \<and> fu_loop (futs ! f) \<in> cl)")
    case True
    then have "wake_from r cl futs fs = (fs', futs', soon)" using Cons.prems by (auto split: if_splits)
    from Cons.IH [OF this] show ?thesis
    proof (elim disjE exE conjE)
      assume "fs' = []" "futs' = futs" "soon = []" "\<forall>f \<in> set fs. fu_state (futs ! f) \<noteq> Pending \<or> fu_loop (futs ! f) \<in> cl"
      then show ?thesis using True by simp
    next
      fix pre g
      assume "fs = pre @ g # fs'" "fu_state (futs ! g) = Pending" "fu_loop (futs ! g) \<notin> cl"
        "\<forall>g \<in> set pre. fu_state (futs ! g) \<noteq> Pending \<or> fu_loop (futs ! g) \<in> cl"
        "futs' = set_fut g Ready futs" "soon = []"
      then show ?thesis using True by (intro disjI2 exI [of _ "f # pre"] exI [of _ g]) simp
    next
      fix pre g
      assume "fs = pre @ g # fs'" "fu_state (futs ! g) = Pending" "fu_loop (futs ! g) \<notin> cl"
        "\<forall>g \<in> set pre. fu_state (futs ! g) \<noteq> Pending \<or> fu_loop (futs ! g) \<in> cl"
        "futs' = futs" "soon = [g]"
      then show ?thesis using True by (intro disjI2 exI [of _ "f # pre"] exI [of _ g]) simp
    qed
  next
    case False
    then show ?thesis using Cons.prems assms(2) by (intro disjI2 exI [of _ "[]"] exI [of _ f]) (auto split: if_splits)
  qed
qed simp

lemma net_ok_waiter:
  assumes "net_ok w" "c < n_chan w" "f \<in> set (waiters_of c w)"
  obtains t where "parked t f w" "chan_of t w = c" "fu_state (n_futs w ! f) \<noteq> Ready" "f \<notin> set (n_soon w)"
    "f < length (n_futs w)" "fu_loop (n_futs w ! f) = loop_of t w"
  using assms unfolding net_ok_def by metis

lemma net_ok_parked:
  assumes "net_ok w" "parked t f w"
  shows "f < length (n_futs w)" "fu_loop (n_futs w ! f) = loop_of t w"
    "f \<in> set (waiters_of (chan_of t w) w) \<or> fu_state (n_futs w ! f) \<noteq> Pending \<or> f \<in> set (n_soon w)
       \<or> loop_of t w \<in> n_closed w"
    "parked t' f w \<Longrightarrow> t' = t" "chan_of t w < n_chan w"
  using assms unfolding net_ok_def by (blast, blast, blast, blast, simp add: parked_def)

lemma net_ok_distinct: "net_ok w \<Longrightarrow> c < n_chan w \<Longrightarrow> distinct (waiters_of c w)"
  unfolding net_ok_def by blast

lemma net_ok_other:
  assumes "net_ok w" "c < n_chan w" "d < n_chan w" "c \<noteq> d" "f \<in> set (waiters_of c w)"
  shows "f \<notin> set (waiters_of d w)"
  using assms unfolding net_ok_def by metis

text \<open>Waiters leave the queue of a channel; each that leaves is woken, about to be, or dead.\<close>

lemma net_ok_pop:
  assumes ok: "net_ok w" and c: "c < n_chan w" and ws: "set (waiters_of c w) = set pre \<union> set rest" "set pre \<inter> set rest = {}" "distinct rest"
    and len: "length futs = length (n_futs w)" and loops: "\<And>g. fu_loop (futs ! g) = fu_loop (n_futs w ! g)"
    and same: "\<And>g. g \<notin> set pre \<Longrightarrow> fu_state (futs ! g) = fu_state (n_futs w ! g)"
    and left: "\<And>g. g \<in> set pre \<Longrightarrow> fu_state (futs ! g) \<noteq> Pending \<or> g \<in> set soon \<or> fu_loop (n_futs w ! g) \<in> n_closed w"
    and soon: "set (n_soon w) \<subseteq> set soon" "set soon \<subseteq> set (n_soon w) \<union> set pre"
  shows "net_ok ((set_waiters c rest w)\<lparr>n_futs := futs, n_soon := soon\<rparr>)" (is "net_ok ?w")
proof -
  have p: "parked t f ?w = parked t f w" for t f by (simp add: parked_def)
  have other: "f \<notin> set pre" if "d < n_chan w" "f \<in> set (waiters_of d w)" "d \<noteq> c \<or> f \<in> set rest" for d f
    using that net_ok_other [OF ok c that(1)] ws net_ok_distinct [OF ok c] by (cases "d = c") auto
  have q: "distinct (waiters_of d ?w) \<and> (\<forall>f \<in> set (waiters_of d ?w). fu_state (futs ! f) \<noteq> Ready \<and> f \<notin> set soon \<and>
        (\<exists>t. parked t f w \<and> chan_of t w = d))" if d: "d < n_chan w" for d
  proof -
    have "set (waiters_of d ?w) \<subseteq> set (waiters_of d w)" "distinct (waiters_of d ?w)"
      using ok c d ws by (auto simp: net_ok_def)
    moreover have "f \<notin> set pre" if "f \<in> set (waiters_of d ?w)" for f
      using that other [OF d, of f] ws c by (auto split: if_splits)
    ultimately show ?thesis using net_ok_waiter [OF ok d] same soon(2) by (metis UnE subsetD)
  qed
  have r: "f < length futs \<and> fu_loop (futs ! f) = loop_of t w \<and>
      (f \<in> set (waiters_of (chan_of t w) ?w) \<or> fu_state (futs ! f) \<noteq> Pending \<or> f \<in> set soon \<or> loop_of t w \<in> n_closed w)"
    if "parked t f w" for t f
  proof -
    have *: "f < length (n_futs w)" "fu_loop (n_futs w ! f) = loop_of t w"
      "f \<in> set (waiters_of (chan_of t w) w) \<or> fu_state (n_futs w ! f) \<noteq> Pending \<or> f \<in> set (n_soon w) \<or> loop_of t w \<in> n_closed w"
      using ok that unfolding net_ok_def by blast+
    show ?thesis
    proof (cases "f \<in> set pre")
      case True
      then show ?thesis using left [of f] * by (auto simp: len loops)
    next
      case False
      then show ?thesis using * same [of f] soon(1) ws by (auto simp: len loops)
    qed
  qed
  have s: "\<forall>t < length (n_tasks w). chan_of t w < n_chan w" "\<forall>t t' f. parked t f w \<longrightarrow> parked t' f w \<longrightarrow> t = t'"
    using ok unfolding net_ok_def by blast+
  have l: "f < length futs" if "f \<in> set soon" for f
  proof -
    have "f \<in> set (n_soon w) \<or> f \<in> set (waiters_of c w)" using that soon(2) ws by auto
    then show ?thesis using ok c by (auto simp: len net_ok_def elim: net_ok_waiter [OF ok c])
  qed
  show ?thesis unfolding net_ok_def p using q r s l by simp
qed

lemma flying_pop:
  assumes ok: "net_ok w" and c: "c < n_chan w" and d: "d < n_chan w"
    and ws: "set (waiters_of c w) = set pre \<union> set rest" "set pre \<inter> set rest = {}"
  shows "d \<noteq> c \<Longrightarrow> flying d ((set_waiters c rest w)\<lparr>n_futs := futs, n_soon := soon\<rparr>) = flying d w"
    and "flying c w \<subseteq> flying c ((set_waiters c rest w)\<lparr>n_futs := futs, n_soon := soon\<rparr>)"
    and "parked t f w \<Longrightarrow> f \<in> set pre \<Longrightarrow> loop_of t w \<notin> n_closed w \<Longrightarrow>
      t \<in> flying c ((set_waiters c rest w)\<lparr>n_futs := futs, n_soon := soon\<rparr>) - flying c w"
proof -
  let ?w = "(set_waiters c rest w)\<lparr>n_futs := futs, n_soon := soon\<rparr>"
  have p: "parked t f ?w = parked t f w" for t f by (simp add: parked_def)
  show "d \<noteq> c \<Longrightarrow> flying d ?w = flying d w" by (simp add: flying_def p)
  show "flying c w \<subseteq> flying c ?w" using ws c by (auto simp: flying_def p)
  assume *: "parked t f w" "f \<in> set pre" "loop_of t w \<notin> n_closed w"
  obtain u where "parked u f w" "chan_of u w = c" using net_ok_waiter [OF ok c, of f] ws * by auto
  then have "chan_of t w = c" using ok * unfolding net_ok_def by metis
  moreover have "f \<notin> set rest" using net_ok_distinct [OF ok c] ws * by auto
  moreover have "t \<notin> flying c w"
  proof
    assume "t \<in> flying c w"
    then obtain g where "parked t g w" "g \<notin> set (waiters_of c w)" by (auto simp: flying_def)
    moreover have "g = f" using \<open>parked t g w\<close> *(1) by (simp add: parked_def)
    ultimately show False using * ws by simp
  qed
  moreover have "waiters_of c ?w = rest" using c by simp
  ultimately show "t \<in> flying c ?w - flying c w" using *(1,3) unfolding flying_def p by auto
qed

lemma items_wake [simp]: "items_of d (wake_next_waiter r c w) = items_of d w"
  by (simp add: wake_next_waiter_def split: prod.split)

lemma served_mono:
  "served c k w \<Longrightarrow> length (items_of c w') \<le> length (items_of c w) \<Longrightarrow> (live_waiter c w' \<Longrightarrow> live_waiter c w) \<Longrightarrow>
    flying c w \<subseteq> flying c w' \<Longrightarrow> served c k w'"
  unfolding served_def using card_mono [of "flying c w'" "flying c w"] by fastforce

lemma served_more:
  "served c (Suc k) w \<Longrightarrow> length (items_of c w') \<le> length (items_of c w) \<Longrightarrow> (live_waiter c w' \<Longrightarrow> live_waiter c w) \<Longrightarrow>
    flying c w \<subseteq> flying c w' \<Longrightarrow> t \<in> flying c w' - flying c w \<Longrightarrow> served c k w'"
  unfolding served_def using psubset_card_mono [of "flying c w'" "flying c w"] by fastforce

text \<open>Waking one waiter of channel \<open>c\<close> pays for one item, and does not concern other channels.\<close>

lemma wake_next_waiter_ok:
  assumes ok: "net_ok w" and c: "c < n_chan w" and r: "open_loop r w"
  shows "net_ok (wake_next_waiter r c w)"
    and "d < n_chan w \<Longrightarrow> served d k w \<Longrightarrow> served d k (wake_next_waiter r c w)"
    and "served c (Suc k) w \<Longrightarrow> served c k (wake_next_waiter r c w)"
proof -
  obtain fs futs soon where run: "wake_from r (n_closed w) (n_futs w) (waiters_of c w) = (fs, futs, soon)"
    using prod_cases3 by blast
  have w': "wake_next_waiter r c w = (set_waiters c fs w)\<lparr>n_futs := futs, n_soon := n_soon w @ soon\<rparr>"
    by (simp add: wake_next_waiter_def run)
  have "\<And>l. r = Some l \<Longrightarrow> l \<notin> n_closed w" using r by (simp add: open_loop_def)
  from wake_from_cases [OF run this] consider
      (none) "fs = []" "futs = n_futs w" "soon = []"
        "\<forall>f \<in> set (waiters_of c w). fu_state (n_futs w ! f) \<noteq> Pending \<or> fu_loop (n_futs w ! f) \<in> n_closed w"
    | (one) pre f where "waiters_of c w = pre @ f # fs" "fu_state (n_futs w ! f) = Pending" "fu_loop (n_futs w ! f) \<notin> n_closed w"
        "futs = set_fut f Ready (n_futs w) \<and> soon = [] \<or> futs = n_futs w \<and> soon = [f]"
        "\<forall>g \<in> set pre. fu_state (n_futs w ! g) \<noteq> Pending \<or> fu_loop (n_futs w ! g) \<in> n_closed w"
    by blast
  then have "net_ok (wake_next_waiter r c w) \<and> (d < n_chan w \<longrightarrow> served d k w \<longrightarrow> served d k (wake_next_waiter r c w)) \<and>
    (served c (Suc k) w \<longrightarrow> served c k (wake_next_waiter r c w))" for d k
  proof cases
    case none
    have "net_ok (wake_next_waiter r c w)" unfolding w'
      by (rule net_ok_pop [OF ok c, of "waiters_of c w"]) (use none in auto)
    moreover have "flying d w \<subseteq> flying d (wake_next_waiter r c w)" if "d < n_chan w" for d
      using flying_pop(1,2) [OF ok c that, of "waiters_of c w" "[]"] none(1) unfolding w' by (cases "d = c") auto
    moreover have "\<not> live_waiter c (wake_next_waiter r c w)" using none c by (simp add: w' live_waiter_def)
    moreover have "live_waiter d (wake_next_waiter r c w) = live_waiter d w" if "d \<noteq> c" for d
      using that none by (simp add: w' live_waiter_def)
    ultimately show ?thesis
      by (metis (no_types, opaque_lifting) served_mono items_wake order_refl served_def)
  next
    case one
    have t: "fu_loop (futs ! g) = fu_loop (n_futs w ! g)" "length futs = length (n_futs w)" for g using one(4) by auto
    obtain t where pt: "parked t f w" "f < length (n_futs w)" "fu_loop (n_futs w ! f) = loop_of t w"
      using net_ok_waiter [OF ok c, of f] one(1) by auto
    have st: "fu_state (futs ! g) = (if g = f \<and> soon = [] then Ready else fu_state (n_futs w ! g))" for g
      using one(4) pt(2) by auto
    have ws: "set (waiters_of c w) = set (pre @ [f]) \<union> set fs" "set (pre @ [f]) \<inter> set fs = {}" "distinct fs"
      using one(1) net_ok_distinct [OF ok c] by auto
    have "net_ok (wake_next_waiter r c w)" unfolding w'
      by (rule net_ok_pop [OF ok c ws]) (use one t st in \<open>auto split: if_splits\<close>)
    moreover have fl: "flying d w \<subseteq> flying d (wake_next_waiter r c w)" if "d < n_chan w" for d
      using flying_pop(1,2) [OF ok c that ws(1,2)] unfolding w' by (cases "d = c") auto
    moreover have "t \<in> flying c (wake_next_waiter r c w) - flying c w"
      unfolding w' by (rule flying_pop(3) [OF ok c c ws(1,2) pt(1)]) (use one(3) pt(3) in auto)
    moreover have "live_waiter d w" if "live_waiter d (wake_next_waiter r c w)" for d
      using that ws t st c by (auto simp: w' live_waiter_def split: if_splits)
    ultimately show ?thesis by (metis served_mono served_more items_wake order_refl c)
  qed
  then show "net_ok (wake_next_waiter r c w)" "d < n_chan w \<Longrightarrow> served d k w \<Longrightarrow> served d k (wake_next_waiter r c w)"
    "served c (Suc k) w \<Longrightarrow> served c k (wake_next_waiter r c w)" by blast+
qed

lemma wake_simps [simp]:
  "n_tasks (wake_next_waiter r c w) = n_tasks w" "n_closed (wake_next_waiter r c w) = n_closed w"
  "n_chan (wake_next_waiter r c w) = n_chan w" "n_notes (wake_next_waiter r c w) = n_notes w"
  by (simp_all add: wake_next_waiter_def split: prod.split)

text \<open>Futures are cancelled or woken by a callback.\<close>

lemma net_ok_futs:
  assumes ok: "net_ok w" and len: "length futs = length (n_futs w)" and soon: "set soon \<subseteq> set (n_soon w)"
    and loops: "\<And>g. fu_loop (futs ! g) = fu_loop (n_futs w ! g)"
    and st: "\<And>g. fu_state (futs ! g) = fu_state (n_futs w ! g) \<or> fu_state (futs ! g) = Cancelled
        \<or> fu_state (futs ! g) = Ready \<and> g \<in> set (n_soon w)"
    and gone: "\<And>g. g \<in> set (n_soon w) \<Longrightarrow> g \<in> set soon \<or> fu_state (futs ! g) \<noteq> Pending"
  shows "net_ok (w\<lparr>n_futs := futs, n_soon := soon\<rparr>)" (is "net_ok ?w")
    and "flying d (w\<lparr>n_futs := futs, n_soon := soon\<rparr>) = flying d w"
    and "live_waiter d (w\<lparr>n_futs := futs, n_soon := soon\<rparr>) \<Longrightarrow> live_waiter d w"
proof -
  have p: "parked t f ?w = parked t f w" for t f by (simp add: parked_def)
  have q: "fu_state (futs ! f) \<noteq> Ready \<and> f \<notin> set soon" if "d < n_chan w" "f \<in> set (waiters_of d w)" for d f
    using net_ok_waiter [OF ok that] st [of f] soon by (metis fut_state.distinct(5) subsetD)
  have r: "f \<in> set (waiters_of (chan_of t w) w) \<or> fu_state (futs ! f) \<noteq> Pending \<or> f \<in> set soon \<or> loop_of t w \<in> n_closed w"
    if "parked t f w" for t f
    using ok that st [of f] gone [of f] unfolding net_ok_def by (metis fut_state.distinct(1,3))
  show "net_ok ?w" unfolding net_ok_def p using ok q r soon by (auto simp: net_ok_def len loops)
  show "flying d ?w = flying d w" by (simp add: flying_def p)
  show "live_waiter d ?w \<Longrightarrow> live_waiter d w"
    using st by (auto simp: live_waiter_def loops) (metis fut_state.distinct(1,3))
qed

text \<open>A task that no longer waits.\<close>

lemma set_pc_ok:
  assumes ok: "net_ok w" and t: "t < length (n_tasks w)" and p: "\<And>f. p \<noteq> Parked f"
    and out: "\<And>f. parked t f w \<Longrightarrow> f \<notin> set (waiters_of (chan_of t w) w)"
  shows "net_ok (set_pc t p w)" (is "net_ok ?w")
    and "flying d (set_pc t p w) = flying d w - {t}"
    and "live_waiter d (set_pc t p w) = live_waiter d w"
proof -
  have pk: "parked u f ?w = (u \<noteq> t \<and> parked u f w)" for u f using p t by (auto simp: parked_def split: if_splits)
  have ch: "chan_of u ?w = chan_of u w" "loop_of u ?w = loop_of u w" if "u < length (n_tasks w)" for u using that t by auto
  have ck: "chan_of u ?w = chan_of u w" "loop_of u ?w = loop_of u w" if "parked u f w" for u f
    using that ch by (auto simp: parked_def)
  have q: "\<exists>u. parked u f ?w \<and> chan_of u ?w = d" if df: "d < n_chan w" "f \<in> set (waiters_of d w)" for d f
  proof -
    obtain u where u: "parked u f w" "chan_of u w = d" using net_ok_waiter [OF ok df] by metis
    then have "u \<noteq> t" using out df by auto
    then show ?thesis using u pk ck by auto
  qed
  show "net_ok ?w"
  proof (unfold net_ok_def, intro conjI allI impI ballI)
    fix u f assume "parked u f ?w"
    then have u: "parked u f w" by (simp add: pk)
    show "f \<in> set (waiters_of (chan_of u ?w) ?w) \<or> fu_state (n_futs ?w ! f) \<noteq> Pending \<or> f \<in> set (n_soon ?w)
       \<or> loop_of u ?w \<in> n_closed ?w" using net_ok_parked(3) [OF ok u] by (simp add: ck [OF u])
    show "f < length (n_futs ?w)" "fu_loop (n_futs ?w ! f) = loop_of u ?w"
      using net_ok_parked(1,2) [OF ok u] by (simp_all add: ck [OF u])
  qed (use ok q ch in \<open>auto simp: net_ok_def pk\<close>)
  show "flying d ?w = flying d w - {t}" by (auto simp: flying_def pk ck)
  show "live_waiter d ?w = live_waiter d w" by (simp add: live_waiter_def)
qed

lemma served_set_pc:
  assumes ok: "net_ok w" and t: "t < length (n_tasks w)" and p: "\<And>f. p \<noteq> Parked f"
    and out: "\<And>f. parked t f w \<Longrightarrow> f \<notin> set (waiters_of (chan_of t w) w)"
  shows "served d k w \<Longrightarrow> served d (Suc k) (set_pc t p w)"
    and "served d k w \<Longrightarrow> d \<noteq> chan_of t w \<Longrightarrow> served d k (set_pc t p w)"
    and "served d k w \<Longrightarrow> (\<And>f. \<not> parked t f w) \<Longrightarrow> served d k (set_pc t p w)"
proof -
  note f = set_pc_ok [OF ok t p out]
  have "card (flying d w) \<le> Suc (card (flying d w - {t}))"
    by (simp add: card_Diff_singleton_if) arith
  then show "served d k w \<Longrightarrow> served d (Suc k) (set_pc t p w)" by (auto simp: served_def f)
  have keep: "served d k w \<Longrightarrow> t \<notin> flying d w \<Longrightarrow> served d k (set_pc t p w)"
    by (simp add: served_def f)
  show "served d k w \<Longrightarrow> d \<noteq> chan_of t w \<Longrightarrow> served d k (set_pc t p w)"
    by (rule keep) (auto simp: flying_def)
  show "served d k w \<Longrightarrow> (\<And>f. \<not> parked t f w) \<Longrightarrow> served d k (set_pc t p w)"
    by (rule keep) (auto simp: flying_def)
qed

text \<open>A task parks behind a new future.\<close>

lemma net_ok_park:
  assumes ok: "net_ok w" and t: "t < length (n_tasks w)"
    and out: "\<And>f. parked t f w \<Longrightarrow> f \<notin> set (waiters_of (chan_of t w) w)"
  shows "net_ok (park t w)" (is "net_ok ?w")
    and "d \<noteq> chan_of t w \<Longrightarrow> d < n_chan w \<Longrightarrow> served d k w \<Longrightarrow> served d k (park t w)"
proof -
  define c where "c = chan_of t w"
  define f where "f = length (n_futs w)"
  have c: "c < n_chan w" using ok t by (simp add: net_ok_def c_def)
  have eq: "n_futs ?w = n_futs w @ [\<lparr>fu_loop = loop_of t w, fu_state = Pending\<rparr>]"
    "n_soon ?w = n_soon w" "n_closed ?w = n_closed w" "n_chan ?w = n_chan w" "length (n_tasks ?w) = length (n_tasks w)"
    "\<And>d. waiters_of d ?w = (if d = c then waiters_of c w @ [f] else waiters_of d w)"
    using c by (auto simp: park_def Let_def c_def f_def set_waiters_def set_chan_def chan_at_def waiters_of_def nth_upd set_pc_def)
  have tasks: "chan_of u ?w = chan_of u w" "loop_of u ?w = loop_of u w" if "u < length (n_tasks w)" for u
    using that t by (auto simp: park_def Let_def)
  have pk: "parked u g ?w = (u = t \<and> g = f \<or> u \<noteq> t \<and> parked u g w)" for u g
    using t by (auto simp: parked_def park_def Let_def f_def split: if_splits)
  have ck: "chan_of u ?w = chan_of u w" "loop_of u ?w = loop_of u w" if "parked u g w" for u g
    using that tasks by (auto simp: parked_def)
  have lt: "g < f" if "g \<in> set (n_soon w) \<or> parked u g w" for u g
    using ok that unfolding net_ok_def f_def by blast
  have lw: "g < f" "g \<in> set (waiters_of d w) \<Longrightarrow> g \<noteq> f" if "d < n_chan w" "g \<in> set (waiters_of d w)" for d g
    using net_ok_waiter [OF ok that] by (auto simp: f_def)
  have q: "distinct (waiters_of d ?w) \<and> (\<forall>g \<in> set (waiters_of d ?w). fu_state (n_futs ?w ! g) \<noteq> Ready \<and> g \<notin> set (n_soon w) \<and>
      (\<exists>u. parked u g ?w \<and> chan_of u ?w = d))" if d: "d < n_chan w" for d
  proof -
    have old: "fu_state (n_futs ?w ! g) \<noteq> Ready \<and> g \<notin> set (n_soon w) \<and> (\<exists>u. parked u g ?w \<and> chan_of u ?w = d)"
      if g: "g \<in> set (waiters_of d w)" for g
    proof -
      obtain u where u: "parked u g w" "chan_of u w = d" "fu_state (n_futs w ! g) \<noteq> Ready" "g \<notin> set (n_soon w)"
        using net_ok_waiter [OF ok d g] by metis
      then have "u \<noteq> t" using out g by auto
      then show ?thesis using u pk ck lt [of g u] by (auto simp: eq nth_append f_def)
    qed
    have new: "fu_state (n_futs ?w ! f) \<noteq> Ready \<and> f \<notin> set (n_soon w) \<and> (\<exists>u. parked u f ?w \<and> chan_of u ?w = c)"
      using lt [of f t] pk tasks(1) [OF t] by (auto simp: eq nth_append f_def c_def)
    show ?thesis using old new net_ok_distinct [OF ok d] lw(1) [OF d] by (auto simp: eq(6))
  qed
  have r: "g < length (n_futs ?w) \<and> fu_loop (n_futs ?w ! g) = loop_of u ?w \<and>
      (g \<in> set (waiters_of (chan_of u ?w) ?w) \<or> fu_state (n_futs ?w ! g) \<noteq> Pending \<or> g \<in> set (n_soon w) \<or> loop_of u ?w \<in> n_closed w)"
    if "parked u g ?w" for u g
  proof (cases "u = t")
    case True
    then show ?thesis using that pk tasks [OF t] by (auto simp: eq nth_append f_def c_def)
  next
    case False
    then have u: "parked u g w" using that pk by simp
    then have "g < length (n_futs w)" using lt [of g u] by (simp add: f_def)
    moreover have "fu_loop (n_futs w ! g) = loop_of u w"
      "g \<in> set (waiters_of (chan_of u w) w) \<or> fu_state (n_futs w ! g) \<noteq> Pending \<or> g \<in> set (n_soon w) \<or> loop_of u w \<in> n_closed w"
      using ok u unfolding net_ok_def by blast+
    ultimately show ?thesis using ck [OF u] by (auto simp: eq nth_append)
  qed
  have s: "u = v" if "parked u g ?w" "parked v g ?w" for u v g
    using that pk lt [of g u] lt [of g v] ok unfolding net_ok_def by (metis less_irrefl)
  show "net_ok ?w" unfolding net_ok_def eq(2-5) using q r s tasks ok lt by (auto simp: net_ok_def eq(1) f_def less_Suc_eq)
  show "served d k ?w" if "d \<noteq> chan_of t w" "d < n_chan w" "served d k w"
  proof (rule served_mono [OF that(3)])
    show "length (items_of d ?w) \<le> length (items_of d w)" by (simp add: park_def Let_def)
    show "flying d w \<subseteq> flying d ?w" using that(1) ck pk by (auto simp: flying_def eq c_def)
    show "live_waiter d w" if "live_waiter d ?w"
      using that \<open>d \<noteq> chan_of t w\<close> lw(1) [OF \<open>d < n_chan w\<close>] by (auto simp: live_waiter_def eq c_def nth_append f_def)
  qed
qed

section \<open>Every step keeps the invariant\<close>

definition net_good :: "(nat \<Rightarrow> nat) \<Rightarrow> 'a net \<Rightarrow> bool" where
  "net_good k w \<longleftrightarrow> net_ok w \<and> (\<forall>c < n_chan w. served c (k c) w)"

lemma net_goodI: "net_ok w \<Longrightarrow> (\<And>c. c < n_chan w \<Longrightarrow> served c (k c) w) \<Longrightarrow> net_good k w"
  by (simp add: net_good_def)

named_theorems net_keeps \<open>operations that keep the invariant of the channels\<close>

lemma net_good_init: "net_good k net_init"
  by (simp add: net_good_def net_ok_def net_init_def parked_def)

lemma net_good_record [net_keeps]: "net_good k (record_note n w) = net_good k w"
  by (simp add: net_good_def)

lemma net_good_fewer [net_keeps]:
  assumes "net_good k w" "length xs \<le> length (items_of c w)"
  shows "net_good k (set_items c xs w)"
  using assms by (auto simp: net_good_def served_def)

text \<open>One item more is paid for by waking one waiter.\<close>

lemma net_good_wake [net_keeps]:
  assumes ok: "net_ok w" and c: "c < n_chan w" and r: "open_loop r w"
    and s: "served c (Suc (k c)) w" and o: "\<And>d. d < n_chan w \<Longrightarrow> d \<noteq> c \<Longrightarrow> served d (k d) w"
  shows "net_good k (wake_next_waiter r c w)"
proof (rule net_goodI)
  note wake = wake_next_waiter_ok [OF ok c r]
  show "net_ok (wake_next_waiter r c w)" by (rule wake)
  fix d assume "d < n_chan (wake_next_waiter r c w)"
  then show "served d (k d) (wake_next_waiter r c w)" using wake(2) [of d "k d"] wake(3) [of "k c"] s o [of d] by (cases "d = c") auto
qed

lemma open_loop_simps [simp]: "open_loop r (set_items c xs w) = open_loop r w" "open_loop r (record_note n w) = open_loop r w"
    "open_loop r (set_pc t p w) = open_loop r w" "open_loop r (set_waiters c fs w) = open_loop r w"
  by (simp_all add: open_loop_def split: option.splits)

lemma net_good_grow:
  assumes "net_good k w" "c < n_chan w" "open_loop r w" "length xs = Suc (length (items_of c w))"
  shows "net_good k (wake_next_waiter r c (set_items c xs w))"
  by (rule net_good_wake) (use assms in \<open>auto simp: net_good_def served_def\<close>)

lemma wake_record: "wake_next_waiter r c (record_note n w) = record_note n (wake_next_waiter r c w)"
  by (simp add: wake_next_waiter_def record_note_def set_waiters_def set_chan_def chan_at_def waiters_of_def split: prod.split)

lemma wake_set_pc: "wake_next_waiter r c (set_pc t p w) = set_pc t p (wake_next_waiter r c w)"
  by (simp add: wake_next_waiter_def set_pc_def set_waiters_def set_chan_def chan_at_def waiters_of_def split: prod.split)

lemma net_good_put: "net_good k w \<Longrightarrow> c < n_chan w \<Longrightarrow> open_loop r w \<Longrightarrow> net_good k (keep w (put r c x w))"
  by (simp add: put_def keep_def net_keeps wake_record net_good_grow split: mode.split)

lemma net_good_restore: "net_good k w \<Longrightarrow> c < n_chan w \<Longrightarrow> open_loop r w \<Longrightarrow> net_good k (restore_front r c x w)"
  by (simp add: restore_front_def net_keeps net_good_grow)

lemma net_good_soon: 
  assumes "net_good k w" "i < length (n_soon w)"
  shows "net_good k (run_soon i w)"
proof -
  let ?f = "n_soon w ! i" and ?futs = "safe_wake (n_soon w ! i) (n_futs w)"
  have ok: "net_ok w" using assms by (simp add: net_good_def)
  have f: "?f \<in> set (n_soon w)" "?f < length (n_futs w)" using assms ok by (simp_all add: net_ok_def)
  have st: "fu_state (?futs ! g) = (if g = ?f \<and> fu_state (n_futs w ! g) = Pending then Ready else fu_state (n_futs w ! g))" for g
    using f by (auto simp: safe_wake_def)
  have loops: "fu_loop (?futs ! g) = fu_loop (n_futs w ! g)" "length ?futs = length (n_futs w)" for g
    by (simp_all add: safe_wake_def)
  let ?soon = "take i (n_soon w) @ drop (Suc i) (n_soon w)"
  have soon: "set ?soon \<subseteq> set (n_soon w)" using set_take_subset set_drop_subset by fastforce
  have gone: "g \<in> set ?soon \<or> fu_state (?futs ! g) \<noteq> Pending" if "g \<in> set (n_soon w)" for g
  proof (cases "g = ?f")
    case False
    have "n_soon w = take i (n_soon w) @ ?f # drop (Suc i) (n_soon w)" using assms(2) by (rule id_take_nth_drop)
    with that have "g \<in> set (take i (n_soon w) @ ?f # drop (Suc i) (n_soon w))" by metis
    with False show ?thesis by auto
  qed (simp add: st)
  note upd = net_ok_futs [OF ok loops(2) soon loops(1) _ gone]
  have pre: "\<And>g. fu_state (?futs ! g) = fu_state (n_futs w ! g) \<or> fu_state (?futs ! g) = Cancelled
      \<or> fu_state (?futs ! g) = Ready \<and> g \<in> set (n_soon w)" using st f by auto
  have eq: "run_soon i w = w\<lparr>n_futs := ?futs, n_soon := ?soon\<rparr>" by (simp add: run_soon_def)
  show ?thesis
  proof (rule net_goodI)
    show "net_ok (run_soon i w)" unfolding eq by (rule upd(1)) (rule pre)
    fix d assume "d < n_chan (run_soon i w)"
    then have "served d (k d) w" using assms by (simp add: eq net_good_def)
    moreover have "flying d (run_soon i w) = flying d w" unfolding eq by (rule upd(2)) (rule pre)
    moreover have "live_waiter d (run_soon i w) \<Longrightarrow> live_waiter d w" unfolding eq by (rule upd(3)) (rule pre)
    moreover have "items_of d (run_soon i w) = items_of d w" by (simp add: eq)
    ultimately show "served d (k d) (run_soon i w)" by (simp add: served_mono)
  qed
qed

lemma net_good_start:
  assumes "net_good k w" "c < n_chan w" "l \<notin> n_closed w"
  shows "net_good k (keep w (start_drain c l fires w))"
proof (cases "ch_mode (chan_at c w) = Queue_mode")
  case True
  let ?w = "w\<lparr>n_tasks := n_tasks w @ [\<lparr>tk_chan = c, tk_loop = l, tk_fires = fires, tk_cancel = False, tk_pc = Fresh\<rparr>]\<rparr>"
  have ok: "net_ok w" using assms by (simp add: net_good_def)
  have pk: "parked t f ?w = parked t f w" for t f by (auto simp: parked_def nth_append)
  have ck: "n_tasks ?w ! t = n_tasks w ! t" if "parked t f w" for t f using that by (simp add: parked_def nth_append)
  have "net_ok ?w" unfolding net_ok_def pk
    using net_ok_parked [OF ok] net_ok_distinct [OF ok] ok assms(2) ck
    by (auto simp: nth_append less_Suc_eq elim!: net_ok_waiter [OF ok]) (auto simp: net_ok_def parked_def)
  moreover have "flying d ?w = flying d w" "live_waiter d ?w = live_waiter d w" for d
    unfolding flying_def pk using ck by (auto simp: live_waiter_def)
  ultimately show ?thesis using assms True by (auto simp: start_drain_def keep_def net_good_def served_def)
qed (use assms in \<open>simp add: start_drain_def keep_def\<close>)

lemma net_good_flag:
  "net_good k (w\<lparr>n_tasks := (n_tasks w)[t := (n_tasks w ! t)\<lparr>tk_cancel := True\<rparr>]\<rparr>) = net_good k w" (is "net_good k ?w = _")
proof -
  have "net_ok ?w = net_ok w" "flying d ?w = flying d w" "live_waiter d ?w = live_waiter d w" for d
    by (rule net_ok_cong; simp add: parked_def nth_upd; fail)+
  then show ?thesis by (simp add: net_good_def served_def)
qed

lemma net_good_cancel:
  assumes "net_good k w" "t < length (n_tasks w)"
  shows "net_good k (cancel_task t w)"
proof -
  have ok: "net_ok w" using assms by (simp add: net_good_def)
  have "net_good k (w\<lparr>n_futs := set_fut f Cancelled (n_futs w)\<rparr>)" if "parked t f w" "fu_state (n_futs w ! f) = Pending" for f
  proof -
    have f: "f < length (n_futs w)" using net_ok_parked [OF ok that(1)] by simp
    have st: "fu_state (set_fut f Cancelled (n_futs w) ! g) = fu_state (n_futs w ! g) \<or>
        fu_state (set_fut f Cancelled (n_futs w) ! g) = Cancelled \<or>
        fu_state (set_fut f Cancelled (n_futs w) ! g) = Ready \<and> g \<in> set (n_soon w)" for g using f by simp
    let ?w = "w\<lparr>n_futs := set_fut f Cancelled (n_futs w), n_soon := n_soon w\<rparr>"
    have "net_ok ?w" "flying d ?w = flying d w" for d
      by (rule net_ok_futs [OF ok]; (rule st)?; simp)+
    moreover have "live_waiter d ?w \<Longrightarrow> live_waiter d w" for d
      by (rule net_ok_futs(3) [OF ok, where soon = "n_soon w"]; (rule st)?; simp)
    ultimately have "net_good k ?w" using assms served_mono [of _ "k _" w ?w] by (auto simp: net_good_def)
    then show ?thesis by simp
  qed
  then show ?thesis using assms by (auto simp: cancel_task_def Let_def net_good_flag parked_def split: pc.split)
qed

lemma net_good_take:
  assumes good: "net_good k w" and t: "t < length (n_tasks w)" and it: "items_of (chan_of t w) w \<noteq> []"
    and out: "\<And>f. parked t f w \<Longrightarrow> f \<notin> set (waiters_of (chan_of t w) w)"
  shows "net_good k (take_head t w)"
proof -
  let ?c = "chan_of t w"
  let ?w1 = "set_items ?c (tl (items_of ?c w)) w" and ?x = "hd (items_of ?c w)"
  let ?w2 = "set_pc t (Finished ?x) ?w1"
  have ok: "net_ok ?w1" and c: "?c < n_chan w" using good t by (auto simp: net_good_def net_ok_def)
  note pc = set_pc_ok [OF ok, of t "Finished ?x"]
  have ok2: "net_ok ?w2" by (rule pc(1)) (use t out in auto)
  have fl: "flying d ?w2 = flying d w - {t}" and lv: "live_waiter d ?w2 = live_waiter d w" for d
    using pc(2,3) t out by simp_all
  have "served d (k d) ?w2" if "d < n_chan w" for d
  proof (cases "d = ?c")
    case True
    have "length (items_of ?c ?w2) < length (items_of ?c w)" using it c by simp
    moreover have "length (items_of ?c w) \<le> card (flying ?c w) + k ?c" if "live_waiter ?c w"
      using good c that by (simp add: net_good_def served_def)
    moreover have "card (flying ?c w) \<le> Suc (card (flying ?c w - {t}))" by (simp add: card_Diff_singleton_if) arith
    ultimately show ?thesis unfolding True served_def fl lv by fastforce
  next
    case False
    then have "flying d w - {t} = flying d w" by (auto simp: flying_def)
    then show ?thesis using False good that unfolding served_def fl lv by (simp add: served_def net_good_def)
  qed
  then have "net_good k ?w2" using ok2 by (simp add: net_good_def)
  then show ?thesis using t by (simp add: take_head_def Let_def fire_on_get_def net_keeps)
qed

lemma net_good_park:
  assumes good: "net_good k w" and t: "t < length (n_tasks w)" and it: "items_of (chan_of t w) w = []"
    and out: "\<And>f. parked t f w \<Longrightarrow> f \<notin> set (waiters_of (chan_of t w) w)"
  shows "net_good k (park t w)"
proof (rule net_goodI)
  have ok: "net_ok w" using good by (simp add: net_good_def)
  show "net_ok (park t w)" by (rule net_ok_park [OF ok t out])
  fix d assume "d < n_chan (park t w)"
  then have d: "d < n_chan w" by (simp add: park_def Let_def set_waiters_def set_chan_def)
  show "served d (k d) (park t w)"
  proof (cases "d = chan_of t w")
    case True
    then show ?thesis using it by (simp add: served_def park_def Let_def)
  next
    case False
    then show ?thesis using net_ok_park(2) [OF ok t out False d] good d by (simp add: net_good_def)
  qed
qed

lemma same_update: "n_futs w = fu \<Longrightarrow> n_soon w = so \<Longrightarrow> w\<lparr>n_futs := fu, n_soon := so\<rparr> = w"
  by auto

lemma net_good_abort:
  assumes good: "net_good k w" and pt: "parked t f w" and st: "fu_state (n_futs w ! f) \<noteq> Pending"
    and l: "loop_of t w \<notin> n_closed w"
  shows "net_good k (abort_wait t f w)"
proof -
  let ?c = "chan_of t w"
  have ok: "net_ok w" and t: "t < length (n_tasks w)" using good pt by (simp_all add: net_good_def parked_def)
  have c: "?c < n_chan w" using ok t by (simp add: net_ok_def)
  let ?w1 = "set_waiters ?c (remove1 f (waiters_of ?c w)) w"
  have dist: "distinct (waiters_of ?c w)" by (rule net_ok_distinct [OF ok c])
  define pre where "pre = (if f \<in> set (waiters_of ?c w) then [f] else [])"
  have ws: "set (waiters_of ?c w) = set pre \<union> set (remove1 f (waiters_of ?c w))"
      "set pre \<inter> set (remove1 f (waiters_of ?c w)) = {}" "distinct (remove1 f (waiters_of ?c w))"
    using dist by (auto simp: pre_def)
  have "net_ok (?w1\<lparr>n_futs := n_futs w, n_soon := n_soon w\<rparr>)"
    by (rule net_ok_pop [OF ok c ws]) (use st in \<open>auto simp: pre_def split: if_splits\<close>)
  then have ok1: "net_ok ?w1" by (simp only: same_update access_set)
  have s1: "served d (k d) ?w1" if "d < n_chan w" for d
  proof (rule served_mono)
    show "served d (k d) w" using good that by (simp add: net_good_def)
    show "flying d w \<subseteq> flying d ?w1"
      using flying_pop(1,2) [OF ok c that ws(1,2), where futs = "n_futs w" and soon = "n_soon w"]
      by (cases "d = ?c") (simp_all only: same_update access_set order_refl not_False_eq_True simp_thms)
    show "live_waiter d w" if "live_waiter d ?w1"
      using that c set_remove1_subset [of f "waiters_of ?c w"] by (auto simp: live_waiter_def split: if_splits)
  qed simp
  have out: "\<And>g. parked t g ?w1 \<Longrightarrow> g \<notin> set (waiters_of (chan_of t ?w1) ?w1)" 
    using pt c dist by (auto simp: parked_def)
  let ?w2 = "set_pc t Aborted ?w1"
  have ok2: "net_ok ?w2" by (rule set_pc_ok(1) [OF ok1 _ _ out]) (use t in auto)
  have s2: "served d (Suc (k d)) ?w2" "d \<noteq> ?c \<Longrightarrow> served d (k d) ?w2" if "d < n_chan w" for d
    by (rule served_set_pc(1) [OF ok1 _ _ out]; use t s1 that in simp)
      (rule served_set_pc(2) [OF ok1 _ _ out]; use t s1 that in simp)
  show ?thesis
  proof (cases "items_of ?c w = []")
    case True
    have "served ?c (k ?c) ?w2" using True by (simp add: served_def)
    then have "net_good k ?w2" using ok2 s2(2) by (intro net_goodI) (metis access_set)+
    then show ?thesis using True by (simp add: abort_wait_def Let_def)
  next
    case False
    have "net_good k (wake_next_waiter (Some (loop_of t w)) ?c ?w2)"
      by (rule net_good_wake) (use ok2 s2 c l in \<open>auto simp: open_loop_def\<close>)
    then show ?thesis using False by (simp add: abort_wait_def Let_def wake_set_pc)
  qed
qed

lemma net_good_run:
  assumes good: "net_good k w" and t: "t < length (n_tasks w)" and r: "runnable t w"
    and nt: "tk_pc (n_tasks w ! t) \<noteq> Testing"
  shows "net_good k (run_task t w)"
proof (cases "tk_pc (n_tasks w ! t)")
  case Fresh
  have ok: "net_ok w" using good by (simp add: net_good_def)
  have np: "\<not> parked t f w" for f using Fresh by (simp add: parked_def)
  have "net_good k (set_pc t Aborted w)"
    by (rule net_goodI, rule set_pc_ok(1) [OF ok t], use np in simp_all, rule served_set_pc(3) [OF ok t])
      (use np good in \<open>auto simp: net_good_def\<close>)
  then show ?thesis
    using Fresh net_good_take [OF good t] net_good_park [OF good t] np by (simp add: run_task_def drain_turn_def)
next
  case (Parked f)
  have ok: "net_ok w" using good by (simp add: net_good_def)
  have pt: "parked t f w" using t Parked by (simp add: parked_def)
  have st: "fu_state (n_futs w ! f) \<noteq> Pending" "loop_of t w \<notin> n_closed w" using r Parked by (auto simp: runnable_def)
  show ?thesis
  proof (cases "fu_state (n_futs w ! f) = Cancelled \<or> tk_cancel (n_tasks w ! t)")
    case True
    then show ?thesis using Parked net_good_abort [OF good pt st] by (simp add: run_task_def)
  next
    case False
    then have "fu_state (n_futs w ! f) = Ready" using st by (cases "fu_state (n_futs w ! f)") auto
    then have "f \<notin> set (waiters_of (chan_of t w) w)" using ok net_ok_parked(5) [OF ok pt] by (auto simp: net_ok_def)
    then have "\<And>g. parked t g w \<Longrightarrow> g \<notin> set (waiters_of (chan_of t w) w)" using Parked by (auto simp: parked_def)
    then show ?thesis using Parked False net_good_take [OF good t] net_good_park [OF good t]
      by (simp add: run_task_def drain_turn_def)
  qed
qed (use good nt in \<open>simp_all add: run_task_def\<close>)

text \<open>A turn that ends with items in the channel: they are the debt of that turn.\<close>

lemma net_good_late:
  assumes good: "net_good k w" and t: "t < length (n_tasks w)" and pc: "tk_pc (n_tasks w ! t) = Testing"
    and k': "\<And>d. k d \<le> k' d" "length (items_of (chan_of t w) w) \<le> k' (chan_of t w)"
  shows "net_good k' (run_task t w)"
proof (rule net_goodI)
  have ok: "net_ok w" using good by (simp add: net_good_def)
  have run: "run_task t w = park t w" using pc by (simp add: run_task_def)
  have out: "\<And>f. parked t f w \<Longrightarrow> f \<notin> set (waiters_of (chan_of t w) w)" using pc by (simp add: parked_def)
  show "net_ok (run_task t w)" unfolding run by (rule net_ok_park(1) [OF ok t out])
  fix d assume "d < n_chan (run_task t w)"
  then have d: "d < n_chan w" by (simp add: run park_def Let_def set_waiters_def set_chan_def)
  show "served d (k' d) (run_task t w)"
  proof (cases "d = chan_of t w")
    case True
    then show ?thesis using k'(2) by (simp add: served_def run park_def Let_def)
  next
    case False
    have "served d (k d) w" using good d by (simp add: net_good_def)
    then have "served d (k d) (run_task t w)" unfolding run using net_ok_park(2) [OF ok t out False d] by blast
    then show ?thesis using k'(1) [of d] unfolding served_def by (meson add_left_mono order_trans)
  qed
qed

lemma net_good_test:
  assumes good: "net_good k w" and t: "t < length (n_tasks w)" and st: "starts_turn t w"
    and e: "items_of (chan_of t w) w = []"
  shows "net_good k (find_empty t w)"
proof (rule net_goodI)
  have ok: "net_ok w" using good by (simp add: net_good_def)
  have out: "f \<notin> set (waiters_of (chan_of t w) w)" if "parked t f w" for f
    using that st ok net_ok_parked(5) [OF ok that] by (auto simp: starts_turn_def parked_def net_ok_def)
  show "net_ok (find_empty t w)" unfolding find_empty_def by (rule set_pc_ok(1) [OF ok t _ out]) auto
  fix d assume "d < n_chan (find_empty t w)"
  then have s: "served d (k d) w" using good by (simp add: net_good_def find_empty_def)
  show "served d (k d) (find_empty t w)"
  proof (cases "d = chan_of t w")
    case True
    then show ?thesis using e by (simp add: served_def find_empty_def)
  next
    case False
    show ?thesis unfolding find_empty_def by (rule served_set_pc(2) [OF ok t _ out s False]) auto
  qed
qed

lemma cancel_waiters:
  "length (fold cancel_waiter fs futs) = length futs"
  "fu_loop (fold cancel_waiter fs futs ! g) = fu_loop (futs ! g)"
  "set fs \<subseteq> {..<length futs} \<Longrightarrow> fu_state (fold cancel_waiter fs futs ! g) =
     (if g \<in> set fs \<and> fu_state (futs ! g) = Pending then Cancelled else fu_state (futs ! g))"
  by (induction fs arbitrary: futs) (auto simp: cancel_waiter_def)

lemma fold_fire: "fold (fire_on_get c) xs w = w\<lparr>n_notes := n_notes w @ map (Consumed c) xs\<rparr>"
  by (induction xs arbitrary: w) (simp_all add: fire_on_get_def record_note_def)

lemma items_notes [simp]:
  "items_of c (w\<lparr>n_notes := ns\<rparr>) = items_of c w" "waiters_of c (w\<lparr>n_notes := ns\<rparr>) = waiters_of c w"
  by (simp_all add: items_of_def waiters_of_def chan_at_def)

lemma net_good_notes: "net_good k (w\<lparr>n_notes := ns\<rparr>) = net_good k w"
proof -
  have "net_ok (w\<lparr>n_notes := ns\<rparr>) = net_ok w" "flying d (w\<lparr>n_notes := ns\<rparr>) = flying d w"
    "live_waiter d (w\<lparr>n_notes := ns\<rparr>) = live_waiter d w" for d
    by (rule net_ok_cong; simp add: parked_def; fail)+
  then show ?thesis by (simp add: net_good_def served_def)
qed

lemma net_good_discard [net_keeps]: "net_good k (fire_on_discard c xs w) = net_good k w"
  by (simp add: fire_on_discard_def net_keeps)

lemma net_good_sync [net_keeps]:
  assumes "net_good k w"
  shows "net_good k (snd (drain c w))" "net_good k (snd (pop_last c w))" "net_good k (snd (remove_item c x w))" "net_good k (clear c w)"
  using assms by (simp_all add: drain_def pop_last_def remove_item_def clear_def net_keeps fold_fire net_good_notes
      length_remove1)

lemma net_good_flush:
  assumes good: "net_good k w" and c: "c < n_chan w"
  shows "net_good k (snd (flush c w))"
proof -
  let ?fs = "waiters_of c w" and ?futs = "fold cancel_waiter (waiters_of c w) (n_futs w)"
  let ?w0 = "set_items c [] w"
  let ?w1 = "?w0\<lparr>n_futs := ?futs, n_soon := n_soon w\<rparr>"
  let ?w2 = "(set_waiters c [] ?w1)\<lparr>n_futs := ?futs, n_soon := n_soon w\<rparr>"
  have ok: "net_ok ?w0" using good by (simp add: net_good_def)
  have "f < length (n_futs w)" if "f \<in> set ?fs" for f
    by (rule net_ok_waiter [OF ok, of c f]) (use c that in auto)
  then have lt: "set ?fs \<subseteq> {..<length (n_futs w)}" by auto
  have st: "fu_state (?futs ! g) = fu_state (n_futs ?w0 ! g) \<or> fu_state (?futs ! g) = Cancelled \<or>
      fu_state (?futs ! g) = Ready \<and> g \<in> set (n_soon ?w0)" for g
    using cancel_waiters(3) [OF lt] by simp
  note upd = net_ok_futs [OF ok, where futs = ?futs and soon = "n_soon w"]
  have ok1: "net_ok ?w1" by (rule upd(1); (rule st)?) (simp_all add: cancel_waiters)
  have fl1: "flying d ?w1 = flying d w" for d by (subst upd(2); (rule st)?; simp add: cancel_waiters)
  have lv1: "live_waiter d w" if "live_waiter d ?w1" for d
  proof -
    have "live_waiter d ?w0" by (rule upd(3); (rule st)?) (use that in \<open>simp_all add: cancel_waiters\<close>)
    then show ?thesis by simp
  qed
  have ws: "set (waiters_of c ?w1) = set ?fs \<union> set []" "set ?fs \<inter> set [] = {}" "distinct ([] :: nat list)" by simp_all
  have c1: "c < n_chan ?w1" using c by simp
  have ok2: "net_ok ?w2"
    by (rule net_ok_pop [OF ok1 c1 ws]) (use cancel_waiters(3) [OF lt] in auto)
  have "served d (k d) ?w2" if d: "d < n_chan w" for d
  proof (cases "d = c")
    case True
    then show ?thesis using c by (simp add: served_def)
  next
    case False
    have "served d (k d) w" using good d by (simp add: net_good_def)
    moreover have "flying d ?w2 = flying d w"
      using flying_pop(1) [OF ok1 c1 _ ws(1,2) False, where futs = ?futs and soon = "n_soon w"] d fl1 by simp
    moreover have "live_waiter d ?w2 \<Longrightarrow> live_waiter d ?w1" using False by (simp add: live_waiter_def)
    ultimately show ?thesis using False lv1 [of d] by (intro served_mono [of d "k d" w ?w2]) auto
  qed
  then have "net_good k ?w2" using ok2 by (intro net_goodI) auto
  moreover have "snd (flush c w) = fire_on_discard c (items_of c w) ?w2"
    by (simp add: flush_def Let_def set_waiters_def set_items_def set_chan_def chan_at_def waiters_of_def items_of_def
        nth_upd c)
  ultimately show ?thesis by (simp add: net_keeps)
qed

lemma net_good_new: "net_good k (w\<lparr>n_chans := n_chans w @ [ch]\<rparr>)" if good: "net_good k w" and ch: "ch_waiters ch = []"
proof -
  let ?w = "w\<lparr>n_chans := n_chans w @ [ch]\<rparr>"
  have ok: "net_ok w" using good by (simp add: net_good_def)
  have wt: "waiters_of c ?w = (if c < n_chan w then waiters_of c w else if c = n_chan w then [] else waiters_of c ?w)" 
      "c < n_chan w \<Longrightarrow> items_of c ?w = items_of c w" for c
    using ch by (simp_all add: waiters_of_def items_of_def chan_at_def nth_append)
  have pk: "parked t f ?w = parked t f w" for t f by (simp add: parked_def)
  have "net_ok ?w" unfolding net_ok_def pk
    using net_ok_parked [OF ok] net_ok_distinct [OF ok] ok
    by (auto simp: less_Suc_eq wt elim!: net_ok_waiter [OF ok]) (auto simp: net_ok_def wt)
  moreover have "served c (k c) ?w" if "c < n_chan ?w" for c
  proof (cases "c < n_chan w")
    case True
    then show ?thesis using good by (simp add: net_good_def served_def flying_def live_waiter_def pk wt)
  next
    case False
    then show ?thesis using that wt(1) [of c] by (simp add: served_def live_waiter_def)
  qed
  ultimately show ?thesis by (simp add: net_good_def)
qed

lemma set_pc_done:
  assumes good: "net_good k w" and t: "t < length (n_tasks w)" and pc: "tk_pc (n_tasks w ! t) = Finished x"
  shows "net_good k (set_pc t Spent w)" and "chan_of t w < n_chan w"
proof -
  have ok: "net_ok w" and np: "\<not> parked t f w" for f using good pc by (simp_all add: net_good_def parked_def)
  show "net_good k (set_pc t Spent w)"
    by (rule net_goodI, rule set_pc_ok(1) [OF ok t], use np in simp_all, rule served_set_pc(3) [OF ok t])
      (use np good in \<open>auto simp: net_good_def\<close>)
  show "chan_of t w < n_chan w" using ok t by (simp add: net_ok_def)
qed

lemma net_good_settle:
  assumes "net_good k w" "t < length (n_tasks w)"
  shows "net_good k (deliver t w)" and "loop_of t w \<notin> n_closed w \<Longrightarrow> net_good k (give_back t w)"
  using assms set_pc_done [OF assms]
  by (auto simp: deliver_def give_back_def fire_on_get_def net_keeps open_loop_def intro!: net_good_restore split: pc.split)

lemma net_good_close:
  assumes good: "net_good k w" and e: "enabled (A_close l) w"
  shows "net_good k (w\<lparr>n_closed := insert l (n_closed w)\<rparr>)" (is "net_good k ?w")
proof -
  have ok: "net_ok w" using good by (simp add: net_good_def)
  have pk: "parked t f ?w = parked t f w" for t f by (simp add: parked_def)
  have "net_ok ?w" using ok net_ok_parked(3) [OF ok] unfolding net_ok_def pk by simp blast
  moreover have "flying c w \<subseteq> flying c ?w" for c
  proof
    fix t assume t: "t \<in> flying c w"
    then obtain f where "parked t f w" "f \<notin> set (waiters_of (chan_of t w) w)" by (auto simp: flying_def)
    then have "in_flight t w" "t < length (n_tasks w)" by (simp_all add: in_flight_def parked_def)
    then have "loop_of t w \<noteq> l" using e by (auto simp: enabled_def list_all_iff)
    then show "t \<in> flying c ?w" using t by (simp add: flying_def pk)
  qed
  moreover have "live_waiter c ?w \<Longrightarrow> live_waiter c w" for c by (auto simp: live_waiter_def)
  ultimately show ?thesis using good served_mono [of _ "k _" w ?w] by (auto simp: net_good_def)
qed

lemma net_step_plain:
  assumes "net_good k w" and "enabled a w" and "\<And>t. a = A_run t \<Longrightarrow> tk_pc (n_tasks w ! t) \<noteq> Testing"
  shows "net_good k (net_step a w)"
proof (cases a)
  case (A_new name m e)
  have "net_good k (w\<lparr>n_chans := n_chans w @ [ch]\<rparr>)" if "chan_init name m e = Inr ch" for ch
    by (rule net_good_new [OF assms(1)]) (use that in \<open>auto simp: chan_init_def split: if_splits\<close>)
  then show ?thesis using A_new assms by (simp add: net_step_def split: sum.split)
next
  case (A_put r c x)
  then show ?thesis using assms by (auto simp: net_step_def enabled_def intro: net_good_put)
next
  case (A_soon i)
  then show ?thesis using assms by (auto simp: net_step_def enabled_def intro: net_good_soon)
next
  case (A_start c l fires)
  then show ?thesis using assms by (auto simp: net_step_def enabled_def intro: net_good_start)
next
  case (A_run t)
  then show ?thesis using assms by (auto simp: net_step_def enabled_def intro: net_good_run)
next
  case (A_test t)
  then show ?thesis using assms by (auto simp: net_step_def enabled_def intro: net_good_test)
next
  case (A_cancel t)
  then show ?thesis using assms by (auto simp: net_step_def enabled_def intro: net_good_cancel)
next
  case (A_give_back t)
  then show ?thesis using assms by (auto simp: net_step_def enabled_def intro: net_good_settle)
next
  case (A_deliver t)
  then show ?thesis using assms by (auto simp: net_step_def enabled_def intro: net_good_settle)
next
  case (A_flush c)
  then show ?thesis using assms by (auto simp: net_step_def enabled_def intro: net_good_flush)
next
  case (A_close l)
  then show ?thesis using assms net_good_close by (simp add: net_step_def)
qed (use assms net_good_sync in \<open>simp_all add: net_step_def\<close>)

text \<open>
  The items that a turn ended by \<open>a\<close> leaves in the channel although its test found none, and their number
  in a whole run: another thread put them between the test and the queueing of the waiter.
\<close>

definition late_items :: "nat \<Rightarrow> 'a act \<Rightarrow> 'a net \<Rightarrow> nat" where
  "late_items c a w =
     (case a of
        A_run t \<Rightarrow> (if tk_pc (n_tasks w ! t) = Testing \<and> chan_of t w = c then length (items_of c w) else 0)
      | _ \<Rightarrow> 0)"

fun late :: "nat \<Rightarrow> 'a act list \<Rightarrow> 'a net \<Rightarrow> nat" where
  "late c [] w = 0"
| "late c (a # as) w = late_items c a w + late c as (net_step a w)"

lemma net_good_more: "net_good k w \<Longrightarrow> (\<And>c. k c \<le> k' c) \<Longrightarrow> net_good k' w"
  unfolding net_good_def served_def by (meson add_left_mono order_trans)

lemma net_step_good:
  assumes good: "net_good k w" and e: "enabled a w"
  shows "net_good (\<lambda>c. k c + late_items c a w) (net_step a w)"
proof (cases "\<exists>t. a = A_run t \<and> tk_pc (n_tasks w ! t) = Testing")
  case True
  then obtain t where t: "a = A_run t" "tk_pc (n_tasks w ! t) = Testing" by blast
  have "t < length (n_tasks w)" using e t(1) by (simp add: enabled_def)
  from net_good_late [OF good this t(2), of "\<lambda>c. k c + late_items c a w"] t show ?thesis
    by (simp add: net_step_def late_items_def)
next
  case False
  then have "net_good k (net_step a w)" by (intro net_step_plain [OF good e]) blast
  then show ?thesis by (rule net_good_more) simp
qed

lemma net_run_good:
  "net_good k w \<Longrightarrow> valid_run enabled net_step as w \<Longrightarrow> net_good (\<lambda>c. k c + late c as w) (fold net_step as w)"
proof (induction as arbitrary: k w)
  case (Cons a as)
  have "net_good (\<lambda>c. k c + late_items c a w) (net_step a w)"
    by (rule net_step_good) (use Cons.prems in simp_all)
  from Cons.IH [OF this] Cons.prems(2) show ?case by (simp add: add.assoc)
qed simp

lemma net_good_ok: "net_good k w \<Longrightarrow> net_ok w"
  by (simp add: net_good_def)

text \<open>Turns that nothing interrupts leave nothing behind.\<close>

definition no_testing :: "'a net \<Rightarrow> bool" where
  "no_testing w = list_all (\<lambda>tk. tk_pc tk \<noteq> Testing) (n_tasks w)"

fun whole_turns :: "'a act \<Rightarrow> bool" where
  "whole_turns (A_test t) = False"
| "whole_turns _ = True"

lemma no_testing_init: "no_testing net_init"
  by (simp add: no_testing_def net_init_def)

lemma no_testing_set_pc: "no_testing w \<Longrightarrow> p \<noteq> Testing \<Longrightarrow> no_testing (set_pc t p w)"
  by (auto simp: no_testing_def set_pc_def list_all_length nth_upd)

lemma no_testing_same: "no_testing w \<Longrightarrow> n_tasks w' = n_tasks w \<Longrightarrow> no_testing w'"
  by (simp add: no_testing_def)

lemma no_testing_run:
  assumes "no_testing w"
  shows "no_testing (run_task t w)"
proof -
  have p: "no_testing (park t w)"
    by (rule no_testing_same [OF no_testing_set_pc [OF assms, of "Parked (length (n_futs w))" t]])
      (simp_all add: park_def Let_def set_pc_def)
  have "no_testing (take_head t w)"
    by (rule no_testing_same [OF no_testing_set_pc [OF assms, of "Finished (hd (items_of (chan_of t w) w))" t]])
      (simp_all add: take_head_def Let_def set_pc_def fire_on_get_def)
  moreover have "no_testing (abort_wait t f w)" for f
    by (rule no_testing_same [OF no_testing_set_pc [OF assms, of Aborted t]])
      (simp_all add: abort_wait_def Let_def set_pc_def)
  ultimately show ?thesis using p assms no_testing_set_pc [OF assms, of Aborted t]
    by (simp add: run_task_def drain_turn_def split: pc.split)
qed

lemma no_testing_step:
  assumes nt: "no_testing w" and "whole_turns a"
  shows "no_testing (net_step a w)"
proof (cases a)
  case (A_run t)
  then show ?thesis using no_testing_run [OF nt] by (simp add: net_step_def)
next
  case (A_cancel t)
  have "no_testing (cancel_task t w)"
    using nt by (auto simp: no_testing_def cancel_task_def Let_def list_all_length nth_upd split: pc.split)
  then show ?thesis using A_cancel by (simp add: net_step_def)
next
  case (A_start c l fires)
  then show ?thesis using nt by (simp add: no_testing_def net_step_def keep_def start_drain_def)
next
  case (A_give_back t)
  from nt no_testing_set_pc [OF nt, of Spent t] show ?thesis using A_give_back
    by (auto simp: net_step_def give_back_def restore_front_def no_testing_def split: pc.split)
next
  case (A_deliver t)
  from nt no_testing_set_pc [OF nt, of Spent t] show ?thesis using A_deliver
    by (auto simp: net_step_def deliver_def fire_on_get_def no_testing_def split: pc.split)
qed (use assms in \<open>auto simp: net_step_def keep_def put_def drain_def pop_last_def remove_item_def clear_def flush_def
    fold_fire fire_on_discard_def run_soon_def Let_def no_testing_def split: sum.split mode.split\<close>)

lemma late_whole_turns:
  "no_testing w \<Longrightarrow> valid_run enabled net_step as w \<Longrightarrow> list_all whole_turns as \<Longrightarrow> late c as w = 0"
proof (induction as arbitrary: w)
  case (Cons a as)
  have "late_items c a w = 0"
    using Cons.prems by (cases a) (auto simp: late_items_def enabled_def no_testing_def list_all_length)
  moreover have "no_testing (net_step a w)" by (rule no_testing_step) (use Cons.prems in simp_all)
  ultimately show ?case using Cons.IH [of "net_step a w"] Cons.prems by simp
qed simp

lemma net_good_exists: "net_ok w \<Longrightarrow> net_good (\<lambda>c. length (items_of c w)) w"
  by (simp add: net_good_def served_def)

lemma net_ok_step: "net_ok w \<Longrightarrow> enabled a w \<Longrightarrow> net_ok (net_step a w)"
  by (rule net_good_ok [OF net_step_good [OF net_good_exists]])

lemma net_ok_init: "net_ok net_init"
  by (rule net_good_ok [OF net_good_init])

interpretation chan_run: step_invariant enabled net_step net_ok
  by unfold_locales (rule net_ok_step)

section \<open>No wake-up is lost\<close>

text \<open>Nothing is left to run: no task can go on and no callback waits.\<close>

definition quiet :: "'a net \<Rightarrow> bool" where
  "quiet w \<longleftrightarrow> n_soon w = [] \<and> list_all (\<lambda>t. \<not> runnable t w) [0..<length (n_tasks w)]"

lemma quiet_parked:
  assumes good: "net_good k w" and q: "quiet w" and pt: "parked t f w" and l: "loop_of t w \<notin> n_closed w"
  shows "length (items_of (chan_of t w) w) \<le> k (chan_of t w)"
proof -
  let ?c = "chan_of t w"
  have ok: "net_ok w" using good by (simp add: net_good_def)
  have stuck: "fu_state (n_futs w ! g) = Pending" if "parked u g w" "loop_of u w \<notin> n_closed w" for u g
    using q that by (auto simp: quiet_def list_all_iff runnable_def parked_def)
  have queued: "g \<in> set (waiters_of (chan_of u w) w)" if "parked u g w" "loop_of u w \<notin> n_closed w" for u g
    using net_ok_parked(3) [OF ok that(1)] stuck [OF that] that q by (auto simp: quiet_def)
  have "u \<notin> flying ?c w" for u
  proof
    assume "u \<in> flying ?c w"
    then obtain g where "parked u g w" "g \<notin> set (waiters_of ?c w)" "chan_of u w = ?c" "loop_of u w \<notin> n_closed w"
      unfolding flying_def by blast
    then show False using queued [of u g] by simp
  qed
  then have "flying ?c w = {}" by blast
  moreover have "live_waiter ?c w"
    using queued [OF pt l] stuck [OF pt l] net_ok_parked(2) [OF ok pt] l by (auto simp: live_waiter_def)
  moreover have "served ?c (k ?c) w" using good net_ok_parked(5) [OF ok pt] by (simp add: net_good_def)
  ultimately show ?thesis by (simp add: served_def)
qed

section \<open>No item is lost or doubled\<close>

fun put_item :: "nat \<Rightarrow> 'a entry \<Rightarrow> 'a list" where
  "put_item c (Put d x) = (if d = c then [x] else [])"
| "put_item c _ = []"

fun left_item :: "nat \<Rightarrow> 'a entry \<Rightarrow> 'a list" where
  "left_item c (Consumed d x) = (if d = c then [x] else [])"
| "left_item c (Discarded d xs) = (if d = c then xs else [])"
| "left_item c (Withdrawn d x) = (if d = c then [x] else [])"
| "left_item c _ = []"

text \<open>Items put into a channel, and items that left it, in order.\<close>

definition puts :: "nat \<Rightarrow> 'a net \<Rightarrow> 'a list" where
  "puts c w = concat (map (put_item c) (n_notes w))"

definition gone :: "nat \<Rightarrow> 'a net \<Rightarrow> 'a list" where
  "gone c w = concat (map (left_item c) (n_notes w))"

text \<open>A drain of a race holds its item until the race delivers it or gives it back.\<close>

definition held_item :: "nat \<Rightarrow> 'a task \<Rightarrow> 'a multiset" where
  "held_item c tk = (case tk_pc tk of
     Finished x \<Rightarrow> if tk_chan tk = c \<and> \<not> tk_fires tk then {#x#} else {#} | _ \<Rightarrow> {#})"

definition in_hand :: "nat \<Rightarrow> 'a net \<Rightarrow> 'a multiset" where
  "in_hand c w = (\<Sum>tk \<leftarrow> n_tasks w. held_item c tk)"

definition stock :: "nat \<Rightarrow> 'a net \<Rightarrow> 'a list" where
  "stock c w = (if c < n_chan w then items_of c w else [])"

text \<open>Channel \<open>c\<close> has only plain consumers and no item was taken back.\<close>

definition plain :: "nat \<Rightarrow> 'a net \<Rightarrow> bool" where
  "plain c w \<longleftrightarrow> list_all (\<lambda>n. case n of Withdrawn d x \<Rightarrow> d \<noteq> c | _ \<Rightarrow> True) (n_notes w) \<and>
     list_all (\<lambda>tk. tk_chan tk = c \<longrightarrow> tk_fires tk) (n_tasks w)"

text \<open>What a step does to channel \<open>c\<close>: items \<open>ps\<close> come in, items \<open>gs\<close> leave.\<close>

definition moves :: "nat \<Rightarrow> 'a net \<Rightarrow> 'a net \<Rightarrow> bool" where
  "moves c w w' \<longleftrightarrow> (\<exists>ps gs. puts c w' = puts c w @ ps \<and> gone c w' = gone c w @ gs \<and>
     mset (stock c w') + in_hand c w' + mset gs = mset (stock c w) + in_hand c w + mset ps \<and>
     (plain c w' \<longrightarrow> plain c w \<and> gs @ stock c w' = stock c w @ ps))"

lemma movesI:
  "puts c w' = puts c w @ ps \<Longrightarrow> gone c w' = gone c w @ gs \<Longrightarrow>
   mset (stock c w') + in_hand c w' + mset gs = mset (stock c w) + in_hand c w + mset ps \<Longrightarrow>
   (plain c w' \<Longrightarrow> plain c w \<and> gs @ stock c w' = stock c w @ ps) \<Longrightarrow> moves c w w'"
  unfolding moves_def by blast

lemma moves_same:
  "puts c w' = puts c w \<Longrightarrow> gone c w' = gone c w \<Longrightarrow> stock c w' = stock c w \<Longrightarrow> in_hand c w' = in_hand c w \<Longrightarrow>
   (plain c w' \<Longrightarrow> plain c w) \<Longrightarrow> moves c w w'"
  by (rule movesI [of _ _ _ "[]" "[]"]) simp_all

lemma puts_record [simp]: "puts c (record_note n w) = puts c w @ put_item c n"
    "gone c (record_note n w) = gone c w @ left_item c n" "in_hand c (record_note n w) = in_hand c w"
  by (simp_all add: puts_def gone_def in_hand_def)

lemma puts_set [simp]:
  "puts c (set_items d xs w) = puts c w" "puts c (set_waiters d fs w) = puts c w" "puts c (set_pc t p w) = puts c w"
  "puts c (wake_next_waiter r d w) = puts c w"
  "gone c (set_items d xs w) = gone c w" "gone c (set_waiters d fs w) = gone c w" "gone c (set_pc t p w) = gone c w"
  "gone c (wake_next_waiter r d w) = gone c w"
  "in_hand c (set_items d xs w) = in_hand c w" "in_hand c (set_waiters d fs w) = in_hand c w"
  "in_hand c (wake_next_waiter r d w) = in_hand c w"
  "puts c (w\<lparr>n_futs := fu\<rparr>) = puts c w" "gone c (w\<lparr>n_futs := fu\<rparr>) = gone c w" "in_hand c (w\<lparr>n_futs := fu\<rparr>) = in_hand c w"
  "puts c (w\<lparr>n_soon := so\<rparr>) = puts c w" "gone c (w\<lparr>n_soon := so\<rparr>) = gone c w" "in_hand c (w\<lparr>n_soon := so\<rparr>) = in_hand c w"
  "puts c (w\<lparr>n_closed := cl\<rparr>) = puts c w" "gone c (w\<lparr>n_closed := cl\<rparr>) = gone c w" "in_hand c (w\<lparr>n_closed := cl\<rparr>) = in_hand c w"
  "puts c (w\<lparr>n_tasks := ts\<rparr>) = puts c w" "gone c (w\<lparr>n_tasks := ts\<rparr>) = gone c w"
  by (simp_all add: puts_def gone_def in_hand_def)

lemma sum_list_update:
  fixes h :: "'b \<Rightarrow> 'm::comm_monoid_add"
  assumes "t < length xs"
  shows "(\<Sum>x \<leftarrow> xs[t := v]. h x) + h (xs ! t) = (\<Sum>x \<leftarrow> xs. h x) + h v"
proof -
  have "xs = take t xs @ xs ! t # drop (Suc t) xs" using assms by (rule id_take_nth_drop)
  then have a: "(\<Sum>x \<leftarrow> xs. h x) = (\<Sum>x \<leftarrow> take t xs. h x) + (h (xs ! t) + (\<Sum>x \<leftarrow> drop (Suc t) xs. h x))"
    by (metis list.simps(9) map_append sum_list.Cons sum_list_append)
  show ?thesis unfolding a upd_conv_take_nth_drop [OF assms] by (simp add: ac_simps)
qed

lemma in_hand_set_pc:
  assumes "t < length (n_tasks w)"
  shows "in_hand c (set_pc t p w) + held_item c (n_tasks w ! t) =
    in_hand c w + held_item c ((n_tasks w ! t)\<lparr>tk_pc := p\<rparr>)"
  unfolding in_hand_def set_pc_def using sum_list_update [OF assms, of "held_item c"] by simp

lemma in_hand_free:
  assumes "t < length (n_tasks w)" and "\<And>x. tk_pc (n_tasks w ! t) \<noteq> Finished x"
  shows "in_hand c (set_pc t p w) = in_hand c w + held_item c ((n_tasks w ! t)\<lparr>tk_pc := p\<rparr>)"
proof -
  have "held_item c (n_tasks w ! t) = {#}" using assms(2) by (simp add: held_item_def split: pc.split)
  then show ?thesis using in_hand_set_pc [OF assms(1), of c p] by simp
qed

lemma held_simps [simp]: "held_item c (tk\<lparr>tk_pc := Spent\<rparr>) = {#}" "held_item c (tk\<lparr>tk_pc := Aborted\<rparr>) = {#}"
    "held_item c (tk\<lparr>tk_pc := Parked f\<rparr>) = {#}"
  by (simp_all add: held_item_def)

lemma stock_set [simp]:
  "stock c (set_items d xs w) = (if c = d \<and> c < n_chan w then xs else stock c w)"
  "stock c (set_waiters d fs w) = stock c w" "stock c (set_pc t p w) = stock c w" "stock c (record_note n w) = stock c w"
  "stock c (wake_next_waiter r d w) = stock c w" "stock c (w\<lparr>n_futs := fu\<rparr>) = stock c w"
  "stock c (w\<lparr>n_soon := so\<rparr>) = stock c w" "stock c (w\<lparr>n_closed := cl\<rparr>) = stock c w" "stock c (w\<lparr>n_tasks := ts\<rparr>) = stock c w"
  by (simp_all add: stock_def)

lemma plain_set [simp]:
  "plain c (set_items d xs w) = plain c w" "plain c (set_waiters d fs w) = plain c w"
  "plain c (wake_next_waiter r d w) = plain c w" "plain c (w\<lparr>n_futs := fu\<rparr>) = plain c w"
  "plain c (w\<lparr>n_soon := so\<rparr>) = plain c w" "plain c (w\<lparr>n_closed := cl\<rparr>) = plain c w"
  "plain c (record_note n w) = (plain c w \<and> (case n of Withdrawn d x \<Rightarrow> d \<noteq> c | _ \<Rightarrow> True))"
  by (auto simp: plain_def)

lemma plain_set_pc [simp]: "t < length (n_tasks w) \<Longrightarrow> plain c (set_pc t p w) = plain c w"
  by (auto simp: plain_def set_pc_def list_all_length nth_list_update)

lemma plain_fires: "plain c w \<Longrightarrow> t < length (n_tasks w) \<Longrightarrow> chan_of t w = c \<Longrightarrow> tk_fires (n_tasks w ! t)"
  by (auto simp: plain_def list_all_length)

lemma moves_take:
  assumes "t < length (n_tasks w)" "\<And>x. tk_pc (n_tasks w ! t) \<noteq> Finished x"
    "items_of (chan_of t w) w \<noteq> []" "chan_of t w < n_chan w"
  shows "moves c w (take_head t w)"
proof -
  let ?w = "set_items (chan_of t w) (tl (items_of (chan_of t w) w)) w"
  obtain x xs where xs: "items_of (chan_of t w) w = x # xs" using assms(3) by (cases "items_of (chan_of t w) w") auto
  have h: "in_hand c (set_pc t (Finished x) ?w) = in_hand c w + held_item c ((n_tasks w ! t)\<lparr>tk_pc := Finished x\<rparr>)"
    using in_hand_free [of t ?w c "Finished x"] assms by simp
  show ?thesis
    by (rule movesI [of _ _ _ "[]" "if chan_of t w = c \<and> tk_fires (n_tasks w ! t) then [x] else []"])
      (use assms xs h plain_fires [of c w t] in \<open>auto simp: take_head_def Let_def fire_on_get_def held_item_def stock_def split: if_splits\<close>)
qed

lemma moves_park:
  assumes "t < length (n_tasks w)" "\<And>x. tk_pc (n_tasks w ! t) \<noteq> Finished x"
  shows "moves c w (park t w)"
proof -
  let ?w = "set_waiters (chan_of t w) (waiters_of (chan_of t w) w @ [length (n_futs w)])
      (w\<lparr>n_futs := n_futs w @ [\<lparr>fu_loop = loop_of t w, fu_state = Pending\<rparr>]\<rparr>)"
  have "in_hand c (set_pc t (Parked (length (n_futs w))) ?w) = in_hand c w"
    using in_hand_free [of t ?w c "Parked (length (n_futs w))"] assms by simp
  then show ?thesis using assms by (intro moves_same) (simp_all add: park_def Let_def)
qed

lemma moves_abort:
  assumes "t < length (n_tasks w)" "tk_pc (n_tasks w ! t) = Parked f"
  shows "moves c w (abort_wait t f w)"
proof -
  have "in_hand c (set_pc t Aborted w') = in_hand c w'" if "n_tasks w' = n_tasks w" for w'
    using in_hand_free [of t w' c Aborted] assms that by simp
  then show ?thesis using assms by (intro moves_same) (simp_all add: abort_wait_def Let_def split: if_splits)
qed

lemma moves_run:
  assumes ok: "net_ok w" and t: "t < length (n_tasks w)"
  shows "moves c w (run_task t w)"
proof -
  have c: "chan_of t w < n_chan w" using ok t by (simp add: net_ok_def)
  have turn: "moves c w (drain_turn t w)" if "\<And>x. tk_pc (n_tasks w ! t) \<noteq> Finished x"
    using moves_take [OF t that] moves_park [OF t that] c by (simp add: drain_turn_def)
  have "moves c w (set_pc t Aborted w)" if "tk_pc (n_tasks w ! t) = Fresh"
    using that t in_hand_free [of t w c Aborted] by (intro moves_same) simp_all
  moreover have "moves c w (park t w)" if "tk_pc (n_tasks w ! t) = Testing" using moves_park [OF t] that by simp
  ultimately show ?thesis using turn moves_abort [OF t] by (auto simp: run_task_def intro: moves_same split: pc.split)
qed

lemma in_hand_spent:
  assumes "t < length (n_tasks w)" "tk_pc (n_tasks w ! t) = Finished x" "\<not> tk_fires (n_tasks w ! t)"
  shows "in_hand c w = in_hand c (set_pc t Spent w) + (if chan_of t w = c then {#x#} else {#})"
  using in_hand_set_pc [OF assms(1), of c Spent] assms(2,3) by (simp add: held_item_def)

lemma moves_settle:
  assumes ok: "net_ok w" and t: "t < length (n_tasks w)" "\<not> tk_fires (n_tasks w ! t)"
  shows "moves c w (give_back t w)" and "moves c w (deliver t w)"
proof -
  have c: "chan_of t w < n_chan w" using ok t by (simp add: net_ok_def)
  have "moves c w (give_back t w) \<and> moves c w (deliver t w)"
  proof (cases "tk_pc (n_tasks w ! t)")
    case (Finished x)
    note sp = in_hand_spent [OF t(1) Finished t(2), of c]
    have np: "\<not> plain c w" if "chan_of t w = c" using plain_fires [OF _ t(1) that] t(2) by blast
    have "moves c w (give_back t w)"
      by (rule movesI [of _ _ _ "[]" "[]"])
        (use Finished sp np c t in \<open>auto simp: give_back_def restore_front_def stock_def\<close>)
    moreover have "moves c w (deliver t w)"
      by (rule movesI [of _ _ _ "[]" "if chan_of t w = c then [x] else []"])
        (use Finished sp np c t in \<open>auto simp: deliver_def fire_on_get_def\<close>)
    ultimately show ?thesis by blast
  qed (auto simp: give_back_def deliver_def intro: moves_same)
  then show "moves c w (give_back t w)" "moves c w (deliver t w)" by blast+
qed

lemma notes_fire: "n_tasks (fold (fire_on_get c) xs w) = n_tasks w" "n_chans (fold (fire_on_get c) xs w) = n_chans w"
  "n_notes (fold (fire_on_get c) xs w) = n_notes w @ map (Consumed c) xs"
  by (simp_all add: fold_fire)

lemma left_consumed: "concat (map (\<lambda>x. left_item c (Consumed d x)) xs) = (if d = c then xs else [])"
    "concat (map (\<lambda>x. put_item c (Consumed d x)) xs) = []"
  by (induction xs) simp_all

lemma moves_sync:
  assumes d: "d < n_chan w"
  shows "moves c w (snd (drain d w))" "moves c w (snd (pop_last d w))" "moves c w (snd (remove_item d x w))"
    "moves c w (clear d w)" "moves c w (snd (flush d w))"
proof -
  let ?xs = "items_of d w" and ?gs = "if d = c then items_of d w else []"
  show "moves c w (snd (drain d w))"
  proof (cases "ch_mode (chan_at d w) = Queue_mode")
    case True
    let ?w = "fold (fire_on_get d) ?xs w"
    have "stock c (set_items d [] ?w) = (if c = d then [] else stock c w)" using d
      by (auto simp: stock_def notes_fire items_of_def chan_at_def set_items_def set_chan_def nth_upd)
    moreover have "in_hand c (set_items d [] ?w) = in_hand c w" by (simp add: in_hand_def notes_fire)
    moreover have "plain c (set_items d [] ?w) = plain c w" by (auto simp: plain_def notes_fire list_all_iff)
    ultimately show ?thesis using True d
      by (intro movesI [of _ _ _ "[]" ?gs])
        (auto simp: drain_def puts_def gone_def notes_fire comp_def left_consumed stock_def)
  qed (simp add: drain_def moves_same)
  show "moves c w (snd (pop_last d w))"
  proof (cases "?xs = []")
    case False
    then have "mset ?xs = add_mset (last ?xs) (mset (butlast ?xs))"
      by (metis append_butlast_last_id mset.simps(2) union_code union_mset_add_mset_right add.right_neutral mset.simps(1) mset_append)
    with False show ?thesis using d
      by (intro movesI [of _ _ _ "[]" "if d = c then [last ?xs] else []"]) (auto simp: pop_last_def stock_def split: if_splits)
  qed (simp add: pop_last_def moves_same)
  show "moves c w (snd (remove_item d x w))"
    using d by (intro movesI [of _ _ _ "[]" "if d = c \<and> x \<in> set ?xs then [x] else []"])
      (auto simp: remove_item_def stock_def split: if_splits)
  show "moves c w (clear d w)"
    using d by (intro movesI [of _ _ _ "[]" ?gs]) (auto simp: clear_def fire_on_discard_def stock_def split: if_splits)
  show "moves c w (snd (flush d w))"
    using d by (intro movesI [of _ _ _ "[]" ?gs]) (auto simp: flush_def Let_def fire_on_discard_def stock_def split: if_splits)
qed

lemma moves_put: "d < n_chan w \<Longrightarrow> moves c w (keep w (put r d x w))"
  by (rule movesI [of _ _ _ "if d = c \<and> ch_mode (chan_at d w) = Queue_mode then [x] else []" "[]"])
    (auto simp: put_def keep_def stock_def split: mode.split if_splits)

lemma moves_step:
  assumes good: "net_ok w" and e: "enabled a w"
  shows "moves c w (net_step a w)"
proof -
  have ok: "net_ok w" using good by simp
  show ?thesis
  proof (cases a)
    case (A_new name m e)
    have "moves c w (w\<lparr>n_chans := n_chans w @ [ch]\<rparr>)" if "chan_init name m e = Inr ch" for ch
      using that by (intro moves_same) (auto simp: puts_def gone_def in_hand_def plain_def stock_def items_of_def
          chan_at_def nth_append chan_init_def split: if_splits)
    then show ?thesis using A_new by (simp add: net_step_def moves_same split: sum.split)
  next
    case (A_put r d x)
    then show ?thesis using e by (auto simp: net_step_def enabled_def intro: moves_put)
  next
    case (A_soon i)
    then show ?thesis by (intro moves_same) (simp_all add: net_step_def run_soon_def)
  next
    case (A_start d l fires)
    then show ?thesis by (intro moves_same)
      (simp_all add: net_step_def start_drain_def keep_def in_hand_def held_item_def plain_def split: if_splits)
  next
    case (A_run t)
    then show ?thesis using e moves_run [OF ok] by (simp add: net_step_def enabled_def)
  next
    case (A_test t)
    then have t: "t < length (n_tasks w)" "\<And>x. tk_pc (n_tasks w ! t) \<noteq> Finished x"
      using e by (auto simp: enabled_def starts_turn_def)
    have "moves c w (find_empty t w)"
      using in_hand_free [OF t, of c Testing] t(1) by (intro moves_same) (simp_all add: find_empty_def held_item_def)
    then show ?thesis using A_test by (simp add: net_step_def)
  next
    case (A_cancel t)
    have "map (held_item c) ((n_tasks w)[t := (n_tasks w ! t)\<lparr>tk_cancel := True\<rparr>]) = map (held_item c) (n_tasks w)"
      by (rule nth_equalityI) (auto simp: nth_upd held_item_def split: pc.split)
    moreover have "list_all (\<lambda>tk. tk_chan tk = c \<longrightarrow> tk_fires tk) ((n_tasks w)[t := (n_tasks w ! t)\<lparr>tk_cancel := True\<rparr>]) =
      list_all (\<lambda>tk. tk_chan tk = c \<longrightarrow> tk_fires tk) (n_tasks w)"
      by (auto simp: list_all_length nth_upd split: if_splits)
    ultimately have "moves c w (cancel_task t w)"
      by (intro moves_same) (simp_all add: cancel_task_def Let_def in_hand_def plain_def split: pc.splits if_splits)
    then show ?thesis using A_cancel by (simp add: net_step_def)
  next
    case (A_give_back t)
    then show ?thesis using e moves_settle [OF ok] by (simp add: net_step_def enabled_def)
  next
    case (A_deliver t)
    then show ?thesis using e moves_settle [OF ok] by (simp add: net_step_def enabled_def)
  next
    case (A_close l)
    then show ?thesis by (intro moves_same) (simp_all add: net_step_def)
  qed (use e moves_sync in \<open>simp_all add: net_step_def enabled_def\<close>)
qed

text \<open>The balance of all channels, as an invariant of every step.\<close>

definition tallied :: "'a net \<Rightarrow> bool" where
  "tallied w \<longleftrightarrow> net_ok w \<and> (\<forall>c. mset (puts c w) = mset (stock c w) + in_hand c w + mset (gone c w) \<and>
     (plain c w \<longrightarrow> puts c w = gone c w @ stock c w))"

lemma tallied_init: "tallied net_init"
  by (simp add: tallied_def net_ok_init) (simp add: net_init_def puts_def gone_def stock_def in_hand_def)

lemma tallied_step:
  assumes "tallied w" and "enabled a w"
  shows "tallied (net_step a w)"
proof -
  let ?w = "net_step a w"
  have "mset (puts c ?w) = mset (stock c ?w) + in_hand c ?w + mset (gone c ?w) \<and>
     (plain c ?w \<longrightarrow> puts c ?w = gone c ?w @ stock c ?w)" for c
  proof -
    obtain ps gs where m: "puts c ?w = puts c w @ ps" "gone c ?w = gone c w @ gs"
      "mset (stock c ?w) + in_hand c ?w + mset gs = mset (stock c w) + in_hand c w + mset ps"
      "plain c ?w \<longrightarrow> plain c w \<and> gs @ stock c ?w = stock c w @ ps"
      using moves_step [of w a c] assms unfolding tallied_def moves_def by blast
    have "mset (puts c ?w) = mset (gone c w) + (mset (stock c w) + in_hand c w + mset ps)"
      using assms by (simp add: tallied_def m(1) ac_simps)
    then have "mset (puts c ?w) = mset (gone c w) + (mset (stock c ?w) + in_hand c ?w + mset gs)"
      by (simp only: m(3))
    then have "mset (puts c ?w) = mset (stock c ?w) + in_hand c ?w + mset (gone c ?w)"
      by (simp add: m(2) ac_simps)
    moreover have "puts c ?w = gone c ?w @ stock c ?w" if "plain c ?w"
      using assms that m(4) by (simp add: tallied_def m(1,2))
    ultimately show ?thesis by blast
  qed
  then show ?thesis using assms net_ok_step [of w a] by (simp add: tallied_def)
qed

interpretation chan_tally: step_invariant enabled net_step tallied
  by unfold_locales (rule tallied_step)

section \<open>A cancelled consumer\<close>

text \<open>A consumer whose cancellation was requested while it waited, or before it ran.\<close>

definition doomed :: "nat \<Rightarrow> 'a net \<Rightarrow> bool" where
  "doomed t w \<longleftrightarrow> t < length (n_tasks w) \<and>
     (case tk_pc (n_tasks w ! t) of
        Fresh \<Rightarrow> tk_cancel (n_tasks w ! t)
      | Parked f \<Rightarrow> f < length (n_futs w) \<and> (fu_state (n_futs w ! f) = Cancelled \<or> tk_cancel (n_tasks w ! t))
      | Aborted \<Rightarrow> True
      | _ \<Rightarrow> False)"

definition still_cancelled :: "fut list \<Rightarrow> fut list \<Rightarrow> bool" where
  "still_cancelled futs futs' \<longleftrightarrow> length futs \<le> length futs' \<and>
     (\<forall>f < length futs. fu_state (futs ! f) = Cancelled \<longrightarrow> fu_state (futs' ! f) = Cancelled)"

lemma still_cancelled_refl [simp]: "still_cancelled futs futs"
  by (simp add: still_cancelled_def)

lemma still_cancelled_trans: "still_cancelled a b \<Longrightarrow> still_cancelled b c \<Longrightarrow> still_cancelled a c"
  unfolding still_cancelled_def by (meson order_trans order_less_le_trans)

lemma still_cancelled_set [simp]: "fu_state (futs ! f) = Pending \<Longrightarrow> still_cancelled futs (set_fut f st futs)"
  by (auto simp: still_cancelled_def set_fut_def nth_upd)

lemma still_cancelled_wake_from: "wake_from r cl futs fs = (fs', futs', soon) \<Longrightarrow> still_cancelled futs futs'"
  by (induction r cl futs fs arbitrary: fs' futs' soon rule: wake_from.induct) (auto split: if_splits)

lemma still_cancelled_wake [simp]: "n_futs w = futs \<Longrightarrow> still_cancelled futs (n_futs (wake_next_waiter r c w))"
  by (auto simp: wake_next_waiter_def split: prod.split dest: still_cancelled_wake_from)

lemma still_cancelled_waiters [simp]: "still_cancelled futs (fold cancel_waiter fs futs)"
  by (induction fs arbitrary: futs) (auto simp: cancel_waiter_def intro: still_cancelled_trans [OF still_cancelled_set])

text \<open>A step that leaves the task alone keeps it doomed.\<close>

lemma doomed_same:
  "doomed t w \<Longrightarrow> length (n_tasks w) \<le> length (n_tasks w') \<Longrightarrow> n_tasks w' ! t = n_tasks w ! t \<Longrightarrow>
   still_cancelled (n_futs w) (n_futs w') \<Longrightarrow> doomed t w'"
  by (auto simp: doomed_def still_cancelled_def split: pc.splits)

lemma doomed_run:
  assumes "doomed t w" "u < length (n_tasks w)"
  shows "doomed t (run_task u w)"
proof (cases "u = t")
  case True
  then show ?thesis using assms
    by (auto simp: doomed_def run_task_def abort_wait_def Let_def split: pc.splits)
next
  case False
  have t: "t < length (n_tasks w)" using assms by (simp add: doomed_def)
  have park: "still_cancelled (n_futs w) (n_futs (park u w))"
    by (auto simp: park_def Let_def still_cancelled_def nth_append)
  have "doomed t (drain_turn u w)"
    using assms t False park
    by (intro doomed_same [OF assms(1)])
      (auto simp: drain_turn_def take_head_def park_def Let_def fire_on_get_def)
  moreover have "doomed t (abort_wait u f w)" for f
    using assms t False by (intro doomed_same [OF assms(1)]) (auto simp: abort_wait_def Let_def)
  moreover have "doomed t (set_pc u Aborted w)"
    using assms t False by (intro doomed_same [OF assms(1)]) auto
  moreover have "doomed t (park u w)"
    using assms t False park by (intro doomed_same [OF assms(1)]) (auto simp: park_def Let_def)
  ultimately show ?thesis using assms by (auto simp: run_task_def split: pc.split)
qed

lemma doomed_test:
  assumes "doomed t w" "u < length (n_tasks w)" "starts_turn u w"
  shows "doomed t (find_empty u w)"
proof (cases "u = t")
  case True
  then show ?thesis using assms by (auto simp: doomed_def starts_turn_def split: pc.splits)
next
  case False
  then show ?thesis using assms(1) by (intro doomed_same [OF assms(1)]) (auto simp: find_empty_def doomed_def)
qed

lemma doomed_step:
  assumes "doomed t w" and "enabled a w"
  shows "doomed t (net_step a w)"
proof (cases a)
  case (A_run u)
  then show ?thesis using assms doomed_run by (auto simp: net_step_def enabled_def)
next
  case (A_test u)
  then show ?thesis using assms doomed_test by (auto simp: net_step_def enabled_def)
next
  case (A_cancel u)
  have "doomed t (cancel_task u w)"
  proof (cases "u = t")
    case True
    then show ?thesis using assms by (auto simp: doomed_def cancel_task_def Let_def split: pc.splits)
  next
    case False
    then show ?thesis
      by (intro doomed_same [OF assms(1)]) (auto simp: cancel_task_def Let_def nth_upd split: pc.splits)
  qed
  then show ?thesis using A_cancel by (simp add: net_step_def)
next
  case (A_start c l fires)
  then show ?thesis using assms by (intro doomed_same [OF assms(1)])
    (auto simp: net_step_def start_drain_def keep_def nth_append doomed_def)
next
  case (A_give_back u)
  then have "n_tasks (give_back u w) ! t = n_tasks w ! t"
    using assms by (cases "u = t") (auto simp: doomed_def enabled_def give_back_def restore_front_def split: pc.splits)
  then show ?thesis using A_give_back assms
    by (intro doomed_same [OF assms(1)]) (auto simp: net_step_def give_back_def restore_front_def enabled_def split: pc.splits)
next
  case (A_deliver u)
  then have "n_tasks (deliver u w) ! t = n_tasks w ! t"
    using assms by (cases "u = t") (auto simp: doomed_def enabled_def deliver_def fire_on_get_def split: pc.splits)
  then show ?thesis using A_deliver assms
    by (intro doomed_same [OF assms(1)]) (auto simp: net_step_def deliver_def fire_on_get_def enabled_def split: pc.splits)
qed (use assms in \<open>auto intro!: doomed_same [OF assms(1)] simp: net_step_def put_def keep_def run_soon_def safe_wake_def
    drain_def fold_fire pop_last_def remove_item_def clear_def fire_on_discard_def flush_def Let_def
    split: sum.split mode.split\<close>)

interpretation doomed_run: step_invariant enabled net_step "doomed t" for t
  by unfold_locales (rule doomed_step)

lemma cancel_dooms:
  assumes "net_ok w" "t < length (n_tasks w)" "tk_pc (n_tasks w ! t) = Fresh \<or> (\<exists>f. tk_pc (n_tasks w ! t) = Parked f)"
  shows "doomed t (cancel_task t w)"
  using assms net_ok_parked(1) [OF assms(1), of t]
  by (auto simp: doomed_def cancel_task_def Let_def parked_def nth_upd split: pc.splits)

section \<open>The event loops come to rest\<close>

text \<open>
  Without new calls, only tasks and callbacks run. Each run costs some of the effort that is left: a
  woken or new consumer counts four, one in the middle of a turn three, a waiting one two, a callback three.
\<close>

fun loop_act :: "'a act \<Rightarrow> bool" where
  "loop_act (A_run t) \<longleftrightarrow> True"
| "loop_act (A_test t) \<longleftrightarrow> True"
| "loop_act (A_soon i) \<longleftrightarrow> True"
| "loop_act _ \<longleftrightarrow> False"

fun pc_weight :: "fut list \<Rightarrow> 'a pc \<Rightarrow> nat" where
  "pc_weight futs Fresh = 4"
| "pc_weight futs Testing = 3"
| "pc_weight futs (Parked f) = (if fu_state (futs ! f) = Pending then 2 else 4)"
| "pc_weight futs _ = 0"

definition weight :: "nat \<Rightarrow> 'a net \<Rightarrow> nat" where
  "weight t w = pc_weight (n_futs w) (tk_pc (n_tasks w ! t))"

definition effort :: "'a net \<Rightarrow> nat" where
  "effort w = 3 * length (n_soon w) + (\<Sum>t < length (n_tasks w). weight t w)"

lemma sum_one:
  fixes g h :: "nat \<Rightarrow> nat"
  assumes "u < n" and "\<And>t. t < n \<Longrightarrow> t \<noteq> u \<Longrightarrow> g t \<le> h t" and "g u + a \<le> h u + b"
  shows "(\<Sum>t < n. g t) + a \<le> (\<Sum>t < n. h t) + b"
proof -
  have "(\<Sum>t \<in> {..<n} - {u}. g t) \<le> (\<Sum>t \<in> {..<n} - {u}. h t)" by (rule sum_mono) (use assms(2) in auto)
  moreover have "(\<Sum>t < n. g t) = g u + (\<Sum>t \<in> {..<n} - {u}. g t)" "(\<Sum>t < n. h t) = h u + (\<Sum>t \<in> {..<n} - {u}. h t)"
    using assms(1) by (simp_all add: sum.remove)
  ultimately show ?thesis using assms(3) by linarith
qed

text \<open>Waking a future concerns one task.\<close>

lemma weight_ready:
  assumes ok: "net_ok w" and f: "f < length (n_futs w)" and t: "n_tasks w' = n_tasks w"
    and futs: "n_futs w' = set_fut f Ready (n_futs w)"
  shows "(\<Sum>t < length (n_tasks w). weight t w') \<le> (\<Sum>t < length (n_tasks w). weight t w) + 2"
proof (cases "\<exists>u. parked u f w")
  case True
  then obtain u where u: "parked u f w" by blast
  have "(\<Sum>t < length (n_tasks w). weight t w') + 0 \<le> (\<Sum>t < length (n_tasks w). weight t w) + 2"
  proof (rule sum_one [of u])
    show "u < length (n_tasks w)" using u by (simp add: parked_def)
    show "weight t w' \<le> weight t w" if "t < length (n_tasks w)" "t \<noteq> u" for t
    proof (cases "tk_pc (n_tasks w ! t)")
      case (Parked g)
      then have "g \<noteq> f" using net_ok_parked(4) [OF ok u, of t] that by (auto simp: parked_def)
      then show ?thesis using Parked f by (simp add: weight_def t futs)
    qed (simp_all add: weight_def t)
    show "weight u w' + 0 \<le> weight u w + 2" using u f by (simp add: weight_def parked_def t futs)
  qed
  then show ?thesis by simp
next
  case False
  then have "weight t w' = weight t w" if "t < length (n_tasks w)" for t
    using f that by (cases "tk_pc (n_tasks w ! t)") (auto simp: weight_def t futs parked_def)
  then have "(\<Sum>t < length (n_tasks w). weight t w') = (\<Sum>t < length (n_tasks w). weight t w)" by (intro sum.cong) auto
  then show ?thesis by simp
qed

lemma effort_wake:
  assumes ok: "net_ok w" and c: "c < n_chan w" and r: "open_loop r w"
  shows "effort (wake_next_waiter r c w) \<le> effort w + 3"
proof -
  obtain fs futs soon where run: "wake_from r (n_closed w) (n_futs w) (waiters_of c w) = (fs, futs, soon)"
    using prod_cases3 by blast
  let ?w = "wake_next_waiter r c w"
  have w': "n_futs ?w = futs" "n_soon ?w = n_soon w @ soon" "n_tasks ?w = n_tasks w"
    by (simp_all add: wake_next_waiter_def run)
  have "\<And>l. r = Some l \<Longrightarrow> l \<notin> n_closed w" using r by (simp add: open_loop_def)
  from wake_from_cases [OF run this] consider (same) "futs = n_futs w" "length soon \<le> 1"
    | (ready) f where "f \<in> set (waiters_of c w)" "futs = set_fut f Ready (n_futs w)" "soon = []" by fastforce
  then show ?thesis
  proof cases
    case same
    then have "weight t ?w = weight t w" for t by (simp add: weight_def w')
    then show ?thesis using same by (simp add: effort_def w')
  next
    case (ready f)
    have "f < length (n_futs w)" by (rule net_ok_waiter [OF ok c ready(1)])
    from weight_ready [OF ok this w'(3)] show ?thesis using ready by (simp add: effort_def w')
  qed
qed

lemma effort_set_pc:
  assumes "t < length (n_tasks w)" and "\<And>f. p = Parked f \<Longrightarrow> fu_state (n_futs w ! f) = Pending" and "p \<noteq> Fresh"
    and "weight t w = 4" and "\<And>g. p = Parked g \<Longrightarrow> g < length (n_futs w)"
  shows "effort (set_pc t p w) < effort w"
proof -
  have "(\<Sum>u < length (n_tasks w). weight u (set_pc t p w)) + 1 \<le> (\<Sum>u < length (n_tasks w). weight u w) + 0"
  proof (rule sum_one [OF assms(1)])
    show "weight u (set_pc t p w) \<le> weight u w" if "u < length (n_tasks w)" "u \<noteq> t" for u
      using that by (simp add: weight_def)
    show "weight t (set_pc t p w) + 1 \<le> weight t w + 0"
      using assms by (cases p) (auto simp: weight_def)
  qed
  then show ?thesis by (simp add: effort_def)
qed

lemma effort_same:
  "n_tasks w' = n_tasks w \<Longrightarrow> n_futs w' = n_futs w \<Longrightarrow> n_soon w' = n_soon w \<Longrightarrow> effort w' = effort w \<and> weight t w' = weight t w"
  by (simp add: effort_def weight_def)

lemma wake_keeps_awake:
  assumes "fu_state (n_futs w ! f) \<noteq> Pending"
  shows "fu_state (n_futs (wake_next_waiter r c w) ! f) \<noteq> Pending"
proof -
  have "wake_from r cl futs fs = (fs', futs', soon) \<Longrightarrow> fu_state (futs ! f) \<noteq> Pending \<Longrightarrow> fu_state (futs' ! f) \<noteq> Pending"
    for cl futs fs fs' futs' soon
    by (induction r cl futs fs arbitrary: fs' futs' soon rule: wake_from.induct)
      (auto simp: set_fut_def nth_upd split: if_splits)
  then show ?thesis using assms by (auto simp: wake_next_waiter_def split: prod.split)
qed

lemma effort_abort:
  assumes ok: "net_ok w" and pt: "parked t f w" and st: "fu_state (n_futs w ! f) \<noteq> Pending" and l: "loop_of t w \<notin> n_closed w"
  shows "effort (abort_wait t f w) < effort w"
proof -
  let ?c = "chan_of t w"
  let ?w1 = "set_waiters ?c (remove1 f (waiters_of ?c w)) w"
  let ?w2 = "wake_next_waiter (Some (loop_of t w)) ?c ?w1"
  have t: "t < length (n_tasks w)" "tk_pc (n_tasks w ! t) = Parked f" using pt by (simp_all add: parked_def)
  have c: "?c < n_chan w" using ok t by (simp add: net_ok_def)
  have dist: "distinct (waiters_of ?c w)" by (rule net_ok_distinct [OF ok c])
  have "net_ok (?w1\<lparr>n_futs := n_futs w, n_soon := n_soon w\<rparr>)"
    by (rule net_ok_pop [OF ok c, of "if f \<in> set (waiters_of ?c w) then [f] else []"])
      (use st dist in \<open>auto split: if_splits\<close>)
  then have ok1: "net_ok ?w1" by (simp only: same_update access_set)
  have e1: "effort ?w1 = effort w" by (rule effort_same [THEN conjunct1]) simp_all
  have e2: "effort ?w2 \<le> effort w + 3"
    using effort_wake [OF ok1, of ?c "Some (loop_of t w)"] c l e1 by (simp add: open_loop_def)
  have drop: "effort (set_pc t Aborted v) + 4 = effort v"
    if v: "n_tasks v = n_tasks w" "fu_state (n_futs v ! f) \<noteq> Pending" for v
  proof -
    have "(\<Sum>u < length (n_tasks w). weight u (set_pc t Aborted v)) + 4 \<le> (\<Sum>u < length (n_tasks w). weight u v) + 0"
      by (rule sum_one [OF t(1)]) (use t v in \<open>simp_all add: weight_def\<close>)
    moreover have "(\<Sum>u < length (n_tasks w). weight u v) + 0 \<le> (\<Sum>u < length (n_tasks w). weight u (set_pc t Aborted v)) + 4"
      by (rule sum_one [OF t(1)]) (use t v in \<open>simp_all add: weight_def\<close>)
    ultimately show ?thesis using v by (simp add: effort_def)
  qed
  have "fu_state (n_futs ?w2 ! f) \<noteq> Pending" using wake_keeps_awake [of ?w1 f] st by simp
  then show ?thesis using drop [of ?w1] drop [of ?w2] e1 e2 st by (auto simp: abort_wait_def Let_def)
qed

lemma effort_park:
  assumes ok: "net_ok w" and t: "t < length (n_tasks w)" and wt: "3 \<le> weight t w"
  shows "effort (park t w) < effort w"
proof -
  have fut: "f < length (n_futs w)" if "parked u f w" for u f using net_ok_parked(1) [OF ok that] .
  have ta: "n_tasks (park t w) = n_tasks (set_pc t (Parked (length (n_futs w))) w)" "n_soon (park t w) = n_soon w"
    "n_futs (park t w) = n_futs w @ [\<lparr>fu_loop = loop_of t w, fu_state = Pending\<rparr>]"
    by (simp_all add: park_def Let_def set_pc_def)
  have "(\<Sum>u < length (n_tasks w). weight u (park t w)) + 1 \<le> (\<Sum>u < length (n_tasks w). weight u w) + 0"
  proof (rule sum_one [OF t])
    show "weight u (park t w) \<le> weight u w" if "u < length (n_tasks w)" "u \<noteq> t" for u
      using that fut [of u] by (cases "tk_pc (n_tasks w ! u)") (auto simp: weight_def ta nth_append parked_def)
    show "weight t (park t w) + 1 \<le> weight t w + 0" using t wt by (simp add: weight_def [of t "park t w"] ta nth_append)
  qed
  then show ?thesis by (simp add: effort_def ta)
qed

lemma effort_turn:
  assumes ok: "net_ok w" and t: "t < length (n_tasks w)" and wt: "weight t w = 4"
  shows "effort (drain_turn t w) < effort w"
proof -
  let ?c = "chan_of t w"
  have take: "effort (take_head t w) < effort w"
  proof -
    let ?w = "set_items ?c (tl (items_of ?c w)) w"
    have e: "effort ?w = effort w" "weight t ?w = weight t w" using effort_same [of ?w w t] by simp_all
    have "effort (set_pc t (Finished x) ?w) < effort ?w" for x by (rule effort_set_pc) (use t wt e in auto)
    moreover have "effort (fire_on_get c x v) = effort v" for c x and v :: "'a net"
      by (simp add: fire_on_get_def effort_def weight_def)
    ultimately show ?thesis using e by (simp add: take_head_def Let_def)
  qed
  have park: "effort (park t w) < effort w" by (rule effort_park [OF ok t]) (simp add: wt)
  show ?thesis using take park by (simp add: drain_turn_def)
qed

lemma effort_test:
  assumes t: "t < length (n_tasks w)" and r: "runnable t w" and st: "starts_turn t w"
  shows "effort (find_empty t w) < effort w"
proof -
  have "weight t w = 4" using r st by (auto simp: starts_turn_def weight_def split: pc.splits if_splits)
  then show ?thesis unfolding find_empty_def by (intro effort_set_pc) (use t in auto)
qed

lemma effort_run:
  assumes good: "net_ok w" and t: "t < length (n_tasks w)" and r: "runnable t w"
  shows "effort (run_task t w) < effort w"
proof (cases "tk_pc (n_tasks w ! t)")
  case Fresh
  have ok: "net_ok w" and wt: "weight t w = 4" using good Fresh by (simp_all add: weight_def)
  have "effort (set_pc t Aborted w) < effort w" by (rule effort_set_pc) (use t wt in auto)
  then show ?thesis using Fresh effort_turn [OF ok t wt] by (simp add: run_task_def)
next
  case Testing
  then have "3 \<le> weight t w" by (simp add: weight_def)
  from effort_park [OF good t this] Testing show ?thesis by (simp add: run_task_def)
next
  case (Parked f)
  have ok: "net_ok w" and pt: "parked t f w" using good t Parked by (simp_all add: parked_def)
  have st: "fu_state (n_futs w ! f) \<noteq> Pending" "loop_of t w \<notin> n_closed w" using r Parked by (auto simp: runnable_def)
  then have "weight t w = 4" using Parked by (simp add: weight_def)
  from effort_turn [OF ok t this] effort_abort [OF ok pt st] show ?thesis using Parked by (simp add: run_task_def)
qed (use r in \<open>simp_all add: runnable_def\<close>)

lemma effort_soon:
  assumes good: "net_ok w" and i: "i < length (n_soon w)"
  shows "effort (run_soon i w) < effort w"
proof -
  have ok: "net_ok w" using good by simp
  let ?f = "n_soon w ! i"
  have f: "?f < length (n_futs w)" using ok i by (simp add: net_ok_def)
  have "(\<Sum>t < length (n_tasks w). weight t (run_soon i w)) \<le> (\<Sum>t < length (n_tasks w). weight t w) + 2"
  proof (cases "fu_state (n_futs w ! ?f) = Pending")
    case True
    show ?thesis by (rule weight_ready [OF ok f]) (use True in \<open>simp_all add: run_soon_def safe_wake_def\<close>)
  next
    case False
    then have "weight t (run_soon i w) = weight t w" for t by (simp add: weight_def run_soon_def safe_wake_def)
    then show ?thesis by simp
  qed
  moreover have "length (n_soon (run_soon i w)) + 1 = length (n_soon w)" using i by (simp add: run_soon_def)
  ultimately show ?thesis by (simp add: effort_def) (simp add: run_soon_def)
qed

lemma effort_step:
  assumes "net_ok w" and "enabled a w" and "loop_act a"
  shows "effort (net_step a w) < effort w"
  using assms effort_run effort_soon effort_test by (cases a) (auto simp: net_step_def enabled_def)

lemma effort_bounds:
  "net_ok w \<Longrightarrow> valid_run enabled net_step bs w \<Longrightarrow> list_all loop_act bs \<Longrightarrow> length bs \<le> effort w"
proof (induction bs arbitrary: w)
  case (Cons b bs)
  have "length bs \<le> effort (net_step b w)"
    by (rule Cons.IH) (use Cons.prems net_ok_step in auto)
  then show ?case using effort_step [of w b] Cons.prems by simp
qed simp

lemma reaches_quiet:
  "net_ok w \<Longrightarrow> \<exists>bs. valid_run enabled net_step bs w \<and> list_all loop_act bs \<and> quiet (fold net_step bs w)"
proof (induction "effort w" arbitrary: w rule: less_induct)
  case less
  show ?case
  proof (cases "quiet w")
    case True
    then show ?thesis by (intro exI [of _ "[]"]) simp
  next
    case False
    have "\<exists>a. enabled a w \<and> loop_act a"
    proof (cases "n_soon w")
      case Nil
      then obtain t where "t < length (n_tasks w)" "runnable t w" using False by (auto simp: quiet_def list_all_iff)
      then show ?thesis by (intro exI [of _ "A_run t"]) (simp add: enabled_def)
    next
      case (Cons f fs)
      then show ?thesis by (intro exI [of _ "A_soon 0"]) (simp add: enabled_def)
    qed
    then obtain a where a: "enabled a w" "loop_act a" by blast
    have g: "net_ok (net_step a w)" by (rule net_ok_step [OF less.prems a(1)])
    obtain bs where "valid_run enabled net_step bs (net_step a w)" "list_all loop_act bs"
        "quiet (fold net_step bs (net_step a w))"
      using less.hyps [OF effort_step [OF less.prems a] g] by blast
    then show ?thesis using a by (intro exI [of _ "a # bs"]) simp
  qed
qed

section \<open>The properties\<close>

text \<open>
  Two consumers on loop 1, a put on that loop and one from a thread without a loop, the first consumer
  cancelled after it was woken; the second gets the first item, a third the other, a fourth waits.
\<close>

definition ex_acts :: "nat act list" where
  "ex_acts = [A_new ''q'' ''queue'' False, A_start 0 1 True, A_run 0, A_start 0 1 True, A_run 1,
     A_put (Some 1) 0 7, A_put None 0 8, A_cancel 0, A_run 0, A_soon 0, A_run 1,
     A_start 0 1 True, A_run 2, A_start 0 1 True, A_run 3]"

lemma ex_acts_valid: "valid_run enabled net_step ex_acts net_init"
  by code_simp

lemma ex_acts_end:
  "quiet (fold net_step ex_acts net_init)" "parked 3 2 (fold net_step ex_acts net_init)"
  "loop_of 3 (fold net_step ex_acts net_init) \<notin> n_closed (fold net_step ex_acts net_init)"
  "gone 0 (fold net_step ex_acts net_init) = [7, 8]" "plain 0 (fold net_step ex_acts net_init)"
  by code_simp+

text \<open>C6: However producers on any thread, consumers, cancellations, flushes and races are interleaved,
  a consumer that waits on an open loop when nothing is left to run has no more items in its channel than other
  threads put there between a consumer's test for an item and the queueing of its waiter. When no put falls
  into that gap, as when producers and consumers share a loop, its channel is empty: no item stays behind
  while a consumer sleeps.\<close>

theorem no_lost_wakeup:
  assumes "valid_run enabled net_step as net_init" and "w = fold net_step as net_init" and "quiet w"
    and "parked t f w" and "loop_of t w \<notin> n_closed w"
  shows "length (items_of (chan_of t w) w) \<le> late (chan_of t w) as net_init \<and>
    (list_all whole_turns as \<longrightarrow> items_of (chan_of t w) w = [])"
proof -
  have "net_good (\<lambda>c. 0 + late c as net_init) (fold net_step as net_init)"
    by (rule net_run_good [OF net_good_init assms(1)])
  then have "net_good (\<lambda>c. late c as net_init) w" using assms(2) by simp
  from quiet_parked [OF this assms(3-5)] show ?thesis
    using late_whole_turns [OF no_testing_init assms(1)] by auto
qed

theorem no_lost_wakeup_witness:
  "valid_run enabled net_step ex_acts net_init \<and> quiet (fold net_step ex_acts net_init) \<and>
   parked 3 2 (fold net_step ex_acts net_init) \<and>
   items_of (chan_of 3 (fold net_step ex_acts net_init)) (fold net_step ex_acts net_init) = []"
proof -
  have "list_all whole_turns ex_acts" by code_simp
  with no_lost_wakeup [OF ex_acts_valid refl ex_acts_end(1,2,3)] have
    "items_of (chan_of 3 (fold net_step ex_acts net_init)) (fold net_step ex_acts net_init) = []" by blast
  then show ?thesis using ex_acts_valid ex_acts_end by blast
qed

text \<open>C9: At every moment, what was put into a channel is, item by item, what is queued, what a race
  holds, and what was consumed, discarded or withdrawn: no cancellation, flush or lost race loses or
  doubles an item.\<close>

theorem items_conserved:
  assumes "valid_run enabled net_step as net_init" and "w = fold net_step as net_init" and "c < n_chan w"
  shows "mset (puts c w) = mset (items_of c w) + in_hand c w + mset (gone c w)"
  using chan_tally.run_inv [OF tallied_init assms(1)] assms(2,3) by (simp add: tallied_def stock_def)

theorem items_conserved_witness:
  "mset (puts 0 (fold net_step ex_acts net_init)) =
     mset (items_of 0 (fold net_step ex_acts net_init)) + in_hand 0 (fold net_step ex_acts net_init) +
     mset (gone 0 (fold net_step ex_acts net_init)) \<and>
   gone 0 (fold net_step ex_acts net_init) = [7, 8]"
proof -
  have "0 < n_chan (fold net_step ex_acts net_init)" by code_simp
  from items_conserved [OF ex_acts_valid refl this] ex_acts_end(4) show ?thesis by blast
qed

text \<open>C22: On a channel that no race drains and from which nothing is withdrawn, items leave in the order
  in which they were put, whatever consumers were cancelled on the way.\<close>

theorem items_leave_in_order:
  assumes "valid_run enabled net_step as net_init" and "w = fold net_step as net_init" and "c < n_chan w"
    and "plain c w"
  shows "puts c w = gone c w @ items_of c w"
  using chan_tally.run_inv [OF tallied_init assms(1)] assms(2-) by (simp add: tallied_def stock_def)

theorem items_leave_in_order_witness:
  "puts 0 (fold net_step ex_acts net_init) = [7, 8] \<and> plain 0 (fold net_step ex_acts net_init)"
proof -
  have "0 < n_chan (fold net_step ex_acts net_init)" "items_of 0 (fold net_step ex_acts net_init) = []" by code_simp+
  with items_leave_in_order [OF ex_acts_valid refl _ ex_acts_end(5)] ex_acts_end show ?thesis by simp
qed

text \<open>A consumer that is cancelled while it waits, even after it was woken, or before it first ran,
  never takes an item, whatever happens afterwards.\<close>

theorem cancelled_takes_nothing:
  assumes "valid_run enabled net_step as net_init" and "w = fold net_step as net_init"
    and "t < length (n_tasks w)" and "tk_pc (n_tasks w ! t) = Fresh \<or> parked t f w"
    and "valid_run enabled net_step bs (cancel_task t w)"
  shows "tk_pc (n_tasks (fold net_step bs (cancel_task t w)) ! t) \<noteq> Finished x"
proof -
  have "net_ok w" using chan_run.run_inv [OF net_ok_init assms(1)] assms(2) by simp
  then have "doomed t (cancel_task t w)" using assms(3,4) by (intro cancel_dooms) (auto simp: parked_def)
  from doomed_run.run_inv [OF this assms(5)] show ?thesis by (auto simp: doomed_def)
qed

theorem cancelled_takes_nothing_witness:
  "\<exists>w. valid_run enabled net_step (take 6 ex_acts) net_init \<and> w = fold net_step (take 6 ex_acts) net_init \<and>
     parked 0 0 w \<and> fu_state (n_futs w ! 0) = Ready \<and> items_of 0 w = [7] \<and>
     tk_pc (n_tasks (fold net_step [A_run 0, A_run 1] (cancel_task 0 w)) ! 0) \<noteq> Finished 7"
proof -
  have v: "valid_run enabled net_step (take 6 ex_acts) net_init"
    and e: "0 < length (n_tasks (fold net_step (take 6 ex_acts) net_init))"
      "parked 0 0 (fold net_step (take 6 ex_acts) net_init)"
      "valid_run enabled net_step [A_run 0, A_run 1] (cancel_task 0 (fold net_step (take 6 ex_acts) net_init))"
      "fu_state (n_futs (fold net_step (take 6 ex_acts) net_init) ! 0) = Ready"
      "items_of 0 (fold net_step (take 6 ex_acts) net_init) = [7]"
    by code_simp+
  from cancelled_takes_nothing [OF v refl e(1) disjI2 [OF e(2)] e(3), of 7] v e show ?thesis by blast
qed

text \<open>
  A consumer that a put has already woken is out of the queue of waiters, so a flush that
  follows in the same tick does not cancel it: it finds the channel empty and waits again, for ever if
  nothing more is put.
\<close>

theorem flush_misses_woken_consumer:
  assumes good: "net_ok w" and pt: "parked t f w" and woken: "fu_state (n_futs w ! f) = Ready"
    and live: "\<not> tk_cancel (n_tasks w ! t)"
  shows "\<exists>g. parked t g (run_task t (snd (flush (chan_of t w) w))) \<and>
    fu_state (n_futs (run_task t (snd (flush (chan_of t w) w))) ! g) = Pending"
proof -
  let ?c = "chan_of t w" and ?w = "snd (flush (chan_of t w) w)"
  have ok: "net_ok w" and t: "t < length (n_tasks w)" "tk_pc (n_tasks w ! t) = Parked f"
    using good pt by (simp_all add: parked_def)
  have c: "?c < n_chan w" using net_ok_parked [OF ok pt] by simp
  have "f < length (n_futs w)" if "f \<in> set (waiters_of ?c w)" for f
    by (rule net_ok_waiter [OF ok c that])
  then have "set (waiters_of ?c w) \<subseteq> {..<length (n_futs w)}" by auto
  from cancel_waiters(3) [OF this]
  have st: "fu_state (n_futs ?w ! f) = Ready" using woken by (simp add: flush_def Let_def fire_on_discard_def)
  have it: "items_of ?c ?w = []" using c by (simp add: flush_def Let_def fire_on_discard_def)
  have ta: "n_tasks ?w = n_tasks w" by (simp add: flush_def Let_def fire_on_discard_def)
  have "run_task t ?w = park t ?w" using t st it ta live by (simp add: run_task_def drain_turn_def)
  moreover have "parked t (length (n_futs ?w)) (park t ?w)" using t ta by (simp add: parked_def park_def Let_def)
  moreover have "fu_state (n_futs (park t ?w) ! length (n_futs ?w)) = Pending" by (simp add: park_def Let_def)
  ultimately show ?thesis by auto
qed

theorem flush_misses_woken_consumer_witness:
  "\<exists>w :: nat net. net_ok w \<and> fst (flush 0 w) = 1 \<and> n_soon w = [] \<and>
     (\<exists>g. parked 0 g (run_task 0 (snd (flush (chan_of 0 w) w))) \<and>
          fu_state (n_futs (run_task 0 (snd (flush (chan_of 0 w) w))) ! g) = Pending)"
proof -
  let ?as = "[A_new ''q'' ''queue'' False, A_start 0 1 True, A_run 0, A_put (Some 1) 0 7] :: nat act list"
  have "valid_run enabled net_step ?as net_init" by code_simp
  from chan_run.run_inv [OF net_ok_init this] have g: "net_ok (fold net_step ?as net_init)" .
  have e: "parked 0 0 (fold net_step ?as net_init)" "fu_state (n_futs (fold net_step ?as net_init) ! 0) = Ready"
    "\<not> tk_cancel (n_tasks (fold net_step ?as net_init) ! 0)" "fst (flush 0 (fold net_step ?as net_init)) = 1"
    "n_soon (fold net_step ?as net_init) = []"
    by code_simp+
  from flush_misses_woken_consumer [OF g e(1,2,3)] g e(4,5) show ?thesis by blast
qed

text \<open>
  The gap is real: a consumer on loop 1 finds the channel empty, a thread without a loop puts an item, the
  consumer queues its waiter and sleeps on a channel that is not empty, with no wake-up on the way.
\<close>

lemma foreign_put_between_test_and_park:
  "let as = [A_new ''q'' ''queue'' False, A_start 0 1 True, A_test 0, A_put None 0 (7 :: nat), A_run 0];
       w = fold net_step as net_init
   in valid_run enabled net_step as net_init \<and> quiet w \<and> parked 0 0 w \<and> loop_of 0 w \<notin> n_closed w \<and>
      items_of 0 w = [7] \<and> late 0 as net_init = 1"
  by code_simp

text \<open>C20: When nobody calls the channels any more, the event loops come to rest: a run of tasks and
  callbacks has at most \<open>effort w\<close> steps, and some such run ends with nothing left to run.\<close>

theorem event_loop_settles:
  assumes "valid_run enabled net_step as net_init" and "w = fold net_step as net_init"
  shows "(\<forall>bs. valid_run enabled net_step bs w \<longrightarrow> list_all loop_act bs \<longrightarrow> length bs \<le> effort w) \<and>
    (\<exists>bs. valid_run enabled net_step bs w \<and> list_all loop_act bs \<and> length bs \<le> effort w \<and> quiet (fold net_step bs w))"
proof -
  have g: "net_ok w" using chan_run.run_inv [OF net_ok_init assms(1)] assms(2) by simp
  show ?thesis using effort_bounds [OF g] reaches_quiet [OF g] by blast
qed

theorem event_loop_settles_witness:
  "effort (fold net_step (take 8 ex_acts) net_init) = 9 \<and>
   (\<exists>bs. valid_run enabled net_step bs (fold net_step (take 8 ex_acts) net_init) \<and> list_all loop_act bs \<and>
      length bs \<le> 9 \<and> quiet (fold net_step bs (fold net_step (take 8 ex_acts) net_init)))"
proof -
  have v: "valid_run enabled net_step (take 8 ex_acts) net_init"
    and e: "effort (fold net_step (take 8 ex_acts) net_init) = 9" by code_simp+
  from event_loop_settles [OF v refl] show ?thesis unfolding e by blast
qed

end
