(* ===== verification/Queue_Manager.thy ===== *)
theory Queue_Manager
  imports Channel_Runs
begin

text \<open>
  The registry of channels and jobs: the classes \<^verbatim>\<open>QueueManager\<close> and \<^verbatim>\<open>JobHandle\<close> of
  \<^verbatim>\<open>src/nooa/runtime/channels.py\<close>.

  A spawned coroutine or generator is outside the model: it is the one that decides when a value comes,
  when it ends and how. What \<^verbatim>\<open>_run\<close> does with that is \<open>job_value\<close> and \<open>job_finish\<close>. Channels carry the
  values of the producers and the errors of failed jobs. The wake-up event of \<^verbatim>\<open>race\<close> is an object of
  its own for each event loop the manager has raced on.
\<close>

declare map_of_eq_Some_iff [simp del] Some_eq_map_of_iff [simp del]

section \<open>The state\<close>

datatype job_state = Running | Done | Job_cancelled | Failed

datatype 'a payload = Value 'a | Job_error string string string

datatype job_event = Stream_end string | Error_event string string string

datatype buffer = B_bool bool | B_int int

record 'a job =
  jb_name :: string
  jb_label :: string
  jb_state :: job_state
  jb_values :: "'a list option"
  jb_limit :: "nat option"
  jb_chan :: nat
  jb_loop :: nat
  jb_started :: bool
  jb_over :: bool
  jb_cancel :: bool
  jb_produced :: "'a list"

record 'a qm =
  qm_net :: "'a payload net"
  qm_has_events :: bool
  qm_reg :: "(string, nat) dict"
  qm_jobs :: "'a job list"
  qm_handles :: "nat list"
  qm_events :: "job_event list"
  qm_wakes :: "bool list"
  qm_pair :: "(nat \<times> nat) option"
  qm_pending :: bool
  qm_sets :: "nat list"

definition qm_init :: "bool \<Rightarrow> 'a qm" where
  "qm_init has_events = \<lparr>qm_net = net_init, qm_has_events = has_events, qm_reg = [], qm_jobs = [], qm_handles = [],
     qm_events = [], qm_wakes = [], qm_pair = None, qm_pending = False, qm_sets = []\<rparr>"

section \<open>Job handles\<close>

text \<open>The buffer: none, everything, or the last \<open>n\<close> values.\<close>

fun buffer_of :: "buffer \<Rightarrow> 'a list option \<times> nat option" where
  "buffer_of (B_bool b) = (if b then (Some [], None) else (None, None))"
| "buffer_of (B_int n) = (if n > 0 then (Some [], Some (nat n)) else (None, None))"

definition handle_init :: "string \<Rightarrow> buffer \<Rightarrow> string \<Rightarrow> nat \<Rightarrow> nat \<Rightarrow> 'a job" where
  "handle_init name buf label c l =
     \<lparr>jb_name = name, jb_label = (if label = [] then name else label), jb_state = Running,
      jb_values = fst (buffer_of buf :: 'a list option \<times> nat option), jb_limit = snd (buffer_of buf :: 'a list option \<times> nat option),
      jb_chan = c, jb_loop = l, jb_started = False, jb_over = False, jb_cancel = False, jb_produced = []\<rparr>"

definition handle_values :: "'a job \<Rightarrow> 'a list" where
  "handle_values j = (case jb_values j of None \<Rightarrow> [] | Some vs \<Rightarrow> vs)"

text \<open>Appending to a list, or to a ring that drops its oldest entry.\<close>

definition remember :: "'a \<Rightarrow> 'a job \<Rightarrow> 'a job" where
  "remember x j = j\<lparr>jb_values := map_option (\<lambda>vs. case jb_limit j of
       None \<Rightarrow> vs @ [x]
     | Some n \<Rightarrow> drop (length vs + 1 - n) (vs @ [x])) (jb_values j), jb_produced := jb_produced j @ [x]\<rparr>"

definition set_job :: "nat \<Rightarrow> 'a job \<Rightarrow> 'a qm \<Rightarrow> 'a qm" where
  "set_job i j m = m\<lparr>qm_jobs := (qm_jobs m)[i := j]\<rparr>"

text \<open>\<^verbatim>\<open>cancel()\<close> before and after it awaits the task.\<close>

definition handle_cancel :: "nat \<Rightarrow> 'a qm \<Rightarrow> 'a qm" where
  "handle_cancel i m =
     (if jb_over (qm_jobs m ! i) then m else set_job i ((qm_jobs m ! i)\<lparr>jb_cancel := True\<rparr>) m)"

definition handle_cancelled :: "nat \<Rightarrow> 'a qm \<Rightarrow> 'a qm" where
  "handle_cancelled i m =
     (if jb_state (qm_jobs m ! i) = Running
      then set_job i ((qm_jobs m ! i)\<lparr>jb_state := Job_cancelled\<rparr>) m else m)"

section \<open>The wake-up of a race\<close>

definition signal_notify :: "nat option \<Rightarrow> 'a qm \<Rightarrow> 'a qm" where
  "signal_notify r m =
     (case qm_pair m of
        None \<Rightarrow> m
      | Some (e, l) \<Rightarrow>
          if r = Some l then m\<lparr>qm_wakes := (qm_wakes m)[e := True]\<rparr>
          else if l \<in> n_closed (qm_net m) then m\<lparr>qm_pending := True\<rparr>
          else m\<lparr>qm_sets := qm_sets m @ [e]\<rparr>)"

definition run_set :: "nat \<Rightarrow> 'a qm \<Rightarrow> 'a qm" where
  "run_set i m = m\<lparr>qm_wakes := (qm_wakes m)[qm_sets m ! i := True],
     qm_sets := take i (qm_sets m) @ drop (Suc i) (qm_sets m)\<rparr>"

text \<open>The event of the current loop, cleared, unless a wake-up could not be delivered before.\<close>

definition race_prepare :: "nat \<Rightarrow> 'a qm \<Rightarrow> 'a qm" where
  "race_prepare l m =
     (let m1 = (case qm_pair m of
            Some (e, l') \<Rightarrow> if l' = l then m
              else m\<lparr>qm_wakes := qm_wakes m @ [False], qm_pair := Some (length (qm_wakes m), l)\<rparr>
          | None \<Rightarrow> m\<lparr>qm_wakes := qm_wakes m @ [False], qm_pair := Some (length (qm_wakes m), l)\<rparr>);
          e = fst (the (qm_pair m1))
      in m1\<lparr>qm_wakes := (qm_wakes m1)[e := qm_pending m1], qm_pending := False\<rparr>)"

text \<open>A put on a registered channel.\<close>

definition qm_put :: "nat option \<Rightarrow> nat \<Rightarrow> 'a payload \<Rightarrow> 'a qm \<Rightarrow> 'a qm py_res" where
  "qm_put r c x m =
     (case put r c x (qm_net m) of
        Inl e \<Rightarrow> Inl e
      | Inr w \<Rightarrow> Inr (signal_notify r (m\<lparr>qm_net := w\<rparr>)))"

section \<open>The registry\<close>

definition cancel_handles :: "string \<Rightarrow> 'a qm \<Rightarrow> 'a qm" where
  "cancel_handles name m = fold (\<lambda>i m. if jb_name (qm_jobs m ! i) = name
     then handle_cancelled i (handle_cancel i m) else m) (qm_handles m) m"

definition remove_channel :: "string \<Rightarrow> 'a qm \<Rightarrow> 'a qm py_res" where
  "remove_channel name m =
     (case dict_get (qm_reg m) name of
        None \<Rightarrow> Inl KeyError
      | Some c \<Rightarrow>
          let m1 = m\<lparr>qm_reg := dict_del name (qm_reg m), qm_net := snd (flush c (qm_net m))\<rparr>;
              m2 = cancel_handles name m1
          in Inr (m2\<lparr>qm_handles := filter (\<lambda>i. jb_name (qm_jobs m ! i) \<noteq> name) (qm_handles m)\<rparr>))"

definition add_channel :: "string \<Rightarrow> string \<Rightarrow> 'a qm \<Rightarrow> (nat \<times> 'a qm) py_res" where
  "add_channel name mode m =
     py_bind (chan_init name mode (qm_has_events m)) (\<lambda>ch.
       let c = n_chan (qm_net m) in
       Inr (c, m\<lparr>qm_net := (qm_net m)\<lparr>n_chans := n_chans (qm_net m) @ [ch]\<rparr>, qm_reg := dict_set name c (qm_reg m)\<rparr>))"

definition make_room :: "string \<Rightarrow> bool \<Rightarrow> 'a qm \<Rightarrow> 'a qm py_res" where
  "make_room name replace m =
     (if dict_has (qm_reg m) name then (if replace then remove_channel name m else Inl ValueError) else Inr m)"

definition qm_queue :: "string \<Rightarrow> bool \<Rightarrow> 'a qm \<Rightarrow> (nat \<times> 'a qm) py_res" where
  "qm_queue name replace m = py_bind (make_room name replace m) (add_channel name ''queue'')"

definition qm_event :: "string \<Rightarrow> bool \<Rightarrow> 'a qm \<Rightarrow> (nat \<times> 'a qm) py_res" where
  "qm_event name replace m =
     (if qm_has_events m then py_bind (make_room name replace m) (add_channel name ''event'') else Inl RuntimeError)"

definition get_channel :: "string \<Rightarrow> 'a qm \<Rightarrow> nat py_res" where
  "get_channel name m = (case dict_get (qm_reg m) name of None \<Rightarrow> Inl KeyError | Some c \<Rightarrow> Inr c)"

definition qm_names :: "'a qm \<Rightarrow> string list" where
  "qm_names m = dict_keys (qm_reg m)"

section \<open>Jobs\<close>

definition spawn :: "string \<Rightarrow> buffer \<Rightarrow> string \<Rightarrow> nat \<Rightarrow> 'a qm \<Rightarrow> (nat \<times> 'a qm) py_res" where
  "spawn name buf label l m =
     (case dict_get (qm_reg m) name of
        None \<Rightarrow> Inl ValueError
      | Some c \<Rightarrow>
          let i = length (qm_jobs m) in
          Inr (i, m\<lparr>qm_jobs := qm_jobs m @ [handle_init name buf label c l], qm_handles := qm_handles m @ [i]\<rparr>))"

definition keep_put :: "nat \<Rightarrow> 'a payload \<Rightarrow> 'a qm \<Rightarrow> 'a qm" where
  "keep_put i x m =
     keep m (qm_put (Some (jb_loop (qm_jobs m ! i))) (jb_chan (qm_jobs m ! i)) x m)"

text \<open>A generator yields a value, or a coroutine returns its result.\<close>

definition job_value :: "nat \<Rightarrow> 'a \<Rightarrow> 'a qm \<Rightarrow> 'a qm" where
  "job_value i x m = keep_put i (Value x) (set_job i ((remember x (qm_jobs m ! i))\<lparr>jb_started := True\<rparr>) m)"

datatype ending = Ends | Ends_cancelled | Ends_failing string string

definition record_event :: "job_event \<Rightarrow> 'a qm \<Rightarrow> 'a qm" where
  "record_event e m = (if qm_has_events m then m\<lparr>qm_events := qm_events m @ [e]\<rparr> else m)"

definition job_finish :: "nat \<Rightarrow> ending \<Rightarrow> 'a qm \<Rightarrow> 'a qm" where
  "job_finish i e m =
     (let name = jb_name (qm_jobs m ! i);
          mark = (\<lambda>st. set_job i ((qm_jobs m ! i)\<lparr>jb_state := st, jb_started := True, jb_over := True\<rparr>) m);
          m' = (case e of
             Ends \<Rightarrow> mark Done
           | Ends_cancelled \<Rightarrow> mark Job_cancelled
           | Ends_failing ty msg \<Rightarrow>
               keep_put i (Job_error name ty msg) (record_event (Error_event name ty msg) (mark Failed)))
      in record_event (Stream_end name) m')"

text \<open>A task cancelled before its first run never enters \<^verbatim>\<open>_run\<close>.\<close>

definition job_never_ran :: "nat \<Rightarrow> 'a qm \<Rightarrow> 'a qm" where
  "job_never_ran i m = set_job i ((qm_jobs m ! i)\<lparr>jb_over := True\<rparr>) m"

definition running_handles :: "'a qm \<Rightarrow> nat list" where
  "running_handles m = filter (\<lambda>i. jb_state (qm_jobs m ! i) = Running) (qm_handles m)"

definition jobs_by_name :: "'a qm \<Rightarrow> (string, job_state) dict" where
  "jobs_by_name m = fold (\<lambda>i. dict_set (jb_name (qm_jobs m ! i)) (jb_state (qm_jobs m ! i))) (qm_handles m) []"

definition find_job :: "string \<Rightarrow> 'a qm \<Rightarrow> nat option" where
  "find_job name m = find (\<lambda>i. jb_name (qm_jobs m ! i) = name) (rev (qm_handles m))"

text \<open>\<^verbatim>\<open>shutdown\<close> and \<^verbatim>\<open>cancel\<close> up to where they wait for a job that is not over, and what \<^verbatim>\<open>cancel\<close>
  does then.\<close>

definition shutdown_begin :: "'a qm \<Rightarrow> nat list \<times> 'a qm" where
  "shutdown_begin m = (qm_handles m, m\<lparr>qm_handles := []\<rparr>)"

definition cancel_begin :: "string \<Rightarrow> 'a qm \<Rightarrow> (nat \<times> bool) option \<times> 'a qm" where
  "cancel_begin name m =
     (case find_job name m of
        None \<Rightarrow> (None, m) | Some i \<Rightarrow> (Some (i, \<not> jb_over (qm_jobs m ! i)), handle_cancel i m))"

definition cancel_end :: "string \<Rightarrow> nat \<times> bool \<Rightarrow> 'a qm \<Rightarrow> 'a qm" where
  "cancel_end name iw m =
     (let m' = (if snd iw then handle_cancelled (fst iw) m else m) in
      case dict_get (qm_reg m') name of
        None \<Rightarrow> m' | Some c \<Rightarrow> m'\<lparr>qm_net := snd (flush c (qm_net m'))\<rparr>)"

section \<open>The race\<close>

definition queue_channels :: "'a qm \<Rightarrow> nat list" where
  "queue_channels m = filter (\<lambda>c. ch_mode (chan_at c (qm_net m)) = Queue_mode) (map snd (qm_reg m))"

datatype 'a race_out = Delivered "(string \<times> 'a payload) list" | Racing "nat list"

definition task_item :: "nat \<Rightarrow> 'a net \<Rightarrow> 'a option" where
  "task_item t w = (case tk_pc (n_tasks w ! t) of Finished x \<Rightarrow> Some x | _ \<Rightarrow> None)"

text \<open>A drain task for every queue channel, in the order of registration.\<close>

definition start_drains :: "nat \<Rightarrow> nat list \<Rightarrow> 'b net \<Rightarrow> 'b net" where
  "start_drains l cs w = fold (\<lambda>c w. keep w (start_drain c l False w)) cs w"

definition race_begin :: "nat \<Rightarrow> 'a qm \<Rightarrow> ('a race_out \<times> 'a qm) py_res" where
  "race_begin l m =
     (if qm_reg m = [] then Inl ValueError
      else
        let m1 = race_prepare l m; w = qm_net m1 in
        case find (\<lambda>c. items_of c w \<noteq> []) (queue_channels m1) of
          Some c \<Rightarrow>
            let t = length (n_tasks w); w' = run_task t (keep w (start_drain c l True w))
            in Inr (Delivered [(ch_name (chan_at c w), hd (items_of c w))], m1\<lparr>qm_net := w'\<rparr>)
        | None \<Rightarrow>
            let cs = queue_channels m1
            in Inr (Racing [length (n_tasks w)..<length (n_tasks w) + length cs], m1\<lparr>qm_net := start_drains l cs w\<rparr>))"

definition is_over :: "nat \<Rightarrow> 'b net \<Rightarrow> bool" where
  "is_over t w = (case tk_pc (n_tasks w ! t) of Finished _ \<Rightarrow> True | Aborted \<Rightarrow> True | Spent \<Rightarrow> True | _ \<Rightarrow> False)"

text \<open>The drains that were not over were cancelled and awaited before; those are the actions \<open>A_cancel\<close> and \<open>A_run\<close>
  of these tasks. The losers are given back, the winner is delivered; \<open>dn\<close> are the drains that were over when the wait
  returned, in the order of the set.\<close>

definition settle :: "nat list \<Rightarrow> nat list \<Rightarrow> 'b net \<Rightarrow> ((string \<times> 'b) list \<times> 'b net) option" where
  "settle ts dn w =
     (let win = hd (filter (\<lambda>t. t \<in> set dn) ts) in
      case task_item win w of
        None \<Rightarrow> None
      | Some x \<Rightarrow> Some ([(ch_name (chan_at (chan_of win w) w), x)],
                       deliver win (fold give_back (filter (\<lambda>t. t \<noteq> win) dn) w)))"

text \<open>The handler of any exception: cancel what is in flight, wait for it, give back every item.\<close>

definition unwind :: "nat list \<Rightarrow> 'b net \<Rightarrow> 'b net" where
  "unwind ts w =
     fold (\<lambda>t w. give_back t (if is_over t w then w else run_task t w)) ts
       (fold (\<lambda>t w. if is_over t w then w else cancel_task t w) ts w)"

definition race_end :: "nat list \<Rightarrow> nat list \<Rightarrow> 'a qm \<Rightarrow> ('a race_out py_res \<times> 'a qm)" where
  "race_end ts dn m =
     (let cleared = (\<lambda>m. m\<lparr>qm_wakes := (qm_wakes m)[fst (the (qm_pair m)) := False]\<rparr>) in
      if dn = [] then (Inr (Delivered []), cleared m)
      else case settle ts dn (qm_net m) of
        Some (out, w) \<Rightarrow> (Inr (Delivered out), cleared (m\<lparr>qm_net := w\<rparr>))
      | None \<Rightarrow> (Inl CancelledError, m\<lparr>qm_net := unwind ts (qm_net m)\<rparr>))"

section \<open>Runs of the manager\<close>

datatype 'a qact =
    Q_queue string bool
  | Q_event string bool
  | Q_remove string
  | Q_spawn string buffer string nat
  | Q_value nat 'a
  | Q_finish nat ending
  | Q_never_ran nat
  | Q_cancel nat
  | Q_cancelled nat
  | Q_cancel_end string "nat \<times> bool"
  | Q_shutdown
  | Q_put "nat option" nat "'a payload"
  | Q_race nat
  | Q_race_end "nat list" "nat list"
  | Q_wake nat
  | Q_net "'a payload act"

definition qm_step :: "'a qact \<Rightarrow> 'a qm \<Rightarrow> 'a qm" where
  "qm_step a m = (case a of
     Q_queue name rp \<Rightarrow> (case qm_queue name rp m of Inl _ \<Rightarrow> m | Inr (_, m') \<Rightarrow> m')
   | Q_event name rp \<Rightarrow> (case qm_event name rp m of Inl _ \<Rightarrow> m | Inr (_, m') \<Rightarrow> m')
   | Q_remove name \<Rightarrow> keep m (remove_channel name m)
   | Q_spawn name buf label l \<Rightarrow> (case spawn name buf label l m of Inl _ \<Rightarrow> m | Inr (_, m') \<Rightarrow> m')
   | Q_value i x \<Rightarrow> job_value i x m
   | Q_finish i e \<Rightarrow> job_finish i e m
   | Q_never_ran i \<Rightarrow> job_never_ran i m
   | Q_cancel i \<Rightarrow> handle_cancel i m
   | Q_cancelled i \<Rightarrow> handle_cancelled i m
   | Q_cancel_end name iw \<Rightarrow> cancel_end name iw m
   | Q_shutdown \<Rightarrow> snd (shutdown_begin m)
   | Q_put r c x \<Rightarrow> keep m (qm_put r c x m)
   | Q_race l \<Rightarrow> (case race_begin l m of Inl _ \<Rightarrow> m | Inr (_, m') \<Rightarrow> m')
   | Q_race_end ts dn \<Rightarrow> snd (race_end ts dn m)
   | Q_wake i \<Rightarrow> run_set i m
   | Q_net b \<Rightarrow> m\<lparr>qm_net := net_step b (qm_net m)\<rparr>)"

text \<open>A job that has not ended can go on; before its first run only if it was not cancelled. \<^verbatim>\<open>cancel()\<close>
  returns when the job is over.\<close>

definition job_live :: "nat \<Rightarrow> 'a qm \<Rightarrow> bool" where
  "job_live i m \<longleftrightarrow> i < length (qm_jobs m) \<and> \<not> jb_over (qm_jobs m ! i) \<and>
     (jb_started (qm_jobs m ! i) \<or> \<not> jb_cancel (qm_jobs m ! i))"

definition qm_enabled :: "'a qact \<Rightarrow> 'a qm \<Rightarrow> bool" where
  "qm_enabled a m = (case a of
     Q_value i x \<Rightarrow> job_live i m
   | Q_finish i e \<Rightarrow> job_live i m
   | Q_never_ran i \<Rightarrow> i < length (qm_jobs m) \<and> \<not> jb_over (qm_jobs m ! i) \<and> \<not> jb_started (qm_jobs m ! i) \<and>
       jb_cancel (qm_jobs m ! i)
   | Q_cancel i \<Rightarrow> i < length (qm_jobs m)
   | Q_cancelled i \<Rightarrow> i < length (qm_jobs m) \<and> jb_over (qm_jobs m ! i)
   | Q_cancel_end name iw \<Rightarrow> fst iw < length (qm_jobs m) \<and> jb_over (qm_jobs m ! fst iw)
   | Q_net b \<Rightarrow> enabled b (qm_net m)
   | _ \<Rightarrow> True)"

section \<open>The invariant of registry, handles and jobs\<close>

definition n_names :: "'b net \<Rightarrow> string list" where
  "n_names w = map ch_name (n_chans w)"

definition window_ok :: "'a job \<Rightarrow> bool" where
  "window_ok j \<longleftrightarrow> jb_limit j \<noteq> Some 0 \<and> (case jb_values j of
     None \<Rightarrow> True
   | Some vs \<Rightarrow> vs = (case jb_limit j of
        None \<Rightarrow> jb_produced j
      | Some n \<Rightarrow> drop (length (jb_produced j) - n) (jb_produced j)))"

definition job_ok :: "'a job \<Rightarrow> bool" where
  "job_ok j \<longleftrightarrow> window_ok j \<and> (jb_started j \<longrightarrow> jb_over j \<longrightarrow> jb_state j \<noteq> Running)"

definition ended :: "string \<Rightarrow> 'a job \<Rightarrow> bool" where
  "ended name j \<longleftrightarrow> jb_name j = name \<and> jb_started j \<and> jb_over j"

definition reg_ok :: "'a qm \<Rightarrow> bool" where
  "reg_ok m \<longleftrightarrow> distinct (dict_keys (qm_reg m)) \<and>
     (\<forall>name c. dict_get (qm_reg m) name = Some c \<longrightarrow> c < length (n_names (qm_net m)) \<and> n_names (qm_net m) ! c = name)"

definition handle_ok :: "'a qm \<Rightarrow> nat \<Rightarrow> bool" where
  "handle_ok m i \<longleftrightarrow> i < length (qm_jobs m) \<and>
     dict_get (qm_reg m) (jb_name (qm_jobs m ! i)) = Some (jb_chan (qm_jobs m ! i)) \<and>
     (\<not> jb_over (qm_jobs m ! i) \<longrightarrow> jb_state (qm_jobs m ! i) = Running)"

definition ends_ok :: "'a qm \<Rightarrow> bool" where
  "ends_ok m \<longleftrightarrow> (qm_has_events m \<longrightarrow> (\<forall>name. length (filter (\<lambda>e. e = Stream_end name) (qm_events m)) =
     length (filter (ended name) (qm_jobs m))))"

definition qm_ok :: "'a qm \<Rightarrow> bool" where
  "qm_ok m \<longleftrightarrow> reg_ok m \<and> distinct (qm_handles m) \<and> list_all (handle_ok m) (qm_handles m) \<and>
     list_all job_ok (qm_jobs m) \<and> ends_ok m"

lemma names_set [simp]:
  "n_names (set_items c xs w) = n_names w" "n_names (set_waiters c fs w) = n_names w" "n_names (set_pc t p w) = n_names w"
  "n_names (record_note n w) = n_names w" "n_names (w\<lparr>n_futs := fu\<rparr>) = n_names w" "n_names (w\<lparr>n_soon := so\<rparr>) = n_names w"
  "n_names (w\<lparr>n_tasks := ta\<rparr>) = n_names w" "n_names (w\<lparr>n_closed := cl\<rparr>) = n_names w" "n_names (w\<lparr>n_notes := no\<rparr>) = n_names w"
  by (auto simp: n_names_def set_items_def set_waiters_def set_chan_def chan_at_def set_pc_def record_note_def
      intro!: nth_equalityI simp: nth_upd)

lemma names_wake [simp]: "n_names (wake_next_waiter r c w) = n_names w"
  by (simp add: wake_next_waiter_def split: prod.split)

lemma names_ops [simp]:
  "n_names (keep w (put r c x w)) = n_names w" "n_names (snd (flush c w)) = n_names w"
  "n_names (run_task t w) = n_names w" "n_names (find_empty t w) = n_names w" "n_names (cancel_task t w) = n_names w"
  "n_names (keep w (start_drain c l b w)) = n_names w" "n_names (give_back t w) = n_names w" "n_names (deliver t w) = n_names w"
  by (auto simp: put_def keep_def flush_def fire_on_discard_def Let_def run_task_def find_empty_def drain_turn_def take_head_def park_def
      abort_wait_def fire_on_get_def cancel_task_def start_drain_def give_back_def restore_front_def deliver_def
      split: mode.split pc.split)

lemma names_fold: "(\<And>x w. n_names (f x w) = n_names w) \<Longrightarrow> n_names (fold f xs w) = n_names w"
  by (induction xs arbitrary: w) simp_all

lemma names_race [simp]: "n_names (start_drains l cs w) = n_names w" "n_names (unwind ts w) = n_names w"
    "settle ts dn w = Some (out, w') \<Longrightarrow> n_names w' = n_names w"
  by (auto simp: start_drains_def unwind_def settle_def Let_def names_fold split: option.splits)

lemma names_step: "\<exists>ns. n_names (net_step a w) = n_names w @ ns"
  by (cases a) (auto simp: net_step_def run_soon_def drain_def fold_fire pop_last_def remove_item_def clear_def fire_on_discard_def
      n_names_def [of "n_chans_update _ _"] n_names_def [of w, symmetric] split: sum.split)

lemma window_remember: "window_ok j \<Longrightarrow> window_ok (remember x j)"
proof -
  have ring: "Suc k - (k - n + n) + (k - n) = Suc k - n" for k n :: nat by arith
  show "window_ok j \<Longrightarrow> window_ok (remember x j)"
    by (cases "jb_values j"; cases "jb_limit j") (auto simp: window_ok_def remember_def ring)
qed

text \<open>Parts of the manager that the invariant does not mention.\<close>

lemma qm_ok_cong:
  assumes "qm_ok m" "qm_reg m' = qm_reg m" "qm_jobs m' = qm_jobs m" "qm_handles m' = qm_handles m"
    "qm_events m' = qm_events m" "qm_has_events m' = qm_has_events m" "\<exists>ns. n_names (qm_net m') = n_names (qm_net m) @ ns"
  shows "qm_ok m'"
proof -
  have "handle_ok m' = handle_ok m" using assms by (simp add: handle_ok_def fun_eq_iff)
  moreover have "ends_ok m' = ends_ok m" using assms by (simp add: ends_ok_def)
  moreover have "reg_ok m \<Longrightarrow> reg_ok m'" using assms(2,7) by (fastforce simp: reg_ok_def nth_append)
  ultimately show ?thesis using assms by (simp add: qm_ok_def)
qed

named_theorems qm_keeps \<open>operations that keep the invariant of the manager\<close>

lemma qm_ok_init: "qm_ok (qm_init b)"
  by (simp add: qm_ok_def reg_ok_def ends_ok_def qm_init_def)

lemma signal_simps [simp]:
  "qm_net (signal_notify r m) = qm_net m" "qm_reg (signal_notify r m) = qm_reg m" "qm_jobs (signal_notify r m) = qm_jobs m"
  "qm_handles (signal_notify r m) = qm_handles m" "qm_events (signal_notify r m) = qm_events m"
  "qm_has_events (signal_notify r m) = qm_has_events m"
  by (simp_all add: signal_notify_def split: option.split prod.split)

lemma qm_put_simps [simp]:
  "qm_reg (keep m (qm_put r c x m)) = qm_reg m" "qm_jobs (keep m (qm_put r c x m)) = qm_jobs m"
  "qm_handles (keep m (qm_put r c x m)) = qm_handles m" "qm_events (keep m (qm_put r c x m)) = qm_events m"
  "qm_has_events (keep m (qm_put r c x m)) = qm_has_events m"
  "qm_net (keep m (qm_put r c x m)) = keep (qm_net m) (put r c x (qm_net m))"
  by (simp_all add: qm_put_def keep_def split: sum.split)

lemma prepare_simps [simp]:
  "qm_net (race_prepare l m) = qm_net m" "qm_reg (race_prepare l m) = qm_reg m" "qm_jobs (race_prepare l m) = qm_jobs m"
  "qm_handles (race_prepare l m) = qm_handles m" "qm_events (race_prepare l m) = qm_events m"
  "qm_has_events (race_prepare l m) = qm_has_events m"
  by (simp_all add: race_prepare_def Let_def split: option.split prod.split)

lemma qm_ok_put [qm_keeps]: "qm_ok m \<Longrightarrow> qm_ok (keep m (qm_put r c x m))"
  by (erule qm_ok_cong) simp_all

lemma qm_ok_net: "qm_ok m \<Longrightarrow> \<exists>ns. n_names w = n_names (qm_net m) @ ns \<Longrightarrow> qm_ok (m\<lparr>qm_net := w\<rparr>)"
  by (erule qm_ok_cong) simp_all

lemma qm_ok_race [qm_keeps]:
  assumes "qm_ok m"
  shows "race_begin l m = Inr (out, m') \<Longrightarrow> qm_ok m'" and "qm_ok (snd (race_end ts dn m))" and "qm_ok (run_set i m)"
proof -
  show "race_begin l m = Inr (out, m') \<Longrightarrow> qm_ok m'"
    by (rule qm_ok_cong [OF assms]) (auto simp: race_begin_def Let_def split: if_splits option.splits)
  show "qm_ok (snd (race_end ts dn m))"
    by (rule qm_ok_cong [OF assms]) (auto simp: race_end_def Let_def split: option.split prod.split)
  show "qm_ok (run_set i m)" by (rule qm_ok_cong [OF assms]) (simp_all add: run_set_def)
qed

text \<open>Updates of one job.\<close>

lemma filter_update:
  assumes "i < length xs"
  shows "length (filter P (xs[i := v])) + (if P (xs ! i) then 1 else 0) = length (filter P xs) + (if P v then 1 else 0)"
proof -
  have a: "filter P xs = filter P (take i xs) @ (if P (xs ! i) then [xs ! i] else []) @ filter P (drop (Suc i) xs)"
    by (subst (1) id_take_nth_drop [OF assms]) simp
  show ?thesis unfolding a upd_conv_take_nth_drop [OF assms] by simp
qed

text \<open>A job changes but keeps its name and channel, and whether it ended.\<close>

lemma qm_ok_set_job:
  assumes ok: "qm_ok m" and i: "i < length (qm_jobs m)"
    and name: "jb_name j = jb_name (qm_jobs m ! i)" "jb_chan j = jb_chan (qm_jobs m ! i)"
    and j: "job_ok j" "i \<in> set (qm_handles m) \<Longrightarrow> \<not> jb_over j \<Longrightarrow> jb_state j = Running"
    and events: "\<And>name. qm_has_events m \<Longrightarrow>
      length (filter (\<lambda>e. e = Stream_end name) es) + (if ended name (qm_jobs m ! i) then 1 else 0) =
      length (filter (\<lambda>e. e = Stream_end name) (qm_events m)) + (if ended name j then 1 else 0)"
  shows "qm_ok ((set_job i j m)\<lparr>qm_events := es\<rparr>)" (is "qm_ok ?m")
proof -
  have eqs: "qm_reg ?m = qm_reg m" "qm_net ?m = qm_net m" "qm_handles ?m = qm_handles m" "qm_jobs ?m = (qm_jobs m)[i := j]"
    "qm_events ?m = es" "qm_has_events ?m = qm_has_events m" by (simp_all add: set_job_def)
  have "ends_ok ?m" unfolding ends_ok_def eqs
  proof (intro impI allI)
    fix name assume e: "qm_has_events m"
    then have "length (filter (\<lambda>e. e = Stream_end name) (qm_events m)) = length (filter (ended name) (qm_jobs m))"
      using ok by (simp add: qm_ok_def ends_ok_def)
    then show "length (filter (\<lambda>e. e = Stream_end name) es) = length (filter (ended name) ((qm_jobs m)[i := j]))"
      using events [OF e, of name] filter_update [OF i, of "ended name" j] by linarith
  qed
  moreover have "list_all job_ok ((qm_jobs m)[i := j])"
    using ok i j(1) by (auto simp: qm_ok_def list_all_length nth_upd)
  moreover have "handle_ok ?m k" if "k \<in> set (qm_handles m)" for k
  proof -
    have "handle_ok m k" using ok that by (simp add: qm_ok_def list_all_iff)
    then show ?thesis using that name j(2) by (cases "k = i") (simp_all add: handle_ok_def eqs)
  qed
  moreover have "reg_ok ?m" using ok by (simp add: qm_ok_def reg_ok_def eqs)
  ultimately show ?thesis using ok unfolding qm_ok_def eqs by (simp add: list_all_iff)
qed

lemma qm_ok_same_job:
  assumes ok: "qm_ok m" and i: "i < length (qm_jobs m)"
    and name: "jb_name j = jb_name (qm_jobs m ! i)" "jb_chan j = jb_chan (qm_jobs m ! i)"
    and j: "job_ok j" "i \<in> set (qm_handles m) \<Longrightarrow> \<not> jb_over j \<Longrightarrow> jb_state j = Running"
    and e: "\<And>name. ended name j = ended name (qm_jobs m ! i)"
  shows "qm_ok (set_job i j m)"
  using qm_ok_set_job [OF ok i name j, of "qm_events m"] e by (simp add: set_job_def)

lemma qm_ok_job:
  assumes "qm_ok m" "i < length (qm_jobs m)"
  shows "window_ok (qm_jobs m ! i)" "jb_started (qm_jobs m ! i) \<Longrightarrow> jb_over (qm_jobs m ! i) \<Longrightarrow> jb_state (qm_jobs m ! i) \<noteq> Running"
    "i \<in> set (qm_handles m) \<Longrightarrow> \<not> jb_over (qm_jobs m ! i) \<Longrightarrow> jb_state (qm_jobs m ! i) = Running"
  using assms by (auto simp: qm_ok_def list_all_length job_ok_def handle_ok_def in_set_conv_nth)

lemma window_cong [simp]:
  "window_ok (j\<lparr>jb_state := st\<rparr>) = window_ok j" "window_ok (j\<lparr>jb_started := b\<rparr>) = window_ok j"
  "window_ok (j\<lparr>jb_over := b\<rparr>) = window_ok j" "window_ok (j\<lparr>jb_cancel := b\<rparr>) = window_ok j"
  by (simp_all add: window_ok_def split: option.split)

lemma qm_ok_handle [qm_keeps]:
  assumes ok: "qm_ok m" and i: "i < length (qm_jobs m)"
  shows "qm_ok (handle_cancel i m)"
    and "jb_over (qm_jobs m ! i) \<or> i \<notin> set (qm_handles m) \<Longrightarrow> qm_ok (handle_cancelled i m)"
proof -
  note job = qm_ok_job [OF ok i]
  show "qm_ok (handle_cancel i m)"
    using ok job by (auto simp: handle_cancel_def job_ok_def ended_def intro!: qm_ok_same_job [OF ok i])
  show "jb_over (qm_jobs m ! i) \<or> i \<notin> set (qm_handles m) \<Longrightarrow> qm_ok (handle_cancelled i m)"
    using ok job by (auto simp: handle_cancelled_def job_ok_def ended_def intro!: qm_ok_same_job [OF ok i])
qed

lemma qm_ok_value [qm_keeps]:
  assumes ok: "qm_ok m" and live: "job_live i m"
  shows "qm_ok (job_value i x m)"
proof -
  have i: "i < length (qm_jobs m)" using live by (simp add: job_live_def)
  have "qm_ok (set_job i ((remember x (qm_jobs m ! i))\<lparr>jb_started := True\<rparr>) m)"
    by (rule qm_ok_same_job [OF ok i])
      (use qm_ok_job [OF ok i] live window_remember [of "qm_jobs m ! i" x] in
        \<open>auto simp: job_ok_def ended_def job_live_def remember_def\<close>)
  then show ?thesis unfolding job_value_def keep_put_def by (rule qm_ok_put)
qed

lemma qm_ok_finish [qm_keeps]:
  assumes ok: "qm_ok m" and live: "job_live i m"
  shows "qm_ok (job_finish i e m)"
proof -
  have i: "i < length (qm_jobs m)" "\<not> jb_over (qm_jobs m ! i)" using live by (simp_all add: job_live_def)
  let ?name = "jb_name (qm_jobs m ! i)"
  define es where "es = (case e of Ends_failing ty msg \<Rightarrow> [Error_event ?name ty msg] | _ \<Rightarrow> []) @ [Stream_end ?name]"
  define st where "st = (case e of Ends \<Rightarrow> Done | Ends_cancelled \<Rightarrow> Job_cancelled | Ends_failing _ _ \<Rightarrow> Failed)"
  let ?j = "(qm_jobs m ! i)\<lparr>jb_state := st, jb_started := True, jb_over := True\<rparr>"
  let ?m = "(set_job i ?j m)\<lparr>qm_events := (if qm_has_events m then qm_events m @ es else qm_events m)\<rparr>"
  have "qm_ok ?m"
    by (rule qm_ok_set_job [OF ok i(1)])
      (use qm_ok_job [OF ok i(1)] i in \<open>auto simp: job_ok_def st_def es_def ended_def split: ending.splits\<close>)
  then show ?thesis
  proof (rule qm_ok_cong)
    show "qm_reg (job_finish i e m) = qm_reg ?m" "qm_jobs (job_finish i e m) = qm_jobs ?m"
      "qm_handles (job_finish i e m) = qm_handles ?m" "qm_has_events (job_finish i e m) = qm_has_events ?m"
      "qm_events (job_finish i e m) = qm_events ?m" 
      "\<exists>ns. n_names (qm_net (job_finish i e m)) = n_names (qm_net ?m) @ ns"
      by (cases e; simp add: job_finish_def Let_def record_event_def set_job_def keep_put_def st_def es_def)+
  qed
qed

lemma qm_ok_never_ran [qm_keeps]:
  assumes ok: "qm_ok m" and i: "i < length (qm_jobs m)" "\<not> jb_started (qm_jobs m ! i)"
  shows "qm_ok (job_never_ran i m)"
  unfolding job_never_ran_def
  by (rule qm_ok_same_job [OF ok i(1)]) (use qm_ok_job [OF ok i(1)] i in \<open>auto simp: job_ok_def ended_def\<close>)

lemma qm_ok_spawn [qm_keeps]:
  fixes m :: "'a qm"
  assumes ok: "qm_ok m" and run: "spawn name buf label l m = Inr (i, m')"
  shows "qm_ok m'"
proof -
  obtain c where c: "dict_get (qm_reg m) name = Some c" "i = length (qm_jobs m)"
    "m' = m\<lparr>qm_jobs := qm_jobs m @ [handle_init name buf label c l], qm_handles := qm_handles m @ [i]\<rparr>"
    using run by (auto simp: spawn_def Let_def split: option.splits)
  have "job_ok (handle_init name buf label c l :: 'a job)"
    by (cases buf) (auto simp: job_ok_def window_ok_def handle_init_def)
  moreover have "jb_name (handle_init name buf label c l :: 'a job) = name" "jb_chan (handle_init name buf label c l :: 'a job) = c"
    "jb_state (handle_init name buf label c l :: 'a job) = Running" "\<not> ended n (handle_init name buf label c l :: 'a job)" for n
    by (simp_all add: handle_init_def ended_def)
  moreover have "handle_ok m' k" if "k \<in> set (qm_handles m)" for k
  proof -
    have "handle_ok m k" using ok that by (simp add: qm_ok_def list_all_iff)
    then show ?thesis by (simp add: handle_ok_def c nth_append)
  qed
  moreover have "length (qm_jobs m) \<notin> set (qm_handles m)" using ok by (auto simp: qm_ok_def list_all_iff handle_ok_def)
  moreover have "handle_ok m' i" using calculation c by (simp add: handle_ok_def nth_append)
  moreover have "reg_ok m'" "ends_ok m'" using ok calculation(5) by (simp_all add: qm_ok_def reg_ok_def ends_ok_def c)
  ultimately show ?thesis using ok by (simp add: qm_ok_def c list_all_iff)
qed

lemma jobs_cancelled [simp]:
  "length (qm_jobs (handle_cancelled i m)) = length (qm_jobs m)" "length (qm_jobs (handle_cancel i m)) = length (qm_jobs m)"
  "jb_name (qm_jobs (handle_cancelled i m) ! k) = jb_name (qm_jobs m ! k)"
  "jb_name (qm_jobs (handle_cancel i m) ! k) = jb_name (qm_jobs m ! k)"
  "qm_handles (handle_cancelled i m) = qm_handles m" "qm_handles (handle_cancel i m) = qm_handles m"
  "qm_reg (handle_cancelled i m) = qm_reg m" "qm_reg (handle_cancel i m) = qm_reg m"
  "qm_net (handle_cancelled i m) = qm_net m" "qm_net (handle_cancel i m) = qm_net m"
  by (auto simp: handle_cancelled_def handle_cancel_def set_job_def nth_upd)

text \<open>Cancelling the jobs of a channel, after their handles were dropped.\<close>

lemma cancel_fold:
  assumes "qm_ok m" and "\<forall>i \<in> set ks. i < length (qm_jobs m) \<and> (jb_name (qm_jobs m ! i) = name \<longrightarrow> i \<notin> set (qm_handles m))"
  shows "qm_ok (fold (\<lambda>i m. if jb_name (qm_jobs m ! i) = name then handle_cancelled i (handle_cancel i m) else m) ks m)"
  using assms
proof (induction ks arbitrary: m)
  case (Cons i ks)
  let ?m = "if jb_name (qm_jobs m ! i) = name then handle_cancelled i (handle_cancel i m) else m"
  have "qm_ok ?m" using Cons.prems qm_ok_handle [of m i] qm_ok_handle(2) [of "handle_cancel i m" i] by simp
  moreover have "\<forall>i \<in> set ks. i < length (qm_jobs ?m) \<and> (jb_name (qm_jobs ?m ! i) = name \<longrightarrow> i \<notin> set (qm_handles ?m))"
    using Cons.prems by simp
  ultimately show ?case using Cons.IH [of ?m] by simp
qed simp

lemma cancel_fold_simps:
  "qm_handles (fold (\<lambda>i m. if jb_name (qm_jobs m ! i) = name then handle_cancelled i (handle_cancel i m) else m) ks m) = qm_handles m"
  "qm_reg (fold (\<lambda>i m. if jb_name (qm_jobs m ! i) = name then handle_cancelled i (handle_cancel i m) else m) ks m) = qm_reg m"
  "qm_net (fold (\<lambda>i m. if jb_name (qm_jobs m ! i) = name then handle_cancelled i (handle_cancel i m) else m) ks m) = qm_net m"
  "jb_name (qm_jobs (fold (\<lambda>i m. if jb_name (qm_jobs m ! i) = name then handle_cancelled i (handle_cancel i m) else m) ks m) ! k)
     = jb_name (qm_jobs m ! k)"
  "(fold (\<lambda>i m. if jb_name (qm_jobs m ! i) = name then handle_cancelled i (handle_cancel i m) else m) ks m)\<lparr>qm_handles := hs\<rparr> =
   fold (\<lambda>i m. if jb_name (qm_jobs m ! i) = name then handle_cancelled i (handle_cancel i m) else m) ks (m\<lparr>qm_handles := hs\<rparr>)"
proof (induction ks arbitrary: m)
  case (Cons i ks)
  {
    case 1 show ?case using Cons(1) by simp
  next
    case 2 show ?case using Cons(2) by simp
  next
    case 3 show ?case using Cons(3) by simp
  next
    case 4 show ?case using Cons(4) by simp
  next
    case 5
    have "(handle_cancelled i (handle_cancel i m))\<lparr>qm_handles := hs\<rparr> = handle_cancelled i (handle_cancel i (m\<lparr>qm_handles := hs\<rparr>))"
      by (simp add: handle_cancelled_def handle_cancel_def set_job_def)
    then show ?case using Cons(5) by simp
  }
qed simp_all

lemma remove_channel_steps:
  assumes "dict_get (qm_reg m) name = Some c"
  shows "remove_channel name m = Inr (fold (\<lambda>i m. if jb_name (qm_jobs m ! i) = name then handle_cancelled i (handle_cancel i m) else m)
    (qm_handles m) (m\<lparr>qm_reg := dict_del name (qm_reg m), qm_net := snd (flush c (qm_net m)),
      qm_handles := filter (\<lambda>i. jb_name (qm_jobs m ! i) \<noteq> name) (qm_handles m)\<rparr>))"
  using assms by (simp add: remove_channel_def Let_def cancel_handles_def cancel_fold_simps)

lemma qm_ok_remove:
  assumes ok: "qm_ok m" and run: "remove_channel name m = Inr m'"
  shows "qm_ok m'" and "dict_get (qm_reg m') name = None"
proof -
  obtain c where c: "dict_get (qm_reg m) name = Some c" using run by (auto simp: remove_channel_def split: option.splits)
  let ?m = "m\<lparr>qm_reg := dict_del name (qm_reg m), qm_net := snd (flush c (qm_net m)),
      qm_handles := filter (\<lambda>i. jb_name (qm_jobs m ! i) \<noteq> name) (qm_handles m)\<rparr>"
  let ?f = "\<lambda>i m. if jb_name (qm_jobs m ! i) = name then handle_cancelled i (handle_cancel i m) else m"
  have m': "m' = fold ?f (qm_handles m) ?m" using run remove_channel_steps [OF c] by simp
  have "qm_ok ?m" using ok by (auto simp: qm_ok_def reg_ok_def ends_ok_def list_all_iff handle_ok_def)
  then show "qm_ok m'" unfolding m'
    by (rule cancel_fold) (use ok in \<open>auto simp: qm_ok_def list_all_iff handle_ok_def\<close>)
  show "dict_get (qm_reg m') name = None" by (simp add: m' cancel_fold_simps)
qed

lemma qm_ok_add:
  assumes ok: "qm_ok m" and run: "add_channel name md m = Inr (c, m')" and free: "dict_get (qm_reg m) name = None"
  shows "qm_ok m'"
proof -
  obtain ch where ch: "chan_init name md (qm_has_events m) = Inr ch" "c = n_chan (qm_net m)"
    "m' = m\<lparr>qm_net := (qm_net m)\<lparr>n_chans := n_chans (qm_net m) @ [ch]\<rparr>, qm_reg := dict_set name c (qm_reg m)\<rparr>"
    using run by (auto simp: add_channel_def Let_def py_bind_Inr_iff)
  have "ch_name ch = name" using ch(1) by (auto simp: chan_init_def split: if_splits)
  then have names: "n_names (qm_net m') = n_names (qm_net m) @ [name]" "length (n_names (qm_net m)) = c"
    by (simp_all add: ch n_names_def)
  have "reg_ok m'" using ok names ch by (auto simp: qm_ok_def reg_ok_def nth_append less_Suc_eq split: if_splits)
  moreover have "handle_ok m' k" if "k \<in> set (qm_handles m)" for k
  proof -
    have "handle_ok m k" using ok that by (simp add: qm_ok_def list_all_iff)
    then show ?thesis using free by (auto simp: handle_ok_def ch)
  qed
  moreover have "ends_ok m'" using ok by (simp add: qm_ok_def ends_ok_def ch)
  ultimately show ?thesis using ok by (simp add: qm_ok_def ch list_all_iff)
qed

lemma qm_ok_room:
  assumes "qm_ok m" and "make_room name rp m = Inr m'"
  shows "qm_ok m'" and "dict_get (qm_reg m') name = None"
  using assms qm_ok_remove [of m name m'] by (auto simp: make_room_def dict_has_def split: if_splits)

lemma qm_ok_register:
  assumes ok: "qm_ok m"
  shows "qm_queue name rp m = Inr (c, m') \<Longrightarrow> qm_ok m'" and "qm_event name rp m = Inr (c, m') \<Longrightarrow> qm_ok m'"
  by (auto simp: qm_queue_def qm_event_def py_bind_Inr_iff split: if_splits
      intro: qm_ok_add dest: qm_ok_room [OF ok])

lemma qm_ok_step:
  assumes ok: "qm_ok m" and e: "qm_enabled a m"
  shows "qm_ok (qm_step a m)"
proof (cases a)
  case (Q_remove name)
  then show ?thesis using ok qm_ok_remove [OF ok] by (auto simp: qm_step_def keep_def split: sum.split)
next
  case (Q_cancel_end name iw)
  have c: "qm_ok (if snd iw then handle_cancelled (fst iw) m else m)"
    using ok e Q_cancel_end qm_ok_handle(2) [OF ok, of "fst iw"] by (simp add: qm_enabled_def)
  have "qm_ok (cancel_end name iw m)" unfolding cancel_end_def Let_def
    by (cases "dict_get (qm_reg (if snd iw then handle_cancelled (fst iw) m else m)) name")
      (use qm_ok_net [OF c] c in simp_all)
  then show ?thesis using Q_cancel_end by (simp add: qm_step_def)
next
  case Q_shutdown
  have "qm_ok (m\<lparr>qm_handles := []\<rparr>)" using ok by (auto simp: qm_ok_def reg_ok_def ends_ok_def)
  then show ?thesis using Q_shutdown by (simp add: qm_step_def shutdown_begin_def)
next
  case (Q_net b)
  then show ?thesis using qm_ok_net [OF ok names_step] by (simp add: qm_step_def)
next
  case (Q_queue name rp)
  then show ?thesis using ok qm_ok_register(1) [OF ok, of name rp] by (auto simp: qm_step_def split: sum.split)
next
  case (Q_event name rp)
  then show ?thesis using ok qm_ok_register(2) [OF ok, of name rp] by (auto simp: qm_step_def split: sum.split)
next
  case (Q_spawn name buf label l)
  then show ?thesis using ok qm_ok_spawn [OF ok, of name buf label l] by (auto simp: qm_step_def split: sum.split)
next
  case (Q_race l)
  then show ?thesis using ok qm_ok_race(1) [OF ok, of l] by (auto simp: qm_step_def split: sum.split)
next
  case (Q_value i x)
  then show ?thesis using e qm_ok_value [OF ok, of i x] by (simp add: qm_step_def qm_enabled_def)
next
  case (Q_finish i x)
  then show ?thesis using e qm_ok_finish [OF ok, of i x] by (simp add: qm_step_def qm_enabled_def)
next
  case (Q_never_ran i)
  then show ?thesis using e qm_ok_never_ran [OF ok, of i] by (simp add: qm_step_def qm_enabled_def)
next
  case (Q_cancel i)
  then show ?thesis using e qm_ok_handle(1) [OF ok, of i] by (simp add: qm_step_def qm_enabled_def)
next
  case (Q_cancelled i)
  then show ?thesis using e qm_ok_handle(2) [OF ok, of i] by (simp add: qm_step_def qm_enabled_def)
qed (use qm_ok_put [OF ok] qm_ok_race(2,3) [OF ok] in \<open>simp_all add: qm_step_def\<close>)

interpretation manager: step_invariant qm_enabled qm_step qm_ok
  by unfold_locales (rule qm_ok_step)

lemma has_events_cancel [simp]:
  "qm_has_events (handle_cancelled i m) = qm_has_events m" "qm_has_events (handle_cancel i m) = qm_has_events m"
  by (simp_all add: handle_cancelled_def handle_cancel_def set_job_def)

lemma has_events_remove: "remove_channel name m = Inr m' \<Longrightarrow> qm_has_events m' = qm_has_events m"
proof -
  have "qm_has_events (fold (\<lambda>i m. if jb_name (qm_jobs m ! i) = name then handle_cancelled i (handle_cancel i m) else m) ks m) =
      qm_has_events m" for ks and m :: "'a qm"
    by (induction ks arbitrary: m) simp_all
  then show "remove_channel name m = Inr m' \<Longrightarrow> qm_has_events m' = qm_has_events m"
    by (auto simp: remove_channel_def cancel_handles_def Let_def split: option.splits)
qed

lemma has_events_register:
  "qm_queue name rp m = Inr (c, m') \<Longrightarrow> qm_has_events m' = qm_has_events m"
  "qm_event name rp m = Inr (c, m') \<Longrightarrow> qm_has_events m' = qm_has_events m"
  by (auto simp: qm_queue_def qm_event_def make_room_def add_channel_def Let_def py_bind_Inr_iff
      dest: has_events_remove split: if_splits)

lemma has_events_step: "qm_has_events (qm_step a m) = qm_has_events m"
proof (cases a)
  case (Q_finish i e)
  then show ?thesis
    by (cases e) (simp_all add: qm_step_def job_finish_def Let_def record_event_def set_job_def keep_put_def)
qed (auto simp: qm_step_def keep_def spawn_def Let_def job_value_def keep_put_def set_job_def
    job_never_ran_def cancel_end_def shutdown_begin_def qm_put_def race_begin_def race_end_def run_set_def
    dest: has_events_remove has_events_register split: sum.split option.split prod.split)

interpretation keeps_events: step_invariant qm_enabled qm_step "\<lambda>m. qm_has_events m = b" for b
  by unfold_locales (simp add: has_events_step)

section \<open>What a race does with the items\<close>

text \<open>What the drain \<open>t\<close> took from channel \<open>c\<close>.\<close>

definition drained :: "nat \<Rightarrow> 'b net \<Rightarrow> nat \<Rightarrow> 'b list" where
  "drained c w t = (if chan_of t w = c then (case task_item t w of Some x \<Rightarrow> [x] | None \<Rightarrow> []) else [])"

lemma give_back_simps:
  assumes "t < length (n_tasks w)" "chan_of t w < n_chan w"
  shows "items_of c (give_back t w) = drained c w t @ items_of c w" "gone c (give_back t w) = gone c w"
    "n_chan (give_back t w) = n_chan w" "length (n_tasks (give_back t w)) = length (n_tasks w)"
    "u \<noteq> t \<Longrightarrow> u < length (n_tasks w) \<Longrightarrow> n_tasks (give_back t w) ! u = n_tasks w ! u"
    "u < length (n_tasks w) \<Longrightarrow> chan_of u (give_back t w) = chan_of u w"
    "still_cancelled (n_futs w) (n_futs (give_back t w))"
  using assms by (auto simp: give_back_def restore_front_def drained_def task_item_def split: pc.split)

lemma drained_cong:
  "n_tasks w' ! t = n_tasks w ! t \<Longrightarrow> drained c w' t = drained c w t"
  by (simp add: drained_def task_item_def)

lemma fold_give_back:
  assumes "distinct ks" and "\<forall>t \<in> set ks. t < length (n_tasks w) \<and> chan_of t w < n_chan w"
  shows "items_of c (fold give_back ks w) = concat (map (drained c w) (rev ks)) @ items_of c w"
    and "gone c (fold give_back ks w) = gone c w"
    and "length (n_tasks (fold give_back ks w)) = length (n_tasks w)"
    and "u \<notin> set ks \<Longrightarrow> u < length (n_tasks w) \<Longrightarrow> n_tasks (fold give_back ks w) ! u = n_tasks w ! u"
proof -
  have "items_of c (fold give_back ks w) = concat (map (drained c w) (rev ks)) @ items_of c w \<and>
      gone c (fold give_back ks w) = gone c w \<and> length (n_tasks (fold give_back ks w)) = length (n_tasks w) \<and>
      (\<forall>u. u \<notin> set ks \<longrightarrow> u < length (n_tasks w) \<longrightarrow> n_tasks (fold give_back ks w) ! u = n_tasks w ! u)"
    using assms
  proof (induction ks arbitrary: w)
    case (Cons t ks)
    let ?w = "give_back t w"
    have t: "t < length (n_tasks w)" "chan_of t w < n_chan w" "t \<notin> set ks" using Cons.prems by simp_all
    note gb = give_back_simps [OF t(1,2)]
    have dr: "map (drained c ?w) (rev ks) = map (drained c w) (rev ks)"
    proof (rule map_cong [OF refl], rule drained_cong)
      fix u assume "u \<in> set (rev ks)"
      then have "u \<noteq> t" "u < length (n_tasks w)" using Cons.prems t(3) by auto
      then show "n_tasks ?w ! u = n_tasks w ! u" by (rule gb(5))
    qed
    have "\<forall>u \<in> set ks. u < length (n_tasks ?w) \<and> chan_of u ?w < n_chan ?w"
      using Cons.prems gb by simp
    with Cons.IH [of ?w] Cons.prems have IH:
      "items_of c (fold give_back ks ?w) = concat (map (drained c ?w) (rev ks)) @ items_of c ?w"
      "gone c (fold give_back ks ?w) = gone c ?w" "length (n_tasks (fold give_back ks ?w)) = length (n_tasks ?w)"
      "\<forall>u. u \<notin> set ks \<longrightarrow> u < length (n_tasks ?w) \<longrightarrow> n_tasks (fold give_back ks ?w) ! u = n_tasks ?w ! u"
      by simp_all
    show ?case using IH(4) gb(4,5) t by (simp add: IH(1-3) dr gb(1,2,4))
  qed simp
  then show "items_of c (fold give_back ks w) = concat (map (drained c w) (rev ks)) @ items_of c w"
    "gone c (fold give_back ks w) = gone c w" "length (n_tasks (fold give_back ks w)) = length (n_tasks w)"
    "u \<notin> set ks \<Longrightarrow> u < length (n_tasks w) \<Longrightarrow> n_tasks (fold give_back ks w) ! u = n_tasks w ! u" by blast+
qed

lemma settle_items:
  assumes ok: "net_ok w" and dn: "distinct dn" "\<forall>t \<in> set dn. t < length (n_tasks w)"
    and run: "settle ts dn w = Some (out, w')" and win: "win = hd (filter (\<lambda>t. t \<in> set dn) ts)" "win \<in> set dn"
  obtains x where "task_item win w = Some x" "out = [(ch_name (chan_at (chan_of win w) w), x)]"
    "items_of c w' = concat (map (drained c w) (rev (filter (\<lambda>t. t \<noteq> win) dn))) @ items_of c w"
    "gone c w' = gone c w @ (if chan_of win w = c then [x] else [])"
proof -
  have ch: "\<forall>t \<in> set dn. t < length (n_tasks w) \<and> chan_of t w < n_chan w" using ok dn by (auto simp: net_ok_def)
  let ?ks = "filter (\<lambda>t. t \<noteq> win) dn"
  let ?w = "fold give_back ?ks w"
  obtain x where x: "task_item win w = Some x" "out = [(ch_name (chan_at (chan_of win w) w), x)]" "w' = deliver win ?w"
    using run win by (auto simp: settle_def Let_def split: option.splits)
  have d: "distinct ?ks" "\<forall>t \<in> set ?ks. t < length (n_tasks w) \<and> chan_of t w < n_chan w" using dn ch by simp_all
  note fg = fold_give_back [OF d]
  have "n_tasks ?w ! win = n_tasks w ! win" "win < length (n_tasks ?w)" using fg(3,4) win dn by auto
  then have "items_of c w' = items_of c ?w" "gone c w' = gone c ?w @ (if chan_of win w = c then [x] else [])"
    using x by (auto simp: deliver_def fire_on_get_def task_item_def split: pc.splits)
  then show ?thesis using that x fg(1,2) by simp
qed

text \<open>A cancelled drain ends without an item.\<close>

lemma doomed_runs_out:
  assumes "doomed t w" and "\<not> is_over t w"
  shows "items_of c (run_task t w) = items_of c w" "gone c (run_task t w) = gone c w" "n_chan (run_task t w) = n_chan w"
    "length (n_tasks (run_task t w)) = length (n_tasks w)" "tk_pc (n_tasks (run_task t w) ! t) = Aborted"
    "u < length (n_tasks w) \<Longrightarrow> chan_of u (run_task t w) = chan_of u w"
    "u \<noteq> t \<Longrightarrow> u < length (n_tasks w) \<Longrightarrow> n_tasks (run_task t w) ! u = n_tasks w ! u"
    "u \<noteq> t \<Longrightarrow> doomed u w \<Longrightarrow> doomed u (run_task t w)"
  using assms doomed_run [of u w t]
  by (auto simp: doomed_def is_over_def run_task_def abort_wait_def Let_def split: pc.splits)

lemma unwind_fold:
  assumes "distinct ks" and "\<forall>t \<in> set ks. t < length (n_tasks w) \<and> chan_of t w < n_chan w \<and> (is_over t w \<or> doomed t w)"
  shows "items_of c (fold (\<lambda>t w. give_back t (if is_over t w then w else run_task t w)) ks w) =
      concat (map (drained c w) (rev ks)) @ items_of c w \<and>
    gone c (fold (\<lambda>t w. give_back t (if is_over t w then w else run_task t w)) ks w) = gone c w"
  using assms
proof (induction ks arbitrary: w)
  case (Cons t ks)
  define F where "F = (\<lambda>t w :: 'a net. give_back t (if is_over t w then w else run_task t w))"
  let ?w = "F t w"
  have t: "t < length (n_tasks w)" "chan_of t w < n_chan w" "t \<notin> set ks" "is_over t w \<or> doomed t w"
    using Cons.prems by simp_all
  have "items_of c ?w = drained c w t @ items_of c w \<and> gone c ?w = gone c w \<and> n_chan ?w = n_chan w \<and>
      length (n_tasks ?w) = length (n_tasks w) \<and> (\<forall>u. u \<noteq> t \<longrightarrow> u < length (n_tasks w) \<longrightarrow> n_tasks ?w ! u = n_tasks w ! u) \<and>
      (\<forall>u. u \<noteq> t \<longrightarrow> doomed u w \<longrightarrow> doomed u ?w)"
  proof (cases "is_over t w")
    case True
    have "doomed u (give_back t w)" if "u \<noteq> t" "doomed u w" for u
      by (rule doomed_same [OF that(2)]) (use give_back_simps [OF t(1,2)] that in \<open>auto simp: doomed_def\<close>)
    then show ?thesis
      using True give_back_simps [OF t(1,2)] by (simp add: F_def)
  next
    case False
    then have d: "doomed t w" using t by simp
    note ro = doomed_runs_out [OF d False]
    have gb: "give_back t (run_task t w) = run_task t w" using ro(5) by (simp add: give_back_def)
    have "drained c w t = []" using False d by (auto simp: drained_def task_item_def is_over_def split: pc.splits)
    then show ?thesis
      using False ro gb by (simp add: F_def)
  qed
  then have step: "items_of c ?w = drained c w t @ items_of c w" "gone c ?w = gone c w" "n_chan ?w = n_chan w"
    "length (n_tasks ?w) = length (n_tasks w)"
    "\<And>u. u \<noteq> t \<Longrightarrow> u < length (n_tasks w) \<Longrightarrow> n_tasks ?w ! u = n_tasks w ! u"
    "\<And>u. u \<noteq> t \<Longrightarrow> doomed u w \<Longrightarrow> doomed u ?w"
    by blast+
  have dr: "map (drained c ?w) (rev ks) = map (drained c w) (rev ks)"
  proof (rule map_cong [OF refl], rule drained_cong)
    fix u assume "u \<in> set (rev ks)"
    then have "u \<noteq> t" "u < length (n_tasks w)" using Cons.prems t(3) by auto
    then show "n_tasks ?w ! u = n_tasks w ! u" by (rule step(5))
  qed
  have "\<forall>u \<in> set ks. u < length (n_tasks ?w) \<and> chan_of u ?w < n_chan ?w \<and> (is_over u ?w \<or> doomed u ?w)"
  proof
    fix u assume u: "u \<in> set ks"
    then have "u \<noteq> t" using t by blast
    moreover have "u < length (n_tasks w)" "chan_of u w < n_chan w" "is_over u w \<or> doomed u w" using u Cons.prems by auto
    ultimately show "u < length (n_tasks ?w) \<and> chan_of u ?w < n_chan ?w \<and> (is_over u ?w \<or> doomed u ?w)"
      using step(3-6) by (auto simp: is_over_def)
  qed
  with Cons.IH [of ?w] Cons.prems have IH:
    "items_of c (fold F ks ?w) = concat (map (drained c ?w) (rev ks)) @ items_of c ?w" "gone c (fold F ks ?w) = gone c ?w"
    unfolding F_def by auto
  show ?case unfolding F_def [symmetric] by (simp add: IH dr step(1,2))
qed simp

lemma cancel_simps:
  "items_of c (cancel_task t w) = items_of c w" "gone c (cancel_task t w) = gone c w" "n_chan (cancel_task t w) = n_chan w"
  "length (n_tasks (cancel_task t w)) = length (n_tasks w)" "tk_pc (n_tasks (cancel_task t w) ! u) = tk_pc (n_tasks w ! u)"
  "chan_of u (cancel_task t w) = chan_of u w" "length (n_futs (cancel_task t w)) = length (n_futs w)"
  by (auto simp: cancel_task_def Let_def nth_upd gone_def split: pc.split)

text \<open>After the first loop of the handler every drain is over or doomed.\<close>

lemma cancel_all:
  assumes "net_ok w" and "\<forall>t \<in> set ks. t < length (n_tasks w) \<and> tk_pc (n_tasks w ! t) \<noteq> Testing"
  defines "G \<equiv> fold (\<lambda>t w. if is_over t w then w else cancel_task t w)"
  shows "net_ok (G ks w)" and "items_of c (G ks w) = items_of c w" and "gone c (G ks w) = gone c w"
    and "n_chan (G ks w) = n_chan w" and "length (n_tasks (G ks w)) = length (n_tasks w)"
    and "tk_pc (n_tasks (G ks w) ! u) = tk_pc (n_tasks w ! u)" and "chan_of u (G ks w) = chan_of u w"
    and "doomed u w \<Longrightarrow> doomed u (G ks w)"
    and "\<forall>t \<in> set ks. is_over t (G ks w) \<or> doomed t (G ks w)"
proof -
  have "net_ok (G ks w) \<and> items_of c (G ks w) = items_of c w \<and> gone c (G ks w) = gone c w \<and>
    n_chan (G ks w) = n_chan w \<and> length (n_tasks (G ks w)) = length (n_tasks w) \<and>
    (\<forall>u. tk_pc (n_tasks (G ks w) ! u) = tk_pc (n_tasks w ! u) \<and> chan_of u (G ks w) = chan_of u w) \<and>
    (\<forall>u. doomed u w \<longrightarrow> doomed u (G ks w)) \<and> (\<forall>t \<in> set ks. is_over t (G ks w) \<or> doomed t (G ks w))"
    using assms(1,2)
  proof (induction ks arbitrary: w)
    case (Cons t ks)
    let ?w = "if is_over t w then w else cancel_task t w"
    have t: "t < length (n_tasks w)" "tk_pc (n_tasks w ! t) \<noteq> Testing" and ok: "net_ok w" using Cons.prems by simp_all
    have good: "net_ok ?w" using Cons.prems net_ok_step [of w "A_cancel t"] t by (simp add: enabled_def net_step_def)
    have dm: "doomed u ?w" if "doomed u w" for u
      using that doomed_step [of u w "A_cancel t"] t by (simp add: enabled_def net_step_def)
    have pcs: "tk_pc (n_tasks ?w ! u) = tk_pc (n_tasks w ! u)" "chan_of u ?w = chan_of u w" for u by (simp_all add: cancel_simps)
    have mine: "is_over t ?w \<or> doomed t ?w"
      using cancel_dooms [OF ok t(1)] t(2) by (cases "tk_pc (n_tasks w ! t)") (auto simp: is_over_def)
    have "\<forall>u \<in> set ks. u < length (n_tasks ?w) \<and> tk_pc (n_tasks ?w ! u) \<noteq> Testing" using Cons.prems by (simp add: cancel_simps)
    note IH = Cons.IH [OF good this]
    have "is_over t (G ks ?w) \<or> doomed t (G ks ?w)" using mine IH by (auto simp: is_over_def)
    then show ?case using IH dm pcs by (simp add: G_def cancel_simps)
  qed (simp add: G_def)
  then show "net_ok (G ks w)" "items_of c (G ks w) = items_of c w" "gone c (G ks w) = gone c w"
    "n_chan (G ks w) = n_chan w" "length (n_tasks (G ks w)) = length (n_tasks w)"
    "tk_pc (n_tasks (G ks w) ! u) = tk_pc (n_tasks w ! u)" "chan_of u (G ks w) = chan_of u w"
    "doomed u w \<Longrightarrow> doomed u (G ks w)" "\<forall>t \<in> set ks. is_over t (G ks w) \<or> doomed t (G ks w)" by blast+
qed

lemma unwind_items:
  assumes good: "net_ok w" and ts: "distinct ts" "\<forall>t \<in> set ts. t < length (n_tasks w) \<and> tk_pc (n_tasks w ! t) \<noteq> Testing"
  shows "items_of c (unwind ts w) = concat (map (drained c w) (rev ts)) @ items_of c w"
    and "gone c (unwind ts w) = gone c w"
proof -
  let ?w = "fold (\<lambda>t w. if is_over t w then w else cancel_task t w) ts w"
  note ca = cancel_all [OF good ts(2)]
  have "\<forall>t \<in> set ts. chan_of t w < n_chan w" using good ts by (auto simp: net_ok_def)
  then have "\<forall>t \<in> set ts. t < length (n_tasks ?w) \<and> chan_of t ?w < n_chan ?w \<and> (is_over t ?w \<or> doomed t ?w)"
    using ca(4,5,7,9) ts by simp
  note uf = unwind_fold [OF ts(1) this, of c]
  have "drained c ?w = drained c w" by (simp add: drained_def task_item_def ca(6,7) fun_eq_iff)
  then show "items_of c (unwind ts w) = concat (map (drained c w) (rev ts)) @ items_of c w" "gone c (unwind ts w) = gone c w"
    using uf ca(2,3) by (simp_all add: unwind_def)
qed

lemma start_drains_tasks:
  assumes "\<forall>c \<in> set cs. ch_mode (chan_at c w) = Queue_mode"
  shows "start_drains l cs w = w\<lparr>n_tasks := n_tasks w @ map (\<lambda>c. \<lparr>tk_chan = c, tk_loop = l, tk_fires = False,
    tk_cancel = False, tk_pc = Fresh\<rparr>) cs\<rparr>"
  using assms unfolding start_drains_def
  by (induction cs arbitrary: w) (simp_all add: start_drain_def keep_def chan_at_def)

lemma find_first: "find P xs = Some x \<Longrightarrow> \<exists>pre post. xs = pre @ x # post \<and> P x \<and> (\<forall>y \<in> set pre. \<not> P y)"
proof (induction xs)
  case (Cons y ys)
  show ?case
  proof (cases "P y")
    case True
    then show ?thesis using Cons.prems by (intro exI [of _ "[]"] exI [of _ ys]) auto
  next
    case False
    then obtain pre post where "ys = pre @ x # post" "P x" "\<forall>z \<in> set pre. \<not> P z" using Cons by auto
    then show ?thesis using False by (intro exI [of _ "y # pre"] exI [of _ post]) simp
  qed
qed simp

lemma find_none: "find P xs = None \<Longrightarrow> x \<in> set xs \<Longrightarrow> \<not> P x"
  by (metis find_None_iff)

section \<open>The properties\<close>

text \<open>In every state of a manager, every listed job handle belongs to a channel that is registered
  under the name of the job and is the one the job feeds, and a listed job that has not ended shows
  as running: removing or replacing a channel leaves no handle behind.\<close>

theorem handles_follow_registry:
  assumes "valid_run qm_enabled qm_step as (qm_init b)" and "m = fold qm_step as (qm_init b)" and "i \<in> set (qm_handles m)"
  shows "i < length (qm_jobs m) \<and> get_channel (jb_name (qm_jobs m ! i)) m = Inr (jb_chan (qm_jobs m ! i)) \<and>
    ch_name (chan_at (jb_chan (qm_jobs m ! i)) (qm_net m)) = jb_name (qm_jobs m ! i) \<and>
    (jb_over (qm_jobs m ! i) \<or> i \<in> set (running_handles m))"
proof -
  have ok: "qm_ok m" using manager.run_inv [OF qm_ok_init assms(1)] assms(2) by simp
  then have h: "handle_ok m i" using assms(3) by (simp add: qm_ok_def list_all_iff)
  then have "dict_get (qm_reg m) (jb_name (qm_jobs m ! i)) = Some (jb_chan (qm_jobs m ! i))" by (simp add: handle_ok_def)
  then have "jb_chan (qm_jobs m ! i) < length (n_names (qm_net m))" "n_names (qm_net m) ! jb_chan (qm_jobs m ! i) = jb_name (qm_jobs m ! i)"
    using ok unfolding qm_ok_def reg_ok_def by blast+
  then have "ch_name (chan_at (jb_chan (qm_jobs m ! i)) (qm_net m)) = jb_name (qm_jobs m ! i)"
    by (simp add: n_names_def chan_at_def)
  then show ?thesis using h assms(3) by (auto simp: handle_ok_def get_channel_def running_handles_def)
qed

text \<open>The values a handle shows are the last values its job produced: all of them, the last \<open>n\<close>, or none,
  as the buffer was asked for.\<close>

theorem handle_shows_last_values:
  assumes "valid_run qm_enabled qm_step as (qm_init b)" and "m = fold qm_step as (qm_init b)" and "i < length (qm_jobs m)"
    and "jb_values (qm_jobs m ! i) = Some vs"
  shows "handle_values (qm_jobs m ! i) = (case jb_limit (qm_jobs m ! i) of
      None \<Rightarrow> jb_produced (qm_jobs m ! i)
    | Some n \<Rightarrow> drop (length (jb_produced (qm_jobs m ! i)) - n) (jb_produced (qm_jobs m ! i)))"
proof -
  have "qm_ok m" using manager.run_inv [OF qm_ok_init assms(1)] assms(2) by simp
  from qm_ok_job(1) [OF this assms(3)] show ?thesis using assms(4) by (simp add: window_ok_def handle_values_def split: option.splits)
qed

text \<open>With an event manager, the end of every job that ran is reported exactly once, whether it
  ended, failed or was cancelled, and a job that ended does not show as running.\<close>

theorem job_end_reported_once:
  assumes "valid_run qm_enabled qm_step as (qm_init True)" and "m = fold qm_step as (qm_init True)"
  shows "length (filter (\<lambda>e. e = Stream_end name) (qm_events m)) = length (filter (ended name) (qm_jobs m)) \<and>
    list_all (\<lambda>j. \<not> (jb_started j \<and> jb_over j \<and> jb_state j = Running)) (qm_jobs m)"
proof -
  have ok: "qm_ok m" using manager.run_inv [OF qm_ok_init assms(1)] assms(2) by simp
  have "qm_has_events m"
    using keeps_events.run_inv [where b = True and s = "qm_init True" and as = as] assms by (simp add: qm_init_def)
  then show ?thesis using ok by (auto simp: qm_ok_def ends_ok_def list_all_iff job_ok_def)
qed

lemma cancelled_jobs:
  assumes "\<forall>i \<in> set ks. i < length (qm_jobs m)" and "i \<in> set ks" "jb_name (qm_jobs m ! i) = name"
  shows "jb_over (qm_jobs m ! i) \<or> jb_cancel (qm_jobs (fold (\<lambda>i m. if jb_name (qm_jobs m ! i) = name
    then handle_cancelled i (handle_cancel i m) else m) ks m) ! i)"
proof -
  let ?F = "\<lambda>i m :: 'a qm. if jb_name (qm_jobs m ! i) = name then handle_cancelled i (handle_cancel i m) else m"
  have mono: "jb_cancel (qm_jobs m ! i) \<Longrightarrow> jb_cancel (qm_jobs (?F k m) ! i)"
    "jb_over (qm_jobs (?F k m) ! i) = jb_over (qm_jobs m ! i)" for k and m :: "'a qm"
    by (auto simp: handle_cancelled_def handle_cancel_def set_job_def nth_upd)
  have keep: "jb_cancel (qm_jobs m ! i) \<Longrightarrow> jb_cancel (qm_jobs (fold ?F ks m) ! i)" for ks and m :: "'a qm"
    by (induction ks arbitrary: m) (use mono(1) in simp_all)
  show ?thesis using assms
  proof (induction ks arbitrary: m)
    case (Cons k ks)
    show ?case
    proof (cases "k = i")
      case True
      have "jb_over (qm_jobs m ! i) \<or> jb_cancel (qm_jobs (?F i m) ! i)"
        using Cons.prems True by (auto simp: handle_cancelled_def handle_cancel_def set_job_def)
      then show ?thesis using keep [of "?F i m" ks] True by auto
    next
      case False
      have "\<forall>j \<in> set ks. j < length (qm_jobs (?F k m))" "jb_name (qm_jobs (?F k m) ! i) = name"
        using Cons.prems by simp_all
      then show ?thesis using Cons.IH [of "?F k m"] Cons.prems(2) False mono(2) by auto
    qed
  qed simp
qed

lemma flush_others: "c < n_chan w \<Longrightarrow> items_of d (snd (flush c w)) = (if d = c then [] else items_of d w)"
  by (simp add: flush_def Let_def fire_on_discard_def)

text \<open>Removing a registered channel unregisters the name, discards what was queued, drops every handle
  of the name and requests the cancellation of its jobs; handles of other names stay, and so does every
  other channel with its items.\<close>

theorem remove_channel_clears:
  assumes ok: "qm_ok m" and c: "get_channel name m = Inr c"
  shows "\<exists>m'. remove_channel name m = Inr m' \<and> get_channel name m' = Inl KeyError \<and> items_of c (qm_net m') = [] \<and>
    qm_handles m' = filter (\<lambda>i. jb_name (qm_jobs m ! i) \<noteq> name) (qm_handles m) \<and>
    list_all (\<lambda>i. jb_name (qm_jobs m ! i) \<noteq> name \<or> jb_over (qm_jobs m ! i) \<or> jb_cancel (qm_jobs m' ! i)) (qm_handles m) \<and>
    (\<forall>n. n \<noteq> name \<longrightarrow> get_channel n m' = get_channel n m) \<and>
    (\<forall>d. d \<noteq> c \<longrightarrow> items_of d (qm_net m') = items_of d (qm_net m))"
proof -
  have g: "dict_get (qm_reg m) name = Some c" using c by (simp add: get_channel_def split: option.splits)
  then have "c < n_chan (qm_net m)" using ok by (auto simp: qm_ok_def reg_ok_def n_names_def)
  note fl = flush_others [OF this]
  let ?m = "m\<lparr>qm_reg := dict_del name (qm_reg m), qm_net := snd (flush c (qm_net m)),
      qm_handles := filter (\<lambda>i. jb_name (qm_jobs m ! i) \<noteq> name) (qm_handles m)\<rparr>"
  have "\<forall>i \<in> set (qm_handles m). i < length (qm_jobs ?m)" using ok by (auto simp: qm_ok_def list_all_iff handle_ok_def)
  note cj = cancelled_jobs [OF this]
  show ?thesis unfolding remove_channel_steps [OF g]
    by (intro exI conjI, rule refl) (use cj fl in \<open>auto simp: get_channel_def cancel_fold_simps list_all_iff\<close>)
qed

text \<open>C31: When drains of a race are over, the one registered first wins: its item is delivered, once; every
  item another drain took is back at the head of its channel; no other item moves.\<close>

theorem race_delivers_one:
  assumes good: "net_ok (qm_net m)" and dn: "dn \<noteq> []" "distinct dn" "set dn \<subseteq> set ts"
    and ts: "\<forall>t \<in> set ts. t < length (n_tasks (qm_net m))"
    and w: "win = hd (filter (\<lambda>t. t \<in> set dn) ts)" "task_item win (qm_net m) = Some x"
  shows "\<exists>m'. race_end ts dn m = (Inr (Delivered [(ch_name (chan_at (chan_of win (qm_net m)) (qm_net m)), x)]), m') \<and>
    gone c (qm_net m') = gone c (qm_net m) @ (if chan_of win (qm_net m) = c then [x] else []) \<and>
    items_of c (qm_net m') = concat (map (drained c (qm_net m)) (rev (filter (\<lambda>t. t \<noteq> win) dn))) @ items_of c (qm_net m)"
proof -
  let ?w = "qm_net m"
  have "filter (\<lambda>t. t \<in> set dn) ts \<noteq> []" using dn by (cases dn) (auto simp: filter_empty_conv)
  then have win: "win \<in> set dn" unfolding w(1) using hd_in_set by fastforce
  have ok: "net_ok ?w" using good by simp
  obtain out w' where run: "settle ts dn ?w = Some (out, w')" using w by (auto simp: settle_def Let_def)
  have lt: "\<forall>t \<in> set dn. t < length (n_tasks ?w)" using dn ts by auto
  obtain y where "task_item win ?w = Some y" "out = [(ch_name (chan_at (chan_of win ?w) ?w), y)]"
    "items_of c w' = concat (map (drained c ?w) (rev (filter (\<lambda>t. t \<noteq> win) dn))) @ items_of c ?w"
    "gone c w' = gone c ?w @ (if chan_of win ?w = c then [y] else [])"
    by (rule settle_items [OF ok dn(2) lt run w(1) win])
  then show ?thesis using w(2) run dn(1) by (simp add: race_end_def Let_def)
qed

text \<open>When the drain that would win was cancelled, as a flush of its channel does, the race raises
  CancelledError and gives back every item its drains took; nothing is delivered. (The race runs on the loop
  of its drains, so none of them is in the middle of a turn.)\<close>

theorem race_failure_gives_back:
  assumes good: "net_ok (qm_net m)" and dn: "dn \<noteq> []"
    and ts: "distinct ts"
      "\<forall>t \<in> set ts. t < length (n_tasks (qm_net m)) \<and> tk_pc (n_tasks (qm_net m) ! t) \<noteq> Testing"
    and w: "tk_pc (n_tasks (qm_net m) ! hd (filter (\<lambda>t. t \<in> set dn) ts)) = Aborted"
  shows "\<exists>m'. race_end ts dn m = (Inl CancelledError, m') \<and> gone c (qm_net m') = gone c (qm_net m) \<and>
    items_of c (qm_net m') = concat (map (drained c (qm_net m)) (rev ts)) @ items_of c (qm_net m)"
proof -
  have "settle ts dn (qm_net m) = None" using w by (simp add: settle_def Let_def task_item_def)
  then have "race_end ts dn m = (Inl CancelledError, m\<lparr>qm_net := unwind ts (qm_net m)\<rparr>)"
    using dn by (simp add: race_end_def Let_def)
  then show ?thesis using unwind_items [OF good ts, of c] by simp
qed

text \<open>A race on a manager with channels either delivers at once the head of the first queue channel that
  has an item, taking nothing else, or starts one drain for each queue channel, all of them empty.\<close>

theorem race_serves_or_waits:
  assumes good: "net_ok (qm_net m)" and reg: "qm_ok m" and run: "race_begin l m = Inr (out, m')"
  shows "case out of
      Delivered xs \<Rightarrow> \<exists>pre c post x. queue_channels m = pre @ c # post \<and> list_all (\<lambda>d. items_of d (qm_net m) = []) pre \<and>
        xs = [(ch_name (chan_at c (qm_net m)), x)] \<and> items_of c (qm_net m) = x # items_of c (qm_net m') \<and>
        gone c (qm_net m') = gone c (qm_net m) @ [x] \<and>
        (\<forall>d. d \<noteq> c \<longrightarrow> items_of d (qm_net m') = items_of d (qm_net m) \<and> gone d (qm_net m') = gone d (qm_net m))
    | Racing ts \<Rightarrow> list_all (\<lambda>d. items_of d (qm_net m) = []) (queue_channels m) \<and> distinct ts \<and>
        map (\<lambda>t. chan_of t (qm_net m')) ts = queue_channels m \<and>
        list_all (\<lambda>t. tk_pc (n_tasks (qm_net m') ! t) = Fresh \<and> \<not> tk_fires (n_tasks (qm_net m') ! t)) ts \<and>
        (\<forall>d. items_of d (qm_net m') = items_of d (qm_net m) \<and> gone d (qm_net m') = gone d (qm_net m))"
proof -
  let ?w = "qm_net m" and ?cs = "queue_channels m"
  have cs: "queue_channels (race_prepare l m) = ?cs" by (simp add: queue_channels_def)
  have modes: "\<forall>c \<in> set ?cs. ch_mode (chan_at c ?w) = Queue_mode" by (simp add: queue_channels_def)
  have chans: "c < n_chan ?w" if "c \<in> set ?cs" for c
  proof -
    from that obtain name where "(name, c) \<in> set (qm_reg m)" by (auto simp: queue_channels_def)
    then have "dict_get (qm_reg m) name = Some c" using reg by (simp add: qm_ok_def reg_ok_def)
    then have "c < length (n_names ?w)" using reg unfolding qm_ok_def reg_ok_def by blast
    then show ?thesis by (simp add: n_names_def)
  qed
  show ?thesis
  proof (cases "find (\<lambda>c. items_of c ?w \<noteq> []) ?cs")
    case None
    let ?ts = "[length (n_tasks ?w)..<length (n_tasks ?w) + length ?cs]"
    have m': "out = Racing ?ts" "qm_net m' = start_drains l ?cs ?w"
      using run None by (auto simp: race_begin_def Let_def cs split: if_splits)
    have e: "items_of c ?w = []" if "c \<in> set ?cs" for c using find_none [OF None that] by simp
    show ?thesis unfolding m' start_drains_tasks [OF modes]
      using e by (auto simp: list_all_iff nth_append gone_def intro!: nth_equalityI)
  next
    case (Some c)
    obtain pre post where p: "?cs = pre @ c # post" "items_of c ?w \<noteq> []" "\<forall>d \<in> set pre. items_of d ?w = []"
      using find_first [OF Some] by auto
    let ?t = "length (n_tasks ?w)"
    let ?w1 = "keep ?w (start_drain c l True ?w)"
    have m': "out = Delivered [(ch_name (chan_at c ?w), hd (items_of c ?w))]" "qm_net m' = run_task ?t ?w1"
      using run Some by (auto simp: race_begin_def Let_def cs split: if_splits)
    have c: "c < n_chan ?w" "ch_mode (chan_at c ?w) = Queue_mode" using chans modes p(1) by simp_all
    then have w1: "?w1 = ?w\<lparr>n_tasks := n_tasks ?w @ [\<lparr>tk_chan = c, tk_loop = l, tk_fires = True, tk_cancel = False, tk_pc = Fresh\<rparr>]\<rparr>"
      by (simp add: start_drain_def keep_def)
    then have "run_task ?t ?w1 = take_head ?t ?w1" using p(2) by (simp add: run_task_def drain_turn_def)
    then have net: "qm_net m' = fire_on_get c (hd (items_of c ?w)) (set_pc ?t (Finished (hd (items_of c ?w)))
        (set_items c (tl (items_of c ?w)) ?w1))"
      using m' w1 by (simp add: take_head_def Let_def)
    have it: "items_of d (qm_net m') = (if d = c then tl (items_of c ?w) else items_of d ?w)" for d
      unfolding net using c w1 by (simp add: fire_on_get_def)
    have go: "gone d (qm_net m') = gone d ?w @ (if d = c then [hd (items_of c ?w)] else [])" for d
      unfolding net w1 by (simp add: fire_on_get_def)
    show ?thesis unfolding m'(1) race_out.case
      by (rule exI [of _ pre], rule exI [of _ c], rule exI [of _ post], rule exI [of _ "hd (items_of c ?w)"])
        (use p it go in \<open>simp add: list_all_iff\<close>)
  qed
qed

text \<open>A put reaches the race: once a race has prepared its event, a put sets it, or has the loop set it, or
  leaves a mark that the next race finds, on whatever loop it runs, even if the loop was closed.\<close>

theorem put_wakes_race:
  assumes "qm_pair m = Some (e, l)" and "e < length (qm_wakes m)" and "qm_put r c x m = Inr m'"
  shows "qm_wakes m' ! e \<or> e \<in> set (qm_sets m') \<or>
    (l \<in> n_closed (qm_net m') \<and> qm_pending m' \<and>
     (\<forall>l'. qm_wakes (race_prepare l' m') ! fst (the (qm_pair (race_prepare l' m')))))"
proof -
  obtain w where w: "put r c x (qm_net m) = Inr w" "m' = signal_notify r (m\<lparr>qm_net := w\<rparr>)"
    using assms(3) by (auto simp: qm_put_def split: sum.splits)
  show ?thesis
    using assms(1,2) by (auto simp: w signal_notify_def race_prepare_def Let_def split: option.splits if_splits)
qed

text \<open>The event is cleared when a race begins, so a put that comes while no race waits does not wake the next
  one; what it put into a queue channel is found by the fast path, what it put into an event channel is not.\<close>

lemma put_between_races_forgotten:
  assumes "qm_pair m = Some (e, l)" and "e < length (qm_wakes m)" and "\<not> qm_pending m"
  shows "\<not> qm_wakes (race_prepare l (m\<lparr>qm_wakes := (qm_wakes m)[e := True]\<rparr>)) ! e"
  using assms by (simp add: race_prepare_def Let_def)

section \<open>Examples\<close>

text \<open>Two channels and a ring-buffered generator that yields three values, is cancelled and ends.\<close>

definition ex_qacts :: "nat qact list" where
  "ex_qacts = [Q_queue ''a'' False, Q_queue ''b'' False, Q_spawn ''b'' (B_int 2) [] 1, Q_value 0 1, Q_value 0 2, Q_value 0 3,
     Q_cancel 0, Q_finish 0 Ends_cancelled]"

lemma ex_qacts_valid: "valid_run qm_enabled qm_step ex_qacts (qm_init True)"
  by code_simp

theorem handles_follow_registry_witness:
  "0 \<in> set (qm_handles (fold qm_step ex_qacts (qm_init True))) \<and>
   get_channel ''b'' (fold qm_step ex_qacts (qm_init True)) = Inr 1"
proof -
  have h: "0 \<in> set (qm_handles (fold qm_step ex_qacts (qm_init True)))" by code_simp
  have n: "jb_name (qm_jobs (fold qm_step ex_qacts (qm_init True)) ! 0) = ''b''"
    "jb_chan (qm_jobs (fold qm_step ex_qacts (qm_init True)) ! 0) = 1" by code_simp+
  from handles_follow_registry [OF ex_qacts_valid refl h] h show ?thesis unfolding n by blast
qed

theorem handle_shows_last_values_witness:
  "handle_values (qm_jobs (fold qm_step ex_qacts (qm_init True)) ! 0) = [2, 3] \<and>
   jb_produced (qm_jobs (fold qm_step ex_qacts (qm_init True)) ! 0) = [1, 2, 3]"
proof -
  have l: "0 < length (qm_jobs (fold qm_step ex_qacts (qm_init True)))"
    and v: "jb_values (qm_jobs (fold qm_step ex_qacts (qm_init True)) ! 0) = Some [2, 3]"
    and b: "jb_limit (qm_jobs (fold qm_step ex_qacts (qm_init True)) ! 0) = Some 2"
      "jb_produced (qm_jobs (fold qm_step ex_qacts (qm_init True)) ! 0) = [1, 2, 3]"
    by code_simp+
  from handle_shows_last_values [OF ex_qacts_valid refl l v] show ?thesis by (simp add: b)
qed

theorem job_end_reported_once_witness:
  "length (filter (\<lambda>e. e = Stream_end ''b'') (qm_events (fold qm_step ex_qacts (qm_init True)))) = 1 \<and>
   valid_run qm_enabled qm_step ex_qacts (qm_init True)"
proof -
  have "length (filter (ended ''b'') (qm_jobs (fold qm_step ex_qacts (qm_init True)))) = 1" by code_simp
  with job_end_reported_once [OF ex_qacts_valid refl, of "''b''"] ex_qacts_valid show ?thesis by simp
qed

theorem remove_channel_clears_witness:
  "\<exists>m m' :: nat qm. qm_ok m \<and> items_of 1 (qm_net m) = [Value 1, Value 2, Value 3] \<and> remove_channel ''b'' m = Inr m' \<and>
     get_channel ''b'' m' = Inl KeyError \<and> items_of 1 (qm_net m') = [] \<and> qm_handles m' = []"
proof -
  let ?m = "fold qm_step (take 6 ex_qacts) (qm_init True)"
  have "valid_run qm_enabled qm_step (take 6 ex_qacts) (qm_init True)" by code_simp
  then have ok: "qm_ok ?m" by (rule manager.run_inv [OF qm_ok_init])
  have e: "get_channel ''b'' ?m = Inr 1" "items_of 1 (qm_net ?m) = [Value 1, Value 2, Value 3]"
    "filter (\<lambda>i. jb_name (qm_jobs ?m ! i) \<noteq> ''b'') (qm_handles ?m) = []" by code_simp+
  from remove_channel_clears [OF ok e(1)] ok e(2) show ?thesis unfolding e(3) by blast
qed

text \<open>A race on both channels: one put into each in the same tick, both drains take their item.\<close>

definition ex_race :: "nat qact list" where
  "ex_race = [Q_queue ''a'' False, Q_queue ''b'' False, Q_race 1, Q_net (A_run 0), Q_net (A_run 1),
     Q_put (Some 1) 1 (Value 7), Q_put (Some 1) 0 (Value 8), Q_put (Some 1) 0 (Value 9), Q_net (A_run 1), Q_net (A_run 0)]"

definition ex_raced :: "nat qm" where
  "ex_raced = fold qm_step ex_race (qm_init False)"

lemma ex_race_valid: "valid_run qm_enabled qm_step ex_race (qm_init False)"
  by code_simp

definition ex_net_acts :: "nat payload act list" where
  "ex_net_acts = [A_new ''a'' ''queue'' False, A_new ''b'' ''queue'' False, A_start 0 1 False, A_start 1 1 False,
     A_run 0, A_run 1, A_put (Some 1) 1 (Value 7), A_put (Some 1) 0 (Value 8), A_put (Some 1) 0 (Value 9), A_run 1, A_run 0]"

lemma ex_raced_good: "net_ok (qm_net ex_raced)"
proof -
  have "valid_run enabled net_step ex_net_acts net_init" by code_simp
  then have "net_ok (fold net_step ex_net_acts net_init)" by (rule chan_run.run_inv [OF net_ok_init])
  moreover have "qm_net ex_raced = fold net_step ex_net_acts net_init" unfolding ex_raced_def by code_simp
  ultimately show ?thesis by simp
qed

theorem race_delivers_one_witness:
  "\<exists>m'. race_end [0, 1] [1, 0] ex_raced = (Inr (Delivered [(''a'', Value 8)]), m') \<and>
     items_of 1 (qm_net m') = [Value 7] \<and> gone 1 (qm_net m') = [] \<and> net_ok (qm_net ex_raced)"
proof -
  have e: "\<forall>t \<in> set [0, 1]. t < length (n_tasks (qm_net ex_raced))" "task_item 0 (qm_net ex_raced) = Some (Value 8)"
    "chan_of 0 (qm_net ex_raced) = 0" "ch_name (chan_at 0 (qm_net ex_raced)) = ''a''" "gone 1 (qm_net ex_raced) = []"
    "concat (map (drained 1 (qm_net ex_raced)) (rev (filter (\<lambda>t. t \<noteq> 0) [1, 0]))) @ items_of 1 (qm_net ex_raced) = [Value 7]"
    unfolding ex_raced_def by code_simp+
  have "0 = hd (filter (\<lambda>t. t \<in> set [1, 0 :: nat]) [0, 1])" by simp
  from race_delivers_one [OF ex_raced_good _ _ _ e(1) this e(2), of 1] show ?thesis
    using e(3-6) ex_raced_good by auto
qed

text \<open>The first channel is flushed while both drains wait.\<close>

definition ex_flushed_acts :: "nat payload act list" where
  "ex_flushed_acts = [A_new ''a'' ''queue'' False, A_new ''b'' ''queue'' False, A_start 0 1 False, A_start 1 1 False,
     A_run 0, A_run 1, A_put (Some 1) 1 (Value 7), A_flush 0, A_run 1, A_run 0]"

theorem race_failure_gives_back_witness:
  "\<exists>m m' :: nat qm. net_ok (qm_net m) \<and> items_of 1 (qm_net m) = [] \<and> race_end [0, 1] [1, 0] m = (Inl CancelledError, m') \<and>
     items_of 1 (qm_net m') = [Value 7]"
proof -
  let ?m = "(qm_init False)\<lparr>qm_net := fold net_step ex_flushed_acts net_init\<rparr>"
  have "valid_run enabled net_step ex_flushed_acts net_init" by code_simp
  then have g: "net_ok (qm_net ?m)" using chan_run.run_inv [OF net_ok_init] by simp
  have e: "\<forall>t \<in> set [0, 1]. t < length (n_tasks (qm_net ?m)) \<and> tk_pc (n_tasks (qm_net ?m) ! t) \<noteq> Testing"
    "tk_pc (n_tasks (qm_net ?m) ! hd (filter (\<lambda>t. t \<in> set [1, 0]) [0, 1])) = Aborted" "items_of 1 (qm_net ?m) = []"
    "concat (map (drained 1 (qm_net ?m)) (rev [0, 1])) @ items_of 1 (qm_net ?m) = [Value 7]" by code_simp+
  have d: "distinct [0, 1 :: nat]" "[1, 0 :: nat] \<noteq> []" by simp_all
  from race_failure_gives_back [OF g d(2,1) e(1,2), of 1] g e(3) show ?thesis unfolding e(4) by blast
qed

theorem race_serves_or_waits_witness:
  "\<exists>m m' :: nat qm. net_ok (qm_net m) \<and> qm_ok m \<and> race_begin 1 m = Inr (Delivered [(''b'', Value 7)], m') \<and>
     items_of 1 (qm_net m) = Value 7 # items_of 1 (qm_net m')"
proof -
  let ?as = "[Q_queue ''a'' False, Q_queue ''b'' False, Q_put None 1 (Value 7)] :: nat qact list"
  let ?bs = "[A_new ''a'' ''queue'' False, A_new ''b'' ''queue'' False, A_put None 1 (Value 7)] :: nat payload act list"
  let ?m = "fold qm_step ?as (qm_init False)"
  have "valid_run qm_enabled qm_step ?as (qm_init False)" by code_simp
  then have ok: "qm_ok ?m" by (rule manager.run_inv [OF qm_ok_init])
  have "valid_run enabled net_step ?bs net_init" by code_simp
  then have "net_ok (fold net_step ?bs net_init)" by (rule chan_run.run_inv [OF net_ok_init])
  moreover have "qm_net ?m = fold net_step ?bs net_init" by code_simp
  ultimately have g: "net_ok (qm_net ?m)" by simp
  obtain m' where run: "race_begin 1 ?m = Inr (Delivered [(''b'', Value 7)], m')"
  proof -
    have "case race_begin 1 ?m of Inr (Delivered xs, _) \<Rightarrow> xs = [(''b'', Value 7)] | _ \<Rightarrow> False" by code_simp
    then show ?thesis using that by (auto split: sum.splits race_out.splits)
  qed
  have q: "queue_channels ?m = [0, 1]" "items_of 0 (qm_net ?m) = []" by code_simp+
  from race_serves_or_waits [OF g ok run] obtain pre c post x where
    r: "queue_channels ?m = pre @ c # post" "items_of c (qm_net ?m) = x # items_of c (qm_net m')" "x = Value 7" by auto
  have "c \<in> set (queue_channels ?m)" unfolding r(1) by simp
  then have "c = 0 \<or> c = 1" unfolding q(1) by simp
  then have "c = 1" using r(2) q(2) by (metis list.distinct(1))
  then show ?thesis using r g ok run by blast
qed

theorem put_wakes_race_witness:
  "\<exists>m m' :: nat qm. qm_pair m = Some (0, 1) \<and> qm_put None 0 (Value 7) m = Inr m' \<and>
     (qm_wakes m' ! 0 \<or> 0 \<in> set (qm_sets m') \<or> qm_pending m')"
proof -
  let ?m = "fold qm_step [Q_queue ''a'' False, Q_race 1] (qm_init False) :: nat qm"
  have e: "qm_pair ?m = Some (0, 1)" "0 < length (qm_wakes ?m)" by code_simp+
  have "is_ok (qm_put None 0 (Value 7) ?m)" by code_simp
  then obtain m' where run: "qm_put None 0 (Value 7) ?m = Inr m'" by (auto simp: is_ok_def split: sum.splits)
  from put_wakes_race [OF e run] e run show ?thesis by blast
qed

end
