(* ===== verification/SQLite_Backend.thy ===== *)
theory SQLite_Backend
  imports Event_Manager
begin

text \<open>
  The persistent event store: \<^verbatim>\<open>SQLiteEventBackend\<close> of \<^verbatim>\<open>src/nooa/storage/sqlite.py\<close>.

  The tables \<^verbatim>\<open>events\<close> and \<^verbatim>\<open>active_tags\<close> are lists of rows in rowid order; each statement the
  code executes is the corresponding operation on these lists, with the uniqueness constraints of
  the schema, and a \<^verbatim>\<open>with self._conn\<close> block is a transaction (rolled back when it raises). The
  JSON of an event is made and read by the third-party pydantic and the standard library: that is
  the record \<open>codec\<close>, an argument of the operations, and \<open>storable\<close> says of an event that it
  survives them.
  A failure of the database while a statement runs is an argument, \<open>fault\<close>. SQLite's 64-bit
  range of positions and counters is not reached.
\<close>

section \<open>Reading and writing the JSON of an event\<close>

record ('d, 'r) codec =
  cd_dump :: "event \<Rightarrow> 'd"                        \<comment> \<open>\<^verbatim>\<open>model_dump_json\<close>\<close>
  cd_loads :: "'d \<Rightarrow> 'r option"                   \<comment> \<open>\<^verbatim>\<open>json.loads\<close> of an object\<close>
  cd_type :: "'r \<Rightarrow> string"                        \<comment> \<open>its entry \<^verbatim>\<open>event_type\<close>\<close>
  cd_retype :: "string \<Rightarrow> 'r \<Rightarrow> 'r"
  cd_validate :: "string \<Rightarrow> 'r \<Rightarrow> event option"     \<comment> \<open>\<^verbatim>\<open>model_validate\<close> of a class\<close>
  cd_global :: "(string, string) dict"             \<comment> \<open>\<^verbatim>\<open>_EVENT_REGISTRY\<close>\<close>

definition core_types :: "(string, string) dict" where
  "core_types = map (\<lambda>n. (n, n))
     [''UserEvent'', ''AssistantEvent'', ''ToolCallEvent'', ''Task'', ''Message'', ''Reasoning'', ''Error'',
      ''Feedback'', ''LLMResponse'', ''PythonOutput'', ''Summary'', ''BeforeTurn'', ''AfterTurn'',
      ''DecisionRecord'', ''TuiSessionResumed'', ''TuiSessionCleared'']"

definition sq_deserialize :: "('d, 'r) codec \<Rightarrow> (string, string) dict \<Rightarrow> 'd \<Rightarrow> event option" where
  "sq_deserialize c reg data =
     (case cd_loads c data of
        None \<Rightarrow> None
      | Some raw \<Rightarrow>
          if cd_type c raw = ''LLMOutput''
          then cd_validate c ''LLMResponse'' (cd_retype c ''LLMResponse'' raw)
          else (case dict_get reg (cd_type c raw) of
              Some cls \<Rightarrow> cd_validate c cls raw
            | None \<Rightarrow> (case dict_get (cd_global c) (cd_type c raw) of
                  Some cls \<Rightarrow> cd_validate c cls raw
                | None \<Rightarrow> cd_validate c ''Metadata'' raw)))"

section \<open>Tables\<close>

record 'd sq_row =
  r_tag :: tag
  r_id :: string
  r_type :: string
  r_status :: event_status
  r_data :: 'd
  r_order :: int

record 'd sq =
  sq_rows :: "'d sq_row list"
  sq_active :: "(int \<times> tag) list"
  sq_counter :: int
  sq_next_tag :: int
  sq_registry :: "(string, string) dict"

definition max_or :: "int \<Rightarrow> int list \<Rightarrow> int" where
  "max_or d xs = (if xs = [] then d else Max (set xs))"

definition sq_max_position :: "'d sq \<Rightarrow> int" where
  "sq_max_position s = max_or (- 1) (map fst (sq_active s))"

text \<open>CAST(text AS INTEGER): blanks, a sign and the longest run of digits; 0 without digits.\<close>

definition sql_cast_int :: "string \<Rightarrow> int" where
  "sql_cast_int s =
     (let t = lstrip s; neg = (t \<noteq> [] \<and> hd t = CHR ''-'');
          u = (if t \<noteq> [] \<and> hd t \<in> {CHR ''-'', CHR ''+''} then tl t else t);
          n = int (fold (\<lambda>ch a. a * 10 + digit_val ch) (takeWhile is_digit u) 0)
      in if neg then - n else n)"

definition sql_tag_num :: "tag \<Rightarrow> int" where
  "sql_tag_num t =
     sql_cast_int (if str_contains ''..'' t then drop (length (str_split ''..'' t ! 0) + 2) t else t)"

definition sq_max_tag_num :: "'d sq_row list \<Rightarrow> int" where
  "sq_max_tag_num rows = max_or 0 (map (\<lambda>r. sql_tag_num (r_tag r)) rows)"

text \<open>A backend on the tables of an existing or empty database.\<close>

definition sq_open :: "'d sq_row list \<Rightarrow> (int \<times> tag) list \<Rightarrow> 'd sq" where
  "sq_open rows active =
     \<lparr>sq_rows = rows, sq_active = active, sq_counter = max_or (- 1) (map r_order rows) + 1,
      sq_next_tag = sq_max_tag_num rows + 1, sq_registry = core_types\<rparr>"

definition sq_register :: "string \<Rightarrow> string \<Rightarrow> 'd sq \<Rightarrow> 'd sq" where
  "sq_register event_type cls s = s\<lparr>sq_registry := dict_set event_type cls (sq_registry s)\<rparr>"

section \<open>Writing\<close>

text \<open>The transaction of \<^verbatim>\<open>store\<close>: a row for the event and one at the end of the view.\<close>

definition sq_do_store :: "tag \<Rightarrow> event \<Rightarrow> 'd \<Rightarrow> int \<Rightarrow> 'd sq \<Rightarrow> unit py_res \<times> 'd sq" where
  "sq_do_store t e data order s =
     (if t \<in> set (map r_tag (sq_rows s)) then (Inl IntegrityError, s)
      else if t \<in> set (map snd (sq_active s)) then (Inl IntegrityError, s)
      else (Inr (), s\<lparr>sq_rows := sq_rows s @ [\<lparr>r_tag = t, r_id = ev_id e, r_type = ev_event_type e,
                              r_status = ev_status e, r_data = data, r_order = order\<rparr>],
                     sq_active := sq_active s @ [(sq_max_position s + 1, t)]\<rparr>))"

definition sq_stored :: "tag \<Rightarrow> 'd sq \<Rightarrow> 'd sq" where
  "sq_stored t s = s\<lparr>sq_next_tag := max (sq_next_tag s) (tag_max_num t + 1)\<rparr>"

definition sq_store :: "('d, 'r) codec \<Rightarrow> tag \<Rightarrow> event \<Rightarrow> 'd sq \<Rightarrow> unit py_res \<times> 'd sq" where
  "sq_store c t e s =
     (case sq_do_store t e (cd_dump c e) (sq_counter s) (s\<lparr>sq_counter := sq_counter s + 1\<rparr>) of
        (Inl err, s1) \<Rightarrow> (Inl err, s1)
      | (Inr _, s1) \<Rightarrow> (Inr (), sq_stored t s1))"

text \<open>
  A statement may fail: \<open>Io committed\<close> is a disk I/O error, after which the transaction may have
  reached the disk or not; \<open>Corrupt\<close> is an error that says the file is damaged. The argument
  \<open>reconnect\<close> is the callback \<^verbatim>\<open>_on_io_error\<close>: absent, or whether it succeeds.
\<close>

datatype fault = Fine | Io bool | Corrupt | Other

definition sq_attempt :: "fault \<Rightarrow> tag \<Rightarrow> event \<Rightarrow> 'd \<Rightarrow> int \<Rightarrow> 'd sq \<Rightarrow> unit py_res \<times> 'd sq" where
  "sq_attempt f t e data order s = (case f of
     Fine \<Rightarrow> sq_do_store t e data order s
   | Io committed \<Rightarrow> (Inl OperationalError, if committed then snd (sq_do_store t e data order s) else s)
   | Corrupt \<Rightarrow> (Inl CorruptDatabaseError, s)
   | Other \<Rightarrow> (Inl DatabaseError, s))"

definition sq_store_faulty ::
    "('d, 'r) codec \<Rightarrow> bool option \<Rightarrow> fault \<Rightarrow> fault \<Rightarrow> tag \<Rightarrow> event \<Rightarrow> 'd sq \<Rightarrow> unit py_res \<times> 'd sq" where
  "sq_store_faulty c reconnect f1 f2 t e s =
     (let data = cd_dump c e; order = sq_counter s in
      case sq_attempt f1 t e data order (s\<lparr>sq_counter := sq_counter s + 1\<rparr>) of
        (Inr _, s1) \<Rightarrow> (Inr (), sq_stored t s1)
      | (Inl OperationalError, s1) \<Rightarrow>
          (if reconnect \<noteq> Some True then (Inl OperationalError, s1)
           else case sq_attempt f2 t e data order s1 of
             (Inr _, s2) \<Rightarrow> (Inr (), sq_stored t s2)
           | (Inl err, s2) \<Rightarrow>
               if err = IntegrityError then (Inr (), sq_stored t s2) else (Inl err, s2))
      | (Inl err, s1) \<Rightarrow> (Inl err, s1))"

text \<open>UPDATE events SET data = ?, status = ? WHERE tag = ?\<close>

definition sq_write :: "('d, 'r) codec \<Rightarrow> tag \<Rightarrow> event \<Rightarrow> 'd sq \<Rightarrow> 'd sq" where
  "sq_write c t e s = s\<lparr>sq_rows := map (\<lambda>r. if r_tag r = t
      then r\<lparr>r_data := cd_dump c e, r_status := ev_status e\<rparr> else r) (sq_rows s)\<rparr>"

definition sq_get :: "('d, 'r) codec \<Rightarrow> tag \<Rightarrow> 'd sq \<Rightarrow> event option" where
  "sq_get c t s =
     (case find (\<lambda>r. r_tag r = t) (sq_rows s) of
        None \<Rightarrow> None | Some r \<Rightarrow> sq_deserialize c (sq_registry s) (r_data r))"

definition sq_modify :: "('d, 'r) codec \<Rightarrow> tag \<Rightarrow> (event \<Rightarrow> event) \<Rightarrow> 'd sq \<Rightarrow> bool \<times> 'd sq" where
  "sq_modify c t f s = (case sq_get c t s of None \<Rightarrow> (False, s) | Some e \<Rightarrow> (True, sq_write c t (f e) s))"

definition sq_update :: "('d, 'r) codec \<Rightarrow> tag \<Rightarrow> field_update list \<Rightarrow> 'd sq \<Rightarrow> bool \<times> 'd sq" where
  "sq_update c t us s = sq_modify c t (apply_updates us) s"

definition sq_set_status :: "('d, 'r) codec \<Rightarrow> tag \<Rightarrow> event_status \<Rightarrow> 'd sq \<Rightarrow> bool \<times> 'd sq" where
  "sq_set_status c t st s = sq_modify c t (\<lambda>e. e\<lparr>ev_status := st\<rparr>) s"

definition sq_remove :: "tag \<Rightarrow> 'd sq \<Rightarrow> bool \<times> 'd sq" where
  "sq_remove t s =
     (if t \<in> set (map r_tag (sq_rows s))
      then (True, s\<lparr>sq_rows := filter (\<lambda>r. r_tag r \<noteq> t) (sq_rows s),
                   sq_active := filter (\<lambda>p. snd p \<noteq> t) (sq_active s)\<rparr>)
      else (False, s))"

text \<open>Positions from \<open>index\<close> on move up by one; the tag takes the position \<open>index\<close>.\<close>

definition sq_insert_active_tag :: "tag \<Rightarrow> int \<Rightarrow> 'd sq \<Rightarrow> unit py_res \<times> 'd sq" where
  "sq_insert_active_tag t index s =
     (if t \<in> set (map snd (sq_active s)) then (Inl IntegrityError, s)
      else (Inr (), s\<lparr>sq_active :=
         map (\<lambda>(p, u). (if index \<le> p then p + 1 else p, u)) (sq_active s) @ [(index, t)]\<rparr>))"

definition sq_remove_active_tag :: "tag \<Rightarrow> 'd sq \<Rightarrow> bool \<times> 'd sq" where
  "sq_remove_active_tag t s =
     (t \<in> set (map snd (sq_active s)), s\<lparr>sq_active := filter (\<lambda>p. snd p \<noteq> t) (sq_active s)\<rparr>)"

definition sq_clear :: "'d sq \<Rightarrow> 'd sq" where
  "sq_clear s = s\<lparr>sq_rows := [], sq_active := [], sq_counter := 0, sq_next_tag := 1\<rparr>"

definition sq_allocate_next_tag :: "'d sq \<Rightarrow> tag \<times> 'd sq" where
  "sq_allocate_next_tag s = (int_str (sq_next_tag s), s\<lparr>sq_next_tag := sq_next_tag s + 1\<rparr>)"

section \<open>Reading\<close>

definition sq_get_by_id :: "('d, 'r) codec \<Rightarrow> string \<Rightarrow> 'd sq \<Rightarrow> event option" where
  "sq_get_by_id c i s =
     (case find (\<lambda>r. r_id r = i) (sq_rows s) of
        None \<Rightarrow> None | Some r \<Rightarrow> sq_deserialize c (sq_registry s) (r_data r))"

definition sq_active_tags :: "'d sq \<Rightarrow> tag list" where
  "sq_active_tags s = map snd (sort_key fst (sq_active s))"

definition sq_all_events :: "('d, 'r) codec \<Rightarrow> 'd sq \<Rightarrow> event list" where
  "sq_all_events c s =
     List.map_filter (\<lambda>r. sq_deserialize c (sq_registry s) (r_data r)) (sort_key r_order (sq_rows s))"

definition sq_find_tag :: "event \<Rightarrow> 'd sq \<Rightarrow> tag option" where
  "sq_find_tag e s = map_option r_tag (find (\<lambda>r. r_id r = ev_id e) (sq_rows s))"

definition sq_len :: "'d sq \<Rightarrow> nat" where
  "sq_len s = length (sq_rows s)"

text \<open>
  \<^verbatim>\<open>_retry_on_io_error\<close> around the transaction \<open>f\<close> of an update, a status change or a removal: a
  disk I/O error is answered by one reconnect and one retry. The fault is one that reaches
  \<^verbatim>\<open>_retry_on_io_error\<close>; a corruption that the SELECT of a removal meets is caught there and reported
  as False, which leaves the tables as they are like a removal that finds nothing.
\<close>

definition sq_try :: "fault \<Rightarrow> ('s \<Rightarrow> bool \<times> 's) \<Rightarrow> 's \<Rightarrow> bool py_res \<times> 's" where
  "sq_try ft f s = (case ft of
     Fine \<Rightarrow> (Inr (fst (f s)), snd (f s))
   | Io committed \<Rightarrow> (Inl OperationalError, if committed then snd (f s) else s)
   | Corrupt \<Rightarrow> (Inl DatabaseError, s)
   | Other \<Rightarrow> (Inl DatabaseError, s))"

definition sq_retry :: "bool option \<Rightarrow> fault \<Rightarrow> fault \<Rightarrow> ('s \<Rightarrow> bool \<times> 's) \<Rightarrow> 's \<Rightarrow> bool py_res \<times> 's" where
  "sq_retry reconnect f1 f2 f s =
     (case sq_try f1 f s of
        (Inl err, s1) \<Rightarrow>
          if err \<noteq> OperationalError \<or> reconnect \<noteq> Some True then (Inl err, s1) else sq_try f2 f s1
      | (Inr r, s1) \<Rightarrow> (Inr r, s1))"

text \<open>The protocol's methods, on a database that works; a raised error leaves the tables as they were.\<close>

definition sq_ops :: "('d, 'r) codec \<Rightarrow> 'd sq backend_ops" where
  "sq_ops c =
     \<lparr>be_store = (\<lambda>t e s. snd (sq_store c t e s)), be_get = sq_get c, be_get_by_id = sq_get_by_id c,
      be_update = sq_update c, be_remove = sq_remove, be_set_status = sq_set_status c,
      be_active_tags = sq_active_tags,
      be_insert_active_tag = (\<lambda>t i s. snd (sq_insert_active_tag t i s)),
      be_remove_active_tag = sq_remove_active_tag, be_all_events = sq_all_events c,
      be_find_tag = sq_find_tag, be_clear = sq_clear,
      be_allocate_next_tag = sq_allocate_next_tag, be_len = sq_len\<rparr>"

lemma sq_ops_simps [simp]:
  "be_store (sq_ops c) t e s = snd (sq_store c t e s)" "be_get (sq_ops c) = sq_get c"
  "be_get_by_id (sq_ops c) = sq_get_by_id c" "be_update (sq_ops c) = sq_update c"
  "be_remove (sq_ops c) = sq_remove" "be_set_status (sq_ops c) = sq_set_status c"
  "be_active_tags (sq_ops c) = sq_active_tags"
  "be_insert_active_tag (sq_ops c) t i s = snd (sq_insert_active_tag t i s)"
  "be_remove_active_tag (sq_ops c) = sq_remove_active_tag" "be_all_events (sq_ops c) = sq_all_events c"
  "be_find_tag (sq_ops c) = sq_find_tag" "be_clear (sq_ops c) = sq_clear"
  "be_allocate_next_tag (sq_ops c) = sq_allocate_next_tag" "be_len (sq_ops c) = sq_len"
  by (simp_all add: sq_ops_def)

section \<open>The invariant of the tables\<close>

text \<open>
  An event that survives JSON: written and read it is the same event, whatever its tag and status. It
  needs a class that is registered under its type and fields that JSON can carry; a field that
  \<^verbatim>\<open>_json_safe\<close> turned into text comes back as that text.
\<close>

definition storable :: "('d, 'r) codec \<Rightarrow> (string, string) dict \<Rightarrow> event \<Rightarrow> bool" where
  "storable c reg e \<longleftrightarrow> (\<forall>t st. sq_deserialize c reg (cd_dump c (e\<lparr>ev_tag := t, ev_status := st\<rparr>)) =
     Some (e\<lparr>ev_tag := t, ev_status := st\<rparr>))"

definition sq_inv :: "('d, 'r) codec \<Rightarrow> (string, string) dict \<Rightarrow> 'd sq \<Rightarrow> bool" where
  "sq_inv c reg s \<longleftrightarrow>
     sq_registry s = reg \<and> distinct (map r_tag (sq_rows s)) \<and>
     sorted_wrt (<) (map r_order (sq_rows s)) \<and> (\<forall>r \<in> set (sq_rows s). r_order r < sq_counter s) \<and>
     distinct (map fst (sq_active s)) \<and> distinct (map snd (sq_active s)) \<and>
     snd ` set (sq_active s) \<subseteq> r_tag ` set (sq_rows s) \<and>
     (\<forall>r \<in> set (sq_rows s). \<exists>e. storable c reg e \<and> r_data r = cd_dump c e) \<and>
     0 < sq_next_tag s \<and> (\<forall>r \<in> set (sq_rows s). tag_max_num (r_tag r) < sq_next_tag s)"

lemma codec_read:
  assumes "storable c reg e"
  shows "sq_deserialize c reg (cd_dump c e) = Some e"
proof -
  have "e\<lparr>ev_tag := ev_tag e, ev_status := ev_status e\<rparr> = e" by simp
  then show ?thesis using assms unfolding storable_def by metis
qed

lemma storable_tag [simp]: "storable c reg (e\<lparr>ev_tag := t\<rparr>) = storable c reg e"
  by (simp add: storable_def)

lemma storable_status [simp]: "storable c reg (e\<lparr>ev_status := st\<rparr>) = storable c reg e"
proof -
  have "e\<lparr>ev_status := st, ev_tag := t, ev_status := st'\<rparr> = e\<lparr>ev_tag := t, ev_status := st'\<rparr>" for t st' by simp
  then show ?thesis by (simp add: storable_def)
qed

lemma sq_get_Some_row:
  "sq_get c t s \<noteq> None \<Longrightarrow> t \<in> r_tag ` set (sq_rows s)"
  by (auto simp: sq_get_def find_None_iff split: option.splits dest: find_Some_iff [THEN iffD1])

lemma sq_get_alt: "sq_get c t s = Option.bind (find (\<lambda>r. r_tag r = t) (sq_rows s)) (\<lambda>r. sq_deserialize c (sq_registry s) (r_data r))"
  by (simp add: sq_get_def split: option.splits)

lemma sq_get_row:
  assumes "sq_inv c reg s" and "r \<in> set (sq_rows s)"
  shows "\<exists>e. sq_get c (r_tag r) s = Some e \<and> storable c reg e \<and> r_data r = cd_dump c e"
proof -
  obtain r' where r': "find (\<lambda>x. r_tag x = r_tag r) (sq_rows s) = Some r'"
    using assms(2) by (cases "find (\<lambda>x. r_tag x = r_tag r) (sq_rows s)") (auto simp: find_None_iff)
  then have "r' \<in> set (sq_rows s)" "r_tag r' = r_tag r" by (auto simp: find_Some_iff)
  with assms have "r' = r" by (auto simp: sq_inv_def distinct_map dest: inj_onD)
  with assms r' show ?thesis by (auto simp: sq_inv_def sq_get_def codec_read)
qed

lemma sq_get_None_iff:
  assumes "sq_inv c reg s"
  shows "sq_get c t s = None \<longleftrightarrow> t \<notin> r_tag ` set (sq_rows s)"
  using sq_get_row [OF assms] sq_get_Some_row [of c t s] by force

lemma sq_invD:
  assumes "sq_inv c reg s"
  shows "sq_registry s = reg" "distinct (map r_tag (sq_rows s))" "sorted_wrt (<) (map r_order (sq_rows s))"
    "\<And>r. r \<in> set (sq_rows s) \<Longrightarrow> r_order r < sq_counter s" "distinct (map fst (sq_active s))"
    "distinct (map snd (sq_active s))" "snd ` set (sq_active s) \<subseteq> r_tag ` set (sq_rows s)"
    "\<And>r. r \<in> set (sq_rows s) \<Longrightarrow> \<exists>e. storable c reg e \<and> r_data r = cd_dump c e" "0 < sq_next_tag s"
    "\<And>r. r \<in> set (sq_rows s) \<Longrightarrow> tag_max_num (r_tag r) < sq_next_tag s"
  using assms by (auto simp: sq_inv_def)

section \<open>Positions\<close>

lemma max_or_ge: "x \<in> set xs \<Longrightarrow> x \<le> max_or d xs"
  by (auto simp: max_or_def)

lemma insort_key_before: "f y < f x \<Longrightarrow> insort_key f y (ys @ [x]) = insort_key f y ys @ [x]"
  for f :: "'a \<Rightarrow> int"
  by (induction ys) auto

lemma sort_key_max_last:
  fixes f :: "'a \<Rightarrow> int"
  assumes "\<forall>y \<in> set xs. f y < f x"
  shows "sort_key f (xs @ [x]) = sort_key f xs @ [x]"
  using assms by (induction xs) (simp_all add: insort_key_before)

lemma filter_snd_remove1:
  assumes "distinct (map snd xs)"
  shows "map snd (filter (\<lambda>p. snd p \<noteq> t) xs) = remove1 t (map snd xs)"
  using assms by (simp add: distinct_remove1_removeAll removeAll_filter_not_eq filter_map o_def eq_commute)

lemma active_filter:
  assumes "distinct (map snd (sq_active s))"
  shows "map snd (sort_key fst (filter (\<lambda>p. snd p \<noteq> t) (sq_active s))) = remove1 t (sq_active_tags s)"
proof -
  have "distinct (map snd (sort_key fst (sq_active s)))"
    using assms by (metis distinct_map distinct_sort set_sort)
  then show ?thesis by (simp add: sq_active_tags_def filter_snd_remove1 flip: filter_sort)
qed

text \<open>The new position is above all others, so the new tag comes last.\<close>

lemma active_append:
  "map snd (sort_key fst (sq_active s @ [(sq_max_position s + 1, t)])) = sq_active_tags s @ [t]"
proof -
  have "\<forall>y \<in> set (sq_active s). fst y < fst (sq_max_position s + 1, t)"
    using max_or_ge [of _ "map fst (sq_active s)" "- 1"] by (fastforce simp: sq_max_position_def)
  from sort_key_max_last [OF this] show ?thesis by (simp add: sq_active_tags_def)
qed

lemma position_fresh: "sq_max_position s + 1 \<notin> set (map fst (sq_active s))"
  using max_or_ge [of "sq_max_position s + 1" "map fst (sq_active s)" "- 1"]
  by (auto simp: sq_max_position_def)

section \<open>The operations on the invariant\<close>

lemma sq_store_new:
  assumes "sq_inv c reg s" and "storable c reg e" and "sq_get c t s = None"
  shows "sq_store c t e s = (Inr (), s\<lparr>sq_counter := sq_counter s + 1,
      sq_rows := sq_rows s @ [\<lparr>r_tag = t, r_id = ev_id e, r_type = ev_event_type e,
         r_status = ev_status e, r_data = cd_dump c e, r_order = sq_counter s\<rparr>],
      sq_active := sq_active s @ [(sq_max_position s + 1, t)],
      sq_next_tag := max (sq_next_tag s) (tag_max_num t + 1)\<rparr>)"
proof -
  have "t \<notin> set (map r_tag (sq_rows s))" using assms sq_get_None_iff by fastforce
  moreover have "t \<notin> set (map snd (sq_active s))" using calculation sq_invD(7) [OF assms(1)] by force
  ultimately show ?thesis
    by (simp add: sq_store_def sq_do_store_def sq_stored_def sq_max_position_def)
qed

lemma sq_inv_store_new:
  assumes "sq_inv c reg s" and "storable c reg e" and "sq_get c t s = None"
  shows "sq_inv c reg (snd (sq_store c t e s))"
proof -
  note d = sq_invD [OF assms(1)]
  have t: "t \<notin> set (map r_tag (sq_rows s))" using assms sq_get_None_iff by fastforce
  then have ta: "t \<notin> set (map snd (sq_active s))" using d(7) by force
  show ?thesis
    unfolding sq_store_new [OF assms] sq_inv_def
  proof (simp only: snd_conv, intro conjI ballI, goal_cases)
    case 4
    then show ?case using d(4) by (auto intro: less_imp_le)
  next
    case 3
    then show ?case using d(3,4) by (auto simp: sorted_wrt_append)
  next
    case 5
    then show ?case using d(5) position_fresh by simp
  next
    case (10 r)
    then show ?case using d(10) by (auto simp: less_max_iff_disj)
  qed (use d t ta assms(2) in auto)
qed

lemma find_map_row:
  "(\<And>r. r_tag (f r) = r_tag r) \<Longrightarrow> find (\<lambda>r. r_tag r = u) (map f rows) = map_option f (find (\<lambda>r. r_tag r = u) rows)"
  by (induction rows) auto

lemma find_snoc: "find P (xs @ [x]) = (case find P xs of Some y \<Rightarrow> Some y | None \<Rightarrow> if P x then Some x else None)"
  by (induction xs) auto

lemma sq_get_store_new:
  assumes "sq_inv c reg s" and "storable c reg e" and "sq_get c t s = None"
  shows "sq_get c u (snd (sq_store c t e s)) = (if u = t then Some e else sq_get c u s)"
proof -
  have t: "t \<notin> set (map r_tag (sq_rows s))" using assms sq_get_None_iff by fastforce
  have "find (\<lambda>r. r_tag r = t) (sq_rows s) = None" using t by (auto simp: find_None_iff)
  then show ?thesis
    using codec_read [OF assms(2)] sq_invD(1) [OF assms(1)]
    by (auto simp: sq_store_new [OF assms] sq_get_def find_snoc split: option.splits)
qed

lemma sq_write_get:
  assumes "sq_inv c reg s" and "storable c reg e" and "sq_get c t s \<noteq> None"
  shows "sq_get c u (sq_write c t e s) = (if u = t then Some e else sq_get c u s)"
  using assms(3) codec_read [OF assms(2)] sq_invD(1) [OF assms(1)]
  by (auto simp: sq_get_def sq_write_def find_map_row split: option.splits dest: find_Some_iff [THEN iffD1])

lemma sq_write_inv:
  assumes "sq_inv c reg s" and "storable c reg e"
  shows "sq_inv c reg (sq_write c t e s)"
proof -
  have m: "map r_tag (sq_rows (sq_write c t e s)) = map r_tag (sq_rows s)"
    "map r_order (sq_rows (sq_write c t e s)) = map r_order (sq_rows s)"
    by (simp_all add: sq_write_def)
  have img: "r_tag ` set (sq_rows (sq_write c t e s)) = r_tag ` set (sq_rows s)"
    using m(1) by (metis set_map)
  show ?thesis
    unfolding sq_inv_def m img using assms(2) sq_invD [OF assms(1)]
    by (intro conjI ballI) (auto simp: sq_write_def)
qed

lemma map_filter_snoc: "List.map_filter f (xs @ [x]) = List.map_filter f xs @ (case f x of None \<Rightarrow> [] | Some y \<Rightarrow> [y])"
  by (auto simp: List.map_filter_def split: option.splits)

lemma sq_all_store_new:
  assumes "sq_inv c reg s" and "storable c reg e" and "sq_get c t s = None"
  shows "sq_all_events c (snd (sq_store c t e s)) = sq_all_events c s @ [e]"
proof -
  have "\<forall>y \<in> set (sq_rows s). r_order y < sq_counter s" using sq_invD(4) [OF assms(1)] by blast
  then show ?thesis
    using codec_read [OF assms(2)] sq_invD(1) [OF assms(1)]
    by (simp add: sq_store_new [OF assms] sq_all_events_def map_filter_snoc sort_key_max_last)
qed

lemma sq_active_store_new:
  assumes "sq_inv c reg s" and "storable c reg e" and "sq_get c t s = None"
  shows "sq_active_tags (snd (sq_store c t e s)) = sq_active_tags s @ [t]"
  using active_append [of s t] by (simp add: sq_store_new [OF assms] sq_active_tags_def)

lemma sq_modify_laws:
  assumes "sq_inv c reg s"
  shows "(\<forall>e. sq_get c t s = Some e \<longrightarrow> storable c reg (f e)) \<Longrightarrow> sq_inv c reg (snd (sq_modify c t f s))"
    "(\<forall>e. sq_get c t s = Some e \<longrightarrow> storable c reg (f e)) \<Longrightarrow>
      sq_get c u (snd (sq_modify c t f s)) = (if u = t then map_option f (sq_get c t s) else sq_get c u s)"
    "fst (sq_modify c t f s) = (sq_get c t s \<noteq> None)"
    "sq_active_tags (snd (sq_modify c t f s)) = sq_active_tags s"
    "sq_next_tag (snd (sq_modify c t f s)) = sq_next_tag s"
  using sq_write_inv [OF assms(1)] sq_write_get [OF assms] assms(1)
  by (auto simp: sq_modify_def sq_active_tags_def sq_write_def split: option.splits)

lemma storable_get: "sq_inv c reg s \<Longrightarrow> sq_get c t s = Some e \<Longrightarrow> storable c reg e"
  using sq_get_row sq_get_Some_row by fastforce

lemma sq_inv_filter:
  assumes "sq_inv c reg s" and "\<And>p. p \<in> set (sq_active s) \<Longrightarrow> Q p \<Longrightarrow> snd p \<in> r_tag ` {r \<in> set (sq_rows s). P r}"
  shows "sq_inv c reg (s\<lparr>sq_rows := filter P (sq_rows s), sq_active := filter Q (sq_active s)\<rparr>)"
  using assms(2) sq_invD [OF assms(1)] unfolding sq_inv_def
  by (intro conjI ballI) (auto simp: distinct_map_filter sorted_wrt_map sorted_wrt_filter)

lemma find_filter_row:
  "find (\<lambda>r. r_tag r = u) (filter (\<lambda>r. r_tag r \<noteq> t) rows) = (if u = t then None else find (\<lambda>r. r_tag r = u) rows)"
  by (induction rows) auto

lemma sq_remove_laws:
  assumes "sq_inv c reg s"
  shows "sq_inv c reg (snd (sq_remove t s))"
    "fst (sq_remove t s) = (sq_get c t s \<noteq> None)"
    "sq_get c u (snd (sq_remove t s)) = (if u = t then None else sq_get c u s)"
    "sq_active_tags (snd (sq_remove t s))
      = (if sq_get c t s = None then sq_active_tags s else remove1 t (sq_active_tags s))"
    "sq_next_tag (snd (sq_remove t s)) = sq_next_tag s"
proof -
  note iff = sq_get_None_iff [OF assms]
  have "sq_inv c reg (s\<lparr>sq_rows := filter (\<lambda>r. r_tag r \<noteq> t) (sq_rows s), sq_active := filter (\<lambda>p. snd p \<noteq> t) (sq_active s)\<rparr>)"
    using sq_invD(7) [OF assms(1)] by (intro sq_inv_filter assms(1)) force
  then show "sq_inv c reg (snd (sq_remove t s))" using assms(1) by (simp add: sq_remove_def)
  show "fst (sq_remove t s) = (sq_get c t s \<noteq> None)" by (simp add: sq_remove_def iff)
  show "sq_get c u (snd (sq_remove t s)) = (if u = t then None else sq_get c u s)"
  proof (cases "t \<in> set (map r_tag (sq_rows s))")
    case True
    then show ?thesis by (simp add: sq_remove_def sq_get_alt find_filter_row)
  next
    case False
    then show ?thesis using iff [of t] by (auto simp: sq_remove_def)
  qed
  show "sq_active_tags (snd (sq_remove t s))
      = (if sq_get c t s = None then sq_active_tags s else remove1 t (sq_active_tags s))"
    using active_filter [OF sq_invD(6) [OF assms(1)], of t] by (simp add: sq_remove_def iff sq_active_tags_def)
  show "sq_next_tag (snd (sq_remove t s)) = sq_next_tag s" by (simp add: sq_remove_def)
qed

lemma sq_hide_laws:
  assumes "sq_inv c reg s"
  shows "sq_inv c reg (snd (sq_remove_active_tag t s))"
    "fst (sq_remove_active_tag t s) = (t \<in> set (sq_active_tags s))"
    "sq_get c u (snd (sq_remove_active_tag t s)) = sq_get c u s"
    "sq_active_tags (snd (sq_remove_active_tag t s)) = remove1 t (sq_active_tags s)"
    "sq_next_tag (snd (sq_remove_active_tag t s)) = sq_next_tag s"
proof -
  have "sq_inv c reg (s\<lparr>sq_rows := filter (\<lambda>r. True) (sq_rows s), sq_active := filter (\<lambda>p. snd p \<noteq> t) (sq_active s)\<rparr>)"
    using sq_invD(7) [OF assms] by (intro sq_inv_filter assms) force
  then show "sq_inv c reg (snd (sq_remove_active_tag t s))" by (simp add: sq_remove_active_tag_def)
  show "sq_active_tags (snd (sq_remove_active_tag t s)) = remove1 t (sq_active_tags s)"
    using active_filter [OF sq_invD(6) [OF assms], of t] by (simp add: sq_remove_active_tag_def sq_active_tags_def)
  show "sq_get c u (snd (sq_remove_active_tag t s)) = sq_get c u s"
    by (simp add: sq_remove_active_tag_def sq_get_alt)
qed (simp_all add: sq_remove_active_tag_def sq_active_tags_def)

lemma sq_cnt_above:
  "sq_inv c reg s \<Longrightarrow> sq_get c t s \<noteq> None \<Longrightarrow> tag_max_num t < sq_next_tag s"
  using sq_get_Some_row [of c t s] sq_invD(10) [of c reg s] by fastforce

lemma sq_status_laws:
  assumes "sq_inv c reg s"
  shows "sq_inv c reg (snd (sq_set_status c t st s))"
    "sq_get c u (snd (sq_set_status c t st s))
       = (if u = t then map_option (\<lambda>e. e\<lparr>ev_status := st\<rparr>) (sq_get c t s) else sq_get c u s)"
    "fst (sq_set_status c t st s) = (sq_get c t s \<noteq> None)"
    "sq_active_tags (snd (sq_set_status c t st s)) = sq_active_tags s"
    "sq_next_tag (snd (sq_set_status c t st s)) = sq_next_tag s"
  using sq_modify_laws [OF assms] storable_get [OF assms] by (simp_all add: sq_set_status_def)

lemma sq_clear_laws:
  assumes "sq_inv c reg s"
  shows "sq_inv c reg (sq_clear s)" "sq_get c u (sq_clear s) = None" "sq_active_tags (sq_clear s) = []"
    "sq_next_tag (sq_clear s) = 1"
  using sq_invD(1) [OF assms] by (simp_all add: sq_clear_def sq_inv_def sq_get_def sq_active_tags_def)

lemma sq_allocate_laws:
  shows "sq_inv c reg s \<Longrightarrow> sq_inv c reg (snd (sq_allocate_next_tag s))"
    "fst (sq_allocate_next_tag s) = int_str (sq_next_tag s)"
    "sq_get c u (snd (sq_allocate_next_tag s)) = sq_get c u s"
    "sq_active_tags (snd (sq_allocate_next_tag s)) = sq_active_tags s"
    "sq_all_events c (snd (sq_allocate_next_tag s)) = sq_all_events c s"
    "sq_next_tag (snd (sq_allocate_next_tag s)) = sq_next_tag s + 1"
  by (auto simp: sq_allocate_next_tag_def sq_inv_def sq_get_alt sq_active_tags_def sq_all_events_def)

section \<open>The contract\<close>

lemmas sq_laws = sq_inv_store_new sq_get_store_new sq_active_store_new sq_all_store_new
  sq_remove_laws sq_status_laws
lemmas sq_plain_laws = sq_hide_laws sq_clear_laws sq_allocate_laws

lemma sq_event_store: "event_store (sq_ops c) (sq_inv c reg) sq_next_tag (storable c reg)"
proof
  fix b :: "'a sq" and t e
  assume "sq_inv c reg b" and "storable c reg e" and "be_get (sq_ops c) t b = None"
  then show "sq_next_tag (be_store (sq_ops c) t e b) = max (sq_next_tag b) (tag_max_num t + 1)"
    using sq_store_new by fastforce
next
  show "sq_inv c reg b \<Longrightarrow> be_get (sq_ops c) t b = Some e \<Longrightarrow> storable c reg e" for b t e
    using storable_get by simp
next
  show "sq_inv c reg b \<Longrightarrow> be_get (sq_ops c) u b \<noteq> None \<Longrightarrow> tag_max_num u < sq_next_tag b" for b u
    using sq_cnt_above [of c reg b u] by simp
next
  show "sq_inv c reg b \<Longrightarrow> 0 < sq_next_tag b" for b by (rule sq_invD(9))
qed (simp_all only: sq_ops_simps sq_laws sq_plain_laws sq_update_def
    sq_modify_laws storable_status)

section \<open>Reopening a database\<close>

lemma sql_cast_int_str [simp]: "sql_cast_int (int_str n) = n"
proof -
  have dig: "\<forall>ch \<in> set (nat_str m). is_digit ch" for m using nat_str_set digit_char_props(1) by metis
  have tw: "takeWhile is_digit (nat_str m) = nat_str m" for m using dig by (simp add: takeWhile_eq_all_conv)
  have hd: "\<not> is_ws (hd (nat_str m))" "hd (nat_str m) \<noteq> CHR ''-''" "hd (nat_str m) \<noteq> CHR ''+''" for m
    by (metis hd_in_set nat_str_nonempty nat_str_set digit_char_props(3),
        metis hd_in_set nat_str_nonempty nat_str_set digit_char_props(4),
        metis hd_in_set nat_str_nonempty nat_str_set digit_char_props(5))
  have ls: "lstrip (nat_str m) = nat_str m" for m
    using hd(1) [of m] by (cases "nat_str m") (simp_all add: lstrip_def)
  have minus: "\<not> is_ws (CHR ''-'')" by (simp add: is_ws_def)
  show ?thesis
  proof (cases "n < 0")
    case True
    then show ?thesis by (simp add: sql_cast_int_def int_str_def lstrip_def minus Let_def tw fold_nat_str)
  next
    case False
    then show ?thesis using hd(2,3) [of "nat n"] by (simp add: sql_cast_int_def int_str_def ls Let_def tw fold_nat_str)
  qed
qed

lemma sql_tag_num_simps [simp]: "sql_tag_num (int_str n) = n" "sql_tag_num (range_tag a b) = b"
proof -
  have "drop (length (int_str a) + 2) (range_tag a b) = int_str b" by (simp add: range_tag_def)
  then show "sql_tag_num (range_tag a b) = b" by (simp add: sql_tag_num_def)
qed (simp add: sql_tag_num_def)

text \<open>Tags as a manager writes them.\<close>

definition manager_tag :: "tag \<Rightarrow> bool" where
  "manager_tag t \<longleftrightarrow> (\<exists>n > 0. t = int_str n) \<or> (\<exists>a b. 0 < b \<and> t = range_tag a b)"

lemma manager_tag_num: "manager_tag t \<Longrightarrow> sql_tag_num t = tag_max_num t \<and> 0 < tag_max_num t"
  by (auto simp: manager_tag_def)

lemma max_or_nonneg: "0 \<le> d \<Longrightarrow> \<forall>x \<in> set xs. 0 \<le> x \<Longrightarrow> 0 \<le> max_or d xs"
  by (auto simp: max_or_def Max_ge_iff neq_Nil_conv)

lemma max_or_less: "d < n \<Longrightarrow> \<forall>x \<in> set xs. x < n \<Longrightarrow> max_or d xs < n"
  by (simp add: max_or_def)

lemma reopen_facts:
  assumes "sq_inv c core_types s" and "\<forall>r \<in> set (sq_rows s). manager_tag (r_tag r)"
  shows "sq_inv c core_types (sq_open (sq_rows s) (sq_active s))"
    "sq_next_tag (sq_open (sq_rows s) (sq_active s)) \<le> sq_next_tag s"
proof -
  note d = sq_invD [OF assms(1)]
  have num: "sql_tag_num (r_tag r) = tag_max_num (r_tag r)" "0 < tag_max_num (r_tag r)"
    if "r \<in> set (sq_rows s)" for r using assms(2) manager_tag_num that by blast+
  let ?nums = "map (\<lambda>r. sql_tag_num (r_tag r)) (sq_rows s)"
  have pos: "0 \<le> max_or 0 ?nums" using num by (intro max_or_nonneg) (auto intro: less_imp_le)
  have above: "tag_max_num (r_tag r) < max_or 0 ?nums + 1" if "r \<in> set (sq_rows s)" for r
    using max_or_ge [of "sql_tag_num (r_tag r)" ?nums 0] num(1) that by auto
  have order: "r_order r < max_or (- 1) (map r_order (sq_rows s)) + 1" if "r \<in> set (sq_rows s)" for r
    using max_or_ge [of "r_order r" "map r_order (sq_rows s)" "- 1"] that by auto
  show "sq_inv c core_types (sq_open (sq_rows s) (sq_active s))"
    using d pos above order unfolding sq_inv_def sq_open_def sq_max_tag_num_def by simp
  have "max_or 0 ?nums < sq_next_tag s" using d(9,10) num by (intro max_or_less) auto
  then show "sq_next_tag (sq_open (sq_rows s) (sq_active s)) \<le> sq_next_tag s"
    by (simp add: sq_open_def sq_max_tag_num_def)
qed

section \<open>Where an inserted tag lands\<close>

lemma insort_key_split:
  fixes f :: "'a \<Rightarrow> int"
  assumes "sorted (map f xs)" and "\<forall>y \<in> set xs. f y \<noteq> f x"
  shows "insort_key f x xs = takeWhile (\<lambda>y. f y < f x) xs @ x # dropWhile (\<lambda>y. f y < f x) xs"
  using assms by (induction xs) auto

lemma sorted_takeWhile_less:
  fixes xs :: "int list"
  assumes "sorted xs"
  shows "takeWhile (\<lambda>y. y < i) xs = filter (\<lambda>y. y < i) xs"
  using assms by (induction xs) (force intro!: filter_False [symmetric])+

definition shift :: "int \<Rightarrow> int \<times> tag \<Rightarrow> int \<times> tag" where
  "shift i = (\<lambda>(p, u). (if i \<le> p then p + 1 else p, u))"

lemma shift_simps [simp]: "fst (shift i y) < i \<longleftrightarrow> fst y < i" "snd (shift i y) = snd y"
  by (cases y; simp add: shift_def)+

lemma sort_shift:
  "sort_key fst (map (shift i) xs) = map (shift i) (sort_key fst xs)"
proof (induction xs)
  case (Cons x xs)
  have "insort_key fst (shift i x) (map (shift i) ys) = map (shift i) (insort_key fst x ys)" for ys
    by (induction ys) (auto simp: shift_def split: prod.splits)
  with Cons show ?case by simp
qed simp

text \<open>The number of tags whose position is below the index.\<close>

definition below :: "int \<Rightarrow> 'd sq \<Rightarrow> nat" where
  "below i s = length (filter (\<lambda>p. fst p < i) (sq_active s))"

lemma insert_lands:
  assumes "distinct (map fst (sq_active s))" and "t \<notin> set (map snd (sq_active s))"
  shows "sq_active_tags (snd (sq_insert_active_tag t i s))
    = take (below i s) (sq_active_tags s) @ t # drop (below i s) (sq_active_tags s)"
proof -
  let ?xs = "sort_key fst (sq_active s)" and ?P = "\<lambda>y :: int \<times> tag. fst y < i"
  have "sort_key fst (map (shift i) (sq_active s) @ [(i, t)]) = insort_key fst (i, t) (map (shift i) ?xs)"
  proof -
    have fresh: "\<forall>y \<in> set (map (shift i) (sq_active s)). fst y \<noteq> i" by (auto simp: shift_def split: if_splits)
    have "insort_key fst x (insort_key fst z ys) = insort_key fst z (insort_key fst x ys)"
      if "fst x \<noteq> fst z" for x z :: "int \<times> tag" and ys
      using that by (induction ys) auto
    then have "foldr (insort_key fst) xs (insort_key fst (i, t) ys) = insort_key fst (i, t) (foldr (insort_key fst) xs ys)"
      if "\<forall>y \<in> set xs. fst y \<noteq> i" for xs ys :: "(int \<times> tag) list"
      using that by (induction xs) auto
    from this [OF fresh, of "[]"] have "foldr (insort_key fst) (map (shift i) (sq_active s)) [(i, t)]
        = insort_key fst (i, t) (sort_key fst (map (shift i) (sq_active s)))" by (simp add: sort_key_def)
    then show ?thesis unfolding sort_shift by (simp add: sort_key_def)
  qed
  also have "\<dots> = takeWhile ?P (map (shift i) ?xs) @ (i, t) # dropWhile ?P (map (shift i) ?xs)"
  proof (subst insort_key_split)
    show "sorted (map fst (map (shift i) ?xs))" by (simp flip: sort_shift)
    show "\<forall>y \<in> set (map (shift i) ?xs). fst y \<noteq> fst (i, t)" by (auto simp: shift_def split: if_splits)
  qed simp
  also have "takeWhile ?P (map (shift i) ?xs) = map (shift i) (takeWhile ?P ?xs)"
    by (simp add: takeWhile_map o_def)
  also have "dropWhile ?P (map (shift i) ?xs) = map (shift i) (dropWhile ?P ?xs)"
    by (simp add: dropWhile_map o_def)
  finally have eq: "map snd (sort_key fst (map (shift i) (sq_active s) @ [(i, t)]))
      = map snd (takeWhile ?P ?xs) @ t # map snd (dropWhile ?P ?xs)"
    by (simp add: o_def)
  have len: "length (takeWhile ?P ?xs) = below i s"
  proof -
    have "map fst (takeWhile ?P ?xs) = filter (\<lambda>y. y < i) (map fst ?xs)"
      using sorted_takeWhile_less [of "map fst ?xs" i] by (simp add: takeWhile_map o_def)
    then have "length (takeWhile ?P ?xs) = length (filter (\<lambda>y. y < i) (map fst ?xs))" by (metis length_map)
    also have "\<dots> = length (filter ?P ?xs)" by (simp add: filter_map o_def)
    also have "\<dots> = below i s" by (simp add: below_def filter_sort)
    finally show ?thesis .
  qed
  have "takeWhile ?P ?xs = take (below i s) ?xs" "dropWhile ?P ?xs = drop (below i s) ?xs"
    using len by (metis takeWhile_eq_take, metis dropWhile_eq_drop)
  with eq assms(2) show ?thesis
    by (simp add: sq_insert_active_tag_def sq_active_tags_def take_map drop_map shift_def [symmetric])
qed

section \<open>Adding and collapsing on the tables\<close>

lemma sq_inv_insert:
  assumes "sq_inv c reg s" and "t \<in> r_tag ` set (sq_rows s)"
  shows "sq_inv c reg (snd (sq_insert_active_tag t i s))"
proof (cases "t \<in> set (map snd (sq_active s))")
  case False
  note d = sq_invD [OF assms(1)]
  have inj: "inj_on (\<lambda>p. if i \<le> p then p + 1 else p) A" for A by (auto simp: inj_on_def)
  have fst: "map fst (map (shift i) (sq_active s)) = map (\<lambda>p. if i \<le> p then p + 1 else p) (map fst (sq_active s))"
    by (auto simp: shift_def)
  have "distinct (map fst (map (shift i) (sq_active s)))"
    unfolding fst using d(5) inj by (subst distinct_map) simp
  moreover have "i \<notin> fst ` set (map (shift i) (sq_active s))" by (auto simp: shift_def split: if_splits)
  moreover have snd: "map snd (map (shift i) (sq_active s)) = map snd (sq_active s)" by (simp add: o_def)
  moreover define l where "l = map (shift i) (sq_active s) @ [(i, t)]"
  ultimately have l: "distinct (map fst l)" "distinct (map snd l)" "snd ` set l \<subseteq> r_tag ` set (sq_rows s)"
    using False d(6,7) assms(2) by (simp_all del: map_map add: image_image)
  have "snd (sq_insert_active_tag t i s) = s\<lparr>sq_active := l\<rparr>"
    using False by (simp add: sq_insert_active_tag_def shift_def l_def)
  with l d(1-4,8-10) show ?thesis unfolding sq_inv_def by simp
qed (use assms(1) in \<open>simp add: sq_insert_active_tag_def\<close>)

lemma sq_add_active:
  assumes "sq_inv c reg (em_backend s)" and "storable c reg (stamp_metadata stack fmt e)"
    and "ev_summary e = None" and "ev_role e \<noteq> RUNTIME_EVENT"
    and run: "em_add (sq_ops c) beh stack fmt e True s = (r, fired, s')"
  shows "sq_active (em_backend s') = sq_active (em_backend s) @
        [(sq_max_position (em_backend s) + 1, int_str (sq_next_tag (em_backend s)))] \<and>
    sq_next_tag (em_backend s') = sq_next_tag (em_backend s) + 1 \<and> sq_inv c reg (em_backend s') \<and>
    map r_tag (sq_rows (em_backend s')) = map r_tag (sq_rows (em_backend s)) @ [int_str (sq_next_tag (em_backend s))]"
proof -
  let ?b = "em_backend s"
  let ?b1 = "snd (sq_allocate_next_tag ?b)" and ?t = "int_str (sq_next_tag ?b)"
  define e' where "e' = (stamp_metadata stack fmt e)\<lparr>ev_tag := Some ?t\<rparr>"
  have e': "storable c reg e'" using assms(2) by (simp add: e'_def)
  have inv1: "sq_inv c reg ?b1" by (rule sq_allocate_laws(1) [OF assms(1)])
  have new: "sq_get c ?t ?b1 = None"
    using sq_cnt_above [OF assms(1), of ?t] by (cases "sq_get c ?t ?b") (auto simp: sq_allocate_laws(3))
  have "em_backend s' = snd (sq_store c ?t e' ?b1)"
    using run assms(3,4)
    by (auto simp: em_add_def Let_def stamp_metadata_def e'_def sq_allocate_next_tag_def
        split: prod.splits dest!: em_emit_backendD)
  then show ?thesis
    using sq_store_new [OF inv1 e' new] sq_inv_store_new [OF inv1 e' new]
    by (simp add: sq_allocate_next_tag_def sq_max_position_def)
qed

lemma sq_archive_active:
  "sq_active (archive_all (sq_ops c) sel b) = filter (\<lambda>p. snd p \<notin> set sel) (sq_active b) \<and>
   map r_tag (sq_rows (archive_all (sq_ops c) sel b)) = map r_tag (sq_rows b)"
proof (induction sel arbitrary: b)
  case (Cons t sel)
  have "sq_active (snd (sq_set_status c t ARCHIVED b)) = sq_active b \<and>
      map r_tag (sq_rows (snd (sq_set_status c t ARCHIVED b))) = map r_tag (sq_rows b)"
    by (simp add: sq_set_status_def sq_modify_def sq_write_def split: option.splits)
  with Cons [of "snd (sq_remove_active_tag t (snd (sq_set_status c t ARCHIVED b)))"]
  show ?case by (simp add: archive_all_def sq_remove_active_tag_def conj_commute)
qed (simp add: archive_all_def)

text \<open>
  A collapse on the tables: the Summary gets the position that is its index in the view, and the
  positions from there on move up.
\<close>

lemma sq_collapse_active:
  assumes inv: "sq_inv c reg (em_backend s)" 
    and ok: "storable c reg (make_summary uid st (Min (set (map start_of sel))) (Max (set (map end_of sel))) sel stext)"
    and sel: "py_bind (parse_tag_start t1) (\<lambda>a. py_bind (parse_tag_end t2)
        (\<lambda>b. collapse_select a b (sq_active_tags (em_backend s)))) = Inr sel" "sel \<noteq> []"
      "set sel \<subseteq> set (sq_active_tags (em_backend s))"
    and st: "st = range_tag (Min (set (map start_of sel))) (Max (set (map end_of sel)))"
      "sq_get c st (em_backend s) = None"
    and run: "em_collapse (sq_ops c) beh uid t1 t2 stext s = (r, fired, s')"
  shows "r = Inr st \<and> sq_inv c reg (em_backend s') \<and>
    map r_tag (sq_rows (em_backend s')) = map r_tag (sq_rows (em_backend s)) @ [st] \<and> sq_active (em_backend s') =
    (let act = filter (\<lambda>p. snd p \<notin> set sel) (sq_active (em_backend s));
         i = int (insert_index (start_of (hd sel)) (map snd (sort_key fst act)))
     in map (shift i) act @ [(i, st)])"
proof -
  define b1 where "b1 = archive_all (sq_ops c) sel (em_backend s)"
  define act where "act = filter (\<lambda>p. snd p \<notin> set sel) (sq_active (em_backend s))"
  define i where "i = int (insert_index (start_of (hd sel)) (sq_active_tags b1))"
  define e where "e = make_summary uid st (Min (set (map start_of sel))) (Max (set (map end_of sel))) sel stext"
  define b2 where "b2 = snd (sq_store c st e b1)"
  define b3 where "b3 = snd (sq_remove_active_tag st b2)"
  define b4 where "b4 = snd (sq_insert_active_tag st i b3)"
  note arch = event_store.archive_all_spec [OF sq_event_store inv, of sel st, folded b1_def]
  have inv1: "sq_inv c reg b1" and new: "sq_get c st b1 = None" using arch st(2) by simp_all
  have act1: "sq_active b1 = act" by (simp add: b1_def act_def sq_archive_active)
  have e: "storable c reg e" using ok by (simp add: e_def)
  note new_store = sq_store_new [OF inv1 e new]
  have absent: "st \<notin> set (map snd act)"
    using sq_get_None_iff [OF inv1, of st] new sq_invD(7) [OF inv1] by (auto simp: act1)
  have b3: "sq_active b3 = act"
    using absent by (auto simp: b3_def b2_def sq_remove_active_tag_def new_store act1 intro!: filter_True)
  have rows3: "map r_tag (sq_rows b3) = map r_tag (sq_rows (em_backend s)) @ [st]"
    using sq_archive_active [of c sel "em_backend s", folded b1_def]
    by (simp add: b3_def b2_def sq_remove_active_tag_def new_store)
  then have "set (map r_tag (sq_rows b3)) = insert st (r_tag ` set (sq_rows (em_backend s)))" by simp
  then have rows: "st \<in> r_tag ` set (sq_rows b3)" by simp
  have rows4: "sq_rows b4 = sq_rows b3" by (simp add: b4_def sq_insert_active_tag_def)
  have inv3: "sq_inv c reg b3"
    unfolding b3_def b2_def by (intro sq_hide_laws(1) sq_inv_store_new inv1 e new)
  have b4: "sq_active b4 = map (shift i) act @ [(i, st)]"
    using absent by (simp add: b4_def sq_insert_active_tag_def b3 flip: shift_def)
  have eq: "r = Inr st \<and> em_backend s' = b4"
    using run sel(1,2)
    by (auto simp: em_collapse_def Let_def b4_def b3_def b2_def b1_def e_def i_def st(1) split: prod.splits
        dest!: em_emit_backendD)
  have "sq_active_tags b1 = map snd (sort_key fst act)" by (simp add: sq_active_tags_def act1)
  then show ?thesis
    using eq sq_inv_insert [OF inv3 rows, of i, folded b4_def] b4 rows3
    by (simp add: act_def i_def Let_def rows4)
qed

section \<open>A run that leaves a gap\<close>

definition add_events :: "'b backend_ops \<Rightarrow> handler_effect \<Rightarrow> event \<Rightarrow> nat \<Rightarrow> 'b em \<Rightarrow> 'b em" where
  "add_events ops beh e n s = ((\<lambda>s. snd (snd (em_add ops beh [] None e True s))) ^^ n) s"

lemma sq_inv_open: "sq_inv c core_types (sq_open [] [])"
  by (simp add: sq_inv_def sq_open_def sq_max_tag_num_def max_or_def)

lemma sq_add_events:
  assumes "storable c core_types e" and "ev_summary e = None" and "ev_role e \<noteq> RUNTIME_EVENT"
  shows "let b = em_backend (add_events (sq_ops c) beh e n (em_init (sq_open [] []))) in
    sq_inv c core_types b \<and> sq_next_tag b = int n + 1 \<and>
    sq_active b = map (\<lambda>k. (int k, int_str (int k + 1))) [0..<n] \<and>
    map r_tag (sq_rows b) = map (\<lambda>k. int_str (int k + 1)) [0..<n]"
proof (induction n)
  case 0
  show ?case using sq_inv_open [of c]
    by (simp add: add_events_def em_init_def sq_open_def sq_max_tag_num_def max_or_def)
next
  case (Suc n)
  have stamp: "storable c core_types (stamp_metadata [] None e)" using assms(1) by (simp add: stamp_metadata_def)
  let ?s = "add_events (sq_ops c) beh e n (em_init (sq_open [] []))"
  obtain r fired s' where run: "em_add (sq_ops c) beh [] None e True ?s = (r, fired, s')" by (metis prod_cases3)
  have s': "add_events (sq_ops c) beh e (Suc n) (em_init (sq_open [] [])) = s'" using run by (simp add: add_events_def)
  have ih: "sq_inv c core_types (em_backend ?s)" "sq_next_tag (em_backend ?s) = int n + 1"
    "sq_active (em_backend ?s) = map (\<lambda>k. (int k, int_str (int k + 1))) [0..<n]"
    "map r_tag (sq_rows (em_backend ?s)) = map (\<lambda>k. int_str (int k + 1)) [0..<n]"
    using Suc by (simp_all add: Let_def)
  have "sq_max_position (em_backend ?s) = int n - 1"
    unfolding sq_max_position_def ih(3) max_or_def
    by (cases n) (auto intro!: Max_eqI simp: comp_def)
  with sq_add_active [OF ih(1) stamp assms(2,3) run] ih(2-4) show ?case by (simp add: s' Let_def)
qed

lemma range_tag_inj [simp]: "range_tag a b = range_tag x y \<longleftrightarrow> a = x \<and> b = y"
  by (metis parse_range_tag(3,4))

lemma range_tag_not_int [simp]: "range_tag a b \<noteq> int_str n" "int_str n \<noteq> range_tag a b"
  using range_tag_contains [of a b] int_str_no_range [of n] by metis+

definition gap_run :: "'b backend_ops \<Rightarrow> handler_effect \<Rightarrow> event \<Rightarrow> 'b \<Rightarrow> 'b em" where
  "gap_run ops beh e b =
     (let s1 = snd (snd (em_collapse ops beh ''u1'' (int_str 1) (int_str 3) None (add_events ops beh e 6 (em_init b))))
      in snd (snd (em_collapse ops beh ''u2'' (int_str 6) (int_str 6) None s1)))"

lemma sq_gap_run:
  assumes "storable c core_types e" and "ev_summary e = None" and "ev_role e \<noteq> RUNTIME_EVENT"
    and sum: "\<And>uid st a b sel. storable c core_types (make_summary uid st a b sel None)"
  shows "em_keys (sq_ops c) (gap_run (sq_ops c) beh e (sq_open [] [])) =
    [range_tag 1 3, range_tag 6 6, int_str 4, int_str 5]"
proof -
  let ?s = "add_events (sq_ops c) beh e 6 (em_init (sq_open [] []))"
  have inv: "sq_inv c core_types (em_backend ?s)"
    and act: "sq_active (em_backend ?s) = [(0, int_str 1), (1, int_str 2), (2, int_str 3), (3, int_str 4), (4, int_str 5), (5, int_str 6)]"
    and rows: "map r_tag (sq_rows (em_backend ?s)) = [int_str 1, int_str 2, int_str 3, int_str 4, int_str 5, int_str 6]"
    using sq_add_events [OF assms(1-3), of beh 6] by (simp_all add: Let_def upt_rec)
  have keys: "sq_active_tags (em_backend ?s) = [int_str 1, int_str 2, int_str 3, int_str 4, int_str 5, int_str 6]"
    by (simp add: sq_active_tags_def act)
  have img: "r_tag ` set (sq_rows (em_backend ?s)) = {int_str 1, int_str 2, int_str 3, int_str 4, int_str 5, int_str 6}"
    using arg_cong [OF rows, of set] by simp
  obtain r1 f1 s1 where run1: "em_collapse (sq_ops c) beh ''u1'' (int_str 1) (int_str 3) None ?s = (r1, f1, s1)"
    by (metis prod_cases3)
  have new1: "sq_get c (range_tag 1 3) (em_backend ?s) = None"
    unfolding sq_get_None_iff [OF inv] img by simp
  have c1: "sq_inv c core_types (em_backend s1)"
      "map r_tag (sq_rows (em_backend s1)) = [int_str 1, int_str 2, int_str 3, int_str 4, int_str 5, int_str 6, range_tag 1 3]"
      "sq_active (em_backend s1) = [(4, int_str 4), (5, int_str 5), (6, int_str 6), (0, range_tag 1 3)]"
    using sq_collapse_active [OF inv sum _ _ _ _ _ run1, of "[int_str 1, int_str 2, int_str 3]" "range_tag 1 3"] new1
    by (simp_all add: keys act shift_def rows)
  have keys1: "sq_active_tags (em_backend s1) = [range_tag 1 3, int_str 4, int_str 5, int_str 6]"
    by (simp add: sq_active_tags_def c1(3))
  obtain r2 f2 s2 where run2: "em_collapse (sq_ops c) beh ''u2'' (int_str 6) (int_str 6) None s1 = (r2, f2, s2)"
    by (metis prod_cases3)
  have img1: "r_tag ` set (sq_rows (em_backend s1)) =
      {int_str 1, int_str 2, int_str 3, int_str 4, int_str 5, int_str 6, range_tag 1 3}"
    using arg_cong [OF c1(2), of set] by simp
  have new2: "sq_get c (range_tag 6 6) (em_backend s1) = None"
    unfolding sq_get_None_iff [OF c1(1)] img1 by simp
  have "sq_active (em_backend s2) = [(5, int_str 4), (6, int_str 5), (0, range_tag 1 3), (3, range_tag 6 6)]"
    using sq_collapse_active [OF c1(1) sum _ _ _ _ _ run2, of "[int_str 6]" "range_tag 6 6"] new2
    by (simp add: keys1 c1(3) shift_def)
  then have "sq_active_tags (em_backend s2) = [range_tag 1 3, range_tag 6 6, int_str 4, int_str 5]"
    by (simp add: sq_active_tags_def)
  then show ?thesis using run1 run2 by (simp add: gap_run_def em_keys_def)
qed

section \<open>Properties\<close>

lemma add_events_reachable:
  assumes "em_reachable inmem_ops beh s0 s" and "ev_summary e = None"
  shows "em_reachable inmem_ops beh s0 (add_events inmem_ops beh e n s)"
proof (induction n)
  case (Suc n)
  have "em_step inmem_ops beh (add_events inmem_ops beh e n s) (add_events inmem_ops beh e (Suc n) s)"
    unfolding add_events_def funpow.simps comp_def by (rule step_add) (simp add: follows_view_def own_tag_def assms(2))
  with Suc show ?case by (rule reach_step)
qed (use assms(1) in \<open>simp add: add_events_def\<close>)

lemma gap_run_reachable:
  assumes "ev_summary e = None"
  shows "em_reachable inmem_ops beh (em_init imb_init) (gap_run inmem_ops beh e imb_init)"
  unfolding gap_run_def Let_def
  by (intro reach_step [OF _ step_collapse] add_events_reachable reach_start assms)

text \<open>Sample values for the witnesses.\<close>

definition ex_codec :: "(event, event) codec" where
  "ex_codec = \<lparr>cd_dump = (\<lambda>e. e), cd_loads = Some, cd_type = ev_event_type,
     cd_retype = (\<lambda>t e. e\<lparr>ev_event_type := t\<rparr>),
     cd_validate = (\<lambda>cls e. if ev_class e = cls then Some e else None), cd_global = []\<rparr>"

lemma ex_storable:
  assumes "ev_event_type e \<noteq> ''LLMOutput''" and "dict_get core_types (ev_event_type e) = Some (ev_class e)"
  shows "storable ex_codec core_types e"
  using assms by (simp add: storable_def sq_deserialize_def ex_codec_def)

lemma ex_event_ok: "storable ex_codec core_types ex_event" "ev_summary ex_event = None" "ev_role ex_event \<noteq> RUNTIME_EVENT"
proof -
  show "storable ex_codec core_types ex_event"
    by (rule ex_storable) (simp_all add: ex_event_def, code_simp)
qed (simp_all add: ex_event_def)

lemma ex_summary_ok: "storable ex_codec core_types (make_summary uid st a b sel None)"
proof -
  have "dict_get core_types ''Summary'' = Some ''Summary''" by code_simp
  then show ?thesis by (intro ex_storable) (simp_all add: make_summary_def)
qed

text \<open>C5: The two backends agree: from an empty store, any sequence of additions, updates, status
  changes, removals, hidings and clearings returns the same tags and results on SQLite as in memory
  and leaves the same event under every tag and the same view; both implement the abstract store. It
  is so for a sequence whose events survive JSON: every event that is added and every result of an update is
  read back from its JSON as it was. An event with a field that JSON cannot carry comes back from SQLite
  altered, and one of a class that is not registered as a \<^verbatim>\<open>Metadata\<close> event.\<close>

theorem backends_agree:
  assumes "events_ok (storable c core_types) xs \<lparr>a_get = Map.empty, a_active = [], a_next = 1\<rparr>"
  shows "let (r1, b1) = run_steps (store_step inmem_ops) xs imb_init;
             (r2, b2) = run_steps (store_step (sq_ops c)) xs (sq_open [] []);
             (r, a) = run_steps astore_step xs \<lparr>a_get = Map.empty, a_active = [], a_next = 1\<rparr>
    in r1 = r \<and> r2 = r \<and> (\<forall>t. imb_get t b1 = a_get a t \<and> sq_get c t b2 = a_get a t) \<and>
       imb_active b1 = a_active a \<and> sq_active_tags b2 = a_active a"
proof -
  have im: "abs_store inmem_ops imb_next_tag_num imb_init = \<lparr>a_get = Map.empty, a_active = [], a_next = 1\<rparr>"
    by (simp add: abs_store_def imb_init_def imb_get_def imb_max_tag_num_def fun_eq_iff)
  have sq: "abs_store (sq_ops c) sq_next_tag (sq_open [] []) = \<lparr>a_get = Map.empty, a_active = [], a_next = 1\<rparr>"
    by (simp add: abs_store_def sq_open_def sq_get_def sq_active_tags_def sq_max_tag_num_def max_or_def fun_eq_iff)
  note m = imb.run_steps_refines [OF imb_inv_init events_ok_True, of xs]
  have q: "events_ok (storable c core_types) xs (abs_store (sq_ops c) sq_next_tag (sq_open [] []))"
    using assms by (simp only: sq)
  note q = event_store.run_steps_refines [OF sq_event_store sq_inv_open q]
  show ?thesis
    using m q im sq by (auto simp: split_beta Let_def abs_store_def dest: sym)
qed

theorem backends_agree_witness:
  "fst (run_steps (store_step (sq_ops ex_codec)) [S_add ex_event, S_remove ''1'', S_add ex_event] (sq_open [] []))
   = fst (run_steps (store_step inmem_ops) [S_add ex_event, S_remove ''1'', S_add ex_event] imb_init)"
proof -
  have "events_ok (storable ex_codec core_types) [S_add ex_event, S_remove ''1'', S_add ex_event]
      \<lparr>a_get = Map.empty, a_active = [], a_next = 1\<rparr>"
    using ex_event_ok(1) by (simp add: op_ok_def)
  from backends_agree [OF this] show ?thesis by (simp only: split_beta Let_def)
qed

text \<open>What SQLite gives back for a new event is what its JSON is read as, whatever that is.\<close>

lemma stored_event_is_its_json:
  assumes "sq_inv c reg s" and "t \<notin> r_tag ` set (sq_rows s)"
  shows "sq_get c t (snd (sq_store c t e s)) = sq_deserialize c reg (cd_dump c e)"
proof -
  have n: "t \<notin> set (map r_tag (sq_rows s))" using assms(2) by simp
  moreover have "t \<notin> set (map snd (sq_active s))" using n sq_invD(7) [OF assms(1)] by force
  moreover have "find (\<lambda>r. r_tag r = t) (sq_rows s) = None" using n by (auto simp: find_None_iff)
  ultimately show ?thesis
    using sq_invD(1) [OF assms(1)]
    by (simp add: sq_store_def sq_do_store_def sq_stored_def sq_get_def find_snoc)
qed

lemma below_le: "distinct (map fst (sq_active s)) \<Longrightarrow> \<forall>p \<in> set (sq_active s). 0 \<le> fst p \<Longrightarrow> 0 \<le> i \<Longrightarrow> int (below i s) \<le> i"
proof -
  assume d: "distinct (map fst (sq_active s))" and nn: "\<forall>p \<in> set (sq_active s). 0 \<le> fst p" and i: "0 \<le> i"
  let ?l = "map fst (filter (\<lambda>p. fst p < i) (sq_active s))"
  have "below i s = length ?l" by (simp add: below_def)
  also have "\<dots> = card (set ?l)" by (rule distinct_card [symmetric]) (simp add: distinct_map_filter d)
  also have "\<dots> \<le> card {0..<i}" using nn by (intro card_mono) auto
  finally show ?thesis using i by simp
qed

text \<open>On SQLite a tag inserted at index \<open>i\<close> lands behind the tags whose stored position is
  below \<open>i\<close>. Removed tags leave gaps in the positions, so that is never behind but possibly before
  the place asked for; it is the place asked for exactly when \<open>i\<close> tags have a position below \<open>i\<close>.\<close>

theorem sqlite_insert_position:
  assumes "sq_inv c reg s" and "t \<notin> set (sq_active_tags s)"
    and "\<forall>p \<in> set (sq_active s). 0 \<le> fst p" and "i \<le> length (sq_active_tags s)"
  shows "\<exists>k \<le> i. k = length (filter (\<lambda>p. fst p < int i) (sq_active s)) \<and>
    sq_active_tags (snd (sq_insert_active_tag t (int i) s)) = take k (sq_active_tags s) @ t # drop k (sq_active_tags s) \<and>
    (sq_active_tags (snd (sq_insert_active_tag t (int i) s)) = take i (sq_active_tags s) @ t # drop i (sq_active_tags s)
      \<longleftrightarrow> k = i)"
proof -
  let ?k = "below (int i) s" and ?a = "sq_active_tags s"
  have d: "distinct (map fst (sq_active s))" using sq_invD(5) [OF assms(1)] .
  have t: "t \<notin> set (map snd (sq_active s))" using assms(2) by (simp add: sq_active_tags_def)
  have le: "?k \<le> i" using below_le [OF d assms(3), of "int i"] by simp
  have eq: "?k = i" if "take ?k ?a @ t # drop ?k ?a = take i ?a @ t # drop i ?a"
  proof -
    have "takeWhile (\<lambda>u. u \<noteq> t) (take n ?a @ t # drop n ?a) = take n ?a" for n
      using assms(2) by (subst takeWhile_append2) (auto dest: in_set_takeD)
    from this [of ?k] this [of i] that have "take ?k ?a = take i ?a" by simp
    from arg_cong [OF this, of length] le assms(4) show ?thesis by simp
  qed
  show ?thesis
    using le insert_lands [OF d t, of "int i"] eq by (intro exI [of _ ?k]) (auto simp: below_def)
qed

theorem sqlite_insert_position_witness:
  "\<exists>k \<le> 2. sq_active_tags (snd (sq_insert_active_tag ''9'' 2 (em_backend (add_events (sq_ops ex_codec) ex_beh ex_event 3 (em_init (sq_open [] []))))))
     = take k [int_str 1, int_str 2, int_str 3] @ ''9'' # drop k [int_str 1, int_str 2, int_str 3]"
proof -
  let ?b = "em_backend (add_events (sq_ops ex_codec) ex_beh ex_event 3 (em_init (sq_open [] [])))"
  have b: "sq_inv ex_codec core_types ?b" and act: "sq_active ?b = [(0, int_str 1), (1, int_str 2), (2, int_str 3)]"
    using sq_add_events [OF ex_event_ok, of ex_beh 3] by (simp_all add: Let_def upt_rec)
  then have keys: "sq_active_tags ?b = [int_str 1, int_str 2, int_str 3]" by (simp add: sq_active_tags_def)
  have "''9'' = int_str 9" by code_simp
  then have "''9'' \<notin> set (sq_active_tags ?b)" by (simp add: keys)
  from sqlite_insert_position [OF b this, of 2] show ?thesis by (auto simp: keys act)
qed

text \<open>A collapse on SQLite can put its summary in the wrong place. Six events, then tags 1 to 3
  collapsed, then tag 6: the view lists the summary of 6 before 4 and 5, for every event class that
  can be stored. The same run on the in-memory backend leaves the view in order.\<close>

theorem sqlite_collapse_misplaces_summary:
  assumes "storable c core_types e" and "ev_summary e = None" and "ev_role e \<noteq> RUNTIME_EVENT"
    and "\<And>uid st a b sel. storable c core_types (make_summary uid st a b sel None)"
  shows "em_keys (sq_ops c) (gap_run (sq_ops c) beh e (sq_open [] [])) =
      [range_tag 1 3, range_tag 6 6, int_str 4, int_str 5] \<and>
    \<not> view_ok (em_keys (sq_ops c) (gap_run (sq_ops c) beh e (sq_open [] []))) \<and>
    view_ok (em_keys inmem_ops (gap_run inmem_ops beh e imb_init))"
  using sq_gap_run [OF assms, of beh] imb.reachable_ok [OF gap_run_reachable [OF assms(2)] em_ok_init, of beh]
  by (simp add: view_ok_def em_ok_def)

theorem sqlite_collapse_misplaces_summary_witness:
  "em_keys (sq_ops ex_codec) (gap_run (sq_ops ex_codec) ex_beh ex_event (sq_open [] [])) =
      [range_tag 1 3, range_tag 6 6, int_str 4, int_str 5]"
  using sqlite_collapse_misplaces_summary [OF ex_event_ok ex_summary_ok, of ex_beh] by simp

text \<open>C38: A disk I/O error in a store is survived: after a reconnect the retry leaves exactly the
  state and result of an undisturbed store, whether or not the failed transaction had reached the
  disk; without a reconnect the error is raised. A status change is repeated safely too. A removal
  ends in the right state, but reports False when the failed transaction had gone through.\<close>

theorem sqlite_io_error_retry:
  assumes "sq_inv c reg s" and "storable c reg e" and "sq_get c t s = None"
  shows "sq_store_faulty c (Some True) (Io committed) Fine t e s = sq_store c t e s \<and>
    fst (sq_store c t e s) = Inr () \<and>
    (reconnect \<noteq> Some True \<longrightarrow> fst (sq_store_faulty c reconnect (Io committed) f2 t e s) = Inl OperationalError) \<and>
    sq_retry (Some True) (Io committed) Fine (sq_set_status c u st) s
      = (Inr (fst (sq_set_status c u st s)), snd (sq_set_status c u st s)) \<and>
    sq_retry (Some True) (Io committed) Fine (sq_remove u) s
      = (Inr (\<not> committed \<and> fst (sq_remove u s)), snd (sq_remove u s))"
proof -
  note d = sq_invD [OF assms(1)]
  have t: "t \<notin> set (map r_tag (sq_rows s))" using sq_get_None_iff [OF assms(1)] assms(3) by fastforce
  then have ta: "t \<notin> set (map snd (sq_active s))" using d(7) by force
  let ?s1 = "s\<lparr>sq_counter := sq_counter s + 1\<rparr>" and ?data = "cd_dump c e"
  have once: "fst (sq_do_store t e ?data (sq_counter s) ?s1) = Inr ()"
    and twice: "sq_do_store t e ?data (sq_counter s) (snd (sq_do_store t e ?data (sq_counter s) ?s1))
      = (Inl IntegrityError, snd (sq_do_store t e ?data (sq_counter s) ?s1))"
    using t ta by (simp_all add: sq_do_store_def)
  then have store: "sq_store c t e s = (Inr (), sq_stored t (snd (sq_do_store t e ?data (sq_counter s) ?s1)))"
    by (cases "sq_do_store t e ?data (sq_counter s) ?s1") (simp add: sq_store_def)
  have st: "snd (sq_set_status c u st (snd (sq_set_status c u st s))) = snd (sq_set_status c u st s) \<and>
      fst (sq_set_status c u st (snd (sq_set_status c u st s))) = fst (sq_set_status c u st s)"
  proof (cases "sq_get c u s")
    case (Some e0)
    have "sq_set_status c u st s = (True, sq_write c u (e0\<lparr>ev_status := st\<rparr>) s)"
      by (simp add: sq_set_status_def sq_modify_def Some)
    moreover have "sq_get c u (sq_write c u (e0\<lparr>ev_status := st\<rparr>) s) = Some (e0\<lparr>ev_status := st\<rparr>)"
      using sq_write_get [OF assms(1), of "e0\<lparr>ev_status := st\<rparr>" u u] storable_get [OF assms(1) Some] Some by simp
    moreover have "sq_write c u x (sq_write c u x s) = sq_write c u x s" for x
      by (simp add: sq_write_def comp_def)
    ultimately show ?thesis by (simp add: sq_set_status_def sq_modify_def)
  qed (simp add: sq_set_status_def sq_modify_def)
  have rm: "sq_remove u (snd (sq_remove u s)) = (False, snd (sq_remove u s))"
    by (auto simp: sq_remove_def)
  show ?thesis
    using once twice store st rm
    by (cases committed) (auto simp: sq_store_faulty_def sq_attempt_def Let_def sq_retry_def sq_try_def
        sq_store_def prod_eq_iff split: prod.splits sum.splits)
qed

theorem sqlite_io_error_retry_witness:
  "sq_store_faulty ex_codec (Some True) (Io True) Fine ''1'' ex_event (sq_open [] []) =
     sq_store ex_codec ''1'' ex_event (sq_open [] [])"
  using sqlite_io_error_retry [OF sq_inv_open ex_event_ok(1), of "''1''"]
  by (simp add: sq_get_def sq_open_def)

text \<open>A backend opened on the tables a session left has the same events and view, satisfies the
  invariant, and never hands out a tag that is stored; its counter is at most the old one, so the
  number of a removed last event may be given again.\<close>

theorem sqlite_reopen_resumes:
  assumes "sq_inv c core_types s" and "\<forall>r \<in> set (sq_rows s). manager_tag (r_tag r)"
  shows "let s' = sq_open (sq_rows s) (sq_active s) in
    sq_inv c core_types s' \<and> (\<forall>t. sq_get c t s' = sq_get c t s) \<and> sq_active_tags s' = sq_active_tags s \<and>
    sq_all_events c s' = sq_all_events c s \<and> sq_get c (fst (sq_allocate_next_tag s')) s' = None \<and>
    sq_next_tag s' \<le> sq_next_tag s"
proof -
  note re = reopen_facts [OF assms]
  have "sq_registry s = core_types" by (rule sq_invD(1) [OF assms(1)])
  then have "sq_get c t (sq_open (sq_rows s) (sq_active s)) = sq_get c t s"
    "sq_all_events c (sq_open (sq_rows s) (sq_active s)) = sq_all_events c s" for t
    by (simp_all add: sq_open_def sq_get_alt sq_all_events_def)
  with re event_store.allocate_fresh [OF sq_event_store re(1)] show ?thesis
    by (simp add: Let_def sq_active_tags_def sq_open_def)
qed

theorem sqlite_reopen_resumes_witness:
  "sq_get ex_codec (fst (sq_allocate_next_tag (sq_open (sq_rows (snd (sq_store ex_codec (int_str 1) ex_event (sq_open [] []))))
     (sq_active (snd (sq_store ex_codec (int_str 1) ex_event (sq_open [] [])))))))
     (snd (sq_store ex_codec (int_str 1) ex_event (sq_open [] []))) = None"
proof -
  let ?s = "snd (sq_store ex_codec (int_str 1) ex_event (sq_open [] []))"
  have new: "sq_get ex_codec (int_str 1) (sq_open [] []) = None" by (simp add: sq_get_def sq_open_def)
  have "\<forall>r \<in> set (sq_rows ?s). manager_tag (r_tag r)"
    unfolding sq_store_new [OF sq_inv_open ex_event_ok(1) new] by (auto simp: sq_open_def manager_tag_def)
  from sqlite_reopen_resumes [OF sq_inv_store_new [OF sq_inv_open ex_event_ok(1) new] this]
  show ?thesis by (metis (no_types, lifting))
qed

text \<open>An update rewrites the JSON and the status column; the columns of the id and of the type keep the
  values of the insertion, also when the update changes those fields.\<close>

lemma sq_update_stale_columns:
  "map r_type (sq_rows (snd (sq_update c t us s))) = map r_type (sq_rows s) \<and>
   map r_id (sq_rows (snd (sq_update c t us s))) = map r_id (sq_rows s)"
  by (simp add: sq_update_def sq_modify_def sq_write_def split: option.splits)

end
