(* ===== verification/Todo.thy ===== *)
theory Todo
  imports Event_Backend
begin

text \<open>
  The todo manager of an agent: \<^verbatim>\<open>src/nooa/tools/todo.py\<close>, with the variable store of a todo from
  \<^verbatim>\<open>src/nooa/storage/snapshot_vars.py\<close>.

  A \<^verbatim>\<open>Todo\<close> is the record \<open>todo\<close>, the manager the record \<open>todo_mgr\<close> of its three attributes.
  Every operation is a function to its result and the new manager. Todo objects are shared with
  callers; the step \<open>tm_assign\<close> is a caller's own assignment to the fields of a managed todo.

  Inputs that the code draws itself are arguments: \<open>uid\<close> (\<^verbatim>\<open>uuid4().hex[:8]\<close>), \<open>now\<close> (the
  formatted time) and \<open>ser\<close> (does a value pass the write-time check of \<^verbatim>\<open>SnapshotVars\<close>).
  The order in which \<^verbatim>\<open>merge_todo\<close> walks a Python set is the argument \<open>ks\<close>.
\<close>

section \<open>Data\<close>

datatype todo_status = T_open | T_done

record todo_comment =
  tc_id :: string
  tc_body :: string
  tc_created_at :: string

record todo =
  td_id :: string
  td_title :: string
  td_status :: todo_status
  td_deps :: "string list"
  td_vars :: "(string, py_val) dict"
  td_created_at :: string
  td_description :: string
  td_comments :: "todo_comment list"

text \<open>An argument that accepts a \<^verbatim>\<open>Todo\<close> or its id; \<open>ArgOther\<close> is a value of another type.\<close>

datatype todo_arg = ArgTodo todo | ArgId string | ArgOther

record todo_mgr =
  tm_todos :: "(string, todo) dict"
  tm_order :: "string list"
  tm_active_id :: "string option"

definition status_max_items :: nat where "status_max_items = 10"
definition status_max_chars :: nat where "status_max_chars = 2000"
definition status_title_chars :: nat where "status_title_chars = 120"
definition status_max_deps :: nat where "status_max_deps = 3"
definition status_max_done :: nat where "status_max_done = 2"

definition tm_init :: todo_mgr where
  "tm_init = \<lparr>tm_todos = [], tm_order = [], tm_active_id = None\<rparr>"

section \<open>The variable store\<close>

text \<open>\<^verbatim>\<open>SnapshotVars.__setitem__\<close>: a value that does not serialise is not stored.\<close>

definition sv_setitem :: "(py_val \<Rightarrow> bool) \<Rightarrow> string \<Rightarrow> py_val \<Rightarrow> (string, py_val) dict \<Rightarrow> (string, py_val) dict" where
  "sv_setitem ser k v d = (if ser v then dict_set k v d else d)"

definition sv_init :: "(py_val \<Rightarrow> bool) \<Rightarrow> (string, py_val) dict \<Rightarrow> (string, py_val) dict" where
  "sv_init ser data = fold (\<lambda>(k, v). sv_setitem ser k v) data []"

section \<open>Todos\<close>

text \<open>\<^verbatim>\<open>Todo.is_blocked\<close>: a dependency that the manager has and that is not done.\<close>

definition is_blocked :: "todo \<Rightarrow> (string, todo) dict \<Rightarrow> bool" where
  "is_blocked t all = list_ex (\<lambda>d. case dict_get all d of None \<Rightarrow> False | Some dep \<Rightarrow> td_status dep \<noteq> T_done) (td_deps t)"

definition todo_id_of :: "todo_arg \<Rightarrow> string py_res" where
  "todo_id_of a = (case a of ArgTodo t \<Rightarrow> Inr (td_id t) | ArgId i \<Rightarrow> Inr i | ArgOther \<Rightarrow> Inl TypeError)"

text \<open>Resolve the id argument, then run the body; a bad argument leaves the manager alone.\<close>

definition with_id :: "todo_arg \<Rightarrow> todo_mgr \<Rightarrow> (string \<Rightarrow> 'r py_res \<times> todo_mgr) \<Rightarrow> 'r py_res \<times> todo_mgr" where
  "with_id a m f = (case todo_id_of a of Inl e \<Rightarrow> (Inl e, m) | Inr i \<Rightarrow> f i)"

text \<open>Replace the managed object of an id (an in-place mutation of that object).\<close>

definition tm_put :: "string \<Rightarrow> todo \<Rightarrow> todo_mgr \<Rightarrow> todo_mgr" where
  "tm_put i t m = m\<lparr>tm_todos := dict_set i t (tm_todos m)\<rparr>"

definition tm_clear_active_if :: "bool \<Rightarrow> todo_mgr \<Rightarrow> todo_mgr" where
  "tm_clear_active_if c m = (if c then m\<lparr>tm_active_id := None\<rparr> else m)"

definition tm_get :: "todo_arg \<Rightarrow> todo_mgr \<Rightarrow> todo option py_res" where
  "tm_get a m = py_bind (todo_id_of a) (\<lambda>i. Inr (dict_get (tm_todos m) i))"

text \<open>The managed todos in creation order.\<close>

definition tm_listing :: "todo_mgr \<Rightarrow> todo list" where
  "tm_listing m = List.map_filter (\<lambda>i. dict_get (tm_todos m) i) (tm_order m)"

section \<open>Snapshots\<close>

text \<open>
  A stored todo as \<^verbatim>\<open>from_dict\<close> finds it. \<open>None\<close> is an absent key. A status of \<open>Some None\<close> is a
  stored null; any string may occur in a legacy snapshot. \<open>raw_vars\<close> is a \<^verbatim>\<open>SnapshotVars\<close>, a
  dictionary, null, or a value of another type.
\<close>

datatype raw_vars = RVObj "(string, py_val) dict" | RVDict "(string, py_val) dict" | RVNull | RVBad

record raw_todo =
  raw_id :: "string option"
  raw_title :: "string option"
  raw_status :: "string option option"
  raw_deps :: "string list option"
  raw_vars :: "raw_vars option"
  raw_created_at :: "string option"
  raw_description :: "string option"
  raw_notes :: "string option"
  raw_comments :: "todo_comment list option"

record snapshot =
  sn_todos :: "raw_todo list"
  sn_active_id :: "string option"

definition coerce_vars :: "(py_val \<Rightarrow> bool) \<Rightarrow> raw_vars \<Rightarrow> (string, py_val) dict py_res" where
  "coerce_vars ser v = (case v of RVObj d \<Rightarrow> Inr d | RVNull \<Rightarrow> Inr [] | RVDict d \<Rightarrow> Inr (sv_init ser d) | RVBad \<Rightarrow> Inl TypeError)"

text \<open>\<^verbatim>\<open>__restore_snapshot__\<close>; \<open>uid\<close> and \<open>now\<close> are what the default factories draw.\<close>

definition restore_snapshot :: "(py_val \<Rightarrow> bool) \<Rightarrow> string \<Rightarrow> string \<Rightarrow> raw_todo \<Rightarrow> todo py_res" where
  "restore_snapshot ser uid now r =
     py_bind (case raw_vars r of None \<Rightarrow> Inr [] | Some v \<Rightarrow> coerce_vars ser v) (\<lambda>vars.
       Inr \<lparr>td_id = (case raw_id r of Some i \<Rightarrow> i | None \<Rightarrow> uid),
            td_title = (case raw_title r of Some t \<Rightarrow> t | None \<Rightarrow> []),
            td_status = (if raw_status r = Some (Some ''done'') then T_done else T_open),
            td_deps = (case raw_deps r of Some d \<Rightarrow> d | None \<Rightarrow> []),
            td_vars = vars,
            td_created_at = (case raw_created_at r of Some c \<Rightarrow> c | None \<Rightarrow> now),
            td_description = (case raw_description r of Some d \<Rightarrow> d
               | None \<Rightarrow> (case raw_notes r of Some n \<Rightarrow> n | None \<Rightarrow> [])),
            td_comments = (case raw_comments r of Some c \<Rightarrow> c | None \<Rightarrow> [])\<rparr>)"

definition status_str :: "todo_status \<Rightarrow> string" where
  "status_str s = (case s of T_open \<Rightarrow> ''open'' | T_done \<Rightarrow> ''done'')"

text \<open>\<^verbatim>\<open>model_dump\<close>: every field under its name; the variable store is passed on as it is.\<close>

definition model_dump :: "todo \<Rightarrow> raw_todo" where
  "model_dump t =
     \<lparr>raw_id = Some (td_id t), raw_title = Some (td_title t),
      raw_status = Some (Some (status_str (td_status t))), raw_deps = Some (td_deps t),
      raw_vars = Some (RVObj (td_vars t)), raw_created_at = Some (td_created_at t),
      raw_description = Some (td_description t), raw_notes = None,
      raw_comments = Some (td_comments t)\<rparr>"

text \<open>\<^verbatim>\<open>active()\<close>: a selection that is gone or done is dropped.\<close>

definition tm_active :: "todo_mgr \<Rightarrow> todo option \<times> todo_mgr" where
  "tm_active m =
     (case tm_active_id m of
        None \<Rightarrow> (None, m)
      | Some a \<Rightarrow>
          (case dict_get (tm_todos m) a of
             None \<Rightarrow> (None, m\<lparr>tm_active_id := None\<rparr>)
           | Some t \<Rightarrow> if td_status t = T_done then (None, m\<lparr>tm_active_id := None\<rparr>) else (Some t, m)))"

definition tm_to_dict :: "todo_mgr \<Rightarrow> snapshot \<times> todo_mgr" where
  "tm_to_dict m =
     (let m1 = snd (tm_active m)
      in (\<lparr>sn_todos = map model_dump (tm_listing m1), sn_active_id = tm_active_id m1\<rparr>, m1))"

text \<open>The loop of \<^verbatim>\<open>from_dict\<close>; \<open>draws\<close> are the defaults available to each entry.\<close>

fun from_dict_loop :: "(py_val \<Rightarrow> bool) \<Rightarrow> (nat \<Rightarrow> string \<times> string) \<Rightarrow> nat \<Rightarrow> raw_todo list \<Rightarrow>
    (string, todo) dict \<Rightarrow> string list \<Rightarrow> ((string, todo) dict \<times> string list) py_res" where
  "from_dict_loop ser draws n [] todos order = Inr (todos, order)"
| "from_dict_loop ser draws n (r # rs) todos order =
     py_bind (restore_snapshot ser (fst (draws n)) (snd (draws n)) r) (\<lambda>t.
       if dict_has todos (td_id t) then Inl ValueError
       else from_dict_loop ser draws (Suc n) rs (dict_set (td_id t) t todos) (order @ [td_id t]))"

definition tm_from_dict :: "(py_val \<Rightarrow> bool) \<Rightarrow> (nat \<Rightarrow> string \<times> string) \<Rightarrow> snapshot \<Rightarrow> todo_mgr \<Rightarrow> unit py_res \<times> todo_mgr" where
  "tm_from_dict ser draws d m =
     (case from_dict_loop ser draws 0 (sn_todos d) [] [] of
        Inl e \<Rightarrow> (Inl e, m)
      | Inr (todos, order) \<Rightarrow>
          (Inr (), \<lparr>tm_todos = todos, tm_order = order,
             tm_active_id = (case sn_active_id d of
                None \<Rightarrow> None
              | Some a \<Rightarrow> (case dict_get todos a of
                   None \<Rightarrow> None
                 | Some t \<Rightarrow> if td_status t \<noteq> T_done then Some a else None))\<rparr>))"

section \<open>Delegation\<close>

definition tm_copy_todo :: "todo_arg \<Rightarrow> todo_mgr \<Rightarrow> todo py_res" where
  "tm_copy_todo a m =
     py_bind (todo_id_of a) (\<lambda>i. case dict_get (tm_todos m) i of None \<Rightarrow> Inl ValueError | Some t \<Rightarrow> Inr t)"

definition with_todo :: "todo \<Rightarrow> todo_mgr" where
  "with_todo t = \<lparr>tm_todos = [(td_id t, t)], tm_order = [td_id t],
     tm_active_id = (if td_status t \<noteq> T_done then Some (td_id t) else None)\<rparr>"

text \<open>One scalar field of the three-way merge: the value the candidate ends up with.\<close>

definition merge_field :: "'a \<Rightarrow> 'a \<Rightarrow> 'a \<Rightarrow> 'a py_res" where
  "merge_field before after existing =
     (if after = before then Inr existing
      else if existing \<noteq> before \<and> existing \<noteq> after then Inl ValueError
      else Inr after)"

text \<open>Equality of Python values: a bool is the int 0 or 1; a name that is missing equals only a missing one.\<close>

fun eq_form :: "py_val \<Rightarrow> py_val" where
  "eq_form (VBool b) = VInt (if b then 1 else 0)"
| "eq_form (VList vs) = VList (map eq_form vs)"
| "eq_form v = v"

definition same_var :: "py_val option \<Rightarrow> py_val option \<Rightarrow> bool" where
  "same_var x y = (map_option eq_form x = map_option eq_form y)"

text \<open>The loop over the variable names; \<open>cand\<close> is \<^verbatim>\<open>candidate.vars\<close>.\<close>

fun merge_vars :: "(py_val \<Rightarrow> bool) \<Rightarrow> (string, py_val) dict \<Rightarrow> (string, py_val) dict \<Rightarrow> (string, py_val) dict \<Rightarrow>
    string list \<Rightarrow> (string, py_val) dict \<Rightarrow> (string, py_val) dict py_res" where
  "merge_vars ser base upd cur [] cand = Inr cand"
| "merge_vars ser base upd cur (k # ks) cand =
     (let before = dict_get base k; after = dict_get upd k; existing = dict_get cur k in
      if same_var after before then merge_vars ser base upd cur ks cand
      else if \<not> same_var existing before \<and> \<not> same_var existing after then Inl ValueError
      else merge_vars ser base upd cur ks
             (case after of None \<Rightarrow> dict_del k cand | Some v \<Rightarrow> sv_setitem ser k v cand))"

text \<open>The loop that appends the delegate's new comments; \<open>seen\<close> are the ids already there.\<close>

fun merge_comments :: "todo_comment list \<Rightarrow> todo_comment list \<Rightarrow> string list \<Rightarrow> todo_comment list" where
  "merge_comments cand [] seen = cand"
| "merge_comments cand (c # cs) seen =
     (if tc_id c \<notin> set seen then merge_comments (cand @ [c]) cs (tc_id c # seen)
      else merge_comments cand cs seen)"

definition merge_candidate :: "(py_val \<Rightarrow> bool) \<Rightarrow> string list \<Rightarrow> todo \<Rightarrow> todo \<Rightarrow> todo \<Rightarrow> todo py_res" where
  "merge_candidate ser ks updated base current =
     py_bind (merge_field (td_title base) (td_title updated) (td_title current)) (\<lambda>title.
     py_bind (merge_field (td_status base) (td_status updated) (td_status current)) (\<lambda>status.
     py_bind (merge_field (td_deps base) (td_deps updated) (td_deps current)) (\<lambda>deps.
     py_bind (merge_field (td_description base) (td_description updated) (td_description current)) (\<lambda>description.
     py_bind (merge_vars ser (td_vars base) (td_vars updated) (td_vars current) ks (td_vars current)) (\<lambda>vars.
       let n = length (td_comments base) in
       if take n (td_comments updated) \<noteq> td_comments base then Inl ValueError
       else if take n (td_comments current) \<noteq> td_comments base then Inl ValueError
       else Inr (current\<lparr>td_title := title, td_status := status, td_deps := deps,
              td_description := description, td_vars := vars,
              td_comments := merge_comments (td_comments current) (drop n (td_comments updated))
                 (map tc_id (td_comments current))\<rparr>))))))"

definition tm_merge_todo :: "(py_val \<Rightarrow> bool) \<Rightarrow> string list \<Rightarrow> todo \<Rightarrow> todo \<Rightarrow> todo_mgr \<Rightarrow> todo py_res \<times> todo_mgr" where
  "tm_merge_todo ser ks updated base m =
     (if td_id updated \<noteq> td_id base then (Inl ValueError, m)
      else case dict_get (tm_todos m) (td_id updated) of
        None \<Rightarrow> (Inl ValueError, m)
      | Some current \<Rightarrow>
          if filter (\<lambda>d. d \<notin> set (td_deps base) \<and> \<not> dict_has (tm_todos m) d) (td_deps updated) \<noteq> []
          then (Inl ValueError, m)
          else case merge_candidate ser ks updated base current of
            Inl e \<Rightarrow> (Inl e, m)
          | Inr t \<Rightarrow> (Inr t, tm_clear_active_if (td_status t = T_done \<and> tm_active_id m = Some (td_id t))
                              (tm_put (td_id updated) t m)))"

section \<open>Creation, completion and removal\<close>

text \<open>
  \<^verbatim>\<open>add\<close>: the legacy keyword \<^verbatim>\<open>notes\<close> stands in for an empty description; it has to be a
  string, as the field is.
\<close>

definition new_todo :: "(py_val \<Rightarrow> bool) \<Rightarrow> string \<Rightarrow> string \<Rightarrow> string \<Rightarrow> todo_arg list \<Rightarrow> string \<Rightarrow>
    (string, py_val) dict \<Rightarrow> todo py_res" where
  "new_todo ser uid now title deps description vars =
     (let legacy = (case dict_get vars ''notes'' of Some v \<Rightarrow> v | None \<Rightarrow> VNone) in
      py_bind (if legacy = VNone then Inr (VStr description)
               else if description \<noteq> [] then Inl ValueError else Inr legacy) (\<lambda>d.
      py_bind (py_mapM todo_id_of deps) (\<lambda>ids.
        (case d of
           VStr s \<Rightarrow> Inr \<lparr>td_id = uid, td_title = title, td_status = T_open, td_deps = ids,
              td_vars = sv_init ser (dict_del ''notes'' vars), td_created_at = now,
              td_description = s, td_comments = []\<rparr>
         | _ \<Rightarrow> Inl ValidationError))))"

definition tm_add :: "(py_val \<Rightarrow> bool) \<Rightarrow> string \<Rightarrow> string \<Rightarrow> string \<Rightarrow> todo_arg list \<Rightarrow> string \<Rightarrow>
    (string, py_val) dict \<Rightarrow> todo_mgr \<Rightarrow> todo py_res \<times> todo_mgr" where
  "tm_add ser uid now title deps description vars m =
     (case new_todo ser uid now title deps description vars of
        Inl e \<Rightarrow> (Inl e, m)
      | Inr t \<Rightarrow> (Inr t, (tm_put (td_id t) t m)\<lparr>tm_order := tm_order m @ [td_id t]\<rparr>))"

definition tm_done :: "todo_arg \<Rightarrow> todo_mgr \<Rightarrow> todo option py_res \<times> todo_mgr" where
  "tm_done a m = with_id a m (\<lambda>i.
     case dict_get (tm_todos m) i of
       None \<Rightarrow> (Inr None, m)
     | Some t \<Rightarrow> (let t1 = t\<lparr>td_status := T_done\<rparr>
                  in (Inr (Some t1), tm_clear_active_if (tm_active_id m = Some (td_id t1)) (tm_put i t1 m))))"

definition tm_complete :: "todo_arg \<Rightarrow> todo_mgr \<Rightarrow> todo option py_res \<times> todo_mgr" where
  "tm_complete a m = tm_done a m"

text \<open>Look up a managed todo and replace it; the shape of most single-field operations.\<close>

definition tm_modify :: "todo_arg \<Rightarrow> (todo \<Rightarrow> todo) \<Rightarrow> todo_mgr \<Rightarrow> todo option py_res \<times> todo_mgr" where
  "tm_modify a f m = with_id a m (\<lambda>i.
     case dict_get (tm_todos m) i of
       None \<Rightarrow> (Inr None, m)
     | Some t \<Rightarrow> (Inr (Some (f t)), tm_put i (f t) m))"

definition tm_reopen :: "todo_arg \<Rightarrow> todo_mgr \<Rightarrow> todo option py_res \<times> todo_mgr" where
  "tm_reopen a m = tm_modify a (\<lambda>t. t\<lparr>td_status := T_open\<rparr>) m"

definition drop_deps :: "(string \<Rightarrow> bool) \<Rightarrow> (string, todo) dict \<Rightarrow> (string, todo) dict" where
  "drop_deps P todos = map (\<lambda>(k, t). (k, t\<lparr>td_deps := filter (\<lambda>d. \<not> P d) (td_deps t)\<rparr>)) todos"

definition tm_remove :: "todo_arg \<Rightarrow> todo_mgr \<Rightarrow> bool py_res \<times> todo_mgr" where
  "tm_remove a m = with_id a m (\<lambda>i.
     if \<not> dict_has (tm_todos m) i then (Inr False, m)
     else (Inr True,
       \<lparr>tm_todos = drop_deps (\<lambda>d. d = i) (dict_del i (tm_todos m)),
        tm_order = filter (\<lambda>x. x \<noteq> i) (tm_order m),
        tm_active_id = (if tm_active_id m = Some i then None else tm_active_id m)\<rparr>))"

definition tm_clear :: "todo_mgr \<Rightarrow> todo_mgr" where
  "tm_clear m = \<lparr>tm_todos = [], tm_order = [], tm_active_id = None\<rparr>"

definition done_ids :: "todo_mgr \<Rightarrow> string list" where
  "done_ids m = map fst (filter (\<lambda>(i, t). td_status t = T_done) (tm_todos m))"

definition tm_clear_done :: "todo_mgr \<Rightarrow> nat \<times> todo_mgr" where
  "tm_clear_done m =
     (let ids = done_ids m
      in (length ids,
          \<lparr>tm_todos = drop_deps (\<lambda>d. d \<in> set ids) (fold dict_del ids (tm_todos m)),
           tm_order = filter (\<lambda>i. i \<notin> set ids) (tm_order m),
           tm_active_id = (case tm_active_id m of None \<Rightarrow> None
              | Some a \<Rightarrow> if a \<in> set ids then None else Some a)\<rparr>))"

text \<open>
  Assignment to one of the three updatable fields with the validation the field's type gives:
  \<^verbatim>\<open>title\<close> and \<^verbatim>\<open>description\<close> are strings, \<^verbatim>\<open>status\<close> one of two literals.
\<close>

definition assign_field :: "string \<Rightarrow> py_val \<Rightarrow> todo \<Rightarrow> todo py_res" where
  "assign_field k v t =
     (if k = ''title'' then (case v of VStr s \<Rightarrow> Inr (t\<lparr>td_title := s\<rparr>) | _ \<Rightarrow> Inl ValidationError)
      else if k = ''description'' then (case v of VStr s \<Rightarrow> Inr (t\<lparr>td_description := s\<rparr>) | _ \<Rightarrow> Inl ValidationError)
      else if v = VStr ''open'' then Inr (t\<lparr>td_status := T_open\<rparr>)
      else if v = VStr ''done'' then Inr (t\<lparr>td_status := T_done\<rparr>)
      else Inl ValidationError)"

fun assign_fields :: "(string, py_val) dict \<Rightarrow> todo \<Rightarrow> todo py_res" where
  "assign_fields [] t = Inr t"
| "assign_fields ((k, v) # kvs) t = py_bind (assign_field k v t) (assign_fields kvs)"

definition tm_update :: "todo_arg \<Rightarrow> (string, py_val) dict \<Rightarrow> todo_mgr \<Rightarrow> todo option py_res \<times> todo_mgr" where
  "tm_update a kwargs m = with_id a m (\<lambda>i.
     case dict_get (tm_todos m) i of
       None \<Rightarrow> (Inr None, m)
     | Some t \<Rightarrow>
         (let kw = (case dict_get kwargs ''notes'' of
                      Some v \<Rightarrow> if dict_has kwargs ''description'' then kwargs else dict_set ''description'' v kwargs
                    | None \<Rightarrow> kwargs);
              changes = filter (\<lambda>(k, v). k \<in> {''title'', ''status'', ''description''}) kw
          in case assign_fields changes t of
               Inl e \<Rightarrow> (Inl e, m)
             | Inr t1 \<Rightarrow> (Inr (Some t1),
                 tm_clear_active_if (td_status t1 = T_done \<and> tm_active_id m = Some (td_id t1)) (tm_put i t1 m))))"

section \<open>The active todo, dependencies, variables, comments\<close>

definition tm_activate :: "todo_arg \<Rightarrow> todo_mgr \<Rightarrow> todo py_res \<times> todo_mgr" where
  "tm_activate a m = with_id a m (\<lambda>i.
     case dict_get (tm_todos m) i of
       None \<Rightarrow> (Inl ValueError, m)
     | Some t \<Rightarrow> if td_status t = T_done then (Inl ValueError, m)
                 else (Inr t, m\<lparr>tm_active_id := Some i\<rparr>))"

definition tm_deactivate :: "todo_mgr \<Rightarrow> todo option \<times> todo_mgr" where
  "tm_deactivate m = (let (t, m1) = tm_active m in (t, m1\<lparr>tm_active_id := None\<rparr>))"

definition tm_add_dep :: "todo_arg \<Rightarrow> todo_arg \<Rightarrow> todo_mgr \<Rightarrow> todo option py_res \<times> todo_mgr" where
  "tm_add_dep a d m = (case py_bind (tm_get a m) (\<lambda>t. py_bind (todo_id_of d) Inr) of
     Inl e \<Rightarrow> (Inl e, m)
   | Inr did \<Rightarrow> tm_modify a (\<lambda>t. if did \<notin> set (td_deps t) then t\<lparr>td_deps := td_deps t @ [did]\<rparr> else t) m)"

definition tm_remove_dep :: "todo_arg \<Rightarrow> todo_arg \<Rightarrow> todo_mgr \<Rightarrow> todo option py_res \<times> todo_mgr" where
  "tm_remove_dep a d m = (case py_bind (tm_get a m) (\<lambda>t. py_bind (todo_id_of d) Inr) of
     Inl e \<Rightarrow> (Inl e, m)
   | Inr did \<Rightarrow> tm_modify a (\<lambda>t. if did \<in> set (td_deps t) then t\<lparr>td_deps := remove1 did (td_deps t)\<rparr> else t) m)"

definition tm_set_var :: "(py_val \<Rightarrow> bool) \<Rightarrow> todo_arg \<Rightarrow> string \<Rightarrow> py_val \<Rightarrow> todo_mgr \<Rightarrow> todo option py_res \<times> todo_mgr" where
  "tm_set_var ser a k v m = tm_modify a (\<lambda>t. t\<lparr>td_vars := sv_setitem ser k v (td_vars t)\<rparr>) m"

definition tm_del_var :: "todo_arg \<Rightarrow> string \<Rightarrow> todo_mgr \<Rightarrow> todo option py_res \<times> todo_mgr" where
  "tm_del_var a k m = tm_modify a (\<lambda>t. t\<lparr>td_vars := dict_del k (td_vars t)\<rparr>) m"

definition tm_get_var :: "todo_arg \<Rightarrow> string \<Rightarrow> todo_mgr \<Rightarrow> py_val py_res" where
  "tm_get_var a k m = py_bind (tm_get a m) (\<lambda>t.
     Inr (case t of None \<Rightarrow> VNone | Some t \<Rightarrow> (case dict_get (td_vars t) k of None \<Rightarrow> VNone | Some v \<Rightarrow> v)))"

definition tm_comment :: "string \<Rightarrow> string \<Rightarrow> todo_arg \<Rightarrow> string \<Rightarrow> todo_mgr \<Rightarrow> todo_comment option py_res \<times> todo_mgr" where
  "tm_comment uid now a body m =
     (let c = \<lparr>tc_id = uid, tc_body = body, tc_created_at = now\<rparr> in
      case tm_modify a (\<lambda>t. t\<lparr>td_comments := td_comments t @ [c]\<rparr>) m of
        (Inl e, m1) \<Rightarrow> (Inl e, m1)
      | (Inr None, m1) \<Rightarrow> (Inr None, m1)
      | (Inr (Some t), m1) \<Rightarrow> (Inr (Some c), m1))"

definition tm_comments_of :: "todo_arg \<Rightarrow> todo_mgr \<Rightarrow> todo_comment list py_res" where
  "tm_comments_of a m = py_bind (tm_get a m) (\<lambda>t. Inr (case t of None \<Rightarrow> [] | Some t \<Rightarrow> td_comments t))"

text \<open>A caller's own assignment to the fields of a managed todo object (its id stays).\<close>

definition tm_assign :: "string \<Rightarrow> (todo \<Rightarrow> todo) \<Rightarrow> todo_mgr \<Rightarrow> todo_mgr" where
  "tm_assign i f m =
     (case dict_get (tm_todos m) i of None \<Rightarrow> m | Some t \<Rightarrow> tm_put i ((f t)\<lparr>td_id := td_id t\<rparr>) m)"

section \<open>Queries\<close>

datatype eff_status = E_open | E_blocked | E_done

definition effective_status :: "(string, todo) dict \<Rightarrow> todo \<Rightarrow> eff_status" where
  "effective_status all t =
     (if td_status t = T_done then E_done else if is_blocked t all then E_blocked else E_open)"

definition eff_str :: "eff_status \<Rightarrow> string" where
  "eff_str e = (case e of E_open \<Rightarrow> ''open'' | E_blocked \<Rightarrow> ''blocked'' | E_done \<Rightarrow> ''done'')"

definition list_todos :: "string option \<Rightarrow> todo_mgr \<Rightarrow> todo list" where
  "list_todos status m =
     (case status of
        None \<Rightarrow> tm_listing m
      | Some s \<Rightarrow> filter (\<lambda>t. eff_str (effective_status (tm_todos m) t) = s) (tm_listing m))"

section \<open>The dependency closure\<close>

text \<open>
  The loop of \<^verbatim>\<open>_dependency_closure\<close>: a depth-first walk with an explicit stack (its top is the
  head of the list). \<open>st\<close> is the dictionary \<^verbatim>\<open>state\<close>: 1 is being visited, 2 is emitted.
\<close>

definition closure_left :: "(string, todo) dict \<Rightarrow> (string, nat) dict \<Rightarrow> nat" where
  "closure_left todos st = card (td_id ` snd ` set todos - fst ` set st)"

definition stack_left :: "(todo \<times> nat) list \<Rightarrow> nat" where
  "stack_left stack = (\<Sum>(t, k) \<leftarrow> stack. Suc (length (td_deps t) - k))"

lemma closure_left_less:
  assumes "dict_get todos d = Some dep" and "dict_get st (td_id dep) = None"
  shows "closure_left todos (dict_set (td_id dep) v st) < closure_left todos st"
proof -
  have "td_id dep \<in> td_id ` snd ` set todos" using map_of_SomeD [OF assms(1)] by force
  moreover have "td_id dep \<notin> fst ` set st" using assms(2) by (simp add: map_of_eq_None_iff)
  moreover have "fst ` set (dict_set (td_id dep) v st) = insert (td_id dep) (fst ` set st)"
    using dict_keys_set [of "td_id dep" v st] by (auto simp flip: set_map split: if_splits)
  ultimately have "td_id ` snd ` set todos - fst ` set (dict_set (td_id dep) v st)
      \<subset> td_id ` snd ` set todos - fst ` set st" by blast
  then show ?thesis unfolding closure_left_def by (intro psubset_card_mono) simp_all
qed

lemma closure_left_same:
  "dict_get st i \<noteq> None \<Longrightarrow> closure_left todos (dict_set i v st) = closure_left todos st"
proof -
  assume "dict_get st i \<noteq> None"
  then have "i \<in> set (dict_keys st)" by (simp add: map_of_eq_None_iff)
  then have "fst ` set (dict_set i v st) = fst ` set st"
    using dict_keys_set [of i v st] by (metis set_map)
  then show ?thesis by (simp add: closure_left_def)
qed

lemma closure_left_le: "closure_left todos (dict_set i v st) \<le> closure_left todos st"
proof -
  have "fst ` set st \<subseteq> fst ` set (dict_set i v st)"
    using dict_keys_set [of i v st] by (auto simp flip: set_map split: if_splits)
  then show ?thesis unfolding closure_left_def by (intro card_mono) auto
qed

function closure_loop :: "(string, todo) dict \<Rightarrow> string \<Rightarrow> (todo \<times> nat) list \<Rightarrow> (string, nat) dict \<Rightarrow>
    todo list \<Rightarrow> string list \<Rightarrow> todo list \<times> string list" where
  "closure_loop todos root [] st ordered missing = (ordered, missing)"
| "closure_loop todos root ((t, k) # stack) st ordered missing =
     (if length (td_deps t) \<le> k
      then closure_loop todos root stack (dict_set (td_id t) 2 st)
             (if td_id t \<noteq> root then ordered @ [t] else ordered) missing
      else let d = td_deps t ! k; stack1 = (t, Suc k) # stack in
        case dict_get todos d of
          None \<Rightarrow> closure_loop todos root stack1 st ordered
                     (if d \<in> set missing then missing else missing @ [d])
        | Some dep \<Rightarrow>
            if dict_get st (td_id dep) = None
            then closure_loop todos root ((dep, 0) # stack1) (dict_set (td_id dep) 1 st) ordered missing
            else closure_loop todos root stack1 st ordered missing)"
  by pat_completeness auto
termination
proof (relation "(\<lambda>(todos, root, stack, st, ordered, missing). closure_left todos st)
    <*mlex*> measure (\<lambda>(todos, root, stack, st, ordered, missing). stack_left stack)", goal_cases)
  case 1
  then show ?case by (simp add: wf_mlex)
next
  case (2 todos root t k stack st ordered missing)
  then show ?case using closure_left_le [of todos "td_id t" 2 st]
    by (auto simp: mlex_prod_def stack_left_def)
next
  case (3 todos root t k stack st ordered missing d stack1)
  then show ?case by (auto intro!: mlex_leq simp: stack_left_def)
next
  case (4 todos root t k stack st ordered missing d stack1 dep)
  then show ?case by (auto intro!: mlex_less closure_left_less)
next
  case (5 todos root t k stack st ordered missing d stack1 dep)
  then show ?case by (auto intro!: mlex_leq simp: stack_left_def)
qed

definition dependency_closure :: "(string, todo) dict \<Rightarrow> todo \<Rightarrow> todo list \<times> string list" where
  "dependency_closure todos root = closure_loop todos (td_id root) [(root, 0)] [(td_id root, 1)] [] []"

section \<open>The status view\<close>

definition sep_dot :: string where "sep_dot = '' '' @ middot @ '' ''"

definition counted :: "nat \<Rightarrow> string \<Rightarrow> string" where
  "counted n word = nat_str n @ '' '' @ word @ (if n \<noteq> 1 then ''s'' else [])"

definition status_title :: "string \<Rightarrow> string" where
  "status_title title =
     (let joined = str_join '' '' (words_of title);
          compact = (if joined = [] then ''(untitled)'' else joined)
      in if length compact \<le> status_title_chars then compact
         else rstrip (take (status_title_chars - 1) compact) @ ellipsis)"

definition status_icon :: "eff_status \<Rightarrow> string" where
  "status_icon e = (case e of E_open \<Rightarrow> circle | E_done \<Rightarrow> check_mark | E_blocked \<Rightarrow> bullet_dot)"

definition dep_text :: "(string, todo) dict \<Rightarrow> todo \<Rightarrow> string" where
  "dep_text all t =
     (let unresolved = filter (\<lambda>d. case dict_get all d of None \<Rightarrow> False
                                 | Some dep \<Rightarrow> effective_status all dep \<noteq> E_done) (td_deps t);
          shown = take status_max_deps unresolved;
          suffix = (if length unresolved > length shown
                    then '', +'' @ nat_str (length unresolved - length shown) else [])
      in if unresolved = [] then [] else '' [needs: '' @ str_join '', '' shown @ suffix @ '']'')"

definition status_line :: "(string, todo) dict \<Rightarrow> todo \<Rightarrow> string" where
  "status_line all t =
     (let details = (if strip (td_description t) \<noteq> [] then [''description''] else [])
            @ (if td_vars t \<noteq> [] then [counted (length (td_vars t)) ''var''] else [])
            @ (if td_comments t \<noteq> [] then [counted (length (td_comments t)) ''comment''] else []);
          detail_text = (if details = [] then [] else sep_dot @ str_join sep_dot details)
      in ''  '' @ status_icon (effective_status all t) @ '' ['' @ td_id t @ ''] ''
         @ status_title (td_title t) @ dep_text all t @ detail_text)"

definition truncation_note :: string where
  "truncation_note = ellipsis @ '' status truncated''"

definition bounded_status :: "string \<Rightarrow> nat \<Rightarrow> string" where
  "bounded_status output max_chars =
     (if length output \<le> max_chars then output
      else let marker = nl @ truncation_note
           in rstrip (slice_to output (int max_chars - int (length marker))) @ marker)"

text \<open>The counts per effective status, in the fixed order, and what is left over.\<close>

definition status_counts :: "(string, todo) dict \<Rightarrow> todo list \<Rightarrow> string list \<times> nat" where
  "status_counts all ts =
     (let n = (\<lambda>e. length (filter (\<lambda>t. effective_status all t = e) ts));
          es = [E_open, E_blocked, E_done]
      in (map (\<lambda>e. nat_str (n e) @ '' '' @ eff_str e) (filter (\<lambda>e. n e \<noteq> 0) es),
          length ts - sum_list (map n es)))"

definition render_active :: "todo_mgr \<Rightarrow> todo list \<Rightarrow> todo \<Rightarrow> todo list \<Rightarrow> string list \<Rightarrow> nat \<Rightarrow> todo list \<Rightarrow> string" where
  "render_active m todos active dependencies missing max_chars rows =
     (let all = tm_todos m;
          omitted = length dependencies - length rows;
          ndeps = length dependencies + length missing;
          details = [eff_str (effective_status all active)]
            @ (if dependencies \<noteq> [] \<or> missing \<noteq> []
               then [nat_str ndeps @ '' dependenc'' @ (if ndeps = 1 then ''y'' else ''ies'')] else [])
            @ (if td_vars active \<noteq> [] then [counted (length (td_vars active)) ''var''] else [])
            @ (if td_comments active \<noteq> [] then [counted (length (td_comments active)) ''comment''] else []);
          note = str_join '' '' (words_of (td_description active));
          dep_ids = map td_id dependencies;
          other = filter (\<lambda>t. td_id t \<noteq> td_id active \<and> td_id t \<notin> set dep_ids) todos;
          summary = (let (labels, rest) = status_counts all other; base = str_join sep_dot labels
                     in if rest \<noteq> 0 then base @ (if base \<noteq> [] then sep_dot else []) @ nat_str rest @ '' other'' else base);
          hints = [''clear active: self.todo.deactivate()'']
            @ (if note = [] then [''refine task: self.todo.update(\"'' @ td_id active @ ''\", description=\"scope and next step\")''] else [])
            @ (if td_comments active = []
               then [''record progress: self.todo.comment(\"'' @ td_id active @ ''\", \"what changed or was learned\")'']
               else [''record material progress with self.todo.comment(id, ...)''])
            @ [''show all: self.todo.list_todos()''];
          lines = [''Active ['' @ td_id active @ ''] '' @ status_title (td_title active),
                   ''Status: '' @ str_join sep_dot details,
                   ''Description: '' @ (if note = [] then ''(none)'' else note)]
            @ (if td_comments active \<noteq> []
               then [''Recent activity: '' @ str_join '' '' (words_of (tc_body (last (td_comments active))))] else [])
            @ (if rows \<noteq> [] \<or> omitted \<noteq> 0 \<or> missing \<noteq> []
               then [[], ''Dependencies:''] @ map (status_line all) rows else [])
            @ (if omitted \<noteq> 0 then [''  '' @ ellipsis @ '' +'' @ nat_str omitted @ '' dependencies not shown''] else [])
            @ (if missing \<noteq> [] then [''  ! missing dependencies: '' @ str_join '', '' missing] else [])
            @ (if other \<noteq> [] then [[], ''Other Todos: '' @ summary] else [])
            @ [''Hint: '' @ str_join sep_dot hints]
      in bounded_status (str_join nl lines) max_chars)"

text \<open>The two loops that drop rows from the end until the output fits.\<close>

function shrink_rows :: "(string \<Rightarrow> bool) \<Rightarrow> (todo list \<Rightarrow> string) \<Rightarrow> todo list \<Rightarrow> string" where
  "shrink_rows too_long render rows =
     (let output = render rows in
      if rows \<noteq> [] \<and> too_long output then shrink_rows too_long render (butlast rows) else output)"
  by pat_completeness auto
termination
  by (relation "measure (\<lambda>(p, r, rows). length rows)") auto

declare shrink_rows.simps [simp del]

definition rows_by_status :: "(string, todo) dict \<Rightarrow> todo list \<Rightarrow> eff_status \<Rightarrow> todo list" where
  "rows_by_status all todos e = filter (\<lambda>t. effective_status all t = e) todos"

definition render_overview :: "todo_mgr \<Rightarrow> todo list \<Rightarrow> todo list \<Rightarrow> string" where
  "render_overview m todos rows =
     (let all = tm_todos m;
          done = rows_by_status all todos E_done;
          shown = map td_id rows;
          omitted = filter (\<lambda>t. td_id t \<notin> set shown) todos;
          header = ''Todos ('' @ nat_str (length done) @ ''/'' @ nat_str (length todos) @ '' done''
            @ (if omitted \<noteq> [] then ''; showing '' @ nat_str (length rows) else []);
          labels = (let (ls, rest) = status_counts all omitted
                    in ls @ (if rest \<noteq> 0 then [nat_str rest @ '' other''] else []));
          hints = (if omitted \<noteq> [] then [''list all: self.todo.list_todos()''] else [])
            @ (if list_ex (\<lambda>t. strip (td_description t) \<noteq> [] \<or> td_vars t \<noteq> [] \<or> td_comments t \<noteq> []) rows
               then [''inspect: self.todo.get(id)''] else [])
            @ (if done \<noteq> [] then [''prune done: self.todo.clear_done()''] else [])
      in str_join nl ([header @ ''):''] @ map (status_line all) rows
            @ (if omitted \<noteq> [] then [''  '' @ ellipsis @ '' +'' @ nat_str (length omitted) @ '' not shown (''
                  @ str_join '', '' labels @ '')''] else [])
            @ (if hints \<noteq> [] then [''Hint: '' @ str_join sep_dot hints] else [])))"

definition overview_rows :: "todo_mgr \<Rightarrow> todo list \<Rightarrow> todo list" where
  "overview_rows m todos =
     rows_by_status (tm_todos m) todos E_open @ rows_by_status (tm_todos m) todos E_blocked
     @ take status_max_done (rev (rows_by_status (tm_todos m) todos E_done))"

definition tm_status :: "int \<Rightarrow> int \<Rightarrow> todo_mgr \<Rightarrow> string py_res \<times> todo_mgr" where
  "tm_status max_items max_chars m =
     (if max_items < 0 then (Inl ValueError, m)
      else if max_chars < 200 then (Inl ValueError, m)
      else let todos = tm_listing m in
        if todos = [] then (Inr ''(no todos)'', m)
        else case tm_active m of
          (Some active, m1) \<Rightarrow>
            (let (dependencies, missing) = dependency_closure (tm_todos m1) active
             in (Inr (shrink_rows (suffix truncation_note)
                   (render_active m1 todos active dependencies missing (nat max_chars))
                   (take (nat max_items) dependencies)), m1))
        | (None, m1) \<Rightarrow>
            (Inr (bounded_status
                   (shrink_rows (\<lambda>output. length output > nat max_chars) (render_overview m1 todos)
                      (take (nat max_items) (overview_rows m1 todos)))
                   (nat max_chars)), m1))"

section \<open>Well-formed managers\<close>

text \<open>
  The order list and the dictionary hold the same ids once each, every todo sits under its own
  id, the selection names a managed todo. \<open>active_open\<close> says more of the selection: it is not
  done. A caller's own assignment can break \<open>active_open\<close>, no operation of the manager does.
\<close>

definition ids_ok :: "(string, todo) dict \<Rightarrow> bool" where
  "ids_ok d \<longleftrightarrow> list_all (\<lambda>(i, t). td_id t = i) d"

definition tm_inv :: "todo_mgr \<Rightarrow> bool" where
  "tm_inv m \<longleftrightarrow> distinct (tm_order m) \<and> distinct (dict_keys (tm_todos m)) \<and>
     set (tm_order m) = set (dict_keys (tm_todos m)) \<and>
     ids_ok (tm_todos m) \<and>
     (\<forall>a. tm_active_id m = Some a \<longrightarrow> a \<in> set (dict_keys (tm_todos m)))"

definition active_open :: "todo_mgr \<Rightarrow> bool" where
  "active_open m \<longleftrightarrow> (\<forall>a t. tm_active_id m = Some a \<longrightarrow> dict_get (tm_todos m) a = Some t \<longrightarrow> td_status t = T_open)"

lemma not_done_iff [simp]: "s \<noteq> T_done \<longleftrightarrow> s = T_open"
  by (cases s) auto

lemma ids_ok_get: "ids_ok d \<Longrightarrow> dict_get d i = Some t \<Longrightarrow> td_id t = i"
  using map_of_SomeD by (fastforce simp: ids_ok_def list_all_iff)

lemma ids_ok_set [simp]: "ids_ok d \<Longrightarrow> td_id t = i \<Longrightarrow> ids_ok (dict_set i t d)"
  by (induction d) (auto simp: ids_ok_def)

lemma ids_ok_del [simp]: "ids_ok d \<Longrightarrow> ids_ok (dict_del i d)"
  by (induction d) (auto simp: ids_ok_def)

lemma ids_ok_Nil [simp]: "ids_ok []"
  by (simp add: ids_ok_def)

lemma tm_inv_id: "tm_inv m \<Longrightarrow> dict_get (tm_todos m) i = Some t \<Longrightarrow> td_id t = i"
  unfolding tm_inv_def by (blast dest: ids_ok_get)

lemma tm_inv_init [simp]: "tm_inv tm_init" "active_open tm_init"
  by (simp_all add: tm_inv_def active_open_def tm_init_def)

lemma tm_put_simps [simp]:
  "tm_todos (tm_put i t m) = dict_set i t (tm_todos m)" "tm_order (tm_put i t m) = tm_order m"
  "tm_active_id (tm_put i t m) = tm_active_id m"
  by (simp_all add: tm_put_def)

lemma tm_clear_active_simps [simp]:
  "tm_todos (tm_clear_active_if c m) = tm_todos m" "tm_order (tm_clear_active_if c m) = tm_order m"
  "tm_active_id (tm_clear_active_if c m) = (if c then None else tm_active_id m)"
  by (simp_all add: tm_clear_active_if_def)

lemma tm_inv_put:
  assumes "tm_inv m" and "dict_get (tm_todos m) i = Some t" and "td_id t' = i"
  shows "tm_inv (tm_put i t' m)"
proof -
  have "i \<in> set (dict_keys (tm_todos m))" using assms(2) by (metis dict_has_def dict_has_iff option.distinct(1))
  then have "dict_keys (dict_set i t' (tm_todos m)) = dict_keys (tm_todos m)" by (simp add: dict_keys_set)
  then show ?thesis using assms(1,3) by (simp add: tm_inv_def)
qed

lemma tm_inv_clear_active: "tm_inv m \<Longrightarrow> tm_inv (tm_clear_active_if c m)"
  by (simp add: tm_inv_def)

lemma tm_inv_set_active:
  "tm_inv m \<Longrightarrow> (\<And>a. x = Some a \<Longrightarrow> a \<in> set (dict_keys (tm_todos m))) \<Longrightarrow> tm_inv (m\<lparr>tm_active_id := x\<rparr>)"
  by (simp add: tm_inv_def)

lemma tm_modify_inv:
  assumes "tm_inv m" and "\<And>t. td_id (f t) = td_id t"
  shows "tm_inv (snd (tm_modify a f m))"
proof (cases "todo_id_of a")
  case (Inr i)
  show ?thesis
  proof (cases "dict_get (tm_todos m) i")
    case (Some t)
    with assms tm_inv_id [OF assms(1) Some] Inr show ?thesis
      by (auto simp: tm_modify_def with_id_def intro: tm_inv_put)
  qed (use assms Inr in \<open>simp add: tm_modify_def with_id_def\<close>)
qed (use assms in \<open>simp add: tm_modify_def with_id_def\<close>)

lemma tm_modify_active_open:
  assumes "active_open m" and "\<And>t. td_status t = T_open \<Longrightarrow> td_status (f t) = T_open"
  shows "active_open (snd (tm_modify a f m))"
  using assms by (auto simp: tm_modify_def with_id_def active_open_def split: sum.splits option.splits)

definition tm_good :: "todo_mgr \<Rightarrow> bool" where
  "tm_good m \<longleftrightarrow> tm_inv m \<and> active_open m"

lemma tm_modify_good:
  "tm_good m \<Longrightarrow> (\<And>t. td_id (f t) = td_id t) \<Longrightarrow> (\<And>t. td_status t = T_open \<Longrightarrow> td_status (f t) = T_open)
   \<Longrightarrow> tm_good (snd (tm_modify a f m))"
  by (simp add: tm_good_def tm_modify_inv tm_modify_active_open)

text \<open>Replacing a todo and dropping the selection when it is that todo and now done.\<close>

lemma tm_put_clear_inv:
  assumes "tm_inv m" and "dict_get (tm_todos m) i = Some t" and "td_id t' = i"
  shows "tm_inv (tm_clear_active_if c (tm_put i t' m))"
  using assms by (simp add: tm_inv_clear_active tm_inv_put)

lemma tm_put_clear_active_open:
  assumes "active_open m" and "td_status t' = T_done \<Longrightarrow> tm_active_id m = Some i \<Longrightarrow> c"
  shows "active_open (tm_clear_active_if c (tm_put i t' m))"
  using assms by (cases "td_status t'") (auto simp: active_open_def)

lemma merge_candidate_id:
  "merge_candidate ser ks u b t = Inr t' \<Longrightarrow> td_id t' = td_id t"
  by (auto simp: merge_candidate_def py_bind_Inr_iff Let_def split: if_splits)

lemma assign_fields_id: "assign_fields kvs t = Inr t' \<Longrightarrow> td_id t' = td_id t"
  by (induction kvs t rule: assign_fields.induct)
     (auto simp: py_bind_Inr_iff assign_field_def split: if_splits py_val.splits)

lemma tm_merge_inv: "tm_inv m \<Longrightarrow> tm_inv (snd (tm_merge_todo ser ks u b m))"
  using tm_inv_id
  by (auto simp: tm_merge_todo_def split: option.splits sum.splits
        dest!: merge_candidate_id intro!: tm_put_clear_inv)

lemma tm_merge_active_open: "tm_inv m \<Longrightarrow> active_open m \<Longrightarrow> active_open (snd (tm_merge_todo ser ks u b m))"
  using tm_inv_id
  by (auto simp: tm_merge_todo_def split: option.splits sum.splits
        dest!: merge_candidate_id intro!: tm_put_clear_active_open)

lemma tm_update_good:
  "tm_inv m \<Longrightarrow> tm_inv (snd (tm_update a kw m))"
  "tm_inv m \<Longrightarrow> active_open m \<Longrightarrow> active_open (snd (tm_update a kw m))"
  using tm_inv_id
  by (auto simp: tm_update_def with_id_def Let_def split: option.splits sum.splits
        dest!: assign_fields_id intro!: tm_put_clear_inv tm_put_clear_active_open)

lemma tm_done_good:
  "tm_inv m \<Longrightarrow> tm_inv (snd (tm_done a m))"
  "tm_inv m \<Longrightarrow> active_open m \<Longrightarrow> active_open (snd (tm_done a m))"
  using tm_inv_id
  by (auto simp: tm_done_def with_id_def Let_def split: option.splits sum.splits
        intro!: tm_put_clear_inv tm_put_clear_active_open)

lemma new_todo_fields:
  assumes "new_todo ser uid now title deps description vars = Inr t"
  shows "td_id t = uid \<and> td_status t = T_open"
  using assms unfolding new_todo_def Let_def py_bind_Inr_iff
  by (elim exE conjE) (split py_val.splits, auto split: py_val.splits)

lemma tm_add_good:
  assumes "\<not> dict_has (tm_todos m) uid"
  shows "tm_inv m \<Longrightarrow> tm_inv (snd (tm_add ser uid now title deps description vars m))"
    and "active_open m \<Longrightarrow> active_open (snd (tm_add ser uid now title deps description vars m))"
proof -
  have new: "uid \<notin> set (dict_keys (tm_todos m))" using assms by (simp add: dict_has_iff)
  then show "tm_inv m \<Longrightarrow> tm_inv (snd (tm_add ser uid now title deps description vars m))"
    by (auto simp: tm_add_def tm_inv_def dict_set_fresh dest!: new_todo_fields split: sum.splits)
  show "active_open m \<Longrightarrow> active_open (snd (tm_add ser uid now title deps description vars m))"
    by (auto simp: tm_add_def active_open_def dest!: new_todo_fields split: sum.splits if_splits)
qed

lemma dict_keys_drop_deps [simp]: "dict_keys (drop_deps P d) = dict_keys d"
  by (auto simp: drop_deps_def)

lemma dict_get_drop_deps:
  "dict_get (drop_deps P d) i = map_option (\<lambda>t. t\<lparr>td_deps := filter (\<lambda>d. \<not> P d) (td_deps t)\<rparr>) (dict_get d i)"
  by (induction d) (auto simp: drop_deps_def)

lemma drop_deps_ids [simp]: "ids_ok (drop_deps P d) = ids_ok d"
  by (auto simp: drop_deps_def ids_ok_def list_all_iff)

lemma fold_dict_del_ids [simp]: "ids_ok d \<Longrightarrow> ids_ok (fold dict_del ks d)"
  by (induction ks arbitrary: d) simp_all

lemma dict_keys_fold_del: "dict_keys (fold dict_del ks d) = filter (\<lambda>x. x \<notin> set ks) (dict_keys d)"
  by (induction ks arbitrary: d) (auto simp: dict_keys_del intro!: filter_cong)

lemma dict_get_fold_del: "dict_get (fold dict_del ks d) i = (if i \<in> set ks then None else dict_get d i)"
  by (induction ks arbitrary: d) auto

lemma tm_remove_good:
  "tm_inv m \<Longrightarrow> tm_inv (snd (tm_remove a m))"
  "active_open m \<Longrightarrow> active_open (snd (tm_remove a m))"
proof -
  show "tm_inv m \<Longrightarrow> tm_inv (snd (tm_remove a m))"
    by (cases "todo_id_of a"; cases "tm_active_id m") (simp_all add: tm_remove_def with_id_def tm_inv_def dict_keys_del set_eq_iff del: set_map)
  show "active_open m \<Longrightarrow> active_open (snd (tm_remove a m))"
    by (auto simp: tm_remove_def with_id_def active_open_def dict_get_drop_deps split: sum.splits if_splits)
qed

lemma tm_clear_done_good:
  "tm_inv m \<Longrightarrow> tm_inv (snd (tm_clear_done m))"
  "active_open m \<Longrightarrow> active_open (snd (tm_clear_done m))"
proof -
  show "tm_inv m \<Longrightarrow> tm_inv (snd (tm_clear_done m))"
    by (cases "tm_active_id m") (simp_all add: tm_clear_done_def Let_def tm_inv_def dict_keys_fold_del set_eq_iff del: set_map)
  show "active_open m \<Longrightarrow> active_open (snd (tm_clear_done m))"
    by (auto simp: tm_clear_done_def Let_def active_open_def dict_get_drop_deps dict_get_fold_del
        split: option.splits if_splits)
qed

lemma tm_active_good:
  "tm_inv m \<Longrightarrow> tm_inv (snd (tm_active m))" "active_open (snd (tm_active m))"
  by (auto simp: tm_active_def active_open_def tm_inv_def split: option.splits)

lemma tm_active_result:
  "tm_inv m \<Longrightarrow> fst (tm_active m) = Some t \<Longrightarrow> tm_active_id m = Some (td_id t) \<and>
     dict_get (tm_todos m) (td_id t) = Some t \<and> td_status t = T_open \<and> snd (tm_active m) = m"
  by (auto simp: tm_active_def tm_inv_id split: option.splits if_splits)

lemma from_dict_loop_inv:
  assumes "from_dict_loop ser draws n rs todos order = Inr (todos', order')"
    and "distinct order" "order = dict_keys todos" "ids_ok todos"
  shows "distinct order' \<and> order' = dict_keys todos' \<and> ids_ok todos'"
  using assms
proof (induction ser draws n rs todos order rule: from_dict_loop.induct)
  case (2 ser draws n r rs todos order)
  from "2.prems"(1) obtain t where t: "restore_snapshot ser (fst (draws n)) (snd (draws n)) r = Inr t"
    and new: "\<not> dict_has todos (td_id t)"
    and rest: "from_dict_loop ser draws (Suc n) rs (dict_set (td_id t) t todos) (order @ [td_id t]) = Inr (todos', order')"
    by (auto simp: py_bind_Inr_iff split: if_splits)
  have "td_id t \<notin> set (dict_keys todos)" using new by (simp add: dict_has_iff)
  with "2.prems" show ?case by (intro "2.IH" [OF new rest]) (auto simp: dict_keys_set)
qed simp

lemma tm_from_dict_good:
  "tm_inv m \<Longrightarrow> tm_inv (snd (tm_from_dict ser draws d m))"
  "active_open m \<Longrightarrow> active_open (snd (tm_from_dict ser draws d m))"
proof -
  show "tm_inv m \<Longrightarrow> tm_inv (snd (tm_from_dict ser draws d m))"
    by (auto simp: tm_from_dict_def tm_inv_def dict_has_def simp flip: dict_has_iff set_map simp del: set_map
        dest!: from_dict_loop_inv split: sum.splits option.splits)
  show "active_open m \<Longrightarrow> active_open (snd (tm_from_dict ser draws d m))"
    by (auto simp: tm_from_dict_def active_open_def split: sum.splits option.splits if_splits)
qed

lemma tm_add_dep_good:
  "tm_good m \<Longrightarrow> tm_good (snd (tm_add_dep a d m))" "tm_inv m \<Longrightarrow> tm_inv (snd (tm_add_dep a d m))"
  by (auto simp: tm_add_dep_def intro!: tm_modify_good tm_modify_inv split: sum.splits)

lemma tm_remove_dep_good:
  "tm_good m \<Longrightarrow> tm_good (snd (tm_remove_dep a d m))" "tm_inv m \<Longrightarrow> tm_inv (snd (tm_remove_dep a d m))"
  by (auto simp: tm_remove_dep_def intro!: tm_modify_good tm_modify_inv split: sum.splits)

lemma snd_tm_comment:
  "snd (tm_comment uid now a body m) = snd (tm_modify a
     (\<lambda>t. t\<lparr>td_comments := td_comments t @ [\<lparr>tc_id = uid, tc_body = body, tc_created_at = now\<rparr>]\<rparr>) m)"
  by (auto simp: tm_comment_def Let_def split: prod.splits sum.splits option.splits)

lemma snd_tm_status: "snd (tm_status mi mc m) \<in> {m, snd (tm_active m)}"
  by (auto simp: tm_status_def Let_def split: prod.splits option.splits)

text \<open>
  One operation of the manager. Reads that do not change it are left out; \<^verbatim>\<open>complete\<close> is
  \<^verbatim>\<open>done\<close>. The id that \<^verbatim>\<open>add\<close> draws is one the manager does not have.
\<close>

inductive tm_step :: "todo_mgr \<Rightarrow> todo_mgr \<Rightarrow> bool" where
  "\<not> dict_has (tm_todos m) uid \<Longrightarrow> tm_step m (snd (tm_add ser uid now title deps description vars m))"
| "tm_step m (snd (tm_done a m))"
| "tm_step m (snd (tm_reopen a m))"
| "tm_step m (snd (tm_remove a m))"
| "tm_step m (tm_clear m)"
| "tm_step m (snd (tm_clear_done m))"
| "tm_step m (snd (tm_update a kw m))"
| "tm_step m (snd (tm_merge_todo ser ks updated base m))"
| "tm_step m (snd (tm_activate a m))"
| "tm_step m (snd (tm_deactivate m))"
| "tm_step m (snd (tm_active m))"
| "tm_step m (snd (tm_add_dep a d m))"
| "tm_step m (snd (tm_remove_dep a d m))"
| "tm_step m (snd (tm_set_var ser a k v m))"
| "tm_step m (snd (tm_del_var a k m))"
| "tm_step m (snd (tm_comment uid now a body m))"
| "tm_step m (snd (tm_status max_items max_chars m))"
| "tm_step m (snd (tm_to_dict m))"
| "tm_step m (snd (tm_from_dict ser draws data m))"

lemma tm_activate_good:
  "tm_inv m \<Longrightarrow> tm_inv (snd (tm_activate a m))"
  "active_open m \<Longrightarrow> active_open (snd (tm_activate a m))"
proof -
  show "tm_inv m \<Longrightarrow> tm_inv (snd (tm_activate a m))"
    by (auto simp: tm_activate_def with_id_def split: sum.splits option.splits intro!: tm_inv_set_active)
       (metis dict_has_def dict_has_iff option.distinct(1) set_map)
  show "active_open m \<Longrightarrow> active_open (snd (tm_activate a m))"
    by (auto simp: tm_activate_def with_id_def active_open_def split: sum.splits option.splits)
qed

lemma tm_step_inv: "tm_step m m' \<Longrightarrow> tm_inv m \<Longrightarrow> tm_inv m'"
proof (induction rule: tm_step.induct)
  case (17 m mi mc)
  then show ?case using snd_tm_status [of mi mc m] by (auto simp: tm_active_good)
next
  case (10 m)
  from tm_active_good(1) [OF this] show ?case by (simp add: tm_deactivate_def split_beta tm_inv_def)
qed (simp_all add: tm_add_good tm_done_good tm_reopen_def tm_modify_inv tm_remove_good tm_clear_done_good
      tm_update_good tm_merge_inv tm_activate_good tm_active_good tm_add_dep_good tm_remove_dep_good
      tm_set_var_def tm_del_var_def snd_tm_comment tm_from_dict_good tm_to_dict_def Let_def
      split_beta, simp add: tm_clear_def tm_inv_def)

lemma tm_step_active_open: "tm_step m m' \<Longrightarrow> tm_inv m \<Longrightarrow> active_open m \<Longrightarrow> active_open m'"
proof (induction rule: tm_step.induct)
  case (17 m mi mc)
  then show ?case using snd_tm_status [of mi mc m] tm_active_good(2) [of m] by auto
next
  case (12 m a d)
  then show ?case using tm_add_dep_good(1) by (simp add: tm_good_def)
next
  case (13 m a d)
  then show ?case using tm_remove_dep_good(1) by (simp add: tm_good_def)
qed (simp_all add: tm_add_good tm_done_good tm_reopen_def tm_modify_active_open tm_remove_good tm_clear_done_good
      tm_update_good tm_merge_active_open tm_activate_good tm_active_good
      tm_set_var_def tm_del_var_def snd_tm_comment tm_from_dict_good tm_to_dict_def Let_def
      tm_deactivate_def split_beta, simp_all add: tm_clear_def active_open_def)

text \<open>
  The managers a program reaches. The flag says that every change went through the manager: it
  falls when a caller assigns to the fields of a todo object itself.
\<close>

inductive tm_reachable :: "bool \<Rightarrow> todo_mgr \<Rightarrow> bool" where
  tm_start: "tm_reachable True tm_init"
| tm_delegate: "tm_reachable True (with_todo t)"
| tm_op: "tm_reachable own m \<Longrightarrow> tm_step m m' \<Longrightarrow> tm_reachable own m'"
| tm_foreign: "tm_reachable own m \<Longrightarrow> tm_reachable False (tm_assign i f m)"

lemma tm_assign_inv: "tm_inv m \<Longrightarrow> tm_inv (tm_assign i f m)"
  using tm_inv_id by (auto simp: tm_assign_def split: option.splits intro!: tm_inv_put)

lemma tm_reachable_good: "tm_reachable own m \<Longrightarrow> tm_inv m \<and> (own \<longrightarrow> active_open m)"
proof (induction rule: tm_reachable.induct)
  case (tm_delegate t)
  show ?case by (auto simp: with_todo_def tm_inv_def ids_ok_def active_open_def)
qed (auto simp: tm_assign_inv dest: tm_step_inv tm_step_active_open)

lemma tm_listing_ids: "tm_inv m \<Longrightarrow> map td_id (tm_listing m) = tm_order m"
proof -
  assume inv: "tm_inv m"
  have "map td_id (List.map_filter (\<lambda>i. dict_get (tm_todos m) i) xs) = xs"
    if "set xs \<subseteq> set (tm_order m)" for xs
    using that
  proof (induction xs)
    case (Cons x xs)
    then have "x \<in> set (dict_keys (tm_todos m))" using inv by (auto simp: tm_inv_def)
    then obtain t where "dict_get (tm_todos m) x = Some t"
      by (metis dict_has_def dict_has_iff not_None_eq)
    with Cons tm_inv_id [OF inv] show ?case by (simp add: List.map_filter_def)
  qed (simp add: List.map_filter_def)
  then show ?thesis by (simp add: tm_listing_def)
qed

text \<open>C4: In every manager a program can reach, the order list and the dictionary hold the same
  ids once each and \<^verbatim>\<open>active()\<close> answers with a managed open todo or clears the selection; as long
  as all changes go through the manager the selected todo is open even before that. A listing
  shows each managed todo exactly once, in creation order.\<close>

theorem todo_manager_invariant:
  assumes "tm_reachable own m"
  shows "distinct (tm_order m) \<and> set (tm_order m) = set (dict_keys (tm_todos m)) \<and>
    map td_id (list_todos None m) = tm_order m \<and>
    (own \<longrightarrow> active_open m) \<and>
    (case tm_active m of
       (Some t, m') \<Rightarrow> m' = m \<and> tm_active_id m = Some (td_id t) \<and>
          dict_get (tm_todos m) (td_id t) = Some t \<and> td_status t = T_open
     | (None, m') \<Rightarrow> tm_active_id m' = None)"
proof -
  from tm_reachable_good [OF assms] have inv: "tm_inv m" and ao: "own \<longrightarrow> active_open m" by auto
  have "case tm_active m of
       (Some t, m') \<Rightarrow> m' = m \<and> tm_active_id m = Some (td_id t) \<and>
          dict_get (tm_todos m) (td_id t) = Some t \<and> td_status t = T_open
     | (None, m') \<Rightarrow> tm_active_id m' = None"
  proof (cases "fst (tm_active m)")
    case None
    then show ?thesis by (simp add: tm_active_def split: option.splits if_splits prod.splits)
  next
    case (Some t)
    with tm_active_result [OF inv Some] show ?thesis by (simp add: split_beta)
  qed
  with inv ao tm_listing_ids [OF inv] show ?thesis
    by (simp add: tm_inv_def list_todos_def)
qed

definition ex_todo :: "string \<Rightarrow> string list \<Rightarrow> todo" where
  "ex_todo i deps = \<lparr>td_id = i, td_title = ''task '' @ i, td_status = T_open, td_deps = deps, td_vars = [],
     td_created_at = ''2026'', td_description = [], td_comments = []\<rparr>"

definition ex_mgr :: todo_mgr where
  "ex_mgr = snd (tm_activate (ArgId ''b'')
     (snd (tm_add (\<lambda>_. True) ''b'' ''2026'' ''task b'' [ArgId ''a''] [] []
       (snd (tm_add (\<lambda>_. True) ''a'' ''2026'' ''task a'' [] [] [] tm_init)))))"

lemmas ex_mgr_simps = ex_mgr_def tm_init_def tm_add_def new_todo_def tm_put_def tm_activate_def with_id_def
  todo_id_of_def sv_init_def dict_has_def

lemma ex_mgr_eval:
  "ex_mgr = \<lparr>tm_todos = [(''a'', ex_todo ''a'' []), (''b'', ex_todo ''b'' [''a''])],
     tm_order = [''a'', ''b''], tm_active_id = Some ''b''\<rparr>"
  by (simp add: ex_mgr_simps ex_todo_def)

lemma ex_mgr_reachable: "tm_reachable True ex_mgr"
  unfolding ex_mgr_def
  by (rule tm_op [OF tm_op [OF tm_op [OF tm_start tm_step.intros(1)] tm_step.intros(1)] tm_step.intros(9)])
     (simp_all add: ex_mgr_simps)

theorem todo_manager_invariant_witness:
  "tm_reachable True ex_mgr \<and> map td_id (list_todos None ex_mgr) = tm_order ex_mgr \<and> active_open ex_mgr \<and>
   tm_order ex_mgr = [''a'', ''b'']"
  using todo_manager_invariant [OF ex_mgr_reachable] ex_mgr_reachable by (simp add: ex_mgr_eval)

section \<open>Three-way merge\<close>

text \<open>What a field of the merged todo is: the delegate's value where the delegate changed it,
  which is possible only when nobody else did to another value; else the current one.\<close>

definition merged3 :: "'a \<Rightarrow> 'a \<Rightarrow> 'a \<Rightarrow> 'a \<Rightarrow> bool" where
  "merged3 before after existing result \<longleftrightarrow>
     (if after = before then result = existing
      else result = after \<and> existing \<in> {before, after})"

lemma merge_field_Inr_iff: "merge_field before after existing = Inr x \<longleftrightarrow> merged3 before after existing x"
  by (auto simp: merge_field_def merged3_def)

lemma merge_field_Inl: "merge_field before after existing = Inl e \<Longrightarrow> e = ValueError"
  by (auto simp: merge_field_def split: if_splits)

lemma merge_vars_Inl: "merge_vars ser base upd cur ks cand = Inl e \<Longrightarrow> e = ValueError"
  by (induction ks arbitrary: cand) (simp_all add: Let_def split: if_splits)

text \<open>A variable of the merged todo; a value that cannot be stored leaves the current one.\<close>

definition merged_var :: "(py_val \<Rightarrow> bool) \<Rightarrow> py_val option \<Rightarrow> py_val option \<Rightarrow> py_val option \<Rightarrow> py_val option \<Rightarrow> bool" where
  "merged_var ser before after existing result \<longleftrightarrow>
     result = (if same_var after before \<or> (\<exists>v. after = Some v \<and> \<not> ser v) then existing else after)"

definition var_free :: "py_val option \<Rightarrow> py_val option \<Rightarrow> py_val option \<Rightarrow> bool" where
  "var_free before after existing \<longleftrightarrow> same_var after before \<or> same_var existing before \<or> same_var existing after"

lemma merge_vars_ok:
  "is_ok (merge_vars ser base upd cur ks cand) =
   list_all (\<lambda>k. var_free (dict_get base k) (dict_get upd k) (dict_get cur k)) ks"
  by (induction ks arbitrary: cand) (auto simp: Let_def var_free_def)

lemma merge_vars_get:
  assumes "merge_vars ser base upd cur ks cand = Inr d" and "distinct ks"
  shows "(k \<notin> set ks \<longrightarrow> dict_get d k = dict_get cand k) \<and>
    (k \<in> set ks \<longrightarrow> dict_get cand k = dict_get cur k \<longrightarrow>
       merged_var ser (dict_get base k) (dict_get upd k) (dict_get cur k) (dict_get d k))"
  using assms
proof (induction ks arbitrary: cand)
  case (Cons k' ks)
  show ?case
  proof (cases "same_var (dict_get upd k') (dict_get base k')")
    case True
    then have "merge_vars ser base upd cur ks cand = Inr d" using Cons.prems(1) by (simp add: Let_def)
    from Cons.IH [OF this] Cons.prems(2) True show ?thesis by (auto simp: merged_var_def)
  next
    case False
    let ?cand = "case dict_get upd k' of None \<Rightarrow> dict_del k' cand | Some v \<Rightarrow> sv_setitem ser k' v cand"
    from False Cons.prems(1) have rest: "merge_vars ser base upd cur ks ?cand = Inr d"
      by (auto simp: Let_def split: if_splits)
    have cand': "dict_get ?cand j = (if j = k' \<and> (\<forall>v. dict_get upd k' = Some v \<longrightarrow> ser v) then dict_get upd k'
        else dict_get cand j)" for j
      by (auto simp: sv_setitem_def split: option.splits)
    from Cons.IH [OF rest] Cons.prems(2) False show ?thesis
      unfolding cand' by (cases "k = k'") (auto simp: merged_var_def)
  qed
qed simp

lemma merge_comments_append:
  "\<exists>new. merge_comments cand cs seen = cand @ new \<and> set new \<subseteq> set cs \<and>
     distinct (map tc_id new) \<and> tc_id ` set new \<inter> set seen = {} \<and> tc_id ` set cs \<subseteq> tc_id ` set new \<union> set seen"
proof (induction cand cs seen rule: merge_comments.induct)
  case (2 cand c cs seen)
  show ?case
  proof (cases "tc_id c \<in> set seen")
    case True
    with "2.IH"(2) show ?thesis by fastforce
  next
    case False
    with "2.IH"(1) obtain new where new: "merge_comments (cand @ [c]) cs (tc_id c # seen) = (cand @ [c]) @ new"
      "set new \<subseteq> set cs" "distinct (map tc_id new)" "tc_id ` set new \<inter> set (tc_id c # seen) = {}"
      "tc_id ` set cs \<subseteq> tc_id ` set new \<union> set (tc_id c # seen)" by auto
    with False show ?thesis by (intro exI [of _ "c # new"]) auto
  qed
qed simp

lemma merge_candidate_Inl: "merge_candidate ser ks u b t = Inl e \<Longrightarrow> e = ValueError"
  by (auto simp: merge_candidate_def Let_def py_bind_def dest: merge_field_Inl merge_vars_Inl
      split: sum.splits if_splits)

lemma merge_candidate_Inr:
  assumes "merge_candidate ser ks u b t = Inr t'"
  shows "merged3 (td_title b) (td_title u) (td_title t) (td_title t') \<and>
    merged3 (td_status b) (td_status u) (td_status t) (td_status t') \<and>
    merged3 (td_deps b) (td_deps u) (td_deps t) (td_deps t') \<and>
    merged3 (td_description b) (td_description u) (td_description t) (td_description t') \<and>
    merge_vars ser (td_vars b) (td_vars u) (td_vars t) ks (td_vars t) = Inr (td_vars t') \<and>
    td_comments t' = merge_comments (td_comments t) (drop (length (td_comments b)) (td_comments u))
       (map tc_id (td_comments t))"
  using assms by (auto simp: merge_candidate_def py_bind_Inr_iff merge_field_Inr_iff Let_def split: if_splits)

text \<open>What a merge needs: the todo is managed, the delegate's new dependencies are too, no field and no variable was
  changed on both sides to different values, and both sides only appended comments.\<close>

definition unchanged_or_agreed :: "'a \<Rightarrow> 'a \<Rightarrow> 'a \<Rightarrow> bool" where
  "unchanged_or_agreed before after existing \<longleftrightarrow> after = before \<or> existing = before \<or> existing = after"

definition conflict_free :: "todo \<Rightarrow> todo \<Rightarrow> todo \<Rightarrow> bool" where
  "conflict_free base updated cur \<longleftrightarrow>
     unchanged_or_agreed (td_title base) (td_title updated) (td_title cur) \<and>
     unchanged_or_agreed (td_status base) (td_status updated) (td_status cur) \<and>
     unchanged_or_agreed (td_deps base) (td_deps updated) (td_deps cur) \<and>
     unchanged_or_agreed (td_description base) (td_description updated) (td_description cur) \<and>
     (\<forall>k. var_free (dict_get (td_vars base) k) (dict_get (td_vars updated) k) (dict_get (td_vars cur) k)) \<and>
     prefix (td_comments base) (td_comments updated) \<and> prefix (td_comments base) (td_comments cur)"

lemma merge_field_ok: "is_ok (merge_field before after existing) = unchanged_or_agreed before after existing"
  by (simp add: merge_field_def unchanged_or_agreed_def)

lemma take_prefix: "take (length xs) ys = xs \<longleftrightarrow> prefix xs ys"
  by (metis append_eq_conv_conj prefix_def)

lemma is_ok_ex: "is_ok r = (\<exists>x. r = Inr x)"
  by (cases r) auto

lemma merge_candidate_ok:
  assumes "set ks = set (dict_keys (td_vars b)) \<union> set (dict_keys (td_vars u))"
  shows "is_ok (merge_candidate ser ks u b t) = conflict_free b u t"
proof -
  have "(\<forall>k. var_free (dict_get (td_vars b) k) (dict_get (td_vars u) k) (dict_get (td_vars t) k)) =
      list_all (\<lambda>k. var_free (dict_get (td_vars b) k) (dict_get (td_vars u) k) (dict_get (td_vars t) k)) ks"
  proof -
    have "var_free (dict_get (td_vars b) k) (dict_get (td_vars u) k) (dict_get (td_vars t) k)" if "k \<notin> set ks" for k
    proof -
      from that have "dict_get (td_vars b) k = None" "dict_get (td_vars u) k = None"
        using assms by (simp_all add: map_of_eq_None_iff)
      then show ?thesis by (simp add: var_free_def same_var_def)
    qed
    then show ?thesis by (auto simp: list_all_iff)
  qed
  then show ?thesis
    unfolding conflict_free_def merge_field_ok [symmetric] take_prefix [symmetric]
      merge_vars_ok [of ser _ _ _ _ "td_vars t", symmetric] is_ok_ex
    by (auto simp: merge_candidate_def py_bind_Inr_iff Let_def)
qed

text \<open>C25: Merging a delegate's copy is all or nothing. It succeeds exactly when the todo is managed under the copy's
  id, every dependency that the delegate added is managed, no field and no variable was changed by both sides to
  different values, and both sides only appended comments; otherwise it raises ValueError and changes nothing. A
  merge that succeeds gives every field and every variable the delegate's value where the delegate changed it and
  the current value elsewhere (a value that cannot be saved is not stored); comments are only appended, one
  per new id; other todos and the order stay, and a todo that is now done is no longer the active one.
  (\<open>ks\<close> is the set of names of variables in the order in which it is iterated.)\<close>

theorem merge_todo_three_way:
  assumes run: "tm_merge_todo ser ks updated base m = (r, m')"
    and ks: "distinct ks" "set ks = set (dict_keys (td_vars base)) \<union> set (dict_keys (td_vars updated))"
  shows "(is_ok r \<longleftrightarrow> td_id updated = td_id base \<and> (\<exists>cur. dict_get (tm_todos m) (td_id updated) = Some cur \<and>
      (\<forall>d \<in> set (td_deps updated). d \<in> set (td_deps base) \<or> dict_has (tm_todos m) d) \<and> conflict_free base updated cur)) \<and>
    (case r of
      Inl e \<Rightarrow> e = ValueError \<and> m' = m
    | Inr t \<Rightarrow> (\<exists>cur new. dict_get (tm_todos m) (td_id updated) = Some cur \<and> td_id t = td_id cur \<and>
        (\<forall>i. dict_get (tm_todos m') i = (if i = td_id updated then Some t else dict_get (tm_todos m) i)) \<and>
        tm_order m' = tm_order m \<and>
        tm_active_id m' = (if td_status t = T_done \<and> tm_active_id m = Some (td_id t) then None else tm_active_id m) \<and>
        merged3 (td_title base) (td_title updated) (td_title cur) (td_title t) \<and>
        merged3 (td_status base) (td_status updated) (td_status cur) (td_status t) \<and>
        merged3 (td_deps base) (td_deps updated) (td_deps cur) (td_deps t) \<and>
        merged3 (td_description base) (td_description updated) (td_description cur) (td_description t) \<and>
        (\<forall>k. merged_var ser (dict_get (td_vars base) k) (dict_get (td_vars updated) k) (dict_get (td_vars cur) k)
               (dict_get (td_vars t) k)) \<and>
        td_comments t = td_comments cur @ new \<and> distinct (map tc_id new) \<and>
        set new \<subseteq> set (drop (length (td_comments base)) (td_comments updated)) \<and>
        tc_id ` set new \<inter> tc_id ` set (td_comments cur) = {} \<and>
        tc_id ` set (drop (length (td_comments base)) (td_comments updated)) \<subseteq> tc_id ` set (td_comments t)))"
proof (rule conjI, goal_cases)
  case 1
  have "is_ok r = (td_id updated = td_id base \<and> (\<exists>cur. dict_get (tm_todos m) (td_id updated) = Some cur \<and>
      filter (\<lambda>d. d \<notin> set (td_deps base) \<and> \<not> dict_has (tm_todos m) d) (td_deps updated) = [] \<and>
      is_ok (merge_candidate ser ks updated base cur)))"
    using run by (auto simp: tm_merge_todo_def split: if_splits option.splits sum.splits)
  then show ?case
    by (auto simp: merge_candidate_ok [OF ks(2)] filter_empty_conv)
next
  case 2
  show ?case
  proof (cases r)
    case (Inl e)
    with run show ?thesis
      by (auto simp: tm_merge_todo_def dest: merge_candidate_Inl split: if_splits option.splits sum.splits)
  next
    case (Inr t)
    with run obtain cur where cur: "dict_get (tm_todos m) (td_id updated) = Some cur"
      and cand: "merge_candidate ser ks updated base cur = Inr t"
      and m': "m' = tm_clear_active_if (td_status t = T_done \<and> tm_active_id m = Some (td_id t))
                 (tm_put (td_id updated) t m)"
      by (auto simp: tm_merge_todo_def split: if_splits option.splits sum.splits)
    note parts = merge_candidate_Inr [OF cand]
    obtain new where new: "td_comments t = td_comments cur @ new" "distinct (map tc_id new)"
      "set new \<subseteq> set (drop (length (td_comments base)) (td_comments updated))"
      "tc_id ` set new \<inter> tc_id ` set (td_comments cur) = {}"
      "tc_id ` set (drop (length (td_comments base)) (td_comments updated))
         \<subseteq> tc_id ` set new \<union> tc_id ` set (td_comments cur)"
      using merge_comments_append [of "td_comments cur" "drop (length (td_comments base)) (td_comments updated)"
          "map tc_id (td_comments cur)"] parts by auto
    have vars: "merged_var ser (dict_get (td_vars base) k) (dict_get (td_vars updated) k) (dict_get (td_vars cur) k)
        (dict_get (td_vars t) k)" for k
    proof (cases "k \<in> set ks")
      case True
      with merge_vars_get [OF _ ks(1), of ser "td_vars base" "td_vars updated" "td_vars cur" "td_vars cur" "td_vars t" k] parts
      show ?thesis by blast
    next
      case False
      then have "dict_get (td_vars base) k = None" "dict_get (td_vars updated) k = None"
        using ks(2) by (simp_all add: map_of_eq_None_iff)
      with merge_vars_get [OF _ ks(1), of ser "td_vars base" "td_vars updated" "td_vars cur" "td_vars cur" "td_vars t" k]
        parts False show ?thesis by (simp add: merged_var_def same_var_def)
    qed
    have "tc_id ` set (drop (length (td_comments base)) (td_comments updated)) \<subseteq> tc_id ` set (td_comments t)"
      using new(1,5) by (auto simp: image_Un)
    moreover have "\<forall>i. dict_get (tm_todos m') i = (if i = td_id updated then Some t else dict_get (tm_todos m) i)"
      "tm_order m' = tm_order m"
      "tm_active_id m' = (if td_status t = T_done \<and> tm_active_id m = Some (td_id t) then None else tm_active_id m)"
      by (simp_all add: m' tm_clear_active_if_def tm_put_def)
    ultimately show ?thesis unfolding Inr sum.case
      using cur parts new(1-4) vars merge_candidate_id [OF cand]
      by (intro exI [of _ cur] exI [of _ new] conjI) blast+
  qed
qed

definition ex_base :: todo where "ex_base = ex_todo ''a'' []"
definition ex_updated :: todo where
  "ex_updated = ex_base\<lparr>td_description := ''done it'', td_vars := [(''commit'', VStr ''abc'')]\<rparr>"

theorem merge_todo_three_way_witness:
  "\<exists>t m'. tm_merge_todo (\<lambda>_. True) [''commit''] ex_updated ex_base
       (snd (tm_update (ArgId ''a'') [(''title'', VStr ''renamed'')] ex_mgr)) = (Inr t, m') \<and>
     td_title t = ''renamed'' \<and> td_description t = ''done it'' \<and> dict_get (td_vars t) ''commit'' = Some (VStr ''abc'')"
proof -
  let ?m = "snd (tm_update (ArgId ''a'') [(''title'', VStr ''renamed'')] ex_mgr)"
  obtain t m' where run: "tm_merge_todo (\<lambda>_. True) [''commit''] ex_updated ex_base ?m = (Inr t, m')"
    and cur: "dict_get (tm_todos ?m) ''a'' = Some ((ex_todo ''a'' [])\<lparr>td_title := ''renamed''\<rparr>)"
    by (simp add: ex_mgr_eval tm_merge_todo_def merge_candidate_def merge_field_def same_var_def ex_updated_def ex_base_def
        ex_todo_def tm_update_def with_id_def todo_id_of_def assign_field_def dict_has_def tm_put_def)
  from merge_todo_three_way [OF run] cur run show ?thesis
    by (auto simp: ex_updated_def ex_base_def ex_todo_def merged3_def merged_var_def same_var_def)
qed

section \<open>Snapshots, pruning and the bound of the status view\<close>

lemma restore_model_dump: "restore_snapshot ser uid now (model_dump t) = Inr t"
  by (cases "td_status t") (simp_all add: restore_snapshot_def model_dump_def coerce_vars_def status_str_def)

lemma from_dict_loop_dump:
  assumes "distinct (map fst todos @ map td_id ts)"
  shows "from_dict_loop ser draws n (map model_dump ts) todos order
    = Inr (todos @ map (\<lambda>t. (td_id t, t)) ts, order @ map td_id ts)"
  using assms
proof (induction ts arbitrary: n todos order)
  case (Cons t ts)
  then have new: "td_id t \<notin> set (dict_keys todos)" by simp
  from Cons.IH [of "todos @ [(td_id t, t)]"] Cons.prems new show ?case
    by (simp add: restore_model_dump dict_has_iff dict_set_fresh del: set_map)
qed simp

lemma tm_listing_get:
  assumes "tm_inv m"
  shows "dict_get (map (\<lambda>t. (td_id t, t)) (tm_listing m)) i = dict_get (tm_todos m) i"
proof -
  have get: "t \<in> set (tm_listing m) \<longleftrightarrow> dict_get (tm_todos m) (td_id t) = Some t" for t
  proof
    assume "t \<in> set (tm_listing m)"
    then obtain j where "dict_get (tm_todos m) j = Some t"
      by (auto simp: tm_listing_def List.map_filter_def)
    with tm_inv_id [OF assms this] show "dict_get (tm_todos m) (td_id t) = Some t" by simp
  next
    assume g: "dict_get (tm_todos m) (td_id t) = Some t"
    then have "td_id t \<in> set (dict_keys (tm_todos m))" by (metis dict_has_def dict_has_iff option.distinct(1))
    then have "td_id t \<in> set (tm_order m)" using assms by (simp add: tm_inv_def)
    with g show "t \<in> set (tm_listing m)"
      unfolding tm_listing_def List.map_filter_def by (auto simp: image_iff intro!: bexI [of _ "td_id t"])
  qed
  have dist: "distinct (map fst (map (\<lambda>t. (td_id t, t)) (tm_listing m)))"
    using assms tm_listing_ids [OF assms] by (simp add: tm_inv_def comp_def)
  have "dict_get (map (\<lambda>t. (td_id t, t)) (tm_listing m)) i = Some t \<longleftrightarrow> dict_get (tm_todos m) i = Some t" for t
    unfolding map_of_eq_Some_iff [OF dist] using get [of t] tm_inv_id [OF assms, of i t] by auto
  then show ?thesis by (rule option_eqI)
qed

text \<open>Saving and restoring is the identity: \<^verbatim>\<open>from_dict\<close> on what \<^verbatim>\<open>to_dict\<close> returned gives,
  whatever the manager held before, the same todos in the same order and the same selection.\<close>

theorem todo_snapshot_roundtrip:
  assumes inv: "tm_inv m" and save: "tm_to_dict m = (d, m1)"
  shows "\<exists>m2. tm_from_dict ser draws d m0 = (Inr (), m2) \<and> tm_order m2 = tm_order m1 \<and>
    (\<forall>i. dict_get (tm_todos m2) i = dict_get (tm_todos m1) i) \<and> tm_active_id m2 = tm_active_id m1 \<and>
    tm_listing m2 = tm_listing m1"
proof -
  from save have m1: "m1 = snd (tm_active m)"
    and d: "d = \<lparr>sn_todos = map model_dump (tm_listing m1), sn_active_id = tm_active_id m1\<rparr>"
    by (auto simp: tm_to_dict_def Let_def)
  have inv1: "tm_inv m1" and ao: "active_open m1" using tm_active_good inv by (auto simp: m1)
  let ?todos = "map (\<lambda>t. (td_id t, t)) (tm_listing m1)"
  have get: "dict_get ?todos i = dict_get (tm_todos m1) i" for i by (rule tm_listing_get [OF inv1])
  have ids: "map td_id (tm_listing m1) = tm_order m1" by (rule tm_listing_ids [OF inv1])
  have loop: "from_dict_loop ser draws 0 (sn_todos d) [] [] = Inr (?todos, tm_order m1)"
    using from_dict_loop_dump [of "[]" "tm_listing m1" ser draws 0 "[]"] inv1 ids
    by (simp add: d tm_inv_def)
  have act: "(case tm_active_id m1 of None \<Rightarrow> None
              | Some a \<Rightarrow> (case dict_get ?todos a of None \<Rightarrow> None
                 | Some t \<Rightarrow> if td_status t \<noteq> T_done then Some a else None)) = tm_active_id m1"
  proof (cases "tm_active_id m1")
    case (Some a)
    with inv1 have "a \<in> set (dict_keys (tm_todos m1))" by (simp add: tm_inv_def)
    then obtain t where t: "dict_get (tm_todos m1) a = Some t" by (metis dict_has_def dict_has_iff not_None_eq)
    with ao Some show ?thesis by (simp add: get active_open_def)
  qed simp
  let ?m2 = "\<lparr>tm_todos = ?todos, tm_order = tm_order m1, tm_active_id = tm_active_id m1\<rparr>"
  have "tm_from_dict ser draws d m0 = (Inr (), ?m2)"
    using act by (simp add: tm_from_dict_def loop) (simp add: d)
  moreover have "tm_listing ?m2 = tm_listing m1"
    unfolding tm_listing_def [of ?m2] todo_mgr.simps ext [of "dict_get ?todos", OF get]
    by (simp add: tm_listing_def)
  ultimately show ?thesis using get by (intro exI [of _ ?m2]) simp
qed

theorem todo_snapshot_roundtrip_witness:
  "\<exists>m2. tm_from_dict (\<lambda>_. True) (\<lambda>n. ([], [])) (fst (tm_to_dict ex_mgr)) tm_init = (Inr (), m2) \<and>
    tm_listing m2 = tm_listing (snd (tm_to_dict ex_mgr)) \<and> tm_order m2 = [''a'', ''b'']"
proof -
  have inv: "tm_inv ex_mgr" using tm_reachable_good [OF ex_mgr_reachable] by simp
  have ord: "tm_order (snd (tm_to_dict ex_mgr)) = [''a'', ''b'']"
    by (simp add: ex_mgr_eval tm_to_dict_def Let_def tm_active_def ex_todo_def)
  from todo_snapshot_roundtrip [OF inv prod.collapse [symmetric], of "\<lambda>_. True" "\<lambda>n. ([], [])" tm_init]
  show ?thesis unfolding ord [symmetric] by blast
qed

lemma done_ids_iff:
  "distinct (dict_keys (tm_todos m)) \<Longrightarrow>
   i \<in> set (done_ids m) \<longleftrightarrow> (\<exists>t. dict_get (tm_todos m) i = Some t \<and> td_status t = T_done)"
  by (auto simp: done_ids_def map_of_eq_Some_iff image_iff)

lemma dict_get_clear_done:
  assumes "tm_inv m"
  shows "dict_get (tm_todos (snd (tm_clear_done m))) i =
    (case dict_get (tm_todos m) i of
       Some t \<Rightarrow> if td_status t = T_done then None
                 else Some (t\<lparr>td_deps := filter (\<lambda>d. d \<notin> set (done_ids m)) (td_deps t)\<rparr>)
     | None \<Rightarrow> None)"
proof -
  have "i \<in> set (done_ids m) \<longleftrightarrow> (\<exists>t. dict_get (tm_todos m) i = Some t \<and> td_status t = T_done)"
    using assms by (intro done_ids_iff) (simp add: tm_inv_def)
  then show ?thesis
    by (auto simp: tm_clear_done_def Let_def dict_get_drop_deps dict_get_fold_del split: option.splits)
qed

lemma is_blocked_iff:
  "is_blocked t all \<longleftrightarrow> (\<exists>d \<in> set (td_deps t). \<exists>u. dict_get all d = Some u \<and> td_status u = T_open)"
  by (auto simp: is_blocked_def list_ex_iff split: option.splits)

text \<open>Pruning the completed todos removes exactly them, counts them, and leaves no dependency
  on one of them; the effective status (open or blocked) of every todo that stays is unchanged.\<close>

theorem clear_done_preserves_rest:
  assumes inv: "tm_inv m" and run: "tm_clear_done m = (n, m')"
  shows "n = length (filter (\<lambda>(i, t). td_status t = T_done) (tm_todos m)) \<and>
    (\<forall>i. dict_has (tm_todos m') i \<longleftrightarrow> (\<exists>t. dict_get (tm_todos m) i = Some t \<and> td_status t = T_open)) \<and>
    (\<forall>i t'. dict_get (tm_todos m') i = Some t' \<longrightarrow>
      (\<forall>d \<in> set (td_deps t'). \<forall>u. dict_get (tm_todos m) d = Some u \<longrightarrow> td_status u = T_open) \<and>
      (\<exists>t. dict_get (tm_todos m) i = Some t \<and>
         effective_status (tm_todos m') t' = effective_status (tm_todos m) t))"
proof (intro conjI allI impI)
  have m': "m' = snd (tm_clear_done m)" using run by simp
  note get = dict_get_clear_done [OF inv, folded m']
  have dist: "distinct (dict_keys (tm_todos m))" using inv by (simp add: tm_inv_def)
  show "n = length (filter (\<lambda>(i, t). td_status t = T_done) (tm_todos m))"
    using run by (auto simp: tm_clear_done_def Let_def done_ids_def)
  show "dict_has (tm_todos m') i \<longleftrightarrow> (\<exists>t. dict_get (tm_todos m) i = Some t \<and> td_status t = T_open)" for i
    by (auto simp: dict_has_def get split: option.splits)
  fix i t' assume t': "dict_get (tm_todos m') i = Some t'"
  then obtain t where t: "dict_get (tm_todos m) i = Some t" "td_status t = T_open"
    and eq: "t' = t\<lparr>td_deps := filter (\<lambda>d. d \<notin> set (done_ids m)) (td_deps t)\<rparr>"
    by (auto simp: get split: option.splits if_splits)
  show "\<forall>d \<in> set (td_deps t'). \<forall>u. dict_get (tm_todos m) d = Some u \<longrightarrow> td_status u = T_open"
    by (auto simp: eq done_ids_iff [OF dist])
  have "is_blocked t' (tm_todos m') = is_blocked t (tm_todos m)"
  proof
    assume "is_blocked t' (tm_todos m')"
    then show "is_blocked t (tm_todos m)"
      by (auto simp: is_blocked_iff eq get split: option.splits if_splits)
  next
    assume "is_blocked t (tm_todos m)"
    then obtain d u where "d \<in> set (td_deps t)" "dict_get (tm_todos m) d = Some u" "td_status u = T_open"
      by (auto simp: is_blocked_iff)
    then show "is_blocked t' (tm_todos m')"
      by (auto simp: is_blocked_iff eq get done_ids_iff [OF dist] intro!: bexI [of _ d])
  qed
  with t eq show "\<exists>t. dict_get (tm_todos m) i = Some t \<and>
      effective_status (tm_todos m') t' = effective_status (tm_todos m) t"
    by (intro exI [of _ t]) (simp add: effective_status_def)
qed

theorem clear_done_preserves_rest_witness:
  "\<exists>m'. tm_clear_done (snd (tm_done (ArgId ''a'') ex_mgr)) = (1, m') \<and> dict_has (tm_todos m') ''b'' \<and>
    \<not> dict_has (tm_todos m') ''a''"
proof -
  have inv: "tm_inv (snd (tm_done (ArgId ''a'') ex_mgr))"
    using tm_done_good(1) tm_reachable_good [OF ex_mgr_reachable] by blast
  have todos: "tm_todos (snd (tm_done (ArgId ''a'') ex_mgr))
      = [(''a'', (ex_todo ''a'' [])\<lparr>td_status := T_done\<rparr>), (''b'', ex_todo ''b'' [''a''])]"
    by (simp add: ex_mgr_eval tm_done_def with_id_def todo_id_of_def ex_todo_def Let_def)
  obtain n m' where run: "tm_clear_done (snd (tm_done (ArgId ''a'') ex_mgr)) = (n, m')" by (metis prod.exhaust)
  from clear_done_preserves_rest [OF inv run] run show ?thesis
    by (auto simp: todos ex_todo_def)
qed

lemma length_bounded_status: "19 \<le> n \<Longrightarrow> length (bounded_status out n) \<le> n"
proof -
  assume n: "19 \<le> n"
  have marker: "length (nl @ truncation_note) = 19" by (simp add: truncation_note_def nl_def ellipsis_def)
  have "length (rstrip (slice_to out (int n - 19))) \<le> n - 19"
    using length_rstrip_le [of "slice_to out (int n - 19)"] length_slice_to_le [of "int n - 19" out] n by simp
  then show ?thesis using n marker by (auto simp: bounded_status_def Let_def)
qed

lemma shrink_rows_image: "\<exists>rows'. shrink_rows p render rows = render rows'"
proof (induction p render rows rule: shrink_rows.induct)
  case (1 p render rows)
  then show ?case by (subst shrink_rows.simps) (auto simp: Let_def)
qed

text \<open>The status view answers for every admissible pair of limits (the loops that drop rows
  end) with at most \<^verbatim>\<open>max_chars\<close> characters; other limits raise ValueError and change
  nothing.\<close>

theorem status_bounded:
  "case tm_status max_items max_chars m of
     (Inl e, m') \<Rightarrow> e = ValueError \<and> m' = m \<and> (max_items < 0 \<or> max_chars < 200)
   | (Inr out, m') \<Rightarrow> 0 \<le> max_items \<and> 200 \<le> max_chars \<and> int (length out) \<le> max_chars"
proof -
  have active: "int (length (shrink_rows p (render_active m1 todos t deps missing (nat max_chars)) rows)) \<le> max_chars"
    if "200 \<le> max_chars" for p m1 todos t deps missing rows
  proof -
    obtain rows' where "shrink_rows p (render_active m1 todos t deps missing (nat max_chars)) rows
        = render_active m1 todos t deps missing (nat max_chars) rows'" using shrink_rows_image by blast
    moreover have "length (render_active m1 todos t deps missing (nat max_chars) rows') \<le> nat max_chars"
      unfolding render_active_def Let_def by (rule length_bounded_status) (use that in simp)
    ultimately show ?thesis using that by simp
  qed
  have plain: "int (length (bounded_status out (nat max_chars))) \<le> max_chars" if "200 \<le> max_chars" for out
    using length_bounded_status [of "nat max_chars" out] that by linarith
  show ?thesis
    by (auto simp: tm_status_def Let_def active plain split: option.splits prod.splits)
qed

section \<open>The dependency closure is exact and in dependency order\<close>

definition dep_edge :: "(string, todo) dict \<Rightarrow> string \<Rightarrow> string \<Rightarrow> bool" where
  "dep_edge todos i j \<longleftrightarrow> (\<exists>t. dict_get todos i = Some t \<and> j \<in> set (td_deps t)) \<and> dict_has todos j"

abbreviation dep_path :: "(string, todo) dict \<Rightarrow> string \<Rightarrow> string \<Rightarrow> bool" where
  "dep_path todos \<equiv> (dep_edge todos)\<^sup>*\<^sup>*"

definition owned :: "(string, todo) dict \<Rightarrow> todo \<Rightarrow> bool" where
  "owned todos t \<longleftrightarrow> dict_get todos (td_id t) = Some t"

lemma owned_get: "ids_ok todos \<Longrightarrow> dict_get todos d = Some u \<Longrightarrow> owned todos u \<and> td_id u = d"
  using ids_ok_get by (fastforce simp: owned_def)

text \<open>Each todo on the stack is a dependency, already looked at, of the one below it.\<close>

fun stack_path :: "(todo \<times> nat) list \<Rightarrow> bool" where
  "stack_path ((u, l) # (t, k) # r) = (td_id u \<in> set (take k (td_deps t)) \<and> stack_path ((t, k) # r))"
| "stack_path _ = True"

lemma stack_path_tl: "stack_path (x # r) \<Longrightarrow> stack_path r"
  by (cases x; cases r) auto

lemma stack_path_bump: "stack_path ((t, k) # r) \<Longrightarrow> stack_path ((t, l) # r)"
  by (cases r) auto

lemma stack_path_reach:
  assumes "stack_path ((t, k) # r)" and "\<forall>(u, l) \<in> set ((t, k) # r). owned todos u" and "(u, l) \<in> set r"
  shows "dep_path todos (td_id u) (td_id t)"
  using assms
proof (induction r arbitrary: t k)
  case (Cons x r)
  obtain t' k' where x: "x = (t', k')" by (cases x)
  have edge: "dep_edge todos (td_id t') (td_id t)"
    using Cons.prems(1,2) by (auto simp: x dep_edge_def owned_def dict_has_def dest: in_set_takeD)
  show ?case
  proof (cases "(u, l) = x")
    case True
    with edge show ?thesis by (simp add: x)
  next
    case False
    with Cons.IH [of t' k'] Cons.prems have "dep_path todos (td_id u) (td_id t')" by (auto simp: x)
    with edge show ?thesis by simp
  qed
qed simp

text \<open>The invariant of the walk; \<open>V\<close> are the ids that \<^verbatim>\<open>state\<close> knows.\<close>

definition walk_seen :: "(string, todo) dict \<Rightarrow> string set \<Rightarrow> string list \<Rightarrow> string \<Rightarrow> bool" where
  "walk_seen todos V missing d \<longleftrightarrow> d \<in> V \<or> (\<not> dict_has todos d \<and> d \<in> set missing)"

definition all_seen :: "(string, todo) dict \<Rightarrow> string set \<Rightarrow> string list \<Rightarrow> string list \<Rightarrow> bool" where
  "all_seen todos V missing ds \<longleftrightarrow> list_all (walk_seen todos V missing) ds"

definition stack_ids :: "(todo \<times> nat) list \<Rightarrow> string list" where
  "stack_ids stack = map (\<lambda>(t, k). td_id t) stack"

definition walk_shape :: "(string, todo) dict \<Rightarrow> string \<Rightarrow> (todo \<times> nat) list \<Rightarrow> string set \<Rightarrow> todo list \<Rightarrow> bool" where
  "walk_shape todos rid stack V ordered \<longleftrightarrow>
     V = set (stack_ids stack) \<union> td_id ` set ordered \<union> {rid} \<and> rid \<notin> td_id ` set ordered \<and>
     distinct (stack_ids stack @ map td_id ordered) \<and> stack_path stack \<and>
     (\<forall>(t, k) \<in> set stack. owned todos t) \<and> (\<forall>t \<in> set ordered. owned todos t) \<and>
     (\<forall>i \<in> V. dep_path todos rid i)"

definition walk_closed :: "(string, todo) dict \<Rightarrow> (todo \<times> nat) list \<Rightarrow> string set \<Rightarrow> string list \<Rightarrow> bool" where
  "walk_closed todos stack V missing \<longleftrightarrow>
     (\<forall>t k. (t, k) \<in> set stack \<longrightarrow> all_seen todos V missing (take k (td_deps t))) \<and>
     (\<forall>i t. i \<in> V \<longrightarrow> i \<notin> set (stack_ids stack) \<longrightarrow> dict_get todos i = Some t \<longrightarrow>
        all_seen todos V missing (td_deps t))"

definition walk_missing :: "(string, todo) dict \<Rightarrow> string \<Rightarrow> string list \<Rightarrow> bool" where
  "walk_missing todos rid missing \<longleftrightarrow> distinct missing \<and>
     (\<forall>d \<in> set missing. \<not> dict_has todos d \<and>
        (\<exists>i t. dep_path todos rid i \<and> dict_get todos i = Some t \<and> d \<in> set (td_deps t)))"

definition deps_first :: "(string, todo) dict \<Rightarrow> todo list \<Rightarrow> bool" where
  "deps_first todos ordered \<longleftrightarrow>
     (\<forall>pre t post. ordered = pre @ t # post \<longrightarrow>
        (\<forall>d \<in> set (td_deps t). \<forall>u. dict_get todos d = Some u \<longrightarrow> u \<in> set pre \<or> dep_path todos d (td_id t)))"

lemma deps_first_snoc:
  "deps_first todos (ordered @ [t]) \<longleftrightarrow> deps_first todos ordered \<and>
     (\<forall>d \<in> set (td_deps t). \<forall>u. dict_get todos d = Some u \<longrightarrow> u \<in> set ordered \<or> dep_path todos d (td_id t))"
  (is "?L \<longleftrightarrow> ?R")
proof
  assume L: ?L
  have "deps_first todos ordered" unfolding deps_first_def
  proof (intro allI impI)
    fix pre t' post assume "ordered = pre @ t' # post"
    then have "ordered @ [t] = pre @ t' # (post @ [t])" by simp
    with L show "\<forall>d \<in> set (td_deps t'). \<forall>u. dict_get todos d = Some u \<longrightarrow> u \<in> set pre \<or> dep_path todos d (td_id t')"
      unfolding deps_first_def by blast
  qed
  with L show ?R unfolding deps_first_def by blast
next
  assume R: ?R
  show ?L unfolding deps_first_def
  proof (intro allI impI)
    fix pre t' post assume eq: "ordered @ [t] = pre @ t' # post"
    show "\<forall>d \<in> set (td_deps t'). \<forall>u. dict_get todos d = Some u \<longrightarrow> u \<in> set pre \<or> dep_path todos d (td_id t')"
    proof (cases post rule: rev_cases)
      case Nil
      with eq R show ?thesis by auto
    next
      case (snoc ps p)
      with eq have "ordered = pre @ t' # ps" by auto
      with R show ?thesis unfolding deps_first_def by blast
    qed
  qed
qed

definition walk_inv :: "(string, todo) dict \<Rightarrow> string \<Rightarrow> (todo \<times> nat) list \<Rightarrow> string set \<Rightarrow> todo list \<Rightarrow> string list \<Rightarrow> bool" where
  "walk_inv todos rid stack V ordered missing \<longleftrightarrow> walk_shape todos rid stack V ordered \<and>
     walk_closed todos stack V missing \<and> walk_missing todos rid missing \<and> deps_first todos ordered"

lemmas walk_defs = walk_inv_def walk_shape_def walk_closed_def walk_missing_def

lemma all_seen_mono: "all_seen todos V missing ds \<Longrightarrow> V \<subseteq> V' \<Longrightarrow> set missing \<subseteq> set missing' \<Longrightarrow>
   all_seen todos V' missing' ds"
  by (auto simp: all_seen_def walk_seen_def list_all_iff)

lemma all_seen_snoc: "k < length ds \<Longrightarrow>
   all_seen todos V missing (take (Suc k) ds) \<longleftrightarrow> all_seen todos V missing (take k ds) \<and> walk_seen todos V missing (ds ! k)"
  by (auto simp: all_seen_def take_Suc_conv_app_nth)

lemma walk_closed_mono:
  "walk_closed todos stack V missing \<Longrightarrow> set missing \<subseteq> set missing' \<Longrightarrow> walk_closed todos stack V missing'"
  unfolding walk_closed_def by (meson all_seen_mono subset_refl)

text \<open>Advancing the index of the top past a dependency that has been seen.\<close>

lemma walk_closed_advance:
  assumes "walk_closed todos ((t, k) # stack) V missing" and "k < length (td_deps t)"
    and "walk_seen todos V missing (td_deps t ! k)"
  shows "walk_closed todos ((t, Suc k) # stack) V missing"
  using assms by (auto simp: walk_closed_def stack_ids_def all_seen_snoc)

lemma walk_shape_advance:
  "walk_shape todos rid ((t, k) # stack) V ordered \<Longrightarrow> walk_shape todos rid ((t, l) # stack) V ordered"
  by (auto simp: walk_shape_def stack_ids_def intro: stack_path_bump)

lemma walk_pop_deps_first:
  assumes "walk_inv todos rid ((t, k) # stack) V ordered missing" and "length (td_deps t) \<le> k"
  shows "deps_first todos (ordered @ [t])"
  unfolding deps_first_snoc
proof (intro conjI ballI allI impI)
  show "deps_first todos ordered" using assms by (simp add: walk_inv_def)
  fix d u assume d: "d \<in> set (td_deps t)" and u: "dict_get todos d = Some u"
  from assms have "all_seen todos V missing (td_deps t)" by (auto simp: walk_inv_def walk_closed_def)
  with d have "walk_seen todos V missing d" by (simp add: all_seen_def list_all_iff)
  then have "d \<in> V" using u by (auto simp: walk_seen_def dict_has_def)
  with assms(1) consider "d = td_id t" | v where "v \<in> set ordered" "d = td_id v"
    | v l where "(v, l) \<in> set stack" "d = td_id v" | "d = rid"
    by (auto simp: walk_inv_def walk_shape_def stack_ids_def)
  then show "u \<in> set ordered \<or> dep_path todos d (td_id t)"
  proof cases
    case 2
    with assms(1) u show ?thesis by (auto simp: walk_inv_def walk_shape_def owned_def)
  next
    case 3
    with assms(1) stack_path_reach [of t k stack todos v l] show ?thesis
      by (auto simp: walk_inv_def walk_shape_def)
  next
    case 4
    with assms(1) show ?thesis by (auto simp: walk_inv_def walk_shape_def stack_ids_def)
  qed simp
qed

lemma walk_pop:
  assumes inv: "walk_inv todos rid ((t, k) # stack) V ordered missing" and k: "length (td_deps t) \<le> k"
  shows "walk_inv todos rid stack V (if td_id t \<noteq> rid then ordered @ [t] else ordered) missing"
proof -
  have own: "owned todos t" and path: "stack_path stack"
    using inv by (auto simp: walk_inv_def walk_shape_def dest: stack_path_tl)
  have "walk_shape todos rid stack V (if td_id t \<noteq> rid then ordered @ [t] else ordered)"
    using inv path by (auto simp: walk_inv_def walk_shape_def stack_ids_def)
  moreover have "walk_closed todos stack V missing"
    unfolding walk_closed_def
  proof (intro conjI allI impI)
    show "all_seen todos V missing (take l (td_deps v))" if "(v, l) \<in> set stack" for v l
      using inv that by (simp add: walk_inv_def walk_closed_def)
    show "all_seen todos V missing (td_deps v)"
      if "i \<in> V" "i \<notin> set (stack_ids stack)" "dict_get todos i = Some v" for i v
      using inv k own that
      by (cases "i = td_id t") (auto simp: walk_inv_def walk_closed_def owned_def stack_ids_def)
  qed
  ultimately show ?thesis
    using inv walk_pop_deps_first [OF inv k] by (simp add: walk_inv_def)
qed

lemma walk_push:
  assumes inv: "walk_inv todos rid ((t, k) # stack) V ordered missing" and k: "k < length (td_deps t)"
    and u: "dict_get todos (td_deps t ! k) = Some u" "td_id u = td_deps t ! k" "owned todos u"
    and new: "td_id u \<notin> V"
  shows "walk_inv todos rid ((u, 0) # (t, Suc k) # stack) (insert (td_id u) V) ordered missing"
proof -
  have "td_id u \<in> set (take (Suc k) (td_deps t))" using k u(2) by (simp add: take_Suc_conv_app_nth)
  moreover have "dep_edge todos (td_id t) (td_id u)"
    using inv k u by (auto simp: walk_inv_def walk_shape_def owned_def dep_edge_def dict_has_def)
  moreover have "dep_path todos rid (td_id t)"
    using inv by (auto simp: walk_inv_def walk_shape_def stack_ids_def)
  ultimately have "walk_shape todos rid ((u, 0) # (t, Suc k) # stack) (insert (td_id u) V) ordered"
    using inv new u(3) by (auto simp: walk_inv_def walk_shape_def stack_ids_def
        intro: stack_path_bump rtranclp.rtrancl_into_rtrancl)
  moreover have "walk_closed todos ((u, 0) # (t, Suc k) # stack) (insert (td_id u) V) missing"
    unfolding walk_closed_def
  proof (intro conjI allI impI)
    show "all_seen todos (insert (td_id u) V) missing (take l (td_deps v))"
      if mem: "(v, l) \<in> set ((u, 0) # (t, Suc k) # stack)" for v l
    proof -
      consider "l = 0" | "v = t" "l = Suc k" | "(v, l) \<in> set stack" using mem by auto
      then show ?thesis
      proof cases
        case 2
        have "all_seen todos (insert (td_id u) V) missing (take k (td_deps t))"
          using inv by (auto simp: walk_inv_def walk_closed_def intro: all_seen_mono [of todos V missing])
        then show ?thesis using 2 k u(2) by (simp add: all_seen_snoc walk_seen_def)
      next
        case 3
        then show ?thesis using inv
          by (auto simp: walk_inv_def walk_closed_def intro: all_seen_mono [of todos V missing])
      qed (simp add: all_seen_def)
    qed
    show "all_seen todos (insert (td_id u) V) missing (td_deps v)"
      if "i \<in> insert (td_id u) V" "i \<notin> set (stack_ids ((u, 0) # (t, Suc k) # stack))" "dict_get todos i = Some v" for i v
    proof -
      from that have "i \<in> V" "i \<notin> set (stack_ids ((t, k) # stack))" by (auto simp: stack_ids_def)
      with inv that(3) have "all_seen todos V missing (td_deps v)" by (auto simp: walk_inv_def walk_closed_def)
      then show ?thesis by (rule all_seen_mono) auto
    qed
  qed
  ultimately show ?thesis using inv by (simp add: walk_inv_def)
qed

lemma walk_absent:
  assumes inv: "walk_inv todos rid ((t, k) # stack) V ordered missing" and k: "k < length (td_deps t)"
    and d: "d = td_deps t ! k" "dict_get todos d = None"
    and m': "missing' = (if d \<in> set missing then missing else missing @ [d])"
  shows "walk_inv todos rid ((t, Suc k) # stack) V ordered missing'"
proof -
  have "walk_closed todos ((t, Suc k) # stack) V missing'"
    using inv k d m' by (intro walk_closed_advance walk_closed_mono [of todos _ V missing missing'])
      (auto simp: walk_inv_def walk_seen_def dict_has_def)
  moreover have "walk_missing todos rid missing'"
  proof -
    have "dep_path todos rid (td_id t)" "dict_get todos (td_id t) = Some t" "d \<in> set (td_deps t)"
      using inv k d by (auto simp: walk_inv_def walk_shape_def stack_ids_def owned_def)
    then show ?thesis using inv d(2) m' by (auto simp: walk_inv_def walk_missing_def dict_has_def)
  qed
  ultimately show ?thesis using inv by (auto simp: walk_inv_def intro: walk_shape_advance)
qed

lemma closure_loop_inv:
  assumes "ids_ok todos" and "walk_inv todos rid stack (fst ` set st) ordered missing"
    and "closure_loop todos rid stack st ordered missing = (o', m')"
  shows "\<exists>V. walk_inv todos rid [] V o' m'"
  using assms
proof (induction todos rid stack st ordered missing rule: closure_loop.induct)
  case (1 todos rid st ordered missing)
  then show ?case by auto
next
  case (2 todos rid t k stack st ordered missing)
  note inv = "2.prems"(2) and run = "2.prems"(3)
  show ?case
  proof (cases "length (td_deps t) \<le> k")
    case True
    have "td_id t \<in> fst ` set st" using inv by (auto simp: walk_inv_def walk_shape_def stack_ids_def)
    then have "fst ` set (dict_set (td_id t) 2 st) = fst ` set st"
      using dict_keys_set [of "td_id t" 2 st] by (metis set_map)
    with "2.IH"(1) [OF True "2.prems"(1)] walk_pop [OF inv True] run True show ?thesis by simp
  next
    case False
    then have k: "k < length (td_deps t)" by simp
    let ?d = "td_deps t ! k"
    show ?thesis
    proof (cases "dict_get todos ?d")
      case None
      with "2.IH"(2) [OF False refl refl None "2.prems"(1) walk_absent [OF inv k refl None refl]] run False
      show ?thesis by (simp add: Let_def)
    next
      case (Some u)
      from owned_get [OF "2.prems"(1) Some] have u: "owned todos u" "td_id u = ?d" by auto
      show ?thesis
      proof (cases "dict_get st (td_id u) = None")
        case True
        then have new: "td_id u \<notin> fst ` set st" by (simp add: map_of_eq_None_iff)
        then have "fst ` set (dict_set (td_id u) 1 st) = insert (td_id u) (fst ` set st)"
          by (simp add: dict_set_fresh)
        with "2.IH"(3) [OF False refl refl Some True "2.prems"(1)] walk_push [OF inv k Some u(2,1) new]
          run False Some True show ?thesis by (simp add: Let_def)
      next
        case seen: False
        then have "walk_seen todos (fst ` set st) missing ?d"
          by (simp add: walk_seen_def map_of_eq_None_iff u(2))
        with inv k have "walk_inv todos rid ((t, Suc k) # stack) (fst ` set st) ordered missing"
          by (auto simp: walk_inv_def intro: walk_closed_advance walk_shape_advance)
        with "2.IH"(4) [OF False refl refl Some seen "2.prems"(1)] run False Some seen
        show ?thesis by (simp add: Let_def)
      qed
    qed
  qed
qed

lemma walk_inv_start: "owned todos root \<Longrightarrow> walk_inv todos (td_id root) [(root, 0)] {td_id root} [] []"
  by (auto simp: walk_defs stack_ids_def all_seen_def deps_first_def)

text \<open>A set that contains the root and every managed dependency of its members has all of its
  descendants.\<close>

lemma closed_contains_path:
  assumes "dep_path todos rid i" and "rid \<in> V"
    and "\<And>i j. i \<in> V \<Longrightarrow> dep_edge todos i j \<Longrightarrow> j \<in> V"
  shows "i \<in> V"
  using assms by (induction rule: rtranclp_induct) auto

lemma walk_inv_final:
  assumes "walk_inv todos rid [] V ordered missing"
  shows "td_id ` set ordered = {i. dep_path todos rid i \<and> i \<noteq> rid}"
    and "set missing = {d. \<not> dict_has todos d \<and>
       (\<exists>i t. dep_path todos rid i \<and> dict_get todos i = Some t \<and> d \<in> set (td_deps t))}"
proof -
  have V: "V = insert rid (td_id ` set ordered)" "rid \<notin> td_id ` set ordered"
    and reach: "\<forall>i \<in> V. dep_path todos rid i"
    using assms by (auto simp: walk_inv_def walk_shape_def stack_ids_def)
  have seen: "walk_seen todos V missing d" if "i \<in> V" "dict_get todos i = Some t" "d \<in> set (td_deps t)" for i t d
    using assms that by (auto simp: walk_inv_def walk_closed_def stack_ids_def all_seen_def list_all_iff)
  have all: "i \<in> V" if "dep_path todos rid i" for i
    using that
  proof (rule closed_contains_path)
    show "rid \<in> V" using V by simp
    show "j \<in> V" if "i \<in> V" "dep_edge todos i j" for i j
      using that seen by (auto simp: dep_edge_def walk_seen_def)
  qed
  show "td_id ` set ordered = {i. dep_path todos rid i \<and> i \<noteq> rid}"
    using V all reach by auto
  show "set missing = {d. \<not> dict_has todos d \<and>
       (\<exists>i t. dep_path todos rid i \<and> dict_get todos i = Some t \<and> d \<in> set (td_deps t))}"
  proof (intro set_eqI iffI)
    fix d assume "d \<in> {d. \<not> dict_has todos d \<and>
       (\<exists>i t. dep_path todos rid i \<and> dict_get todos i = Some t \<and> d \<in> set (td_deps t))}"
    then obtain i t where "\<not> dict_has todos d" "dep_path todos rid i" "dict_get todos i = Some t" "d \<in> set (td_deps t)"
      by blast
    with seen [OF all] have "walk_seen todos V missing d" by blast
    moreover have "d \<notin> V"
    proof
      assume "d \<in> V"
      then have "d \<noteq> rid \<Longrightarrow> dict_has todos d"
        using V assms by (auto simp: walk_inv_def walk_shape_def owned_def dict_has_def)
      moreover have "d = rid \<Longrightarrow> dict_has todos d"
        using \<open>dep_path todos rid i\<close> \<open>dict_get todos i = Some t\<close>
        by (metis converse_rtranclpE dep_edge_def dict_has_def option.distinct(1))
      ultimately show False using \<open>\<not> dict_has todos d\<close> by blast
    qed
    ultimately show "d \<in> set missing" by (simp add: walk_seen_def)
  qed (use assms in \<open>auto simp: walk_inv_def walk_missing_def\<close>)
qed

text \<open>C27: The iterative dependency walk always ends, cycles included, and returns every managed
  todo the root depends on, directly or through others, exactly once, together with exactly the
  ids that occur as dependencies on the way and name no managed todo.\<close>

theorem dependency_closure_exact:
  assumes ids: "ids_ok todos" and root: "dict_get todos (td_id root) = Some root"
    and run: "dependency_closure todos root = (ordered, missing)"
  shows "distinct (map td_id ordered) \<and> (\<forall>t \<in> set ordered. dict_get todos (td_id t) = Some t) \<and>
    td_id ` set ordered = {i. dep_path todos (td_id root) i \<and> i \<noteq> td_id root} \<and>
    distinct missing \<and>
    set missing = {d. \<not> dict_has todos d \<and>
       (\<exists>i t. dep_path todos (td_id root) i \<and> dict_get todos i = Some t \<and> d \<in> set (td_deps t))}"
proof -
  obtain V where inv: "walk_inv todos (td_id root) [] V ordered missing"
    using closure_loop_inv [OF ids, of "td_id root" "[(root, 0)]" "[(td_id root, 1)]" "[]" "[]" ordered missing]
      walk_inv_start [of todos root] root run by (auto simp: dependency_closure_def owned_def)
  have "distinct (map td_id ordered)" "\<forall>t \<in> set ordered. dict_get todos (td_id t) = Some t" "distinct missing"
    using inv by (simp_all add: walk_inv_def walk_shape_def walk_missing_def owned_def)
  with walk_inv_final [OF inv] show ?thesis by (intro conjI)
qed

lemma ex_closure: "dependency_closure (tm_todos ex_mgr) (ex_todo ''b'' [''a'']) = ([ex_todo ''a'' []], [])"
  by (simp add: dependency_closure_def ex_mgr_eval Let_def ex_todo_def)

lemma ex_mgr_todos: "ids_ok (tm_todos ex_mgr)" "dict_get (tm_todos ex_mgr) (td_id (ex_todo ''b'' [''a''])) = Some (ex_todo ''b'' [''a''])"
  by (simp_all add: ids_ok_def ex_mgr_eval ex_todo_def)

theorem dependency_closure_exact_witness:
  "dependency_closure (tm_todos ex_mgr) (ex_todo ''b'' [''a'']) = ([ex_todo ''a'' []], []) \<and>
   {''a''} = {i. dep_path (tm_todos ex_mgr) ''b'' i \<and> i \<noteq> ''b''}"
  using dependency_closure_exact [OF ex_mgr_todos ex_closure] ex_closure by (simp add: ex_todo_def)

text \<open>The dependencies are listed before what needs them: a todo of the closure comes after
  each of its managed dependencies, except one that itself depends on it (a cycle).\<close>

theorem dependency_closure_ordered:
  assumes ids: "ids_ok todos" and root: "dict_get todos (td_id root) = Some root"
    and run: "dependency_closure todos root = (pre @ t # post, missing)"
    and d: "d \<in> set (td_deps t)" "dict_get todos d = Some u" and acyclic: "\<not> dep_path todos d (td_id t)"
  shows "u \<in> set pre"
proof -
  obtain V where "walk_inv todos (td_id root) [] V (pre @ t # post) missing"
    using closure_loop_inv [OF ids, of "td_id root" "[(root, 0)]" "[(td_id root, 1)]" "[]" "[]" "pre @ t # post" missing]
      walk_inv_start [of todos root] root run by (auto simp: dependency_closure_def owned_def)
  then have "deps_first todos (pre @ t # post)" by (simp add: walk_inv_def)
  with d acyclic show ?thesis unfolding deps_first_def by blast
qed

definition ex_chain :: "(string, todo) dict" where
  "ex_chain = [(''c'', ex_todo ''c'' [''b'']), (''b'', ex_todo ''b'' [''a'']), (''a'', ex_todo ''a'' [])]"

theorem dependency_closure_ordered_witness:
  "dependency_closure ex_chain (ex_todo ''c'' [''b'']) = ([ex_todo ''a'' []] @ ex_todo ''b'' [''a''] # [], []) \<and>
   ex_todo ''a'' [] \<in> set [ex_todo ''a'' []]"
proof -
  have run: "dependency_closure ex_chain (ex_todo ''c'' [''b'']) = ([ex_todo ''a'' []] @ ex_todo ''b'' [''a''] # [], [])"
    by (simp add: dependency_closure_def ex_chain_def Let_def ex_todo_def)
  have stuck: "\<not> dep_edge ex_chain ''a'' j" for j
    by (simp add: dep_edge_def ex_chain_def ex_todo_def)
  have no: "\<not> dep_path ex_chain ''a'' (td_id (ex_todo ''b'' [''a'']))"
  proof
    assume "dep_path ex_chain ''a'' (td_id (ex_todo ''b'' [''a'']))"
    then show False by (cases rule: converse_rtranclpE) (simp_all add: stuck, simp add: ex_todo_def)
  qed
  have "ex_todo ''a'' [] \<in> set [ex_todo ''a'' []]"
    by (rule dependency_closure_ordered [OF _ _ run _ _ no])
       (simp_all add: ids_ok_def ex_chain_def ex_todo_def)
  with run show ?thesis by blast
qed

end
