(* ===== verification/Admission.thy ===== *)
theory Admission
  imports Complex_Main Py_Prelude
begin

text \<open>
  Process-local admission control of provider calls: \<^verbatim>\<open>src/nooa/unifiedllm/admission.py\<close>.

  An \<^verbatim>\<open>_AdmissionGroup\<close> is the record \<open>group\<close>; every section the code runs under the group's lock
  is one function on it. A \<^verbatim>\<open>_Waiter\<close> object is an entry of the table under its number, its
  event loop is a number, \<open>dead\<close> are the loops on which \<^verbatim>\<open>call_soon_threadsafe\<close> raises
  RuntimeError, and \<open>g_calls\<close> are the callbacks scheduled and not yet run, in order.

  Times are exact rationals, where the code has floats. A function that reads the monotonic
  clock takes the reading as an argument; the loop in \<open>pump\<close>, which reads it once per round,
  takes the sequence \<open>clk\<close> of readings, from position \<open>n\<close> on. \<open>pump\<close> also returns the grants
  it made with their times, which the properties on pacing and order speak about.

  A group is one process's: that the registry is emptied in a forked child is not modelled.
\<close>

section \<open>Groups and waiters\<close>

datatype wstate = W_queued | W_granted | W_acquired | W_cancelled

record waiter =
  w_loop :: nat
  w_wakeup :: bool
  w_queued_at :: rat
  w_queue_depth :: int
  w_state :: wstate

text \<open>Callbacks handed to a waiter's event loop: \<^verbatim>\<open>wakeup.set\<close> and \<^verbatim>\<open>_deliver_grant\<close>.\<close>

datatype callback = SetWakeup nat | DeliverGrant nat

record group =
  g_identity :: string
  g_display_name :: string
  g_max :: int
  g_rps :: "rat option"
  g_max_cooldown :: "rat option"
  g_interval :: rat
  g_next :: rat
  g_cool :: rat
  g_active :: int
  g_queued :: int
  g_waiters :: "nat list"
  g_table :: "(nat, waiter) dict"
  g_calls :: "callback list"

definition group_init :: "string \<Rightarrow> string \<Rightarrow> int \<Rightarrow> rat option \<Rightarrow> rat option \<Rightarrow> group" where
  "group_init identity display max_in_flight rps max_cooldown =
     \<lparr>g_identity = identity, g_display_name = display, g_max = max_in_flight, g_rps = rps,
      g_max_cooldown = max_cooldown,
      g_interval = (case rps of None \<Rightarrow> 0 | Some r \<Rightarrow> 1 / r),
      g_next = 0, g_cool = 0, g_active = 0, g_queued = 0, g_waiters = [], g_table = [], g_calls = []\<rparr>"

definition waiter_state :: "nat \<Rightarrow> group \<Rightarrow> wstate option" where
  "waiter_state w g = map_option w_state (dict_get (g_table g) w)"

definition set_state :: "nat \<Rightarrow> wstate \<Rightarrow> group \<Rightarrow> group" where
  "set_state w s g = (case dict_get (g_table g) w of
     None \<Rightarrow> g | Some x \<Rightarrow> g\<lparr>g_table := dict_set w (x\<lparr>w_state := s\<rparr>) (g_table g)\<rparr>)"

definition set_wakeup :: "nat \<Rightarrow> bool \<Rightarrow> group \<Rightarrow> group" where
  "set_wakeup w b g = (case dict_get (g_table g) w of
     None \<Rightarrow> g | Some x \<Rightarrow> g\<lparr>g_table := dict_set w (x\<lparr>w_wakeup := b\<rparr>) (g_table g)\<rparr>)"

definition loop_closed :: "nat list \<Rightarrow> nat \<Rightarrow> group \<Rightarrow> bool" where
  "loop_closed dead w g = (case dict_get (g_table g) w of None \<Rightarrow> False | Some x \<Rightarrow> w_loop x \<in> set dead)"

definition not_before :: "group \<Rightarrow> rat" where
  "not_before g = max (g_next g) (g_cool g)"

text \<open>The first locked section of \<^verbatim>\<open>acquire\<close>: admit at once, or join the queue as waiter \<open>w\<close>.\<close>

definition acquire_enter :: "nat \<Rightarrow> nat \<Rightarrow> rat \<Rightarrow> rat \<Rightarrow> group \<Rightarrow> bool \<times> group" where
  "acquire_enter w loop started now g =
     (if g_active g < g_max g \<and> g_waiters g = [] \<and> not_before g \<le> now
      then (True, g\<lparr>g_active := g_active g + 1, g_next := now + g_interval g\<rparr>)
      else (False, g\<lparr>g_waiters := g_waiters g @ [w], g_queued := g_queued g + 1,
             g_table := dict_set w \<lparr>w_loop = loop, w_wakeup = False, w_queued_at = started,
                w_queue_depth = g_queued g + 1, w_state = W_queued\<rparr> (g_table g)\<rparr>))"

text \<open>\<^verbatim>\<open>_wake_head_locked\<close>: waiters of closed loops are dropped until one can be woken.\<close>

fun wake_head_from :: "nat list \<Rightarrow> nat list \<Rightarrow> group \<Rightarrow> group" where
  "wake_head_from dead [] g = g\<lparr>g_waiters := []\<rparr>"
| "wake_head_from dead (w # ws) g =
     (if loop_closed dead w g
      then wake_head_from dead ws (set_state w W_cancelled (g\<lparr>g_queued := g_queued g - 1, g_waiters := ws\<rparr>))
      else g\<lparr>g_waiters := w # ws, g_calls := g_calls g @ [SetWakeup w]\<rparr>)"

definition wake_head :: "nat list \<Rightarrow> group \<Rightarrow> group" where
  "wake_head dead g = wake_head_from dead (g_waiters g) g"

text \<open>Take the head off the queue and hand it a slot, or drop it when its loop is closed.\<close>

definition grant_head :: "nat list \<Rightarrow> rat \<Rightarrow> nat \<Rightarrow> nat list \<Rightarrow> group \<Rightarrow> bool \<times> group" where
  "grant_head dead now w ws g =
     (let g1 = set_state w W_granted (g\<lparr>g_waiters := ws, g_queued := g_queued g - 1\<rparr>) in
      if loop_closed dead w g then (False, set_state w W_cancelled g1)
      else (True, wake_head dead (g1\<lparr>g_active := g_active g + 1, g_calls := g_calls g @ [DeliverGrant w],
                                     g_next := now + g_interval g\<rparr>)))"

lemma set_state_waiters [simp]: "g_waiters (set_state w s g) = g_waiters g"
  by (simp add: set_state_def split: option.splits)

lemma length_wake_head_from: "length (g_waiters (wake_head_from dead ws g)) \<le> length ws"
  by (induction dead ws g rule: wake_head_from.induct) auto

lemma length_wake_head: "length (g_waiters (wake_head dead g)) \<le> length (g_waiters g)"
  by (simp add: wake_head_def length_wake_head_from)

lemma length_grant_head: "length (g_waiters (snd (grant_head dead now w ws g))) \<le> length ws"
  using length_wake_head [of dead "(set_state w W_granted (g\<lparr>g_waiters := ws, g_queued := g_queued g - 1\<rparr>))
      \<lparr>g_active := g_active g + 1, g_calls := g_calls g @ [DeliverGrant w], g_next := now + g_interval g\<rparr>"]
  by (simp add: grant_head_def Let_def)

text \<open>\<^verbatim>\<open>_pump_locked\<close>.\<close>

function pump :: "nat list \<Rightarrow> (nat \<Rightarrow> rat) \<Rightarrow> nat \<Rightarrow> group \<Rightarrow> (nat \<times> rat) list \<times> nat \<times> group" where
  "pump dead clk n g =
     (case g_waiters g of
        [] \<Rightarrow> ([], n, g)
      | w # ws \<Rightarrow>
          if \<not> g_active g < g_max g then ([], n, g)
          else if clk n < not_before g then ([], Suc n, g)
          else let (granted, g1) = grant_head dead (clk n) w ws g;
                   (grants, n', g') = pump dead clk (Suc n) g1
               in (if granted then (w, clk n) # grants else grants, n', g'))"
  by pat_completeness auto
termination
proof (relation "measure (\<lambda>(dead, clk, n, g). length (g_waiters g))", goal_cases)
  case (2 dead clk n g w ws x granted g1)
  then show ?case using length_grant_head [of dead "clk n" w ws g] by (metis fst_conv in_measure
        le_imp_less_Suc length_Cons case_prod_conv snd_conv)
qed simp

declare pump.simps [simp del]

text \<open>
  One round of \<^verbatim>\<open>_wait_for_grant\<close>: the grant is taken, or the waiter goes to sleep, the head of
  the queue with a timer when a slot is free. Reading the head of an empty queue raises.
\<close>

datatype wait_result = Acquired | Sleep "rat option" | Failed py_error

definition wait_round :: "nat list \<Rightarrow> (nat \<Rightarrow> rat) \<Rightarrow> nat \<Rightarrow> group \<Rightarrow> wait_result \<times> (nat \<times> rat) list \<times> group" where
  "wait_round dead clk w g =
     (let (grants, n, g1) = pump dead clk 0 g in
      if waiter_state w g1 = Some W_granted then (Acquired, grants, set_state w W_acquired g1)
      else let g2 = set_wakeup w False g1 in
        (case g_waiters g2 of
           [] \<Rightarrow> (Failed IndexError, grants, g2)
         | h # _ \<Rightarrow> (Sleep (if h = w \<and> g_active g2 < g_max g2
                          then Some (max 0 (not_before g2 - clk n)) else None), grants, g2)))"

definition deliver_grant :: "nat \<Rightarrow> group \<Rightarrow> group" where
  "deliver_grant w g = (if waiter_state w g \<noteq> Some W_granted then g else set_wakeup w True g)"

text \<open>An event loop runs the oldest scheduled callback.\<close>

definition run_callback :: "group \<Rightarrow> group" where
  "run_callback g = (case g_calls g of
     [] \<Rightarrow> g
   | SetWakeup w # cs \<Rightarrow> set_wakeup w True (g\<lparr>g_calls := cs\<rparr>)
   | DeliverGrant w # cs \<Rightarrow> deliver_grant w (g\<lparr>g_calls := cs\<rparr>))"

definition release :: "nat list \<Rightarrow> (nat \<Rightarrow> rat) \<Rightarrow> group \<Rightarrow> ((nat \<times> rat) list py_res) \<times> group" where
  "release dead clk g =
     (if g_active g \<le> 0 then (Inl RuntimeError, g)
      else let (grants, n, g1) = pump dead clk 0 (g\<lparr>g_active := g_active g - 1\<rparr>)
           in (Inr grants, wake_head dead g1))"

definition cancel_waiter :: "nat list \<Rightarrow> (nat \<Rightarrow> rat) \<Rightarrow> nat \<Rightarrow> group \<Rightarrow> ((nat \<times> rat) list py_res) \<times> group" where
  "cancel_waiter dead clk w g =
     (case waiter_state w g of
        Some W_queued \<Rightarrow>
          (Inr [], wake_head dead (set_state w W_cancelled
             (g\<lparr>g_queued := g_queued g - 1, g_waiters := remove1 w (g_waiters g)\<rparr>)))
      | Some W_granted \<Rightarrow> release dead clk (set_state w W_cancelled g)
      | _ \<Rightarrow> (Inr [], g))"

section \<open>Validation\<close>

text \<open>
  A numeric setting as a caller may pass it. \<open>NInf\<close> is an infinite or NaN float, \<open>NBool\<close> and
  \<open>NOther\<close> are values of other types. Integers that do not fit a double raise OverflowError.
\<close>

datatype num_arg = NNone | NInt int | NFloat rat | NInf | NBool bool | NOther

definition double_limit :: rat where
  "double_limit = 2 ^ 1024 - 2 ^ 970"

definition py_float :: "num_arg \<Rightarrow> rat option" where
  "py_float v = (case v of
     NInt i \<Rightarrow> if \<bar>rat_of_int i\<bar> < double_limit then Some (rat_of_int i) else None
   | NFloat r \<Rightarrow> Some r
   | _ \<Rightarrow> None)"

definition validated_limit :: "num_arg \<Rightarrow> int option py_res" where
  "validated_limit v = (case v of
     NNone \<Rightarrow> Inr None
   | NInt i \<Rightarrow> if i \<le> 0 then Inl ValueError else Inr (Some i)
   | _ \<Rightarrow> Inl TypeError)"

definition validated_positive_option :: "num_arg \<Rightarrow> rat option py_res" where
  "validated_positive_option v = (case v of
     NNone \<Rightarrow> Inr None
   | NBool _ \<Rightarrow> Inl TypeError
   | NOther \<Rightarrow> Inl TypeError
   | _ \<Rightarrow> (case py_float v of
            None \<Rightarrow> Inl ValueError
          | Some r \<Rightarrow> if r \<le> 0 then Inl ValueError else Inr (Some r)))"

definition validated_timeout :: "num_arg \<Rightarrow> rat option py_res" where
  "validated_timeout v = validated_positive_option v"

text \<open>\<^verbatim>\<open>_GROUP_LABEL_RE\<close>: a letter or digit, then at most 127 of the label characters.\<close>

definition is_alnum :: "char \<Rightarrow> bool" where
  "is_alnum c = (let n = of_char c :: nat in (48 \<le> n \<and> n \<le> 57) \<or> (65 \<le> n \<and> n \<le> 90) \<or> (97 \<le> n \<and> n \<le> 122))"

definition is_label_char :: "char \<Rightarrow> bool" where
  "is_label_char c = (is_alnum c \<or> c \<in> set ''_.:/-'')"

definition is_group_label :: "string \<Rightarrow> bool" where
  "is_group_label s = (case s of [] \<Rightarrow> False
     | c # cs \<Rightarrow> is_alnum c \<and> length cs \<le> 127 \<and> list_all is_label_char cs)"

definition named_group_identity :: "string \<Rightarrow> (string \<times> string) py_res" where
  "named_group_identity label =
     (if is_group_label label then Inr (''named:'' @ label, label) else Inl ValueError)"

text \<open>
  The parts that \<^verbatim>\<open>urlsplit\<close> finds in an absolute URL; \<open>u_hostname\<close> is empty when there is none.
  The digest function stands for SHA-256 in hexadecimal.
\<close>

record url_parts =
  u_scheme :: string
  u_hostname :: string
  u_port :: "nat option"
  u_path :: string

definition rstrip_slash :: "string \<Rightarrow> string" where
  "rstrip_slash s = rev (dropWhile (\<lambda>c. c = CHR ''/'') (rev s))"

definition urlunsplit3 :: "string \<Rightarrow> string \<Rightarrow> string \<Rightarrow> string" where
  "urlunsplit3 scheme netloc path =
     scheme @ ''://'' @ netloc @ (if path \<noteq> [] \<and> hd path \<noteq> CHR ''/'' then CHR ''/'' # path else path)"

definition normalized_endpoint :: "url_parts \<Rightarrow> string" where
  "normalized_endpoint u =
     (let scheme = str_lower (u_scheme u);
          host0 = str_lower (u_hostname u);
          host1 = (if CHR '':'' \<in> set host0 then ''['' @ host0 @ '']'' else host0);
          host = (case u_port u of
             None \<Rightarrow> host1
           | Some p \<Rightarrow> if (scheme = ''http'' \<and> p = 80) \<or> (scheme = ''https'' \<and> p = 443) then host1
                       else host1 @ '':'' @ nat_str p)
      in urlunsplit3 scheme host (rstrip_slash (u_path u)))"

definition endpoint_group_identity :: "(string \<Rightarrow> string) \<Rightarrow> (string \<Rightarrow> url_parts) \<Rightarrow> string \<Rightarrow> (string \<times> string) py_res" where
  "endpoint_group_identity sha urlsplit api_base =
     (if api_base = [] then Inl TypeError
      else let u = urlsplit api_base in
        if str_lower (u_scheme u) \<notin> {''http'', ''https''} \<or> u_hostname u = [] then Inl ValueError
        else let d = sha (normalized_endpoint u)
             in Inr (''endpoint:'' @ d, ''endpoint:'' @ take 12 d))"

section \<open>The registry of groups and the policy of a wrapper\<close>

type_synonym registry = "(string, group) dict"

definition get_or_create_group :: "string \<Rightarrow> string \<Rightarrow> int option \<Rightarrow> rat option \<Rightarrow> rat option \<Rightarrow> registry \<Rightarrow>
    group option py_res \<times> registry" where
  "get_or_create_group identity display max_in_flight rps max_cooldown reg =
     (case max_in_flight of
        None \<Rightarrow> (Inr (dict_get reg identity), reg)
      | Some m \<Rightarrow>
          (case dict_get reg identity of
             Some g \<Rightarrow>
               if g_max g \<noteq> m then (Inl ValueError, reg)
               else if g_rps g \<noteq> rps then (Inl ValueError, reg)
               else if g_max_cooldown g \<noteq> max_cooldown then (Inl ValueError, reg)
               else (Inr (Some g), reg)
           | None \<Rightarrow>
               (let g = group_init identity display m rps max_cooldown
                in (Inr (Some g), dict_set identity g reg))))"

record policy =
  p_max_in_flight :: int
  p_queue_timeout :: "rat option"
  p_rps :: "rat option"
  p_max_cooldown :: "rat option"
  p_identity :: string
  p_display_name :: string

record policy_args =
  pa_max_in_flight :: num_arg
  pa_concurrency_group :: "string option"
  pa_queue_timeout :: num_arg
  pa_requests_per_second :: num_arg
  pa_max_cooldown :: num_arg

definition finite_reciprocal :: "rat option \<Rightarrow> unit py_res" where
  "finite_reciprocal rate = (case rate of
     None \<Rightarrow> Inr () | Some r \<Rightarrow> if 1 / r < double_limit then Inr () else Inl ValueError)"

definition policy_validate :: "(string \<Rightarrow> string) \<Rightarrow> (string \<Rightarrow> url_parts) \<Rightarrow> string option \<Rightarrow> policy_args \<Rightarrow> policy py_res" where
  "policy_validate sha urlsplit api_base a =
     py_bind (validated_limit (pa_max_in_flight a)) (\<lambda>limit.
     case limit of None \<Rightarrow> Inl ValueError | Some m \<Rightarrow>
     py_bind (validated_timeout (pa_queue_timeout a)) (\<lambda>timeout.
     py_bind (validated_positive_option (pa_requests_per_second a)) (\<lambda>rps.
     py_bind (validated_positive_option (pa_max_cooldown a)) (\<lambda>cool.
     py_bind (finite_reciprocal rps) (\<lambda>_.
     py_bind (case pa_concurrency_group a of
                Some label \<Rightarrow> named_group_identity label
              | None \<Rightarrow> (case api_base of
                   Some b \<Rightarrow> endpoint_group_identity sha urlsplit b
                 | None \<Rightarrow> Inl ValueError)) (\<lambda>(identity, display).
       Inr \<lparr>p_max_in_flight = m, p_queue_timeout = timeout, p_rps = rps, p_max_cooldown = cool,
            p_identity = identity, p_display_name = display\<rparr>))))))"

definition policy_group :: "policy \<Rightarrow> registry \<Rightarrow> group option py_res \<times> registry" where
  "policy_group p reg =
     get_or_create_group (p_identity p) (p_display_name p) (Some (p_max_in_flight p)) (p_rps p) (p_max_cooldown p) reg"

definition policy_init :: "(string \<Rightarrow> string) \<Rightarrow> (string \<Rightarrow> url_parts) \<Rightarrow> string option \<Rightarrow> policy_args \<Rightarrow> registry \<Rightarrow>
    policy py_res \<times> registry" where
  "policy_init sha urlsplit api_base a reg =
     (case policy_validate sha urlsplit api_base a of
        Inl e \<Rightarrow> (Inl e, reg)
      | Inr p \<Rightarrow> (case policy_group p reg of (r, reg') \<Rightarrow> (py_bind r (\<lambda>_. Inr p), reg')))"

text \<open>
  \<^verbatim>\<open>AdmissionControlConfig.__post_init__\<close>; \<open>controller\<close> says whether an injected controller is given
  and implements the protocol.
\<close>

definition config_validate :: "bool option \<Rightarrow> policy_args \<Rightarrow> unit py_res" where
  "config_validate controller a =
     (case controller of
        Some implements \<Rightarrow>
          if pa_max_in_flight a \<noteq> NNone \<or> pa_concurrency_group a \<noteq> None \<or> pa_queue_timeout a \<noteq> NNone
             \<or> pa_requests_per_second a \<noteq> NNone \<or> pa_max_cooldown a \<noteq> NNone then Inl ValueError
          else if \<not> implements then Inl TypeError else Inr ()
      | None \<Rightarrow>
          if pa_max_in_flight a = NNone then Inl ValueError
          else py_bind (validated_limit (pa_max_in_flight a)) (\<lambda>_.
               py_bind (validated_timeout (pa_queue_timeout a)) (\<lambda>_.
               py_bind (validated_positive_option (pa_requests_per_second a)) (\<lambda>rps.
               py_bind (finite_reciprocal rps) (\<lambda>_.
               py_bind (validated_positive_option (pa_max_cooldown a)) (\<lambda>_.
               case pa_concurrency_group a of None \<Rightarrow> Inr ()
               | Some label \<Rightarrow> py_bind (named_group_identity label) (\<lambda>_. Inr ())))))))"

text \<open>\<^verbatim>\<open>cooldown\<close> of a group: extend the gate, never beyond the configured cap, never backwards.\<close>

definition cooldown :: "nat list \<Rightarrow> rat \<Rightarrow> num_arg \<Rightarrow> group \<Rightarrow> unit py_res \<times> group" where
  "cooldown dead now delay_s g =
     (case validated_positive_option delay_s of
        Inl e \<Rightarrow> (Inl e, g)
      | Inr None \<Rightarrow> (Inl TypeError, g)
      | Inr (Some delay) \<Rightarrow>
          (case g_max_cooldown g of
             None \<Rightarrow> (Inr (), g)
           | Some cap \<Rightarrow> (Inr (), wake_head dead (g\<lparr>g_cool := max (g_cool g) (now + min delay cap)\<rparr>))))"

section \<open>Permits and the tasks around a group\<close>

text \<open>
  \<open>s_permits\<close> are the \<^verbatim>\<open>_Permit\<close> objects handed out with their flag \<^verbatim>\<open>_released\<close>, \<open>s_waiting\<close> the
  tasks inside \<^verbatim>\<open>_wait_for_grant\<close>, \<open>s_dead\<close> the closed event loops, \<open>s_log\<close> the admissions so
  far with their times. A permit has the number of the call it admits.
\<close>

record sys =
  s_group :: group
  s_permits :: "(nat, bool) dict"
  s_waiting :: "nat list"
  s_dead :: "nat list"
  s_log :: "(nat \<times> rat) list"

definition sys_init :: "group \<Rightarrow> sys" where
  "sys_init g = \<lparr>s_group = g, s_permits = [], s_waiting = [], s_dead = [], s_log = []\<rparr>"

text \<open>The result of a locked section on the group, put back with the grants it made.\<close>

definition put_group :: "(nat \<times> rat) list \<Rightarrow> group \<Rightarrow> sys \<Rightarrow> sys" where
  "put_group grants g s = s\<lparr>s_group := g, s_log := s_log s @ grants\<rparr>"

definition permit_release :: "(nat \<Rightarrow> rat) \<Rightarrow> nat \<Rightarrow> sys \<Rightarrow> unit py_res \<times> sys" where
  "permit_release clk p s =
     (if dict_get (s_permits s) p \<noteq> Some False then (Inr (), s)
      else let s1 = s\<lparr>s_permits := dict_set p True (s_permits s)\<rparr> in
        (case release (s_dead s) clk (s_group s) of
           (Inl e, g) \<Rightarrow> (Inl e, s1\<lparr>s_group := g\<rparr>)
         | (Inr grants, g) \<Rightarrow> (Inr (), put_group grants g s1)))"

definition permit_cooldown :: "rat \<Rightarrow> num_arg \<Rightarrow> nat \<Rightarrow> sys \<Rightarrow> unit py_res \<times> sys" where
  "permit_cooldown now delay p s =
     (if dict_get (s_permits s) p \<noteq> Some False then (Inr (), s)
      else case cooldown (s_dead s) now delay (s_group s) of (r, g) \<Rightarrow> (r, s\<lparr>s_group := g\<rparr>))"

text \<open>\<^verbatim>\<open>_permit_with_observation\<close>: an observer that raises gives the slot back.\<close>

definition permit_with_observation :: "unit py_res \<Rightarrow> (nat \<Rightarrow> rat) \<Rightarrow> nat \<Rightarrow> sys \<Rightarrow> unit py_res \<times> sys" where
  "permit_with_observation observed clk p s =
     (let s1 = s\<lparr>s_permits := dict_set p False (s_permits s)\<rparr> in
      case observed of
        Inr _ \<Rightarrow> (Inr (), s1)
      | Inl e \<Rightarrow> (case permit_release clk p s1 of (Inl e', s2) \<Rightarrow> (Inl e', s2) | (Inr _, s2) \<Rightarrow> (Inl e, s2)))"

text \<open>\<^verbatim>\<open>acquire\<close> up to its first suspension.\<close>

definition acquire_start :: "unit py_res \<Rightarrow> (nat \<Rightarrow> rat) \<Rightarrow> nat \<Rightarrow> nat \<Rightarrow> rat \<Rightarrow> rat \<Rightarrow> sys \<Rightarrow> unit py_res option \<times> sys" where
  "acquire_start observed clk w loop started now s =
     (case acquire_enter w loop started now (s_group s) of
        (True, g) \<Rightarrow> (case permit_with_observation observed clk w (put_group [(w, now)] g s) of (r, s1) \<Rightarrow> (Some r, s1))
      | (False, g) \<Rightarrow> (None, (put_group [] g s)\<lparr>s_waiting := s_waiting s @ [w]\<rparr>))"

text \<open>
  One resumption of a waiting \<^verbatim>\<open>acquire\<close>: a round of the wait loop, which may end it. The value
  \<open>None\<close> is a task that sleeps on.
\<close>

definition acquire_resume :: "unit py_res \<Rightarrow> (nat \<Rightarrow> rat) \<Rightarrow> nat \<Rightarrow> sys \<Rightarrow> unit py_res option \<times> sys" where
  "acquire_resume observed clk w s =
     (case wait_round (s_dead s) clk w (s_group s) of
        (Acquired, grants, g) \<Rightarrow>
          (case permit_with_observation observed clk w ((put_group grants g s)\<lparr>s_waiting := remove1 w (s_waiting s)\<rparr>)
           of (r, s1) \<Rightarrow> (Some r, s1))
      | (Sleep _, grants, g) \<Rightarrow> (None, put_group grants g s)
      | (Failed e, grants, g) \<Rightarrow> (Some (Inl e), (put_group grants g s)\<lparr>s_waiting := remove1 w (s_waiting s)\<rparr>))"

text \<open>A waiting \<^verbatim>\<open>acquire\<close> ends by its queue timeout (AdmissionTimeoutError) or is cancelled.\<close>

definition acquire_abort :: "py_error \<Rightarrow> (nat \<Rightarrow> rat) \<Rightarrow> nat \<Rightarrow> sys \<Rightarrow> unit py_res \<times> sys" where
  "acquire_abort err clk w s =
     (case cancel_waiter (s_dead s) clk w (s_group s) of
        (Inl e, g) \<Rightarrow> (Inl e, s\<lparr>s_group := g, s_waiting := remove1 w (s_waiting s)\<rparr>)
      | (Inr grants, g) \<Rightarrow> (Inl err, (put_group grants g s)\<lparr>s_waiting := remove1 w (s_waiting s)\<rparr>))"

text \<open>
  The steps of the system. Calls are numbered in the order in which they arrive. The clock
  readings of a step are arbitrary.
\<close>

inductive adm_step :: "sys \<Rightarrow> sys \<Rightarrow> bool" where
  Start: "\<lbrakk>\<forall>v \<in> set (dict_keys (g_table (s_group s))) \<union> set (dict_keys (s_permits s)) \<union> fst ` set (s_log s). v < w;
      acquire_start observed clk w loop started now s = (r, s')\<rbrakk> \<Longrightarrow> adm_step s s'"
| Resume: "\<lbrakk>w \<in> set (s_waiting s); \<not> loop_closed (s_dead s) w (s_group s);
      acquire_resume observed clk w s = (r', s')\<rbrakk> \<Longrightarrow> adm_step s s'"
| Abort: "\<lbrakk>w \<in> set (s_waiting s); acquire_abort err clk w s = (r'', s')\<rbrakk> \<Longrightarrow> adm_step s s'"
| Release: "permit_release clk p s = (r'', s') \<Longrightarrow> adm_step s s'"
| Cooldown: "permit_cooldown now delay p s = (r'', s') \<Longrightarrow> adm_step s s'"
| Callback: "adm_step s (s\<lparr>s_group := run_callback (s_group s)\<rparr>)"
| Close_loop: "adm_step s (s\<lparr>s_dead := l # s_dead s\<rparr>)"

section \<open>The queue and the accounting of a group\<close>

definition count_state :: "wstate \<Rightarrow> group \<Rightarrow> nat" where
  "count_state st g = length (filter (\<lambda>(w, x). w_state x = st) (g_table g))"

definition queue_ok :: "group \<Rightarrow> bool" where
  "queue_ok g \<longleftrightarrow> distinct (dict_keys (g_table g)) \<and> distinct (g_waiters g) \<and>
     g_queued g = int (length (g_waiters g)) \<and>
     (\<forall>w. w \<in> set (g_waiters g) \<longleftrightarrow> waiter_state w g = Some W_queued)"

text \<open>\<open>held\<close> slots belong to permits, one more to every waiter that has been granted one.\<close>

definition group_ok :: "nat \<Rightarrow> group \<Rightarrow> bool" where
  "group_ok held g \<longleftrightarrow> queue_ok g \<and> g_active g = int held + int (count_state W_granted g) \<and> g_active g \<le> g_max g"

lemma group_ok_queue: "group_ok h g \<Longrightarrow> queue_ok g"
  by (simp add: group_ok_def)

lemma set_state_fields [simp]:
  "g_active (set_state w s g) = g_active g" "g_max (set_state w s g) = g_max g"
  "g_queued (set_state w s g) = g_queued g" "g_next (set_state w s g) = g_next g"
  "g_cool (set_state w s g) = g_cool g" "g_interval (set_state w s g) = g_interval g"
  "g_max_cooldown (set_state w s g) = g_max_cooldown g"
  "dict_keys (g_table (set_state w s g)) = dict_keys (g_table g)"
  by (auto simp: set_state_def dict_keys_set split: option.splits)
     (metis dict_has_def dict_has_iff option.distinct(1) set_map)+

lemma set_wakeup_fields [simp]:
  "g_active (set_wakeup w s g) = g_active g" "g_max (set_wakeup w s g) = g_max g"
  "g_queued (set_wakeup w s g) = g_queued g" "g_next (set_wakeup w s g) = g_next g"
  "g_cool (set_wakeup w s g) = g_cool g" "g_interval (set_wakeup w s g) = g_interval g"
  "g_max_cooldown (set_wakeup w s g) = g_max_cooldown g" "g_waiters (set_wakeup w s g) = g_waiters g"
  "dict_keys (g_table (set_wakeup w s g)) = dict_keys (g_table g)"
  by (auto simp: set_wakeup_def dict_keys_set split: option.splits)
     (metis dict_has_def dict_has_iff option.distinct(1) set_map)+

lemma waiter_state_set_state:
  "waiter_state v (set_state w s g) = (if v = w \<and> waiter_state w g \<noteq> None then Some s else waiter_state v g)"
  by (auto simp: waiter_state_def set_state_def split: option.splits)

lemma waiter_state_set_wakeup [simp]: "waiter_state v (set_wakeup w b g) = waiter_state v g"
  by (auto simp: waiter_state_def set_wakeup_def split: option.splits)

lemma loop_closed_set_state [simp]: "loop_closed dead v (set_state w s g) = loop_closed dead v g"
  by (auto simp: loop_closed_def set_state_def split: option.splits)

lemma loop_closed_set_wakeup [simp]: "loop_closed dead v (set_wakeup w b g) = loop_closed dead v g"
  by (auto simp: loop_closed_def set_wakeup_def split: option.splits)

text \<open>The views do not depend on the other fields.\<close>

lemma waiter_state_fields [simp]:
  "waiter_state v (g\<lparr>g_waiters := ws\<rparr>) = waiter_state v g" "waiter_state v (g\<lparr>g_queued := q\<rparr>) = waiter_state v g"
  "waiter_state v (g\<lparr>g_active := a\<rparr>) = waiter_state v g" "waiter_state v (g\<lparr>g_calls := c\<rparr>) = waiter_state v g"
  "waiter_state v (g\<lparr>g_next := t\<rparr>) = waiter_state v g" "waiter_state v (g\<lparr>g_cool := t\<rparr>) = waiter_state v g"
  by (simp_all add: waiter_state_def)

lemma count_state_fields [simp]:
  "count_state v (g\<lparr>g_waiters := ws\<rparr>) = count_state v g" "count_state v (g\<lparr>g_queued := q\<rparr>) = count_state v g"
  "count_state v (g\<lparr>g_active := a\<rparr>) = count_state v g" "count_state v (g\<lparr>g_calls := c\<rparr>) = count_state v g"
  "count_state v (g\<lparr>g_next := t\<rparr>) = count_state v g" "count_state v (g\<lparr>g_cool := t\<rparr>) = count_state v g"
  by (simp_all add: count_state_def)

lemma loop_closed_fields [simp]:
  "loop_closed d v (g\<lparr>g_waiters := ws\<rparr>) = loop_closed d v g" "loop_closed d v (g\<lparr>g_queued := q\<rparr>) = loop_closed d v g"
  "loop_closed d v (g\<lparr>g_active := a\<rparr>) = loop_closed d v g" "loop_closed d v (g\<lparr>g_calls := c\<rparr>) = loop_closed d v g"
  "loop_closed d v (g\<lparr>g_next := t\<rparr>) = loop_closed d v g" "loop_closed d v (g\<lparr>g_cool := t\<rparr>) = loop_closed d v g"
  by (simp_all add: loop_closed_def)

lemma filter_dict_set_count:
  "distinct (dict_keys d) \<Longrightarrow> dict_get d w = Some x \<Longrightarrow>
   int (length (filter (\<lambda>(k, v). P v) (dict_set w y d)))
     = int (length (filter (\<lambda>(k, v). P v) d)) - of_bool (P x) + of_bool (P y)"
proof (induction d)
  case (Cons kv d)
  obtain k v where kv: "kv = (k, v)" by (cases kv)
  show ?case
  proof (cases "k = w")
    case True
    with Cons show ?thesis by (auto simp: kv)
  next
    case False
    with Cons show ?thesis by (auto simp: kv)
  qed
qed simp

lemma count_set_state:
  assumes "distinct (dict_keys (g_table g))" and "waiter_state w g = Some s0"
  shows "int (count_state st (set_state w s g)) = int (count_state st g) - of_bool (s0 = st) + of_bool (s = st)"
proof -
  obtain x where x: "dict_get (g_table g) w = Some x" "w_state x = s0"
    using assms(2) by (auto simp: waiter_state_def)
  from filter_dict_set_count [OF assms(1) x(1), of "\<lambda>x. w_state x = st" "x\<lparr>w_state := s\<rparr>"] x
  show ?thesis by (simp add: count_state_def set_state_def)
qed

lemma count_set_wakeup [simp]: "distinct (dict_keys (g_table g)) \<Longrightarrow> count_state st (set_wakeup w b g) = count_state st g"
proof -
  assume d: "distinct (dict_keys (g_table g))"
  show ?thesis
  proof (cases "dict_get (g_table g) w")
    case (Some x)
    from filter_dict_set_count [OF d Some, of "\<lambda>x. w_state x = st" "x\<lparr>w_wakeup := b\<rparr>"] Some
    show ?thesis by (simp add: count_state_def set_wakeup_def)
  qed (simp add: set_wakeup_def)
qed

text \<open>
  What a section that takes waiters off the head of the queue does to it: a prefix leaves, the
  members with an open loop are granted in order, those with a closed loop are dropped.
\<close>

definition drains :: "nat list \<Rightarrow> group \<Rightarrow> nat list \<Rightarrow> group \<Rightarrow> bool" where
  "drains dead g ws g' \<longleftrightarrow> (\<exists>gone. g_waiters g = gone @ g_waiters g' \<and>
     ws = filter (\<lambda>w. \<not> loop_closed dead w g) gone \<and>
     (\<forall>d v. loop_closed d v g' = loop_closed d v g) \<and> dict_keys (g_table g') = dict_keys (g_table g) \<and>
     (\<forall>v. waiter_state v g' = (if v \<in> set gone then Some (if loop_closed dead v g then W_cancelled else W_granted)
                               else waiter_state v g)))"

definition same_policy :: "group \<Rightarrow> group \<Rightarrow> bool" where
  "same_policy g g' \<longleftrightarrow> g_max g' = g_max g \<and> g_interval g' = g_interval g \<and>
     g_max_cooldown g' = g_max_cooldown g \<and> g_cool g' = g_cool g"

lemma same_policy_refl [simp]: "same_policy g g"
  by (simp add: same_policy_def)

lemma same_policy_trans [trans]: "same_policy g h \<Longrightarrow> same_policy h k \<Longrightarrow> same_policy g k"
  by (simp add: same_policy_def)

lemma drains_refl [simp]: "drains dead g [] g"
  by (simp add: drains_def)

lemma drains_trans:
  assumes "drains dead g ws g1" and "drains dead g1 ws' g2" and "queue_ok g"
  shows "drains dead g (ws @ ws') g2"
proof -
  from assms(1) obtain a where a: "g_waiters g = a @ g_waiters g1" "ws = filter (\<lambda>w. \<not> loop_closed dead w g) a"
    "\<And>d v. loop_closed d v g1 = loop_closed d v g" "dict_keys (g_table g1) = dict_keys (g_table g)"
    "\<And>v. waiter_state v g1 = (if v \<in> set a then Some (if loop_closed dead v g then W_cancelled else W_granted)
                               else waiter_state v g)" by (auto simp: drains_def)
  from assms(2) obtain b where b: "g_waiters g1 = b @ g_waiters g2" "ws' = filter (\<lambda>w. \<not> loop_closed dead w g1) b"
    "\<And>d v. loop_closed d v g2 = loop_closed d v g1" "dict_keys (g_table g2) = dict_keys (g_table g1)"
    "\<And>v. waiter_state v g2 = (if v \<in> set b then Some (if loop_closed dead v g1 then W_cancelled else W_granted)
                               else waiter_state v g1)" by (auto simp: drains_def)
  show ?thesis unfolding drains_def
    by (intro exI [of _ "a @ b"]) (simp add: a b)
qed

lemma drains_single:
  assumes "g_waiters g = w # ws" and "waiter_state w g = Some W_queued" and "loop_closed dead w g"
  shows "drains dead g [] (set_state w W_cancelled (g\<lparr>g_waiters := ws, g_queued := q\<rparr>))"
  using assms unfolding drains_def by (intro exI [of _ "[w]"]) (simp add: waiter_state_set_state)

text \<open>Taking the head out of the queue with a new state.\<close>

lemma queue_ok_pop:
  assumes "queue_ok g" and "g_waiters g = w # ws" and "s \<noteq> W_queued"
  shows "queue_ok (set_state w s (g\<lparr>g_waiters := ws, g_queued := g_queued g - 1\<rparr>))"
    and "int (count_state W_granted (set_state w s (g\<lparr>g_waiters := ws, g_queued := g_queued g - 1\<rparr>)))
      = int (count_state W_granted g) + of_bool (s = W_granted)"
proof -
  have q: "waiter_state w g = Some W_queued" using assms(1,2) by (auto simp: queue_ok_def)
  show "queue_ok (set_state w s (g\<lparr>g_waiters := ws, g_queued := g_queued g - 1\<rparr>))"
    using assms q unfolding queue_ok_def by (auto simp: waiter_state_set_state)
  show "int (count_state W_granted (set_state w s (g\<lparr>g_waiters := ws, g_queued := g_queued g - 1\<rparr>)))
      = int (count_state W_granted g) + of_bool (s = W_granted)"
    using count_set_state [of "g\<lparr>g_waiters := ws, g_queued := g_queued g - 1\<rparr>" w W_queued W_granted s] q assms(1)
    by (simp add: queue_ok_def)
qed

lemma group_update_comm: "g\<lparr>g_queued := q, g_waiters := ws\<rparr> = g\<lparr>g_waiters := ws, g_queued := q\<rparr>"
  by simp

lemma wake_head_from_ok:
  assumes "group_ok held g" and "g_waiters g = ws"
  shows "group_ok held (wake_head_from dead ws g) \<and> drains dead g [] (wake_head_from dead ws g) \<and>
    same_policy g (wake_head_from dead ws g) \<and> g_next (wake_head_from dead ws g) = g_next g \<and>
    g_active (wake_head_from dead ws g) = g_active g"
  using assms
proof (induction dead ws g rule: wake_head_from.induct)
  case (1 dead g)
  then have same: "wake_head_from dead [] g = g" by (cases g) simp
  show ?case unfolding same using "1.prems"(1) by simp
next
  case (2 dead w ws g)
  have qok: "queue_ok g" and wq: "waiter_state w g = Some W_queued"
    using "2.prems" by (auto simp: group_ok_def queue_ok_def)
  show ?case
  proof (cases "loop_closed dead w g")
    case True
    let ?g = "set_state w W_cancelled (g\<lparr>g_queued := g_queued g - 1, g_waiters := ws\<rparr>)"
    have "group_ok held ?g"
      using queue_ok_pop [OF qok "2.prems"(2), of W_cancelled] "2.prems"(1)
      unfolding group_update_comm by (simp add: group_ok_def)
    with "2.IH" [OF True] have IH: "group_ok held (wake_head_from dead ws ?g)" "drains dead ?g [] (wake_head_from dead ws ?g)"
      "same_policy ?g (wake_head_from dead ws ?g)" "g_next (wake_head_from dead ws ?g) = g_next ?g"
      "g_active (wake_head_from dead ws ?g) = g_active ?g" by auto
    have "same_policy g ?g" by (simp add: same_policy_def)
    moreover have "drains dead g ([] @ []) (wake_head_from dead ws ?g)"
      using drains_trans [OF drains_single [OF "2.prems"(2) wq True, of "g_queued g - 1"] _ qok] IH(2)
      unfolding group_update_comm by blast
    ultimately show ?thesis using IH True by (auto intro: same_policy_trans)
  next
    case False
    let ?g = "g\<lparr>g_waiters := w # ws, g_calls := g_calls g @ [SetWakeup w]\<rparr>"
    have "queue_ok ?g" using qok "2.prems"(2) by (simp add: queue_ok_def)
    moreover have "drains dead g [] ?g"
      unfolding drains_def using "2.prems"(2)
      by (intro exI [of _ "[]"]) simp
    ultimately show ?thesis
      using False "2.prems" by (simp add: group_ok_def same_policy_def)
  qed
qed

lemmas wake_head_ok = wake_head_from_ok [OF _ refl, folded wake_head_def]

lemma drains_grant:
  assumes "g_waiters g = w # ws" and "waiter_state w g = Some W_queued" and "\<not> loop_closed dead w g"
  shows "drains dead g [w] ((set_state w W_granted (g\<lparr>g_waiters := ws, g_queued := q\<rparr>))
    \<lparr>g_active := a, g_calls := c, g_next := n\<rparr>)"
  using assms unfolding drains_def by (intro exI [of _ "[w]"]) (simp add: waiter_state_set_state)

lemma grant_head_ok:
  assumes ok: "group_ok held g" and w: "g_waiters g = w # ws" and slot: "g_active g < g_max g"
    and run: "grant_head dead now w ws g = (granted, g')"
  shows "group_ok held g' \<and> drains dead g (if granted then [w] else []) g' \<and> same_policy g g' \<and>
    g_next g' = (if granted then now + g_interval g else g_next g)"
proof -
  have qok: "queue_ok g" and wq: "waiter_state w g = Some W_queued"
    using ok w by (auto simp: group_ok_def queue_ok_def)
  let ?g0 = "g\<lparr>g_waiters := ws, g_queued := g_queued g - 1\<rparr>"
  let ?g1 = "set_state w W_granted ?g0"
  show ?thesis
  proof (cases "loop_closed dead w g")
    case True
    have twice: "set_state w W_cancelled ?g1 = set_state w W_cancelled ?g0"
      by (auto simp: set_state_def split: option.splits)
    with run True have g': "g' = set_state w W_cancelled ?g0" and "\<not> granted"
      by (auto simp: grant_head_def Let_def)
    then show ?thesis
      using queue_ok_pop [OF qok w, of W_cancelled] ok drains_single [OF w wq True, of "g_queued g - 1"]
      by (simp add: group_ok_def same_policy_def)
  next
    case False
    let ?g2 = "?g1\<lparr>g_active := g_active g + 1, g_calls := g_calls g @ [DeliverGrant w], g_next := now + g_interval g\<rparr>"
    from run False have g': "g' = wake_head dead ?g2" and "granted"
      by (auto simp: grant_head_def Let_def)
    have "queue_ok ?g2"
      using queue_ok_pop(1) [OF qok w, of W_granted] by (simp add: queue_ok_def)
    then have ok2: "group_ok held ?g2"
      using queue_ok_pop(2) [OF qok w, of W_granted] ok slot by (simp add: group_ok_def)
    have "drains dead ?g2 [] (wake_head dead ?g2)" using wake_head_ok [OF ok2, of dead] by blast
    from drains_trans [OF drains_grant [OF w wq False] this qok]
    have "drains dead g ([w] @ []) g'" unfolding g' .
    moreover have "same_policy g ?g2" by (simp add: same_policy_def)
    ultimately show ?thesis
      using wake_head_ok [OF ok2, of dead] \<open>granted\<close> by (auto simp: g' intro: same_policy_trans)
  qed
qed

text \<open>The admission times keep the distance \<open>i\<close> and the gate \<open>nxt\<close> is past the last of them.\<close>

fun paced :: "rat \<Rightarrow> rat list \<Rightarrow> rat \<Rightarrow> bool" where
  "paced i [] nxt = True"
| "paced i [t] nxt = (t + i \<le> nxt)"
| "paced i (t # u # ts) nxt = (t + i \<le> u \<and> paced i (u # ts) nxt)"

lemma paced_mono: "paced i ts a \<Longrightarrow> a \<le> b \<Longrightarrow> paced i ts b"
  by (induction i ts a rule: paced.induct) auto

lemma paced_snoc: "paced i ts nxt \<Longrightarrow> nxt \<le> t \<Longrightarrow> paced i (ts @ [t]) (t + i)"
  by (induction i ts nxt rule: paced.induct) auto

lemma paced_sorted: "0 \<le> i \<Longrightarrow> paced i ts nxt \<Longrightarrow> sorted_wrt (\<lambda>a b. a + i \<le> b) ts \<and> (\<forall>t \<in> set ts. t + i \<le> nxt)"
  by (induction i ts nxt rule: paced.induct) fastforce+

text \<open>
  What a section does that may admit waiters: it grants a prefix of the queue in order, never
  before the cooldown gate, at times spaced by the interval.
\<close>

definition progress :: "nat list \<Rightarrow> group \<Rightarrow> (nat \<times> rat) list \<Rightarrow> group \<Rightarrow> bool" where
  "progress dead g grants g' \<longleftrightarrow> drains dead g (map fst grants) g' \<and> same_policy g g' \<and>
     (\<forall>x \<in> set grants. g_cool g \<le> snd x) \<and>
     (\<forall>ts. paced (g_interval g) ts (g_next g) \<longrightarrow> paced (g_interval g) (ts @ map snd grants) (g_next g'))"

lemma progress_refl [simp]: "progress dead g [] g"
  by (simp add: progress_def)

lemma progress_trans:
  "progress dead g xs g1 \<Longrightarrow> progress dead g1 ys g2 \<Longrightarrow> queue_ok g \<Longrightarrow> progress dead g (xs @ ys) g2"
  unfolding progress_def
  using drains_trans [of dead g "map fst xs" g1 "map fst ys" g2]
  by (auto simp: same_policy_def simp flip: append_assoc)

lemma wake_head_progress: "group_ok held g \<Longrightarrow> group_ok held (wake_head dead g) \<and> progress dead g [] (wake_head dead g)"
  using wake_head_ok [of held g dead] by (simp add: progress_def)

lemma grant_head_progress:
  assumes "group_ok held g" and "g_waiters g = w # ws" and "g_active g < g_max g" and "not_before g \<le> now"
    and "grant_head dead now w ws g = (granted, g')"
  shows "group_ok held g' \<and> progress dead g (if granted then [(w, now)] else []) g'"
  using grant_head_ok [OF assms(1-3,5)] assms(4)
  by (auto simp: progress_def not_before_def intro: paced_snoc)

text \<open>
  \<open>pump\<close> keeps the accounting and stops only when the queue is empty, no slot is free, or the
  gate was closed at its last reading.
\<close>

lemma pump_ok:
  assumes "group_ok held g" and "pump dead clk n g = (grants, n', g')"
  shows "group_ok held g' \<and> progress dead g grants g' \<and>
    (g_waiters g' = [] \<or> g_active g' = g_max g' \<or> (\<exists>k. clk k < not_before g'))"
  using assms
proof (induction dead clk n g arbitrary: grants n' g' rule: pump.induct)
  case (1 dead clk n g)
  note ok = "1.prems"(1) and run = "1.prems"(2)
  show ?case
  proof (cases "g_waiters g")
    case Nil
    with run ok show ?thesis by (auto simp: pump.simps)
  next
    case (Cons w ws)
    consider "\<not> g_active g < g_max g" | "g_active g < g_max g" "clk n < not_before g"
      | "g_active g < g_max g" "\<not> clk n < not_before g" by blast
    then show ?thesis
    proof cases
      case 1
      with run Cons ok show ?thesis by (auto simp: pump.simps [of dead clk n g] group_ok_def)
    next
      case 2
      with run Cons ok show ?thesis by (auto simp: pump.simps [of dead clk n g])
    next
      case 3
      obtain granted g1 where gh: "grant_head dead (clk n) w ws g = (granted, g1)" by fastforce
      obtain grants1 n1 g2 where rec: "pump dead clk (Suc n) g1 = (grants1, n1, g2)" by (metis prod_cases3)
      from run Cons 3 gh rec have res: "grants = (if granted then [(w, clk n)] else []) @ grants1" "g' = g2"
        by (auto simp: pump.simps [of dead clk n g])
      have head: "group_ok held g1" "progress dead g (if granted then [(w, clk n)] else []) g1"
        using grant_head_progress [OF ok Cons 3(1) _ gh] 3(2) by auto
      have IH: "group_ok held g2 \<and> progress dead g1 grants1 g2 \<and>
          (g_waiters g2 = [] \<or> g_active g2 = g_max g2 \<or> (\<exists>k. clk k < not_before g2))"
        using 3 by (intro "1.IH" [OF Cons _ 3(2) gh [symmetric] refl head(1) rec]) simp
      with progress_trans [OF head(2), of grants1 g2] group_ok_queue [OF ok] show ?thesis
        unfolding res by blast
    qed
  qed
qed

lemma progress_active [simp]:
  "progress dead (g\<lparr>g_active := a\<rparr>) grants g' = progress dead g grants g'"
  by (simp add: progress_def drains_def same_policy_def)

lemma release_ok:
  assumes "group_ok (Suc held) g" and "release dead clk g = (r, g')"
  shows "\<exists>grants. r = Inr grants \<and> group_ok held g' \<and> progress dead g grants g'"
proof -
  let ?g = "g\<lparr>g_active := g_active g - 1\<rparr>"
  have q: "queue_ok ?g" "queue_ok g" using assms(1) by (auto simp: group_ok_def queue_ok_def)
  have ok: "group_ok held ?g" using assms(1) q by (simp add: group_ok_def)
  obtain grants n g1 where p: "pump dead clk 0 ?g = (grants, n, g1)" by (metis prod_cases3)
  have "0 < g_active g" using assms(1) by (simp add: group_ok_def)
  with assms(2) p have r: "r = Inr grants" "g' = wake_head dead g1" by (auto simp: release_def)
  from pump_ok [OF ok p] have "group_ok held g1" "progress dead g grants g1" by auto
  with wake_head_progress [of held g1 dead] progress_trans [of dead g grants g1 "[]" "wake_head dead g1"] q
  show ?thesis by (simp add: r)
qed

section \<open>The invariant of the system\<close>

definition held :: "(nat, bool) dict \<Rightarrow> nat" where
  "held permits = length (filter (\<lambda>(p, released). \<not> released) permits)"

definition waiting_state :: "nat list \<Rightarrow> nat \<Rightarrow> group \<Rightarrow> bool" where
  "waiting_state dead w g \<longleftrightarrow> waiter_state w g = Some W_queued \<or> waiter_state w g = Some W_granted \<or>
     (waiter_state w g = Some W_cancelled \<and> loop_closed dead w g)"

definition tasks_ok :: "nat list \<Rightarrow> (nat, bool) dict \<Rightarrow> nat list \<Rightarrow> group \<Rightarrow> bool" where
  "tasks_ok waiting permits dead g \<longleftrightarrow> distinct waiting \<and>
     (\<forall>w \<in> set waiting. waiting_state dead w g \<and> w \<notin> set (dict_keys permits)) \<and>
     (\<forall>w. waiter_state w g = Some W_queued \<or> waiter_state w g = Some W_granted \<longrightarrow> w \<in> set waiting)"

definition log_ok :: "(nat \<times> rat) list \<Rightarrow> group \<Rightarrow> bool" where
  "log_ok adms g \<longleftrightarrow> sorted_wrt (<) (map fst adms @ g_waiters g) \<and> paced (g_interval g) (map snd adms) (g_next g)"

definition sys_ok :: "sys \<Rightarrow> bool" where
  "sys_ok s \<longleftrightarrow> distinct (dict_keys (s_permits s)) \<and> group_ok (held (s_permits s)) (s_group s) \<and>
     tasks_ok (s_waiting s) (s_permits s) (s_dead s) (s_group s) \<and> log_ok (s_log s) (s_group s)"

lemma tasks_ok_progress:
  assumes "tasks_ok waiting permits dead g" and "progress dead g grants g'" and "queue_ok g"
  shows "tasks_ok waiting permits dead g'"
proof -
  from assms(2) obtain gone where gone: "g_waiters g = gone @ g_waiters g'"
    and cl: "\<And>v. loop_closed dead v g' = loop_closed dead v g"
    and st: "\<And>v. waiter_state v g' = (if v \<in> set gone then Some (if loop_closed dead v g then W_cancelled else W_granted)
                               else waiter_state v g)" by (auto simp: progress_def drains_def)
  have "w \<in> set waiting" if "w \<in> set gone" for w
    using that assms(1,3) gone by (auto simp: tasks_ok_def queue_ok_def)
  with assms(1) show ?thesis by (auto simp: tasks_ok_def waiting_state_def st cl)
qed

lemma log_ok_progress:
  assumes "log_ok adms g" and "progress dead g grants g'"
  shows "log_ok (adms @ grants) g'"
proof -
  from assms(2) obtain gone where gone: "g_waiters g = gone @ g_waiters g'"
    and fst: "map fst grants = filter (\<lambda>w. \<not> loop_closed dead w g) gone"
    and i: "g_interval g' = g_interval g"
    by (auto simp: progress_def drains_def same_policy_def)
  have "sorted_wrt (<) (map fst adms @ gone @ g_waiters g')" using assms(1) by (simp add: log_ok_def gone)
  then have "sorted_wrt (<) (map fst (adms @ grants) @ g_waiters g')"
    by (auto simp: fst sorted_wrt_append intro: sorted_wrt_filter)
  with assms show ?thesis by (auto simp: log_ok_def i progress_def)
qed

lemma put_group_simps [simp]:
  "s_group (put_group grants g s) = g" "s_permits (put_group grants g s) = s_permits s"
  "s_waiting (put_group grants g s) = s_waiting s" "s_dead (put_group grants g s) = s_dead s"
  "s_log (put_group grants g s) = s_log s @ grants"
  by (simp_all add: put_group_def)

lemma held_fresh: "p \<notin> set (dict_keys permits) \<Longrightarrow> held (dict_set p False permits) = Suc (held permits)"
  by (simp add: held_def dict_set_fresh)

lemma held_release:
  "distinct (dict_keys permits) \<Longrightarrow> dict_get permits p = Some False \<Longrightarrow>
   held permits = Suc (held (dict_set p True permits))"
  using filter_dict_set_count [of permits p False "\<lambda>released. \<not> released" True] by (simp add: held_def)

text \<open>Giving a permit back, once; a second call does nothing.\<close>

lemma permit_release_ok:
  assumes ok: "sys_ok s" and run: "permit_release clk p s = (r, s')"
  shows "sys_ok s' \<and> r = Inr () \<and> (\<exists>grants. s_log s' = s_log s @ grants \<and> progress (s_dead s) (s_group s) grants (s_group s'))"
proof (cases "dict_get (s_permits s) p = Some False")
  case False
  with run ok show ?thesis by (auto simp: permit_release_def)
next
  case True
  let ?p = "dict_set p True (s_permits s)"
  have keys: "dict_keys ?p = dict_keys (s_permits s)"
    using True by (metis dict_has_def dict_has_iff dict_keys_set option.distinct(1))
  have g: "group_ok (Suc (held ?p)) (s_group s)" using ok held_release [OF _ True] by (simp add: sys_ok_def)
  obtain r0 g' where rel: "release (s_dead s) clk (s_group s) = (r0, g')" by fastforce
  from release_ok [OF g rel] obtain grants where r0: "r0 = Inr grants" and g': "group_ok (held ?p) g'"
    and pr: "progress (s_dead s) (s_group s) grants g'" by blast
  have s': "s' = put_group grants g' (s\<lparr>s_permits := ?p\<rparr>)" and r: "r = Inr ()"
    using run True rel r0 by (auto simp: permit_release_def Let_def)
  have "tasks_ok (s_waiting s) ?p (s_dead s) (s_group s)"
    using ok by (simp add: sys_ok_def tasks_ok_def keys del: set_map)
  with tasks_ok_progress [OF _ pr group_ok_queue [OF g]] log_ok_progress [OF _ pr, of "s_log s"] ok g' pr
  show ?thesis by (auto simp: s' r sys_ok_def keys)
qed

lemma sys_ok_issue:
  assumes "distinct (dict_keys (s_permits s))" and "group_ok (Suc (held (s_permits s))) (s_group s)"
    and "tasks_ok (s_waiting s) (s_permits s) (s_dead s) (s_group s)" and "log_ok (s_log s) (s_group s)"
    and new: "w \<notin> set (dict_keys (s_permits s))" "w \<notin> set (s_waiting s)"
    and run: "permit_with_observation observed clk w s = (r, s')"
  shows "sys_ok s' \<and> (\<exists>grants. s_log s' = s_log s @ grants \<and> progress (s_dead s) (s_group s) grants (s_group s')) \<and>
    r = observed"
proof -
  let ?s = "s\<lparr>s_permits := dict_set w False (s_permits s)\<rparr>"
  have ok: "sys_ok ?s"
    using assms(1-4) new by (auto simp: sys_ok_def held_def tasks_ok_def dict_set_fresh)
  show ?thesis
  proof (cases observed)
    case (Inr u)
    then have "permit_with_observation observed clk w s = (observed, ?s)"
      by (simp add: permit_with_observation_def Let_def)
    then have s': "s' = ?s" and r: "r = observed" using run by simp_all
    show ?thesis unfolding s' r using ok by (intro conjI exI [of _ "[]"] refl) simp_all
  next
    case (Inl e)
    obtain r0 s2 where pr: "permit_release clk w ?s = (r0, s2)" by fastforce
    from permit_release_ok [OF ok pr] have ok2: "sys_ok s2" "r0 = Inr ()"
      "\<exists>grants. s_log s2 = s_log s @ grants \<and> progress (s_dead s) (s_group s) grants (s_group s2)" by auto
    with run Inl pr have "s' = s2" "r = observed" by (auto simp: permit_with_observation_def Let_def)
    with ok2 show ?thesis by simp
  qed
qed

lemma acquire_start_ok:
  assumes ok: "sys_ok s"
    and fresh: "\<forall>v \<in> set (dict_keys (g_table (s_group s))) \<union> set (dict_keys (s_permits s)) \<union> fst ` set (s_log s). v < w"
    and run: "acquire_start observed clk w loop started now s = (r, s')"
  shows "sys_ok s' \<and> (\<exists>adms. s_log s' = s_log s @ adms \<and> (\<forall>x \<in> set adms. g_cool (s_group s) \<le> snd x)) \<and>
    same_policy (s_group s) (s_group s')"
proof -
  let ?g = "s_group s"
  have q: "queue_ok ?g" and g: "group_ok (held (s_permits s)) ?g" using ok by (auto simp: sys_ok_def group_ok_def)
  have fresh_w: "w \<notin> set (dict_keys (g_table ?g))" "w \<notin> set (dict_keys (s_permits s))" "\<forall>v \<in> fst ` set (s_log s). v < w"
    using fresh by blast+
  have none: "waiter_state w ?g = None" using fresh_w(1) by (simp add: waiter_state_def map_of_eq_None_iff)
  have notw: "w \<notin> set (s_waiting s)"
    using ok none by (auto simp: sys_ok_def tasks_ok_def waiting_state_def)
  have below: "v < w" if "v \<in> set (g_waiters ?g)" for v
  proof -
    have "waiter_state v ?g \<noteq> None" using that q by (auto simp: queue_ok_def)
    then have "v \<in> set (dict_keys (g_table ?g))" by (simp add: waiter_state_def map_of_eq_None_iff)
    with fresh show ?thesis by blast
  qed
  show ?thesis
  proof (cases "g_active ?g < g_max ?g \<and> g_waiters ?g = [] \<and> not_before ?g \<le> now")
    case True
    let ?g1 = "?g\<lparr>g_active := g_active ?g + 1, g_next := now + g_interval ?g\<rparr>"
    let ?s = "put_group [(w, now)] ?g1 s"
    obtain r1 s1 where pw: "permit_with_observation observed clk w ?s = (r1, s1)" by fastforce
    with run True have s': "s' = s1" by (auto simp: acquire_start_def acquire_enter_def)
    have "queue_ok ?g1" using q by (simp add: queue_ok_def)
    then have g1: "group_ok (Suc (held (s_permits s))) ?g1" using g True by (simp add: group_ok_def)
    have "log_ok (s_log s @ [(w, now)]) ?g1"
      using ok True fresh_w(3) paced_snoc
      by (auto simp: sys_ok_def log_ok_def sorted_wrt_append not_before_def)
    moreover have "tasks_ok (s_waiting s) (s_permits s) (s_dead s) ?g1"
      using ok by (simp add: sys_ok_def tasks_ok_def waiting_state_def)
    ultimately obtain grants where "sys_ok s1" "s_log s1 = s_log s @ [(w, now)] @ grants"
      and pr: "progress (s_dead s) ?g1 grants (s_group s1)"
      using sys_ok_issue [OF _ _ _ _ _ _ pw] ok g1 fresh_w(2) notw by (auto simp: sys_ok_def)
    moreover have "same_policy ?g (s_group s1)" using pr by (simp add: progress_def same_policy_def)
    moreover have "\<forall>x \<in> set ([(w, now)] @ grants). g_cool ?g \<le> snd x"
      using pr True by (auto simp: progress_def not_before_def)
    ultimately show ?thesis unfolding s' by blast
  next
    case False
    define x where "x = \<lparr>w_loop = loop, w_wakeup = False, w_queued_at = started,
      w_queue_depth = g_queued ?g + 1, w_state = W_queued\<rparr>"
    have x: "w_state x = W_queued" by (simp add: x_def)
    have s': "s' = (put_group [] (?g\<lparr>g_waiters := g_waiters ?g @ [w], g_queued := g_queued ?g + 1,
           g_table := dict_set w x (g_table ?g)\<rparr>) s)\<lparr>s_waiting := s_waiting s @ [w]\<rparr>"
      using run False by (auto simp: acquire_start_def acquire_enter_def x_def)
    let ?g1 = "?g\<lparr>g_waiters := g_waiters ?g @ [w], g_queued := g_queued ?g + 1, g_table := dict_set w x (g_table ?g)\<rparr>"
    have st: "waiter_state v ?g1 = (if v = w then Some W_queued else waiter_state v ?g)" for v
      by (simp add: waiter_state_def x)
    have cl: "loop_closed d v ?g1 = loop_closed d v ?g" if "v \<noteq> w" for d v
      using that by (simp add: loop_closed_def)
    have "queue_ok ?g1" using q below st by (auto simp: queue_ok_def)
    moreover have "count_state W_granted ?g1 = count_state W_granted ?g"
      using fresh_w(1) x by (simp add: count_state_def dict_set_fresh)
    ultimately have "group_ok (held (s_permits s)) ?g1" using g by (simp add: group_ok_def)
    moreover have "tasks_ok (s_waiting s @ [w]) (s_permits s) (s_dead s) ?g1"
      using ok notw fresh_w(2) st cl by (auto simp: sys_ok_def tasks_ok_def waiting_state_def)
    moreover have "log_ok (s_log s) ?g1"
      using ok below fresh_w(3) by (auto simp: sys_ok_def log_ok_def sorted_wrt_append)
    ultimately show ?thesis using ok by (simp add: s' sys_ok_def same_policy_def)
  qed
qed

text \<open>A waiter that leaves the waiting state with its slot: the slot moves to the permit.\<close>

lemma group_ok_leave:
  assumes "group_ok h g" and "waiter_state w g = Some W_granted" and "st \<noteq> W_granted" "st \<noteq> W_queued"
  shows "group_ok (Suc h) (set_state w st g)"
proof -
  have q: "queue_ok g" and d: "distinct (dict_keys (g_table g))" using assms(1) by (auto simp: group_ok_def queue_ok_def)
  have "queue_ok (set_state w st g)" using q assms(2,4) by (auto simp: queue_ok_def waiter_state_set_state)
  moreover have "int (count_state W_granted (set_state w st g)) = int (count_state W_granted g) - 1"
    using count_set_state [OF d assms(2), of W_granted st] assms(3) by simp
  ultimately show ?thesis using assms(1) by (simp add: group_ok_def)
qed

lemma tasks_ok_leave:
  assumes "tasks_ok waiting permits dead g" and "st \<noteq> W_granted" "st \<noteq> W_queued" and "waiter_state w g \<noteq> None"
  shows "tasks_ok (remove1 w waiting) permits dead (set_state w st g)"
proof -
  have "set (remove1 w waiting) = set waiting - {w}" using assms(1) by (simp add: tasks_ok_def)
  with assms show ?thesis by (auto simp: tasks_ok_def waiting_state_def waiter_state_set_state)
qed

lemma log_ok_set_state [simp]: "log_ok adms (set_state w st g) = log_ok adms g"
  by (simp add: log_ok_def)

lemma progress_set_state: "progress dead g grants g' \<Longrightarrow> same_policy g (set_state w st g')"
  by (simp add: progress_def same_policy_def)

definition run_on :: "sys \<Rightarrow> sys \<Rightarrow> bool" where
  "run_on s s' \<longleftrightarrow> (\<exists>adms. s_log s' = s_log s @ adms \<and> (\<forall>x \<in> set adms. g_cool (s_group s) \<le> snd x)) \<and>
     g_max (s_group s') = g_max (s_group s) \<and> g_interval (s_group s') = g_interval (s_group s) \<and>
     g_max_cooldown (s_group s') = g_max_cooldown (s_group s) \<and> g_cool (s_group s) \<le> g_cool (s_group s')"

lemma run_onI:
  "s_log s' = s_log s @ adms \<Longrightarrow> (\<forall>x \<in> set adms. g_cool (s_group s) \<le> snd x) \<Longrightarrow> same_policy (s_group s) (s_group s') \<Longrightarrow> run_on s s'"
  by (auto simp: run_on_def same_policy_def)

lemma wait_round_alive:
  assumes ok: "sys_ok s" and w: "w \<in> set (s_waiting s)" "\<not> loop_closed (s_dead s) w (s_group s)"
    and run: "wait_round (s_dead s) clk w (s_group s) = (res, grants, g')"
  shows "\<exists>g1. group_ok (held (s_permits s)) g1 \<and> progress (s_dead s) (s_group s) grants g1 \<and>
    ((res = Acquired \<and> waiter_state w g1 = Some W_granted \<and> g' = set_state w W_acquired g1) \<or>
     (\<exists>d. res = Sleep d \<and> g' = set_wakeup w False g1))"
proof -
  have g: "group_ok (held (s_permits s)) (s_group s)" using ok by (simp add: sys_ok_def)
  obtain n g1 where p: "pump (s_dead s) clk 0 (s_group s) = (grants, n, g1)"
    using run by (auto simp: wait_round_def Let_def split: prod.splits if_splits list.splits)
  from pump_ok [OF g p] have g1: "group_ok (held (s_permits s)) g1" "progress (s_dead s) (s_group s) grants g1" by auto
  have "tasks_ok (s_waiting s) (s_permits s) (s_dead s) g1"
    using tasks_ok_progress [OF _ g1(2) group_ok_queue [OF g]] ok by (simp add: sys_ok_def)
  moreover have "\<not> loop_closed (s_dead s) w g1" using w(2) g1(2) by (auto simp: progress_def drains_def)
  ultimately have "waiter_state w g1 = Some W_queued \<or> waiter_state w g1 = Some W_granted"
    using w(1) by (auto simp: tasks_ok_def waiting_state_def)
  then have "waiter_state w g1 = Some W_granted \<or> g_waiters g1 \<noteq> []"
    using g1(1) by (auto simp: group_ok_def queue_ok_def)
  with run p g1 show ?thesis
    by (intro exI [of _ g1]) (auto simp: wait_round_def Let_def split: if_splits list.splits)
qed

lemma acquire_resume_ok:
  assumes ok: "sys_ok s" and w: "w \<in> set (s_waiting s)" "\<not> loop_closed (s_dead s) w (s_group s)"
    and run: "acquire_resume observed clk w s = (r, s')"
  shows "sys_ok s' \<and> run_on s s' \<and> (r = None \<or> r = Some observed)"
proof -
  obtain res grants g' where wr: "wait_round (s_dead s) clk w (s_group s) = (res, grants, g')" by (metis prod_cases3)
  from wait_round_alive [OF ok w wr] obtain g1 where g1: "group_ok (held (s_permits s)) g1"
    and pr: "progress (s_dead s) (s_group s) grants g1"
    and res: "(res = Acquired \<and> waiter_state w g1 = Some W_granted \<and> g' = set_state w W_acquired g1) \<or>
     (\<exists>d. res = Sleep d \<and> g' = set_wakeup w False g1)" by blast
  have tasks: "tasks_ok (s_waiting s) (s_permits s) (s_dead s) g1" and lg: "log_ok (s_log s @ grants) g1"
    using tasks_ok_progress [OF _ pr] log_ok_progress [OF _ pr] ok by (auto simp: sys_ok_def group_ok_def)
  have dist: "distinct (dict_keys (s_permits s))" using ok by (simp add: sys_ok_def)
  have pol: "same_policy (s_group s) g1" and cool: "\<forall>x \<in> set grants. g_cool (s_group s) \<le> snd x"
    using pr by (auto simp: progress_def)
  from res show ?thesis
  proof
    assume acq: "res = Acquired \<and> waiter_state w g1 = Some W_granted \<and> g' = set_state w W_acquired g1"
    let ?s = "(put_group grants g' s)\<lparr>s_waiting := remove1 w (s_waiting s)\<rparr>"
    obtain r1 s1 where pw: "permit_with_observation observed clk w ?s = (r1, s1)" by fastforce
    with run wr acq have s': "s' = s1" "r = Some r1" by (auto simp: acquire_resume_def)
    have g': "group_ok (Suc (held (s_permits s))) g'" using group_ok_leave [OF g1, of w W_acquired] acq by simp
    have t': "tasks_ok (remove1 w (s_waiting s)) (s_permits s) (s_dead s) g'"
      using tasks_ok_leave [OF tasks, of W_acquired w] acq by simp
    have neww: "w \<notin> set (dict_keys (s_permits s))" "w \<notin> set (remove1 w (s_waiting s))"
      using ok w(1) by (auto simp: sys_ok_def tasks_ok_def)
    from sys_ok_issue [OF _ _ _ _ _ _ pw] dist g' t' lg neww acq obtain more where
      s1: "sys_ok s1" "s_log s1 = s_log s @ grants @ more" "progress (s_dead s) g' more (s_group s1)" "r1 = observed"
      by auto
    have "same_policy (s_group s) (s_group s1)" using s1(3) pol acq by (auto simp: progress_def same_policy_def)
    moreover have "\<forall>x \<in> set (grants @ more). g_cool (s_group s) \<le> snd x"
      using s1(3) cool pol acq by (auto simp: progress_def same_policy_def)
    ultimately have "run_on s s1" using s1(2) by (intro run_onI [of s1 s "grants @ more"]) simp_all
    then show ?thesis using s1 by (simp add: s')
  next
    assume "\<exists>d. res = Sleep d \<and> g' = set_wakeup w False g1"
    then have s': "s' = put_group grants (set_wakeup w False g1) s" "r = None"
      using run wr by (auto simp: acquire_resume_def)
    have "queue_ok (set_wakeup w False g1)" using g1 by (simp add: group_ok_def queue_ok_def)
    then have "group_ok (held (s_permits s)) (set_wakeup w False g1)"
      using g1 by (simp add: group_ok_def queue_ok_def)
    moreover have "tasks_ok (s_waiting s) (s_permits s) (s_dead s) (set_wakeup w False g1)"
      using tasks by (simp add: tasks_ok_def waiting_state_def)
    moreover have "run_on s s'" using cool pol by (intro run_onI [of _ _ grants]) (simp_all add: s' same_policy_def)
    ultimately show ?thesis using dist lg by (simp add: s' sys_ok_def log_ok_def)
  qed
qed

text \<open>Removing a queued waiter from the middle of the queue.\<close>

lemma group_ok_cancel_queued:
  assumes ok: "group_ok h g" and w: "waiter_state w g = Some W_queued"
  shows "group_ok h (set_state w W_cancelled (g\<lparr>g_queued := g_queued g - 1, g_waiters := remove1 w (g_waiters g)\<rparr>))"
    (is "group_ok h (set_state w W_cancelled ?g)")
proof -
  have q: "queue_ok g" and mem: "w \<in> set (g_waiters g)" and d: "distinct (dict_keys (g_table ?g))"
    and w': "waiter_state w ?g = Some W_queued"
    using ok w by (auto simp: group_ok_def queue_ok_def)
  have "int (length (remove1 w (g_waiters g))) = int (length (g_waiters g)) - 1"
    using mem by (simp add: length_remove1) (metis One_nat_def Suc_leI length_pos_if_in_set of_nat_1 of_nat_diff)
  then have "queue_ok (set_state w W_cancelled ?g)"
    using q w unfolding queue_ok_def by (auto simp: waiter_state_set_state)
  moreover have "count_state W_granted (set_state w W_cancelled ?g) = count_state W_granted g"
    using count_set_state [OF d w', of W_granted W_cancelled] by simp
  ultimately show ?thesis using ok by (simp add: group_ok_def)
qed

lemma sorted_wrt_remove1: "sorted_wrt P ys \<Longrightarrow> sorted_wrt P (remove1 w ys)"
  by (induction ys) (auto dest: subsetD [OF set_remove1_subset])

lemma sorted_wrt_append_remove1: "sorted_wrt P (xs @ ys) \<Longrightarrow> sorted_wrt P (xs @ remove1 w ys)"
  by (auto simp: sorted_wrt_append sorted_wrt_remove1 dest: subsetD [OF set_remove1_subset])

lemma acquire_abort_ok:
  assumes ok: "sys_ok s" and w: "w \<in> set (s_waiting s)" and run: "acquire_abort err clk w s = (r, s')"
  shows "sys_ok s' \<and> run_on s s' \<and> r = Inl err"
proof -
  let ?g = "s_group s" and ?d = "s_dead s" and ?h = "held (s_permits s)"
  have g: "group_ok ?h ?g" and t: "tasks_ok (s_waiting s) (s_permits s) ?d ?g" and l: "log_ok (s_log s) ?g"
    and dist: "distinct (dict_keys (s_permits s))" using ok by (auto simp: sys_ok_def)
  have fin: ?thesis
    if g1: "group_ok ?h g1" and t1: "tasks_ok (remove1 w (s_waiting s)) (s_permits s) ?d g1" and l1: "log_ok (s_log s) g1"
      and pol: "same_policy ?g g1" and pr: "progress ?d g1 grants g2" and g2: "group_ok ?h g2"
      and s': "s' = (put_group grants g2 s)\<lparr>s_waiting := remove1 w (s_waiting s)\<rparr>" and r: "r = Inl err" for g1 g2 grants
  proof -
    have "run_on s s'" using pr pol by (intro run_onI [of _ _ grants]) (auto simp: s' progress_def same_policy_def)
    with dist g2 tasks_ok_progress [OF t1 pr group_ok_queue [OF g1]] log_ok_progress [OF l1 pr] r
    show ?thesis by (simp add: s' sys_ok_def)
  qed
  from t w have "waiting_state ?d w ?g" by (simp add: tasks_ok_def)
  then consider "waiter_state w ?g = Some W_queued" | "waiter_state w ?g = Some W_granted"
    | "waiter_state w ?g = Some W_cancelled" by (auto simp: waiting_state_def)
  then show ?thesis
  proof cases
    case 1
    let ?g1 = "set_state w W_cancelled (?g\<lparr>g_queued := g_queued ?g - 1, g_waiters := remove1 w (g_waiters ?g)\<rparr>)"
    have "tasks_ok (s_waiting s) (s_permits s) ?d (?g\<lparr>g_queued := g_queued ?g - 1, g_waiters := remove1 w (g_waiters ?g)\<rparr>)"
      using t by (simp add: tasks_ok_def waiting_state_def)
    from tasks_ok_leave [OF this, of W_cancelled w] 1 have t1: "tasks_ok (remove1 w (s_waiting s)) (s_permits s) ?d ?g1" by simp
    have l1: "log_ok (s_log s) ?g1"
      using l sorted_wrt_append_remove1 by (auto simp: log_ok_def)
    have pol: "same_policy ?g ?g1" by (simp add: same_policy_def)
    note g1 = group_ok_cancel_queued [OF g 1]
    from wake_head_progress [OF g1, of ?d] have "group_ok ?h (wake_head ?d ?g1)" "progress ?d ?g1 [] (wake_head ?d ?g1)" by auto
    then show ?thesis using run 1
      by (intro fin [OF g1 t1 l1 pol, of "[]" "wake_head ?d ?g1"]) (auto simp: acquire_abort_def cancel_waiter_def)
  next
    case 2
    let ?g1 = "set_state w W_cancelled ?g"
    have g1: "group_ok (Suc ?h) ?g1" using group_ok_leave [OF g 2, of W_cancelled] by simp
    have t1: "tasks_ok (remove1 w (s_waiting s)) (s_permits s) ?d ?g1"
      using tasks_ok_leave [OF t, of W_cancelled w] 2 by simp
    obtain r0 g2 where rel: "release ?d clk ?g1 = (r0, g2)" by fastforce
    from release_ok [OF g1 rel] obtain grants where r0: "r0 = Inr grants" and g2: "group_ok ?h g2"
      and pr: "progress ?d ?g1 grants g2" by blast
    have s': "s' = (put_group grants g2 s)\<lparr>s_waiting := remove1 w (s_waiting s)\<rparr>" "r = Inl err"
      using run 2 rel r0 by (auto simp: acquire_abort_def cancel_waiter_def)
    have "run_on s s'" using pr by (intro run_onI [of _ _ grants]) (auto simp: s' progress_def same_policy_def)
    with dist g2 tasks_ok_progress [OF t1 pr group_ok_queue [OF g1]] log_ok_progress [OF _ pr, of "s_log s"] l s'
    show ?thesis by (simp add: sys_ok_def)
  next
    case 3
    have "tasks_ok (remove1 w (s_waiting s)) (s_permits s) ?d ?g"
      using t 3 by (auto simp: tasks_ok_def)
    with 3 run show ?thesis
      by (intro fin [OF g _ l, of "[]" ?g]) (auto simp: acquire_abort_def cancel_waiter_def g)
  qed
qed

lemma validated_positive: "validated_positive_option v = Inr (Some r) \<Longrightarrow> 0 < r"
  by (auto simp: validated_positive_option_def split: num_arg.splits option.splits if_splits)

lemma permit_cooldown_ok:
  assumes ok: "sys_ok s" and run: "permit_cooldown now delay p s = (r, s')"
  shows "sys_ok s' \<and> run_on s s'"
proof -
  have same: ?thesis if "s' = s" using ok that by (auto simp: run_on_def)
  consider "s' = s" | d cap where "dict_get (s_permits s) p = Some False" "validated_positive_option delay = Inr (Some d)"
    "g_max_cooldown (s_group s) = Some cap"
    "s' = s\<lparr>s_group := wake_head (s_dead s) ((s_group s)\<lparr>g_cool := max (g_cool (s_group s)) (now + min d cap)\<rparr>)\<rparr>"
    using run by (auto simp: permit_cooldown_def cooldown_def split: if_splits sum.splits option.splits)
  then show ?thesis
  proof cases
    case 2
    let ?g = "(s_group s)\<lparr>g_cool := max (g_cool (s_group s)) (now + min d cap)\<rparr>"
    have "queue_ok ?g" using ok by (simp add: sys_ok_def group_ok_def queue_ok_def)
    then have g: "group_ok (held (s_permits s)) ?g" using ok by (simp add: sys_ok_def group_ok_def)
    have t: "tasks_ok (s_waiting s) (s_permits s) (s_dead s) ?g" and l: "log_ok (s_log s) ?g"
      using ok by (simp_all add: sys_ok_def tasks_ok_def waiting_state_def log_ok_def)
    from wake_head_progress [OF g, of "s_dead s"] have w: "group_ok (held (s_permits s)) (wake_head (s_dead s) ?g)"
      "progress (s_dead s) ?g [] (wake_head (s_dead s) ?g)" by auto
    have "run_on s s'" using w(2) by (simp add: 2 run_on_def progress_def same_policy_def)
    with ok w tasks_ok_progress [OF t w(2) group_ok_queue [OF g]] log_ok_progress [OF l w(2)] show ?thesis
      by (simp add: 2 sys_ok_def)
  qed (rule same)
qed

lemma run_callback_fields:
  "g_waiters (run_callback g) = g_waiters g \<and> waiter_state v (run_callback g) = waiter_state v g \<and>
   loop_closed d v (run_callback g) = loop_closed d v g \<and> g_active (run_callback g) = g_active g \<and>
   g_max (run_callback g) = g_max g \<and> g_queued (run_callback g) = g_queued g \<and> g_next (run_callback g) = g_next g \<and>
   g_interval (run_callback g) = g_interval g \<and> g_max_cooldown (run_callback g) = g_max_cooldown g \<and> g_cool (run_callback g) = g_cool g \<and>
   dict_keys (g_table (run_callback g)) = dict_keys (g_table g) \<and>
   (distinct (dict_keys (g_table g)) \<longrightarrow> count_state st (run_callback g) = count_state st g)"
  by (simp add: run_callback_def deliver_grant_def split: list.splits callback.splits)

lemma adm_step_ok: "adm_step s s' \<Longrightarrow> sys_ok s \<Longrightarrow> sys_ok s' \<and> run_on s s'"
proof (induction rule: adm_step.induct)
  case (Start s w observed clk loop started now r s')
  then show ?case using acquire_start_ok [OF Start.prems Start.hyps] by (auto intro: run_onI)
next
  case (Resume w s observed clk r' s')
  then show ?case using acquire_resume_ok [OF Resume.prems Resume.hyps] by blast
next
  case (Abort w s err clk r'' s')
  then show ?case using acquire_abort_ok [OF Abort.prems Abort.hyps] by blast
next
  case (Release clk p s r'' s')
  then show ?case using permit_release_ok [OF Release.prems Release.hyps]
    by (auto simp: progress_def intro: run_onI)
next
  case (Cooldown now delay p s r'' s')
  then show ?case using permit_cooldown_ok [OF Cooldown.prems Cooldown.hyps] by blast
next
  case (Callback s)
  then show ?case
    by (simp add: sys_ok_def group_ok_def queue_ok_def tasks_ok_def waiting_state_def log_ok_def run_on_def
        run_callback_fields del: set_map)
next
  case (Close_loop s l)
  have "loop_closed (l # d) w g" if "loop_closed d w g" for d w g
    using that by (auto simp: loop_closed_def split: option.splits)
  then show ?case using Close_loop by (auto simp: sys_ok_def tasks_ok_def waiting_state_def run_on_def)
qed

abbreviation adm_steps :: "sys \<Rightarrow> sys \<Rightarrow> bool" where
  "adm_steps \<equiv> adm_step\<^sup>*\<^sup>*"

lemma run_on_trans: "run_on s s1 \<Longrightarrow> run_on s1 s2 \<Longrightarrow> run_on s s2"
  by (fastforce simp: run_on_def)

lemma adm_steps_ok:
  assumes "adm_steps s s'" and "sys_ok s"
  shows "sys_ok s' \<and> run_on s s'"
  using assms
proof (induction rule: rtranclp_induct)
  case base
  then show ?case by (simp add: run_on_def)
next
  case (step s1 s2)
  then show ?case using adm_step_ok [OF step.hyps(2)] run_on_trans by blast
qed

lemma sys_ok_init: "0 \<le> m \<Longrightarrow> sys_ok (sys_init (group_init identity display m rps max_cooldown))"
  by (simp add: sys_ok_def sys_init_def group_init_def group_ok_def queue_ok_def count_state_def held_def
      tasks_ok_def log_ok_def waiter_state_def)

lemma adm_reach_ok: "0 \<le> m \<Longrightarrow> adm_steps (sys_init (group_init identity display m rps max_cooldown)) s \<Longrightarrow>
   sys_ok s \<and> run_on (sys_init (group_init identity display m rps max_cooldown)) s"
  using adm_steps_ok sys_ok_init by blast

section \<open>A sample run\<close>

text \<open>One slot, one request per second: call 1 is admitted at time 0, call 2 has to wait.\<close>

definition ex_group :: group where
  "ex_group = group_init ''named:x'' ''x'' 1 (Some 1) (Some 10)"

definition ex_s1 :: sys where
  "ex_s1 = snd (acquire_start (Inr ()) (\<lambda>_. 0) 1 7 0 0 (sys_init ex_group))"

definition ex_s2 :: sys where
  "ex_s2 = snd (acquire_start (Inr ()) (\<lambda>_. 0) 2 7 0 0 ex_s1)"

definition ex_waiter :: waiter where
  "ex_waiter = \<lparr>w_loop = 7, w_wakeup = False, w_queued_at = 0, w_queue_depth = 1, w_state = W_queued\<rparr>"

lemma ex_s1_eval: "ex_s1 = \<lparr>s_group = ex_group\<lparr>g_active := 1, g_next := 1\<rparr>, s_permits = [(1, False)], s_waiting = [],
    s_dead = [], s_log = [(1, 0)]\<rparr>"
  by (simp add: ex_s1_def acquire_start_def acquire_enter_def ex_group_def group_init_def sys_init_def
      not_before_def permit_with_observation_def put_group_def)

lemma ex_s2_eval: "ex_s2 = \<lparr>s_group = ex_group\<lparr>g_active := 1, g_next := 1, g_queued := 1, g_waiters := [2],
      g_table := [(2, ex_waiter)]\<rparr>, s_permits = [(1, False)], s_waiting = [2], s_dead = [], s_log = [(1, 0)]\<rparr>"
  by (simp add: ex_s2_def ex_s1_eval acquire_start_def acquire_enter_def ex_group_def group_init_def
      put_group_def ex_waiter_def)

lemma ex_steps: "adm_steps (sys_init (group_init ''named:x'' ''x'' 1 (Some 1) (Some 10))) ex_s2"
proof -
  have "adm_step (sys_init ex_group) ex_s1"
    by (rule Start [of "sys_init ex_group" 1 "Inr ()" "\<lambda>_. 0" 7 0 0 "fst (acquire_start (Inr ()) (\<lambda>_. 0) 1 7 0 0 (sys_init ex_group))"])
       (simp_all add: ex_s1_def sys_init_def ex_group_def group_init_def)
  moreover have "adm_step ex_s1 ex_s2"
    by (rule Start [of ex_s1 2 "Inr ()" "\<lambda>_. 0" 7 0 0 "fst (acquire_start (Inr ()) (\<lambda>_. 0) 2 7 0 0 ex_s1)"])
       (simp_all add: ex_s2_def, simp add: ex_s1_eval ex_group_def group_init_def)
  ultimately show ?thesis unfolding ex_group_def by (meson converse_rtranclp_into_rtranclp rtranclp.rtrancl_refl)
qed

section \<open>Properties\<close>

text \<open>C3: In every reachable state of an admission group at most \<^verbatim>\<open>max_in_flight\<close> calls are in
  flight and the counters tell the truth: \<^verbatim>\<open>active\<close> is the number of permits not yet released
  plus the grants not yet claimed, \<^verbatim>\<open>queued\<close> the length of the queue, and the queue holds, once each,
  exactly the waiters whose state is queued. Every call that still waits is queued, or has a grant to claim, or was
  cancelled because its event loop is closed. So neither a slot nor a waiting call is lost; with every permit
  released and nobody waiting, \<^verbatim>\<open>active\<close> is zero.\<close>

theorem admission_accounting:
  assumes "0 \<le> m" and "adm_steps (sys_init (group_init identity display m rps max_cooldown)) s"
  shows "0 \<le> g_active (s_group s) \<and> g_active (s_group s) \<le> m \<and>
    g_active (s_group s) = int (held (s_permits s)) + int (count_state W_granted (s_group s)) \<and>
    g_queued (s_group s) = int (length (g_waiters (s_group s))) \<and>
    distinct (g_waiters (s_group s)) \<and> set (g_waiters (s_group s)) \<subseteq> set (s_waiting s) \<and>
    (\<forall>w. w \<in> set (g_waiters (s_group s)) \<longleftrightarrow> waiter_state w (s_group s) = Some W_queued) \<and>
    (\<forall>w \<in> set (s_waiting s). w \<in> set (g_waiters (s_group s)) \<or> waiter_state w (s_group s) = Some W_granted \<or>
       waiter_state w (s_group s) = Some W_cancelled \<and> loop_closed (s_dead s) w (s_group s)) \<and>
    (s_waiting s = [] \<and> (\<forall>p. dict_get (s_permits s) p \<noteq> Some False) \<longrightarrow> g_active (s_group s) = 0)"
proof -
  from adm_reach_ok [OF assms] have ok: "sys_ok s" and m: "g_max (s_group s) = m"
    by (auto simp: run_on_def sys_init_def group_init_def)
  have "count_state W_granted (s_group s) = 0" if "s_waiting s = []"
  proof -
    have none: "waiter_state w (s_group s) \<noteq> Some W_granted" for w using ok that by (simp add: sys_ok_def tasks_ok_def)
    have d: "distinct (dict_keys (g_table (s_group s)))" using ok by (simp add: sys_ok_def group_ok_def queue_ok_def)
    have "w_state x \<noteq> W_granted" if "(w, x) \<in> set (g_table (s_group s))" for w x
      using none [of w] map_of_is_SomeI [OF d that] by (simp add: waiter_state_def)
    then show ?thesis by (auto simp: count_state_def filter_empty_conv)
  qed
  moreover have "held (s_permits s) = 0" if "\<forall>p. dict_get (s_permits s) p \<noteq> Some False"
  proof -
    have "distinct (dict_keys (s_permits s))" using ok by (simp add: sys_ok_def)
    then have "r" if "(p, r) \<in> set (s_permits s)" for p r
      using that \<open>\<forall>p. dict_get (s_permits s) p \<noteq> Some False\<close> map_of_is_SomeI by (metis (full_types))
    then show ?thesis by (auto simp: held_def filter_empty_conv)
  qed
  ultimately show ?thesis using ok m by (auto simp: sys_ok_def group_ok_def queue_ok_def tasks_ok_def waiting_state_def)
qed

theorem admission_accounting_witness:
  "0 \<le> g_active (s_group ex_s2) \<and> g_active (s_group ex_s2) \<le> 1 \<and> s_waiting ex_s2 = [2]"
  using admission_accounting [OF _ ex_steps] by (simp add: ex_s2_eval)

text \<open>C12: Admission is first come, first served, and paced: in the order of admission the call
  numbers increase, so nobody overtakes a call that arrived earlier, and any two admissions are
  at least \<^verbatim>\<open>1 / requests_per_second\<close> apart per admission in between.\<close>

theorem admission_fifo_and_paced:
  assumes "0 \<le> m" and "adm_steps (sys_init (group_init identity display m rps max_cooldown)) s"
    and "\<forall>r. rps = Some r \<longrightarrow> 0 < r"
  shows "sorted_wrt (<) (map fst (s_log s)) \<and>
    (\<forall>a \<in> set (map fst (s_log s)). \<forall>w \<in> set (g_waiters (s_group s)). a < w) \<and>
    sorted_wrt (\<lambda>a b. a + (case rps of None \<Rightarrow> 0 | Some r \<Rightarrow> 1 / r) \<le> b) (map snd (s_log s))"
proof -
  from adm_reach_ok [OF assms(1,2)] have ok: "sys_ok s"
    and i: "g_interval (s_group s) = (case rps of None \<Rightarrow> 0 | Some r \<Rightarrow> 1 / r)"
    by (auto simp: run_on_def sys_init_def group_init_def)
  have pos: "0 \<le> g_interval (s_group s)" using assms(3) by (auto simp: i less_imp_le split: option.splits)
  from ok have "sorted_wrt (<) (map fst (s_log s) @ g_waiters (s_group s))"
    and "paced (g_interval (s_group s)) (map snd (s_log s)) (g_next (s_group s))"
    by (auto simp: sys_ok_def log_ok_def)
  with paced_sorted [OF pos] show ?thesis by (auto simp: sorted_wrt_append i)
qed

definition ex_s3 :: sys where
  "ex_s3 = snd (permit_release (\<lambda>n. 2) 1 ex_s2)"

lemma ex_s3_log: "s_log ex_s3 = [(1, 0), (2, 2)]"
  by (simp add: ex_s3_def ex_s2_eval permit_release_def release_def pump.simps grant_head_def wake_head_def
      ex_group_def group_init_def not_before_def set_state_def loop_closed_def ex_waiter_def put_group_def)

lemma ex_steps3: "adm_steps (sys_init (group_init ''named:x'' ''x'' 1 (Some 1) (Some 10))) ex_s3"
proof -
  have "adm_step ex_s2 ex_s3"
    by (rule Release [of "\<lambda>n. 2" 1 ex_s2 "fst (permit_release (\<lambda>n. 2) 1 ex_s2)"]) (simp add: ex_s3_def)
  with ex_steps show ?thesis by (meson rtranclp.rtrancl_into_rtrancl)
qed

theorem admission_fifo_and_paced_witness:
  "sorted_wrt (<) (map fst (s_log ex_s3)) \<and> sorted_wrt (\<lambda>a b. a + 1 \<le> b) (map snd (s_log ex_s3)) \<and>
   map fst (s_log ex_s3) = [1, 2]"
  using admission_fifo_and_paced [OF _ ex_steps3] by (simp add: ex_s3_log)

text \<open>A reported cooldown holds for everyone: after a live permit reports a delay, no call of
  the group is admitted before that delay, capped by \<^verbatim>\<open>max_cooldown\<close>, has passed, whatever
  happens in between; a shorter report later does not shorten it.\<close>

theorem cooldown_gates_admissions:
  assumes "0 \<le> m" and "adm_steps (sys_init (group_init identity display m rps (Some cap))) s"
    and "dict_get (s_permits s) p = Some False" and "validated_positive_option delay = Inr (Some d)"
    and "permit_cooldown now delay p s = (r, s1)" and "adm_steps s1 s2"
  shows "r = Inr () \<and> (\<exists>later. s_log s2 = s_log s @ later \<and> (\<forall>x \<in> set later. now + min d cap \<le> snd x))"
proof -
  from adm_reach_ok [OF assms(1,2)] have ok: "sys_ok s" and cap: "g_max_cooldown (s_group s) = Some cap"
    by (auto simp: run_on_def sys_init_def group_init_def)
  let ?g = "(s_group s)\<lparr>g_cool := max (g_cool (s_group s)) (now + min d cap)\<rparr>"
  have s1: "s1 = s\<lparr>s_group := wake_head (s_dead s) ?g\<rparr>" and r: "r = Inr ()"
    using assms(3-5) cap by (auto simp: permit_cooldown_def cooldown_def)
  have "queue_ok ?g" using ok by (simp add: sys_ok_def group_ok_def queue_ok_def)
  then have "group_ok (held (s_permits s)) ?g" using ok by (simp add: sys_ok_def group_ok_def)
  from wake_head_ok [OF this, of "s_dead s"] have "g_cool (s_group s1) = g_cool ?g"
    by (simp add: s1 same_policy_def)
  then have gate: "now + min d cap \<le> g_cool (s_group s1)" by simp
  have "sys_ok s1" using permit_cooldown_ok [OF ok assms(5)] by blast
  from adm_steps_ok [OF assms(6) this] obtain later where
    "s_log s2 = s_log s1 @ later" "\<forall>x \<in> set later. g_cool (s_group s1) \<le> snd x"
    by (auto simp: run_on_def)
  then show ?thesis using gate r by (fastforce simp: s1)
qed

definition ex_s4 :: sys where
  "ex_s4 = snd (permit_cooldown 1 (NInt 5) 1 ex_s2)"

definition ex_s5 :: sys where
  "ex_s5 = snd (permit_release (\<lambda>n. 6) 1 ex_s4)"

theorem cooldown_gates_admissions_witness:
  "\<exists>later. s_log ex_s5 = s_log ex_s2 @ later \<and> (\<forall>x \<in> set later. 6 \<le> snd x)"
proof -
  have "adm_step ex_s4 ex_s5"
    by (rule Release [of "\<lambda>n. 6" 1 ex_s4 "fst (permit_release (\<lambda>n. 6) 1 ex_s4)"]) (simp add: ex_s5_def)
  then have steps: "adm_steps ex_s4 ex_s5" by blast
  have live: "dict_get (s_permits ex_s2) 1 = Some False" by (simp add: ex_s2_eval)
  have d: "validated_positive_option (NInt 5) = Inr (Some 5)"
    by (simp add: validated_positive_option_def py_float_def double_limit_def)
  have run: "permit_cooldown 1 (NInt 5) 1 ex_s2 = (fst (permit_cooldown 1 (NInt 5) 1 ex_s2), ex_s4)"
    by (simp add: ex_s4_def)
  from cooldown_gates_admissions [OF _ ex_steps live d run steps] show ?thesis by simp
qed

lemma wake_head_from_calls:
  "ws = [] \<or> (\<exists>cs. g_waiters (wake_head_from dead ws g) = [] \<or>
     g_calls (wake_head_from dead ws g) = cs @ [SetWakeup (hd (g_waiters (wake_head_from dead ws g)))])"
proof (induction dead ws g rule: wake_head_from.induct)
  case (2 dead w ws g)
  then show ?case by (cases "ws = []") auto
qed simp

text \<open>C39: Releasing a permit serves the queue: it cannot underflow while the slot is accounted for,
  and it stops granting only when the queue is empty, every slot is taken, or the gate was closed
  at a reading of the clock; whoever is then at the head has a wake-up on its way.\<close>

theorem release_serves_queue:
  assumes "group_ok (Suc h) g" and "release dead clk g = (r, g')"
  shows "(\<exists>grants. r = Inr grants) \<and> group_ok h g' \<and>
    (g_waiters g' = [] \<or>
       ((g_active g' = g_max g' \<or> (\<exists>k. clk k < not_before g')) \<and>
        (\<exists>cs. g_calls g' = cs @ [SetWakeup (hd (g_waiters g'))])))"
proof -
  let ?g = "g\<lparr>g_active := g_active g - 1\<rparr>"
  have q: "queue_ok ?g" using assms(1) by (auto simp: group_ok_def queue_ok_def)
  have ok: "group_ok h ?g" using assms(1) q by (simp add: group_ok_def)
  obtain grants n g1 where p: "pump dead clk 0 ?g = (grants, n, g1)" by (metis prod_cases3)
  have "0 < g_active g" using assms(1) by (simp add: group_ok_def)
  with assms(2) p have r: "r = Inr grants" and g': "g' = wake_head dead g1" by (auto simp: release_def)
  from pump_ok [OF ok p] have g1: "group_ok h g1"
    and stop: "g_waiters g1 = [] \<or> g_active g1 = g_max g1 \<or> (\<exists>k. clk k < not_before g1)" by auto
  note w = wake_head_ok [OF g1, of dead]
  have "g_waiters g' = []" if "g_waiters g1 = []" using that by (simp add: g' wake_head_def)
  moreover have "not_before g' = not_before g1" "g_active g' = g_active g1" "g_max g' = g_max g1"
    using w by (auto simp: g' not_before_def same_policy_def)
  moreover have "g_waiters g' = [] \<or> (\<exists>cs. g_calls g' = cs @ [SetWakeup (hd (g_waiters g'))])"
    using wake_head_from_calls [of "g_waiters g1" dead g1] \<open>g_waiters g1 = [] \<Longrightarrow> g_waiters g' = []\<close>
    by (auto simp: g' wake_head_def)
  ultimately show ?thesis using stop w by (auto simp: r g')
qed

theorem release_serves_queue_witness:
  "\<exists>grants g'. release [] (\<lambda>n. 2) (s_group ex_s2) = (Inr grants, g') \<and> group_ok 0 g'"
proof -
  have "sys_ok ex_s2" using adm_reach_ok [OF _ ex_steps] by simp
  then have ok: "group_ok (Suc 0) (s_group ex_s2)" by (simp add: sys_ok_def ex_s2_eval held_def)
  obtain r g' where run: "release [] (\<lambda>n. 2) (s_group ex_s2) = (r, g')" by fastforce
  from release_serves_queue [OF ok run] run show ?thesis by auto
qed

text \<open>The error paths give every slot back: an observer that raises, a timeout or a
  cancellation ends the call with exactly that error, and giving a permit back never fails and
  has no effect the second time. A waiting call whose loop runs never finds its queue empty.\<close>

theorem acquire_error_paths:
  assumes "0 \<le> m" and "adm_steps (sys_init (group_init identity display m rps max_cooldown)) s"
  shows "(\<forall>clk p r s'. permit_release clk p s = (r, s') \<longrightarrow> r = Inr () \<and> (\<forall>clk2. permit_release clk2 p s' = (Inr (), s'))) \<and>
    (\<forall>w \<in> set (s_waiting s). \<forall>err clk r s'. acquire_abort err clk w s = (r, s') \<longrightarrow>
        r = Inl err \<and> w \<notin> set (s_waiting s') \<and>
        g_active (s_group s') = int (held (s_permits s)) + int (count_state W_granted (s_group s'))) \<and>
    (\<forall>w \<in> set (s_waiting s). \<not> loop_closed (s_dead s) w (s_group s) \<longrightarrow>
        (\<forall>observed clk r s'. acquire_resume observed clk w s = (r, s') \<longrightarrow> r = None \<or> r = Some observed))"
proof (intro conjI ballI allI impI)
  from adm_reach_ok [OF assms] have ok: "sys_ok s" by blast
  show "r = Inr ()" if "permit_release clk p s = (r, s')" for clk p r s'
    using permit_release_ok [OF ok that] by blast
  show "permit_release clk2 p s' = (Inr (), s')" if "permit_release clk p s = (r, s')" for clk p r s' clk2
  proof -
    have "dict_get (s_permits s') p \<noteq> Some False"
      using that by (auto simp: permit_release_def Let_def split: if_splits sum.splits prod.splits)
    then show ?thesis by (simp add: permit_release_def)
  qed
  fix w assume w: "w \<in> set (s_waiting s)"
  show "r = Inl err" if "acquire_abort err clk w s = (r, s')" for err clk r s'
    using acquire_abort_ok [OF ok w that] by blast
  show "w \<notin> set (s_waiting s')" if "acquire_abort err clk w s = (r, s')" for err clk r s'
    using that ok by (auto simp: acquire_abort_def sys_ok_def tasks_ok_def split: sum.splits prod.splits)
  show "g_active (s_group s') = int (held (s_permits s)) + int (count_state W_granted (s_group s'))"
    if "acquire_abort err clk w s = (r, s')" for err clk r s'
  proof -
    have "s_permits s' = s_permits s" using that by (auto simp: acquire_abort_def split: sum.splits prod.splits)
    then show ?thesis using acquire_abort_ok [OF ok w that] by (auto simp: sys_ok_def group_ok_def)
  qed
  show "r = None \<or> r = Some observed"
    if "\<not> loop_closed (s_dead s) w (s_group s)" "acquire_resume observed clk w s = (r, s')" for observed clk r s'
    using acquire_resume_ok [OF ok w that] by blast
qed

theorem acquire_error_paths_witness:
  "fst (acquire_abort AdmissionTimeoutError (\<lambda>n. 1) 2 ex_s2) = Inl AdmissionTimeoutError"
  using acquire_error_paths [OF _ ex_steps] by (simp add: ex_s2_eval) (metis prod.collapse)

lemma policy_validate_positive:
  assumes "policy_validate sha urlsplit api_base a = Inr p"
  shows "0 < p_max_in_flight p \<and> (\<forall>r. p_queue_timeout p = Some r \<longrightarrow> 0 < r) \<and>
    (\<forall>r. p_rps p = Some r \<longrightarrow> 0 < r) \<and> (\<forall>r. p_max_cooldown p = Some r \<longrightarrow> 0 < r)"
proof -
  obtain m t r c where "validated_limit (pa_max_in_flight a) = Inr (Some m)" "validated_positive_option (pa_queue_timeout a) = Inr t"
    "validated_positive_option (pa_requests_per_second a) = Inr r" "validated_positive_option (pa_max_cooldown a) = Inr c"
    and p: "p_max_in_flight p = m" "p_queue_timeout p = t" "p_rps p = r" "p_max_cooldown p = c"
    using assms unfolding policy_validate_def validated_timeout_def
    by (simp add: py_bind_Inr_iff split: option.splits) (elim exE conjE, auto simp: py_bind_Inr_iff)
  moreover have "0 < k" if "validated_limit v = Inr (Some k)" for v k
    using that by (auto simp: validated_limit_def split: num_arg.splits if_splits)
  ultimately show ?thesis unfolding p by (blast dest: validated_positive)
qed

text \<open>Wrappers that name the same group share it: a policy that is accepted has positive
  settings and leaves the registry with a group of exactly those settings under its identity (the
  one that was there, if any), touching no other group; joining again with the same settings
  gives the same group, with other settings it raises ValueError and changes nothing.\<close>

theorem policy_joins_shared_group:
  assumes run: "policy_init sha urlsplit api_base a reg = (Inr p, reg')"
  shows "0 < p_max_in_flight p \<and> (\<forall>r. p_rps p = Some r \<longrightarrow> 0 < r) \<and>
    (\<exists>g. dict_get reg' (p_identity p) = Some g \<and> g_max g = p_max_in_flight p \<and> g_rps g = p_rps p \<and>
       g_max_cooldown g = p_max_cooldown p \<and>
       (\<forall>g0. dict_get reg (p_identity p) = Some g0 \<longrightarrow> g = g0) \<and>
       (\<forall>i. i \<noteq> p_identity p \<longrightarrow> dict_get reg' i = dict_get reg i) \<and>
       policy_group p reg' = (Inr (Some g), reg') \<and>
       (\<forall>q. p_identity q = p_identity p \<longrightarrow>
          (p_max_in_flight q, p_rps q, p_max_cooldown q) \<noteq> (p_max_in_flight p, p_rps p, p_max_cooldown p) \<longrightarrow>
          policy_group q reg' = (Inl ValueError, reg')))"
proof -
  obtain res where val: "policy_validate sha urlsplit api_base a = Inr p" and grp: "policy_group p reg = (Inr res, reg')"
    using run by (auto simp: policy_init_def py_bind_Inr_iff split: sum.splits prod.splits)
  have "\<exists>g. dict_get reg' (p_identity p) = Some g \<and> g_max g = p_max_in_flight p \<and> g_rps g = p_rps p \<and>
    g_max_cooldown g = p_max_cooldown p \<and> (\<forall>g0. dict_get reg (p_identity p) = Some g0 \<longrightarrow> g = g0) \<and>
    (\<forall>i. i \<noteq> p_identity p \<longrightarrow> dict_get reg' i = dict_get reg i)"
  proof (cases "dict_get reg (p_identity p)")
    case None
    with grp show ?thesis by (auto simp: policy_group_def get_or_create_group_def group_init_def Let_def)
  next
    case (Some g0)
    with grp show ?thesis by (auto simp: policy_group_def get_or_create_group_def split: if_splits)
  qed
  then obtain g where g: "dict_get reg' (p_identity p) = Some g" "g_max g = p_max_in_flight p" "g_rps g = p_rps p"
    "g_max_cooldown g = p_max_cooldown p" "\<forall>g0. dict_get reg (p_identity p) = Some g0 \<longrightarrow> g = g0"
    "\<forall>i. i \<noteq> p_identity p \<longrightarrow> dict_get reg' i = dict_get reg i" by blast
  moreover have "policy_group p reg' = (Inr (Some g), reg')"
    using g(1-4) by (simp add: policy_group_def get_or_create_group_def)
  moreover have "policy_group q reg' = (Inl ValueError, reg')"
    if "p_identity q = p_identity p"
      "(p_max_in_flight q, p_rps q, p_max_cooldown q) \<noteq> (p_max_in_flight p, p_rps p, p_max_cooldown p)" for q
    using g(1-4) that by (auto simp: policy_group_def get_or_create_group_def)
  ultimately show ?thesis using policy_validate_positive [OF val] by blast
qed

definition ex_args :: "num_arg \<Rightarrow> policy_args" where
  "ex_args m = \<lparr>pa_max_in_flight = m, pa_concurrency_group = Some ''team-a'', pa_queue_timeout = NNone,
     pa_requests_per_second = NNone, pa_max_cooldown = NNone\<rparr>"

lemma ex_policy_run:
  "\<exists>p reg. policy_init id (\<lambda>_. undefined) None (ex_args (NInt 2)) [] = (Inr p, reg) \<and> p_max_in_flight p = 2"
  by (simp add: policy_init_def policy_validate_def ex_args_def validated_limit_def validated_timeout_def
      validated_positive_option_def finite_reciprocal_def named_group_identity_def is_group_label_def
      is_alnum_def is_label_char_def policy_group_def get_or_create_group_def Let_def)

theorem policy_joins_shared_group_witness:
  "\<exists>p reg g. policy_init id (\<lambda>_. undefined) None (ex_args (NInt 2)) [] = (Inr p, reg) \<and>
     policy_group p reg = (Inr (Some g), reg) \<and> g_max g = 2 \<and>
     policy_group (p\<lparr>p_max_in_flight := 3\<rparr>) reg = (Inl ValueError, reg)"
proof -
  from ex_policy_run obtain p reg where run: "policy_init id (\<lambda>_. undefined) None (ex_args (NInt 2)) [] = (Inr p, reg)"
    and two: "p_max_in_flight p = 2" by blast
  from policy_joins_shared_group [OF run] obtain g where g: "policy_group p reg = (Inr (Some g), reg)" "g_max g = 2"
    "\<forall>q. p_identity q = p_identity p \<longrightarrow>
          (p_max_in_flight q, p_rps q, p_max_cooldown q) \<noteq> (p_max_in_flight p, p_rps p, p_max_cooldown p) \<longrightarrow>
          policy_group q reg = (Inl ValueError, reg)"
    using two by auto
  have "policy_group (p\<lparr>p_max_in_flight := 3\<rparr>) reg = (Inl ValueError, reg)" using g(3) two by simp
  with run g show ?thesis by blast
qed

end
