(* ===== verification/Cooldown.thy ===== *)
theory Cooldown
  imports Admission
begin

text \<open>
  Overload feedback: \<^verbatim>\<open>src/nooa/unifiedllm/cooldown.py\<close> and \<^verbatim>\<open>_run_admitted_attempt\<close> of
  \<^verbatim>\<open>admission.py\<close>, which publishes it to the group of a permit.

  Exceptions live in a heap, since \<^verbatim>\<open>__cause__\<close> and \<^verbatim>\<open>__context__\<close> can form a cycle. A status is
  present when the attribute is an integer that is not a boolean. A header mapping is its list of
  entries with string names; a value that is not a string is \<open>None\<close>; a missing or non-mapping
  \<^verbatim>\<open>headers\<close> is \<open>None\<close>. The parser of HTTP dates (\<^verbatim>\<open>email.utils\<close>) is the argument
  \<open>parse_date\<close>, from the text to a timestamp in UTC; \<open>wall\<close> is the wall clock.
\<close>

section \<open>Reading Retry-After\<close>

type_synonym headers = "(string \<times> string option) list"

record chained =
  c_status :: "int option"
  c_response_status :: "int option"
  c_response_headers :: "headers option"
  c_headers :: "headers option"
  c_cause :: "nat option"
  c_context :: "nat option"
  c_suppress :: bool

type_synonym errors = "nat \<Rightarrow> chained"

definition overload_statuses :: "int list" where "overload_statuses = [429, 503, 529]"
definition max_error_chain :: nat where "max_error_chain = 8"

definition retry_after_header :: "headers option \<Rightarrow> bool \<times> string option" where
  "retry_after_header hs = (case hs of None \<Rightarrow> (False, None)
     | Some entries \<Rightarrow> (case find (\<lambda>(name, v). str_lower name = ''retry-after'') entries of
           None \<Rightarrow> (False, None) | Some (name, v) \<Rightarrow> (True, v)))"

definition chained_status :: "chained \<Rightarrow> int option" where
  "chained_status x = (case c_status x of Some s \<Rightarrow> Some s | None \<Rightarrow> c_response_status x)"

text \<open>The header of one exception: on its response, else on the exception itself.\<close>

definition own_header :: "chained \<Rightarrow> bool \<times> string option" where
  "own_header x = (case retry_after_header (c_response_headers x) of
     (True, v) \<Rightarrow> (True, v) | (False, _) \<Rightarrow> retry_after_header (c_headers x))"

definition next_error :: "chained \<Rightarrow> nat option" where
  "next_error x = (case c_cause x of Some c \<Rightarrow> Some c
     | None \<Rightarrow> if \<not> c_suppress x then c_context x else None)"

fun chain_header :: "errors \<Rightarrow> nat \<Rightarrow> nat option \<Rightarrow> nat list \<Rightarrow> string option" where
  "chain_header h 0 candidate seen = None"
| "chain_header h (Suc fuel) None seen = None"
| "chain_header h (Suc fuel) (Some e) seen =
     (if e \<in> set seen then None
      else (case chained_status (h e) of
        Some s \<Rightarrow>
          if s \<notin> set overload_statuses then None
          else (case own_header (h e) of
            (True, v) \<Rightarrow> v
          | (False, _) \<Rightarrow> chain_header h fuel (next_error (h e)) (e # seen))
      | None \<Rightarrow> chain_header h fuel (next_error (h e)) (e # seen)))"

definition is_overload :: "chained \<Rightarrow> bool" where
  "is_overload x = (case chained_status x of None \<Rightarrow> False | Some s \<Rightarrow> s \<in> set overload_statuses)"

definition error_retry_after :: "errors \<Rightarrow> nat \<Rightarrow> string option" where
  "error_retry_after h e = (if \<not> is_overload (h e) then None else chain_header h max_error_chain (Some e) [])"

definition delta_seconds :: "string \<Rightarrow> nat option" where
  "delta_seconds s = (if s \<noteq> [] \<and> list_all is_digit s then Some (fold (\<lambda>c a. a * 10 + digit_val c) s 0) else None)"

text \<open>\<^verbatim>\<open>_HTTP_DATE\<close>: the three date formats of HTTP, matched against the whole text.\<close>

definition day_names :: "string list" where
  "day_names = [''Mon'', ''Tue'', ''Wed'', ''Thu'', ''Fri'', ''Sat'', ''Sun'']"
definition long_day_names :: "string list" where
  "long_day_names = [''Monday'', ''Tuesday'', ''Wednesday'', ''Thursday'', ''Friday'', ''Saturday'', ''Sunday'']"
definition month_names :: "string list" where
  "month_names = [''Jan'', ''Feb'', ''Mar'', ''Apr'', ''May'', ''Jun'', ''Jul'', ''Aug'', ''Sep'', ''Oct'', ''Nov'', ''Dec'']"

datatype pat = Lit string | Digits nat | One_of "string list"

text \<open>The rests of the text after a match of the pattern at its start.\<close>

fun match_simple :: "pat \<Rightarrow> string \<Rightarrow> string list" where
  "match_simple (Lit l) s = (if take (length l) s = l then [drop (length l) s] else [])"
| "match_simple (Digits n) s = (if n \<le> length s \<and> list_all is_digit (take n s) then [drop n s] else [])"
| "match_simple (One_of ls) s = map (\<lambda>l. drop (length l) s) (filter (\<lambda>l. take (length l) s = l) ls)"

fun match_seq :: "pat list \<Rightarrow> string \<Rightarrow> bool" where
  "match_seq [] s = (s = [])"
| "match_seq (p # ps) s = list_ex (match_seq ps) (match_simple p s)"

definition clock_pat :: "pat list" where
  "clock_pat = [Digits 2, Lit '':'', Digits 2, Lit '':'', Digits 2]"

definition is_http_date :: "string \<Rightarrow> bool" where
  "is_http_date s =
     (match_seq ([One_of day_names, Lit '', '', Digits 2, Lit '' '', One_of month_names, Lit '' '', Digits 4, Lit '' '']
                 @ clock_pat @ [Lit '' GMT'']) s
      \<or> match_seq ([One_of long_day_names, Lit '', '', Digits 2, Lit ''-'', One_of month_names, Lit ''-'', Digits 2, Lit '' '']
                 @ clock_pat @ [Lit '' GMT'']) s
      \<or> match_seq ([One_of day_names, Lit '' '', One_of month_names, Lit ''  '', Digits 1, Lit '' '']
                 @ clock_pat @ [Lit '' '', Digits 4]) s
      \<or> match_seq ([One_of day_names, Lit '' '', One_of month_names, Lit '' '', Digits 2, Lit '' '']
                 @ clock_pat @ [Lit '' '', Digits 4]) s)"

definition retry_after_delay :: "(string \<Rightarrow> rat option) \<Rightarrow> rat \<Rightarrow> errors \<Rightarrow> nat \<Rightarrow> rat option" where
  "retry_after_delay parse_date wall h e =
     (case error_retry_after h e of
        None \<Rightarrow> None
      | Some raw \<Rightarrow>
          (let value = strip raw;
               delay = (case delta_seconds value of
                  Some n \<Rightarrow> Some (rat_of_nat n)
                | None \<Rightarrow> if \<not> is_http_date value then None else map_option (\<lambda>ts. ts - wall) (parse_date value))
           in case delay of
                None \<Rightarrow> None
              | Some d \<Rightarrow> if 0 < d \<and> d < double_limit then Some d else None))"

section \<open>Publishing the feedback\<close>

text \<open>
  \<^verbatim>\<open>_run_admitted_attempt\<close> on the permit \<open>p\<close> of a local group: what the provider call gave, and
  the system after the permit is returned. \<open>now\<close> is the clock at the report, \<open>clk\<close> at the release.
  \<open>Failed_exc\<close> is an \<^verbatim>\<open>Exception\<close>, \<open>Interrupted\<close> any other BaseException. \<open>extends\<close> says whether the
  permit implements \<^verbatim>\<open>cooldown\<close>; an error of the report is dropped.
\<close>

datatype 'v attempt = Answered 'v | Failed_exc nat | Interrupted

definition run_admitted_attempt :: "(string \<Rightarrow> rat option) \<Rightarrow> rat \<Rightarrow> errors \<Rightarrow> bool \<Rightarrow> rat \<Rightarrow> (nat \<Rightarrow> rat) \<Rightarrow> nat \<Rightarrow>
    'v attempt \<Rightarrow> sys \<Rightarrow> ('v attempt + py_error) \<times> sys" where
  "run_admitted_attempt parse_date wall h extends now clk p outcome s =
     (let s1 = (case outcome of
            Failed_exc e \<Rightarrow>
              if extends then
                (case retry_after_delay parse_date wall h e of
                   None \<Rightarrow> s | Some d \<Rightarrow> snd (permit_cooldown now (NFloat d) p s))
              else s
          | _ \<Rightarrow> s)
      in case permit_release clk p s1 of
           (Inl err, s2) \<Rightarrow> (Inr err, s2)
         | (Inr _, s2) \<Rightarrow> (Inl outcome, s2))"

section \<open>Properties\<close>

text \<open>The exceptions that the walk may visit: the k-th wrapped one.\<close>

fun chain_nth :: "errors \<Rightarrow> nat \<Rightarrow> nat \<Rightarrow> nat option" where
  "chain_nth h e 0 = Some e"
| "chain_nth h e (Suc k) = (case next_error (h e) of None \<Rightarrow> None | Some e' \<Rightarrow> chain_nth h e' k)"

definition silent :: "chained \<Rightarrow> bool" where
  "silent x \<longleftrightarrow> chained_status x = None \<or> (is_overload x \<and> \<not> fst (own_header x))"

lemma own_header_False: "own_header x = (False, v) \<Longrightarrow> v = None"
  by (auto simp: own_header_def retry_after_header_def split: option.splits prod.splits bool.splits)

lemma chain_header_Some:
  assumes "chain_header h fuel (Some e) seen = Some v"
  shows "\<exists>k < fuel. \<exists>x. chain_nth h e k = Some x \<and> is_overload (h x) \<and> own_header (h x) = (True, Some v) \<and>
    (\<forall>j < k. \<exists>y. chain_nth h e j = Some y \<and> silent (h y))"
  using assms
proof (induction fuel arbitrary: e seen)
  case (Suc fuel)
  show ?case
  proof (cases "is_overload (h e) \<and> fst (own_header (h e))")
    case True
    then have "own_header (h e) = (True, Some v)"
      using Suc.prems by (auto simp: is_overload_def split: if_splits option.splits prod.splits)
    with True have "chain_nth h e 0 = Some e \<and> is_overload (h e) \<and> own_header (h e) = (True, Some v)" by simp
    then show ?thesis by blast
  next
    case False
    with Suc.prems have sil: "silent (h e)" and rest: "chain_header h fuel (next_error (h e)) (e # seen) = Some v"
      by (auto simp: silent_def is_overload_def split: if_splits option.splits prod.splits bool.splits)
    then obtain e' where e': "next_error (h e) = Some e'"
      by (cases "next_error (h e)"; cases fuel) auto
    from Suc.IH rest e' obtain k x where k: "k < fuel" "chain_nth h e' k = Some x" "is_overload (h x)"
      "own_header (h x) = (True, Some v)" "\<forall>j < k. \<exists>y. chain_nth h e' j = Some y \<and> silent (h y)" by metis
    have "\<exists>y. chain_nth h e j = Some y \<and> silent (h y)" if "j < Suc k" for j
      using that k(5) sil e' by (cases j) auto
    with k e' show ?thesis by (intro exI [of _ "Suc k"] conjI exI [of _ x]) auto
  qed
qed simp

text \<open>Only a real overload slows the group down: a delay is positive and comes from the
  Retry-After text of an exception with status 429, 503 or 529 among the first eight of the chain
  (cycles included); the outermost error is itself such an overload, and every exception before
  the one read has no status or is an overload without that header.\<close>

theorem retry_after_only_from_overload:
  assumes "retry_after_delay parse_date wall h e = Some d"
  shows "0 < d \<and> is_overload (h e) \<and>
    (\<exists>k < 8. \<exists>x raw. chain_nth h e k = Some x \<and> is_overload (h x) \<and> own_header (h x) = (True, Some raw) \<and>
       (\<forall>j < k. \<exists>y. chain_nth h e j = Some y \<and> silent (h y)) \<and>
       (delta_seconds (strip raw) = Some (nat \<lfloor>d\<rfloor>) \<or>
        (is_http_date (strip raw) \<and> parse_date (strip raw) = Some (d + wall))))"
proof -
  from assms obtain raw where raw: "error_retry_after h e = Some raw" and d: "0 < d"
    and src: "delta_seconds (strip raw) = Some (nat \<lfloor>d\<rfloor>) \<or>
        (is_http_date (strip raw) \<and> parse_date (strip raw) = Some (d + wall))"
    by (auto simp: retry_after_delay_def Let_def split: option.splits if_splits)
  from raw have ov: "is_overload (h e)" and "chain_header h 8 (Some e) [] = Some raw"
    by (auto simp: error_retry_after_def max_error_chain_def split: if_splits)
  with chain_header_Some [of h 8 e "[]" raw] d src show ?thesis by blast
qed

definition ex_errors :: errors where
  "ex_errors n = (if n = 0
     then \<lparr>c_status = Some 429, c_response_status = None, c_response_headers = None, c_headers = None,
           c_cause = Some 1, c_context = None, c_suppress = True\<rparr>
     else \<lparr>c_status = Some 429, c_response_status = None, c_response_headers = Some [(''Retry-After'', Some ''5'')],
           c_headers = None, c_cause = Some 0, c_context = None, c_suppress = True\<rparr>)"

lemma ex_delay: "retry_after_delay (\<lambda>_. None) 0 ex_errors 0 = Some 5"
proof -
  have "str_lower ''Retry-After'' = ''retry-after''" by code_simp
  then have "error_retry_after ex_errors 0 = Some ''5''"
    by (simp add: error_retry_after_def is_overload_def ex_errors_def chained_status_def overload_statuses_def
        max_error_chain_def eval_nat_numeral own_header_def retry_after_header_def next_error_def)
  moreover have "strip ''5'' = ''5''" by (simp add: strip_def lstrip_def rstrip_def is_ws_def)
  moreover have "delta_seconds ''5'' = Some 5" by (simp add: delta_seconds_def is_digit_def digit_val_def)
  ultimately show ?thesis by (simp add: retry_after_delay_def double_limit_def)
qed

theorem retry_after_only_from_overload_witness:
  "0 < (5::rat) \<and> is_overload (ex_errors 0) \<and>
   (\<exists>k < 8. \<exists>x raw. chain_nth ex_errors 0 k = Some x \<and> own_header (ex_errors x) = (True, Some raw))"
  using retry_after_only_from_overload [OF ex_delay] by blast

text \<open>An admitted attempt always returns its slot, whether the provider answered, failed or was
  interrupted, and its own outcome is what the caller sees; an overload it reports closes the
  gate of the group for the reported time, capped, before anyone else gets the slot.\<close>

theorem admitted_attempt_releases:
  assumes ok: "sys_ok s" and live: "dict_get (s_permits s) p = Some False"
    and run: "run_admitted_attempt parse_date wall h extends now clk p outcome s = (r, s')"
  shows "r = Inl outcome \<and> dict_get (s_permits s') p = Some True \<and> sys_ok s' \<and>
    held (s_permits s) = Suc (held (s_permits s')) \<and>
    (\<forall>e d cap. outcome = Failed_exc e \<longrightarrow> extends \<longrightarrow> retry_after_delay parse_date wall h e = Some d \<longrightarrow>
       g_max_cooldown (s_group s) = Some cap \<longrightarrow>
       (\<exists>adms. s_log s' = s_log s @ adms \<and> (\<forall>x \<in> set adms. now + min d cap \<le> snd x)))"
proof -
  define s1 where "s1 = (case outcome of
            Failed_exc e \<Rightarrow>
              if extends then
                (case retry_after_delay parse_date wall h e of
                   None \<Rightarrow> s | Some d \<Rightarrow> snd (permit_cooldown now (NFloat d) p s))
              else s
          | _ \<Rightarrow> s)"
  have cool: "sys_ok (snd (permit_cooldown now delay p s)) \<and> s_permits (snd (permit_cooldown now delay p s)) = s_permits s \<and>
      s_log (snd (permit_cooldown now delay p s)) = s_log s" for delay
    using permit_cooldown_ok [OF ok, of now delay p "fst (permit_cooldown now delay p s)" "snd (permit_cooldown now delay p s)"]
    by (auto simp: permit_cooldown_def split: prod.splits)
  have s1: "sys_ok s1" "s_permits s1 = s_permits s" "s_log s1 = s_log s"
    using ok cool by (auto simp: s1_def split: attempt.splits option.splits)
  obtain r2 s2 where rel: "permit_release clk p s1 = (r2, s2)" by fastforce
  from permit_release_ok [OF s1(1) rel] obtain adms where r2: "r2 = Inr ()" and ok2: "sys_ok s2"
    and adms: "s_log s2 = s_log s @ adms" and pr: "progress (s_dead s1) (s_group s1) adms (s_group s2)"
    by (auto simp: s1(3))
  have s': "s' = s2" "r = Inl outcome"
    using run rel r2 by (auto simp: run_admitted_attempt_def s1_def [symmetric] Let_def)
  have perms: "s_permits s2 = dict_set p True (s_permits s)"
    using rel live s1(2) by (auto simp: permit_release_def Let_def split: sum.splits prod.splits)
  have "held (s_permits s) = Suc (held (s_permits s2))"
    using held_release [OF _ live] ok by (simp add: perms sys_ok_def)
  moreover have "\<exists>adms. s_log s' = s_log s @ adms \<and> (\<forall>x \<in> set adms. now + min d cap \<le> snd x)"
    if "outcome = Failed_exc e" "extends" and d: "retry_after_delay parse_date wall h e = Some d"
      and cap: "g_max_cooldown (s_group s) = Some cap" for e d cap
  proof -
    have "0 < d" using d by (auto simp: retry_after_delay_def Let_def split: option.splits if_splits)
    then have v: "validated_positive_option (NFloat d) = Inr (Some d)"
      by (simp add: validated_positive_option_def py_float_def)
    let ?g = "(s_group s)\<lparr>g_cool := max (g_cool (s_group s)) (now + min d cap)\<rparr>"
    have g1: "s_group s1 = wake_head (s_dead s) ?g"
      using that live v by (simp add: s1_def permit_cooldown_def cooldown_def)
    have "queue_ok ?g" using ok by (simp add: sys_ok_def group_ok_def queue_ok_def)
    then have "group_ok (held (s_permits s)) ?g" using ok by (simp add: sys_ok_def group_ok_def)
    from wake_head_ok [OF this, of "s_dead s"] have "now + min d cap \<le> g_cool (s_group s1)"
      by (simp add: g1 same_policy_def)
    with pr adms show ?thesis by (auto simp: s' progress_def intro: order_trans)
  qed
  ultimately show ?thesis using ok2 by (auto simp: s' perms)
qed

theorem admitted_attempt_releases_witness:
  "\<exists>s'. run_admitted_attempt (\<lambda>_. None) 0 ex_errors True 1 (\<lambda>_. 9) 1 (Failed_exc 0 :: nat attempt) ex_s2
      = (Inl (Failed_exc 0), s') \<and> dict_get (s_permits s') 1 = Some True"
proof -
  have ok: "sys_ok ex_s2" using adm_reach_ok [OF _ ex_steps] by simp
  have live: "dict_get (s_permits ex_s2) 1 = Some False" by (simp add: ex_s2_eval)
  obtain r s' where run: "run_admitted_attempt (\<lambda>_. None) 0 ex_errors True 1 (\<lambda>_. 9) 1 (Failed_exc 0 :: nat attempt) ex_s2
      = (r, s')" by fastforce
  from admitted_attempt_releases [OF ok live run] run show ?thesis by auto
qed

end
