(* ===== verification/Retry.thy ===== *)
theory Retry
  imports Complex_Main Py_Prelude
begin

text \<open>
  Retries of provider calls: \<^verbatim>\<open>src/nooa/unifiedllm/retry.py\<close> with the configuration of
  \<^verbatim>\<open>retry_config.py\<close>.

  An exception is described by what the code looks at: its classes (the method resolution order,
  each class with its module), the integer attributes \<^verbatim>\<open>status_code\<close> of itself and of its
  \<^verbatim>\<open>response\<close>, and its text. The outside world of a retry loop is the record \<open>world\<close>: what
  the n-th call returns, the n-th random number, what the callback raises, whether the n-th sleep
  is cancelled. Delays are exact rationals.
\<close>

section \<open>Exceptions and configuration\<close>

type_synonym py_class = "string \<times> string"   \<comment> \<open>module, name\<close>

record exc =
  x_mro :: "py_class list"
  x_status_code :: "int option"
  x_response_status :: "int option"
  x_text :: string

definition isinstance :: "exc \<Rightarrow> py_class \<Rightarrow> bool" where
  "isinstance e c = (c \<in> set (x_mro e))"

definition AdmissionError_class :: py_class where
  "AdmissionError_class = (''nooa.unifiedllm.admission'', ''AdmissionError'')"
definition EmptyContentError_class :: py_class where
  "EmptyContentError_class = (''nooa.unifiedllm.errors'', ''EmptyContentError'')"

record retry_config =
  max_retries :: int
  base_delay :: rat
  max_delay :: rat
  exponential_base :: rat
  jitter_factor :: rat
  rate_limit_extra_retries :: int
  rate_limit_base_delay :: rat
  rate_limit_backoff_base :: rat
  retryable_status_codes :: "int list"
  retryable_exceptions :: "py_class list"
  retry_on_empty_content :: bool

definition default_config :: retry_config where
  "default_config =
     \<lparr>max_retries = 3, base_delay = 1, max_delay = 60, exponential_base = 2, jitter_factor = 3 / 10,
      rate_limit_extra_retries = 3, rate_limit_base_delay = 3, rate_limit_backoff_base = 3,
      retryable_status_codes = [408, 429, 500, 502, 503, 504],
      retryable_exceptions = [(''builtins'', ''TimeoutError''), (''builtins'', ''ConnectionError'')],
      retry_on_empty_content = False\<rparr>"

section \<open>Which errors are retried\<close>

definition retryable_status_phrases :: "int \<Rightarrow> string list" where
  "retryable_status_phrases code =
     (if code = 500 then [''internal server error'', ''internalservererror'']
      else if code = 502 then [''bad gateway'', ''badgatewayerror'']
      else if code = 503 then [''service unavailable'', ''serviceunavailableerror'', ''server unavailable'']
      else if code = 504 then [''gateway timeout'', ''gateway time-out'']
      else [])"

definition endpoint_class_names :: "string list" where
  "endpoint_class_names =
     [''apiconnectionerror'', ''apitimeouterror'', ''connecterror'', ''connecttimeout'', ''connectionerror'',
      ''connectiontimeouterror'', ''networkerror'', ''readtimeout'', ''remoteprotocolerror'',
      ''serverdisconnectederror'', ''timeout'', ''timeouterror'', ''transporterror'', ''writeerror'', ''writetimeout'']"

definition endpoint_phrases :: "string list" where
  "endpoint_phrases =
     [''api connection error'', ''cannot connect'', ''can'' @ [CHR 0x27] @ ''t connect'', ''connection aborted'',
      ''connection closed'', ''connection reset'', ''connection refused'', ''connection terminated'',
      ''connection timed out'', ''endpoint not reachable'', ''failed to connect'', ''max retries exceeded'',
      ''name resolution'', ''network is unreachable'', ''not reachable'', ''nodename nor servname'',
      ''remote disconnected'', ''remote end closed'', ''server disconnected'',
      ''temporary failure in name resolution'', ''timed out'', ''timeout'', ''transport error'']"

definition connection_phrases :: "string list" where
  "connection_phrases = [''abort'', ''closed'', ''disconnect'', ''failed'', ''lost'', ''reset'', ''refused'',
     ''terminated'', ''timed out'', ''unreachable'']"

definition is_retryable_endpoint_error :: "exc \<Rightarrow> string \<Rightarrow> bool" where
  "is_retryable_endpoint_error e error_str =
     (list_ex (\<lambda>c. str_lower (snd c) \<in> set endpoint_class_names) (x_mro e)
      \<or> list_ex (\<lambda>ph. str_contains ph error_str) endpoint_phrases
      \<or> (str_contains ''connection'' error_str \<and> list_ex (\<lambda>ph. str_contains ph error_str) connection_phrases))"

definition structured_status :: "exc \<Rightarrow> int option" where
  "structured_status e = (case x_status_code e of Some s \<Rightarrow> Some s | None \<Rightarrow> x_response_status e)"

definition code_in_text :: "string \<Rightarrow> int \<Rightarrow> bool" where
  "code_in_text error_str code =
     (str_contains (''status '' @ int_str code) error_str
      \<or> list_ex (\<lambda>ph. str_contains ph error_str) (retryable_status_phrases code))"

text \<open>The pair is (retryable, rate limit).\<close>

definition is_retryable_error :: "exc \<Rightarrow> retry_config \<Rightarrow> bool \<times> bool" where
  "is_retryable_error e cfg =
     (let codes = retryable_status_codes cfg;
          limited = (if 429 \<in> set codes then (True, True) else (False, False)) in
      if isinstance e AdmissionError_class then (False, False)
      else if isinstance e EmptyContentError_class \<and> retry_on_empty_content cfg then (True, False)
      else case structured_status e of
        Some status \<Rightarrow>
          if status = 429 then limited
          else if status \<in> set codes then (True, False) else (False, False)
      | None \<Rightarrow>
          (let error_str = str_lower (x_text e) in
           if str_contains ''status 429'' error_str \<or> str_contains ''rate limit'' error_str then limited
           else if list_ex (code_in_text error_str) codes then (True, False)
           else if list_ex (isinstance e) (retryable_exceptions cfg) then (True, False)
           else if is_retryable_endpoint_error e error_str then (True, False)
           else (False, False)))"

definition calculate_delay :: "nat \<Rightarrow> retry_config \<Rightarrow> bool \<Rightarrow> rat \<Rightarrow> rat" where
  "calculate_delay attempt cfg is_rate_limit random =
     (let base = (if is_rate_limit then rate_limit_base_delay cfg else base_delay cfg);
          exp_base = (if is_rate_limit then rate_limit_backoff_base cfg else exponential_base cfg);
          delay = min (base * exp_base ^ attempt) (max_delay cfg)
      in delay + delay * jitter_factor cfg * random)"

section \<open>The retry loops\<close>

datatype 'v outcome = Returns 'v | Raises exc | Cancelled
datatype raised = R_exc exc | R_cancelled | R_runtime

record 'v world =
  calls :: "nat \<Rightarrow> 'v outcome"
  randoms :: "nat \<Rightarrow> rat"
  on_retry :: "int \<Rightarrow> exc \<Rightarrow> rat \<Rightarrow> exc option"
  sleep_cancelled :: "nat \<Rightarrow> bool"

datatype 'v event = Called nat | Notified int exc rat | Slept rat

text \<open>How many attempts an error of this kind gets before it is raised.\<close>

definition allowed :: "retry_config \<Rightarrow> bool \<Rightarrow> int" where
  "allowed cfg is_rate_limit =
     (if is_rate_limit then max_retries cfg + rate_limit_extra_retries cfg else max_retries cfg)"

definition max_total_attempts :: "retry_config \<Rightarrow> int" where
  "max_total_attempts cfg = max_retries cfg + 1 + rate_limit_extra_retries cfg"

text \<open>The loop of \<^verbatim>\<open>with_retry\<close>, from an attempt on; it returns the result and the events.\<close>

function retry_loop :: "retry_config \<Rightarrow> 'v world \<Rightarrow> nat \<Rightarrow> exc option \<Rightarrow> 'v event list \<Rightarrow> (raised + 'v) \<times> 'v event list" where
  "retry_loop cfg w attempt last_error tr =
     (if \<not> int attempt < max_total_attempts cfg
      then (Inl (case last_error of Some e \<Rightarrow> R_exc e | None \<Rightarrow> R_runtime), tr)
      else let tr1 = tr @ [Called attempt] in
        case calls w attempt of
          Returns v \<Rightarrow> (Inr v, tr1)
        | Cancelled \<Rightarrow> (Inl R_cancelled, tr1)
        | Raises e \<Rightarrow>
            (let (retryable, limited) = is_retryable_error e cfg in
             if \<not> retryable then (Inl (R_exc e), tr1)
             else if allowed cfg limited \<le> int attempt then (Inl (R_exc e), tr1)
             else let delay = calculate_delay attempt cfg limited (randoms w attempt);
                      tr2 = tr1 @ [Notified (int attempt + 1) e delay] in
               case on_retry w (int attempt + 1) e delay of
                 Some e' \<Rightarrow> (Inl (R_exc e'), tr2)
               | None \<Rightarrow>
                   if sleep_cancelled w attempt then (Inl R_cancelled, tr2)
                   else retry_loop cfg w (Suc attempt) (Some e) (tr2 @ [Slept delay])))"
  by pat_completeness auto
termination
  by (relation "measure (\<lambda>(cfg, w, attempt, l, tr). nat (max_total_attempts cfg - int attempt))") auto

declare retry_loop.simps [simp del]

definition with_retry :: "retry_config option \<Rightarrow> 'v world \<Rightarrow> (raised + 'v) \<times> 'v event list" where
  "with_retry cfg w = retry_loop (case cfg of None \<Rightarrow> default_config | Some c \<Rightarrow> c) w 0 None []"

text \<open>
  The loop of \<^verbatim>\<open>sync_retry\<close>: the same shape with a blocking sleep. A call that is cancelled there
  raises the same BaseException, which no handler of the loop catches.
\<close>

function sync_loop :: "retry_config \<Rightarrow> 'v world \<Rightarrow> nat \<Rightarrow> exc option \<Rightarrow> 'v event list \<Rightarrow> (raised + 'v) \<times> 'v event list" where
  "sync_loop cfg w attempt last_error tr =
     (if \<not> int attempt < max_total_attempts cfg
      then (Inl (case last_error of Some e \<Rightarrow> R_exc e | None \<Rightarrow> R_runtime), tr)
      else let tr1 = tr @ [Called attempt] in
        case calls w attempt of
          Returns v \<Rightarrow> (Inr v, tr1)
        | Cancelled \<Rightarrow> (Inl R_cancelled, tr1)
        | Raises e \<Rightarrow>
            (let (retryable, limited) = is_retryable_error e cfg in
             if \<not> retryable then (Inl (R_exc e), tr1)
             else if allowed cfg limited \<le> int attempt then (Inl (R_exc e), tr1)
             else let delay = calculate_delay attempt cfg limited (randoms w attempt);
                      tr2 = tr1 @ [Notified (int attempt + 1) e delay] in
               case on_retry w (int attempt + 1) e delay of
                 Some e' \<Rightarrow> (Inl (R_exc e'), tr2)
               | None \<Rightarrow> sync_loop cfg w (Suc attempt) (Some e) (tr2 @ [Slept delay])))"
  by pat_completeness auto
termination
  by (relation "measure (\<lambda>(cfg, w, attempt, l, tr). nat (max_total_attempts cfg - int attempt))") auto

declare sync_loop.simps [simp del]

definition sync_retry :: "retry_config option \<Rightarrow> 'v world \<Rightarrow> (raised + 'v) \<times> 'v event list" where
  "sync_retry cfg w = sync_loop (case cfg of None \<Rightarrow> default_config | Some c \<Rightarrow> c) w 0 None []"

section \<open>Lemmas\<close>

text \<open>The n-th call fails in a way that the loop answers with another attempt.\<close>

definition retried :: "retry_config \<Rightarrow> 'v world \<Rightarrow> nat \<Rightarrow> bool" where
  "retried cfg w n \<longleftrightarrow> (\<exists>e. calls w n = Raises e \<and> fst (is_retryable_error e cfg) \<and>
     int n < allowed cfg (snd (is_retryable_error e cfg)))"

definition quiet :: "'v world \<Rightarrow> bool" where
  "quiet w \<longleftrightarrow> (\<forall>n e d. on_retry w n e d = None) \<and> (\<forall>n. \<not> sleep_cancelled w n)"

definition result_of :: "'v outcome \<Rightarrow> raised + 'v" where
  "result_of c = (case c of Returns v \<Rightarrow> Inr v | Raises e \<Rightarrow> Inl (R_exc e) | Cancelled \<Rightarrow> Inl R_cancelled)"

definition call_count :: "'v event list \<Rightarrow> nat" where
  "call_count tr = length (filter (\<lambda>ev. case ev of Called _ \<Rightarrow> True | _ \<Rightarrow> False) tr)"

lemma call_count_append [simp]: "call_count (xs @ ys) = call_count xs + call_count ys"
  by (simp add: call_count_def)

lemma call_count_simps [simp]: "call_count [Called n] = 1" "call_count [Notified i e d] = 0" "call_count [Slept d] = 0" "call_count [] = 0"
  by (simp_all add: call_count_def)

lemma retried_bound: "retried cfg w n \<Longrightarrow> 0 \<le> rate_limit_extra_retries cfg \<Longrightarrow> int (Suc n) < max_total_attempts cfg"
  by (auto simp: retried_def allowed_def max_total_attempts_def split: if_splits)

lemma retry_loop_step:
  assumes "quiet w" and "int n < max_total_attempts cfg"
  shows "\<not> retried cfg w n \<Longrightarrow> retry_loop cfg w n l tr = (result_of (calls w n), tr @ [Called n])"
    and "retried cfg w n \<Longrightarrow> \<exists>e d. calls w n = Raises e \<and>
      retry_loop cfg w n l tr = retry_loop cfg w (Suc n) (Some e) (tr @ [Called n, Notified (int n + 1) e d, Slept d])"
  using assms
  by (auto simp: retry_loop.simps [of cfg w n] retried_def quiet_def result_of_def Let_def not_less
      split: outcome.splits prod.splits)

lemma retry_loop_result:
  assumes "quiet w" and "0 \<le> rate_limit_extra_retries cfg" and "int n < max_total_attempts cfg"
  shows "\<exists>k \<ge> n. (\<forall>j. n \<le> j \<and> j < k \<longrightarrow> retried cfg w j) \<and> \<not> retried cfg w k \<and> int k < max_total_attempts cfg \<and>
    fst (retry_loop cfg w n l tr) = result_of (calls w k) \<and>
    call_count (snd (retry_loop cfg w n l tr)) = call_count tr + (Suc k - n)"
  using assms
proof (induction "nat (max_total_attempts cfg - int n)" arbitrary: n l tr rule: less_induct)
  case less
  show ?case
  proof (cases "retried cfg w n")
    case False
    with retry_loop_step(1) [OF less.prems(1,3) False] less.prems(3) show ?thesis
      by (intro exI [of _ n]) auto
  next
    case True
    note b = retried_bound [OF True less.prems(2)]
    from retry_loop_step(2) [OF less.prems(1,3) True] obtain e d where
      step: "retry_loop cfg w n l tr = retry_loop cfg w (Suc n) (Some e) (tr @ [Called n, Notified (int n + 1) e d, Slept d])"
      by blast
    from less.hyps [of "Suc n" "Some e" "tr @ [Called n, Notified (int n + 1) e d, Slept d]"] b less.prems obtain k where
      k: "Suc n \<le> k" "\<forall>j. Suc n \<le> j \<and> j < k \<longrightarrow> retried cfg w j" "\<not> retried cfg w k" "int k < max_total_attempts cfg"
      "fst (retry_loop cfg w n l tr) = result_of (calls w k)"
      "call_count (snd (retry_loop cfg w n l tr))
         = call_count (tr @ [Called n, Notified (int n + 1) e d, Slept d]) + (Suc k - Suc n)"
      unfolding step by auto
    have "retried cfg w j" if "n \<le> j \<and> j < k" for j using that k(2) True by (cases "j = n") auto
    moreover have "call_count (tr @ [Called n, Notified (int n + 1) e d, Slept d]) = call_count tr + 1"
      by (simp add: call_count_def)
    ultimately show ?thesis using k by (intro exI [of _ k]) auto
  qed
qed

section \<open>Properties\<close>

text \<open>C32: A retry loop always ends, after at most \<^verbatim>\<open>max_retries + 1 + rate_limit_extra_retries\<close>
  calls, with the outcome of the first call that is not retried: its value, or its error. A call
  is retried exactly when it fails with a retryable error within the allowance of its kind.\<close>

theorem with_retry_outcome:
  assumes "quiet w" and "0 \<le> max_retries cfg" and "0 \<le> rate_limit_extra_retries cfg"
  shows "\<exists>k. (\<forall>j < k. retried cfg w j) \<and> \<not> retried cfg w k \<and>
    int k < max_retries cfg + 1 + rate_limit_extra_retries cfg \<and>
    fst (with_retry (Some cfg) w) = result_of (calls w k) \<and>
    call_count (snd (with_retry (Some cfg) w)) = Suc k"
  using retry_loop_result [OF assms(1,3), of 0 None "[]"] assms(2,3)
  by (auto simp: with_retry_def max_total_attempts_def)

definition ex_timeout :: exc where
  "ex_timeout = \<lparr>x_mro = [(''builtins'', ''TimeoutError'')], x_status_code = None, x_response_status = None, x_text = []\<rparr>"

definition ex_world :: "nat world" where
  "ex_world = \<lparr>calls = (\<lambda>n. if n = 0 then Raises ex_timeout else Returns 42), randoms = (\<lambda>_. 0),
     on_retry = (\<lambda>_ _ _. None), sleep_cancelled = (\<lambda>_. False)\<rparr>"

theorem with_retry_outcome_witness:
  "\<exists>k. fst (with_retry (Some default_config) ex_world) = result_of (calls ex_world k) \<and>
     (\<forall>j < k. retried default_config ex_world j) \<and> \<not> retried default_config ex_world k"
  using with_retry_outcome [of ex_world default_config]
  by (auto simp: quiet_def ex_world_def default_config_def)

text \<open>A failure that retrying cannot help is terminal: an admission error, and an error that
  carries a structured status outside the configured ones, is raised by the attempt that met it,
  whatever its text says; a structured status among the configured ones is retryable.\<close>

theorem terminal_errors_not_retried:
  assumes "quiet w" and "int n < max_total_attempts cfg" and "calls w n = Raises e"
    and "isinstance e AdmissionError_class \<or>
      (\<exists>status. structured_status e = Some status \<and> status \<notin> set (retryable_status_codes cfg) \<and>
        \<not> (isinstance e EmptyContentError_class \<and> retry_on_empty_content cfg))"
  shows "is_retryable_error e cfg = (False, False) \<and> retry_loop cfg w n l tr = (Inl (R_exc e), tr @ [Called n])"
proof -
  have no: "is_retryable_error e cfg = (False, False)"
    using assms(4) by (auto simp: is_retryable_error_def Let_def)
  then have "\<not> retried cfg w n" using assms(3) by (simp add: retried_def)
  from retry_loop_step(1) [OF assms(1,2) this] no assms(3) show ?thesis by (simp add: result_of_def)
qed

definition ex_auth :: exc where
  "ex_auth = \<lparr>x_mro = [(''openai'', ''AuthenticationError'')], x_status_code = Some 401, x_response_status = None,
     x_text = ''connection timed out''\<rparr>"

theorem terminal_errors_not_retried_witness:
  "retry_loop default_config (ex_world\<lparr>calls := \<lambda>n. Raises ex_auth\<rparr>) 0 None [] = (Inl (R_exc ex_auth), [Called 0])"
  using terminal_errors_not_retried [of "ex_world\<lparr>calls := \<lambda>n. Raises ex_auth\<rparr>" 0 default_config ex_auth None "[]"]
  by (simp add: quiet_def ex_world_def max_total_attempts_def default_config_def structured_status_def ex_auth_def
      isinstance_def EmptyContentError_class_def)

text \<open>The wait before the next attempt is never negative and at most \<^verbatim>\<open>max_delay\<close> plus the
  jitter share of it; without jitter it is the capped exponential, which never shrinks from one
  attempt to the next.\<close>

theorem calculate_delay_bounds:
  assumes "0 \<le> base_delay cfg" "0 \<le> rate_limit_base_delay cfg" "0 \<le> exponential_base cfg"
    "0 \<le> rate_limit_backoff_base cfg" "0 \<le> max_delay cfg" "0 \<le> jitter_factor cfg" and "0 \<le> r" "r < 1"
  shows "0 \<le> calculate_delay n cfg limited r \<and>
    calculate_delay n cfg limited r \<le> max_delay cfg * (1 + jitter_factor cfg) \<and>
    calculate_delay n cfg limited 0 \<le> max_delay cfg \<and>
    (1 \<le> exponential_base cfg \<and> 1 \<le> rate_limit_backoff_base cfg \<longrightarrow>
       calculate_delay n cfg limited 0 \<le> calculate_delay (Suc n) cfg limited 0)"
proof -
  define b where "b = (if limited then rate_limit_base_delay cfg else base_delay cfg)"
  define x where "x = (if limited then rate_limit_backoff_base cfg else exponential_base cfg)"
  have nn: "0 \<le> b" "0 \<le> x" using assms by (auto simp: b_def x_def)
  define d where "d = min (b * x ^ n) (max_delay cfg)"
  have d: "0 \<le> d" "d \<le> max_delay cfg" using nn assms by (auto simp: d_def)
  have cd: "calculate_delay n cfg limited r' = d + d * jitter_factor cfg * r'" for r'
    by (simp add: calculate_delay_def Let_def d_def b_def x_def)
  have jr: "jitter_factor cfg * r \<le> jitter_factor cfg" using mult_left_le [of r "jitter_factor cfg"] assms by simp
  have "d + d * jitter_factor cfg * r = d * (1 + jitter_factor cfg * r)" by (simp add: algebra_simps)
  also have "\<dots> \<le> max_delay cfg * (1 + jitter_factor cfg)"
    using d jr assms by (intro mult_mono) auto
  finally have up: "calculate_delay n cfg limited r \<le> max_delay cfg * (1 + jitter_factor cfg)" by (simp add: cd)
  have low: "0 \<le> calculate_delay n cfg limited r" using d assms by (simp add: cd)
  have "calculate_delay n cfg limited 0 \<le> calculate_delay (Suc n) cfg limited 0"
    if "1 \<le> exponential_base cfg \<and> 1 \<le> rate_limit_backoff_base cfg"
  proof -
    have "1 \<le> x" using that by (auto simp: x_def)
    then have "b * x ^ n \<le> b * x ^ Suc n" using nn by (intro mult_left_mono power_increasing) auto
    then have "min (b * x ^ n) (max_delay cfg) \<le> min (b * x ^ Suc n) (max_delay cfg)" by linarith
    then show ?thesis by (simp add: calculate_delay_def Let_def b_def x_def)
  qed
  with up low d show ?thesis by (simp add: cd)
qed

theorem calculate_delay_bounds_witness:
  "calculate_delay 9 default_config True (1/2) \<le> 78 \<and> calculate_delay 9 default_config True 0 \<le> 60"
  using calculate_delay_bounds [of default_config "1/2" 9 True] by (simp add: default_config_def)

text \<open>The blocking and the asynchronous loop agree: when no sleep is cancelled they return the
  same result through the same calls, callbacks and waits.\<close>

theorem sync_retry_agrees:
  assumes "\<forall>n. \<not> sleep_cancelled w n"
  shows "sync_retry cfg w = with_retry cfg w"
proof -
  have "sync_loop c w n l tr = retry_loop c w n l tr" for c n l tr
    using assms
  proof (induction c w n l tr rule: sync_loop.induct)
    case (1 c w n l tr)
    then show ?case
      by (simp add: sync_loop.simps [of c w n] retry_loop.simps [of c w n] Let_def split: outcome.splits prod.splits option.splits)
  qed
  then show ?thesis by (simp add: sync_retry_def with_retry_def)
qed

theorem sync_retry_agrees_witness:
  "sync_retry None ex_world = with_retry None ex_world"
  using sync_retry_agrees [of ex_world None] by (simp add: ex_world_def)

end
