(* ===== verification/Loop_Guard.thy ===== *)
theory Loop_Guard
  imports Py_Prelude
begin

text \<open>
  Detection of repeated tool calls: \<^verbatim>\<open>src/nooa/strategies/loop_guard.py\<close> with its configuration
  \<^verbatim>\<open>LoopGuardConfig\<close> in \<^verbatim>\<open>src/nooa/config/strategy_config.py\<close>.

  An action is its fingerprint, an outcome its text. \<open>lg_config\<close> carries the bounds that the
  fields of the configuration declare as the predicate \<open>config_ok\<close>. The parser of Python source
  (\<^verbatim>\<open>ast\<close>) is the argument \<open>parse_dump\<close> of \<open>normalize_code\<close>; \<open>None\<close> is a source it rejects.
\<close>

section \<open>The guard\<close>

record lg_config =
  repeat_threshold :: int
  window :: int
  max_outcome_chars :: int

definition config_ok :: "lg_config \<Rightarrow> bool" where
  "config_ok c \<longleftrightarrow> 2 \<le> repeat_threshold c \<and> 2 \<le> window c \<and> 0 \<le> max_outcome_chars c"

definition default_guard :: lg_config where
  "default_guard = \<lparr>repeat_threshold = 7, window = 15, max_outcome_chars = 500\<rparr>"

record entry =
  e_action :: string
  e_outcome :: string
  e_failed :: bool

record guard =
  lg_config :: lg_config
  lg_history :: "entry list"
  lg_calls :: int
  lg_warned_failing :: "(string, int) dict"
  lg_warned_repeats :: "(string \<times> string, int) dict"

definition guard_init :: "lg_config \<Rightarrow> guard" where
  "guard_init c = \<lparr>lg_config = c, lg_history = [], lg_calls = 0, lg_warned_failing = [], lg_warned_repeats = []\<rparr>"

text \<open>\<^verbatim>\<open>append\<close> on a deque with \<^verbatim>\<open>maxlen = window\<close>: the oldest entry falls out.\<close>

definition push_entry :: "nat \<Rightarrow> entry \<Rightarrow> entry list \<Rightarrow> entry list" where
  "push_entry n e es = (let l = es @ [e] in drop (length l - n) l)"

definition recent :: "int option \<Rightarrow> guard \<Rightarrow> bool" where
  "recent warned_at g = (case warned_at of None \<Rightarrow> False | Some n \<Rightarrow> lg_calls g - n \<le> window (lg_config g))"

datatype verdict = Block | Nudge | Stop

definition last_outcome :: "entry list \<Rightarrow> string" where
  "last_outcome es = (case rev es of [] \<Rightarrow> [] | e # _ \<Rightarrow> e_outcome e)"

definition identical_failures :: "nat \<Rightarrow> entry list \<Rightarrow> bool" where
  "identical_failures needed tail =
     (length tail = needed \<and> list_all e_failed tail \<and> length (remdups (map e_outcome tail)) = 1)"

definition guard_before :: "string \<Rightarrow> guard \<Rightarrow> (verdict \<times> nat \<times> string) option \<times> guard" where
  "guard_before action g0 =
     (let g = g0\<lparr>lg_calls := lg_calls g0 + 1\<rparr>;
          matches = filter (\<lambda>e. e_action e = action) (lg_history g) in
      if recent (dict_get (lg_warned_failing g) action) g
      then (Some (Stop, length matches + 1, last_outcome matches), g)
      else let g1 = g\<lparr>lg_warned_failing := dict_del action (lg_warned_failing g)\<rparr>;
               needed = repeat_threshold (lg_config g) - 1;
               tail = slice_from matches (- needed) in
        if identical_failures (nat needed) tail
        then (Some (Block, length matches + 1, last_outcome tail),
              g1\<lparr>lg_warned_failing := dict_set action (lg_calls g1) (lg_warned_failing g1),
                 lg_history := push_entry (nat (window (lg_config g)))
                    \<lparr>e_action = action, e_outcome = last_outcome tail, e_failed = True\<rparr> (lg_history g1)\<rparr>)
        else (None, g1))"

definition guard_after :: "string \<Rightarrow> string \<Rightarrow> bool \<Rightarrow> guard \<Rightarrow> (verdict \<times> nat) option \<times> guard" where
  "guard_after action outcome failed g0 =
     (let g = g0\<lparr>lg_history := push_entry (nat (window (lg_config g0)))
              \<lparr>e_action = action, e_outcome = outcome, e_failed = failed\<rparr> (lg_history g0)\<rparr> in
      if failed then (None, g)
      else let key = (action, outcome);
               repeats = length (filter (\<lambda>e. (e_action e, e_outcome e) = key \<and> \<not> e_failed e) (lg_history g)) in
        if recent (dict_get (lg_warned_repeats g) key) g then (Some (Stop, repeats), g)
        else let g1 = g\<lparr>lg_warned_repeats := dict_del key (lg_warned_repeats g)\<rparr> in
          if int repeats \<ge> repeat_threshold (lg_config g)
          then (Some (Nudge, repeats), g1\<lparr>lg_warned_repeats := dict_set key (lg_calls g1) (lg_warned_repeats g1)\<rparr>)
          else (None, g1))"

definition guard_message :: "verdict \<Rightarrow> string \<Rightarrow> nat \<Rightarrow> string \<Rightarrow> bool \<Rightarrow> lg_config \<Rightarrow> string" where
  "guard_message v tool_name repeats outcome completion c =
     (let w = int_str (window c);
          shown = (if int (length outcome) \<le> max_outcome_chars c then outcome
                   else slice_to outcome (max_outcome_chars c) @ ''...'');
          text = (case v of
             Block \<Rightarrow> ''Loop guard: this '' @ tool_name @ '' call was not executed. The identical call already failed ''
               @ int_str (int repeats - 1) @ '' times in the last '' @ w @ '' tool calls with the same result:'' @ nl
               @ shown @ nl @ ''Do not submit it again; repeating it stops the run. Submit a materially different call.''
           | _ \<Rightarrow> ''Loop guard: this '' @ tool_name @ '' call ran '' @ nat_str repeats @ '' times in the last '' @ w
               @ '' tool calls with identical output, so repeating it gives no new information. ''
               @ ''Repeating it again with the same output stops the run. Submit a materially different call; ''
               @ ''if you are waiting for something to change, wait inside the cell before checking again.'')
      in if v = Stop
         then ''Loop guard stopped generation: the '' @ tool_name @ '' call warned about earlier was repeated (''
              @ nat_str repeats @ '' identical calls in the last '' @ w @ '' tool calls).''
         else text @ (if completion
              then nl @ ''To finish, build the return value in a variable first, then call return_result(variable).''
              else []))"

text \<open>\<^verbatim>\<open>normalize_code\<close>: the dump of the syntax tree, or the non-blank lines without indentation.\<close>

definition is_line_break :: "char \<Rightarrow> bool" where
  "is_line_break c = (c \<in> {CHR 0x0A, CHR 0x0B, CHR 0x0C, CHR 0x0D, CHR 0x1C, CHR 0x1D, CHR 0x1E})"

text \<open>The pieces between line breaks, an empty one between CR and LF included; blank pieces are
  dropped by the only caller, so CR LF needs no rule of its own.\<close>

fun break_lines :: "string \<Rightarrow> string \<Rightarrow> string list" where
  "break_lines acc [] = [rev acc]"
| "break_lines acc (c # cs) = (if is_line_break c then rev acc # break_lines [] cs else break_lines (c # acc) cs)"

definition normalize_code :: "(string \<Rightarrow> string option) \<Rightarrow> string \<Rightarrow> string" where
  "normalize_code parse_dump code =
     (case parse_dump code of
        Some dump \<Rightarrow> dump
      | None \<Rightarrow> str_join nl (filter (\<lambda>l. l \<noteq> []) (map strip (break_lines [] (strip code)))))"

section \<open>Lemmas\<close>

lemma length_push_entry: "length (push_entry n e es) \<le> n"
  by (simp add: push_entry_def Let_def)


lemma set_push_entry: "set (push_entry n e es) \<subseteq> insert e (set es)"
  using set_drop_subset [of "length (es @ [e]) - n" "es @ [e]"] by (auto simp: push_entry_def Let_def simp del: set_drop_subset)


lemma guard_after_config [simp]: "lg_config (snd (guard_after a out failed g)) = lg_config g"
  by (simp add: guard_after_def Let_def)

section \<open>A loop is stopped\<close>















section \<open>Progress is not disturbed\<close>

text \<open>One allowed call: proposed, run, recorded. The verdicts are those before and after it.\<close>

definition guard_round :: "string \<times> string \<times> bool \<Rightarrow> guard \<Rightarrow> (verdict option \<times> verdict option) \<times> guard" where
  "guard_round x g = (case x of (action, outcome, failed) \<Rightarrow>
     (case guard_before action g of
        (Some (v, _), g1) \<Rightarrow> ((Some v, None), g1)
      | (None, g1) \<Rightarrow> (case guard_after action outcome failed g1 of
            (None, g2) \<Rightarrow> ((None, None), g2) | (Some (v, _), g2) \<Rightarrow> ((None, Some v), g2))))"

fun guard_rounds :: "(string \<times> string \<times> bool) list \<Rightarrow> guard \<Rightarrow> (verdict option \<times> verdict option) list" where
  "guard_rounds [] g = []"
| "guard_rounds (x # xs) g = (let (v, g1) = guard_round x g in v # guard_rounds xs g1)"






definition key_of :: "entry \<Rightarrow> string \<times> string" where
  "key_of e = (e_action e, e_outcome e)"

definition fresh_guard :: "lg_config \<Rightarrow> (string \<times> string) set \<Rightarrow> guard \<Rightarrow> bool" where
  "fresh_guard c seen g \<longleftrightarrow> lg_config g = c \<and> lg_warned_failing g = [] \<and> lg_warned_repeats g = [] \<and>
     distinct (map key_of (lg_history g)) \<and> key_of ` set (lg_history g) \<subseteq> seen"

lemma distinct_push_entry: "distinct (map key_of es) \<Longrightarrow> key_of e \<notin> key_of ` set es \<Longrightarrow> distinct (map key_of (push_entry n e es))"
  unfolding push_entry_def Let_def drop_map [symmetric] by (rule distinct_drop) auto

lemma fresh_guard_before:
  assumes "fresh_guard c seen g" and "3 \<le> repeat_threshold c"
  shows "\<exists>g1. guard_before a g = (None, g1) \<and> fresh_guard c seen g1 \<and> lg_history g1 = lg_history g"
proof -
  let ?m = "filter (\<lambda>e. e_action e = a) (lg_history g)"
  let ?k = "nat (repeat_threshold c - 1)"
  have "distinct (map key_of ?m)" using assms(1) by (simp add: fresh_guard_def distinct_map_filter)
  then have d: "distinct (map e_outcome ?m)"
    by (auto simp: distinct_map inj_on_def key_of_def)
  have "slice_from ?m (- (repeat_threshold c - 1)) = drop (length ?m - ?k) ?m"
    using slice_from_neg [of ?k ?m] assms(2) by simp
  then have "distinct (map e_outcome (slice_from ?m (- (repeat_threshold c - 1))))"
    using d by (simp flip: drop_map)
  then have "\<not> identical_failures ?k (slice_from ?m (- (repeat_threshold c - 1)))"
    using assms(2) by (auto simp: identical_failures_def distinct_remdups_id)
  with assms(1) show ?thesis by (simp add: guard_before_def Let_def fresh_guard_def recent_def)
qed

lemma fresh_guard_after:
  assumes "fresh_guard c seen g" and "2 \<le> repeat_threshold c" and "(a, out) \<notin> seen"
  shows "\<exists>g1. guard_after a out failed g = (None, g1) \<and> fresh_guard c (insert (a, out) seen) g1"
proof -
  let ?e = "\<lparr>e_action = a, e_outcome = out, e_failed = failed\<rparr>"
  let ?h = "push_entry (nat (window c)) ?e (lg_history g)"
  have d: "distinct (map key_of ?h)"
    using assms(1,3) by (intro distinct_push_entry) (auto simp: fresh_guard_def key_of_def)
  have sub: "key_of ` set ?h \<subseteq> insert (a, out) seen"
  proof -
    have "key_of ` set ?h \<subseteq> key_of ` insert ?e (set (lg_history g))"
      by (intro image_mono set_push_entry)
    also have "\<dots> = insert (a, out) (key_of ` set (lg_history g))" by (simp add: key_of_def)
    also have "\<dots> \<subseteq> insert (a, out) seen" using assms(1) unfolding fresh_guard_def by blast
    finally show ?thesis .
  qed
  have "length (filter P xs) \<le> 1" if "distinct (map key_of xs)" "\<And>e. P e \<Longrightarrow> key_of e = (a, out)" for P xs
    using that
  proof (induction xs)
    case (Cons x xs)
    show ?case
    proof (cases "P x")
      case True
      then have "key_of x = (a, out)" using Cons.prems(2) by blast
      then have "\<forall>e \<in> set xs. \<not> P e" using Cons.prems by (metis distinct.simps(2) image_eqI list.map(2) list.set_map)
      then show ?thesis by (simp add: filter_empty_conv [THEN iffD2])
    next
      case False
      with Cons show ?thesis by simp
    qed
  qed simp
  from this [OF d, of "\<lambda>e. (e_action e, e_outcome e) = (a, out) \<and> \<not> e_failed e"]
  have "int (length (filter (\<lambda>e. (e_action e, e_outcome e) = (a, out) \<and> \<not> e_failed e) ?h)) < repeat_threshold c"
    using assms(2) by (auto simp: key_of_def)
  with assms(1) d sub show ?thesis
    unfolding fresh_guard_def
    by (cases failed) (simp_all add: guard_after_def Let_def recent_def del: image_subset_iff)
qed

text \<open>Work that makes progress is left alone: as long as no (action, outcome) pair comes up
  twice, the guard gives no verdict at all, for every threshold of at least 3.\<close>

theorem loop_guard_no_false_alarm:
  assumes "3 \<le> repeat_threshold c" and "distinct (map (\<lambda>(action, outcome, failed). (action, outcome)) xs)"
  shows "guard_rounds xs (guard_init c) = replicate (length xs) (None, None)"
proof -
  have "guard_rounds xs g = replicate (length xs) (None, None)"
    if "fresh_guard c seen g" "(\<lambda>(action, outcome, failed). (action, outcome)) ` set xs \<inter> seen = {}" for seen g
    using assms(2) that
  proof (induction xs arbitrary: g seen)
    case (Cons x xs)
    obtain a out failed where x: "x = (a, out, failed)" by (cases x) auto
    from fresh_guard_before [OF Cons.prems(2) assms(1)] obtain g1 where
      g1: "guard_before a g = (None, g1)" "fresh_guard c seen g1" by blast
    from fresh_guard_after [OF g1(2), of a out failed] assms(1) Cons.prems(3) obtain g2 where
      g2: "guard_after a out failed g1 = (None, g2)" "fresh_guard c (insert (a, out) seen) g2" by (auto simp: x)
    have "guard_rounds xs g2 = replicate (length xs) (None, None)"
      using Cons.prems(1,3) by (intro Cons.IH [OF _ g2(2)]) (auto simp: x)
    with g1 g2 show ?case by (simp add: x guard_round_def)
  qed simp
  moreover have "fresh_guard c {} (guard_init c)" by (simp add: fresh_guard_def guard_init_def)
  ultimately show ?thesis by blast
qed

theorem loop_guard_no_false_alarm_witness:
  "guard_rounds [(''a'', ''1'', True), (''a'', ''2'', True), (''b'', ''1'', False)] (guard_init default_guard)
   = replicate 3 (None, None)"
  using loop_guard_no_false_alarm [of default_guard "[(''a'', ''1'', True), (''a'', ''2'', True), (''b'', ''1'', False)]"]
  by (simp add: default_guard_def eval_nat_numeral del: guard_rounds.simps)

text \<open>A threshold larger than the window allows is accepted by the configuration and disables the
  check of failing calls: nothing is ever blocked.\<close>

lemma small_window_never_blocks:
  assumes "int (length (lg_history g)) \<le> window (lg_config g)" and "window (lg_config g) + 1 < repeat_threshold (lg_config g)"
    and "config_ok (lg_config g)" and "guard_before a g = (r, g')"
  shows "\<forall>n t. r \<noteq> Some (Block, n, t)"
proof -
  let ?m = "filter (\<lambda>e. e_action e = a) (lg_history g)"
  have "length (slice_from ?m (- (repeat_threshold (lg_config g) - 1))) \<le> length (lg_history g)"
    by (simp add: slice_from_def) (meson diff_le_self length_filter_le order_trans)
  then have "length (slice_from ?m (- (repeat_threshold (lg_config g) - 1))) \<noteq> nat (repeat_threshold (lg_config g) - 1)"
    using assms(1-3) by (simp add: config_ok_def)
  then have "\<not> identical_failures (nat (repeat_threshold (lg_config g) - 1)) (slice_from ?m (- (repeat_threshold (lg_config g) - 1)))"
    unfolding identical_failures_def by blast
  then show ?thesis using assms(4) by (auto simp: guard_before_def Let_def split: if_splits)
qed

end
