(* ===== verification/Truncating_Stream.thy ===== *)
theory Truncating_Stream
  imports Py_Prelude
begin

text \<open>
  The bounded output buffers: \<^verbatim>\<open>src/nooa/agentdoc/_truncating_stream.py\<close>.

  \<^verbatim>\<open>TruncatingStringIO\<close> is the record \<open>tstream\<close> (the text of the underlying \<^verbatim>\<open>StringIO\<close> is
  \<open>t_head\<close>, the deque of chunks \<open>t_chunks\<close>); \<^verbatim>\<open>FileBackedTruncatingStringIO\<close> extends it by the
  temporary file. Whether an operation of the file system succeeds is an argument of the
  operation.
\<close>

section \<open>The in-memory buffer\<close>

record tstream =
  t_limit :: int
  t_tail_limit :: int
  t_head_limit :: int
  t_head_full :: bool
  t_head :: string
  t_chunks :: "string list"
  t_tail_chars :: int
  t_written :: nat

definition default_limit :: int where "default_limit = 50000"

definition ts_init :: "int \<Rightarrow> int option \<Rightarrow> tstream" where
  "ts_init limit tail_chars =
     (let tail = (case tail_chars of Some t \<Rightarrow> t | None \<Rightarrow> limit div 2) in
      \<lparr>t_limit = limit, t_tail_limit = tail, t_head_limit = limit - tail, t_head_full = False, t_head = [],
       t_chunks = [], t_tail_chars = 0, t_written = 0\<rparr>)"

text \<open>The eviction loop of \<^verbatim>\<open>_add_to_tail\<close> on the chunks and their whole length.\<close>

function evict :: "int \<Rightarrow> string list \<Rightarrow> int \<Rightarrow> string list \<times> int" where
  "evict lim chunks n =
     (case chunks of
        [] \<Rightarrow> (chunks, n)
      | oldest # rest \<Rightarrow>
          if \<not> n > lim then (chunks, n)
          else let excess = n - lim in
            if int (length oldest) \<le> excess then evict lim rest (n - int (length oldest))
            else (slice_from oldest excess # rest, n - excess))"
  by pat_completeness auto
termination
  by (relation "measure (\<lambda>(lim, chunks, n). length chunks)") auto

declare evict.simps [simp del]

text \<open>After the partial eviction the loop test fails, so the loop ends there.\<close>

definition add_to_tail :: "string \<Rightarrow> tstream \<Rightarrow> tstream" where
  "add_to_tail s t =
     (let (chunks, n) = evict (t_tail_limit t) (t_chunks t @ [s]) (t_tail_chars t + int (length s))
      in t\<lparr>t_chunks := chunks, t_tail_chars := n\<rparr>)"

definition ts_write :: "string \<Rightarrow> tstream \<Rightarrow> nat \<times> tstream" where
  "ts_write s t0 =
     (let n = length s; t = t0\<lparr>t_written := t_written t0 + n\<rparr> in
      if \<not> t_head_full t then
        let remaining = t_head_limit t - int (length (t_head t)) in
        if int n \<le> remaining then (n, t\<lparr>t_head := t_head t @ s\<rparr>)
        else let t1 = (if 0 < remaining then t\<lparr>t_head := t_head t @ slice_to s remaining\<rparr> else t)\<lparr>t_head_full := True\<rparr>;
                 overflow = slice_from s remaining
             in (n, if overflow \<noteq> [] then add_to_tail overflow t1 else t1)
      else (n, add_to_tail s t))"

definition get_tail :: "tstream \<Rightarrow> string" where
  "get_tail t = concat (t_chunks t)"

definition was_truncated :: "tstream \<Rightarrow> bool" where
  "was_truncated t = (int (t_written t) > t_limit t)"

text \<open>The format \<^verbatim>\<open>:,\<close> of a count.\<close>

definition pad3 :: "nat \<Rightarrow> string" where
  "pad3 n = [digit_char (n div 100 mod 10), digit_char (n div 10 mod 10), digit_char (n mod 10)]"

fun comma_nat :: "nat \<Rightarrow> string" where
  "comma_nat n = (if n < 1000 then nat_str n else comma_nat (n div 1000) @ '','' @ pad3 (n mod 1000))"

declare comma_nat.simps [simp del]

definition comma_int :: "int \<Rightarrow> string" where
  "comma_int i = (if i < 0 then ''-'' @ comma_nat (nat (- i)) else comma_nat (nat i))"

definition notice_body :: "string \<Rightarrow> string \<Rightarrow> string \<Rightarrow> nat \<Rightarrow> nat \<Rightarrow> nat \<Rightarrow> int \<Rightarrow> string" where
  "notice_body middle head tail whole head_chars tail_chars dropped =
     ''<truncated-output>'' @ nl
     @ ''Output too large ('' @ comma_nat whole @ '' chars). ''
     @ ''Showing first '' @ comma_nat head_chars @ '' and last '' @ comma_nat tail_chars @ '' chars.'' @ nl
     @ middle @ nl
     @ head @ nl @ nl
     @ ''... '' @ comma_int dropped @ '' chars not shown ...'' @ nl @ nl
     @ tail @ nl
     @ ''</truncated-output>''"

definition lost_notice :: "int \<Rightarrow> string" where
  "lost_notice dropped = ''The '' @ comma_int dropped @ '' chars in the middle are not recoverable.'' @ nl"

definition ts_notice :: "string \<Rightarrow> string \<Rightarrow> nat \<Rightarrow> nat \<Rightarrow> nat \<Rightarrow> int \<Rightarrow> string" where
  "ts_notice head tail whole head_chars tail_chars dropped =
     notice_body (lost_notice dropped) head tail whole head_chars tail_chars dropped"

definition value_with :: "(string \<Rightarrow> string \<Rightarrow> nat \<Rightarrow> nat \<Rightarrow> nat \<Rightarrow> int \<Rightarrow> string) \<Rightarrow> tstream \<Rightarrow> string" where
  "value_with notice t =
     (let head = t_head t; tail = get_tail t in
      if \<not> was_truncated t then head @ tail
      else notice head tail (t_written t) (length head) (length tail)
             (int (t_written t) - int (length head) - int (length tail)))"

definition ts_getvalue :: "tstream \<Rightarrow> string" where
  "ts_getvalue t = value_with ts_notice t"

section \<open>The file-backed buffer\<close>

record fstream = tstream +
  f_failed :: bool
  f_path :: "string option"
  f_open :: bool
  f_content :: string     \<comment> \<open>what is in the file\<close>

definition fs_init :: "int \<Rightarrow> int option \<Rightarrow> string option \<Rightarrow> fstream" where
  "fs_init limit tail_chars created =
     tstream.extend (ts_init limit tail_chars)
       \<lparr>f_failed = (created = None), f_path = created, f_open = (created \<noteq> None), f_content = []\<rparr>"

text \<open>\<open>stored\<close> is \<open>None\<close> when the write to the file succeeds, else the part that reached it.\<close>

definition fs_write :: "string \<Rightarrow> string option \<Rightarrow> fstream \<Rightarrow> nat \<times> fstream" where
  "fs_write s stored f =
     (let f1 = (if f_open f \<and> \<not> f_failed f
          then (case stored of
                  None \<Rightarrow> f\<lparr>f_content := f_content f @ s\<rparr>
                | Some part \<Rightarrow> f\<lparr>f_content := f_content f @ part, f_failed := True\<rparr>)
          else f);
          (n, t) = ts_write s (tstream.truncate f1)
      in (n, tstream.extend t (fstream.fields (f_failed f1) (f_path f1) (f_open f1) (f_content f1))))"

definition fs_notice :: "fstream \<Rightarrow> string \<Rightarrow> string \<Rightarrow> nat \<Rightarrow> nat \<Rightarrow> nat \<Rightarrow> int \<Rightarrow> string" where
  "fs_notice f head tail whole head_chars tail_chars dropped =
     notice_body
       (case f_path f of
          Some path \<Rightarrow> if path \<noteq> [] \<and> \<not> f_failed f
            then ''The full untruncated output ('' @ comma_nat whole @ '' chars) is in: '' @ path @ nl
                 @ ''Read that file to see the '' @ comma_int dropped @ '' chars not shown here.'' @ nl
            else lost_notice dropped
        | None \<Rightarrow> lost_notice dropped)
       head tail whole head_chars tail_chars dropped"

definition fs_getvalue :: "fstream \<Rightarrow> string" where
  "fs_getvalue f = value_with (fs_notice f) (tstream.truncate f)"

section \<open>What the buffer holds\<close>

text \<open>After writing \<open>whole\<close> in any pieces: the head is its start, the chunks its end.\<close>

definition holds :: "string \<Rightarrow> tstream \<Rightarrow> bool" where
  "holds whole t \<longleftrightarrow> 0 \<le> t_tail_limit t \<and> 0 \<le> t_head_limit t \<and> t_limit t = t_head_limit t + t_tail_limit t \<and>
     t_written t = length whole \<and>
     t_head t = take (nat (t_head_limit t)) whole \<and>
     get_tail t = drop (max (nat (t_head_limit t)) (length whole - nat (t_tail_limit t))) whole \<and>
     t_tail_chars t = int (length (get_tail t)) \<and>
     (t_head_full t \<longrightarrow> nat (t_head_limit t) \<le> length whole) \<and>
     (\<not> t_head_full t \<longrightarrow> length whole \<le> nat (t_head_limit t))"

lemma holdsI:
  assumes "0 \<le> t_tail_limit t" "0 \<le> t_head_limit t" "t_limit t = t_head_limit t + t_tail_limit t"
    "t_written t = length whole" "t_head t = take (nat (t_head_limit t)) whole"
    "get_tail t = drop (max (nat (t_head_limit t)) (length whole - nat (t_tail_limit t))) whole"
    "t_tail_chars t = int (length (get_tail t))"
    "t_head_full t" "nat (t_head_limit t) \<le> length whole"
  shows "holds whole t"
  using assms unfolding holds_def by blast

lemma evict_concat:
  assumes "0 \<le> lim" and "n = int (length (concat chunks))"
  shows "concat (fst (evict lim chunks n)) = drop (length (concat chunks) - nat lim) (concat chunks) \<and>
    snd (evict lim chunks n) = int (length (concat (fst (evict lim chunks n))))"
  using assms
proof (induction lim chunks n rule: evict.induct)
  case (1 lim chunks n)
  show ?case
  proof (cases chunks)
    case Nil
    with 1 show ?thesis by (simp add: evict.simps)
  next
    case (Cons oldest rest)
    consider "n \<le> lim" | "lim < n" "int (length oldest) \<le> n - lim" | "lim < n" "n - lim < int (length oldest)" by linarith
    then show ?thesis
    proof cases
      case 1
      then have "evict lim chunks n = (chunks, n)" using Cons by (simp add: evict.simps [of lim "oldest # rest" n])
      with 1 "1.prems" show ?thesis by simp
    next
      case 2
      have "concat (fst (evict lim rest (n - int (length oldest)))) = drop (length (concat rest) - nat lim) (concat rest) \<and>
        snd (evict lim rest (n - int (length oldest))) = int (length (concat (fst (evict lim rest (n - int (length oldest))))))"
        using 2 "1.prems" Cons by (intro "1.IH" [OF Cons _ refl]) auto
      moreover have "length oldest + length (concat rest) - nat lim = length oldest + (length (concat rest) - nat lim)"
        using 2 "1.prems" Cons by auto
      ultimately show ?thesis using 2 Cons by (simp add: evict.simps [of lim "oldest # rest" n])
    next
      case 3
      then have e: "n - lim = int (nat (n - lim))" "nat (n - lim) = length (concat chunks) - nat lim"
        using "1.prems" by auto
      have s: "slice_from oldest (n - lim) = drop (nat (n - lim)) oldest" by (subst e(1)) (rule slice_from_nat)
      have "evict lim chunks n = (drop (nat (n - lim)) oldest # rest, lim)"
        using 3 Cons s by (simp add: evict.simps [of lim "oldest # rest" n])
      moreover have "nat (n - lim) \<le> length oldest" using 3 by linarith
      ultimately show ?thesis using 3 Cons "1.prems" e(2) by (simp add: drop_append)
    qed
  qed
qed

lemma add_to_tail_holds:
  assumes "0 \<le> t_tail_limit t" and "t_tail_chars t = int (length (get_tail t))"
  shows "get_tail (add_to_tail s t) = drop (length (get_tail t @ s) - nat (t_tail_limit t)) (get_tail t @ s) \<and>
    t_tail_chars (add_to_tail s t) = int (length (get_tail (add_to_tail s t)))"
proof -
  have "t_tail_chars t + int (length s) = int (length (concat (t_chunks t @ [s])))"
    using assms(2) by (simp add: get_tail_def)
  from evict_concat [OF assms(1) this] show ?thesis
    by (simp add: add_to_tail_def get_tail_def split_beta)
qed

lemma add_to_tail_fields [simp]:
  "t_limit (add_to_tail s t) = t_limit t" "t_tail_limit (add_to_tail s t) = t_tail_limit t"
  "t_head_limit (add_to_tail s t) = t_head_limit t" "t_head (add_to_tail s t) = t_head t"
  "t_written (add_to_tail s t) = t_written t" "t_head_full (add_to_tail s t) = t_head_full t"
  by (simp_all add: add_to_tail_def split_beta)

text \<open>Dropping in two steps: the tail of a tail extended by \<open>s\<close>.\<close>

lemma drop_tail_append:
  fixes h k :: nat
  assumes "h \<le> length xs"
  shows "drop (length (drop (max h (length xs - k)) xs @ s) - k) (drop (max h (length xs - k)) xs @ s)
    = drop (max h (length (xs @ s) - k)) (xs @ s)"
proof -
  let ?m = "max h (length xs - k)"
  have m: "?m \<le> length xs" using assms by simp
  have "drop ?m xs @ s = drop ?m (xs @ s)" using m by simp
  moreover have "length (drop ?m (xs @ s)) - k + ?m = max h (length (xs @ s) - k)" 
    using m assms by (cases "k \<le> length xs") (auto simp: max_def)
  ultimately show ?thesis by (simp only: drop_drop)
qed

lemma ts_write_holds:
  assumes "holds whole t"
  shows "fst (ts_write s t) = length s \<and> holds (whole @ s) (snd (ts_write s t))"
proof -
  let ?h = "nat (t_head_limit t)" and ?k = "nat (t_tail_limit t)"
  let ?t = "t\<lparr>t_written := t_written t + length s\<rparr>"
  note hd = assms [unfolded holds_def]
  have tail_eq: "get_tail ?t = get_tail t" by (simp add: get_tail_def)
  show ?thesis
  proof (cases "t_head_full t")
    case True
    have pre: "0 \<le> t_tail_limit ?t" "t_tail_chars ?t = int (length (get_tail ?t))" using hd by (simp_all add: get_tail_def)
    have tl: "get_tail (add_to_tail s ?t) = drop (length (get_tail t @ s) - ?k) (get_tail t @ s)"
        "t_tail_chars (add_to_tail s ?t) = int (length (get_tail (add_to_tail s ?t)))"
      using add_to_tail_holds [OF pre, of s] unfolding tail_eq by simp_all
    have "get_tail (add_to_tail s ?t) = drop (max ?h (length (whole @ s) - ?k)) (whole @ s)"
      using tl(1) drop_tail_append [of ?h whole ?k s] hd True by simp
    moreover have "ts_write s t = (length s, add_to_tail s ?t)" using True by (simp add: ts_write_def Let_def)
    moreover have "t_head_full ?t" "t_written ?t = length (whole @ s)" "t_limit ?t = t_limit t"
      "t_head_limit ?t = t_head_limit t" "t_tail_limit ?t = t_tail_limit t" "t_head ?t = take ?h (whole @ s)"
      using hd True by auto
    ultimately show ?thesis
      using tl(2) hd True unfolding holds_def by (simp del: length_append)
  next
    case False
    then have short: "length whole \<le> ?h" "t_head t = whole" "get_tail t = []" using hd by auto
    show ?thesis
    proof (cases "int (length s) \<le> t_head_limit t - int (length (t_head t))")
      case True
      then have "length whole + length s \<le> ?h" using short by simp
      with hd short True \<open>\<not> t_head_full t\<close> show ?thesis
        by (auto simp: ts_write_def Let_def holds_def get_tail_def)
    next
      case fits: False
      let ?r = "t_head_limit t - int (length (t_head t))"
      have r: "?r = int (?h - length whole)" "0 \<le> ?r" using short hd by auto
      define t1 where "t1 = (if 0 < ?r then ?t\<lparr>t_head := t_head ?t @ slice_to s ?r\<rparr> else ?t)\<lparr>t_head_full := True\<rparr>"
      have slice: "slice_to s ?r = take (?h - length whole) s" unfolding r(1) by (rule slice_to_nat)
      have head1: "t_head t1 = take ?h (whole @ s)"
        unfolding t1_def slice using short r by auto
      have t1: "t_chunks t1 = t_chunks t" "t_tail_chars t1 = 0" "t_tail_limit t1 = t_tail_limit t"
        "t_limit t1 = t_limit t" "t_head_limit t1 = t_head_limit t" "t_written t1 = length (whole @ s)" "t_head_full t1"
        using short hd by (auto simp: t1_def)
      have nil: "get_tail t1 = []" using short(3) t1(1) by (simp add: get_tail_def)
      define over where "over = slice_from s ?r"
      have over: "over = drop (?h - length whole) s" unfolding over_def r(1) by (rule slice_from_nat)
      have ne: "over \<noteq> []" unfolding over using fits r by simp
      have res: "ts_write s t = (length s, add_to_tail over t1)"
        using False fits ne by (simp add: ts_write_def Let_def t1_def over_def)
      have tl: "get_tail (add_to_tail over t1) = drop (length over - ?k) over"
        and count: "t_tail_chars (add_to_tail over t1) = int (length (get_tail (add_to_tail over t1)))"
        using add_to_tail_holds [of t1 over] t1(2,3) nil hd by simp_all
      have shift: "drop (length over - ?k) over = drop (max ?h (length (whole @ s) - ?k)) (whole @ s)"
      proof -
        have arith: "(S - (h - L) - k) + (h - L) = max h (L + S - k) - L" if "L \<le> h" for S h L k :: nat
          using that by arith
        have "length over - ?k + (?h - length whole) = max ?h (length (whole @ s) - ?k) - length whole"
          unfolding over length_drop length_append by (rule arith [OF short(1)])
        then show ?thesis unfolding over using short(1) by (simp add: le_max_iff_disj)
      qed
      have big: "?h \<le> length (whole @ s)" using fits r short by simp
      have tail: "get_tail (add_to_tail over t1) = drop (max ?h (length (whole @ s) - ?k)) (whole @ s)"
        by (rule trans [OF tl shift])
      have lims: "0 \<le> t_tail_limit t" "0 \<le> t_head_limit t" "t_limit t = t_head_limit t + t_tail_limit t"
        using hd by simp_all
      have "holds (whole @ s) (add_to_tail over t1)"
      proof (rule holdsI)
        show "0 \<le> t_tail_limit (add_to_tail over t1)" "0 \<le> t_head_limit (add_to_tail over t1)"
          "t_limit (add_to_tail over t1) = t_head_limit (add_to_tail over t1) + t_tail_limit (add_to_tail over t1)"
          by (simp_all only: add_to_tail_fields t1 lims)
        show "t_written (add_to_tail over t1) = length (whole @ s)" "t_head_full (add_to_tail over t1)"
          by (simp_all only: add_to_tail_fields t1)
        show "t_head (add_to_tail over t1) = take (nat (t_head_limit (add_to_tail over t1))) (whole @ s)"
          by (simp only: add_to_tail_fields t1 head1)
        show "get_tail (add_to_tail over t1) = drop (max (nat (t_head_limit (add_to_tail over t1)))
            (length (whole @ s) - nat (t_tail_limit (add_to_tail over t1)))) (whole @ s)"
          unfolding add_to_tail_fields t1(3) t1(5) by (rule tail)
        show "t_tail_chars (add_to_tail over t1) = int (length (get_tail (add_to_tail over t1)))" by (rule count)
        show "nat (t_head_limit (add_to_tail over t1)) \<le> length (whole @ s)"
          unfolding add_to_tail_fields t1(5) by (rule big)
      qed
      then show ?thesis by (simp add: res)
    qed
  qed
qed

text \<open>A stream written in pieces.\<close>

fun ts_writes :: "string list \<Rightarrow> tstream \<Rightarrow> tstream" where
  "ts_writes [] t = t"
| "ts_writes (s # ss) t = ts_writes ss (snd (ts_write s t))"

lemma ts_writes_holds: "holds whole t \<Longrightarrow> holds (whole @ concat ss) (ts_writes ss t)"
proof (induction ss arbitrary: whole t)
  case (Cons s ss)
  from Cons.IH [OF ts_write_holds [OF Cons.prems, of s, THEN conjunct2]] show ?case by simp
qed simp

lemma ts_init_holds:
  "0 \<le> tail \<Longrightarrow> tail \<le> limit \<Longrightarrow> holds [] (ts_init limit (Some tail))"
  by (simp add: holds_def ts_init_def get_tail_def)

lemma holds_value:
  assumes "holds whole t"
  shows "value_with notice t =
    (if int (length whole) \<le> t_limit t then whole
     else notice (take (nat (t_head_limit t)) whole) (drop (length whole - nat (t_tail_limit t)) whole)
            (length whole) (nat (t_head_limit t)) (nat (t_tail_limit t)) (int (length whole) - t_limit t))"
proof -
  have hd: "t_head t = take (nat (t_head_limit t)) whole" "t_written t = length whole"
      "get_tail t = drop (max (nat (t_head_limit t)) (length whole - nat (t_tail_limit t))) whole"
    and lims: "0 \<le> t_tail_limit t" "0 \<le> t_head_limit t" "t_limit t = t_head_limit t + t_tail_limit t"
    using assms by (auto simp: holds_def)
  show ?thesis
  proof (cases "int (length whole) \<le> t_limit t")
    case True
    then have "max (nat (t_head_limit t)) (length whole - nat (t_tail_limit t)) = nat (t_head_limit t)"
      using lims by auto
    then show ?thesis using True by (simp add: value_with_def was_truncated_def hd)
  next
    case False
    then have big: "max (nat (t_head_limit t)) (length whole - nat (t_tail_limit t)) = length whole - nat (t_tail_limit t)"
      and fit: "nat (t_head_limit t) \<le> length whole" "nat (t_tail_limit t) \<le> length whole"
      using lims by auto
    have lens: "length (take (nat (t_head_limit t)) whole) = nat (t_head_limit t)"
      "length (drop (length whole - nat (t_tail_limit t)) whole) = nat (t_tail_limit t)"
      using fit by simp_all
    have rest: "int (length whole) - int (nat (t_head_limit t)) - int (nat (t_tail_limit t)) = int (length whole) - t_limit t"
      using lims by simp
    show ?thesis
      unfolding value_with_def was_truncated_def hd big Let_def lens rest using False by simp
  qed
qed

section \<open>Properties\<close>

text \<open>C36: The buffer shows everything or says what it left out: in whatever pieces a text is
  written, up to the limit it comes back verbatim; beyond, its first \<^verbatim>\<open>limit - tail_chars\<close> and its
  last \<^verbatim>\<open>tail_chars\<close> characters come back with the exact number of those not shown. The memory
  in use never exceeds the limit.\<close>

theorem truncating_stream_content:
  assumes "0 \<le> tail" and "tail \<le> limit"
  shows "ts_getvalue (ts_writes ss (ts_init limit (Some tail))) =
      (let whole = concat ss in
       if int (length whole) \<le> limit then whole
       else ts_notice (take (nat (limit - tail)) whole) (drop (length whole - nat tail) whole) (length whole)
              (nat (limit - tail)) (nat tail) (int (length whole) - limit)) \<and>
    int (length (t_head (ts_writes ss (ts_init limit (Some tail))))
      + length (get_tail (ts_writes ss (ts_init limit (Some tail))))) \<le> limit"
proof -
  let ?t = "ts_writes ss (ts_init limit (Some tail))"
  have h: "holds (concat ss) ?t" using ts_writes_holds [OF ts_init_holds [OF assms], of ss] by simp
  have lim: "t_limit (ts_writes ss t) = t_limit t \<and> t_tail_limit (ts_writes ss t) = t_tail_limit t \<and>
      t_head_limit (ts_writes ss t) = t_head_limit t" for ss t
    by (induction ss arbitrary: t) (auto simp: ts_write_def Let_def)
  have f: "t_limit ?t = limit" "t_tail_limit ?t = tail" "t_head_limit ?t = limit - tail"
    by (simp_all add: lim ts_init_def)
  have "length (t_head ?t) \<le> nat (limit - tail)" "length (get_tail ?t) \<le> nat tail"
    using h f by (auto simp: holds_def)
  with holds_value [OF h, of ts_notice] f assms show ?thesis by (simp add: ts_getvalue_def Let_def)
qed

theorem truncating_stream_content_witness:
  "ts_getvalue (ts_writes [''abcd'', ''efgh'', ''ij''] (ts_init 6 (Some 2)))
   = ts_notice ''abcd'' ''ij'' 10 4 2 4"
  using truncating_stream_content [of 2 6 "[''abcd'', ''efgh'', ''ij'']"]
  by (simp add: Let_def numeral_eq_Suc del: ts_writes.simps)

fun fs_writes :: "(string \<times> string option) list \<Rightarrow> fstream \<Rightarrow> fstream" where
  "fs_writes [] f = f"
| "fs_writes ((s, stored) # ss) f = fs_writes ss (snd (fs_write s stored f))"

lemma fs_write_fields:
  "tstream.truncate (snd (fs_write s stored f)) = snd (ts_write s (tstream.truncate f)) \<and>
   f_path (snd (fs_write s stored f)) = f_path f \<and> f_open (snd (fs_write s stored f)) = f_open f \<and>
   f_failed (snd (fs_write s stored f)) = (f_failed f \<or> (f_open f \<and> stored \<noteq> None)) \<and>
   (f_open f \<and> \<not> f_failed (snd (fs_write s stored f)) \<longrightarrow> f_content (snd (fs_write s stored f)) = f_content f @ s)"
  by (auto simp: fs_write_def Let_def split_beta tstream.defs fstream.defs split: option.splits)

text \<open>The file-backed buffer shows the same text, and the file it points to is complete: when
  the notice names the file, the file holds every character written so far; once a write to the
  file has failed, the notice no longer names it.\<close>

theorem file_backed_stream_complete:
  "tstream.truncate (fs_writes ss (fs_init limit tail created)) = ts_writes (map fst ss) (ts_init limit tail) \<and>
   (let f = fs_writes ss (fs_init limit tail created) in
    (case f_path f of Some path \<Rightarrow> \<not> f_failed f \<longrightarrow> f_content f = concat (map fst ss) \<and> created = Some path
      | None \<Rightarrow> f_failed f) \<and>
    (created \<noteq> None \<and> (\<exists>x \<in> set ss. snd x \<noteq> None) \<longrightarrow> f_failed f))"
proof -
  have gen: "tstream.truncate (fs_writes ss f) = ts_writes (map fst ss) (tstream.truncate f) \<and>
     f_path (fs_writes ss f) = f_path f \<and> (f_failed f \<longrightarrow> f_failed (fs_writes ss f)) \<and>
     (f_open f \<and> \<not> f_failed (fs_writes ss f) \<longrightarrow> f_content (fs_writes ss f) = f_content f @ concat (map fst ss)) \<and>
     (f_open f \<and> (\<exists>x \<in> set ss. snd x \<noteq> None) \<longrightarrow> f_failed (fs_writes ss f))" for ss f
  proof (induction ss arbitrary: f)
    case (Cons x ss)
    obtain s stored where x: "x = (s, stored)" by (cases x)
    from Cons.IH [of "snd (fs_write s stored f)"] fs_write_fields [of s stored f] show ?case by (auto simp: x)
  qed simp
  have init: "tstream.truncate (fs_init limit tail created) = ts_init limit tail"
    "f_path (fs_init limit tail created) = created" "f_failed (fs_init limit tail created) = (created = None)"
    "f_open (fs_init limit tail created) = (created \<noteq> None)" "f_content (fs_init limit tail created) = []"
    by (simp_all add: fs_init_def tstream.defs)
  from gen [of ss "fs_init limit tail created"] show ?thesis
    unfolding init by (cases created) (auto simp: Let_def)
qed

theorem file_backed_stream_complete_witness:
  "tstream.truncate (fs_writes [(''ab'', None), (''cd'', Some ''c'')] (fs_init 2 None (Some ''/tmp/x'')))
     = ts_writes [''ab'', ''cd''] (ts_init 2 None) \<and>
   f_failed (fs_writes [(''ab'', None), (''cd'', Some ''c'')] (fs_init 2 None (Some ''/tmp/x'')))"
  using file_backed_stream_complete [of "[(''ab'', None), (''cd'', Some ''c'')]" 2 None "Some ''/tmp/x''"]
  by (simp add: Let_def del: fs_writes.simps ts_writes.simps)

text \<open>With \<^verbatim>\<open>tail_chars\<close> above the limit the head limit is negative, and the first write loses its
  start although nothing counts as truncated.\<close>

lemma tail_above_limit_loses_text:
  "ts_getvalue (snd (ts_write ''abcd'' (ts_init 5 (Some 7)))) = ''cd'' \<and>
   \<not> was_truncated (snd (ts_write ''abcd'' (ts_init 5 (Some 7))))"
  by (simp add: ts_write_def ts_init_def add_to_tail_def evict.simps slice_from_def py_idx_def ts_getvalue_def
      value_with_def was_truncated_def get_tail_def Let_def)

end
