(* ===== verification/Snapshot_Codec.thy ===== *)
theory Snapshot_Codec
  imports Complex_Main Py_Prelude
begin

text \<open>
  Serialisation of agent snapshots: \<^verbatim>\<open>src/nooa/storage/serialization.py\<close>.

  Python values are primitives or references into a heap of containers and objects, so that
  sharing and cycles are as in the program; \<^verbatim>\<open>id()\<close> of an object is its address. A JSON value
  is a \<open>blob\<close>. \<open>ser\<close> is \<^verbatim>\<open>_serialize\<close> with its state (the containers on the current path with
  their depths, the allowlist so far), \<open>deser\<close> is \<^verbatim>\<open>_deserialize\<close>. Importing a module and running a
  class's constructor or validation is not in the repository: that is the record \<open>world\<close>, an
  argument. Both directions stop at 200 levels, so both are total functions.
\<close>

section \<open>Values, objects and blobs\<close>

datatype prim = P_none | P_bool bool | P_int int | P_float rat | P_str string

datatype blob = B_prim prim | B_list "blob list" | B_dict "(string \<times> blob) list"

text \<open>An enum member is unwrapped before its identity matters, so it is not on the heap.\<close>

datatype pv = Prim prim | Enum_of pv | Ref nat

datatype pkey = K_str string | K_other string

fun key_name :: "pkey \<Rightarrow> string" where
  "key_name (K_str s) = s"
| "key_name (K_other s) = s"

text \<open>
  An object as the dispatch of \<^verbatim>\<open>_serialize\<close> classifies it: a value whose class is marked
  \<^verbatim>\<open>__nosnapshot__\<close> (with its entries if it is a dict), a dict, list or tuple, a Pydantic model (class, fields with the extra ones, and
  what its hook \<^verbatim>\<open>__snapshot_data__\<close> returns if it has one), a dataclass, an instance of a
  \<^verbatim>\<open>@snapshotable\<close> class (with the name of its lenient dict attribute if the class has one), or
  anything else.
\<close>

datatype obj =
    Obj_skip "(pkey \<times> pv) list option"
  | Obj_dict "(pkey \<times> pv) list"
  | Obj_list "pv list"
  | Obj_tuple "pv list"
  | Obj_model string "(string \<times> pv) list" "blob option"
  | Obj_dataclass string "(string \<times> pv) list"
  | Obj_snapshotable string "(string \<times> pv) list" "string option"
  | Obj_other

definition skipped :: "obj \<Rightarrow> bool" where
  "skipped ob = (case ob of Obj_skip _ \<Rightarrow> True | _ \<Rightarrow> False)"

type_synonym heap = "nat \<Rightarrow> obj"

definition max_snapshot_depth :: nat where "max_snapshot_depth = 200"

definition t_pydantic :: string where "t_pydantic = ''pydantic''"
definition t_dataclass :: string where "t_dataclass = ''dataclass''"
definition t_dict_class :: string where "t_dict_class = ''dict_class''"
definition t_tuple :: string where "t_tuple = ''tuple''"

definition envelope_types :: "string list" where
  "envelope_types = [t_pydantic, t_dataclass, t_dict_class, t_tuple]"

lemmas tags = t_pydantic_def t_dataclass_def t_dict_class_def t_tuple_def

definition B_str :: "string \<Rightarrow> blob" where "B_str s = B_prim (P_str s)"

definition tuple_blob :: "blob list \<Rightarrow> blob" where
  "tuple_blob items = B_dict [(''__type__'', B_str t_tuple), (''data'', B_list items)]"

definition envelope :: "string \<Rightarrow> string \<Rightarrow> blob \<Rightarrow> blob" where
  "envelope kind fqn data = B_dict [(''__type__'', B_str kind), (''__class__'', B_str fqn), (''data'', data)]"

section \<open>Errors with paths\<close>

text \<open>
  \<open>R_depth\<close>, \<open>R_cycle\<close> (with the depth of the container it refers back to), \<open>R_type\<close> and \<open>R_key\<close>
  are the reasons of a \<^verbatim>\<open>_PathError\<close>; the frames it passes add the way to the value, here from the root.
  \<open>R_py\<close> is a Python error that nothing catches; the rest are errors of restoring.
\<close>

datatype seg = S_key string | S_idx nat | S_attr string
datatype reason = R_depth | R_cycle nat | R_type | R_key string | R_py py_error | R_denied | R_import | R_build

record perr =
  pe_reason :: reason
  pe_path :: "seg list"

definition err :: "reason \<Rightarrow> perr" where
  "err r = \<lparr>pe_reason = r, pe_path = []\<rparr>"

definition is_path_error :: "perr \<Rightarrow> bool" where
  "is_path_error e = (case pe_reason e of R_depth \<Rightarrow> True | R_cycle _ \<Rightarrow> True | R_type \<Rightarrow> True | R_key _ \<Rightarrow> True | _ \<Rightarrow> False)"

definition at_seg :: "seg \<Rightarrow> perr + 'a \<Rightarrow> perr + 'a" where
  "at_seg s r = (case r of
     Inl e \<Rightarrow> Inl (if is_path_error e then e\<lparr>pe_path := s # pe_path e\<rparr> else e)
   | Inr x \<Rightarrow> Inr x)"

lemma at_seg_simps [simp]: "at_seg s (Inr x) = Inr x" "at_seg s r = Inr x \<longleftrightarrow> r = Inr x"
  by (auto simp: at_seg_def split: sum.splits)

section \<open>Blob shapes and the depth check of hook data\<close>

datatype shape = Sh_tuple blob | Sh_envelope string blob blob | Sh_plain

text \<open>Testing an unhashable \<^verbatim>\<open>__type__\<close> for membership in a set raises TypeError.\<close>

definition classify :: "(string \<times> blob) list \<Rightarrow> perr + shape" where
  "classify kvs =
     (case (dict_get kvs ''__type__'', dict_get kvs ''data'') of
        (Some (B_prim (P_str k)), Some data) \<Rightarrow>
          (if k = t_tuple then Inr (Sh_tuple data)
           else case dict_get kvs ''__class__'' of
             Some cls \<Rightarrow> if k \<in> set envelope_types then Inr (Sh_envelope k cls data) else Inr Sh_plain
           | None \<Rightarrow> Inr Sh_plain)
      | (Some (B_list _), _) \<Rightarrow> Inl (err (R_py TypeError))
      | (Some (B_dict _), _) \<Rightarrow> Inl (err (R_py TypeError))
      | _ \<Rightarrow> Inr Sh_plain)"

text \<open>Iterating a blob: a list's items, a string's characters, a dict's keys.\<close>

definition blob_items :: "blob \<Rightarrow> perr + blob list" where
  "blob_items b = (case b of
     B_list xs \<Rightarrow> Inr xs
   | B_prim (P_str s) \<Rightarrow> Inr (map (\<lambda>c. B_str [c]) s)
   | B_dict kvs \<Rightarrow> Inr (map (\<lambda>(k, v). B_str k) kvs)
   | _ \<Rightarrow> Inl (err (R_py TypeError)))"

text \<open>Visit the entries in order and stop at the first error.\<close>

fun each :: "('k \<Rightarrow> 'v \<Rightarrow> perr + 'r) \<Rightarrow> ('k \<times> 'v) list \<Rightarrow> perr + ('k \<times> 'r) list" where
  "each f [] = Inr []"
| "each f ((k, v) # xs) = (case f k v of
     Inl e \<Rightarrow> Inl e
   | Inr r \<Rightarrow> (case each f xs of Inl e \<Rightarrow> Inl e | Inr rs \<Rightarrow> Inr ((k, r) # rs)))"

lemma each_cong [fundef_cong]:
  assumes "xs = ys" and "\<And>k v. (k, v) \<in> set ys \<Longrightarrow> f k v = g k v"
  shows "each f xs = each g ys"
  using assms(2) unfolding assms(1)
proof (induction ys)
  case (Cons e ys)
  obtain k v where e: "e = (k, v)" by (cases e)
  from Cons.prems have "f k v = g k v" by (simp add: e)
  moreover have "each f ys = each g ys" by (rule Cons.IH) (simp add: Cons.prems)
  ultimately show ?case by (simp add: e split: sum.split)
qed simp

definition numbered :: "'a list \<Rightarrow> (nat \<times> 'a) list" where
  "numbered xs = zip [0..<length xs] xs"

function check_blob :: "nat \<Rightarrow> blob \<Rightarrow> perr + unit" where
  "check_blob d b = (case b of
     B_prim _ \<Rightarrow> Inr ()
   | B_list xs \<Rightarrow>
       (if max_snapshot_depth \<le> d then Inl (err R_depth)
        else map_sum id (\<lambda>_. ()) (each (\<lambda>i x. at_seg (S_idx i) (check_blob (Suc d) x)) (numbered xs)))
   | B_dict kvs \<Rightarrow>
       (if max_snapshot_depth \<le> d then Inl (err R_depth)
        else case classify kvs of
          Inl e \<Rightarrow> Inl e
        | Inr (Sh_tuple data) \<Rightarrow> (case blob_items data of
              Inl e \<Rightarrow> Inl e
            | Inr xs \<Rightarrow> map_sum id (\<lambda>_. ()) (each (\<lambda>i x. at_seg (S_idx i) (check_blob (Suc d) x)) (numbered xs)))
        | Inr (Sh_envelope _ _ data) \<Rightarrow> (case data of
              B_dict fs \<Rightarrow> map_sum id (\<lambda>_. ()) (each (\<lambda>k x. at_seg (S_attr k) (check_blob (Suc d) x)) fs)
            | _ \<Rightarrow> check_blob (Suc d) data)
        | Inr Sh_plain \<Rightarrow> map_sum id (\<lambda>_. ()) (each (\<lambda>k x. at_seg (S_key k) (check_blob (Suc d) x)) kvs)))"
  by pat_completeness auto
termination
  by (relation "measure (\<lambda>(d, b). max_snapshot_depth - d)") auto

declare check_blob.simps [simp del]

definition check_snapshot_data :: "blob \<Rightarrow> nat \<Rightarrow> perr + unit" where
  "check_snapshot_data data d = (case data of
     B_dict fs \<Rightarrow> map_sum id (\<lambda>_. ()) (each (\<lambda>k x. at_seg (S_attr k) (check_blob d x)) fs)
   | _ \<Rightarrow> check_blob d data)"

section \<open>Serialising\<close>

text \<open>
  The state that a serialisation threads through is the allowlist; a skipped value is \<open>None\<close>.
  \<open>visit\<close> runs over the entries of a container, leaving skipped ones out.
\<close>

type_synonym 'a ser_res = "(perr + 'a) \<times> string list"

fun visit :: "('k \<Rightarrow> 'v \<Rightarrow> string list \<Rightarrow> blob option ser_res) \<Rightarrow> ('k \<times> 'v) list \<Rightarrow> string list \<Rightarrow> ('k \<times> blob) list ser_res" where
  "visit f [] al = (Inr [], al)"
| "visit f ((k, v) # xs) al = (case f k v al of
     (Inl e, al1) \<Rightarrow> (Inl e, al1)
   | (Inr None, al1) \<Rightarrow> visit f xs al1
   | (Inr (Some b), al1) \<Rightarrow> (case visit f xs al1 of
        (Inl e, al2) \<Rightarrow> (Inl e, al2) | (Inr bs, al2) \<Rightarrow> (Inr ((k, b) # bs), al2)))"

lemma visit_cong [fundef_cong]:
  assumes "xs = ys" and "al = al'" and "\<And>k v a. (k, v) \<in> set ys \<Longrightarrow> f k v a = g k v a"
  shows "visit f xs al = visit g ys al'"
  using assms(3) unfolding assms(1,2)
  by (induction g ys al' rule: visit.induct) (auto split: sum.splits option.splits prod.splits)

text \<open>The entries of a lenient dict: one that fails is left out, what it put on the allowlist stays.\<close>

definition lenient :: "blob option ser_res \<Rightarrow> blob option ser_res" where
  "lenient r = (case r of (Inl e, al) \<Rightarrow> if is_path_error e then (Inr None, al) else r | _ \<Rightarrow> r)"

definition place :: "('b \<Rightarrow> blob) \<Rightarrow> 'b ser_res \<Rightarrow> blob option ser_res" where
  "place wrap r = (case r of (Inl e, al) \<Rightarrow> (Inl e, al) | (Inr b, al) \<Rightarrow> (Inr (Some (wrap b)), al))"

definition at1 :: "seg \<Rightarrow> 'a ser_res \<Rightarrow> 'a ser_res" where
  "at1 sg r = (at_seg sg (fst r), snd r)"

text \<open>The fields of a \<^verbatim>\<open>@snapshotable\<close> object whose lenient attribute holds a dict, and that dict.\<close>

definition lenient_dict :: "heap \<Rightarrow> (string \<times> pv) list \<Rightarrow> string option \<Rightarrow> (string \<times> nat \<times> (pkey \<times> pv) list) option" where
  "lenient_dict h fs name = (case name of None \<Rightarrow> None
   | Some n \<Rightarrow> (case dict_get fs n of
        Some (Ref r) \<Rightarrow> (case h r of
            Obj_dict kvs \<Rightarrow> Some (n, r, kvs) | Obj_skip (Some kvs) \<Rightarrow> Some (n, r, kvs) | _ \<Rightarrow> None)
      | _ \<Rightarrow> None))"

definition serialize_fields ::
  "(pv \<Rightarrow> string list \<Rightarrow> blob option ser_res) \<Rightarrow> (string \<times> pv) list \<Rightarrow> string list \<Rightarrow> (string \<times> blob) list ser_res" where
  "serialize_fields f fs al = visit (\<lambda>k w a. at1 (S_attr k) (f w a)) fs al"

definition serialize_lenient_dict ::
  "(pv \<Rightarrow> string list \<Rightarrow> blob option ser_res) \<Rightarrow> string \<Rightarrow> nat \<Rightarrow> (pkey \<times> pv) list \<Rightarrow> (nat \<times> nat) list \<Rightarrow> nat \<Rightarrow> string list
   \<Rightarrow> (pkey \<times> blob) list ser_res" where
  "serialize_lenient_dict f n q kvs act d al =
     (case map_of act q of
        Some start \<Rightarrow> (at_seg (S_attr n) (Inl (err (R_cycle start))), al)
      | None \<Rightarrow>
         if max_snapshot_depth \<le> d then (at_seg (S_attr n) (Inl (err R_depth)), al)
         else visit (\<lambda>k w a. lenient (case k of
             K_str s \<Rightarrow> f w a | K_other s \<Rightarrow> (Inl (err (R_key s)), a))) kvs al)"

function ser :: "heap \<Rightarrow> (nat \<times> nat) list \<Rightarrow> nat \<Rightarrow> pv \<Rightarrow> string list \<Rightarrow> blob option ser_res" where
  "ser h act d v al = (case v of
     Prim p \<Rightarrow> (Inr (Some (B_prim p)), al)
   | Enum_of w \<Rightarrow> ser h act d w al
   | Ref r \<Rightarrow>
      (if skipped (h r) then (Inr None, al)
       else case map_of act r of
         Some start \<Rightarrow> (Inl (err (R_cycle start)), al)
       | None \<Rightarrow>
        (if max_snapshot_depth \<le> d then (Inl (err R_depth), al)
         else case h r of
           Obj_skip _ \<Rightarrow> (Inr None, al)
         | Obj_dict kvs \<Rightarrow>
             place (\<lambda>bs. B_dict (map (\<lambda>(k, b). (key_name k, b)) bs))
               (visit (\<lambda>k w a. case k of
                    K_str s \<Rightarrow> at1 (S_key s) (ser h ((r, d) # act) (Suc d) w a)
                  | K_other s \<Rightarrow> (Inl (err (R_key s)), a)) kvs al)
         | Obj_list xs \<Rightarrow>
             place (\<lambda>bs. B_list (map snd bs))
               (visit (\<lambda>i w a. at1 (S_idx i) (ser h ((r, d) # act) (Suc d) w a)) (numbered xs) al)
         | Obj_tuple xs \<Rightarrow>
             place (\<lambda>bs. tuple_blob (map snd bs))
               (visit (\<lambda>i w a. at1 (S_idx i) (ser h ((r, d) # act) (Suc d) w a)) (numbered xs) al)
         | Obj_model fqn fs hook \<Rightarrow>
             (case hook of
                Some data \<Rightarrow> (case check_snapshot_data data (Suc d) of
                    Inl e \<Rightarrow> (Inl e, List.insert fqn al)
                  | Inr _ \<Rightarrow> (Inr (Some (envelope t_pydantic fqn data)), List.insert fqn al))
              | None \<Rightarrow>
                 place (\<lambda>bs. envelope t_pydantic fqn (B_dict bs))
                   (serialize_fields (ser h ((r, d) # act) (Suc d)) fs (List.insert fqn al)))
         | Obj_dataclass fqn fs \<Rightarrow>
             place (\<lambda>bs. envelope t_dataclass fqn (B_dict bs))
               (serialize_fields (ser h ((r, d) # act) (Suc d)) fs (List.insert fqn al))
         | Obj_snapshotable fqn fs name \<Rightarrow>
             (case lenient_dict h fs name of
                None \<Rightarrow>
                 place (\<lambda>bs. envelope t_dict_class fqn (B_dict bs))
                   (serialize_fields (ser h ((r, d) # act) (Suc d)) fs (List.insert fqn al))
              | Some (n, q, kvs) \<Rightarrow>
                 (case serialize_fields (ser h ((r, d) # act) (Suc d)) (filter (\<lambda>(k, w). k \<noteq> n) fs) (List.insert fqn al) of
                    (Inl e, al1) \<Rightarrow> (Inl e, al1)
                  | (Inr bs, al1) \<Rightarrow>
                     place (\<lambda>es. envelope t_dict_class fqn
                         (B_dict (bs @ [(n, B_dict (map (\<lambda>(k, b). (key_name k, b)) es))])))
                       (serialize_lenient_dict (ser h ((q, Suc d) # (r, d) # act) (Suc (Suc d)))
                         n q kvs ((r, d) # act) (Suc d) al1)))
         | Obj_other \<Rightarrow> (Inl (err R_type), al))))"
  by pat_completeness auto
termination
  by (relation "measures [\<lambda>(h, act, d, v, al). max_snapshot_depth - d, \<lambda>(h, act, d, v, al). size v]") auto

declare ser.simps [simp del]

text \<open>\<^verbatim>\<open>serialize(value, base_depth)\<close>: the blob (a skipped value gives \<open>None\<close>) and the allowlist.\<close>

definition serialize :: "heap \<Rightarrow> nat \<Rightarrow> pv \<Rightarrow> perr + (blob option \<times> string list)" where
  "serialize h base v = (case ser h [] base v [] of (Inl e, _) \<Rightarrow> Inl e | (Inr b, al) \<Rightarrow> Inr (b, al))"

section \<open>Restoring\<close>

text \<open>
  Restored values. \<open>R_obj\<close> is an instance of a class with its fields; a class is what its
  restoration needs to know: its name, whether it has the hook \<^verbatim>\<open>__restore_snapshot__\<close>, whether
  its model allows extra fields, its model fields, the parameters of its call signature and those
  of \<^verbatim>\<open>__init__\<close> without \<^verbatim>\<open>self\<close>.
\<close>

datatype rv = V_prim prim | V_list "rv list" | V_tuple "rv list" | V_dict "(string \<times> rv) list"
  | V_obj string "(string \<times> rv) list"

record cls =
  c_name :: string
  c_restores :: bool
  c_extra :: bool
  c_fields :: "string list"
  c_params :: "string list"
  c_init :: "string list"

datatype how = By_restore | By_validate | By_init

record world =
  w_lookup :: "string \<Rightarrow> string list \<Rightarrow> cls option"   \<comment> \<open>import a module, follow attributes\<close>
  w_build :: "how \<Rightarrow> cls \<Rightarrow> (string \<times> rv) list \<Rightarrow> perr + rv"
  w_setattr :: "string \<Rightarrow> rv \<Rightarrow> rv \<Rightarrow> rv"

definition legacy_prefix :: string where "legacy_prefix = ''nemo_oo_agents.''"
definition current_prefix :: string where "current_prefix = ''nooa.''"

definition import_candidates :: "string \<Rightarrow> string list" where
  "import_candidates fqn = fqn #
     (if take (length legacy_prefix) fqn = legacy_prefix
      then [current_prefix @ drop (length legacy_prefix) fqn] else [])"

text \<open>Module paths from the longest to the shortest; the rest of the name is followed as attributes.\<close>

fun try_splits :: "world \<Rightarrow> string list \<Rightarrow> nat \<Rightarrow> cls option" where
  "try_splits w parts 0 = None"
| "try_splits w parts (Suc i) =
     (case w_lookup w (str_join ''.'' (take (Suc i) parts)) (drop (Suc i) parts) of
        Some c \<Rightarrow> Some c | None \<Rightarrow> try_splits w parts i)"

fun import_first :: "world \<Rightarrow> string list \<Rightarrow> perr + cls" where
  "import_first w [] = Inl (err R_import)"
| "import_first w (cand # cands) =
     (let parts = str_split ''.'' cand in
      if length parts < 2 then Inl (err R_import)
      else case try_splits w parts (length parts - 1) of
        Some c \<Rightarrow> Inr c | None \<Rightarrow> import_first w cands)"

definition import_class :: "world \<Rightarrow> string \<Rightarrow> perr + cls" where
  "import_class w fqn = import_first w (import_candidates fqn)"

definition fields_of :: "blob \<Rightarrow> perr + (string \<times> blob) list" where
  "fields_of b = (case b of B_dict fs \<Rightarrow> Inr fs | _ \<Rightarrow> Inl (err (R_py AttributeError)))"

text \<open>Whether the class name of an envelope is on the allowlist; an unhashable one raises TypeError.\<close>

definition allowed_class :: "string list \<Rightarrow> blob \<Rightarrow> perr + string" where
  "allowed_class allow b = (case b of
     B_prim (P_str fqn) \<Rightarrow> if fqn \<in> set allow then Inr fqn else Inl (err R_denied)
   | B_prim _ \<Rightarrow> Inl (err R_denied)
   | _ \<Rightarrow> Inl (err (R_py TypeError)))"

definition bind :: "(perr + 'a) \<Rightarrow> ('a \<Rightarrow> perr + 'b) \<Rightarrow> perr + 'b" where
  "bind r f = (case r of Inl e \<Rightarrow> Inl e | Inr x \<Rightarrow> f x)"

lemma bind_simps [simp]: "bind (Inl e) f = Inl e" "bind (Inr x) f = f x"
  by (simp_all add: bind_def)

lemma bind_cong [fundef_cong]: "r = r' \<Longrightarrow> (\<And>x. r' = Inr x \<Longrightarrow> f x = g x) \<Longrightarrow> bind r f = bind r' g"
  by (cases r') auto

text \<open>What happens to the restored fields, by the kind of envelope.\<close>

definition build :: "world \<Rightarrow> string \<Rightarrow> cls \<Rightarrow> (string \<times> rv) list \<Rightarrow> perr + rv" where
  "build w kind c fs =
     (if kind = t_pydantic then w_build w (if c_restores c then By_restore else By_validate) c fs
      else if kind = t_dataclass then w_build w By_init c (filter (\<lambda>(k, v). k \<in> set (c_params c)) fs)
      else if kind = t_dict_class then
        bind (w_build w By_init c (filter (\<lambda>(k, v). k \<in> set (c_init c)) fs))
          (\<lambda>ob. Inr (fold (\<lambda>(k, v). w_setattr w k v) (filter (\<lambda>(k, v). k \<notin> set (c_init c)) fs) ob))
      else Inl (err R_build))"

text \<open>Obsolete fields of a model are dropped before their values are restored.\<close>

definition kept_fields :: "string \<Rightarrow> cls \<Rightarrow> (string \<times> blob) list \<Rightarrow> (string \<times> blob) list" where
  "kept_fields kind c fs =
     (if kind = t_pydantic \<and> \<not> c_restores c \<and> \<not> c_extra c
      then filter (\<lambda>(k, v). k \<in> set (c_fields c)) fs else fs)"

definition deserialize_items :: "(blob \<Rightarrow> perr + rv) \<Rightarrow> blob list \<Rightarrow> perr + rv list" where
  "deserialize_items f xs =
     bind (each (\<lambda>i x. at_seg (S_idx i) (f x)) (numbered xs)) (\<lambda>rs. Inr (map snd rs))"

definition deserialize_fields :: "(blob \<Rightarrow> perr + rv) \<Rightarrow> (string \<times> blob) list \<Rightarrow> perr + (string \<times> rv) list" where
  "deserialize_fields f fs = each (\<lambda>k x. at_seg (S_attr k) (f x)) fs"

definition deserialize_envelope ::
  "world \<Rightarrow> string list \<Rightarrow> (blob \<Rightarrow> perr + rv) \<Rightarrow> string \<Rightarrow> blob \<Rightarrow> blob \<Rightarrow> perr + rv" where
  "deserialize_envelope w allow f kind fqn data =
     bind (allowed_class allow fqn) (\<lambda>name.
     bind (import_class w name) (\<lambda>c.
     bind (fields_of data) (\<lambda>fs.
     bind (deserialize_fields f (kept_fields kind c fs)) (build w kind c))))"

text \<open>A dict, once its shape is known; \<open>f\<close> restores what is in it.\<close>

definition restore_shape ::
  "world \<Rightarrow> string list \<Rightarrow> (blob \<Rightarrow> perr + rv) \<Rightarrow> (string \<times> blob) list \<Rightarrow> shape \<Rightarrow> perr + rv" where
  "restore_shape w allow f kvs sh = (case sh of
     Sh_tuple data \<Rightarrow> bind (blob_items data) (\<lambda>xs. bind (deserialize_items f xs) (\<lambda>rs. Inr (V_tuple rs)))
   | Sh_envelope kind fqn data \<Rightarrow> deserialize_envelope w allow f kind fqn data
   | Sh_plain \<Rightarrow> bind (each (\<lambda>k x. at_seg (S_key k) (f x)) kvs) (\<lambda>rs. Inr (V_dict rs)))"

function deser :: "world \<Rightarrow> string list \<Rightarrow> nat \<Rightarrow> blob \<Rightarrow> perr + rv" where
  "deser w allow d b = (case b of
     B_prim p \<Rightarrow> Inr (V_prim p)
   | B_list xs \<Rightarrow>
       (if max_snapshot_depth \<le> d then Inl (err R_depth)
        else bind (deserialize_items (deser w allow (Suc d)) xs) (\<lambda>rs. Inr (V_list rs)))
   | B_dict kvs \<Rightarrow>
       (if max_snapshot_depth \<le> d then Inl (err R_depth)
        else bind (classify kvs) (restore_shape w allow (deser w allow (Suc d)) kvs)))"
  by pat_completeness auto
termination
  by (relation "measure (\<lambda>(w, allow, d, b). max_snapshot_depth - d)") auto

declare deser.simps [simp del]

lemma deser_kinds:
  "deser w allow d (B_prim p) = Inr (V_prim p)"
  "deser w allow d (B_list xs) =
     (if max_snapshot_depth \<le> d then Inl (err R_depth)
      else bind (deserialize_items (deser w allow (Suc d)) xs) (\<lambda>rs. Inr (V_list rs)))"
  "deser w allow d (B_dict kvs) =
     (if max_snapshot_depth \<le> d then Inl (err R_depth)
      else bind (classify kvs) (restore_shape w allow (deser w allow (Suc d)) kvs))"
  by (subst deser.simps, simp)+

definition deserialize :: "world \<Rightarrow> blob \<Rightarrow> string list \<Rightarrow> perr + rv" where
  "deserialize w b allow = deser w allow 0 b"

end
