(* ===== verification/Snapshot_Roundtrip.thy ===== *)
theory Snapshot_Roundtrip
  imports Snapshot_Codec
begin

text \<open>
  Theorems about \<^verbatim>\<open>src/nooa/storage/serialization.py\<close>: save and restore count depth alike, cycles
  are refused, restoring stays within the allowlist, the entries of a lenient dict are independent,
  and restoring inverts serialising. Proofs go by the levels left below the depth limit
  (\<open>depth_induct\<close>), over one equation per kind of container (\<open>ser_kinds\<close>).
\<close>

section \<open>Walking over entries\<close>

lemma visit_grows:
  assumes "\<And>k v a. (k, v) \<in> set xs \<Longrightarrow> set a \<subseteq> set (snd (f k v a))"
  shows "set al \<subseteq> set (snd (visit f xs al))"
  using assms
proof (induction xs arbitrary: al)
  case (Cons e xs)
  obtain k v where e: "e = (k, v)" by (cases e)
  obtain r al1 where r: "f k v al = (r, al1)" by (cases "f k v al")
  have 1: "set al \<subseteq> set al1" using Cons.prems[of k v al] by (simp add: e r)
  have 2: "set al1 \<subseteq> set (snd (visit f xs al1))" by (rule Cons.IH) (simp add: Cons.prems)
  show ?case using 1 2 by (auto simp: e r split: sum.split option.split prod.split)
qed simp

lemma visit_Cons_ok:
  "visit f ((k, v) # xs) al = (Inr bs, al') \<longleftrightarrow>
   (\<exists>ob a. f k v al = (Inr ob, a) \<and>
     (case ob of None \<Rightarrow> visit f xs a = (Inr bs, al')
      | Some b \<Rightarrow> \<exists>cs. bs = (k, b) # cs \<and> visit f xs a = (Inr cs, al')))"
proof -
  obtain r a where f: "f k v al = (r, a)" by (cases "f k v al")
  obtain rest b where g: "visit f xs a = (rest, b)" by (cases "visit f xs a")
  show ?thesis
  proof (cases r)
    case (Inr ob)
    then show ?thesis by (cases ob; cases rest) (auto simp: f g)
  qed (simp add: f)
qed

lemma visit_entries:
  assumes "visit f xs al = (Inr bs, al')" and "(k, b) \<in> set bs"
  shows "\<exists>v a a'. (k, v) \<in> set xs \<and> f k v a = (Inr (Some b), a')"
  using assms
proof (induction xs arbitrary: al bs)
  case (Cons e xs)
  obtain k1 v1 where e: "e = (k1, v1)" by (cases e)
  from Cons.prems(1) obtain ob a where f: "f k1 v1 al = (Inr ob, a)"
    and rest: "case ob of None \<Rightarrow> visit f xs a = (Inr bs, al')
      | Some b \<Rightarrow> \<exists>cs. bs = (k1, b) # cs \<and> visit f xs a = (Inr cs, al')"
    unfolding e visit_Cons_ok by blast
  show ?case
  proof (cases ob)
    case None
    with rest Cons.prems(2) Cons.IH [of a bs] show ?thesis by (auto simp: e)
  next
    case (Some b1)
    with rest obtain cs where cs: "bs = (k1, b1) # cs" "visit f xs a = (Inr cs, al')" by auto
    with Cons.prems(2) Cons.IH [of a cs] f Some show ?thesis by (auto simp: e)
  qed
qed simp

lemma place_ok [simp]:
  "place wrap r = (Inr ob, al) \<longleftrightarrow> (\<exists>b. r = (Inr b, al) \<and> ob = Some (wrap b))"
  "snd (place wrap r) = snd r"
  by (auto simp: place_def split: sum.splits prod.splits)

lemma at1_ok [simp]:
  "at1 s r = (Inr x, al) \<longleftrightarrow> r = (Inr x, al)"
  "snd (at1 s r) = snd r"
  by (auto simp: at1_def prod_eq_iff)

lemma lenient_snd [simp]: "snd (lenient r) = snd r"
  by (auto simp: lenient_def split: sum.splits prod.splits)

text \<open>Induction on the levels left below the depth limit.\<close>

lemma depth_induct:
  assumes prim: "\<And>d p. P d (Prim p)"
    and enum: "\<And>d w. P d w \<Longrightarrow> P d (Enum_of w)"
    and ref: "\<And>d r. (\<And>d' v. d < max_snapshot_depth \<Longrightarrow> d < d' \<Longrightarrow> P d' v) \<Longrightarrow> P d (Ref r)"
  shows "P d v"
proof (induction "max_snapshot_depth - d" arbitrary: d v rule: less_induct)
  case (less d v)
  show ?case
  proof (induction v)
    case (Ref r)
    show ?case by (rule ref) (rule less, simp)
  qed (auto intro: prim enum)
qed

lemma ser_Prim [simp]: "ser h act d (Prim p) al = (Inr (Some (B_prim p)), al)"
  by (simp add: ser.simps)

lemma ser_Enum [simp]: "ser h act d (Enum_of w) al = ser h act d w al"
  by (simp add: ser.simps)

lemma serialize_fields_grows:
  assumes "\<And>w a. set a \<subseteq> set (snd (f w a))"
  shows "set al \<subseteq> set (snd (serialize_fields f fs al))"
  unfolding serialize_fields_def by (rule visit_grows) (simp add: assms)

lemma serialize_lenient_dict_grows:
  assumes "\<And>w a. set a \<subseteq> set (snd (f w a))"
  shows "set al \<subseteq> set (snd (serialize_lenient_dict f n q kvs act d al))"
proof -
  have "set al \<subseteq> set (snd (visit (\<lambda>k w a. lenient (case k of
      K_str s \<Rightarrow> f w a | K_other s \<Rightarrow> (Inl (err (R_key s)), a))) kvs al))"
    by (rule visit_grows) (simp add: assms split: pkey.split)
  then show ?thesis by (simp add: serialize_lenient_dict_def split: option.split)
qed

text \<open>Serialising a container that is on no path and above the limit, by its kind.\<close>

definition fresh :: "(nat \<times> nat) list \<Rightarrow> nat \<Rightarrow> nat \<Rightarrow> bool" where
  "fresh act d r \<longleftrightarrow> map_of act r = None \<and> d < max_snapshot_depth"

lemma ser_kinds:
  assumes "fresh act d r"
  shows
    "h r = Obj_dict kvs \<Longrightarrow> ser h act d (Ref r) al =
       place (\<lambda>bs. B_dict (map (\<lambda>(k, b). (key_name k, b)) bs))
         (visit (\<lambda>k w a. case k of
            K_str s \<Rightarrow> at1 (S_key s) (ser h ((r, d) # act) (Suc d) w a)
          | K_other s \<Rightarrow> (Inl (err (R_key s)), a)) kvs al)"
    "h r = Obj_list xs \<Longrightarrow> ser h act d (Ref r) al =
       place (\<lambda>bs. B_list (map snd bs))
         (visit (\<lambda>i w a. at1 (S_idx i) (ser h ((r, d) # act) (Suc d) w a)) (numbered xs) al)"
    "h r = Obj_tuple xs \<Longrightarrow> ser h act d (Ref r) al =
       place (\<lambda>bs. tuple_blob (map snd bs))
         (visit (\<lambda>i w a. at1 (S_idx i) (ser h ((r, d) # act) (Suc d) w a)) (numbered xs) al)"
    "h r = Obj_model fqn fs None \<Longrightarrow> ser h act d (Ref r) al =
       place (\<lambda>bs. envelope t_pydantic fqn (B_dict bs))
         (serialize_fields (ser h ((r, d) # act) (Suc d)) fs (List.insert fqn al))"
    "h r = Obj_model fqn fs (Some data) \<Longrightarrow> ser h act d (Ref r) al =
       (case check_snapshot_data data (Suc d) of
          Inl e \<Rightarrow> (Inl e, List.insert fqn al)
        | Inr _ \<Rightarrow> (Inr (Some (envelope t_pydantic fqn data)), List.insert fqn al))"
    "h r = Obj_dataclass fqn fs \<Longrightarrow> ser h act d (Ref r) al =
       place (\<lambda>bs. envelope t_dataclass fqn (B_dict bs))
         (serialize_fields (ser h ((r, d) # act) (Suc d)) fs (List.insert fqn al))"
    "h r = Obj_snapshotable fqn fs name \<Longrightarrow> lenient_dict h fs name = None \<Longrightarrow> ser h act d (Ref r) al =
       place (\<lambda>bs. envelope t_dict_class fqn (B_dict bs))
         (serialize_fields (ser h ((r, d) # act) (Suc d)) fs (List.insert fqn al))"
    "h r = Obj_snapshotable fqn fs name \<Longrightarrow> lenient_dict h fs name = Some (n, q, kvs) \<Longrightarrow>
     ser h act d (Ref r) al =
       (case serialize_fields (ser h ((r, d) # act) (Suc d)) (filter (\<lambda>(k, w). k \<noteq> n) fs) (List.insert fqn al) of
          (Inl e, al1) \<Rightarrow> (Inl e, al1)
        | (Inr bs, al1) \<Rightarrow>
           place (\<lambda>es. envelope t_dict_class fqn
               (B_dict (bs @ [(n, B_dict (map (\<lambda>(k, b). (key_name k, b)) es))])))
             (serialize_lenient_dict (ser h ((q, Suc d) # (r, d) # act) (Suc (Suc d)))
               n q kvs ((r, d) # act) (Suc d) al1))"
    "h r = Obj_other \<Longrightarrow> ser h act d (Ref r) al = (Inl (err R_type), al)"
  using assms by (subst ser.simps, simp add: fresh_def skipped_def)+

lemma ser_skipped [simp]: "skipped (h r) \<Longrightarrow> ser h act d (Ref r) al = (Inr None, al)"
  by (simp add: ser.simps)

lemma ser_never_fresh:
  assumes "\<not> skipped (h r)" and "\<not> fresh act d r"
  shows "\<exists>e. \<forall>al. ser h act d (Ref r) al = (Inl e, al) \<and> is_path_error e"
  using assms by (cases "map_of act r") (auto simp: ser.simps fresh_def is_path_error_def err_def)

lemma ser_not_fresh:
  assumes "\<not> skipped (h r)" and "\<not> fresh act d r"
  shows "\<exists>e. ser h act d (Ref r) al = (Inl e, al) \<and> is_path_error e"
  using ser_never_fresh [of h r act d] assms by blast

lemma ser_grows: "set al \<subseteq> set (snd (ser h act d v al))"
proof (induction d v arbitrary: act al rule: depth_induct)
  case (3 d r)
  show ?case
  proof (cases "skipped (h r) \<or> \<not> fresh act d r")
    case True
    then show ?thesis using ser_not_fresh [of h r act d al] by force
  next
    case False
    then have fresh: "fresh act d r" and "\<not> skipped (h r)" by auto
    note kinds = ser_kinds [where h = h, OF fresh]
    have IH: "set a \<subseteq> set (snd (ser h act' d' w a))" if "d < d'" for act' d' w a
      using 3 that fresh by (auto simp: fresh_def)
    have ins: "set al \<subseteq> set (List.insert c al)" for c by auto
    have fields: "set a \<subseteq> set (snd (serialize_fields (ser h act' (Suc d)) fs a))" for act' fs a
      by (rule serialize_fields_grows) (simp add: IH)
    have fields': "set al \<subseteq> set (snd (serialize_fields (ser h act' (Suc d)) fs (List.insert c al)))" for c act' fs
      using ins fields by (rule order_trans)
    show ?thesis
    proof (cases "h r")
      case (Obj_dict kvs)
      show ?thesis unfolding kinds(1) [OF Obj_dict] place_ok
        by (rule visit_grows) (simp add: IH split: pkey.split)
    next
      case (Obj_list xs)
      show ?thesis unfolding kinds(2) [OF Obj_list] place_ok by (rule visit_grows) (simp add: IH)
    next
      case (Obj_tuple xs)
      show ?thesis unfolding kinds(3) [OF Obj_tuple] place_ok by (rule visit_grows) (simp add: IH)
    next
      case (Obj_model fqn fs hook)
      then show ?thesis using fields'
        by (cases hook) (auto simp: kinds split: sum.split)
    next
      case (Obj_dataclass fqn fs)
      then show ?thesis using fields' by (auto simp: kinds)
    next
      case (Obj_snapshotable fqn fs name)
      show ?thesis
      proof (cases "lenient_dict h fs name")
        case None
        with Obj_snapshotable show ?thesis using fields' by (auto simp: kinds)
      next
        case (Some nq)
        obtain n q kvs where nq: "nq = (n, q, kvs)" by (cases nq)
        let ?F = "serialize_fields (ser h ((r, d) # act) (Suc d)) (filter (\<lambda>(k, w). k \<noteq> n) fs) (List.insert fqn al)"
        have "set al \<subseteq> set (snd ?F)" by (rule fields')
        moreover have "set a \<subseteq> set (snd (serialize_lenient_dict (ser h act' (Suc (Suc d))) n q kvs act'' (Suc d) a))" for act' act'' a
          by (rule serialize_lenient_dict_grows) (simp add: IH)
        ultimately show ?thesis unfolding kinds(8) [OF Obj_snapshotable Some [unfolded nq]]
          by (cases ?F; cases "fst ?F") (auto simp: subset_iff)
      qed
    qed (use False kinds in \<open>auto simp: skipped_def\<close>)
  qed
qed simp_all

section \<open>Depth accounting of save and restore\<close>

text \<open>The blobs that restoring a blob goes on to, one level further down.\<close>

definition parts :: "blob \<Rightarrow> blob list" where
  "parts b = (case b of
     B_prim _ \<Rightarrow> []
   | B_list xs \<Rightarrow> xs
   | B_dict kvs \<Rightarrow> (case classify kvs of
        Inl _ \<Rightarrow> []
      | Inr (Sh_tuple data) \<Rightarrow> (case blob_items data of Inl _ \<Rightarrow> [] | Inr xs \<Rightarrow> xs)
      | Inr (Sh_envelope _ _ data) \<Rightarrow> (case data of B_dict fs \<Rightarrow> map snd fs | _ \<Rightarrow> [data])
      | Inr Sh_plain \<Rightarrow> map snd kvs))"

function fits :: "nat \<Rightarrow> blob \<Rightarrow> bool" where
  "fits d b =
     (case b of
        B_prim p \<Rightarrow> True
      | _ \<Rightarrow> if d < max_snapshot_depth then \<forall>x \<in> set (parts b). fits (Suc d) x else False)"
  by pat_completeness auto
termination
  by (relation "measure (\<lambda>(d, b). max_snapshot_depth - d)") auto

declare fits.simps [simp del]

lemma fits_iff: "fits d b \<longleftrightarrow> (\<exists>p. b = B_prim p) \<or> (d < max_snapshot_depth \<and> (\<forall>x \<in> set (parts b). fits (Suc d) x))"
  by (subst fits.simps) (cases b; simp)

lemma fits_prim [simp]: "fits d (B_prim p)" "fits d (B_str s)"
  by (subst fits_iff, simp add: B_str_def)+

lemma fits_earlier: "fits (Suc d) b \<Longrightarrow> fits d b"
proof (induction "max_snapshot_depth - d" arbitrary: d b rule: less_induct)
  case (less d b)
  show ?case
  proof (cases "\<exists>p. b = B_prim p")
    case False
    with less.prems have d: "Suc d < max_snapshot_depth" and x: "\<forall>x \<in> set (parts b). fits (Suc (Suc d)) x"
      by (auto simp: fits_iff [of "Suc d" b])
    have "fits (Suc d) x" if "x \<in> set (parts b)" for x
      by (rule less.hyps) (use d x that in auto)
    then show ?thesis using d by (auto simp: fits_iff [of d b])
  qed auto
qed

lemma fits_at_0: "fits d b \<Longrightarrow> fits 0 b"
  by (induction d) (auto intro: fits_earlier)

lemma each_ok: "each f xs = Inr rs \<Longrightarrow> (k, x) \<in> set xs \<Longrightarrow> \<exists>r. f k x = Inr r"
  by (induction xs arbitrary: rs) (auto split: sum.splits)

lemma each_err: "each f xs = Inl e \<Longrightarrow> \<exists>(k, x) \<in> set xs. f k x = Inl e"
  by (induction xs) (auto split: sum.splits)

lemma at_seg_err: "at_seg s r = Inl e \<Longrightarrow> \<exists>e'. r = Inl e' \<and> pe_reason e = pe_reason e'"
  by (auto simp: at_seg_def split: sum.splits if_splits)

lemma map_sum_ok [simp]: "map_sum id g r = Inr y \<longleftrightarrow> (\<exists>x. r = Inr x \<and> g x = y)"
  by (cases r) auto

lemma in_numbered: "x \<in> set xs \<Longrightarrow> \<exists>i. (i, x) \<in> set (numbered xs)"
  by (auto simp: numbered_def set_zip in_set_conv_nth)

lemma numbered_values [simp]: "map snd (numbered xs) = xs" "length (numbered xs) = length xs"
  by (simp_all add: numbered_def)

lemma numbered_in: "(i, x) \<in> set (numbered xs) \<Longrightarrow> x \<in> set xs"
  by (auto simp: numbered_def dest: set_zip_rightD)

text \<open>What the save-time check of hook data accepts fits where restoring walks it.\<close>

lemma check_blob_fits: "check_blob d b = Inr () \<Longrightarrow> fits d b"
proof (induction "max_snapshot_depth - d" arbitrary: d b rule: less_induct)
  case (less d b)
  show ?case
  proof (cases "\<exists>p. b = B_prim p")
    case False
    with less.prems have d: "d < max_snapshot_depth"
      by (auto simp: check_blob.simps [of d b] split: blob.splits if_splits)
    have IH: "fits (Suc d) x" if "check_blob (Suc d) x = Inr ()" for x
      using less.hyps [of "Suc d" x] that d by auto
    have walk: "fits (Suc d) x" if "each (\<lambda>k x. at_seg (sg k) (check_blob (Suc d) x)) kxs = Inr rs" "(k, x) \<in> set kxs"
      for kxs :: "('k \<times> blob) list" and sg rs k x
      using each_ok [OF that] by (auto intro: IH)
    have nwalk: "fits (Suc d) x" if "each (\<lambda>i x. at_seg (S_idx i) (check_blob (Suc d) x)) (numbered xs) = Inr rs" "x \<in> set xs"
      for xs rs x
      using walk [OF that(1)] in_numbered [OF that(2)] by blast
    have "fits (Suc d) x" if x: "x \<in> set (parts b)" for x
      using less.prems d x
      by (auto simp: check_blob.simps [of d b] parts_def split: blob.splits sum.splits shape.splits
          intro: walk nwalk IH)
    with d show ?thesis by (simp add: fits_iff [of d b])
  qed auto
qed

definition no_depth :: "perr + 'a \<Rightarrow> bool" where
  "no_depth r \<longleftrightarrow> (\<forall>e. r = Inl e \<longrightarrow> pe_reason e \<noteq> R_depth)"

lemma no_depth_simps [simp]:
  "no_depth (Inr x)" "no_depth (Inl e) \<longleftrightarrow> pe_reason e \<noteq> R_depth" "pe_reason (err r) = r"
  by (auto simp: no_depth_def err_def)

lemma no_depth_bind: "no_depth r \<Longrightarrow> (\<And>x. r = Inr x \<Longrightarrow> no_depth (f x)) \<Longrightarrow> no_depth (bind r f)"
  by (cases r) auto

lemma no_depth_each:
  assumes "\<And>k x. (k, x) \<in> set xs \<Longrightarrow> no_depth (f k x)"
  shows "no_depth (each f xs)"
  using assms by (auto simp: no_depth_def dest: each_err)

lemma no_depth_at_seg: "no_depth r \<Longrightarrow> no_depth (at_seg s r)"
  by (auto simp: no_depth_def dest: at_seg_err)

text \<open>Constructors, validators and restoration hooks do not themselves report the depth limit.\<close>

definition builds_without_depth :: "world \<Rightarrow> bool" where
  "builds_without_depth w \<longleftrightarrow> (\<forall>m c fs. no_depth (w_build w m c fs))"

lemma no_depth_leaves:
  "no_depth (classify kvs)" "no_depth (blob_items b)" "no_depth (allowed_class allow b)" "no_depth (fields_of b)"
  by (auto simp: classify_def blob_items_def allowed_class_def fields_of_def
      split: option.split blob.split prim.split)

lemma no_depth_import: "no_depth (import_class w fqn)"
proof -
  have "no_depth (import_first w cs)" for cs
    by (induction cs) (auto simp: Let_def split: option.split)
  then show ?thesis by (simp add: import_class_def)
qed

lemma no_depth_build: "builds_without_depth w \<Longrightarrow> no_depth (build w kind c fs)"
  by (auto simp: build_def builds_without_depth_def intro!: no_depth_bind)

lemma kept_fields_subset: "set (kept_fields kind c fs) \<subseteq> set fs"
  by (auto simp: kept_fields_def)

lemma no_depth_items:
  "(\<And>x. x \<in> set xs \<Longrightarrow> no_depth (f x)) \<Longrightarrow> no_depth (deserialize_items f xs)"
  unfolding deserialize_items_def
  by (auto intro!: no_depth_bind no_depth_each no_depth_at_seg dest: numbered_in)

lemma no_depth_fields:
  "(\<And>k x. (k, x) \<in> set fs \<Longrightarrow> no_depth (f x)) \<Longrightarrow> no_depth (deserialize_fields f fs)"
  unfolding deserialize_fields_def by (auto intro!: no_depth_each no_depth_at_seg)

lemma no_depth_shape:
  assumes w: "builds_without_depth w" and sh: "classify kvs = Inr sh"
    and parts: "\<And>x. x \<in> set (parts (B_dict kvs)) \<Longrightarrow> no_depth (f x)"
  shows "no_depth (restore_shape w allow f kvs sh)"
proof (cases sh)
  case (Sh_tuple data)
  have "no_depth (deserialize_items f xs)" if "blob_items data = Inr xs" for xs
    by (rule no_depth_items) (use that in \<open>auto simp: parts_def sh Sh_tuple intro!: parts\<close>)
  then show ?thesis by (auto simp: restore_shape_def Sh_tuple intro!: no_depth_bind no_depth_leaves)
next
  case (Sh_envelope kind fqn data)
  have "no_depth (deserialize_fields f (kept_fields kind c fs))" if "fields_of data = Inr fs" for c fs
  proof (rule no_depth_fields)
    fix k x assume "(k, x) \<in> set (kept_fields kind c fs)"
    with that kept_fields_subset [of kind c fs] show "no_depth (f x)"
      by (force simp: fields_of_def parts_def sh Sh_envelope split: blob.splits intro!: parts)
  qed
  then show ?thesis using w
    by (auto simp: restore_shape_def deserialize_envelope_def Sh_envelope
        intro!: no_depth_bind no_depth_leaves no_depth_import no_depth_build)
next
  case Sh_plain
  then show ?thesis
    by (force simp: restore_shape_def parts_def sh intro!: no_depth_bind no_depth_each no_depth_at_seg parts)
qed

lemma fits_deser:
  assumes w: "builds_without_depth w"
  shows "fits d b \<Longrightarrow> no_depth (deser w allow d b)"
proof (induction "max_snapshot_depth - d" arbitrary: d b rule: less_induct)
  case (less d b)
  have IH: "no_depth (deser w allow (Suc d) x)" if "d < max_snapshot_depth" "x \<in> set (parts b)" for x
    by (rule less.hyps) (use less.prems that in \<open>auto simp: fits_iff [of d b] parts_def\<close>)
  have d: "d < max_snapshot_depth" if "\<nexists>p. b = B_prim p"
    using less.prems that by (auto simp: fits_iff [of d b])
  show ?case
  proof (cases b)
    case (B_list xs)
    with d IH show ?thesis
      by (auto simp: deser_kinds parts_def intro!: no_depth_bind no_depth_items)
  next
    case (B_dict kvs)
    with d IH show ?thesis
      by (auto simp: deser_kinds intro!: no_depth_bind no_depth_leaves no_depth_shape w)
  qed (simp add: deser_kinds)
qed

section \<open>Shapes of what serialising writes\<close>

text \<open>No dict of the program uses the tag of the envelopes as a key.\<close>

definition untagged :: "(pkey \<times> pv) list \<Rightarrow> bool" where
  "untagged kvs \<longleftrightarrow> (\<forall>(k, v) \<in> set kvs. key_name k \<noteq> ''__type__'')"

definition plain_keys :: "heap \<Rightarrow> bool" where
  "plain_keys h \<longleftrightarrow> (\<forall>r. case h r of
     Obj_dict kvs \<Rightarrow> untagged kvs | Obj_skip (Some kvs) \<Rightarrow> untagged kvs | _ \<Rightarrow> True)"

lemma classify_envelope:
  "kind \<in> {t_pydantic, t_dataclass, t_dict_class} \<Longrightarrow>
   classify [(''__type__'', B_str kind), (''__class__'', B_str fqn), (''data'', data)]
     = Inr (Sh_envelope kind (B_str fqn) data)"
  by (auto simp: classify_def B_str_def envelope_types_def tags)

lemma classify_tuple: "classify [(''__type__'', B_str t_tuple), (''data'', data)] = Inr (Sh_tuple data)"
  by (auto simp: classify_def B_str_def)

lemma classify_plain:
  assumes "''__type__'' \<notin> fst ` set kvs"
  shows "classify kvs = Inr Sh_plain"
proof -
  have "dict_get kvs ''__type__'' = None" using assms by (simp add: map_of_eq_None_iff)
  then show ?thesis by (simp add: classify_def)
qed

lemma parts_written:
  "parts (tuple_blob xs) = xs"
  "kind \<in> {t_pydantic, t_dataclass, t_dict_class} \<Longrightarrow>
   parts (envelope kind fqn data) = (case data of B_dict fs \<Rightarrow> map snd fs | _ \<Rightarrow> [data])"
  "''__type__'' \<notin> fst ` set kvs \<Longrightarrow> parts (B_dict kvs) = map snd kvs"
  "parts (B_list xs) = xs"
  by (simp_all add: parts_def tuple_blob_def envelope_def classify_tuple classify_envelope classify_plain blob_items_def)

lemma written_not_prim [simp]: "tuple_blob xs \<noteq> B_prim p" "envelope kind fqn data \<noteq> B_prim p"
  by (simp_all add: tuple_blob_def envelope_def)

lemma serialize_fields_entries:
  assumes "serialize_fields f fs al = (Inr bs, al')" and "(k, b) \<in> set bs"
  shows "\<exists>v a a'. (k, v) \<in> set fs \<and> f v a = (Inr (Some b), a')"
  using visit_entries [OF assms [unfolded serialize_fields_def]] by auto

lemma dict_entries:
  assumes "visit (\<lambda>k w a. case k of K_str s \<Rightarrow> g s w a | K_other s \<Rightarrow> (Inl (err (R_key s)), a)) kvs al = (Inr bs, al')"
    and "(k, b) \<in> set bs"
  shows "\<exists>s v a a'. k = K_str s \<and> (k, v) \<in> set kvs \<and> g s v a = (Inr (Some b), a')"
  using visit_entries [OF assms] by (cases k) auto

lemma lenient_ok [simp]:
  "lenient r = (Inr (Some b), al) \<longleftrightarrow> r = (Inr (Some b), al)"
  by (auto simp: lenient_def split: sum.splits prod.splits)

lemma lenient_dict_entries:
  assumes "serialize_lenient_dict f n q kvs act d al = (Inr bs, al')" and "(k, b) \<in> set bs"
  shows "\<exists>s v a a'. k = K_str s \<and> (k, v) \<in> set kvs \<and> f v a = (Inr (Some b), a')"
proof -
  have "visit (\<lambda>k w a. lenient (case k of K_str s \<Rightarrow> f w a | K_other s \<Rightarrow> (Inl (err (R_key s)), a))) kvs al = (Inr bs, al')"
    using assms(1) by (auto simp: serialize_lenient_dict_def at_seg_def split: option.splits if_splits)
  from visit_entries [OF this assms(2)] show ?thesis by (cases k) auto
qed

lemma lenient_dict_fresh:
  "serialize_lenient_dict f n q kvs act d al = (Inr bs, al') \<Longrightarrow> d < max_snapshot_depth"
  by (auto simp: serialize_lenient_dict_def at_seg_def split: option.splits if_splits)

lemma untagged_keys:
  assumes "untagged kvs" and "\<And>k b. (k, b) \<in> set bs \<Longrightarrow> \<exists>v. (k, v) \<in> set kvs"
  shows "''__type__'' \<notin> fst ` set (map (\<lambda>(k, b). (key_name k, b)) bs)"
  using assms by (fastforce simp: untagged_def)

lemma lenient_dict_untagged:
  assumes "plain_keys h" and "lenient_dict h fs name = Some (n, q, kvs)"
  shows "untagged kvs"
proof -
  have "h q = Obj_dict kvs \<or> h q = Obj_skip (Some kvs)"
    using assms(2) by (auto simp: lenient_dict_def split: option.splits pv.splits obj.splits)
  then show ?thesis using spec [OF assms(1) [unfolded plain_keys_def], of q] by auto
qed

lemma ser_fits:
  assumes h: "plain_keys h"
  shows "ser h act d v al = (Inr (Some b), al') \<Longrightarrow> fits d b"
proof (induction d v arbitrary: act al b al' rule: depth_induct)
  case (3 d r)
  then have ok: "fresh act d r" "\<not> skipped (h r)"
    using ser_not_fresh [of h r act d al] by fastforce+
  then have d: "d < max_snapshot_depth" by (simp add: fresh_def)
  note kinds = ser_kinds [where h = h, OF ok(1)]
  have IH: "fits d' b" if "d < d'" "ser h act' d' w a = (Inr (Some b), a')" for act' d' w a b a'
    using 3(1) that d by blast
  have fields: "fits (Suc d) b"
    if "serialize_fields (ser h act' (Suc d)) fs a = (Inr bs, a')" "(k, b) \<in> set bs" for act' fs a bs a' k b
    using serialize_fields_entries [OF that] by (auto intro: IH)
  have envelope: "fits d (envelope kind fqn (B_dict bs))"
    if "kind \<in> {t_pydantic, t_dataclass, t_dict_class}" "\<And>k b. (k, b) \<in> set bs \<Longrightarrow> fits (Suc d) b" for kind fqn bs
    using that d by (auto simp: fits_iff [of d "envelope _ _ _"] parts_written)
  show ?case
  proof (cases "h r")
    case (Obj_dict kvs)
    from 3(2) [unfolded kinds(1) [OF Obj_dict]] obtain bs where
      bs: "visit (\<lambda>k w a. case k of
            K_str s \<Rightarrow> at1 (S_key s) (ser h ((r, d) # act) (Suc d) w a)
          | K_other s \<Rightarrow> (Inl (err (R_key s)), a)) kvs al = (Inr bs, al')"
      and b: "b = B_dict (map (\<lambda>(k, b). (key_name k, b)) bs)" by auto
    have kvs: "untagged kvs" using spec [OF h [unfolded plain_keys_def], of r] by (simp add: Obj_dict)
    have "fits (Suc d) x" if "(k, x) \<in> set bs" for k x
      using dict_entries [OF bs that] by (auto intro: IH)
    moreover have "''__type__'' \<notin> fst ` set (map (\<lambda>(k, b). (key_name k, b)) bs)"
      using dict_entries [OF bs] by (intro untagged_keys [OF kvs]) blast
    ultimately show ?thesis using d
      by (auto simp: b fits_iff [of d "B_dict _"] parts_written(3))
  next
    case (Obj_list xs)
    from 3(2) [unfolded kinds(2) [OF Obj_list]] obtain bs where
      bs: "visit (\<lambda>i w a. at1 (S_idx i) (ser h ((r, d) # act) (Suc d) w a)) (numbered xs) al = (Inr bs, al')"
      and b: "b = B_list (map snd bs)" by auto
    have "fits (Suc d) x" if "(k, x) \<in> set bs" for k x
      using visit_entries [OF bs that] by (auto intro: IH)
    then show ?thesis using d by (auto simp: b fits_iff [of d "B_list _"] parts_written)
  next
    case (Obj_tuple xs)
    from 3(2) [unfolded kinds(3) [OF Obj_tuple]] obtain bs where
      bs: "visit (\<lambda>i w a. at1 (S_idx i) (ser h ((r, d) # act) (Suc d) w a)) (numbered xs) al = (Inr bs, al')"
      and b: "b = tuple_blob (map snd bs)" by auto
    have "fits (Suc d) x" if "(k, x) \<in> set bs" for k x
      using visit_entries [OF bs that] by (auto intro: IH)
    then show ?thesis using d by (auto simp: b fits_iff [of d "tuple_blob _"] parts_written)
  next
    case (Obj_model fqn fs hook)
    show ?thesis
    proof (cases hook)
      case None
      with Obj_model 3(2) show ?thesis by (auto simp: kinds intro!: envelope fields)
    next
      case (Some data)
      with Obj_model 3(2) have c: "check_snapshot_data data (Suc d) = Inr ()"
        and b: "b = envelope t_pydantic fqn data"
        by (auto simp: kinds split: sum.splits)
      have "fits (Suc d) x" if "x \<in> set (case data of B_dict fs \<Rightarrow> map snd fs | _ \<Rightarrow> [data])" for x
        using that c each_ok check_blob_fits
        by (force simp: check_snapshot_data_def split: blob.splits)
      then show ?thesis using d by (auto simp: b fits_iff [of d "envelope _ _ _"] parts_written)
    qed
  next
    case (Obj_dataclass fqn fs)
    with 3(2) show ?thesis by (auto simp: kinds intro!: envelope fields)
  next
    case (Obj_snapshotable fqn fs name)
    show ?thesis
    proof (cases "lenient_dict h fs name")
      case None
      with Obj_snapshotable 3(2) show ?thesis by (auto simp: kinds intro!: envelope fields)
    next
      case (Some nq)
      obtain n q kvs where nq: "nq = (n, q, kvs)" by (cases nq)
      note L = Some [unfolded nq]
      from 3(2) [unfolded kinds(8) [OF Obj_snapshotable L]] obtain bs al1 es where
        bs: "serialize_fields (ser h ((r, d) # act) (Suc d)) (filter (\<lambda>(k, w). k \<noteq> n) fs) (List.insert fqn al) = (Inr bs, al1)"
        and es: "serialize_lenient_dict (ser h ((q, Suc d) # (r, d) # act) (Suc (Suc d))) n q kvs ((r, d) # act) (Suc d) al1 = (Inr es, al')"
        and b: "b = envelope t_dict_class fqn (B_dict (bs @ [(n, B_dict (map (\<lambda>(k, b). (key_name k, b)) es))]))"
        by (auto split: prod.splits sum.splits)
      have "fits (Suc (Suc d)) x" if "(k, x) \<in> set es" for k x
        using lenient_dict_entries [OF es that] by (auto intro: IH)
      moreover have "''__type__'' \<notin> fst ` set (map (\<lambda>(k, b). (key_name k, b)) es)"
        using lenient_dict_entries [OF es] by (intro untagged_keys [OF lenient_dict_untagged [OF h L]]) blast
      ultimately have "fits (Suc d) (B_dict (map (\<lambda>(k, b). (key_name k, b)) es))"
        using lenient_dict_fresh [OF es] by (auto simp: fits_iff [of "Suc d" "B_dict _"] parts_written(3))
      then have "fits (Suc d) x" if "(k, x) \<in> set (bs @ [(n, B_dict (map (\<lambda>(k, b). (key_name k, b)) es))])" for k x
        using that fields [OF bs, of k x] by auto
      then show ?thesis unfolding b by (intro envelope) auto
    qed
  qed (use 3(2) ok kinds in \<open>auto simp: skipped_def\<close>)
qed auto

text \<open>what serialises also restores, as far as depth goes.\<close>

theorem serialized_fits_restore:
  assumes "plain_keys h" and "builds_without_depth w" and "serialize h base v = Inr (Some b, al)"
  shows "no_depth (deserialize w b allow)"
proof -
  have "fits base b" using assms(3) by (auto simp: serialize_def intro: ser_fits [OF assms(1)] split: prod.splits sum.splits)
  then show ?thesis unfolding deserialize_def by (intro fits_deser assms(2) fits_at_0)
qed

section \<open>Containers on a path\<close>

fun deref :: "pv \<Rightarrow> nat option" where
  "deref (Prim p) = None"
| "deref (Enum_of w) = deref w"
| "deref (Ref r) = Some r"

text \<open>The values whose failure fails the container: all but the entries of a lenient dict and hook data.\<close>

definition required :: "heap \<Rightarrow> nat \<Rightarrow> pv list" where
  "required h r = (case h r of
     Obj_dict kvs \<Rightarrow> map snd kvs
   | Obj_list xs \<Rightarrow> xs
   | Obj_tuple xs \<Rightarrow> xs
   | Obj_model fqn fs hook \<Rightarrow> if hook = None then map snd fs else []
   | Obj_dataclass fqn fs \<Rightarrow> map snd fs
   | Obj_snapshotable fqn fs name \<Rightarrow>
       (case lenient_dict h fs name of
          None \<Rightarrow> map snd fs
        | Some (n, q, kvs) \<Rightarrow> map snd (filter (\<lambda>(k, w). k \<noteq> n) fs))
   | _ \<Rightarrow> [])"

definition contains :: "heap \<Rightarrow> (nat \<times> nat) set" where
  "contains h = {(r, q). \<exists>v \<in> set (required h r). deref v = Some q}"

lemma visit_all_ok:
  assumes "visit f xs al = (Inr bs, al')" and "(k, v) \<in> set xs"
  shows "\<exists>a ob a'. f k v a = (Inr ob, a')"
  using assms
proof (induction xs arbitrary: al bs)
  case (Cons e xs)
  obtain k1 v1 where e: "e = (k1, v1)" by (cases e)
  from Cons.prems(1) obtain ob a where f: "f k1 v1 al = (Inr ob, a)"
    and rest: "case ob of None \<Rightarrow> visit f xs a = (Inr bs, al')
      | Some b \<Rightarrow> \<exists>cs. bs = (k1, b) # cs \<and> visit f xs a = (Inr cs, al')"
    unfolding e visit_Cons_ok by blast
  from rest obtain cs where "visit f xs a = (Inr cs, al')" by (cases ob) auto
  with Cons.IH Cons.prems(2) f show ?case by (auto simp: e)
qed simp

lemma fields_all_ok:
  assumes "serialize_fields f fs al = (Inr bs, al')" and "(k, v) \<in> set fs"
  shows "\<exists>a ob a'. f v a = (Inr ob, a')"
  using visit_all_ok [OF assms(1) [unfolded serialize_fields_def] assms(2)] by auto

text \<open>Serialising enum members is serialising what they hold.\<close>

lemma ser_deref: "deref v = Some r \<Longrightarrow> ser h act d v al = ser h act d (Ref r) al"
  by (induction v) auto

lemma ser_required:
  assumes "ser h act d (Ref r) al = (Inr ob, al')" and "w \<in> set (required h r)"
  shows "d < max_snapshot_depth \<and> (\<exists>act' a ob' a'. ser h act' (Suc d) w a = (Inr ob', a'))"
proof -
  have "\<not> skipped (h r)" using assms(2) by (auto simp: required_def skipped_def split: obj.splits)
  moreover from this assms(1) have ok: "fresh act d r" using ser_not_fresh [of h r act d al] by fastforce
  note kinds = ser_kinds [where h = h, OF ok]
  let ?S = "ser h ((r, d) # act) (Suc d)"
  have "\<exists>a ob' a'. ?S w a = (Inr ob', a')"
  proof (cases "h r")
    case (Obj_dict kvs)
    with assms(2) obtain k where k: "(k, w) \<in> set kvs" by (auto simp: required_def)
    from assms(1) [unfolded kinds(1) [OF Obj_dict]] obtain bs where
      bs: "visit (\<lambda>k w a. case k of K_str s \<Rightarrow> at1 (S_key s) (?S w a)
          | K_other s \<Rightarrow> (Inl (err (R_key s)), a)) kvs al = (Inr bs, al')" by auto
    from visit_all_ok [OF this k] show ?thesis by (cases k) auto
  next
    case (Obj_list xs)
    then have "w \<in> set xs" using assms(2) by (simp add: required_def)
    then obtain i where "(i, w) \<in> set (numbered xs)" using in_numbered by metis
    with assms(1) [unfolded kinds(2) [OF Obj_list]] visit_all_ok show ?thesis by fastforce
  next
    case (Obj_tuple xs)
    then have "w \<in> set xs" using assms(2) by (simp add: required_def)
    then obtain i where "(i, w) \<in> set (numbered xs)" using in_numbered by metis
    with assms(1) [unfolded kinds(3) [OF Obj_tuple]] visit_all_ok show ?thesis by fastforce
  next
    case (Obj_model fqn fs hook)
    with assms show ?thesis
      by (cases hook) (auto simp: required_def kinds dest: fields_all_ok)
  next
    case (Obj_dataclass fqn fs)
    with assms show ?thesis by (auto simp: required_def kinds dest: fields_all_ok)
  next
    case (Obj_snapshotable fqn fs name)
    show ?thesis
    proof (cases "lenient_dict h fs name")
      case None
      with Obj_snapshotable assms show ?thesis by (auto simp: required_def kinds dest: fields_all_ok)
    next
      case (Some nq)
      obtain n q kvs where nq: "nq = (n, q, kvs)" by (cases nq)
      from assms(1) [unfolded kinds(8) [OF Obj_snapshotable Some [unfolded nq]]] obtain bs al1 where
        "serialize_fields ?S (filter (\<lambda>(k, w). k \<noteq> n) fs) (List.insert fqn al) = (Inr bs, al1)"
        by (auto split: prod.splits sum.splits)
      moreover have "w \<in> set (map snd (filter (\<lambda>(k, w). k \<noteq> n) fs))"
        using assms(2) by (simp add: required_def Obj_snapshotable Some nq)
      ultimately show ?thesis by (auto dest: fields_all_ok)
    qed
  qed (use assms(2) in \<open>auto simp: required_def\<close>)
  with ok show ?thesis by (auto simp: fresh_def)
qed

lemma ser_paths:
  assumes "ser h act d (Ref r) al = (Inr ob, al')" and "(r, q) \<in> contains h ^^ k"
  shows "(k = 0 \<or> d + k \<le> max_snapshot_depth) \<and>
    (\<exists>act' a ob' a'. ser h act' (d + k) (Ref q) a = (Inr ob', a'))"
  using assms(2)
proof (induction k arbitrary: q)
  case 0
  with assms(1) show ?case by auto
next
  case (Suc k)
  then obtain p where p: "(r, p) \<in> contains h ^^ k" and pq: "(p, q) \<in> contains h" by auto
  from Suc.IH [OF p] obtain act' a ob' a' where "ser h act' (d + k) (Ref p) a = (Inr ob', a')" by blast
  moreover from pq obtain w where "w \<in> set (required h p)" "deref w = Some q" by (auto simp: contains_def)
  ultimately obtain act2 b ob2 b2 where "d + k < max_snapshot_depth" "ser h act2 (Suc (d + k)) w b = (Inr ob2, b2)"
    using ser_required by blast
  with ser_deref [OF \<open>deref w = Some q\<close>] show ?case by simp blast
qed

lemma relpow_loop: "(q, q) \<in> R ^^ n \<Longrightarrow> (q, q) \<in> R ^^ (m * n)"
proof (induction m)
  case (Suc m)
  then have "(q, q) \<in> R ^^ (n + m * n)" unfolding relpow_add by blast
  then show ?case by simp
qed simp

text \<open>a value that serialises reaches no container that contains itself.\<close>

theorem serialized_has_no_cycle:
  assumes "serialize h base v = Inr x" and "deref v = Some r" and "(r, q) \<in> (contains h)\<^sup>*"
  shows "(q, q) \<notin> (contains h)\<^sup>+"
proof
  assume "(q, q) \<in> (contains h)\<^sup>+"
  then obtain n where n: "n > 0" "(q, q) \<in> contains h ^^ n" by (auto simp: trancl_power)
  obtain k where k: "(r, q) \<in> contains h ^^ k" using assms(3) by (auto simp: rtrancl_power)
  have "(r, q) \<in> contains h ^^ (k + Suc max_snapshot_depth * n)"
    unfolding relpow_add using k relpow_loop [OF n(2)] by blast
  moreover obtain ob al where "ser h [] base (Ref r) [] = (Inr ob, al)"
    using assms(1) ser_deref [OF assms(2)] by (auto simp: serialize_def split: prod.splits sum.splits)
  ultimately have "base + (k + Suc max_snapshot_depth * n) \<le> max_snapshot_depth" using ser_paths n(1) by fastforce
  moreover have "Suc max_snapshot_depth * 1 \<le> Suc max_snapshot_depth * n" using n(1) by (intro mult_le_mono2) simp
  ultimately show False by simp
qed

section \<open>The allowlist\<close>

definition agree_on :: "string set \<Rightarrow> world \<Rightarrow> world \<Rightarrow> bool" where
  "agree_on A w w' \<longleftrightarrow> w_setattr w = w_setattr w' \<and>
     (\<forall>n \<in> A. import_class w n = import_class w' n \<and>
       (\<forall>c. import_class w n = Inr c \<longrightarrow> (\<forall>m fs. w_build w m c fs = w_build w' m c fs)))"

text \<open>C17: outside the allowlist, nothing that could be imported or built matters.\<close>

theorem restore_confined_to_allowlist:
  assumes "agree_on (set allow) w w'"
  shows "deserialize w b allow = deserialize w' b allow"
proof -
  have envelope: "deserialize_envelope w allow f kind fqn data = deserialize_envelope w' allow f kind fqn data"
    for f kind fqn data
  proof (cases "allowed_class allow fqn")
    case (Inr name)
    then have "name \<in> set allow" by (auto simp: allowed_class_def split: blob.splits prim.splits if_splits)
    with assms have imp: "import_class w name = import_class w' name"
      and bld: "\<And>c m fs. import_class w' name = Inr c \<Longrightarrow> w_build w m c fs = w_build w' m c fs"
      by (auto simp: agree_on_def)
    have "build w kind c = build w' kind c" if "import_class w' name = Inr c" for c
      using bld [OF that] assms by (intro ext) (simp add: build_def agree_on_def)
    then show ?thesis using Inr by (cases "import_class w' name") (simp_all add: deserialize_envelope_def imp)
  qed (simp add: deserialize_envelope_def)
  have shape: "restore_shape w allow f = restore_shape w' allow f" for f
    by (intro ext) (simp add: restore_shape_def envelope split: shape.split)
  have "deser w allow d b = deser w' allow d b" for d b
  proof (induction "max_snapshot_depth - d" arbitrary: d b rule: less_induct)
    case (less d b)
    show ?case
    proof (cases "d < max_snapshot_depth")
      case True
      then have "deser w allow (Suc d) = deser w' allow (Suc d)" using less by auto
      then show ?thesis by (cases b) (simp_all add: deser_kinds shape)
    qed (cases b; simp add: deser_kinds)
  qed
  then show ?thesis by (simp add: deserialize_def)
qed

section \<open>Lenient dicts\<close>

text \<open>The allowlist collected so far does not influence what is written.\<close>

lemma visit_indep:
  assumes "\<And>k v a a'. (k, v) \<in> set xs \<Longrightarrow> fst (f k v a) = fst (f k v a')"
  shows "fst (visit f xs al) = fst (visit f xs al')"
  using assms
proof (induction xs arbitrary: al al')
  case (Cons e xs)
  obtain k v where e: "e = (k, v)" by (cases e)
  obtain r a where a: "f k v al = (r, a)" by (cases "f k v al")
  obtain a' where a': "f k v al' = (r, a')"
    using Cons.prems [of k v al al'] by (cases "f k v al'") (simp add: e a)
  have IH: "fst (visit f xs a) = fst (visit f xs a')" by (rule Cons.IH) (simp add: Cons.prems)
  obtain x b where x: "visit f xs a = (x, b)" by (cases "visit f xs a")
  obtain b' where x': "visit f xs a' = (x, b')" using IH by (cases "visit f xs a'") (simp add: x)
  show ?case
  proof (cases r)
    case (Inr ob)
    then show ?thesis by (cases ob; cases x) (simp_all add: e a a' x x')
  qed (simp add: e a a')
qed simp

lemma fst_place: "fst (place wrap r) = map_sum id (\<lambda>b. Some (wrap b)) (fst r)"
  by (cases r; cases "fst r") (auto simp: place_def)

lemma fst_lenient_eq: "fst r = fst r' \<Longrightarrow> fst (lenient r) = fst (lenient r')"
  by (cases r; cases r'; cases "fst r") (auto simp: lenient_def)

lemma fst_at1: "fst (at1 s r) = at_seg s (fst r)"
  by (simp add: at1_def)

definition indep :: "('a \<Rightarrow> string list \<Rightarrow> 'b ser_res) \<Rightarrow> bool" where
  "indep f \<longleftrightarrow> (\<forall>v a a'. fst (f v a) = fst (f v a'))"

lemma indepD: "indep f \<Longrightarrow> fst (f v a) = fst (f v a')"
  by (simp add: indep_def)

lemma serialize_fields_indep: "indep f \<Longrightarrow> fst (serialize_fields f fs al) = fst (serialize_fields f fs al')"
  unfolding serialize_fields_def by (rule visit_indep) (auto simp: fst_at1 intro!: arg_cong [where f = "at_seg _"] indepD)

lemma serialize_lenient_dict_indep:
  assumes "indep f"
  shows "fst (serialize_lenient_dict f n q kvs act d al) = fst (serialize_lenient_dict f n q kvs act d al')"
proof -
  have "fst (visit (\<lambda>k w a. lenient (case k of K_str s \<Rightarrow> f w a | K_other s \<Rightarrow> (Inl (err (R_key s)), a))) kvs al)
      = fst (visit (\<lambda>k w a. lenient (case k of K_str s \<Rightarrow> f w a | K_other s \<Rightarrow> (Inl (err (R_key s)), a))) kvs al')"
    by (rule visit_indep, rule fst_lenient_eq) (auto split: pkey.split intro: indepD [OF assms])
  then show ?thesis by (simp add: serialize_lenient_dict_def split: option.split)
qed

lemma ser_indep: "indep (ser h act d)"
  unfolding indep_def
proof (intro allI)
  fix v al al'
  show "fst (ser h act d v al) = fst (ser h act d v al')"
  proof (induction d v arbitrary: act al al' rule: depth_induct)
    case (3 d r)
    show ?case
    proof (cases "skipped (h r)")
      case False
      show ?thesis
      proof (cases "fresh act d r")
        case True
        note kinds = ser_kinds [where h = h, OF True]
        have IH: "fst (ser h act' d' w a) = fst (ser h act' d' w a')" if "d < d'" for act' d' w a a'
          using 3(1) that True by (auto simp: fresh_def)
        have sub: "indep (ser h act' d')" if "d < d'" for act' d' unfolding indep_def using IH [OF that] by blast
        have fields: "fst (serialize_fields (ser h act' (Suc d)) fs a) = fst (serialize_fields (ser h act' (Suc d)) fs a')"
          for act' fs a a' by (rule serialize_fields_indep [OF sub]) simp
        show ?thesis
        proof (cases "h r")
          case (Obj_dict kvs)
          show ?thesis unfolding kinds(1) [OF Obj_dict] fst_place
            by (rule arg_cong [where f = "map_sum _ _"], rule visit_indep)
              (auto simp: fst_at1 split: pkey.split intro!: arg_cong [where f = "at_seg _"] IH)
        next
          case (Obj_list xs)
          show ?thesis unfolding kinds(2) [OF Obj_list] fst_place
            by (rule arg_cong [where f = "map_sum _ _"], rule visit_indep) (auto simp: fst_at1 intro!: arg_cong [where f = "at_seg _"] IH)
        next
          case (Obj_tuple xs)
          show ?thesis unfolding kinds(3) [OF Obj_tuple] fst_place
            by (rule arg_cong [where f = "map_sum _ _"], rule visit_indep) (auto simp: fst_at1 intro!: arg_cong [where f = "at_seg _"] IH)
        next
          case (Obj_model fqn fs hook)
          then show ?thesis
            by (cases hook) (auto simp: kinds fst_place split: sum.split intro!: arg_cong [where f = "map_sum _ _"] fields)
        next
          case (Obj_dataclass fqn fs)
          then show ?thesis by (auto simp: kinds fst_place intro!: arg_cong [where f = "map_sum _ _"] fields)
        next
          case (Obj_snapshotable fqn fs name)
          show ?thesis
          proof (cases "lenient_dict h fs name")
            case None
            with Obj_snapshotable show ?thesis by (auto simp: kinds fst_place intro!: arg_cong [where f = "map_sum _ _"] fields)
          next
            case (Some nq)
            obtain n q kvs where nq: "nq = (n, q, kvs)" by (cases nq)
            let ?F = "serialize_fields (ser h ((r, d) # act) (Suc d)) (filter (\<lambda>(k, w). k \<noteq> n) fs)"
            obtain x a where a: "?F (List.insert fqn al) = (x, a)" by (cases "?F (List.insert fqn al)")
            obtain a' where a': "?F (List.insert fqn al') = (x, a')"
              using fields [of "(r, d) # act" "filter (\<lambda>(k, w). k \<noteq> n) fs" "List.insert fqn al" "List.insert fqn al'"]
              by (cases "?F (List.insert fqn al')") (simp add: a)
            have "fst (serialize_lenient_dict (ser h act' (Suc (Suc d))) n q kvs act'' (Suc d) b)
                = fst (serialize_lenient_dict (ser h act' (Suc (Suc d))) n q kvs act'' (Suc d) b')" for act' act'' b b'
              by (rule serialize_lenient_dict_indep [OF sub]) simp
            then show ?thesis unfolding kinds(8) [OF Obj_snapshotable Some [unfolded nq]] a a'
              by (cases x) (auto simp: fst_place intro!: arg_cong [where f = "map_sum _ _"])
          qed
        qed (use False kinds in \<open>simp_all add: skipped_def\<close>)
      next
        case stale: False
        then show ?thesis using ser_never_fresh [of h r act d] False by force
      qed
    qed simp
  qed auto
qed

text \<open>What a lenient dict should hold: each entry with a string key that serialises by itself.\<close>

definition independent_entries :: "(pv \<Rightarrow> perr + blob option) \<Rightarrow> (pkey \<times> pv) list \<Rightarrow> (pkey \<times> blob) list" where
  "independent_entries g kvs =
     List.map_filter (\<lambda>(k, v). case (k, g v) of (K_str s, Inr (Some b)) \<Rightarrow> Some (k, b) | _ \<Rightarrow> None) kvs"

text \<open>each entry of a lenient dict is kept or dropped by itself.\<close>

theorem lenient_entries_independent:
  assumes "map_of act q = None" and "d < max_snapshot_depth"
    and own: "\<And>k v e. (k, v) \<in> set kvs \<Longrightarrow> fst (ser h ((q, d) # act) (Suc d) v []) = Inl e \<Longrightarrow> is_path_error e"
  shows "fst (serialize_lenient_dict (ser h ((q, d) # act) (Suc d)) n q kvs act d al)
    = Inr (independent_entries (\<lambda>v. fst (ser h ((q, d) # act) (Suc d) v [])) kvs)"
proof -
  define f where "f = ser h ((q, d) # act) (Suc d)"
  have ind: "fst (f v a) = fst (f v [])" for v a unfolding f_def by (rule indepD [OF ser_indep])
  have "fst (visit (\<lambda>k w a. lenient (case k of K_str s \<Rightarrow> f w a | K_other s \<Rightarrow> (Inl (err (R_key s)), a))) kvs al)
    = Inr (independent_entries (\<lambda>v. fst (f v [])) kvs)"
    using own unfolding f_def [symmetric]
  proof (induction kvs arbitrary: al)
    case Nil
    then show ?case by (simp add: independent_entries_def)
  next
    case (Cons e kvs)
    obtain k v where e: "e = (k, v)" by (cases e)
    have IH: "fst (visit (\<lambda>k w a. lenient (case k of K_str s \<Rightarrow> f w a | K_other s \<Rightarrow> (Inl (err (R_key s)), a))) kvs a)
      = Inr (independent_entries (\<lambda>v. fst (f v [])) kvs)" for a
      by (rule Cons.IH) (use Cons.prems in auto)
    show ?case
    proof (cases k)
      case (K_str s)
      obtain r a where a: "f v al = (r, a)" by (cases "f v al")
      then have r: "fst (f v []) = r" using ind [of v al] by simp
      show ?thesis
      proof (cases r)
        case (Inl er)
        then have "is_path_error er" using Cons.prems [of k v er] r by (simp add: e)
        with IH [of a] show ?thesis by (simp add: e K_str a lenient_def Inl independent_entries_def r)
      next
        case (Inr ob)
        then show ?thesis using IH [of a]
          by (cases ob; cases "visit (\<lambda>k w a. lenient (case k of K_str s \<Rightarrow> f w a | K_other s \<Rightarrow> (Inl (err (R_key s)), a))) kvs a")
            (simp_all add: e K_str a lenient_def independent_entries_def r)
      qed
    next
      case (K_other s)
      with IH [of al] show ?thesis
        by (simp add: e lenient_def is_path_error_def err_def independent_entries_def)
    qed
  qed
  then show ?thesis using assms(1,2) unfolding serialize_lenient_dict_def f_def by simp
qed

section \<open>The round trip\<close>

text \<open>
  The value that \<open>v\<close> stands for: references followed for \<open>n\<close> levels, enum members unwrapped,
  skipped parts left out. Shared containers become copies.
\<close>

fun present :: "('v \<Rightarrow> 'r option) \<Rightarrow> ('k \<times> 'v) list \<Rightarrow> ('k \<times> 'r) list" where
  "present f [] = []"
| "present f ((k, v) # xs) = (case f v of None \<Rightarrow> present f xs | Some t \<Rightarrow> (k, t) # present f xs)"

fun tree :: "heap \<Rightarrow> nat \<Rightarrow> pv \<Rightarrow> rv option" where
  "tree h n (Prim p) = Some (V_prim p)"
| "tree h n (Enum_of w) = tree h n w"
| "tree h 0 (Ref r) = None"
| "tree h (Suc n) (Ref r) = (case h r of
     Obj_dict kvs \<Rightarrow> Some (V_dict (map (\<lambda>(k, t). (key_name k, t)) (present (tree h n) kvs)))
   | Obj_list xs \<Rightarrow> Some (V_list (map snd (present (tree h n) (numbered xs))))
   | Obj_tuple xs \<Rightarrow> Some (V_tuple (map snd (present (tree h n) (numbered xs))))
   | Obj_model fqn fs hook \<Rightarrow> Some (V_obj fqn (present (tree h n) fs))
   | Obj_dataclass fqn fs \<Rightarrow> Some (V_obj fqn (present (tree h n) fs))
   | Obj_snapshotable fqn fs name \<Rightarrow> Some (V_obj fqn (present (tree h n) fs))
   | _ \<Rightarrow> None)"

text \<open>Values whose format is the library's own: no hook data, no lenient dict.\<close>

definition own_format :: "heap \<Rightarrow> bool" where
  "own_format h \<longleftrightarrow> plain_keys h \<and> (\<forall>r. case h r of
     Obj_model fqn fs hook \<Rightarrow> hook = None
   | Obj_snapshotable fqn fs name \<Rightarrow> lenient_dict h fs name = None
   | _ \<Rightarrow> True)"

text \<open>
  The class \<open>fqn\<close> can be imported, still has the fields \<open>names\<close>, and building it from some of them
  gives an instance with just these.
\<close>

definition restores :: "world \<Rightarrow> string \<Rightarrow> string \<Rightarrow> string list \<Rightarrow> bool" where
  "restores w kind fqn names \<longleftrightarrow> (\<exists>c. import_class w fqn = Inr c \<and>
     (kind = t_pydantic \<and> \<not> c_restores c \<and> \<not> c_extra c \<longrightarrow> set names \<subseteq> set (c_fields c)) \<and>
     (\<forall>fs. fst ` set fs \<subseteq> set names \<longrightarrow> build w kind c fs = Inr (V_obj fqn fs)))"

definition faithful :: "world \<Rightarrow> heap \<Rightarrow> bool" where
  "faithful w h \<longleftrightarrow> (\<forall>r. case h r of
     Obj_model fqn fs hook \<Rightarrow> restores w t_pydantic fqn (map fst fs)
   | Obj_dataclass fqn fs \<Rightarrow> restores w t_dataclass fqn (map fst fs)
   | Obj_snapshotable fqn fs name \<Rightarrow> restores w t_dict_class fqn (map fst fs)
   | _ \<Rightarrow> True)"

abbreviation restored_as :: "(blob \<Rightarrow> perr + rv) \<Rightarrow> ('k \<times> blob) list \<Rightarrow> ('k \<times> rv) list \<Rightarrow> bool" where
  "restored_as g bs ts \<equiv> list_all2 (\<lambda>(k, b) (k', t). k' = k \<and> g b = Inr t) bs ts"

lemma each_restored: "restored_as g bs ts \<Longrightarrow> each (\<lambda>k x. at_seg (sg k) (g x)) bs = Inr ts"
  by (induction rule: list_all2_induct) auto

lemma items_restored:
  assumes "restored_as g bs ts"
  shows "deserialize_items g (map snd bs) = Inr (map snd ts)"
proof -
  have len: "length bs = length ts" using assms by (rule list_all2_lengthD)
  have "restored_as g (numbered (map snd bs)) (numbered (map snd ts))"
    using assms len by (auto simp: list_all2_conv_all_nth numbered_def case_prod_beta)
  then have "each (\<lambda>i x. at_seg (S_idx i) (g x)) (numbered (map snd bs)) = Inr (numbered (map snd ts))"
    by (rule each_restored)
  then show ?thesis by (simp add: deserialize_items_def)
qed

lemma present_keys: "fst ` set (present f xs) \<subseteq> fst ` set xs"
  by (induction f xs rule: present.induct) (auto split: option.splits)

lemma visit_restored:
  assumes "visit f xs al = (Inr bs, al')" and "set al' \<subseteq> A"
    and grows: "\<And>k v a. set a \<subseteq> set (snd (f k v a))"
    and step: "\<And>k v a ob a'. (k, v) \<in> set xs \<Longrightarrow> f k v a = (Inr ob, a') \<Longrightarrow> set a' \<subseteq> A \<Longrightarrow>
      (case ob of None \<Rightarrow> T v = None | Some b \<Rightarrow> \<exists>t. T v = Some t \<and> g b = Inr t)"
  shows "restored_as g bs (present T xs)"
  using assms(1) step
proof (induction xs arbitrary: al bs)
  case (Cons e xs)
  obtain k v where e: "e = (k, v)" by (cases e)
  from Cons.prems(1) obtain ob a where f: "f k v al = (Inr ob, a)"
    and rest: "case ob of None \<Rightarrow> visit f xs a = (Inr bs, al')
      | Some b \<Rightarrow> \<exists>cs. bs = (k, b) # cs \<and> visit f xs a = (Inr cs, al')"
    unfolding e visit_Cons_ok by blast
  from rest obtain cs where cs: "visit f xs a = (Inr cs, al')" by (cases ob) auto
  have "set a \<subseteq> set al'" using visit_grows [of xs f a] grows cs by simp
  then have T: "case ob of None \<Rightarrow> T v = None | Some b \<Rightarrow> \<exists>t. T v = Some t \<and> g b = Inr t"
    using Cons.prems(2) [of k v al ob a] f assms(2) by (auto simp: e)
  have "restored_as g cs (present T xs)"
  proof (rule Cons.IH [OF cs])
    fix k v a ob a'
    assume "(k, v) \<in> set xs" "f k v a = (Inr ob, a')" "set a' \<subseteq> A"
    then show "case ob of None \<Rightarrow> T v = None | Some b \<Rightarrow> \<exists>t. T v = Some t \<and> g b = Inr t"
      by (intro Cons.prems(2)) simp_all
  qed
  with T rest cs show ?case by (cases ob) (auto simp: e)
qed simp

lemma fields_restored:
  assumes "serialize_fields f fs al = (Inr bs, al')" and "set al' \<subseteq> A"
    and grows: "\<And>v a. set a \<subseteq> set (snd (f v a))"
    and step: "\<And>v a ob a'. f v a = (Inr ob, a') \<Longrightarrow> set a' \<subseteq> A \<Longrightarrow>
      (case ob of None \<Rightarrow> T v = None | Some b \<Rightarrow> \<exists>t. T v = Some t \<and> g b = Inr t)"
  shows "restored_as g bs (present T fs)"
  using assms(1) [unfolded serialize_fields_def] assms(2) by (rule visit_restored) (auto simp: grows intro: step)

lemma restored_keys: "restored_as g bs ts \<Longrightarrow> fst ` set bs = fst ` set ts"
proof -
  assume "restored_as g bs ts"
  then have "map fst bs = map fst ts" by (induction rule: list_all2_induct) auto
  then show ?thesis by (metis set_map)
qed

lemma allowed_class_str [simp]:
  "allowed_class allow (B_str fqn) = (if fqn \<in> set allow then Inr fqn else Inl (err R_denied))"
  by (simp add: allowed_class_def B_str_def)

lemma restore_envelope:
  assumes w: "restores w kind fqn (map fst fs)" and kind: "kind \<in> {t_pydantic, t_dataclass, t_dict_class}"
    and d: "d < max_snapshot_depth" and allow: "fqn \<in> set allow"
    and bs: "restored_as (deser w allow (Suc d)) bs (present T fs)"
  shows "deser w allow d (envelope kind fqn (B_dict bs)) = Inr (V_obj fqn (present T fs))"
proof -
  from w obtain c where c: "import_class w fqn = Inr c"
      "kind = t_pydantic \<and> \<not> c_restores c \<and> \<not> c_extra c \<longrightarrow> fst ` set fs \<subseteq> set (c_fields c)"
      "fst ` set (present T fs) \<subseteq> fst ` set fs \<longrightarrow> build w kind c (present T fs) = Inr (V_obj fqn (present T fs))"
    unfolding restores_def set_map by metis
  have "fst ` set bs \<subseteq> fst ` set fs" using restored_keys [OF bs] present_keys by metis
  then have "(k, b) \<in> set bs \<Longrightarrow> k \<in> fst ` set fs" for k b by (metis fst_conv imageI subsetD)
  then have "kept_fields kind c bs = bs" using c(2) unfolding kept_fields_def filter_id_conv
    by (simp add: subset_iff) (auto simp: filter_id_conv)
  then show ?thesis using d kind allow c(1,3) present_keys [of T fs] each_restored [OF bs]
    by (simp add: envelope_def deser_kinds classify_envelope restore_shape_def deserialize_envelope_def
        fields_of_def deserialize_fields_def)
qed

lemma restore_plain:
  assumes d: "d < max_snapshot_depth" and keys: "''__type__'' \<notin> fst ` set bs"
    and bs: "restored_as (deser w allow (Suc d)) bs ts"
  shows "deser w allow d (B_dict bs) = Inr (V_dict ts)"
  using d each_restored [OF bs] by (simp add: deser_kinds classify_plain [OF keys] restore_shape_def)

lemma ser_deser:
  assumes h: "own_format h" and w: "faithful w h"
  shows "ser h act d v al = (Inr ob, al') \<Longrightarrow> set al' \<subseteq> set allow \<Longrightarrow> max_snapshot_depth \<le> d + n \<Longrightarrow>
    (case ob of None \<Rightarrow> tree h n v = None | Some b \<Rightarrow> \<exists>t. tree h n v = Some t \<and> deser w allow d b = Inr t)"
proof (induction d v arbitrary: act al ob al' n rule: depth_induct)
  case (1 d p)
  then show ?case by (auto simp: deser_kinds)
next
  case (2 d x)
  from 2(1) [OF 2(2) [unfolded ser_Enum] 2(3,4)] show ?case by (cases ob) auto
next
  case (3 d r)
  show ?case
  proof (cases "skipped (h r)")
    case True
    with 3(2) show ?thesis by (cases n) (auto simp: skipped_def split: obj.splits)
  next
    case False
    with 3(2) have ok: "fresh act d r" using ser_not_fresh [of h r act d al] by fastforce
    then have d: "d < max_snapshot_depth" by (simp add: fresh_def)
    with 3(4) obtain m where n: "n = Suc m" and m: "max_snapshot_depth \<le> Suc d + m" by (cases n) auto
    note kinds = ser_kinds [where h = h, OF ok]
    let ?S = "ser h ((r, d) # act) (Suc d)" and ?D = "deser w allow (Suc d)"
    have IH: "case ob of None \<Rightarrow> tree h m v = None | Some b \<Rightarrow> \<exists>t. tree h m v = Some t \<and> ?D b = Inr t"
      if "?S v a = (Inr ob, a')" "set a' \<subseteq> set allow" for v a ob a'
      using 3(1) [OF d, of "Suc d" "(r, d) # act" v a ob a' m] that m by simp
    have fields: "restored_as ?D bs (present (tree h m) fs)"
      if "serialize_fields ?S fs a = (Inr bs, al')" for fs a bs
      using that 3(3) by (rule fields_restored) (auto simp: ser_grows intro: IH)
    have allow: "fqn \<in> set allow" if "serialize_fields ?S fs (List.insert fqn al) = (Inr bs, al')" for fqn fs bs
      using serialize_fields_grows [of ?S "List.insert fqn al" fs] that 3(3) by (auto simp: ser_grows)
    have items: "restored_as ?D bs (present (tree h m) (numbered xs))"
      if "visit (\<lambda>i w a. at1 (S_idx i) (?S w a)) (numbered xs) al = (Inr bs, al')" for xs bs
      using that 3(3) by (rule visit_restored) (auto simp: ser_grows intro: IH)
    have wr: "case h r of
         Obj_model fqn fs hook \<Rightarrow> restores w t_pydantic fqn (map fst fs)
       | Obj_dataclass fqn fs \<Rightarrow> restores w t_dataclass fqn (map fst fs)
       | Obj_snapshotable fqn fs name \<Rightarrow> restores w t_dict_class fqn (map fst fs)
       | _ \<Rightarrow> True"
      using w unfolding faithful_def by blast
    have own: "case h r of
         Obj_model fqn fs hook \<Rightarrow> hook = None
       | Obj_snapshotable fqn fs name \<Rightarrow> lenient_dict h fs name = None
       | _ \<Rightarrow> True"
      using h unfolding own_format_def by blast
    show ?thesis
    proof (cases "h r")
      case (Obj_dict kvs)
      let ?V = "\<lambda>k w a. case k of K_str s \<Rightarrow> at1 (S_key s) (?S w a) | K_other s \<Rightarrow> (Inl (err (R_key s)), a)"
      from 3(2) [unfolded kinds(1) [OF Obj_dict]] obtain bs where
        bs: "visit ?V kvs al = (Inr bs, al')" and ob: "ob = Some (B_dict (map (\<lambda>(k, b). (key_name k, b)) bs))"
        by auto
      have "untagged kvs" using spec [OF conjunct1 [OF h [unfolded own_format_def], unfolded plain_keys_def], of r]
        by (simp add: Obj_dict)
      then have keys: "''__type__'' \<notin> fst ` set (map (\<lambda>(k, b). (key_name k, b)) bs)"
        using dict_entries [OF bs] by (intro untagged_keys) blast+
      have "restored_as ?D bs (present (tree h m) kvs)"
        using bs 3(3)
      proof (rule visit_restored)
        show "set a \<subseteq> set (snd (?V k w a))" for k w a by (simp add: ser_grows split: pkey.split)
        show "case ob of None \<Rightarrow> tree h m w = None | Some b \<Rightarrow> \<exists>t. tree h m w = Some t \<and> ?D b = Inr t"
          if "?V k w a = (Inr ob, a')" "set a' \<subseteq> set allow" for k w a ob a'
          using that by (cases k) (auto intro: IH)
      qed
      then have "restored_as ?D (map (\<lambda>(k, b). (key_name k, b)) bs) (map (\<lambda>(k, t). (key_name k, t)) (present (tree h m) kvs))"
        by (auto simp: list_all2_map1 list_all2_map2 elim!: list_all2_mono)
      from restore_plain [OF d keys this] show ?thesis by (simp add: ob n Obj_dict)
    next
      case (Obj_list xs)
      from 3(2) [unfolded kinds(2) [OF Obj_list]] obtain bs where
        bs: "visit (\<lambda>i w a. at1 (S_idx i) (?S w a)) (numbered xs) al = (Inr bs, al')"
        and ob: "ob = Some (B_list (map snd bs))" by auto
      from items_restored [OF items [OF bs]] show ?thesis using d by (simp add: ob n Obj_list deser_kinds)
    next
      case (Obj_tuple xs)
      from 3(2) [unfolded kinds(3) [OF Obj_tuple]] obtain bs where
        bs: "visit (\<lambda>i w a. at1 (S_idx i) (?S w a)) (numbered xs) al = (Inr bs, al')"
        and ob: "ob = Some (tuple_blob (map snd bs))" by auto
      from items_restored [OF items [OF bs]] show ?thesis using d
        by (simp add: ob n Obj_tuple tuple_blob_def deser_kinds classify_tuple restore_shape_def blob_items_def)
    next
      case (Obj_model fqn fs hook)
      with own have hook: "hook = None" by simp
      from 3(2) Obj_model obtain bs where bs: "serialize_fields ?S fs (List.insert fqn al) = (Inr bs, al')"
        and ob: "ob = Some (envelope t_pydantic fqn (B_dict bs))" by (auto simp: kinds hook)
      from wr have "restores w t_pydantic fqn (map fst fs)" by (simp add: Obj_model)
      from restore_envelope [OF this _ d allow [OF bs] fields [OF bs]] show ?thesis by (simp add: ob n Obj_model)
    next
      case (Obj_dataclass fqn fs)
      from 3(2) Obj_dataclass obtain bs where bs: "serialize_fields ?S fs (List.insert fqn al) = (Inr bs, al')"
        and ob: "ob = Some (envelope t_dataclass fqn (B_dict bs))" by (auto simp: kinds)
      from wr have "restores w t_dataclass fqn (map fst fs)" by (simp add: Obj_dataclass)
      from restore_envelope [OF this _ d allow [OF bs] fields [OF bs]] show ?thesis by (simp add: ob n Obj_dataclass)
    next
      case (Obj_snapshotable fqn fs name)
      with own have "lenient_dict h fs name = None" by simp
      with 3(2) Obj_snapshotable obtain bs where bs: "serialize_fields ?S fs (List.insert fqn al) = (Inr bs, al')"
        and ob: "ob = Some (envelope t_dict_class fqn (B_dict bs))" by (auto simp: kinds)
      from wr have "restores w t_dict_class fqn (map fst fs)" by (simp add: Obj_snapshotable)
      from restore_envelope [OF this _ d allow [OF bs] fields [OF bs]] show ?thesis by (simp add: ob n Obj_snapshotable)
    qed (use 3(2) False kinds in \<open>auto simp: skipped_def\<close>)
  qed
qed

text \<open>C16: Restoring what was serialised, with the allowlist it returned, gives back the value: enum members unwrapped,
  parts marked as not to be saved left out, shared parts copied. It is so for values in the library's own format: no dict
  has the key \<^verbatim>\<open>__type__\<close> (\<open>dict_restores_as_tuple\<close> and \<open>dict_saved_but_not_restorable\<close> show what becomes of
  one), none holds data made by a snapshot hook or is saved as a lenient dict; and for classes that can still be
  imported under the name that was saved and are built from the saved fields.\<close>

theorem snapshot_roundtrip:
  assumes "own_format h" and "faithful w h" and "serialize h 0 v = Inr (Some b, al)"
  shows "\<exists>t. tree h max_snapshot_depth v = Some t \<and> deserialize w b al = Inr t"
proof -
  from assms(3) have "ser h [] 0 v [] = (Inr (Some b), al)"
    by (auto simp: serialize_def split: prod.splits sum.splits)
  from ser_deser [OF assms(1,2) this, of al max_snapshot_depth] show ?thesis
    by (simp add: deserialize_def)
qed

section \<open>An example, and two dicts that do not survive\<close>

text \<open>A dataclass with a shared list, a tuple holding an enum member, and a skipped field.\<close>

definition ex_heap :: heap where
  "ex_heap = (\<lambda>_. Obj_other)(
     0 := Obj_dataclass ''m.C'' [(''a'', Ref 1), (''b'', Ref 2), (''c'', Ref 3), (''d'', Ref 1)],
     1 := Obj_list [Prim (P_int 1)],
     2 := Obj_tuple [Enum_of (Prim (P_str ''on'')), Ref 3],
     3 := Obj_skip None)"

definition ex_world :: world where
  "ex_world = \<lparr>w_lookup = (\<lambda>m attrs. if (m, attrs) = (''m'', [''C'']) then Some
       \<lparr>c_name = ''m.C'', c_restores = False, c_extra = False, c_fields = [],
        c_params = [''a'', ''b'', ''c'', ''d''], c_init = []\<rparr> else None),
     w_build = (\<lambda>m c fs. Inr (V_obj (c_name c) fs)),
     w_setattr = (\<lambda>k v ob. ob)\<rparr>"

lemma ex_parts: "own_format ex_heap" "plain_keys ex_heap" "builds_without_depth ex_world"
  by (simp_all add: own_format_def plain_keys_def ex_heap_def builds_without_depth_def ex_world_def)

lemma ex_import: "import_class ex_world ''m.C'' = Inr
    \<lparr>c_name = ''m.C'', c_restores = False, c_extra = False, c_fields = [],
     c_params = [''a'', ''b'', ''c'', ''d''], c_init = []\<rparr>"
  by code_simp

lemma ex_faithful: "faithful ex_world ex_heap"
proof -
  have "build ex_world t_dataclass \<lparr>c_name = ''m.C'', c_restores = False, c_extra = False, c_fields = [],
      c_params = [''a'', ''b'', ''c'', ''d''], c_init = []\<rparr> fs = Inr (V_obj ''m.C'' fs)"
    if "fst ` set fs \<subseteq> {''a'', ''b'', ''c'', ''d''}" for fs
  proof -
    have "filter (\<lambda>(k, v). k \<in> {''a'', ''b'', ''c'', ''d''}) fs = fs"
      using that by (intro filter_True) force
    then show ?thesis by (simp add: build_def tags ex_world_def)
  qed
  then have "restores ex_world t_dataclass ''m.C'' [''a'', ''b'', ''c'', ''d'']"
    unfolding restores_def ex_import by (simp add: tags)
  then show ?thesis by (simp add: faithful_def ex_heap_def)
qed

definition ex_blob :: blob where
  "ex_blob = envelope t_dataclass ''m.C'' (B_dict
     [(''a'', B_list [B_prim (P_int 1)]), (''b'', tuple_blob [B_str ''on'']), (''d'', B_list [B_prim (P_int 1)])])"

lemma ex_serialized: "serialize ex_heap 0 (Ref 0) = Inr (Some ex_blob, [''m.C''])"
  by code_simp

lemma serialized_fits_restore_witness:
  "plain_keys ex_heap \<and> builds_without_depth ex_world \<and>
   serialize ex_heap 0 (Ref 0) = Inr (Some ex_blob, [''m.C'']) \<and>
   no_depth (deserialize ex_world ex_blob [''m.C''])"
  using serialized_fits_restore [OF ex_parts(2,3) ex_serialized, of "[''m.C'']"] ex_parts ex_serialized by simp

lemma serialized_has_no_cycle_witness:
  "serialize ex_heap 0 (Ref 0) = Inr (Some ex_blob, [''m.C'']) \<and> deref (Ref 0) = Some 0 \<and>
   (0, 1) \<in> (contains ex_heap)\<^sup>* \<and> (1, 1) \<notin> (contains ex_heap)\<^sup>+"
proof -
  have step: "(0, 1) \<in> (contains ex_heap)\<^sup>*"
    by (rule r_into_rtrancl) (simp add: contains_def required_def ex_heap_def)
  then show ?thesis using serialized_has_no_cycle [OF ex_serialized _ step] ex_serialized by simp
qed

text \<open>A second program that agrees on \<^verbatim>\<open>m.C\<close> and has another module.\<close>

definition ex_world2 :: world where
  "ex_world2 = ex_world\<lparr>w_lookup := (\<lambda>m attrs. if m = ''evil'' then Some
       \<lparr>c_name = ''evil'', c_restores = True, c_extra = True, c_fields = [], c_params = [], c_init = []\<rparr>
     else w_lookup ex_world m attrs)\<rparr>"

lemma ex_import2: "import_class ex_world2 ''m.C'' = import_class ex_world ''m.C''"
  by code_simp

lemma restore_confined_to_allowlist_witness:
  "agree_on (set [''m.C'']) ex_world ex_world2 \<and> import_class ex_world ''evil.C'' \<noteq> import_class ex_world2 ''evil.C'' \<and>
   deserialize ex_world ex_blob [''m.C''] = deserialize ex_world2 ex_blob [''m.C'']"
proof -
  have agree: "agree_on (set [''m.C'']) ex_world ex_world2"
    by (simp add: agree_on_def ex_import2) (simp add: ex_world2_def)
  moreover have "import_class ex_world ''evil.C'' = Inl (err R_import)" by code_simp
  moreover have "import_class ex_world2 ''evil.C'' \<noteq> Inl (err R_import)" by code_simp
  ultimately show ?thesis using restore_confined_to_allowlist [OF agree, of ex_blob] by metis
qed

lemma snapshot_roundtrip_witness:
  "own_format ex_heap \<and> faithful ex_world ex_heap \<and>
   serialize ex_heap 0 (Ref 0) = Inr (Some ex_blob, [''m.C'']) \<and>
   (\<exists>t. tree ex_heap max_snapshot_depth (Ref 0) = Some t \<and> deserialize ex_world ex_blob [''m.C''] = Inr t)"
  using snapshot_roundtrip [OF ex_parts(1) ex_faithful ex_serialized] ex_parts ex_faithful ex_serialized by simp

text \<open>A lenient dict with an unsupported value, a key that is no string, and a value to keep.\<close>

definition ex_vars :: "(pkey \<times> pv) list" where
  "ex_vars = [(K_str ''sock'', Ref 9), (K_other ''1'', Prim P_none), (K_str ''n'', Prim (P_int 7))]"

lemma lenient_entries_independent_witness:
  "map_of [(0::nat, 0::nat)] 5 = None \<and> 1 < max_snapshot_depth \<and>
   independent_entries (\<lambda>v. fst (ser ex_heap [(5, 1), (0, 0)] 2 v [])) ex_vars = [(K_str ''n'', B_prim (P_int 7))] \<and>
   fst (serialize_lenient_dict (ser ex_heap [(5, 1), (0, 0)] 2) ''vars'' 5 ex_vars [(0, 0)] 1 [])
     = Inr [(K_str ''n'', B_prim (P_int 7))]"
proof -
  have own: "is_path_error e"
    if "(k, v) \<in> set ex_vars" "fst (ser ex_heap ((5, 1) # [(0, 0)]) (Suc 1) v []) = Inl e" for k v e
    using that by (auto simp: ex_vars_def ser.simps ex_heap_def skipped_def is_path_error_def err_def max_snapshot_depth_def)
  have eq: "independent_entries (\<lambda>v. fst (ser ex_heap [(5, 1), (0, 0)] 2 v [])) ex_vars = [(K_str ''n'', B_prim (P_int 7))]"
    by code_simp
  have "1 < max_snapshot_depth" by (simp add: max_snapshot_depth_def)
  with lenient_entries_independent [of "[(0, 0)]" 5 1 ex_vars ex_heap "''vars''" "[]"] own eq show ?thesis
    by (simp add: numeral_2_eq_2)
qed

text \<open>
  A plain dict is told from an envelope by its keys alone: \<^verbatim>\<open>{"__type__": "tuple", "data": [1]}\<close> comes
  back as the tuple \<^verbatim>\<open>(1,)\<close>, and one with a list under \<^verbatim>\<open>__type__\<close> is saved but raises
  TypeError on restore.
\<close>

definition forged_heap :: heap where
  "forged_heap = (\<lambda>_. Obj_other)(
     0 := Obj_dict [(K_str ''__type__'', Prim (P_str ''tuple'')), (K_str ''data'', Ref 2)],
     1 := Obj_dict [(K_str ''__type__'', Ref 2)],
     2 := Obj_list [Prim (P_int 1)])"

lemma dict_restores_as_tuple:
  "(case serialize forged_heap 0 (Ref 0) of
      Inr (Some b, al) \<Rightarrow> deserialize ex_world b al = Inr (V_tuple [V_prim (P_int 1)]) | _ \<Rightarrow> False)"
  by code_simp

lemma dict_saved_but_not_restorable:
  "(case serialize forged_heap 0 (Ref 1) of
      Inr (Some b, al) \<Rightarrow> deserialize ex_world b al = Inl (err (R_py TypeError)) | _ \<Rightarrow> False)"
  by code_simp

end
