(* ===== verification/Agent_Snapshot.thy ===== *)
theory Agent_Snapshot
  imports Snapshot_Roundtrip Context_Manager "HOL-Library.List_Lexorder" "HOL-Library.Char_ord"
begin

text \<open>
  Saving and restoring an agent: \<^verbatim>\<open>src/nooa/storage/snapshot.py\<close>, the snapshot methods of
  \<^verbatim>\<open>SQLiteStorageManager\<close> in \<^verbatim>\<open>src/nooa/storage/sqlite.py\<close> and \<^verbatim>\<open>src/nooa/storage/in_memory.py\<close>.

  \<^item> \<open>from_agent\<close> reads the context manager and the attributes of an agent and serialises them with the
    codec of \<open>Snapshot_Codec\<close>; \<open>restore\<close> writes them into another agent and returns it also when it fails half-way.
    What is known of an attribute by reflection (its annotation, its class, whether it is callable) is part of the
    agent; pydantic and JSON are the parameter \<open>json_codec\<close>.
  \<^item> The table of snapshots is the list of its rows in order of insertion.
  \<^item> Lemmas: the round trip of blocks, disabled keys and attributes; what a failing attribute costs; that a stored
    snapshot is never changed by later ones.
\<close>

section \<open>Snapshots\<close>

text \<open>A static block has no value where \<open>serialize\<close> returned the sentinel for skipped values.\<close>

datatype cblock = Static_block string "blob option" | Dynamic_block string string

record snapshot =
  sn_version :: int
  sn_context :: "cblock list"
  sn_disabled :: "string list"
  sn_attributes :: "(string \<times> blob) list"
  sn_allowlist :: "string set"

definition SNAPSHOT_VERSION :: int where
  "SNAPSHOT_VERSION = 2"

record attr =
  at_value :: pv
  at_optout :: bool
  at_callable :: bool

record agent =
  ag_cm :: "pv cm"
  ag_dict :: "(string \<times> attr) list"
  ag_nosnapshot_field :: "string \<Rightarrow> bool"

definition raw_value :: "pv plain \<Rightarrow> pv" where
  "raw_value v = (case v of P_None \<Rightarrow> Prim P_none | P_text s \<Rightarrow> Prim (P_str s) | P_obj x \<Rightarrow> x)"

text \<open>The loop over the context blocks: one that cannot be serialised aborts the snapshot.\<close>

fun save_context :: "heap \<Rightarrow> string set \<Rightarrow> (string \<times> pv block) list \<Rightarrow> string set \<Rightarrow> perr + (cblock list \<times> string set)" where
  "save_context h prot [] al = Inr ([], al)"
| "save_context h prot ((key, value) # rest) al =
     (if key \<in> prot then save_context h prot rest al
      else case value of
        Dyn expr \<Rightarrow> bind (save_context h prot rest al) (\<lambda>(bs, al'). Inr (Dynamic_block key expr # bs, al'))
      | Val v \<Rightarrow>
          bind (serialize h 0 (raw_value v)) (\<lambda>(serialized, allowlist).
          bind (save_context h prot rest (al \<union> set allowlist)) (\<lambda>(bs, al').
            Inr (Static_block key serialized # bs, al'))))"

definition attr_excluded :: "agent \<Rightarrow> string \<Rightarrow> attr \<Rightarrow> bool" where
  "attr_excluded ag name a =
     (prefix ''_agentdoc_'' name \<or> ag_nosnapshot_field ag name \<or> at_optout a \<or> at_callable a)"

text \<open>The loop over the attributes: one that cannot be serialised is left out.\<close>

fun save_attributes :: "heap \<Rightarrow> agent \<Rightarrow> (string \<times> attr) list \<Rightarrow> string set \<Rightarrow> perr + ((string \<times> blob) list \<times> string set)" where
  "save_attributes h ag [] al = Inr ([], al)"
| "save_attributes h ag ((name, a) # rest) al =
     (if attr_excluded ag name a then save_attributes h ag rest al
      else case serialize h 0 (at_value a) of
        Inl e \<Rightarrow> (if is_path_error e then save_attributes h ag rest al else Inl e)
      | Inr (None, allowlist) \<Rightarrow> save_attributes h ag rest (al \<union> set allowlist)
      | Inr (Some serialized, allowlist) \<Rightarrow>
          bind (save_attributes h ag rest (al \<union> set allowlist)) (\<lambda>(xs, al'). Inr ((name, serialized) # xs, al')))"

definition from_agent :: "heap \<Rightarrow> agent \<Rightarrow> perr + snapshot" where
  "from_agent h ag =
     bind (save_context h (cm_protected (ag_cm ag)) (cm_blocks (ag_cm ag)) {}) (\<lambda>(context_blocks, al).
     bind (save_attributes h ag (ag_dict ag) al) (\<lambda>(attributes, al').
       Inr \<lparr>sn_version = SNAPSHOT_VERSION, sn_context = context_blocks,
            sn_disabled = sorted_list_of_set (cm_disabled (ag_cm ag)),
            sn_attributes = attributes, sn_allowlist = al'\<rparr>))"

section \<open>Restoring\<close>

record target =
  tg_cm :: "rv cm"
  tg_attrs :: "(string, rv) dict"

datatype restore_error = Version_mismatch | Codec_error perr | Block_error py_error

text \<open>
  What assigning a restored value to a block does with it. Whether a restored object is a \<^verbatim>\<open>Context\<close> or a
  \<^verbatim>\<open>DynamicContext\<close> is the parameter \<open>ctx\<close>; the sentinel for skipped values is an object like others.
\<close>

type_synonym ctx_test = "rv \<Rightarrow> rv setval option"

definition plain_of :: "rv \<Rightarrow> rv plain" where
  "plain_of v = (case v of V_prim P_none \<Rightarrow> P_None | V_prim (P_str s) \<Rightarrow> P_text s | _ \<Rightarrow> P_obj v)"

definition setval_of :: "ctx_test \<Rightarrow> rv \<Rightarrow> rv setval" where
  "setval_of ctx v =
     (case plain_of v of
        P_None \<Rightarrow> Set_None
      | P_text s \<Rightarrow> Set_value (P_text s)
      | P_obj x \<Rightarrow> (case ctx x of Some sv \<Rightarrow> sv | None \<Rightarrow> Set_value (P_obj x)))"

definition block_of :: "ctx_test \<Rightarrow> rv \<Rightarrow> rv block" where
  "block_of ctx v = (case ctx v of Some (Set_dynamic e) \<Rightarrow> Dyn e | _ \<Rightarrow> Val (plain_of v))"

definition skip_object :: rv where
  "skip_object = V_obj ''nooa.storage.serialization._Skip'' []"

definition deserialize_value :: "world \<Rightarrow> blob option \<Rightarrow> string set \<Rightarrow> perr + rv" where
  "deserialize_value w b allow =
     (case b of None \<Rightarrow> Inr skip_object | Some x \<Rightarrow> deserialize w x (sorted_list_of_set allow))"

definition as_block_result :: "rv cm py_res \<Rightarrow> restore_error + rv cm" where
  "as_block_result r = map_sum Block_error id r"

definition restore_block ::
  "world \<Rightarrow> (string \<Rightarrow> bool) \<Rightarrow> ctx_test \<Rightarrow> string set \<Rightarrow> cblock \<Rightarrow> rv cm \<Rightarrow> restore_error + rv cm" where
  "restore_block w compiles ctx allow blk s =
     (case blk of
        Dynamic_block key expr \<Rightarrow>
          as_block_result
            (if key \<in> cm_protected s then set_dynamic_protected compiles key (Some expr) None s
             else set_dynamic compiles key (Some expr) None s)
      | Static_block key b \<Rightarrow>
          (case deserialize_value w b allow of
             Inl e \<Rightarrow> Inl (Codec_error e)
           | Inr v \<Rightarrow>
               as_block_result
                 (if key \<in> cm_protected s then set_static_protected compiles key (block_of ctx v) None s
                  else cm_setitem compiles key (setval_of ctx v) s)))"

fun restore_blocks ::
  "world \<Rightarrow> (string \<Rightarrow> bool) \<Rightarrow> ctx_test \<Rightarrow> string set \<Rightarrow> cblock list \<Rightarrow> rv cm \<Rightarrow> restore_error option \<times> rv cm" where
  "restore_blocks w compiles ctx allow [] s = (None, s)"
| "restore_blocks w compiles ctx allow (blk # blks) s =
     (case restore_block w compiles ctx allow blk s of
        Inl e \<Rightarrow> (Some e, s)
      | Inr s' \<Rightarrow> restore_blocks w compiles ctx allow blks s')"

definition is_deserialization_error :: "perr \<Rightarrow> bool" where
  "is_deserialization_error e = (case pe_reason e of R_py _ \<Rightarrow> False | _ \<Rightarrow> True)"

fun restore_attributes ::
  "world \<Rightarrow> string set \<Rightarrow> (string \<times> blob) list \<Rightarrow> (string, rv) dict \<Rightarrow> restore_error option \<times> (string, rv) dict" where
  "restore_attributes w allow [] d = (None, d)"
| "restore_attributes w allow ((name, b) # rest) d =
     (case deserialize w b (sorted_list_of_set allow) of
        Inl e \<Rightarrow> (if is_deserialization_error e then restore_attributes w allow rest d else (Some (Codec_error e), d))
      | Inr v \<Rightarrow> restore_attributes w allow rest (dict_set name v d))"

definition restore ::
  "world \<Rightarrow> (string \<Rightarrow> bool) \<Rightarrow> ctx_test \<Rightarrow> snapshot \<Rightarrow> target \<Rightarrow> restore_error option \<times> target" where
  "restore w compiles ctx sn tg =
     (if sn_version sn \<noteq> SNAPSHOT_VERSION then (Some Version_mismatch, tg)
      else case restore_blocks w compiles ctx (sn_allowlist sn) (sn_context sn) (tg_cm tg) of
        (Some e, s) \<Rightarrow> (Some e, tg\<lparr>tg_cm := s\<rparr>)
      | (None, s) \<Rightarrow>
          let s' = (if sn_disabled sn \<noteq> [] then cm_disable (sn_disabled sn) s else s);
              (r, d) = restore_attributes w (sn_allowlist sn) (sn_attributes sn) (tg_attrs tg) in
          (r, \<lparr>tg_cm = s', tg_attrs = d\<rparr>))"

section \<open>The table of snapshots\<close>

record snap_row =
  sr_id :: string
  sr_created_at :: string
  sr_data :: string

text \<open>\<open>json.dumps\<close> of the dumped model, \<open>json.loads\<close> with validation, and whether a text is JSON at all.\<close>

record json_codec =
  js_dump :: "snapshot \<Rightarrow> string"
  js_load :: "string \<Rightarrow> snapshot py_res"
  js_valid :: "string \<Rightarrow> bool"

datatype storage_error = Storage_not_configured | Snapshot_not_found | Save_error perr | Restore_error restore_error
  | Python_error py_error

definition insert_snapshot ::
  "string \<Rightarrow> string \<Rightarrow> string \<Rightarrow> string option \<Rightarrow> string option \<Rightarrow> snap_row list \<Rightarrow> (storage_error + string) \<times> snap_row list" where
  "insert_snapshot new_id now data snapshot_id created_at rows =
     (let sid = (case snapshot_id of Some s \<Rightarrow> if s \<noteq> [] then s else new_id | None \<Rightarrow> new_id);
          created = (case created_at of Some s \<Rightarrow> if s \<noteq> [] then s else now | None \<Rightarrow> now) in
      if sid \<in> set (map sr_id rows) then (Inl (Python_error IntegrityError), rows)
      else (Inr sid, rows @ [\<lparr>sr_id = sid, sr_created_at = created, sr_data = data\<rparr>]))"

text \<open>The sentinel of a skipped block value is not JSON: dumping it raises TypeError.\<close>

definition dumpable :: "snapshot \<Rightarrow> bool" where
  "dumpable sn = list_all (\<lambda>b. case b of Static_block _ None \<Rightarrow> False | _ \<Rightarrow> True) (sn_context sn)"

definition save_snapshot ::
  "json_codec \<Rightarrow> heap \<Rightarrow> string \<Rightarrow> string \<Rightarrow> agent \<Rightarrow> snap_row list \<Rightarrow> (storage_error + string) \<times> snap_row list" where
  "save_snapshot js h new_id now ag rows =
     (case from_agent h ag of
        Inl e \<Rightarrow> (Inl (Save_error e), rows)
      | Inr sn \<Rightarrow>
          if \<not> dumpable sn then (Inl (Python_error TypeError), rows)
          else insert_snapshot new_id now (js_dump js sn) None None rows)"

definition save_snapshot_json ::
  "json_codec \<Rightarrow> string \<Rightarrow> string \<Rightarrow> string \<Rightarrow> string option \<Rightarrow> string option \<Rightarrow> snap_row list \<Rightarrow> (storage_error + string) \<times> snap_row list" where
  "save_snapshot_json js new_id now data snapshot_id created_at rows =
     (if \<not> js_valid js data then (Inl (Python_error ValueError), rows)
      else insert_snapshot new_id now data snapshot_id created_at rows)"

definition find_row :: "string \<Rightarrow> snap_row list \<Rightarrow> snap_row option" where
  "find_row sid rows = find (\<lambda>r. sr_id r = sid) rows"

definition restore_snapshot ::
  "json_codec \<Rightarrow> world \<Rightarrow> (string \<Rightarrow> bool) \<Rightarrow> ctx_test \<Rightarrow> string \<Rightarrow> snap_row list \<Rightarrow> target \<Rightarrow> storage_error option \<times> target" where
  "restore_snapshot js w compiles ctx sid rows tg =
     (case find_row sid rows of
        None \<Rightarrow> (Some Snapshot_not_found, tg)
      | Some r \<Rightarrow>
          (case js_load js (sr_data r) of
             Inl e \<Rightarrow> (Some (Python_error e), tg)
           | Inr sn \<Rightarrow>
               (case restore w compiles ctx sn tg of
                  (None, tg') \<Rightarrow> (None, tg')
                | (Some e, tg') \<Rightarrow> (Some (Restore_error e), tg'))))"

text \<open>\<^verbatim>\<open>ORDER BY created_at DESC, rowid DESC LIMIT 1\<close>.\<close>

fun latest_row :: "snap_row list \<Rightarrow> snap_row option" where
  "latest_row [] = None"
| "latest_row (r # rs) =
     (case latest_row rs of
        None \<Rightarrow> Some r
      | Some b \<Rightarrow> if sr_created_at b < sr_created_at r then Some r else Some b)"

definition get_latest_snapshot_id :: "snap_row list \<Rightarrow> string option" where
  "get_latest_snapshot_id rows = map_option sr_id (latest_row rows)"

definition restore_latest_snapshot ::
  "json_codec \<Rightarrow> world \<Rightarrow> (string \<Rightarrow> bool) \<Rightarrow> ctx_test \<Rightarrow> snap_row list \<Rightarrow> target \<Rightarrow> (storage_error + bool) \<times> target" where
  "restore_latest_snapshot js w compiles ctx rows tg =
     (case get_latest_snapshot_id rows of
        None \<Rightarrow> (Inr False, tg)
      | Some sid \<Rightarrow>
          (case restore_snapshot js w compiles ctx sid rows tg of
             (None, tg') \<Rightarrow> (Inr True, tg')
           | (Some e, tg') \<Rightarrow> (Inl e, tg')))"

text \<open>The manager without persistence.\<close>

definition mem_save_snapshot :: "agent \<Rightarrow> storage_error + string" where
  "mem_save_snapshot ag = Inl Storage_not_configured"

definition mem_restore_snapshot :: "string \<Rightarrow> target \<Rightarrow> storage_error option \<times> target" where
  "mem_restore_snapshot sid tg = (Some Storage_not_configured, tg)"

section \<open>What a snapshot holds\<close>

lemma bind_Inr_iff: "bind r f = Inr y \<longleftrightarrow> (\<exists>x. r = Inr x \<and> f x = Inr y)"
  by (cases r) auto

text \<open>The blocks of a snapshot correspond to the unprotected ones, in order.\<close>

definition saved_as :: "heap \<Rightarrow> string set \<Rightarrow> string \<times> pv block \<Rightarrow> cblock \<Rightarrow> bool" where
  "saved_as h al e blk =
     (case e of
        (key, Dyn expr) \<Rightarrow> blk = Dynamic_block key expr
      | (key, Val v) \<Rightarrow> \<exists>b al'. blk = Static_block key b \<and> serialize h 0 (raw_value v) = Inr (b, al') \<and> set al' \<subseteq> al)"

lemma saved_as_kinds [simp]:
  "saved_as h al (key, Dyn expr) blk \<longleftrightarrow> blk = Dynamic_block key expr"
  "saved_as h al (key, Val v) blk \<longleftrightarrow>
    (\<exists>b a. blk = Static_block key b \<and> serialize h 0 (raw_value v) = Inr (b, a) \<and> set a \<subseteq> al)"
  by (auto simp: saved_as_def)

lemma saved_as_mono: "saved_as h al e blk \<Longrightarrow> al \<subseteq> al' \<Longrightarrow> saved_as h al' e blk"
  by (auto simp: saved_as_def split: prod.splits block.splits)

lemma save_context_spec:
  "save_context h prot es al = Inr (bs, al') \<Longrightarrow>
   al \<subseteq> al' \<and> list_all2 (saved_as h al') (filter (\<lambda>(k, b). k \<notin> prot) es) bs"
proof (induction h prot es al arbitrary: bs al' rule: save_context.induct)
  case (2 h prot key b rest al)
  show ?case
  proof (cases "key \<in> prot")
    case True
    then show ?thesis using 2 by simp
  next
    case key: False
    show ?thesis
    proof (cases b)
      case (Dyn expr)
      then obtain bs' where "save_context h prot rest al = Inr (bs', al')" "bs = Dynamic_block key expr # bs'"
        using "2.prems" key by (auto simp: bind_Inr_iff)
      then show ?thesis using "2.IH"(3) [OF key Dyn] key Dyn by simp
    next
      case (Val v)
      then obtain x a bs' where s: "serialize h 0 (raw_value v) = Inr (x, a)"
          "save_context h prot rest (al \<union> set a) = Inr (bs', al')" "bs = Static_block key x # bs'"
        using "2.prems" key by (auto simp: bind_Inr_iff)
      then show ?thesis using "2.IH"(2) [OF key Val s(1) refl s(2)] key Val by auto
    qed
  qed
qed simp

text \<open>The attributes of a snapshot are exactly those that are not excluded and serialise by themselves.\<close>

definition attr_blob :: "heap \<Rightarrow> agent \<Rightarrow> string \<times> attr \<Rightarrow> (string \<times> blob) option" where
  "attr_blob h ag e =
     (if attr_excluded ag (fst e) (snd e) then None
      else case serialize h 0 (at_value (snd e)) of
        Inr (Some b, _) \<Rightarrow> Some (fst e, b)
      | _ \<Rightarrow> None)"

lemma attr_blob_simps:
  "attr_excluded ag name a \<Longrightarrow> attr_blob h ag (name, a) = None"
  "serialize h 0 (at_value a) = Inl e \<Longrightarrow> attr_blob h ag (name, a) = None"
  "\<not> attr_excluded ag name a \<Longrightarrow> serialize h 0 (at_value a) = Inr (ob, l) \<Longrightarrow>
   attr_blob h ag (name, a) = map_option (Pair name) ob"
  by (auto simp: attr_blob_def split: option.split)

lemma save_attributes_spec:
  "save_attributes h ag es al = Inr (xs, al') \<Longrightarrow>
   al \<subseteq> al' \<and> xs = List.map_filter (attr_blob h ag) es \<and>
   (\<forall>(name, a) \<in> set es. \<forall>b al''. \<not> attr_excluded ag name a \<longrightarrow> serialize h 0 (at_value a) = Inr (b, al'') \<longrightarrow> set al'' \<subseteq> al')"
proof (induction h ag es al arbitrary: xs al' rule: save_attributes.induct)
  case (1 h ag al)
  then show ?case by (simp add: List.map_filter_simps)
next
  case (2 h ag name a rest al)
  show ?case
  proof (cases "attr_excluded ag name a")
    case True
    then show ?thesis using 2 by (auto simp: List.map_filter_simps attr_blob_simps)
  next
    case ex: False
    show ?thesis
    proof (cases "serialize h 0 (at_value a)")
      case (Inl e)
      then have "is_path_error e" "save_attributes h ag rest al = Inr (xs, al')"
        using "2.prems" ex by (auto split: if_splits)
      then show ?thesis using "2.IH"(2) [OF ex Inl] ex Inl by (auto simp: List.map_filter_simps attr_blob_simps)
    next
      case (Inr r)
      obtain b l where r: "r = (b, l)" by (cases r)
      show ?thesis
      proof (cases b)
        case None
        then have run: "save_attributes h ag rest (al \<union> set l) = Inr (xs, al')" using "2.prems" ex Inr r by simp
        have "al \<union> set l \<subseteq> al' \<and> xs = List.map_filter (attr_blob h ag) rest \<and>
            (\<forall>(name, a) \<in> set rest. \<forall>b al''. \<not> attr_excluded ag name a \<longrightarrow>
              serialize h 0 (at_value a) = Inr (b, al'') \<longrightarrow> set al'' \<subseteq> al')"
          by (rule "2.IH"(3) [OF ex Inr r [symmetric] None run])
        then show ?thesis using ex Inr r None by (auto simp: List.map_filter_simps attr_blob_simps)
      next
        case (Some x)
        then obtain xs' where "save_attributes h ag rest (al \<union> set l) = Inr (xs', al')" "xs = (name, x) # xs'"
          using "2.prems" ex Inr r by (auto simp: bind_Inr_iff)
        then have run: "save_attributes h ag rest (al \<union> set l) = Inr (xs', al')" "xs = (name, x) # xs'" by blast+
        have "al \<union> set l \<subseteq> al' \<and> xs' = List.map_filter (attr_blob h ag) rest \<and>
            (\<forall>(name, a) \<in> set rest. \<forall>b al''. \<not> attr_excluded ag name a \<longrightarrow>
              serialize h 0 (at_value a) = Inr (b, al'') \<longrightarrow> set al'' \<subseteq> al')"
          by (rule "2.IH"(4) [OF ex Inr r [symmetric] Some run(1)])
        then show ?thesis using run(2) ex Inr r Some by (auto simp: List.map_filter_simps attr_blob_simps)
      qed
    qed
  qed
qed

section \<open>Restoring what was saved\<close>

text \<open>The block that a saved block is restored as: none for \<^verbatim>\<open>None\<close>, which disables its key.\<close>

definition restored_block :: "heap \<Rightarrow> pv block \<Rightarrow> rv block option" where
  "restored_block h b =
     (case b of
        Dyn expr \<Rightarrow> Some (Dyn expr)
      | Val v \<Rightarrow> (case tree h max_snapshot_depth (raw_value v) of
            Some t \<Rightarrow> if t = V_prim P_none then None else Some (Val (plain_of t))
          | None \<Rightarrow> None))"

text \<open>A block that survives: its expression compiles; its value is not a context value.\<close>

definition survives :: "(string \<Rightarrow> bool) \<Rightarrow> ctx_test \<Rightarrow> heap \<Rightarrow> pv block \<Rightarrow> bool" where
  "survives compiles ctx h b =
     (case b of
        Dyn expr \<Rightarrow> compiles expr
      | Val v \<Rightarrow> (case tree h max_snapshot_depth (raw_value v) of
            None \<Rightarrow> True
          | Some t \<Rightarrow> t = V_prim P_none \<or> ctx t = None))"

text \<open>A value marked as not to be saved has no tree.\<close>

definition unsaved :: "heap \<Rightarrow> pv block \<Rightarrow> bool" where
  "unsaved h b = (case b of Dyn _ \<Rightarrow> False | Val v \<Rightarrow> tree h max_snapshot_depth (raw_value v) = None)"

lemma serialize_restores:
  assumes "own_format h" and "faithful w h" and "serialize h 0 v = Inr (ob, al)" and "set al \<subseteq> allow" and "finite allow"
  shows "case ob of
      None \<Rightarrow> tree h max_snapshot_depth v = None
    | Some b \<Rightarrow> \<exists>t. tree h max_snapshot_depth v = Some t \<and> deserialize w b (sorted_list_of_set allow) = Inr t"
proof -
  have "ser h [] 0 v [] = (Inr ob, al)"
    using assms(3) by (auto simp: serialize_def split: prod.splits sum.splits)
  moreover have "set al \<subseteq> set (sorted_list_of_set allow)" using assms(4,5) by simp
  ultimately show ?thesis
    using ser_deser [OF assms(1,2), of "[]" 0 v "[]" ob al "sorted_list_of_set allow" max_snapshot_depth]
    unfolding deserialize_def by (cases ob) simp_all
qed

lemma plain_of_not_none: "t \<noteq> V_prim P_none \<Longrightarrow> plain_of t \<noteq> P_None"
  by (auto simp: plain_of_def split: rv.splits prim.splits)

lemma plain_of_obj: "plain_of t = P_obj x \<Longrightarrow> x = t"
  by (auto simp: plain_of_def split: rv.splits prim.splits)

lemma restore_block_saved:
  assumes "own_format h" and "faithful w h" and "finite allow"
    and "saved_as h allow (key, b) blk" and "survives compiles ctx h b" and "\<not> unsaved h b" and "key \<notin> cm_protected s"
  shows "restore_block w compiles ctx allow blk s =
    Inr (case restored_block h b of Some b' \<Rightarrow> put_block key b' False s | None \<Rightarrow> suppress key s)"
proof (cases b)
  case (Dyn expr)
  then show ?thesis
    using assms(4,5,7) by (simp add: saved_as_def survives_def restored_block_def restore_block_def as_block_result_def
        set_dynamic_def dynamic_context_def)
next
  case (Val v)
  then obtain ob al where blk: "blk = Static_block key ob" and ser: "serialize h 0 (raw_value v) = Inr (ob, al)" "set al \<subseteq> allow"
    using assms(4) by (auto simp: saved_as_def)
  obtain t where t: "tree h max_snapshot_depth (raw_value v) = Some t"
    using assms(6) Val by (auto simp: unsaved_def)
  obtain x where ob: "ob = Some x" "deserialize w x (sorted_list_of_set allow) = Inr t"
    using serialize_restores [OF assms(1,2) ser assms(3)] t by (auto split: option.splits)
  show ?thesis
  proof (cases "t = V_prim P_none")
    case True
    then show ?thesis using Val t assms(7)
      by (simp add: restored_block_def restore_block_def blk ob deserialize_value_def as_block_result_def cm_setitem_def
          setval_of_def plain_of_def)
  next
    case False
    have "ctx t = None" using assms(5) Val t False by (simp add: survives_def)
    then have "setval_of ctx t = Set_value (plain_of t)"
      using plain_of_not_none [OF False] plain_of_obj [of t]
      by (auto simp: setval_of_def split: plain.splits)
    then show ?thesis
      using Val t False assms(7)
      by (simp add: restored_block_def restore_block_def blk ob deserialize_value_def as_block_result_def cm_setitem_def set_dynamic_def)
  qed
qed

lemma put_block_fields [simp]:
  "cm_protected (put_block k b st s) = cm_protected s"
  "cm_blocks (put_block k b st s) = dict_set k b (cm_blocks s)"
  "cm_static (put_block k b st s) = dict_set k st (cm_static s)"
  "cm_disabled (put_block k b st s) = cm_disabled s - {k}"
  by (simp_all add: put_block_def invalidate_def)

text \<open>What restoring block \<open>b\<close> under \<open>k\<close> leaves there, and that it leaves the other keys alone.\<close>

definition holds_block :: "heap \<Rightarrow> string \<Rightarrow> pv block \<Rightarrow> rv cm \<Rightarrow> bool" where
  "holds_block h k b s \<longleftrightarrow> dict_get (cm_blocks s) k = restored_block h b \<and>
     (restored_block h b \<noteq> None \<longrightarrow> \<not> is_static k s)"

definition block_kept :: "string \<Rightarrow> 'a cm \<Rightarrow> 'a cm \<Rightarrow> bool" where
  "block_kept k s s' \<longleftrightarrow> dict_get (cm_blocks s') k = dict_get (cm_blocks s) k \<and> is_static k s' = is_static k s \<and>
     (k \<in> cm_disabled s' \<longleftrightarrow> k \<in> cm_disabled s)"

lemma put_or_suppress:
  assumes "key \<notin> cm_protected s"
    and "s1 = (case restored_block h b of Some b' \<Rightarrow> put_block key b' False s | None \<Rightarrow> suppress key s)"
  shows "holds_block h key b s1" and "key \<in> cm_disabled s1 \<longleftrightarrow> restored_block h b = None"
    and "k \<noteq> key \<Longrightarrow> block_kept k s s1" and "cm_protected s1 = cm_protected s"
  using assms
  by (auto simp: holds_block_def block_kept_def is_static_def suppress_def drop_block_def cm_disable_def
      fold_invalidate Let_def dict_has_def invalidate_def split: option.splits)

lemma restore_blocks_saved:
  assumes "own_format h" and "faithful w h" and "finite allow"
    and "list_all2 (saved_as h allow) es blks" and "distinct (dict_keys es)"
    and "\<forall>(k, b) \<in> set es. survives compiles ctx h b \<and> \<not> unsaved h b \<and> k \<notin> cm_protected s"
  shows "\<exists>s'. restore_blocks w compiles ctx allow blks s = (None, s') \<and> cm_protected s' = cm_protected s \<and>
    (\<forall>k. case dict_get es k of
       Some b \<Rightarrow> holds_block h k b s' \<and> (k \<in> cm_disabled s' \<longleftrightarrow> restored_block h b = None)
     | None \<Rightarrow> block_kept k s s')"
  using assms(4-6)
proof (induction es blks arbitrary: s rule: list_all2_induct)
  case (Cons e es blk blks)
  obtain key b where e: "e = (key, b)" by (cases e)
  define s1 where "s1 = (case restored_block h b of Some b' \<Rightarrow> put_block key b' False s | None \<Rightarrow> suppress key s)"
  have np: "key \<notin> cm_protected s" using Cons.prems(2) e by auto
  note s1 = put_or_suppress [OF np s1_def]
  have run: "restore_block w compiles ctx allow blk s = Inr s1"
    unfolding s1_def by (rule restore_block_saved [OF assms(1-3)]) (use Cons.hyps(1) Cons.prems(2) e in auto)
  have none: "dict_get es key = None" using Cons.prems(1) e by (simp add: map_of_eq_None_iff)
  have ih: "distinct (dict_keys es)"
      "\<forall>(k, b) \<in> set es. survives compiles ctx h b \<and> \<not> unsaved h b \<and> k \<notin> cm_protected s1"
    using Cons.prems s1(4) by auto
  from Cons.IH [OF ih] obtain s' where s': "restore_blocks w compiles ctx allow blks s1 = (None, s')"
      "cm_protected s' = cm_protected s1"
      "\<And>k. case dict_get es k of
         Some b \<Rightarrow> holds_block h k b s' \<and> (k \<in> cm_disabled s' \<longleftrightarrow> restored_block h b = None)
       | None \<Rightarrow> block_kept k s1 s'"
    by blast
  have "case dict_get (e # es) k of
       Some b \<Rightarrow> holds_block h k b s' \<and> (k \<in> cm_disabled s' \<longleftrightarrow> restored_block h b = None)
     | None \<Rightarrow> block_kept k s s'" for k
  proof (cases "k = key")
    case True
    have "block_kept key s1 s'" using s'(3) [of key] none by simp
    then show ?thesis using True s1(1,2) by (simp add: e holds_block_def block_kept_def)
  next
    case False
    then show ?thesis using s'(3) [of k] s1(3) [OF False] by (auto simp: e block_kept_def split: option.splits)
  qed
  then show ?case using run s'(1,2) s1(4) by simp
qed (simp add: block_kept_def)

lemma save_context_finite: "save_context h prot es al = Inr (bs, al') \<Longrightarrow> finite al \<Longrightarrow> finite al'"
  by (induction h prot es al arbitrary: bs al' rule: save_context.induct)
    (fastforce simp: bind_Inr_iff split: if_splits block.splits)+

lemma save_attributes_finite: "save_attributes h ag es al = Inr (xs, al') \<Longrightarrow> finite al \<Longrightarrow> finite al'"
  by (induction h ag es al arbitrary: xs al' rule: save_attributes.induct)
    (fastforce simp: bind_Inr_iff split: if_splits sum.splits option.splits prod.splits)+

lemma from_agent_parts:
  assumes "from_agent h ag = Inr sn"
  shows "sn_version sn = SNAPSHOT_VERSION" "finite (sn_allowlist sn)"
    "list_all2 (saved_as h (sn_allowlist sn)) (filter (\<lambda>(k, b). k \<notin> cm_protected (ag_cm ag)) (cm_blocks (ag_cm ag))) (sn_context sn)"
    "sn_attributes sn = List.map_filter (attr_blob h ag) (ag_dict ag)"
    "\<forall>(name, a) \<in> set (ag_dict ag). \<forall>b l. \<not> attr_excluded ag name a \<longrightarrow> serialize h 0 (at_value a) = Inr (b, l) \<longrightarrow>
       set l \<subseteq> sn_allowlist sn"
    "sn_disabled sn = sorted_list_of_set (cm_disabled (ag_cm ag))"
proof -
  obtain bs al xs al' where run: "save_context h (cm_protected (ag_cm ag)) (cm_blocks (ag_cm ag)) {} = Inr (bs, al)"
      "save_attributes h ag (ag_dict ag) al = Inr (xs, al')"
      "sn = \<lparr>sn_version = SNAPSHOT_VERSION, sn_context = bs, sn_disabled = sorted_list_of_set (cm_disabled (ag_cm ag)),
            sn_attributes = xs, sn_allowlist = al'\<rparr>"
    using assms by (auto simp: from_agent_def bind_Inr_iff)
  note c = save_context_spec [OF run(1)] and a = save_attributes_spec [OF run(2)]
  have mono: "list_all2 (saved_as h al') (filter (\<lambda>(k, b). k \<notin> cm_protected (ag_cm ag)) (cm_blocks (ag_cm ag))) bs"
    using c a by (auto intro: list_all2_mono [of "saved_as h al"] saved_as_mono)
  show "sn_version sn = SNAPSHOT_VERSION" "finite (sn_allowlist sn)"
    "list_all2 (saved_as h (sn_allowlist sn)) (filter (\<lambda>(k, b). k \<notin> cm_protected (ag_cm ag)) (cm_blocks (ag_cm ag))) (sn_context sn)"
    "sn_attributes sn = List.map_filter (attr_blob h ag) (ag_dict ag)"
    "\<forall>(name, a) \<in> set (ag_dict ag). \<forall>b l. \<not> attr_excluded ag name a \<longrightarrow> serialize h 0 (at_value a) = Inr (b, l) \<longrightarrow>
       set l \<subseteq> sn_allowlist sn"
    "sn_disabled sn = sorted_list_of_set (cm_disabled (ag_cm ag))"
    using run(3) a mono save_attributes_finite [OF run(2)] save_context_finite [OF run(1)] by simp_all
qed

lemma restore_attributes_ok:
  "list_all2 (\<lambda>(k, b) (k', t). k' = k \<and> deserialize w b (sorted_list_of_set allow) = Inr t) xs ts \<Longrightarrow>
   restore_attributes w allow xs d = (None, dict_update d ts)"
  unfolding dict_update_def by (induction arbitrary: d rule: list_all2_induct) auto

lemma cm_disable_fields [simp]:
  "cm_blocks (cm_disable ks s) = cm_blocks s" "cm_disabled (cm_disable ks s) = cm_disabled s \<union> set ks"
  "cm_static (cm_disable ks s) = cm_static s"
  by (simp_all add: cm_disable_def fold_invalidate)

text \<open>What an attribute is after restoring: the saved value, or what the fresh agent has.\<close>

definition restored_attr :: "heap \<Rightarrow> agent \<Rightarrow> string \<times> attr \<Rightarrow> rv option" where
  "restored_attr h ag e =
     (if attr_blob h ag e = None then None else tree h max_snapshot_depth (at_value (snd e)))"

lemma map_filter_keys:
  assumes "\<And>e y. f e = Some y \<Longrightarrow> fst y = fst e" and "distinct (dict_keys es)"
  shows "set (dict_keys (List.map_filter f es)) \<subseteq> set (dict_keys es)" "distinct (dict_keys (List.map_filter f es))"
proof -
  have sub: "set (dict_keys (List.map_filter f es)) \<subseteq> set (dict_keys es)" for es
    using assms(1) by (induction es) (auto simp: List.map_filter_simps split: option.splits)
  show "set (dict_keys (List.map_filter f es)) \<subseteq> set (dict_keys es)" by (rule sub)
  show "distinct (dict_keys (List.map_filter f es))"
    using assms(2)
  proof (induction es)
    case (Cons e es)
    then show ?case using sub [of es] assms(1) by (auto simp: List.map_filter_simps split: option.splits)
  qed (simp add: List.map_filter_simps)
qed

lemma dict_get_map_filter:
  assumes "\<And>e y. f e = Some y \<Longrightarrow> fst y = fst e" and "distinct (dict_keys es)" and "(k, v) \<in> set es"
  shows "dict_get (List.map_filter f es) k = map_option snd (f (k, v))"
  using assms(2,3)
proof (induction es)
  case (Cons e es)
  have k: "k \<notin> set (dict_keys (List.map_filter f es))" if "k \<notin> set (dict_keys es)"
    using that map_filter_keys(1) [OF assms(1), of f es] Cons.prems(1) by auto
  show ?case
  proof (cases "e = (k, v)")
    case True
    then have "dict_get (List.map_filter f es) k = None" using k Cons.prems(1) by (simp add: map_of_eq_None_iff)
    then show ?thesis using True assms(1) [of "(k, v)"]
      by (auto simp: List.map_filter_simps split: option.split)
  next
    case False
    then have mem: "(k, v) \<in> set es" using Cons.prems(2) by simp
    then have "k \<in> set (dict_keys es)" by force
    then have "fst e \<noteq> k" using Cons.prems(1) by auto
    note mem this
    then show ?thesis using Cons.IH mem Cons.prems(1) assms(1) [of e]
      by (auto simp: List.map_filter_simps split: option.split)
  qed
qed simp

lemma fst_attr_blob: "attr_blob h ag e = Some y \<Longrightarrow> fst y = fst e"
  by (auto simp: attr_blob_def split: if_splits sum.splits option.splits)

text \<open>
  What a target is after \<open>ag\<close> was restored into it. Its own blocks are there, outside the cacheable prefix, enabled
  unless they were disabled; one that held \<^verbatim>\<open>None\<close> is a disabled key. Other keys are as before, or disabled.
\<close>

definition own_blocks :: "agent \<Rightarrow> (string \<times> pv block) list" where
  "own_blocks ag = filter (\<lambda>(k, b). k \<notin> cm_protected (ag_cm ag)) (cm_blocks (ag_cm ag))"

definition restored_key :: "heap \<Rightarrow> agent \<Rightarrow> target \<Rightarrow> target \<Rightarrow> string \<Rightarrow> bool" where
  "restored_key h ag tg0 tg k \<longleftrightarrow>
     (case dict_get (own_blocks ag) k of
        Some b \<Rightarrow> holds_block h k b (tg_cm tg) \<and>
          (k \<in> cm_disabled (tg_cm tg) \<longleftrightarrow> restored_block h b = None \<or> k \<in> cm_disabled (ag_cm ag))
      | None \<Rightarrow> dict_get (cm_blocks (tg_cm tg)) k = dict_get (cm_blocks (tg_cm tg0)) k \<and>
          is_static k (tg_cm tg) = is_static k (tg_cm tg0) \<and>
          (k \<in> cm_disabled (tg_cm tg) \<longleftrightarrow> k \<in> cm_disabled (tg_cm tg0) \<or> k \<in> cm_disabled (ag_cm ag)))"

definition restored_from :: "heap \<Rightarrow> agent \<Rightarrow> target \<Rightarrow> target \<Rightarrow> bool" where
  "restored_from h ag tg0 tg \<longleftrightarrow> (\<forall>k. restored_key h ag tg0 tg k) \<and>
     (\<forall>e \<in> set (ag_dict ag). dict_get (tg_attrs tg) (fst e) =
       (case restored_attr h ag e of Some t \<Rightarrow> Some t | None \<Rightarrow> dict_get (tg_attrs tg0) (fst e)))"

definition restorable :: "(string \<Rightarrow> bool) \<Rightarrow> ctx_test \<Rightarrow> heap \<Rightarrow> agent \<Rightarrow> target \<Rightarrow> bool" where
  "restorable compiles ctx h ag tg0 \<longleftrightarrow>
     distinct (dict_keys (cm_blocks (ag_cm ag))) \<and> distinct (dict_keys (ag_dict ag)) \<and> finite (cm_disabled (ag_cm ag)) \<and>
     (\<forall>(k, b) \<in> set (cm_blocks (ag_cm ag)). k \<in> cm_protected (ag_cm ag) \<or>
       survives compiles ctx h b \<and> k \<notin> cm_protected (tg_cm tg0))"

lemma attributes_restored:
  assumes "own_format h" and "faithful w h" and "from_agent h ag = Inr sn" and "distinct (dict_keys (ag_dict ag))"
  shows "\<exists>d'. restore_attributes w (sn_allowlist sn) (sn_attributes sn) d = (None, d') \<and>
    (\<forall>e \<in> set (ag_dict ag). dict_get d' (fst e) =
      (case restored_attr h ag e of Some t \<Rightarrow> Some t | None \<Rightarrow> dict_get d (fst e)))"
proof -
  note parts = from_agent_parts [OF assms(3)]
  define f where "f = (\<lambda>e. map_option (Pair (fst e)) (restored_attr h ag e))"
  have each: "\<exists>t. restored_attr h ag e = Some t \<and> deserialize w b (sorted_list_of_set (sn_allowlist sn)) = Inr t"
    if bl: "attr_blob h ag e = Some (k, b)" and mem: "e \<in> set (ag_dict ag)" for e k b
  proof -
    obtain l where s: "\<not> attr_excluded ag (fst e) (snd e)" "serialize h 0 (at_value (snd e)) = Inr (Some b, l)"
      using bl by (cases "serialize h 0 (at_value (snd e))") (auto simp: attr_blob_def split: if_splits option.splits)
    then have "set l \<subseteq> sn_allowlist sn" using parts(5) mem by (cases e) fastforce
    from serialize_restores [OF assms(1,2) s(2) this parts(2)] bl show ?thesis
      by (simp add: restored_attr_def)
  qed
  have "list_all2 (\<lambda>(k, b) (k', t). k' = k \<and> deserialize w b (sorted_list_of_set (sn_allowlist sn)) = Inr t)
      (List.map_filter (attr_blob h ag) es) (List.map_filter f es)" if "set es \<subseteq> set (ag_dict ag)" for es
    using that
  proof (induction es)
    case (Cons e es)
    show ?case
    proof (cases "attr_blob h ag e")
      case None
      then have "f e = None" by (simp add: f_def restored_attr_def)
      then show ?thesis using None Cons by (simp add: List.map_filter_simps)
    next
      case (Some y)
      obtain k b where y: "y = (k, b)" by (cases y)
      obtain t where t: "restored_attr h ag e = Some t" "deserialize w b (sorted_list_of_set (sn_allowlist sn)) = Inr t"
        using each [of e k b] Some y Cons.prems by auto
      have "k = fst e" using fst_attr_blob [OF Some] y by simp
      then show ?thesis using Some y t Cons by (simp add: List.map_filter_simps f_def)
    qed
  qed (simp add: List.map_filter_simps)
  from restore_attributes_ok [OF this [OF subset_refl], of d] parts(4)
  have run: "restore_attributes w (sn_allowlist sn) (sn_attributes sn) d = (None, dict_update d (List.map_filter f (ag_dict ag)))"
    by simp
  have f: "f e = Some y \<Longrightarrow> fst y = fst e" for e y by (auto simp: f_def)
  have "dict_get (dict_update d (List.map_filter f (ag_dict ag))) (fst e) =
      (case restored_attr h ag e of Some t \<Rightarrow> Some t | None \<Rightarrow> dict_get d (fst e))" if "e \<in> set (ag_dict ag)" for e
  proof -
    have "dict_get (List.map_filter f (ag_dict ag)) (fst e) = map_option snd (f e)"
      using dict_get_map_filter [OF f assms(4), where k = "fst e" and v = "snd e"] that by simp
    also have "map_option snd (f e) = restored_attr h ag e" by (cases "restored_attr h ag e") (simp_all add: f_def)
    finally show ?thesis
      using dict_get_update [OF map_filter_keys(2) [OF f assms(4)], where k = "fst e" and d = d] by simp
  qed
  then show ?thesis using run by blast
qed

lemma list_all2_mem: "list_all2 P xs ys \<Longrightarrow> x \<in> set xs \<Longrightarrow> \<exists>y \<in> set ys. P x y"
  by (induction rule: list_all2_induct) auto

lemma list_all2_mem_right: "list_all2 P xs ys \<Longrightarrow> y \<in> set ys \<Longrightarrow> \<exists>x \<in> set xs. P x y"
  by (induction rule: list_all2_induct) auto

text \<open>A snapshot that can be dumped holds no unsaved block.\<close>

lemma dumpable_not_skipped:
  assumes "own_format h" and "faithful w h" and "from_agent h ag = Inr sn" and "dumpable sn" and "(k, b) \<in> set (own_blocks ag)"
  shows "\<not> unsaved h b"
proof (cases b)
  case (Val v)
  note parts = from_agent_parts [OF assms(3)]
  obtain blk where blk: "blk \<in> set (sn_context sn)" "saved_as h (sn_allowlist sn) (k, b) blk"
    using list_all2_mem [OF parts(3)] assms(5) by (auto simp: own_blocks_def)
  then obtain ob a where s: "blk = Static_block k ob" "serialize h 0 (raw_value v) = Inr (ob, a)" "set a \<subseteq> sn_allowlist sn"
    by (auto simp: Val)
  obtain x where "ob = Some x" using assms(4) blk(1) s(1) by (cases ob) (auto simp: dumpable_def list_all_iff)
  then show ?thesis using serialize_restores [OF assms(1,2) s(2,3) parts(2)] by (auto simp: unsaved_def Val)
qed (simp add: unsaved_def)

lemma saved_agent_is_restored:
  assumes "own_format h" and "faithful w h" and "from_agent h ag = Inr sn" and "restorable compiles ctx h ag tg0"
    and "dumpable sn"
  shows "\<exists>tg. restore w compiles ctx sn tg0 = (None, tg) \<and> restored_from h ag tg0 tg"
proof -
  note parts = from_agent_parts [OF assms(3)]
  have dist: "distinct (dict_keys (own_blocks ag))"
    using assms(4) by (auto simp: own_blocks_def restorable_def distinct_map_filter)
  have ok: "\<forall>(k, b) \<in> set (own_blocks ag). survives compiles ctx h b \<and> \<not> unsaved h b \<and> k \<notin> cm_protected (tg_cm tg0)"
    using assms(4) dumpable_not_skipped [OF assms(1-3,5)] by (auto simp: own_blocks_def restorable_def)
  obtain s where s: "restore_blocks w compiles ctx (sn_allowlist sn) (sn_context sn) (tg_cm tg0) = (None, s)"
      "\<And>k. case dict_get (own_blocks ag) k of
         Some b \<Rightarrow> holds_block h k b s \<and> (k \<in> cm_disabled s \<longleftrightarrow> restored_block h b = None)
       | None \<Rightarrow> block_kept k (tg_cm tg0) s"
    using restore_blocks_saved [OF assms(1,2) parts(2) parts(3) [folded own_blocks_def] dist ok] by blast
  define s' where "s' = (if sn_disabled sn \<noteq> [] then cm_disable (sn_disabled sn) s else s)"
  have s': "cm_blocks s' = cm_blocks s" "cm_static s' = cm_static s" "cm_disabled s' = cm_disabled s \<union> cm_disabled (ag_cm ag)"
    using parts(6) assms(4) by (auto simp: s'_def restorable_def)
  obtain d' where d': "restore_attributes w (sn_allowlist sn) (sn_attributes sn) (tg_attrs tg0) = (None, d')"
      "\<forall>e \<in> set (ag_dict ag). dict_get d' (fst e) =
         (case restored_attr h ag e of Some t \<Rightarrow> Some t | None \<Rightarrow> dict_get (tg_attrs tg0) (fst e))"
    using attributes_restored [OF assms(1,2,3)] assms(4) unfolding restorable_def by blast
  have run: "restore w compiles ctx sn tg0 = (None, \<lparr>tg_cm = s', tg_attrs = d'\<rparr>)"
    using parts(1) s(1) d'(1) by (simp add: restore_def s'_def)
  have "restored_key h ag tg0 \<lparr>tg_cm = s', tg_attrs = d'\<rparr> k" for k
    using s(2) [of k] by (simp add: restored_key_def holds_block_def block_kept_def is_static_def s' split: option.splits)
  then show ?thesis
    using run d'(2) by (intro exI [of _ "\<lparr>tg_cm = s', tg_attrs = d'\<rparr>"]) (simp add: restored_from_def)
qed

section \<open>Stored snapshots\<close>

lemma find_row_append:
  "find_row sid (rows @ rs) = (case find_row sid rows of Some r \<Rightarrow> Some r | None \<Rightarrow> find_row sid rs)"
  unfolding find_row_def by (induction rows) auto

lemma find_row_None: "sid \<notin> set (map sr_id rows) \<Longrightarrow> find_row sid rows = None"
  unfolding find_row_def by (induction rows) auto

text \<open>An insertion: ids and times, given or generated, and the data.\<close>

record insertion =
  in_new_id :: string
  in_now :: string
  in_data :: string
  in_id :: "string option"
  in_created_at :: "string option"

definition insert_step :: "insertion \<Rightarrow> snap_row list \<Rightarrow> snap_row list" where
  "insert_step i rows = snd (insert_snapshot (in_new_id i) (in_now i) (in_data i) (in_id i) (in_created_at i) rows)"

lemma insert_step_extends: "\<exists>rs. insert_step i rows = rows @ rs"
  by (auto simp: insert_step_def insert_snapshot_def Let_def)

lemma insert_steps_extend: "\<exists>rs. fold insert_step ops rows = rows @ rs"
proof (induction ops arbitrary: rows)
  case (Cons i ops)
  then show ?case using insert_step_extends [of i rows] by (metis append.assoc fold_simps(2))
qed simp

lemma save_snapshot_Inr:
  assumes "save_snapshot js h new_id now ag rows = (Inr sid, rows')"
  obtains sn where "from_agent h ag = Inr sn" "dumpable sn" "sid = new_id"
    "rows' = rows @ [\<lparr>sr_id = sid, sr_created_at = now, sr_data = js_dump js sn\<rparr>]" "find_row sid rows = None"
  using assms by (auto simp: save_snapshot_def insert_snapshot_def Let_def find_row_None split: sum.splits if_splits)

lemma latest_row_snoc:
  "list_all (\<lambda>x. sr_created_at x \<le> sr_created_at r) rows \<Longrightarrow> latest_row (rows @ [r]) = Some r"
  by (induction rows) auto

lemma latest_row_mem: "latest_row rows = Some r \<Longrightarrow>
  \<exists>pre post. rows = pre @ r # post \<and> (\<forall>x \<in> set pre. sr_created_at x \<le> sr_created_at r) \<and>
    (\<forall>x \<in> set post. sr_created_at x < sr_created_at r)"
proof (induction rows arbitrary: r)
  case (Cons a rows)
  show ?case
  proof (cases "latest_row rows")
    case None
    then have "rows = []" by (cases rows) (auto split: option.splits if_splits)
    then show ?thesis using Cons.prems None by (intro exI [of _ "[]"] exI [of _ "[]"]) simp
  next
    case (Some b)
    then obtain pre post where p: "rows = pre @ b # post" "\<forall>x \<in> set pre. sr_created_at x \<le> sr_created_at b"
        "\<forall>x \<in> set post. sr_created_at x < sr_created_at b" using Cons.IH by blast
    show ?thesis
    proof (cases "sr_created_at b < sr_created_at a")
      case True
      then have "r = a" using Cons.prems Some by simp
      moreover have "\<forall>x \<in> set rows. sr_created_at x < sr_created_at a"
        using p True by (auto intro: order_le_less_trans order_less_trans)
      ultimately show ?thesis by (intro exI [of _ "[]"] exI [of _ rows]) simp
    next
      case False
      then show ?thesis using Cons.prems Some p by (intro exI [of _ "a # pre"] exI [of _ post]) auto
    qed
  qed
qed simp

lemma save_context_fails:
  "save_context h prot es al = Inl e \<Longrightarrow> \<exists>k v. (k, Val v) \<in> set es \<and> k \<notin> prot \<and> serialize h 0 (raw_value v) = Inl e"
proof (induction h prot es al rule: save_context.induct)
  case (2 h prot key b rest al)
  show ?case
  proof (cases "key \<in> prot")
    case True
    then have "save_context h prot rest al = Inl e" using "2.prems" by simp
    then show ?thesis using "2.IH"(1) [OF True] by auto
  next
    case key: False
    show ?thesis
    proof (cases b)
      case (Dyn expr)
      then have "save_context h prot rest al = Inl e" using "2.prems" key by (auto simp: bind_def split: sum.splits)
      then show ?thesis using "2.IH"(3) [OF key Dyn] by auto
    next
      case (Val v)
      show ?thesis
      proof (cases "serialize h 0 (raw_value v)")
        case (Inl e')
        then show ?thesis using "2.prems" key Val by auto
      next
        case (Inr r)
        obtain x a where r: "r = (x, a)" by (cases r)
        then have "save_context h prot rest (al \<union> set a) = Inl e"
          using "2.prems" key Val Inr by (auto simp: bind_def split: sum.splits)
        then show ?thesis using "2.IH"(2) [OF key Val Inr r [symmetric]] by auto
      qed
    qed
  qed
qed simp

lemma save_attributes_fails:
  "save_attributes h ag es al = Inl e \<Longrightarrow>
   \<not> is_path_error e \<and> (\<exists>(n, a) \<in> set es. \<not> attr_excluded ag n a \<and> serialize h 0 (at_value a) = Inl e)"
proof (induction h ag es al rule: save_attributes.induct)
  case (2 h ag name a rest al)
  have rest: ?case if "\<not> is_path_error e \<and> (\<exists>(n, a) \<in> set rest. \<not> attr_excluded ag n a \<and> serialize h 0 (at_value a) = Inl e)"
    using that by auto
  show ?case
  proof (cases "attr_excluded ag name a")
    case True
    then show ?thesis using "2.IH"(1) [OF True] "2.prems" rest by simp
  next
    case ex: False
    show ?thesis
    proof (cases "serialize h 0 (at_value a)")
      case (Inl e')
      show ?thesis
      proof (cases "is_path_error e'")
        case True
        then show ?thesis using "2.IH"(2) [OF ex Inl True] "2.prems" ex Inl rest by simp
      next
        case False
        then show ?thesis using "2.prems" ex Inl by simp
      qed
    next
      case (Inr r)
      obtain b l where r: "r = (b, l)" by (cases r)
      have "save_attributes h ag rest (al \<union> set l) = Inl e"
        using "2.prems" ex Inr r by (cases b) (auto simp: bind_def split: sum.splits)
      then show ?thesis
        using "2.IH"(3) [OF ex Inr r [symmetric]] "2.IH"(4) [OF ex Inr r [symmetric]] rest by (cases b) auto
    qed
  qed
qed simp

lemma latest_in_order:
  "get_latest_snapshot_id rows = Some sid \<Longrightarrow> \<exists>r \<in> set rows. sr_id r = sid \<and> (\<forall>x \<in> set rows. sr_created_at x \<le> sr_created_at r)"
  unfolding get_latest_snapshot_id_def using latest_row_mem by (fastforce intro: less_imp_le)

section \<open>Properties\<close>

text \<open>An agent with a text block, an expression block and two attributes, one of which is not serialisable.\<close>

definition ex_agent :: agent where
  "ex_agent = \<lparr>
     ag_cm = \<lparr>cm_blocks = [(''role'', Val (P_text ''x'')), (''status'', Dyn ''e'')], cm_protected = {}, cm_cache = [],
              cm_static = [(''role'', True), (''status'', False)], cm_disabled = {''status''}\<rparr>,
     ag_dict = [(''notes'', \<lparr>at_value = Ref 0, at_optout = False, at_callable = False\<rparr>),
                (''client'', \<lparr>at_value = Ref 9, at_optout = False, at_callable = False\<rparr>)],
     ag_nosnapshot_field = (\<lambda>_. False)\<rparr>"

definition ex_snapshot :: snapshot where
  "ex_snapshot = \<lparr>sn_version = 2, sn_context = [Static_block ''role'' (Some (B_str ''x'')), Dynamic_block ''status'' ''e''],
     sn_disabled = [''status''], sn_attributes = [(''notes'', ex_blob)], sn_allowlist = {''m.C''}\<rparr>"

definition ex_json :: json_codec where
  "ex_json = \<lparr>js_dump = (\<lambda>_. ''data''), js_load = (\<lambda>_. Inr ex_snapshot), js_valid = (\<lambda>_. True)\<rparr>"

definition ex_target :: target where
  "ex_target = \<lparr>tg_cm = cm_init, tg_attrs = []\<rparr>"

lemma ex_from_agent: "from_agent ex_heap ex_agent = Inr ex_snapshot"
proof -
  have "serialize ex_heap 0 (Ref 9) = Inl (err R_type)"
    by (simp add: serialize_def ex_heap_def ser.simps skipped_def max_snapshot_depth_def)
  moreover have "serialize ex_heap 0 (Prim (P_str ''x'')) = Inr (Some (B_str ''x''), [])"
    by (simp add: serialize_def B_str_def)
  ultimately show ?thesis
    by (simp add: from_agent_def ex_agent_def ex_snapshot_def SNAPSHOT_VERSION_def raw_value_def attr_excluded_def
        ex_serialized is_path_error_def err_def prefix_def)
qed

lemma ex_restorable: "restorable (\<lambda>_. True) (\<lambda>_. None) ex_heap ex_agent ex_target"
proof -
  have "max_snapshot_depth = Suc 199" by (simp add: max_snapshot_depth_def)
  then show ?thesis
    by (simp add: restorable_def ex_agent_def ex_target_def cm_init_def survives_def raw_value_def)
qed

lemma ex_save: "save_snapshot ex_json ex_heap ''id1'' ''2026'' ex_agent [] =
    (Inr ''id1'', [\<lparr>sr_id = ''id1'', sr_created_at = ''2026'', sr_data = ''data''\<rparr>])"
  by (simp add: save_snapshot_def ex_from_agent dumpable_def ex_snapshot_def insert_snapshot_def ex_json_def Let_def)

text \<open>C13: What a resume restores is the agent that was saved last. Every block of its own comes back with its value or
  expression, in the suffix of the context whatever its placement was, and enabled unless its key was disabled; a block
  that held \<^verbatim>\<open>None\<close> comes back as a disabled key. The disabled keys are disabled, all else of the context is the fresh
  agent's. Every attribute that could be saved has its value, the others are those of the fresh agent. It is so for
  an agent whose values are in the library's own format (no dict with the key \<^verbatim>\<open>__type__\<close>, no data made by hooks) and of
  classes that can still be imported and built from the saved fields, whose expressions compile, whose block values
  are no \<^verbatim>\<open>Context\<close> objects, and for a fresh agent that protects none of the keys.\<close>

theorem resume_restores_last_save:
  assumes "own_format h" and "faithful w h" and "restorable compiles ctx h ag tg0"
    and "save_snapshot js h new_id now ag rows = (Inr sid, rows')"
    and "\<forall>x \<in> set rows. sr_created_at x \<le> now"
    and "from_agent h ag = Inr sn" and "js_load js (js_dump js sn) = Inr sn"
  shows "\<exists>tg. restore_latest_snapshot js w compiles ctx rows' tg0 = (Inr True, tg) \<and> restored_from h ag tg0 tg"
proof -
  have rows': "rows' = rows @ [\<lparr>sr_id = sid, sr_created_at = now, sr_data = js_dump js sn\<rparr>]" "find_row sid rows = None"
    using assms(6) by (auto intro: save_snapshot_Inr [OF assms(4)])
  have "get_latest_snapshot_id rows' = Some sid"
    using latest_row_snoc [of "\<lparr>sr_id = sid, sr_created_at = now, sr_data = js_dump js sn\<rparr>" rows] assms(5)
    by (simp add: get_latest_snapshot_id_def rows' list_all_iff)
  moreover have "find_row sid rows' = Some \<lparr>sr_id = sid, sr_created_at = now, sr_data = js_dump js sn\<rparr>"
    using rows' by (simp add: find_row_append) (simp add: find_row_def)
  moreover have "dumpable sn" using assms(4,6) by (simp add: save_snapshot_def split: if_splits)
  then obtain tg where "restore w compiles ctx sn tg0 = (None, tg)" "restored_from h ag tg0 tg"
    using saved_agent_is_restored [OF assms(1,2,6,3)] by blast
  ultimately show ?thesis using assms(7) by (simp add: restore_latest_snapshot_def restore_snapshot_def)
qed

theorem resume_restores_last_save_witness:
  "\<exists>tg. restore_latest_snapshot ex_json ex_world (\<lambda>_. True) (\<lambda>_. None)
      [\<lparr>sr_id = ''id1'', sr_created_at = ''2026'', sr_data = ''data''\<rparr>] ex_target = (Inr True, tg) \<and>
    dict_get (cm_blocks (tg_cm tg)) ''role'' = Some (Val (P_text ''x'')) \<and> ''status'' \<in> cm_disabled (tg_cm tg)"
proof -
  have j: "js_load ex_json (js_dump ex_json ex_snapshot) = Inr ex_snapshot" by (simp add: ex_json_def)
  have "\<forall>x \<in> set ([] :: snap_row list). sr_created_at x \<le> ''2026''" by simp
  from resume_restores_last_save [OF ex_parts(1) ex_faithful ex_restorable ex_save this ex_from_agent j] obtain tg where
    tg: "restore_latest_snapshot ex_json ex_world (\<lambda>_. True) (\<lambda>_. None)
      [\<lparr>sr_id = ''id1'', sr_created_at = ''2026'', sr_data = ''data''\<rparr>] ex_target = (Inr True, tg)"
      "restored_from ex_heap ex_agent ex_target tg" by blast
  have "restored_key ex_heap ex_agent ex_target tg k" for k using tg(2) by (simp add: restored_from_def)
  from this [of "''role''"] this [of "''status''"] show ?thesis using tg(1)
    by (auto simp: restored_key_def ex_agent_def own_blocks_def holds_block_def restored_block_def raw_value_def plain_of_def
        max_snapshot_depth_def split: option.splits)
qed

text \<open>A stored snapshot is not affected by what is saved after it: whatever insertions follow, restoring its id
  does what restoring the saved state does.\<close>

theorem stored_snapshot_stays:
  assumes "save_snapshot js h new_id now ag rows = (Inr sid, rows')"
    and "from_agent h ag = Inr sn" and "js_load js (js_dump js sn) = Inr sn"
  shows "restore_snapshot js w compiles ctx sid (fold insert_step ops rows') tg =
    (case restore w compiles ctx sn tg of
       (None, tg') \<Rightarrow> (None, tg')
     | (Some e, tg') \<Rightarrow> (Some (Restore_error e), tg'))"
proof -
  have rows': "rows' = rows @ [\<lparr>sr_id = sid, sr_created_at = now, sr_data = js_dump js sn\<rparr>]" "find_row sid rows = None"
    using assms(2) by (auto intro: save_snapshot_Inr [OF assms(1)])
  obtain rs where "fold insert_step ops rows' = rows' @ rs" using insert_steps_extend by blast
  moreover have "find_row sid rows' = Some \<lparr>sr_id = sid, sr_created_at = now, sr_data = js_dump js sn\<rparr>"
    using rows' by (simp add: find_row_append) (simp add: find_row_def)
  ultimately have "find_row sid (fold insert_step ops rows') = Some \<lparr>sr_id = sid, sr_created_at = now, sr_data = js_dump js sn\<rparr>"
    by (simp add: find_row_append)
  then show ?thesis using assms(3) by (simp add: restore_snapshot_def)
qed

theorem stored_snapshot_stays_witness:
  "restore_snapshot ex_json ex_world (\<lambda>_. True) (\<lambda>_. None) ''id1''
     (fold insert_step [\<lparr>in_new_id = ''id1'', in_now = ''2027'', in_data = ''other'', in_id = None, in_created_at = None\<rparr>]
       [\<lparr>sr_id = ''id1'', sr_created_at = ''2026'', sr_data = ''data''\<rparr>]) ex_target =
   (case restore ex_world (\<lambda>_. True) (\<lambda>_. None) ex_snapshot ex_target of
      (None, tg') \<Rightarrow> (None, tg') | (Some e, tg') \<Rightarrow> (Some (Restore_error e), tg'))"
  by (rule stored_snapshot_stays [OF ex_save ex_from_agent]) (simp add: ex_json_def)

text \<open>C26: An attribute that cannot be serialised costs only itself: a save that succeeds has stored exactly the
  attributes that serialise by themselves. A save that fails stores nothing, and it fails only because a block of
  the agent cannot be serialised or is marked as not to be saved, because an attribute raises an error of another kind
  than the serialiser's own, or because the id is taken.\<close>

theorem bad_attribute_costs_itself:
  "case save_snapshot js h new_id now ag rows of
     (Inr sid, rows') \<Rightarrow> (\<exists>sn. from_agent h ag = Inr sn \<and> sn_attributes sn = List.map_filter (attr_blob h ag) (ag_dict ag) \<and>
       rows' = rows @ [\<lparr>sr_id = sid, sr_created_at = now, sr_data = js_dump js sn\<rparr>])
   | (Inl failure, rows') \<Rightarrow> rows' = rows \<and>
       ((\<exists>k v e. failure = Save_error e \<and> (k, Val v) \<in> set (own_blocks ag) \<and> serialize h 0 (raw_value v) = Inl e) \<or>
        (\<exists>k v al. failure = Python_error TypeError \<and> (k, Val v) \<in> set (own_blocks ag) \<and>
           serialize h 0 (raw_value v) = Inr (None, al)) \<or>
        (\<exists>n a e. failure = Save_error e \<and> (n, a) \<in> set (ag_dict ag) \<and> attr_excluded ag n a = False \<and>
           serialize h 0 (at_value a) = Inl e \<and> is_path_error e = False) \<or>
        failure = Python_error IntegrityError \<and> new_id \<in> set (map sr_id rows))"
proof (cases "from_agent h ag")
  case (Inr sn)
  show ?thesis
  proof (cases "dumpable sn")
    case True
    then show ?thesis using from_agent_parts(4) [OF Inr] Inr
      by (simp add: save_snapshot_def insert_snapshot_def Let_def)
  next
    case False
    then obtain blk where blk: "blk \<in> set (sn_context sn)" "\<not> (case blk of Static_block _ None \<Rightarrow> False | _ \<Rightarrow> True)"
      by (auto simp: dumpable_def list_all_iff simp del: split_paired_All)
    from blk(2) obtain k where "blk = Static_block k None" by (cases blk) (simp_all split: option.splits)
    then have "Static_block k None \<in> set (sn_context sn)" using blk(1) by simp
    moreover have "list_all2 (saved_as h (sn_allowlist sn)) (own_blocks ag) (sn_context sn)"
      using from_agent_parts(3) [OF Inr] by (simp add: own_blocks_def)
    ultimately obtain e where "e \<in> set (own_blocks ag)" "saved_as h (sn_allowlist sn) e (Static_block k None)"
      using list_all2_mem_right by metis
    moreover from this(2) obtain v al where "e = (k, Val v)" "serialize h 0 (raw_value v) = Inr (None, al)"
      by (auto simp: saved_as_def split: prod.splits block.splits)
    ultimately have "(k, Val v) \<in> set (own_blocks ag)" "serialize h 0 (raw_value v) = Inr (None, al)" by simp_all
    then show ?thesis using Inr False by (auto simp: save_snapshot_def)
  qed
next
  case (Inl e)
  have run: "save_snapshot js h new_id now ag rows = (Inl (Save_error e), rows)" using Inl by (simp add: save_snapshot_def)
  show ?thesis
  proof (cases "save_context h (cm_protected (ag_cm ag)) (cm_blocks (ag_cm ag)) {}")
    case (Inl e')
    then have "e' = e" using \<open>from_agent h ag = Inl e\<close> by (simp add: from_agent_def)
    then show ?thesis using save_context_fails [OF Inl] by (auto simp: run own_blocks_def)
  next
    case (Inr r)
    obtain bs al where r: "r = (bs, al)" by (cases r)
    then have "save_attributes h ag (ag_dict ag) al = Inl e"
      using \<open>from_agent h ag = Inl e\<close> Inr by (auto simp: from_agent_def bind_def split: sum.splits)
    then show ?thesis using save_attributes_fails by (fastforce simp: run)
  qed
qed

theorem bad_attribute_costs_itself_witness:
  "fst (save_snapshot ex_json ex_heap ''id1'' ''2026'' ex_agent []) = Inr ''id1'' \<and>
   map fst (ag_dict ex_agent) = [''notes'', ''client''] \<and>
   List.map_filter (attr_blob ex_heap ex_agent) (ag_dict ex_agent) = [(''notes'', ex_blob)]"
  using bad_attribute_costs_itself [where js = ex_json and h = ex_heap and new_id = "''id1''" and now = "''2026''"
      and ag = ex_agent and rows = "[]"]
  by (simp add: ex_save ex_from_agent ex_snapshot_def) (simp add: ex_agent_def)

section \<open>What a snapshot does not keep\<close>

text \<open>The placement of a block in the cacheable prefix: whatever it was, a restored block is in the suffix.\<close>

theorem restored_block_leaves_prefix:
  assumes "own_format h" and "faithful w h" and "from_agent h ag = Inr sn" and "restorable compiles ctx h ag tg0"
    and "dumpable sn" and "dict_get (own_blocks ag) k = Some b" and "restored_block h b \<noteq> None"
  shows "\<not> is_static k (tg_cm (snd (restore w compiles ctx sn tg0)))"
proof -
  obtain tg where "restore w compiles ctx sn tg0 = (None, tg)" "restored_from h ag tg0 tg"
    using saved_agent_is_restored [OF assms(1-5)] by blast
  then have "restored_key h ag tg0 tg k" by (simp add: restored_from_def)
  then show ?thesis using assms(6,7) \<open>restore w compiles ctx sn tg0 = (None, tg)\<close>
    by (simp add: restored_key_def holds_block_def)
qed

text \<open>A block that holds \<^verbatim>\<open>None\<close> is saved, and restoring it disables the key instead.\<close>

theorem none_block_restored_as_disabled:
  assumes "key \<notin> cm_protected s"
  shows "restore_block w compiles ctx allow (Static_block key (Some (B_prim P_none))) s = Inr (suppress key s)"
  using assms by (simp add: restore_block_def deserialize_value_def deserialize_def deser_kinds setval_of_def plain_of_def
      cm_setitem_def as_block_result_def)

text \<open>A block whose value is marked as not to be saved makes every save fail with TypeError.\<close>

theorem skipped_block_breaks_save:
  assumes "from_agent h ag = Inr sn" and "(k, Val v) \<in> set (cm_blocks (ag_cm ag))" and "k \<notin> cm_protected (ag_cm ag)"
    and "serialize h 0 (raw_value v) = Inr (None, al)"
  shows "save_snapshot js h new_id now ag rows = (Inl (Python_error TypeError), rows)"
proof -
  have "(k, Val v) \<in> set (filter (\<lambda>(k, b). k \<notin> cm_protected (ag_cm ag)) (cm_blocks (ag_cm ag)))" using assms(2,3) by simp
  then obtain blk where "blk \<in> set (sn_context sn)" "saved_as h (sn_allowlist sn) (k, Val v) blk"
    using list_all2_mem [OF from_agent_parts(3) [OF assms(1)]] by blast
  then have "Static_block k None \<in> set (sn_context sn)" using assms(4) by auto
  then have "\<not> dumpable sn" by (force simp: dumpable_def list_all_iff)
  then show ?thesis using assms(1) by (simp add: save_snapshot_def)
qed

end
