(* ===== verification/Bounded_Read.thy ===== *)
theory Bounded_Read
  imports Py_Prelude "HOL-Library.Word"
begin

text \<open>
  Bounded reading of files: \<^verbatim>\<open>src/nooa/tools/_bounded_io.py\<close>.

  \<^item> Text is a list of Unicode code points, because the line boundaries of \<^verbatim>\<open>str.splitlines\<close> go beyond
    ASCII. \<open>splitlines\<close> is \<^verbatim>\<open>splitlines(keepends=True)\<close>.
  \<^item> A file is its bytes, the size \<open>fstat\<close> reports (which may be wrong) and whether it may be written. The
    encoding of the locale is the parameter \<open>codec\<close>; text mode translates newlines.
  \<^item> A generator is the list of what it yields and how it ends, so that a consumer that stops early sees
    neither the rest nor the error after it.
  \<^item> Lemmas: the walk in chunks yields the lines of the whole text whatever the size of a chunk, fails
    only at a line over the limit or a reading error, and the readers built on it are the slices they replace.
\<close>

section \<open>Text, lines and newlines\<close>

type_synonym utext = "nat list"
type_synonym byte_string = "8 word list"

definition line_break :: "nat \<Rightarrow> bool" where
  "line_break c = (c \<in> {10, 11, 12, 13, 28, 29, 30, 133, 8232, 8233})"

text \<open>\<open>s.splitlines(keepends=True)\<close>; a carriage return and a line feed together are one boundary.\<close>

fun splitlines :: "utext \<Rightarrow> utext list" where
  "splitlines [] = []"
| "splitlines (c # cs) =
     (if line_break c \<and> \<not> (c = 13 \<and> cs \<noteq> [] \<and> hd cs = 10) then [c] # splitlines cs
      else (case splitlines cs of [] \<Rightarrow> [[c]] | l # ls \<Rightarrow> (c # l) # ls))"

text \<open>Universal newlines: what reading in text mode makes of line ends.\<close>

fun universal_newlines :: "utext \<Rightarrow> utext" where
  "universal_newlines [] = []"
| "universal_newlines (c # cs) =
     (if c = 13 then (if cs \<noteq> [] \<and> hd cs = 10 then universal_newlines cs else 10 # universal_newlines cs)
      else c # universal_newlines cs)"

lemma concat_splitlines [simp]: "concat (splitlines s) = s"
  by (induction s) (auto split: list.split)

lemma splitlines_eq_Nil [simp]: "splitlines s = [] \<longleftrightarrow> s = []"
  by (cases s) (auto split: list.split)

lemma splitlines_nonempty: "l \<in> set (splitlines s) \<Longrightarrow> l \<noteq> []"
  by (induction s) (auto split: list.splits if_splits)

lemma universal_newlines_no_cr: "13 \<notin> set (universal_newlines s)"
  by (induction s) auto

lemma universal_newlines_id: "13 \<notin> set s \<Longrightarrow> universal_newlines s = s"
  by (induction s) auto

lemma universal_newlines_idem [simp]: "universal_newlines (universal_newlines s) = universal_newlines s"
  by (rule universal_newlines_id [OF universal_newlines_no_cr])

text \<open>The key fact: text can be split at any point, provided the last line seen is kept back.\<close>

lemma splitlines_append:
  "s \<noteq> [] \<Longrightarrow> splitlines (s @ t) = butlast (splitlines s) @ splitlines (last (splitlines s) @ t)"
proof (induction s)
  case (Cons c cs)
  show ?case
  proof (cases "cs = []")
    case True
    then show ?thesis by (auto split: list.split)
  next
    case False
    with Cons have IH: "splitlines (cs @ t) = butlast (splitlines cs) @ splitlines (last (splitlines cs) @ t)"
      by simp
    obtain l ls where l: "splitlines cs = l # ls" using False by (cases "splitlines cs") auto
    have hd: "hd (cs @ t) = hd cs" using False by simp
    show ?thesis
    proof (cases "line_break c \<and> \<not> (c = 13 \<and> hd cs = 10)")
      case True
      then show ?thesis using IH False hd by auto
    next
      case nb: False
      show ?thesis
      proof (cases "ls = []")
        case True
        have lcs: "l = cs" using l True concat_splitlines [of cs] by simp
        then show ?thesis using IH False hd l True nb by auto
      next
        case ls: False
        then show ?thesis using IH False hd l nb by auto
      qed
    qed
  qed
qed simp

lemma splitlines_single: "l \<in> set (splitlines s) \<Longrightarrow> splitlines l = [l]"
proof (induction s arbitrary: l)
  case (Cons c cs)
  show ?case
  proof (cases "line_break c \<and> \<not> (c = 13 \<and> cs \<noteq> [] \<and> hd cs = 10)")
    case True
    then show ?thesis using Cons by auto
  next
    case nb: False
    show ?thesis
    proof (cases "splitlines cs")
      case Nil
      then have "cs = []" by simp
      then show ?thesis using Cons.prems by (auto split: if_splits)
    next
      case (Cons k ks)
      have k: "splitlines k = [k]" using Cons.IH [of k] Cons by simp
      have kne: "k \<noteq> []" using splitlines_nonempty [of k cs] Cons by simp
      have "concat (splitlines cs) = cs" by simp
      then have cs: "cs = k @ concat ks" using Cons by simp
      have h: "hd k = hd cs" using cs kne by simp
      consider "l = c # k" | "l \<in> set ks" using Cons.prems nb Cons by (auto split: if_splits)
      then show ?thesis
      proof cases
        case 1
        have "cs \<noteq> []" using cs kne by simp
        then have "\<not> (line_break c \<and> \<not> (c = 13 \<and> k \<noteq> [] \<and> hd k = 10))"
          unfolding h using nb kne by fast
        then show ?thesis by (simp only: 1 splitlines.simps k if_False list.case)
      next
        case 2
        then show ?thesis using Cons.IH [of l] Cons by simp
      qed
    qed
  qed
qed simp

text \<open>A line at the front of a text grows when more text follows it.\<close>

lemma hd_splitlines_append: "a \<noteq> [] \<Longrightarrow> length (last (splitlines a)) \<le> length (hd (splitlines (last (splitlines a) @ b)))"
proof -
  assume "a \<noteq> []"
  then have "last (splitlines a) \<in> set (splitlines a)" by (intro last_in_set) simp
  then have l: "splitlines (last (splitlines a)) = [last (splitlines a)]" "last (splitlines a) \<noteq> []"
    using splitlines_single splitlines_nonempty by blast+
  have "length l \<le> length (hd (splitlines (l @ b)))" if "splitlines l = [l]" "l \<noteq> []" for l
    using that
  proof (induction l)
    case (Cons c cs)
    show ?case
    proof (cases "cs = []")
      case True
      then show ?thesis by (auto split: list.split)
    next
      case False
      have "\<not> (line_break c \<and> \<not> (c = 13 \<and> hd cs = 10))" using Cons.prems False by (auto split: if_splits)
      moreover have "splitlines cs = [cs]"
        using Cons.prems False calculation by (auto split: list.splits)
      ultimately have "\<not> (line_break c \<and> \<not> (c = 13 \<and> cs @ b \<noteq> [] \<and> hd (cs @ b) = 10))"
          and "length cs \<le> length (hd (splitlines (cs @ b)))"
        using Cons.IH False by auto
      then show ?thesis using False by (cases "splitlines (cs @ b)") auto
    qed
  qed simp
  then show ?thesis using l by blast
qed

section \<open>Files\<close>

text \<open>The encoding of the locale: encoding and decoding, and the text a reader gets before the block that
  cannot be decoded.\<close>

record codec =
  c_encode :: "utext \<Rightarrow> byte_string option"
  c_decode :: "byte_string \<Rightarrow> utext option"
  c_decoded_before :: "byte_string \<Rightarrow> utext"

record file_data =
  f_data :: byte_string
  f_stat_size :: nat
  f_writable :: bool

text \<open>What a canonical path names: a file, or something that cannot be opened.\<close>

datatype node = File file_data | Unopenable py_error

type_synonym rpath = utext

text \<open>The file system, with what the operating system answers: the error of creating a file in its directory, the
  error of making the directories above a path, and, for bytes written to a path, how many of them reach the file
  when the write fails.\<close>

record fs =
  fs_node :: "rpath \<Rightarrow> node option"
  fs_create_error :: "rpath \<Rightarrow> py_error option"
  fs_mkdir_error :: "rpath \<Rightarrow> py_error option"
  fs_write_cut :: "rpath \<Rightarrow> byte_string \<Rightarrow> nat option"

text \<open>\<open>open(path)\<close>, in text mode: the text that can be read and the error that ends it, if any.\<close>

record text_handle =
  h_rest :: utext
  h_error :: "py_error option"

definition open_text :: "codec \<Rightarrow> fs \<Rightarrow> rpath \<Rightarrow> text_handle py_res" where
  "open_text c s p =
     (case fs_node s p of
        None \<Rightarrow> Inl FileNotFoundError
      | Some (Unopenable e) \<Rightarrow> Inl e
      | Some (File f) \<Rightarrow>
          Inr (case c_decode c (f_data f) of
                 Some t \<Rightarrow> \<lparr>h_rest = universal_newlines t, h_error = None\<rparr>
               | None \<Rightarrow> \<lparr>h_rest = universal_newlines (c_decoded_before c (f_data f)), h_error = Some UnicodeDecodeError\<rparr>))"

text \<open>\<open>handle.read(n)\<close>: \<open>n\<close> characters, fewer only at the end of the file.\<close>

definition read_chars :: "nat \<Rightarrow> text_handle \<Rightarrow> (utext \<times> text_handle) py_res" where
  "read_chars n h =
     (if n \<le> length (h_rest h) then Inr (take n (h_rest h), h\<lparr>h_rest := drop n (h_rest h)\<rparr>)
      else case h_error h of
             Some e \<Rightarrow> Inl e
           | None \<Rightarrow> Inr (h_rest h, h\<lparr>h_rest := []\<rparr>))"

section \<open>The chunked walk\<close>

text \<open>A generator: what it yields, and the exception that ends it if there is one.\<close>

type_synonym 'a generator = "'a list \<times> py_error option"

definition CHUNK_CHARS :: nat where
  "CHUNK_CHARS = 64 * 1024"

definition DEFAULT_MAX_FILE_BYTES :: nat where
  "DEFAULT_MAX_FILE_BYTES = 8 * 1024 * 1024"

function lines_loop :: "nat \<Rightarrow> nat \<Rightarrow> utext \<Rightarrow> text_handle \<Rightarrow> utext generator" where
  "lines_loop chunk_chars max_line_chars carry handle =
     (case read_chars chunk_chars handle of
        Inl e \<Rightarrow> ([], Some e)
      | Inr (chunk, handle') \<Rightarrow>
          if chunk = [] then (if carry \<noteq> [] then [carry] else [], None)
          else
            let parts = splitlines (carry @ chunk);
                carry' = (if parts \<noteq> [] then last parts else []) in
            if max_line_chars < length carry' then ([], Some FileTooLargeError)
            else (let (ls, e) = lines_loop chunk_chars max_line_chars carry' handle' in
                  (butlast parts @ ls, e)))"
  by pat_completeness auto
termination
  by (relation "measure (\<lambda>(n, m, carry, h). length (h_rest h))")
    (auto simp: read_chars_def split: if_splits option.splits)

declare lines_loop.simps [simp del]

definition iter_lines_keepends :: "codec \<Rightarrow> fs \<Rightarrow> rpath \<Rightarrow> nat \<Rightarrow> nat \<Rightarrow> utext generator" where
  "iter_lines_keepends c s p max_line_chars chunk_chars =
     (case open_text c s p of
        Inl e \<Rightarrow> ([], Some e)
      | Inr h \<Rightarrow> lines_loop chunk_chars max_line_chars [] h)"

section \<open>Readers\<close>

text \<open>The loop of \<open>read_line_range\<close> over the lines of the generator.\<close>

fun range_loop :: "int \<Rightarrow> int \<Rightarrow> int \<Rightarrow> utext list \<Rightarrow> utext list \<Rightarrow> py_error option \<Rightarrow> (utext \<times> int) py_res" where
  "range_loop start stop seen pieces [] err =
     (case err of Some e \<Rightarrow> Inl e | None \<Rightarrow> Inr (concat pieces, min stop seen))"
| "range_loop start stop seen pieces (line # lines) err =
     (let seen = seen + 1;
          pieces = (if start \<le> seen then pieces @ [line] else pieces) in
      if stop \<le> seen then Inr (concat pieces, min stop seen)
      else range_loop start stop seen pieces lines err)"

definition read_line_range :: "codec \<Rightarrow> fs \<Rightarrow> rpath \<Rightarrow> int \<Rightarrow> int \<Rightarrow> nat \<Rightarrow> (utext \<times> int) py_res" where
  "read_line_range c s p start stop max_line_chars =
     (if stop < 1 then Inr ([], stop)
      else let (lines, err) = iter_lines_keepends c s p max_line_chars CHUNK_CHARS in
           range_loop start stop 0 [] lines err)"

text \<open>The loop of \<open>read_specific_lines\<close>; the result is a dictionary.\<close>

fun specific_loop :: "int list \<Rightarrow> int \<Rightarrow> int \<Rightarrow> (int, utext) dict \<Rightarrow> utext list \<Rightarrow> py_error option \<Rightarrow>
    (int, utext) dict py_res" where
  "specific_loop wanted highest seen found [] err =
     (case err of Some e \<Rightarrow> Inl e | None \<Rightarrow> Inr found)"
| "specific_loop wanted highest seen found (line # lines) err =
     (let seen = seen + 1;
          found = (if seen \<in> set wanted then dict_set seen line found else found) in
      if highest \<le> seen then Inr found
      else specific_loop wanted highest seen found lines err)"

definition read_specific_lines :: "codec \<Rightarrow> fs \<Rightarrow> rpath \<Rightarrow> int list \<Rightarrow> nat \<Rightarrow> (int, utext) dict py_res" where
  "read_specific_lines c s p wanted max_line_chars =
     (if wanted = [] then Inr []
      else let highest = Max (set wanted) in
        if highest < 1 then Inr []
        else let (lines, err) = iter_lines_keepends c s p max_line_chars CHUNK_CHARS in
             specific_loop wanted highest 0 [] lines err)"

text \<open>Two guards: the reported size, and what was really read, at most one byte over the limit.\<close>

definition read_whole_file_checked :: "codec \<Rightarrow> fs \<Rightarrow> rpath \<Rightarrow> nat \<Rightarrow> utext py_res" where
  "read_whole_file_checked c s p max_bytes =
     (case fs_node s p of
        None \<Rightarrow> Inl FileNotFoundError
      | Some (Unopenable e) \<Rightarrow> Inl e
      | Some (File f) \<Rightarrow>
          if max_bytes < f_stat_size f then Inl FileTooLargeError
          else let data = take (max_bytes + 1) (f_data f) in
            if max_bytes < length data then Inl FileTooLargeError
            else case c_decode c data of
                   None \<Rightarrow> Inl UnicodeDecodeError
                 | Some t \<Rightarrow> Inr (universal_newlines t))"

section \<open>The walk in chunks is the walk over the lines\<close>

definition pending :: "utext \<Rightarrow> bool" where
  "pending carry = (carry = [] \<or> splitlines carry = [carry])"

lemma pending_last: "s \<noteq> [] \<Longrightarrow> pending (last (splitlines s))"
proof -
  assume "s \<noteq> []"
  then have "last (splitlines s) \<in> set (splitlines s)" by (intro last_in_set) simp
  then show ?thesis by (simp add: pending_def splitlines_single)
qed

text \<open>The reads of one handle: what is read and what remains are the text, and errors are the handle's.\<close>

lemma read_chars_Inr:
  assumes "read_chars n h = Inr (chunk, h')" and "0 < n"
  shows "h_rest h = chunk @ h_rest h'" "h_error h' = h_error h"
    "chunk = [] \<Longrightarrow> h_rest h = [] \<and> h_error h = None"
  using assms by (auto simp: read_chars_def split: if_splits option.splits)

lemma read_chars_Inl: "read_chars n h = Inl e \<Longrightarrow> h_error h = Some e"
  by (auto simp: read_chars_def split: if_splits option.splits)

text \<open>One step of the loop, for a chunk that is not empty.\<close>

lemma lines_loop_step:
  assumes "read_chars n h = Inr (chunk, h')" and "chunk \<noteq> []"
  shows "lines_loop n m carry h =
    (let parts = splitlines (carry @ chunk) in
     if m < length (last parts) then ([], Some FileTooLargeError)
     else (butlast parts @ fst (lines_loop n m (last parts) h'), snd (lines_loop n m (last parts) h')))"
  using assms by (subst lines_loop.simps) (simp add: Let_def split: prod.split)

lemma lines_loop_yields:
  assumes "0 < n" and "pending carry"
  shows "prefix (fst (lines_loop n m carry h)) (splitlines (carry @ h_rest h)) \<and>
    (snd (lines_loop n m carry h) = None \<longrightarrow> fst (lines_loop n m carry h) = splitlines (carry @ h_rest h))"
  using assms
proof (induction n m carry h rule: lines_loop.induct)
  case (1 n m carry h)
  show ?case
  proof (cases "read_chars n h")
    case (Inl e)
    then show ?thesis by (simp add: lines_loop.simps [of n m carry h])
  next
    case (Inr r)
    obtain chunk h' where r: "read_chars n h = Inr (chunk, h')" using Inr by (cases r) simp
    note rd = read_chars_Inr [OF r "1.prems"(1)]
    show ?thesis
    proof (cases "chunk = []")
      case True
      then show ?thesis using rd(3) "1.prems"(2) r
        by (auto simp: lines_loop.simps [of n m carry h] pending_def)
    next
      case False
      define parts where "parts = splitlines (carry @ chunk)"
      have whole: "splitlines (carry @ h_rest h) = butlast parts @ splitlines (last parts @ h_rest h')"
        using splitlines_append [of "carry @ chunk" "h_rest h'"] False rd(1) by (simp add: parts_def)
      have pend: "pending (last parts)" using pending_last [of "carry @ chunk"] False by (simp add: parts_def)
      note step = lines_loop_step [OF r False, of m carry, folded parts_def, unfolded Let_def]
      show ?thesis
      proof (cases "m < length (last parts)")
        case True
        then show ?thesis using step by simp
      next
        case fits: False
        have "parts \<noteq> []" using False by (simp add: parts_def)
        then have "prefix (fst (lines_loop n m (last parts) h')) (splitlines (last parts @ h_rest h')) \<and>
            (snd (lines_loop n m (last parts) h') = None \<longrightarrow>
             fst (lines_loop n m (last parts) h') = splitlines (last parts @ h_rest h'))"
          using "1.IH" [OF r refl False parts_def refl] fits "1.prems"(1) pend by simp
        then show ?thesis using step fits whole by simp
      qed
    qed
  qed
qed

lemma lines_loop_fails:
  assumes "0 < n" and "pending carry" and "snd (lines_loop n m carry h) = Some e"
  shows "h_error h = Some e \<or>
    e = FileTooLargeError \<and> (\<exists>l \<in> set (splitlines (carry @ h_rest h)). m < length l)"
  using assms
proof (induction n m carry h rule: lines_loop.induct)
  case (1 n m carry h)
  show ?case
  proof (cases "read_chars n h")
    case (Inl x)
    then show ?thesis using "1.prems"(3) read_chars_Inl [OF Inl] by (simp add: lines_loop.simps [of n m carry h])
  next
    case (Inr r)
    obtain chunk h' where r: "read_chars n h = Inr (chunk, h')" using Inr by (cases r) simp
    note rd = read_chars_Inr [OF r "1.prems"(1)]
    show ?thesis
    proof (cases "chunk = []")
      case True
      then show ?thesis using "1.prems"(3) r by (simp add: lines_loop.simps [of n m carry h])
    next
      case False
      define parts where "parts = splitlines (carry @ chunk)"
      have whole: "splitlines (carry @ h_rest h) = butlast parts @ splitlines (last parts @ h_rest h')"
        using splitlines_append [of "carry @ chunk" "h_rest h'"] False rd(1) by (simp add: parts_def)
      have pend: "pending (last parts)" using pending_last [of "carry @ chunk"] False by (simp add: parts_def)
      note step = lines_loop_step [OF r False, of m carry, folded parts_def, unfolded Let_def]
      have ne: "parts \<noteq> []" using False by (simp add: parts_def)
      show ?thesis
      proof (cases "m < length (last parts)")
        case True
        have "length (last parts) \<le> length (hd (splitlines (last parts @ h_rest h')))"
          using hd_splitlines_append [of "carry @ chunk" "h_rest h'"] False by (simp add: parts_def)
        moreover have "last parts \<noteq> []" using True by auto
        then have "hd (splitlines (last parts @ h_rest h')) \<in> set (splitlines (last parts @ h_rest h'))" by simp
        ultimately show ?thesis using True step "1.prems"(3) whole by (metis Un_iff order_less_le_trans option.inject set_append snd_conv)
      next
        case fits: False
        have "h_error h' = Some e \<or>
            e = FileTooLargeError \<and> (\<exists>l \<in> set (splitlines (last parts @ h_rest h')). m < length l)"
          using "1.IH" [OF r refl False parts_def refl] fits "1.prems"(1,3) pend ne step by simp
        then show ?thesis using whole rd(2) by auto
      qed
    qed
  qed
qed

section \<open>What the readers return\<close>

text \<open>The text of a file as \<open>read_text\<close> gives it, when it can be decoded.\<close>

definition text_of :: "codec \<Rightarrow> fs \<Rightarrow> rpath \<Rightarrow> utext option" where
  "text_of c s p =
     (case fs_node s p of
        Some (File f) \<Rightarrow> map_option universal_newlines (c_decode c (f_data f))
      | _ \<Rightarrow> None)"

lemma open_text_of: "text_of c s p = Some t \<Longrightarrow> open_text c s p = Inr \<lparr>h_rest = t, h_error = None\<rparr>"
  by (auto simp: text_of_def open_text_def split: option.splits node.splits)

lemma CHUNK_CHARS_pos: "0 < CHUNK_CHARS"
  by (simp add: CHUNK_CHARS_def)

text \<open>The generator over a file that can be decoded, for any positive chunk size.\<close>

lemma iter_lines_cases:
  assumes "text_of c s p = Some t" and "0 < n"
  obtains ls where "iter_lines_keepends c s p m n = (ls, None)" "ls = splitlines t"
  | ls where "iter_lines_keepends c s p m n = (ls, Some FileTooLargeError)" "prefix ls (splitlines t)"
      "\<exists>l \<in> set (splitlines t). m < length l"
proof -
  define h where "h = \<lparr>h_rest = t, h_error = None\<rparr>"
  have it: "iter_lines_keepends c s p m n = lines_loop n m [] h"
    using open_text_of [OF assms(1)] by (simp add: iter_lines_keepends_def h_def)
  have y: "prefix (fst (lines_loop n m [] h)) (splitlines t)"
      "snd (lines_loop n m [] h) = None \<longrightarrow> fst (lines_loop n m [] h) = splitlines t"
    using lines_loop_yields [OF assms(2), of "[]" m h] by (simp_all add: pending_def h_def)
  have f: "snd (lines_loop n m [] h) = Some e \<Longrightarrow>
      e = FileTooLargeError \<and> (\<exists>l \<in> set (splitlines t). m < length l)" for e
    using lines_loop_fails [OF assms(2), of "[]" m h e] by (auto simp: pending_def h_def)
  show thesis
  proof (cases "snd (lines_loop n m [] h)")
    case None
    then show thesis using that(1) [of "splitlines t"] it y(2) by (metis prod.collapse)
  next
    case (Some e)
    then show thesis using that(2) [of "fst (lines_loop n m [] h)"] it y(1) f [OF Some] by (metis prod.collapse)
  qed
qed

text \<open>The loop over a range stops at \<open>stop\<close>, or sees the end of the generator.\<close>

lemma range_loop_spec:
  assumes "seen < stop"
  shows "range_loop start stop seen pieces lines err =
    (if stop \<le> seen + int (length lines)
     then Inr (concat (pieces @ drop (nat (start - 1 - seen)) (take (nat (stop - seen)) lines)), stop)
     else case err of
       Some e \<Rightarrow> Inl e
     | None \<Rightarrow> Inr (concat (pieces @ drop (nat (start - 1 - seen)) lines), seen + int (length lines)))"
  using assms
proof (induction lines arbitrary: seen pieces)
  case Nil
  then show ?case by (auto split: option.split)
next
  case (Cons line lines)
  have take: "take (nat (stop - seen)) (line # lines) = line # take (nat (stop - (seen + 1))) lines"
  proof -
    have "nat (stop - seen) = Suc (nat (stop - (seen + 1)))" using Cons.prems by simp
    then show ?thesis by simp
  qed
  have drop: "drop (nat (start - 1 - seen)) (line # xs)
      = (if start \<le> seen + 1 then line # drop (nat (start - 1 - (seen + 1))) xs
         else drop (nat (start - 1 - (seen + 1))) xs)" for xs
  proof (cases "start \<le> seen + 1")
    case False
    then have "nat (start - 1 - seen) = Suc (nat (start - 1 - (seen + 1)))" by simp
    then show ?thesis using False by simp
  qed simp
  show ?case
  proof (cases "stop \<le> seen + 1")
    case True
    then have "stop = seen + 1" using Cons.prems by simp
    then show ?thesis by (auto simp: drop)
  next
    case False
    then show ?thesis using Cons.IH [of "seen + 1"] Cons.prems
      by (simp add: Let_def take drop add.commute add.left_commute split: option.split)
  qed
qed

lemma read_line_range_cases:
  assumes "text_of c s p = Some t" and "1 \<le> start" and "1 \<le> stop"
  shows "read_line_range c s p start stop m =
      Inr (concat (drop (nat (start - 1)) (take (nat stop) (splitlines t))), min stop (int (length (splitlines t))))
    \<or> read_line_range c s p start stop m = Inl FileTooLargeError \<and> (\<exists>l \<in> set (splitlines t). m < length l)"
proof (rule iter_lines_cases [OF assms(1) CHUNK_CHARS_pos, of m])
  fix ls
  assume "iter_lines_keepends c s p m CHUNK_CHARS = (ls, None)" and ls: "ls = splitlines t"
  then have "read_line_range c s p start stop m = range_loop start stop 0 [] ls None"
    using assms by (simp add: read_line_range_def)
  also have "\<dots> = Inr (concat (drop (nat (start - 1)) (take (nat stop) ls)), min stop (int (length ls)))"
    using assms by (subst range_loop_spec) auto
  finally show ?thesis using ls by simp
next
  fix ls
  assume it: "iter_lines_keepends c s p m CHUNK_CHARS = (ls, Some FileTooLargeError)"
    and pre: "prefix ls (splitlines t)" and big: "\<exists>l \<in> set (splitlines t). m < length l"
  have r: "read_line_range c s p start stop m = range_loop start stop 0 [] ls (Some FileTooLargeError)"
    using assms it by (simp add: read_line_range_def)
  show ?thesis
  proof (cases "stop \<le> int (length ls)")
    case True
    have "take (nat stop) ls = take (nat stop) (splitlines t)"
      using pre True by (auto simp: prefix_def)
    moreover have "length ls \<le> length (splitlines t)" using pre by (simp add: prefix_length_le)
    ultimately show ?thesis using r range_loop_spec [of 0 stop start "[]" ls] True assms by simp
  next
    case False
    then show ?thesis using r range_loop_spec [of 0 stop start "[]" ls] big assms by simp
  qed
qed

text \<open>The loop over wanted lines.\<close>

lemma specific_loop_found:
  assumes "specific_loop wanted highest seen found lines err = Inr d" and "seen < highest"
  shows "dict_get d k =
      (if k \<in> set wanted \<and> seen < k \<and> k \<le> highest \<and> k \<le> seen + int (length lines)
       then Some (lines ! nat (k - seen - 1)) else dict_get found k) \<and>
    (err \<noteq> None \<longrightarrow> highest \<le> seen + int (length lines))"
  using assms
proof (induction lines arbitrary: seen found)
  case Nil
  then show ?case by (auto split: option.splits)
next
  case (Cons line lines)
  show ?case
  proof (cases "highest \<le> seen + 1")
    case True
    then have "highest = seen + 1" using Cons.prems(2) by simp
    then show ?thesis using Cons.prems by (cases "k = seen + 1") (auto simp: Let_def split: if_splits)
  next
    case False
    define found' where "found' = (if seen + 1 \<in> set wanted then dict_set (seen + 1) line found else found)"
    have IH: "dict_get d k =
        (if k \<in> set wanted \<and> seen + 1 < k \<and> k \<le> highest \<and> k \<le> seen + 1 + int (length lines)
         then Some (lines ! nat (k - (seen + 1) - 1)) else dict_get found' k) \<and>
      (err \<noteq> None \<longrightarrow> highest \<le> seen + 1 + int (length lines))"
      using Cons.IH [of "seen + 1" found'] Cons.prems False by (simp add: Let_def found'_def)
    have nth: "(line # lines) ! nat (k - seen - 1) = lines ! nat (k - (seen + 1) - 1)" if "seen + 1 < k"
    proof -
      have "nat (k - seen - 1) = Suc (nat (k - (seen + 1) - 1))" using that by simp
      then show ?thesis by simp
    qed
    consider "k = seen + 1" | "seen + 1 < k" | "k \<le> seen" by linarith
    then show ?thesis
    proof cases
      case 1
      then show ?thesis using IH False by (auto simp: found'_def)
    next
      case 2
      then show ?thesis using IH False nth by (auto simp: found'_def)
    next
      case 3
      then show ?thesis using IH False by (auto simp: found'_def)
    qed
  qed
qed

lemma read_specific_lines_found:
  assumes "text_of c s p = Some t" and "read_specific_lines c s p wanted m = Inr d" and "k \<in> set wanted"
  shows "dict_get d k =
    (if 1 \<le> k \<and> k \<le> int (length (splitlines t)) then Some (splitlines t ! nat (k - 1)) else None)"
proof -
  have ne: "wanted \<noteq> []" using assms(3) by auto
  have kmax: "k \<le> Max (set wanted)" using assms(3) by simp
  show ?thesis
  proof (cases "Max (set wanted) < 1")
    case True
    then show ?thesis using assms(2) ne kmax by (auto simp: read_specific_lines_def Let_def simp del: Max_less_iff)
  next
    case False
    obtain ls err where it: "iter_lines_keepends c s p m CHUNK_CHARS = (ls, err)" by fastforce
    have "prefix ls (splitlines t) \<and> (err = None \<longrightarrow> ls = splitlines t)"
      by (rule iter_lines_cases [OF assms(1) CHUNK_CHARS_pos, of m]) (use it in auto)
    then obtain rest where pre: "splitlines t = ls @ rest" "err = None \<longrightarrow> rest = []"
      by (auto simp: prefix_def)
    have "specific_loop wanted (Max (set wanted)) 0 [] ls err = Inr d"
      using assms(2) ne False it by (simp add: read_specific_lines_def Let_def)
    from specific_loop_found [OF this, of k] False
    have d: "dict_get d k = (if 0 < k \<and> k \<le> int (length ls) then Some (ls ! nat (k - 1)) else None)"
        and e: "err \<noteq> None \<longrightarrow> Max (set wanted) \<le> int (length ls)"
      using assms(3) kmax by simp_all
    show ?thesis
    proof (cases "k \<le> int (length ls)")
      case True
      then show ?thesis using d pre(1) by (auto simp: nth_append)
    next
      case False
      then have "rest = []" using pre(2) e kmax by auto
      then show ?thesis using d pre(1) False by simp
    qed
  qed
qed

text \<open>An unbounded read never hands out more than its limit, whatever size was reported.\<close>

lemma read_whole_text_of:
  assumes "read_whole_file_checked c s p m = Inr t"
  shows "text_of c s p = Some t"
  using assms
  by (auto simp: read_whole_file_checked_def text_of_def Let_def split: option.splits node.splits if_splits)

lemma read_whole_no_cr: "read_whole_file_checked c s p m = Inr t \<Longrightarrow> 13 \<notin> set t"
  by (auto simp: read_whole_file_checked_def Let_def universal_newlines_no_cr
      split: option.splits node.splits if_splits)

end
