(* ===== verification/File_Tools.thy ===== *)
theory File_Tools
  imports Bounded_Read
begin

text \<open>
  Reading and editing files through anchors: the classes \<^verbatim>\<open>FileWrite\<close>, \<^verbatim>\<open>Match\<close> and the file operations of
  \<^verbatim>\<open>ShellTools\<close> in \<^verbatim>\<open>src/nooa/tools/shell_tools.py\<close>.

  \<^item> A \<open>match\<close> is the region of a file as it was read: path, canonical path, line range, text.
  \<^item> \<open>shell_read\<close>, \<open>replace_match\<close>, \<open>replace_text\<close> and \<open>write_file\<close> are the operations; a write returns the new
    file system. What the operating system says about paths is the parameter \<open>path_env\<close>.
  \<^item> Lemmas: an edit through a match replaces its lines and no others, a match whose text is no longer in
    its place changes nothing, slices of a valid match are valid, an edit by text needs one occurrence.
\<close>

section \<open>Strings\<close>

definition u :: "string \<Rightarrow> utext" where
  "u s = map of_char s"

definition u_int :: "int \<Rightarrow> utext" where
  "u_int i = u (int_str i)"

definition ends_nl :: "utext \<Rightarrow> bool" where
  "ends_nl s = (s \<noteq> [] \<and> last s = 10)"

text \<open>\<open>line.rstrip(chr(10))\<close>.\<close>

definition rstrip_nl :: "utext \<Rightarrow> utext" where
  "rstrip_nl s = rev (dropWhile (\<lambda>c. c = 10) (rev s))"

fun join_nl :: "utext list \<Rightarrow> utext" where
  "join_nl [] = []"
| "join_nl [x] = x"
| "join_nl (x # y # xs) = x @ 10 # join_nl (y # xs)"

text \<open>\<open>s.count(sub)\<close>: occurrences that do not overlap.\<close>

function str_count :: "utext \<Rightarrow> utext \<Rightarrow> nat" where
  "str_count sub s =
     (if sub = [] then length s + 1
      else if s = [] then 0
      else if prefix sub s then Suc (str_count sub (drop (length sub) s))
      else str_count sub (tl s))"
  by pat_completeness auto
termination
  by (relation "measure (\<lambda>(sub, s). length s)") auto

declare str_count.simps [simp del]

text \<open>\<open>s.replace(sub, new, 1)\<close>.\<close>

fun replace_first :: "utext \<Rightarrow> utext \<Rightarrow> utext \<Rightarrow> utext" where
  "replace_first sub new [] = (if sub = [] then new else [])"
| "replace_first sub new (c # cs) =
     (if prefix sub (c # cs) then new @ drop (length sub) (c # cs) else c # replace_first sub new cs)"

section \<open>Paths and writing\<close>

record path_env =
  pe_absolute :: "utext \<Rightarrow> bool"
  pe_canonical :: "utext \<Rightarrow> rpath"
  pe_join :: "utext \<Rightarrow> utext \<Rightarrow> utext"

record shell =
  sh_cwd :: utext
  sh_max_file_bytes :: nat

definition resolve_path :: "path_env \<Rightarrow> shell \<Rightarrow> utext \<Rightarrow> rpath" where
  "resolve_path env sh path = pe_canonical env (pe_join env (sh_cwd sh) path)"

text \<open>\<open>path.write_text(data)\<close>: opening for writing empties the file before the text is encoded, and the
  operating system can fail after it has taken some of the bytes.\<close>

definition put_file :: "rpath \<Rightarrow> byte_string \<Rightarrow> fs \<Rightarrow> fs" where
  "put_file p b s = s\<lparr>fs_node := (fs_node s)(p \<mapsto> File \<lparr>f_data = b, f_stat_size = length b, f_writable = True\<rparr>)\<rparr>"

definition open_for_write :: "fs \<Rightarrow> rpath \<Rightarrow> py_error option" where
  "open_for_write s p =
     (case fs_node s p of
        Some (Unopenable e) \<Rightarrow> Some e
      | Some (File f) \<Rightarrow> (if f_writable f then None else Some OSError)
      | None \<Rightarrow> fs_create_error s p)"

definition write_text :: "codec \<Rightarrow> rpath \<Rightarrow> utext \<Rightarrow> fs \<Rightarrow> unit py_res \<times> fs" where
  "write_text c p t s =
     (case open_for_write s p of
        Some e \<Rightarrow> (Inl e, s)
      | None \<Rightarrow>
          (case c_encode c t of
             None \<Rightarrow> (Inl UnicodeEncodeError, put_file p [] s)
           | Some b \<Rightarrow>
               (case fs_write_cut s p b of
                  None \<Rightarrow> (Inr (), put_file p b s)
                | Some k \<Rightarrow> (Inl OSError, put_file p (take k b) s))))"

section \<open>Matches\<close>

record match =
  m_path :: utext
  m_resolved_path :: rpath
  m_start :: int
  m_end :: int
  m_text :: utext

definition new_match :: "path_env \<Rightarrow> utext \<Rightarrow> int \<Rightarrow> int \<Rightarrow> utext \<Rightarrow> utext \<Rightarrow> match py_res" where
  "new_match env path start stop t resolved =
     (if \<not> pe_absolute env resolved then Inl ValueError
      else Inr \<lparr>m_path = path, m_resolved_path = pe_canonical env resolved,
                m_start = start, m_end = stop, m_text = t\<rparr>)"

text \<open>The numbered view: line numbers right-justified to the width of the last one.\<close>

definition gutter :: "nat \<Rightarrow> int \<Rightarrow> utext" where
  "gutter width i = replicate (width - length (u_int i)) 32 @ u_int i"

fun numbered_lines :: "nat \<Rightarrow> int \<Rightarrow> utext list \<Rightarrow> utext list" where
  "numbered_lines width i [] = []"
| "numbered_lines width i (line # lines) =
     (gutter width i @ u ''| '' @ rstrip_nl line) # numbered_lines width (i + 1) lines"

definition numbered :: "match \<Rightarrow> utext" where
  "numbered m = join_nl (numbered_lines (length (u_int (m_end m))) (m_start m) (splitlines (m_text m)))"

datatype match_key = Slice "int option" "int option" | OtherKey

definition py_slice :: "'a list \<Rightarrow> int \<Rightarrow> int \<Rightarrow> 'a list" where
  "py_slice xs i j = drop (py_idx (length xs) i) (take (py_idx (length xs) j) xs)"

definition match_getitem :: "path_env \<Rightarrow> match \<Rightarrow> match_key \<Rightarrow> match py_res" where
  "match_getitem env m key =
     (case key of
        OtherKey \<Rightarrow> Inl TypeError
      | Slice key_start key_stop \<Rightarrow>
          let lines = splitlines (m_text m);
              start = (case key_start of Some i \<Rightarrow> i | None \<Rightarrow> m_start m);
              stop = (case key_stop of Some i \<Rightarrow> i | None \<Rightarrow> m_end m);
              start = (if start < m_start m then m_start m else start);
              stop = (if m_end m < stop then m_end m else stop);
              idx_start = start - m_start m;
              idx_end = stop - m_start m + 1 in
          new_match env (m_path m) start stop (concat (py_slice lines idx_start idx_end)) (m_resolved_path m))"

section \<open>The operations\<close>

record file_write =
  fw_path :: utext
  fw_message :: utext
  fw_diff :: utext
  fw_new_text :: utext

definition shell_read :: "codec \<Rightarrow> path_env \<Rightarrow> shell \<Rightarrow> fs \<Rightarrow> utext \<Rightarrow> (int \<times> int) option \<Rightarrow> match py_res" where
  "shell_read c env sh s path lines =
     (let resolved = resolve_path env sh path in
      case lines of
        Some (start, stop) \<Rightarrow>
          let start = max 1 start in
          py_bind (read_line_range c s resolved start stop (sh_max_file_bytes sh)) (\<lambda>(t, clamped_end).
            new_match env path start clamped_end t resolved)
      | None \<Rightarrow>
          py_bind (read_whole_file_checked c s resolved (sh_max_file_bytes sh)) (\<lambda>content.
            new_match env path 1 (int (length (splitlines content))) content resolved))"

text \<open>What an edit through a match checks before it writes: the text at the captured range.\<close>

definition empty_file_anchor :: "match \<Rightarrow> utext \<Rightarrow> bool" where
  "empty_file_anchor m content = (m_start m = 1 \<and> m_end m = 0 \<and> m_text m = [] \<and> content = [])"

definition anchor_holds :: "match \<Rightarrow> utext \<Rightarrow> bool" where
  "anchor_holds m content =
     (empty_file_anchor m content \<or>
      \<not> (m_start m < 1 \<or> m_end m < m_start m) \<and>
      \<not> int (length (splitlines content)) < m_end m \<and>
      concat (py_slice (splitlines content) (m_start m - 1) (m_end m)) = m_text m)"

text \<open>The text that takes the place of the region: a newline is added where the region ended in one.\<close>

definition terminated_text :: "utext \<Rightarrow> utext \<Rightarrow> utext list \<Rightarrow> bool \<Rightarrow> utext" where
  "terminated_text new_text content after reaches_end =
     (if new_text \<noteq> [] \<and> \<not> ends_nl new_text \<and> (after \<noteq> [] \<or> reaches_end \<and> ends_nl content)
      then new_text @ [10] else new_text)"

definition edited :: "match \<Rightarrow> utext \<Rightarrow> utext \<Rightarrow> utext \<times> utext" where
  "edited m content new_text =
     (let all_lines = splitlines content;
          before = slice_to all_lines (m_start m - 1);
          after = slice_from all_lines (m_end m);
          reaches_end = (int (length all_lines) \<le> m_end m);
          new_text = terminated_text new_text content after reaches_end in
      (concat before @ new_text @ concat after, new_text))"

definition match_diff :: "match \<Rightarrow> utext" where
  "match_diff m = u ''--- a/'' @ m_path m @ [10] @ u ''+++ b/'' @ m_path m @ [10] @
     u ''@@ -'' @ u_int (m_start m) @ u '','' @ u_int (m_end m - m_start m + 1) @ u '' @@'' @ [10]"

definition replace_match :: "codec \<Rightarrow> shell \<Rightarrow> match \<Rightarrow> utext \<Rightarrow> utext option \<Rightarrow> fs \<Rightarrow> file_write py_res \<times> fs" where
  "replace_match c sh m old_or_new new s =
     (if new \<noteq> None then (Inl ValueError, s)
      else case read_whole_file_checked c s (m_resolved_path m) (sh_max_file_bytes sh) of
        Inl e \<Rightarrow> (Inl (if e = FileNotFoundError then StaleMatchError else e), s)
      | Inr content \<Rightarrow>
          if \<not> anchor_holds m content then (Inl StaleMatchError, s)
          else let (new_content, new_text) = edited m content old_or_new in
            case write_text c (m_resolved_path m) new_content s of
              (Inl e, s') \<Rightarrow> (Inl e, s')
            | (Inr _, s') \<Rightarrow>
                (Inr \<lparr>fw_path = m_path m,
                      fw_message = u ''Edited '' @ m_path m @ u '' (replaced lines '' @
                        u_int (m_start m) @ u ''-'' @ u_int (m_end m) @ u '')'',
                      fw_diff = match_diff m, fw_new_text = new_text\<rparr>, s'))"

definition replace_text :: "codec \<Rightarrow> path_env \<Rightarrow> shell \<Rightarrow> utext \<Rightarrow> utext \<Rightarrow> utext option \<Rightarrow> fs \<Rightarrow> file_write py_res \<times> fs" where
  "replace_text c env sh target old_text new s =
     (case new of
        None \<Rightarrow> (Inl ValueError, s)
      | Some new \<Rightarrow>
          let resolved = resolve_path env sh target in
          case read_whole_file_checked c s resolved (sh_max_file_bytes sh) of
            Inl e \<Rightarrow> (Inl e, s)
          | Inr content \<Rightarrow>
              let count = str_count old_text content in
              if count = 0 then (Inl ValueError, s)
              else if 1 < count then (Inl ValueError, s)
              else case write_text c resolved (replace_first old_text new content) s of
                (Inl e, s') \<Rightarrow> (Inl e, s')
              | (Inr _, s') \<Rightarrow>
                  (Inr \<lparr>fw_path = target, fw_message = u ''Edited '' @ target,
                        fw_diff = u ''--- a/'' @ target @ [10] @ u ''+++ b/'' @ target,
                        fw_new_text = new\<rparr>, s'))"

text \<open>\<open>replace\<close> dispatches on the kind of its target.\<close>

datatype replace_target = TMatch match | TPath utext | TOther

definition shell_replace :: "codec \<Rightarrow> path_env \<Rightarrow> shell \<Rightarrow> replace_target \<Rightarrow> utext \<Rightarrow> utext option \<Rightarrow> fs \<Rightarrow>
    file_write py_res \<times> fs" where
  "shell_replace c env sh target old_or_new new s =
     (case target of
        TMatch m \<Rightarrow> replace_match c sh m old_or_new new s
      | TPath path \<Rightarrow> replace_text c env sh path old_or_new new s
      | TOther \<Rightarrow> (Inl TypeError, s))"

definition write_file :: "codec \<Rightarrow> path_env \<Rightarrow> shell \<Rightarrow> utext \<Rightarrow> utext \<Rightarrow> fs \<Rightarrow> file_write py_res \<times> fs" where
  "write_file c env sh path content s =
     (let resolved = resolve_path env sh path in
      case fs_mkdir_error s resolved of
        Some e \<Rightarrow> (Inl e, s)
      | None \<Rightarrow>
          (case write_text c resolved content s of
             (Inl e, s') \<Rightarrow> (Inl e, s')
           | (Inr _, s') \<Rightarrow>
               let line_count = count_list content 10 + (if content \<noteq> [] \<and> \<not> ends_nl content then 1 else 0) in
               (Inr \<lparr>fw_path = path,
                     fw_message = u ''Created '' @ path @ u '' ('' @ u_int (int line_count) @ u '' lines)'',
                     fw_diff = [], fw_new_text = content\<rparr>, s')))"

text \<open>What an edit is about: the file it goes to, when it may be carried out on a text, and what it makes of it.\<close>

definition edit_path :: "path_env \<Rightarrow> shell \<Rightarrow> replace_target \<Rightarrow> rpath" where
  "edit_path env sh target =
     (case target of TMatch m \<Rightarrow> m_resolved_path m | TPath path \<Rightarrow> resolve_path env sh path | TOther \<Rightarrow> [])"

definition edit_allowed :: "replace_target \<Rightarrow> utext \<Rightarrow> utext option \<Rightarrow> utext \<Rightarrow> bool" where
  "edit_allowed target a new t =
     (case target of
        TMatch m \<Rightarrow> new = None \<and> anchor_holds m t
      | TPath _ \<Rightarrow> new \<noteq> None \<and> str_count a t = 1
      | TOther \<Rightarrow> False)"

definition edit_result :: "replace_target \<Rightarrow> utext \<Rightarrow> utext option \<Rightarrow> utext \<Rightarrow> utext" where
  "edit_result target a new t =
     (case target of
        TMatch m \<Rightarrow> fst (edited m t a)
      | _ \<Rightarrow> (case new of Some n \<Rightarrow> replace_first a n t | None \<Rightarrow> t))"

section \<open>Lines of edited text\<close>

lemma splitlines_drop: "splitlines (concat (drop i (splitlines s))) = drop i (splitlines s)"
proof -
  have tail: "splitlines s = l # ls \<Longrightarrow> splitlines (concat ls) = ls" for s l ls
  proof (induction s arbitrary: l ls)
    case (Cons c cs)
    then show ?case
      by (cases "splitlines cs") (auto split: if_splits)
  qed simp
  show ?thesis
  proof (induction i)
    case (Suc i)
    show ?case
    proof (cases "drop i (splitlines s)")
      case Nil
      then have "drop (Suc i) (splitlines s) = []" by simp
      then show ?thesis by (simp only: concat.simps splitlines.simps)
    next
      case (Cons l ls)
      then have "drop (Suc i) (splitlines s) = ls" by (metis drop_Suc list.sel(3) tl_drop)
      then show ?thesis using tail Suc Cons by metis
    qed
  qed simp
qed

lemma hd_concat_take: "t \<noteq> [] \<Longrightarrow> 0 < j \<Longrightarrow> hd (concat (take j (splitlines t))) = hd t \<and> concat (take j (splitlines t)) \<noteq> []"
proof -
  assume "t \<noteq> []" and "0 < j"
  then obtain l ls j' where l: "splitlines t = l # ls" and j: "j = Suc j'"
    by (cases "splitlines t"; cases j) auto
  have "l \<noteq> []" using splitlines_nonempty [of l t] l by simp
  moreover have "t = l @ concat ls" using l concat_splitlines [of t] by simp
  ultimately show ?thesis using l j by simp
qed

lemma splitlines_take: "splitlines (concat (take j (splitlines s))) = take j (splitlines s)"
proof (induction s arbitrary: j)
  case (Cons c cs)
  show ?case
  proof (cases j)
    case (Suc j')
    show ?thesis
    proof (cases "line_break c \<and> \<not> (c = 13 \<and> cs \<noteq> [] \<and> hd cs = 10)")
      case br: True
      have "splitlines (c # x) = [c] # splitlines x" if "x = concat (take j' (splitlines cs))" for x
        using br that hd_concat_take [of cs j'] by (cases "cs = [] \<or> j' = 0") auto
      then show ?thesis using br Suc Cons.IH [of j'] by simp
    next
      case nb: False
      show ?thesis
      proof (cases "splitlines cs")
        case Nil
        then show ?thesis using nb Suc by auto
      next
        case (Cons k ks)
        then have "cs \<noteq> []" by auto
        then have h: "hd (concat (take (Suc j') (splitlines cs))) = hd cs" "concat (take (Suc j') (splitlines cs)) \<noteq> []"
          using hd_concat_take by blast+
        have "\<not> (line_break c \<and> \<not> (c = 13 \<and> concat (take (Suc j') (splitlines cs)) \<noteq> []
            \<and> hd (concat (take (Suc j') (splitlines cs))) = 10))"
          unfolding h(1) using nb h(2) by blast
        then have "splitlines (c # concat (take (Suc j') (splitlines cs))) =
            (case splitlines (concat (take (Suc j') (splitlines cs))) of [] \<Rightarrow> [[c]] | l # ls \<Rightarrow> (c # l) # ls)"
          by (simp only: splitlines.simps if_False)
        moreover have "splitlines (c # cs) = (c # k) # ks" using nb Cons by auto
        ultimately show ?thesis using Cons.IH [of "Suc j'"] Cons Suc by simp
      qed
    qed
  qed simp
qed simp

text \<open>A text that ends in a line boundary can be followed by any text.\<close>

definition complete :: "utext \<Rightarrow> bool" where
  "complete s = (s = [] \<or> line_break (last s) \<and> last s \<noteq> 13)"

lemma splitlines_complete: "complete s \<Longrightarrow> splitlines (s @ t) = splitlines s @ splitlines t"
  unfolding complete_def
proof (induction s)
  case (Cons c cs)
  show ?case
  proof (cases "cs = []")
    case True
    then show ?thesis using Cons.prems by auto
  next
    case False
    then have "splitlines (cs @ t) = splitlines cs @ splitlines t" using Cons by simp
    moreover have "splitlines cs \<noteq> []" using False by simp
    ultimately show ?thesis using False by (cases "splitlines cs") simp_all
  qed
qed simp

lemma butlast_terminated: "l \<in> set (butlast (splitlines s)) \<Longrightarrow> line_break (last l)"
proof (induction s arbitrary: l)
  case (Cons c cs)
  show ?case
  proof (cases "splitlines cs")
    case Nil
    then show ?thesis using Cons.prems by (auto split: if_splits)
  next
    case (Cons k ks)
    have kne: "k \<noteq> []" using splitlines_nonempty [of k cs] Cons by simp
    show ?thesis
    proof (cases "line_break c \<and> \<not> (c = 13 \<and> cs \<noteq> [] \<and> hd cs = 10)")
      case True
      then show ?thesis using Cons.IH Cons.prems Cons by (auto split: if_splits)
    next
      case False
      then have "butlast (splitlines (c # cs)) = (if ks = [] then [] else (c # k) # butlast ks)"
        using Cons by auto
      then show ?thesis using Cons.IH Cons.prems Cons kne by (auto split: if_splits)
    qed
  qed
qed simp

lemma complete_before:
  assumes "k < length (splitlines s)" and "13 \<notin> set s"
  shows "complete (concat (take k (splitlines s)))"
proof (cases "k = 0")
  case False
  define B where "B = take k (splitlines s)"
  have B: "B \<noteq> []" using assms False by (auto simp: B_def)
  have "B = take k (butlast (splitlines s))" using assms(1) by (simp add: B_def take_butlast)
  then have "last B \<in> set (butlast (splitlines s))" using B by (metis last_in_set in_set_takeD)
  then have br: "line_break (last (last B))" and mem: "last B \<in> set (splitlines s)"
    using butlast_terminated by (auto dest: in_set_butlastD)
  have ne: "last B \<noteq> []" using splitlines_nonempty mem by blast
  have "concat B = concat (butlast B) @ last B" using B by (metis append_butlast_last_id concat_append concat.simps append_Nil2)
  then have "last (concat B) = last (last B)" using ne by simp
  moreover have "set (last B) \<subseteq> set (concat (splitlines s))" unfolding set_concat using mem by blast
  then have "set (last B) \<subseteq> set s" by simp
  ultimately show ?thesis using br ne assms(2) unfolding complete_def B_def [symmetric]
    by (metis last_in_set subsetD)
qed (simp add: complete_def)

lemma complete_terminated:
  "complete (terminated_text n content after r)" if "after \<noteq> []"
  using that by (auto simp: terminated_text_def complete_def ends_nl_def line_break_def)

lemma py_slice_nat [simp]: "0 \<le> i \<Longrightarrow> 0 \<le> j \<Longrightarrow> py_slice xs i j = drop (nat i) (take (nat j) xs)"
  by (cases "nat i \<le> length xs") (auto simp: py_slice_def py_idx_def min_def)

lemma anchor_range:
  assumes "anchor_holds m content"
  shows "1 \<le> m_start m" "m_start m - 1 \<le> m_end m" "m_end m \<le> int (length (splitlines content))"
    "concat (drop (nat (m_start m - 1)) (take (nat (m_end m)) (splitlines content))) = m_text m"
  using assms by (auto simp: anchor_holds_def empty_file_anchor_def)

text \<open>The lines after an edit: those before the region, those of the new text, those after the region.\<close>

lemma edited_lines:
  assumes "anchor_holds m content" and "13 \<notin> set content" and "edited m content new_text = (new_content, written)"
  shows "splitlines new_content =
      take (nat (m_start m - 1)) (splitlines content) @ splitlines written @ drop (nat (m_end m)) (splitlines content)"
    "written = new_text \<or> written = new_text @ [10]"
proof -
  define L where "L = splitlines content"
  define B where "B = take (nat (m_start m - 1)) L"
  define A where "A = drop (nat (m_end m)) L"
  note rng = anchor_range [OF assms(1)]
  have s: "slice_to L (m_start m - 1) = B" "slice_from L (m_end m) = A"
    using rng by (simp_all add: B_def A_def slice_to_def slice_from_def py_idx_def min_def L_def)
  have w: "written = terminated_text new_text content A (int (length L) \<le> m_end m)"
      and nc: "new_content = concat B @ written @ concat A"
    using assms(3) by (auto simp: edited_def Let_def s L_def [symmetric])
  have cB: "complete (concat B)"
  proof (cases "L = []")
    case False
    then have "nat (m_start m - 1) < length L \<or> empty_file_anchor m content"
      using rng assms(1) by (auto simp: anchor_holds_def L_def)
    then show ?thesis
      using complete_before [of "nat (m_start m - 1)" content] assms(2) False
      by (auto simp: B_def L_def empty_file_anchor_def)
  qed (simp add: B_def complete_def)
  have "splitlines new_content = splitlines (concat B) @ splitlines (written @ concat A)"
    unfolding nc by (rule splitlines_complete [OF cB])
  also have "splitlines (written @ concat A) = splitlines written @ A"
  proof (cases "A = []")
    case False
    have "splitlines (concat A) = A" unfolding A_def L_def by (rule splitlines_drop)
    then show ?thesis using splitlines_complete [OF complete_terminated [OF False]] w by simp
  qed simp
  also have "splitlines (concat B) = B" unfolding B_def L_def by (rule splitlines_take)
  finally show "splitlines new_content =
      take (nat (m_start m - 1)) (splitlines content) @ splitlines written @ drop (nat (m_end m)) (splitlines content)"
    by (simp add: B_def A_def L_def)
  show "written = new_text \<or> written = new_text @ [10]" using w by (simp add: terminated_text_def)
qed

section \<open>Successful and failed edits\<close>

text \<open>What encoding promises: the bytes of a text are decoded to it.\<close>

definition lossless :: "codec \<Rightarrow> bool" where
  "lossless c = (\<forall>t b. c_encode c t = Some b \<longrightarrow> c_decode c b = Some t)"

lemma put_file_node [simp]:
  "fs_node (put_file p b s) q =
    (if q = p then Some (File \<lparr>f_data = b, f_stat_size = length b, f_writable = True\<rparr>) else fs_node s q)"
  by (simp add: put_file_def)

lemma text_of_put_file:
  "text_of c (put_file p b s) q =
    (if q = p then map_option universal_newlines (c_decode c b) else text_of c s q)"
  by (simp add: text_of_def)

lemma write_text_Inr:
  assumes "write_text c p t s = (Inr x, s')"
  obtains b where "c_encode c t = Some b" "s' = put_file p b s"
  using assms by (auto simp: write_text_def split: option.splits)

text \<open>A write that failed after the file was opened: nothing or a beginning of the text is in the file.\<close>

definition broken_write :: "codec \<Rightarrow> py_error \<Rightarrow> utext \<Rightarrow> byte_string \<Rightarrow> bool" where
  "broken_write c e t b =
     (case c_encode c t of
        None \<Rightarrow> e = UnicodeEncodeError \<and> b = []
      | Some full \<Rightarrow> e = OSError \<and> take (length b) full = b)"

lemma write_text_Inl:
  assumes "write_text c p t s = (Inl e, s')"
  shows "s' = s \<or> open_for_write s p = None \<and> (\<exists>b. s' = put_file p b s \<and> broken_write c e t b)"
proof (cases "open_for_write s p")
  case None
  show ?thesis
  proof (cases "c_encode c t")
    case enc: (Some b)
    then obtain k where "e = OSError" "s' = put_file p (take k b) s"
      using assms None by (auto simp: write_text_def split: option.splits)
    moreover have "broken_write c OSError t (take k b)" using enc by (simp add: broken_write_def min_def)
    ultimately show ?thesis using None by blast
  next
    case enc: None
    then have "e = UnicodeEncodeError \<and> s' = put_file p [] s" using assms None by (simp add: write_text_def)
    moreover have "broken_write c UnicodeEncodeError t []" using enc by (simp add: broken_write_def)
    ultimately show ?thesis using None by blast
  qed
qed (use assms in \<open>simp add: write_text_def\<close>)

lemma replace_match_Inr:
  assumes "replace_match c sh m n new s = (Inr w, s')"
  obtains content new_content b where "read_whole_file_checked c s (m_resolved_path m) (sh_max_file_bytes sh) = Inr content"
    "new = None" "anchor_holds m content" "edited m content n = (new_content, fw_new_text w)"
    "c_encode c new_content = Some b" "s' = put_file (m_resolved_path m) b s"
  using assms unfolding replace_match_def
  by (auto split: if_splits sum.splits prod.splits elim!: write_text_Inr)

lemma no_cr_edited:
  assumes "edited m content n = (new_content, written)" and "13 \<notin> set content" and "13 \<notin> set n"
  shows "13 \<notin> set new_content"
proof -
  have c: "set (concat (slice_to (splitlines content) i)) \<subseteq> set content"
      "set (concat (slice_from (splitlines content) i)) \<subseteq> set content" for i
  proof -
    have "set (concat (slice_to (splitlines content) i)) \<subseteq> set (concat (splitlines content))"
        "set (concat (slice_from (splitlines content) i)) \<subseteq> set (concat (splitlines content))"
      unfolding set_concat slice_to_def slice_from_def by (auto dest: in_set_takeD in_set_dropD)
    then show "set (concat (slice_to (splitlines content) i)) \<subseteq> set content"
        "set (concat (slice_from (splitlines content) i)) \<subseteq> set content" by simp_all
  qed
  have "13 \<notin> set (terminated_text n content a r)" for a r
    using assms(3) by (simp add: terminated_text_def)
  moreover have "13 \<notin> set (concat (slice_to (splitlines content) i))"
      "13 \<notin> set (concat (slice_from (splitlines content) i))" for i
    using c assms(2) by blast+
  ultimately show ?thesis using assms(1) by (auto simp: edited_def Let_def simp del: set_concat)
qed

text \<open>An edit that fails has touched nothing, or it was allowed and its write failed.\<close>

lemma failed_replace_match:
  assumes "replace_match c sh m a new s = (Inl e, s')"
  shows "s' = s \<or> (\<exists>t. read_whole_file_checked c s (m_resolved_path m) (sh_max_file_bytes sh) = Inr t \<and>
    new = None \<and> anchor_holds m t \<and> write_text c (m_resolved_path m) (fst (edited m t a)) s = (Inl e, s'))"
  using assms unfolding replace_match_def by (auto split: if_splits sum.splits prod.splits)

lemma failed_replace_text:
  assumes "replace_text c env sh path a new s = (Inl e, s')"
  shows "s' = s \<or> (\<exists>t n. read_whole_file_checked c s (resolve_path env sh path) (sh_max_file_bytes sh) = Inr t \<and>
    new = Some n \<and> str_count a t = 1 \<and> write_text c (resolve_path env sh path) (replace_first a n t) s = (Inl e, s'))"
  using assms unfolding replace_text_def
  by (auto simp: Let_def split: if_splits sum.splits prod.splits option.splits)

lemma failed_edit_cases:
  assumes "shell_replace c env sh target a new s = (Inl e, s')"
  shows "s' = s \<or> (\<exists>t. read_whole_file_checked c s (edit_path env sh target) (sh_max_file_bytes sh) = Inr t \<and>
    edit_allowed target a new t \<and>
    write_text c (edit_path env sh target) (edit_result target a new t) s = (Inl e, s'))"
proof (cases target)
  case (TMatch m)
  then show ?thesis using failed_replace_match [of c sh m a new s e s'] assms
    by (auto simp: shell_replace_def edit_path_def edit_allowed_def edit_result_def)
next
  case (TPath path)
  then show ?thesis using failed_replace_text [of c env sh path a new s e s'] assms
    by (auto simp: shell_replace_def edit_path_def edit_allowed_def edit_result_def)
qed (use assms in \<open>simp add: shell_replace_def\<close>)

section \<open>Slices of a match\<close>

lemma match_getitem_Slice:
  assumes "match_getitem env m (Slice a b) = Inr m'"
  obtains start stop where
    "m' = \<lparr>m_path = m_path m, m_resolved_path = pe_canonical env (m_resolved_path m), m_start = start, m_end = stop,
      m_text = concat (py_slice (splitlines (m_text m)) (start - m_start m) (stop - m_start m + 1))\<rparr>"
    "m_start m \<le> start" "stop \<le> m_end m"
proof -
  define start0 where "start0 = (case a of Some i \<Rightarrow> i | None \<Rightarrow> m_start m)"
  define stop0 where "stop0 = (case b of Some i \<Rightarrow> i | None \<Rightarrow> m_end m)"
  define start where "start = (if start0 < m_start m then m_start m else start0)"
  define stop where "stop = (if m_end m < stop0 then m_end m else stop0)"
  have "new_match env (m_path m) start stop
      (concat (py_slice (splitlines (m_text m)) (start - m_start m) (stop - m_start m + 1))) (m_resolved_path m) = Inr m'"
    using assms
    unfolding match_getitem_def match_key.case Let_def start0_def [symmetric] stop0_def [symmetric]
    unfolding start_def [symmetric] stop_def [symmetric] .
  then show thesis
    by (intro that [of start stop]) (auto simp: new_match_def start_def stop_def split: if_splits)
qed

lemma drop_take_drop_take:
  "j + l \<le> k \<Longrightarrow> drop i (take l (drop j (take k xs))) = drop (i + j) (take (j + l) xs)"
  by (simp add: take_drop drop_drop min_def add.commute)

lemma slice_anchor:
  assumes "anchor_holds m content" and "match_getitem env m (Slice a b) = Inr m'" and "m_start m' \<le> m_end m'"
  shows "anchor_holds m' content"
proof -
  define L where "L = splitlines content"
  obtain start stop where m': "m' = \<lparr>m_path = m_path m, m_resolved_path = pe_canonical env (m_resolved_path m),
        m_start = start, m_end = stop,
        m_text = concat (py_slice (splitlines (m_text m)) (start - m_start m) (stop - m_start m + 1))\<rparr>"
      and rng: "m_start m \<le> start" "stop \<le> m_end m"
    using match_getitem_Slice [OF assms(2)] .
  note h = anchor_range [OF assms(1), folded L_def]
  have le: "start \<le> stop" using assms(3) m' by simp
  have "m_text m = concat (drop (nat (m_start m - 1)) (take (nat (m_end m)) L))" using h(4) by simp
  moreover have "splitlines (concat (take (nat (m_end m)) L)) = take (nat (m_end m)) L"
    unfolding L_def by (rule splitlines_take)
  ultimately have lines: "splitlines (m_text m) = drop (nat (m_start m - 1)) (take (nat (m_end m)) L)"
    by (metis splitlines_drop)
  have n: "nat (start - m_start m) + nat (m_start m - 1) = nat (start - 1)"
      "nat (m_start m - 1) + nat (stop - m_start m + 1) = nat stop"
    using rng h(1) le by linarith+
  have "py_slice (splitlines (m_text m)) (start - m_start m) (stop - m_start m + 1)
      = drop (nat (start - m_start m)) (take (nat (stop - m_start m + 1))
          (drop (nat (m_start m - 1)) (take (nat (m_end m)) L)))"
    using rng le lines by simp
  also have "\<dots> = drop (nat (start - 1)) (take (nat stop) L)"
    using rng le n by (subst drop_take_drop_take) simp_all
  finally have "m_text m' = concat (drop (nat (start - 1)) (take (nat stop) L))" using m' by simp
  then show ?thesis using rng le h m' by (auto simp: anchor_holds_def L_def)
qed

section \<open>Edits by text\<close>

lemma str_count_0_iff: "str_count old s = 0 \<longleftrightarrow> \<not> sublist old s"
proof (induction old s rule: str_count.induct)
  case (1 sub s)
  show ?case
  proof (cases s)
    case Nil
    then show ?thesis by (simp add: str_count.simps [of sub "[]"])
  next
    case (Cons c cs)
    then show ?thesis using 1 by (auto simp: str_count.simps [of sub "c # cs"] sublist_Cons_right)
  qed
qed

lemma occurrence_after:
  assumes "sub @ rest = pre @ sub @ post" and "length sub \<le> length pre"
  shows "sublist sub rest"
proof -
  from assms have "pre = sub @ drop (length sub) pre"
    by (metis append_eq_append_conv_if append_take_drop_id)
  then have "rest = drop (length sub) pre @ sub @ post" using assms(1) by (metis append.assoc same_append_eq)
  then show ?thesis by (auto simp: sublist_def)
qed

text \<open>One occurrence: the text is replaced there, and any other occurrence overlaps that one.\<close>

lemma replace_first_unique:
  assumes "str_count old s = Suc 0" and "old \<noteq> []"
  shows "\<exists>pre post. s = pre @ old @ post \<and> replace_first old new s = pre @ new @ post \<and>
    (\<forall>pre' post'. s = pre' @ old @ post' \<longrightarrow> length pre \<le> length pre' \<and> length pre' < length pre + length old)"
  using assms
proof (induction s)
  case Nil
  then show ?case by (simp add: str_count.simps [of old "[]"])
next
  case (Cons c cs)
  show ?case
  proof (cases "prefix old (c # cs)")
    case True
    then obtain post where post: "c # cs = old @ post" by (auto simp: prefix_def)
    have "\<not> sublist old post"
      using Cons.prems True post str_count_0_iff [of old post]
      by (simp add: str_count.simps [of old "old @ post"])
    then have "length pre' < length old" if "c # cs = pre' @ old @ post'" for pre' post'
      using occurrence_after [of old post pre' post'] that unfolding post by (meson not_le_imp_less)
    moreover have "replace_first old new (c # cs) = new @ post"
      by (subst replace_first.simps) (simp only: True if_True post append_eq_conv_conj, simp)
    ultimately show ?thesis using post by (intro exI [of _ "[]"] exI [of _ post]) simp
  next
    case False
    then have "str_count old cs = Suc 0" using Cons.prems by (simp add: str_count.simps [of old "c # cs"])
    then obtain pre post where IH: "cs = pre @ old @ post" "replace_first old new cs = pre @ new @ post"
        "\<forall>pre' post'. cs = pre' @ old @ post' \<longrightarrow> length pre \<le> length pre' \<and> length pre' < length pre + length old"
      using Cons.IH Cons.prems(2) by blast
    have "length (c # pre) \<le> length pre' \<and> length pre' < length (c # pre) + length old"
      if "c # cs = pre' @ old @ post'" for pre' post'
    proof (cases pre')
      case Nil
      then show ?thesis using that False by (auto simp: prefix_def)
    next
      case (Cons d pre'')
      then show ?thesis using that IH(3) by auto
    qed
    then show ?thesis using IH(1,2) False by (intro exI [of _ "c # pre"] exI [of _ post]) auto
  qed
qed

section \<open>Reading and putting back\<close>

text \<open>What the operating system promises of canonical paths.\<close>

definition paths_ok :: "path_env \<Rightarrow> bool" where
  "paths_ok env = (\<forall>p. pe_absolute env (pe_canonical env p) \<and> pe_canonical env (pe_canonical env p) = pe_canonical env p)"

lemma read_anchor:
  assumes "text_of c s (resolve_path env sh path) = Some t" and "paths_ok env"
    and "shell_read c env sh s path lines = Inr m" and "m_start m \<le> m_end m"
  shows "anchor_holds m t" "m_resolved_path m = resolve_path env sh path"
proof -
  define p where "p = resolve_path env sh path"
  have p: "pe_absolute env p" "pe_canonical env p = p"
    using assms(2) by (simp_all add: paths_ok_def p_def resolve_path_def)
  have nm: "new_match env path i j x p = Inr \<lparr>m_path = path, m_resolved_path = p, m_start = i, m_end = j, m_text = x\<rparr>"
    for i j x using p by (simp add: new_match_def)
  have "anchor_holds m t \<and> m_resolved_path m = p"
  proof (cases lines)
    case None
    then obtain content where r: "read_whole_file_checked c s p (sh_max_file_bytes sh) = Inr content"
        and m: "m = \<lparr>m_path = path, m_resolved_path = p, m_start = 1,
                      m_end = int (length (splitlines content)), m_text = content\<rparr>"
      using assms(3) nm by (auto simp: shell_read_def Let_def p_def [symmetric] py_bind_Inr_iff)
    have "content = t" using read_whole_text_of [OF r] assms(1) by (simp add: p_def)
    then show ?thesis using m assms(4) by (auto simp: anchor_holds_def)
  next
    case (Some rng)
    obtain i j where rng: "lines = Some (i, j)" using Some by (cases rng) auto
    then obtain x e where r: "read_line_range c s p (max 1 i) j (sh_max_file_bytes sh) = Inr (x, e)"
        and m: "m = \<lparr>m_path = path, m_resolved_path = p, m_start = max 1 i, m_end = e, m_text = x\<rparr>"
      using assms(3) nm by (auto simp: shell_read_def Let_def p_def [symmetric] py_bind_Inr_iff)
    have "1 \<le> j"
    proof (rule ccontr)
      assume "\<not> 1 \<le> j"
      then have "e = j" using r by (simp add: read_line_range_def)
      then show False using \<open>\<not> 1 \<le> j\<close> m assms(4) by simp
    qed
    then have x: "x = concat (drop (nat (max 1 i - 1)) (take (nat j) (splitlines t)))"
        and e: "e = min j (int (length (splitlines t)))"
      using read_line_range_cases [of c s p t "max 1 i" j "sh_max_file_bytes sh"] r assms(1) by (auto simp: p_def)
    have "take (nat j) (splitlines t) = take (nat e) (splitlines t)"
      using e \<open>1 \<le> j\<close> by (cases "j \<le> int (length (splitlines t))") auto
    then show ?thesis using x e m assms(4) by (auto simp: anchor_holds_def)
  qed
  then show "anchor_holds m t" "m_resolved_path m = resolve_path env sh path" by (simp_all add: p_def)
qed

text \<open>Putting the region's own text back writes the file as it was read.\<close>

lemma edited_same:
  assumes h: "anchor_holds m t" and r: "m_start m \<le> m_end m" and nl: "\<forall>x \<in> set t. line_break x \<longrightarrow> x = 10"
  shows "edited m t (m_text m) = (t, m_text m)"
proof -
  define L where "L = splitlines t"
  define i j where "i = nat (m_start m - 1)" and "j = nat (m_end m)"
  note a = anchor_range [OF h, folded L_def]
  have ij: "i < j" "j \<le> length L" using a r by (auto simp: i_def j_def)
  have s: "slice_to L (m_start m - 1) = take i L" "slice_from L (m_end m) = drop j L"
    using a by (simp_all add: slice_to_def slice_from_def py_idx_def min_def i_def j_def)
  define R where "R = drop i (take j L)"
  have txt_R: "m_text m = concat R" using a(4) by (simp add: i_def j_def R_def)
  have R: "R \<noteq> []" "last R = L ! (j - 1)" "last R \<in> set L"
    using ij by (auto simp: R_def last_conv_nth)
  have ne: "last R \<noteq> []" using splitlines_nonempty R(3) by (simp add: L_def)
  have "concat R = concat (butlast R) @ last R"
    using R(1) by (metis append_butlast_last_id concat_append concat.simps append_Nil2)
  then have last: "last (m_text m) = last (last R)" "m_text m \<noteq> []" using ne txt_R by auto
  have whole: "concat (take i L) @ m_text m @ concat (drop j L) = t"
  proof -
    have "L = take i L @ R @ drop j L"
      using ij unfolding R_def by (metis append.assoc append_take_drop_id drop_take le_add_diff_inverse less_imp_le take_add)
    then show ?thesis using concat_splitlines [of t] txt_R by (metis L_def concat_append)
  qed
  have "terminated_text (m_text m) t (drop j L) (int (length L) \<le> m_end m) = m_text m"
  proof (cases "drop j L = []")
    case True
    then have "last t = last (m_text m)" using whole last(2) by (metis append_Nil2 concat.simps(1) last_appendR)
    then show ?thesis using True last(2) by (auto simp: terminated_text_def ends_nl_def)
  next
    case False
    then have "last R = butlast L ! (j - 1)" "j - 1 < length (butlast L)" using R(2) ij by (simp_all add: nth_butlast)
    then have "line_break (last (last R))" using butlast_terminated [of "last R" t] by (simp add: L_def)
    moreover have "last (m_text m) \<in> set t" using whole last(2) by (metis Un_iff last_in_set set_append)
    ultimately show ?thesis using nl last by (simp add: terminated_text_def ends_nl_def)
  qed
  then show ?thesis using whole by (simp add: edited_def Let_def L_def [symmetric] s)
qed

section \<open>An example\<close>

definition ex_latin1 :: codec where
  "ex_latin1 = \<lparr>
     c_encode = (\<lambda>t. if list_all (\<lambda>c. c < 256) t then Some (map of_nat t) else None),
     c_decode = (\<lambda>b. Some (map unat b)),
     c_decoded_before = (\<lambda>b. [])\<rparr>"

lemma ex_latin1_lossless: "lossless ex_latin1"
proof -
  have "map (unat \<circ> (of_nat :: nat \<Rightarrow> 8 word)) t = t" if "list_all (\<lambda>c. c < 256) t" for t
    using that by (induction t) (simp_all add: unat_of_nat)
  then show ?thesis by (auto simp: lossless_def ex_latin1_def split: if_splits)
qed

definition ex_paths :: path_env where
  "ex_paths = \<lparr>pe_absolute = (\<lambda>_. True), pe_canonical = (\<lambda>p. p), pe_join = (\<lambda>cwd p. p)\<rparr>"

lemma ex_paths_ok: "paths_ok ex_paths"
  by (simp add: paths_ok_def ex_paths_def)

definition ex_shell :: shell where
  "ex_shell = \<lparr>sh_cwd = u ''/'', sh_max_file_bytes = 100\<rparr>"

text \<open>A file with the lines \<^verbatim>\<open>a\<close>, \<^verbatim>\<open>b\<close> and \<^verbatim>\<open>c\<close>.\<close>

definition ex_fs :: fs where
  "ex_fs = \<lparr>fs_node = [u ''f'' \<mapsto> File \<lparr>f_data = [97, 10, 98, 10, 99, 10], f_stat_size = 6, f_writable = True\<rparr>],
            fs_create_error = (\<lambda>_. None),
            fs_mkdir_error = (\<lambda>_. None), fs_write_cut = (\<lambda>_ _. None)\<rparr>"

definition ex_match :: match where
  "ex_match = \<lparr>m_path = u ''f'', m_resolved_path = u ''f'', m_start = 2, m_end = 2, m_text = [98, 10]\<rparr>"

lemma ex_text: "text_of ex_latin1 ex_fs (u ''f'') = Some [97, 10, 98, 10, 99, 10]"
  by (simp add: text_of_def ex_latin1_def ex_fs_def)

lemma ex_whole: "read_whole_file_checked ex_latin1 ex_fs (u ''f'') (sh_max_file_bytes ex_shell) = Inr [97, 10, 98, 10, 99, 10]"
  by (simp add: read_whole_file_checked_def ex_latin1_def ex_fs_def ex_shell_def)

lemma ex_read: "shell_read ex_latin1 ex_paths ex_shell ex_fs (u ''f'') (Some (2, 2)) = Inr ex_match"
proof -
  have "text_of ex_latin1 ex_fs (resolve_path ex_paths ex_shell (u ''f'')) = Some [97, 10, 98, 10, 99, 10]"
    using ex_text by (simp add: resolve_path_def ex_paths_def)
  from read_line_range_cases [OF this, of 2 2 "sh_max_file_bytes ex_shell"]
  have "read_line_range ex_latin1 ex_fs (resolve_path ex_paths ex_shell (u ''f'')) 2 2 (sh_max_file_bytes ex_shell)
      = Inr ([98, 10], 2)"
    by (simp add: line_break_def ex_shell_def)
  then show ?thesis
    by (simp add: shell_read_def new_match_def ex_paths_def ex_match_def resolve_path_def Let_def)
qed

lemma ex_replace: "\<exists>w s'. replace_match ex_latin1 ex_shell ex_match [120] None ex_fs = (Inr w, s')"
proof -
  have "anchor_holds ex_match [97, 10, 98, 10, 99, 10]"
    by (simp add: anchor_holds_def ex_match_def line_break_def)
  moreover have "\<exists>w. edited ex_match [97, 10, 98, 10, 99, 10] [120] = ([97, 10, 120, 10, 99, 10], w)"
    by (simp add: edited_def ex_match_def line_break_def slice_to_def slice_from_def py_idx_def terminated_text_def ends_nl_def)
  moreover have "\<exists>s'. write_text ex_latin1 (u ''f'') [97, 10, 120, 10, 99, 10] ex_fs = (Inr (), s')"
    by (simp add: write_text_def open_for_write_def ex_fs_def ex_latin1_def)
  ultimately show ?thesis
    using ex_whole by (auto simp: replace_match_def ex_match_def)
qed

section \<open>Properties\<close>

text \<open>C15: Walking a file in chunks, whatever their size, yields the lines of the whole text, unless a line is
  longer than the limit; then what was yielded before the error are its first lines.\<close>

theorem chunked_walk_exact:
  assumes "text_of c s p = Some t" and "0 < n"
  shows "case iter_lines_keepends c s p m n of (ls, err) \<Rightarrow>
    prefix ls (splitlines t) \<and> (err = None \<and> ls = splitlines t \<or>
      err = Some FileTooLargeError \<and> (\<exists>l \<in> set (splitlines t). m < length l))"
  by (rule iter_lines_cases [OF assms, of m]) auto

theorem chunked_walk_exact_witness:
  "case iter_lines_keepends ex_latin1 ex_fs (u ''f'') 10 2 of (ls, err) \<Rightarrow>
    err = None \<and> ls = [[97, 10], [98, 10], [99, 10]]"
  using chunked_walk_exact [OF ex_text, of 2 10] by (auto simp: line_break_def split: prod.splits)

text \<open>Reading the lines from \<open>start\<close> to \<open>stop\<close> gives that slice of the file's lines and \<open>stop\<close> clamped to
  their number, or fails because some line is longer than the limit.\<close>

theorem ranged_read_is_slice:
  assumes "text_of c s p = Some t" and "1 \<le> start" and "1 \<le> stop"
  shows "read_line_range c s p start stop m =
      Inr (concat (drop (nat (start - 1)) (take (nat stop) (splitlines t))), min stop (int (length (splitlines t))))
    \<or> read_line_range c s p start stop m = Inl FileTooLargeError \<and> (\<exists>l \<in> set (splitlines t). m < length l)"
  by (rule read_line_range_cases [OF assms])

theorem ranged_read_is_slice_witness:
  "read_line_range ex_latin1 ex_fs (u ''f'') 2 9 100 = Inr ([98, 10, 99, 10], 3)"
  using ranged_read_is_slice [OF ex_text, of 2 9 100] by (simp add: line_break_def)

text \<open>A whole-file read succeeds exactly when neither the reported size nor the bytes that are really there
  exceed the limit and they can be decoded; so a wrong size never lets more than the limit through.\<close>

theorem whole_read_within_limit:
  "read_whole_file_checked c s p m = Inr t \<longleftrightarrow>
    (case fs_node s p of
       Some (File f) \<Rightarrow> f_stat_size f \<le> m \<and> length (f_data f) \<le> m \<and>
         map_option universal_newlines (c_decode c (f_data f)) = Some t
     | _ \<Rightarrow> False)"
proof (cases "fs_node s p")
  case (Some n)
  show ?thesis
  proof (cases n)
    case (File f)
    show ?thesis
      by (cases "length (f_data f) \<le> m")
        (auto simp: read_whole_file_checked_def Some File Let_def split: option.split)
  qed (simp add: read_whole_file_checked_def Some)
qed (simp add: read_whole_file_checked_def)

text \<open>C11: After a successful edit through a match, the lines of the file are the lines before the region, the
  lines of the text that was written and the lines after the region. The region held the captured text, the written
  text is the requested one or that with a newline, and no other file changed.\<close>

theorem edit_replaces_its_region:
  assumes "lossless c" and "13 \<notin> set n" and "shell_replace c env sh (TMatch m) n new s = (Inr w, s')"
  shows "\<exists>t t'. text_of c s (m_resolved_path m) = Some t \<and> text_of c s' (m_resolved_path m) = Some t' \<and>
    concat (drop (nat (m_start m - 1)) (take (nat (m_end m)) (splitlines t))) = m_text m \<and>
    splitlines t' = take (nat (m_start m - 1)) (splitlines t) @ splitlines (fw_new_text w) @
      drop (nat (m_end m)) (splitlines t) \<and>
    fw_new_text w \<in> {n, n @ [10]} \<and> (\<forall>q. q = m_resolved_path m \<or> fs_node s' q = fs_node s q)"
proof -
  have "replace_match c sh m n new s = (Inr w, s')" using assms(3) by (simp add: shell_replace_def)
  then obtain t t' b where r: "read_whole_file_checked c s (m_resolved_path m) (sh_max_file_bytes sh) = Inr t"
      "anchor_holds m t" "edited m t n = (t', fw_new_text w)" "c_encode c t' = Some b"
      "s' = put_file (m_resolved_path m) b s"
    by (rule replace_match_Inr)
  have cr: "13 \<notin> set t" "13 \<notin> set t'"
    using read_whole_no_cr [OF r(1)] no_cr_edited [OF r(3)] assms(2) by blast+
  have "text_of c s' (m_resolved_path m) = Some t'"
    using assms(1) r(4,5) cr(2) by (simp add: text_of_put_file lossless_def universal_newlines_id)
  moreover have "fs_node s' q = fs_node s q" if "q \<noteq> m_resolved_path m" for q using r(5) that by simp
  ultimately show ?thesis
    using read_whole_text_of [OF r(1)] edited_lines [OF r(2) cr(1) r(3)] anchor_range(4) [OF r(2)] by blast
qed

theorem edit_replaces_its_region_witness:
  "\<exists>w s' t'. replace_match ex_latin1 ex_shell ex_match [120] None ex_fs = (Inr w, s') \<and>
    text_of ex_latin1 s' (u ''f'') = Some t' \<and>
    splitlines t' = [[97, 10]] @ splitlines (fw_new_text w) @ [[99, 10]]"
proof -
  obtain w s' where r: "replace_match ex_latin1 ex_shell ex_match [120] None ex_fs = (Inr w, s')"
    using ex_replace by blast
  then have "shell_replace ex_latin1 ex_paths ex_shell (TMatch ex_match) [120] None ex_fs = (Inr w, s')"
    by (simp add: shell_replace_def)
  from edit_replaces_its_region [OF ex_latin1_lossless _ this] r ex_text
  show ?thesis by (auto simp: ex_match_def line_break_def)
qed

text \<open>C28: An edit that raises an error before its write begins, because the file cannot be read or is too
  large, because the anchor is stale, the old text is absent or repeated, or the arguments are wrong, leaves every
  file as it was. Only an allowed edit whose write itself fails changes something, and then only its own file, which
  is left empty if the new text cannot be encoded and with a beginning of the new text if the operating system
  fails.\<close>

theorem failed_edit_is_confined:
  assumes "shell_replace c env sh target a new s = (Inl e, s')"
  shows "s' = s \<or>
    (\<exists>t b. read_whole_file_checked c s (edit_path env sh target) (sh_max_file_bytes sh) = Inr t \<and>
      edit_allowed target a new t \<and> open_for_write s (edit_path env sh target) = None \<and>
      s' = put_file (edit_path env sh target) b s \<and> broken_write c e (edit_result target a new t) b)"
  using failed_edit_cases [OF assms] write_text_Inl by blast

theorem failed_edit_is_confined_witness:
  "\<exists>e. shell_replace ex_latin1 ex_paths ex_shell (TMatch (ex_match\<lparr>m_text := [99, 10]\<rparr>)) [120] None ex_fs = (Inl e, ex_fs)"
proof -
  let ?m = "ex_match\<lparr>m_text := [99, 10]\<rparr>"
  have n: "\<not> anchor_holds ?m [97, 10, 98, 10, 99, 10]"
    by (simp add: anchor_holds_def empty_file_anchor_def ex_match_def line_break_def)
  then obtain s' where r: "shell_replace ex_latin1 ex_paths ex_shell (TMatch ?m) [120] None ex_fs
      = (Inl StaleMatchError, s')"
    using ex_whole by (simp add: shell_replace_def replace_match_def ex_match_def)
  moreover have "edit_path ex_paths ex_shell (TMatch ?m) = u ''f''" by (simp add: edit_path_def ex_match_def)
  ultimately have "s' = ex_fs"
    using failed_edit_is_confined [OF r] n ex_whole by (auto simp: edit_allowed_def)
  then show ?thesis using r by blast
qed

text \<open>C24: A region that was read and is put back unchanged leaves the text of the file as it was, if the
  file's lines end in line feeds and the write succeeds.\<close>

theorem read_and_put_back:
  assumes "shell_read c env sh s path lines = Inr m" and "paths_ok env" and "m_start m \<le> m_end m"
    and whole: "read_whole_file_checked c s (resolve_path env sh path) (sh_max_file_bytes sh) = Inr t"
    and "\<forall>x \<in> set t. line_break x \<longrightarrow> x = 10"
    and "open_for_write s (resolve_path env sh path) = None" and "c_encode c t = Some b"
    and "fs_write_cut s (resolve_path env sh path) b = None"
  shows "\<exists>w. shell_replace c env sh (TMatch m) (m_text m) None s = (Inr w, put_file (resolve_path env sh path) b s)"
proof -
  note a = read_anchor [OF read_whole_text_of [OF whole] assms(2,1,3)]
  show ?thesis
    using a edited_same [OF a(1) assms(3,5)] whole assms(6-8)
    by (simp add: shell_replace_def replace_match_def write_text_def)
qed

theorem read_and_put_back_witness:
  "\<exists>w. shell_replace ex_latin1 ex_paths ex_shell (TMatch ex_match) [98, 10] None ex_fs =
    (Inr w, put_file (u ''f'') [97, 10, 98, 10, 99, 10] ex_fs)"
proof -
  have p: "resolve_path ex_paths ex_shell (u ''f'') = u ''f''" by (simp add: resolve_path_def ex_paths_def)
  have "m_start ex_match \<le> m_end ex_match" "m_text ex_match = [98, 10]" by (simp_all add: ex_match_def)
  moreover have "\<forall>x \<in> set [97, 10, 98, 10, 99, 10]. line_break x \<longrightarrow> x = 10" by (simp add: line_break_def)
  moreover have "open_for_write ex_fs (u ''f'') = None" by (simp add: open_for_write_def ex_fs_def)
  moreover have "c_encode ex_latin1 [97, 10, 98, 10, 99, 10] = Some [97, 10, 98, 10, 99, 10]"
    by (simp add: ex_latin1_def)
  moreover have "fs_write_cut ex_fs (u ''f'') [97, 10, 98, 10, 99, 10] = None" by (simp add: ex_fs_def)
  ultimately show ?thesis
    using read_and_put_back [OF ex_read ex_paths_ok, of "[97, 10, 98, 10, 99, 10]" "[97, 10, 98, 10, 99, 10]"]
      ex_whole unfolding p by auto
qed

text \<open>C29: A slice of a match that still fits the file has the requested range, cut to that of the match, and fits
  the file exactly when this range is not empty; a slice outside the match or with swapped bounds never
  fits, so it cannot be edited. (The file is not empty.)\<close>

theorem slice_still_fits:
  assumes "anchor_holds m t" and "match_getitem env m (Slice a b) = Inr m'" and "t \<noteq> []"
  shows "m_start m' = (case a of None \<Rightarrow> m_start m | Some i \<Rightarrow> max (m_start m) i) \<and>
    m_end m' = (case b of None \<Rightarrow> m_end m | Some i \<Rightarrow> min (m_end m) i) \<and>
    anchor_holds m' t = (m_start m' \<le> m_end m')"
proof -
  have "m_start m' = (case a of None \<Rightarrow> m_start m | Some i \<Rightarrow> max (m_start m) i)"
    "m_end m' = (case b of None \<Rightarrow> m_end m | Some i \<Rightarrow> min (m_end m) i)"
    using assms(2) by (auto simp: match_getitem_def new_match_def Let_def split: option.splits if_splits)
  moreover have "anchor_holds m' t \<Longrightarrow> m_start m' \<le> m_end m'"
    using assms(3) by (auto simp: anchor_holds_def empty_file_anchor_def)
  ultimately show ?thesis using slice_anchor [OF assms(1,2)] by blast
qed

theorem slice_still_fits_witness:
  "\<exists>m' m''. match_getitem ex_paths (ex_match\<lparr>m_start := 1, m_end := 3, m_text := [97, 10, 98, 10, 99, 10]\<rparr>)
      (Slice (Some 2) (Some 2)) = Inr m' \<and> anchor_holds m' [97, 10, 98, 10, 99, 10] \<and>
    match_getitem ex_paths (ex_match\<lparr>m_start := 1, m_end := 3, m_text := [97, 10, 98, 10, 99, 10]\<rparr>)
      (Slice (Some 5) (Some 8)) = Inr m'' \<and> \<not> anchor_holds m'' [97, 10, 98, 10, 99, 10]"
proof -
  let ?m = "ex_match\<lparr>m_start := 1, m_end := 3, m_text := [97, 10, 98, 10, 99, 10]\<rparr>"
  have h: "anchor_holds ?m [97, 10, 98, 10, 99, 10]"
    by (simp add: anchor_holds_def line_break_def)
  have g: "\<exists>m'. match_getitem ex_paths ?m (Slice a b) = Inr m'" for a b
    by (simp add: match_getitem_def new_match_def ex_paths_def Let_def)
  obtain m' m'' where m': "match_getitem ex_paths ?m (Slice (Some 2) (Some 2)) = Inr m'"
    and m'': "match_getitem ex_paths ?m (Slice (Some 5) (Some 8)) = Inr m''" using g by blast
  from slice_still_fits [OF h m'] slice_still_fits [OF h m''] m' m'' show ?thesis by simp
qed

text \<open>An edit by text succeeds only if the old text occurs once without overlap: it is replaced at its
  first occurrence, and every other occurrence overlaps that one.\<close>

theorem text_edit_is_unique:
  assumes "shell_replace c env sh (TPath path) old (Some n) s = (Inr w, s')" and "old \<noteq> []"
  shows "\<exists>pre post b. text_of c s (resolve_path env sh path) = Some (pre @ old @ post) \<and>
    c_encode c (pre @ n @ post) = Some b \<and> s' = put_file (resolve_path env sh path) b s \<and>
    (\<forall>pre' post'. pre @ old @ post = pre' @ old @ post' \<longrightarrow>
      length pre \<le> length pre' \<and> length pre' < length pre + length old)"
proof -
  obtain t b where r: "read_whole_file_checked c s (resolve_path env sh path) (sh_max_file_bytes sh) = Inr t"
      and one: "str_count old t = Suc 0" and w: "c_encode c (replace_first old n t) = Some b"
      and s': "s' = put_file (resolve_path env sh path) b s"
    using assms(1) unfolding shell_replace_def replace_text_def
    by (auto simp: Let_def split: if_splits sum.splits prod.splits elim!: write_text_Inr)
  from replace_first_unique [OF one assms(2), of n] obtain pre post where
      pre: "t = pre @ old @ post" "replace_first old n t = pre @ n @ post"
        "\<forall>pre' post'. t = pre' @ old @ post' \<longrightarrow> length pre \<le> length pre' \<and> length pre' < length pre + length old"
    by blast
  then show ?thesis using read_whole_text_of [OF r] w s' by metis
qed

theorem text_edit_is_unique_witness:
  "\<exists>w s' pre post b. shell_replace ex_latin1 ex_paths ex_shell (TPath (u ''f'')) [98] (Some [120]) ex_fs = (Inr w, s') \<and>
    [97, 10, 98, 10, 99, 10] = pre @ ([98] :: utext) @ post \<and> s' = put_file (u ''f'') b ex_fs"
proof -
  have p: "resolve_path ex_paths ex_shell (u ''f'') = u ''f''" by (simp add: resolve_path_def ex_paths_def)
  have "str_count [98] [97, 10, 98, 10, 99, 10] = 1" by (simp add: str_count.simps)
  then have "\<exists>w s'. shell_replace ex_latin1 ex_paths ex_shell (TPath (u ''f'')) [98] (Some [120]) ex_fs = (Inr w, s')"
    using ex_whole by (simp add: shell_replace_def replace_text_def p Let_def write_text_def open_for_write_def ex_fs_def ex_latin1_def)
  then obtain w s' where r: "shell_replace ex_latin1 ex_paths ex_shell (TPath (u ''f'')) [98] (Some [120]) ex_fs = (Inr w, s')"
    by blast
  have "[98] \<noteq> ([] :: utext)" by simp
  from text_edit_is_unique [OF r this] obtain pre post b where
      "text_of ex_latin1 ex_fs (u ''f'') = Some (pre @ [98] @ post)" "s' = put_file (u ''f'') b ex_fs"
    unfolding p by blast
  then have "[97, 10, 98, 10, 99, 10] = pre @ [98] @ post \<and> s' = put_file (u ''f'') b ex_fs"
    using ex_text by simp
  then show ?thesis using r by blast
qed

section \<open>Where the edits surprise\<close>

text \<open>A text that cannot be encoded empties the file: it is opened for writing before the text is encoded.\<close>

theorem unencodable_edit_empties_file:
  assumes "c_encode c t = None" and "open_for_write s p = None"
  shows "write_text c p t s = (Inl UnicodeEncodeError, put_file p [] s)"
  using assms by (simp add: write_text_def)

text \<open>Line ends of Windows are lost in the whole file, also outside the edited region.\<close>

theorem edit_normalises_other_lines:
  "edited (ex_match\<lparr>m_start := 1, m_end := 1, m_text := [97, 10]\<rparr>) (universal_newlines [97, 13, 10, 98, 13, 10]) [120]
    = ([120, 10, 98, 10], [120, 10])"
  by (simp add: edited_def line_break_def slice_to_def slice_from_def py_idx_def terminated_text_def ends_nl_def)

text \<open>A line that ends in another boundary than a line feed gets one more when it is put back.\<close>

theorem form_feed_line_grows:
  "edited (ex_match\<lparr>m_start := 1, m_end := 1, m_text := [97, 12]\<rparr>) [97, 12, 98, 10] [97, 12]
    = ([97, 12, 10, 98, 10], [97, 12, 10])"
  by (simp add: edited_def line_break_def slice_to_def slice_from_def py_idx_def terminated_text_def ends_nl_def)

text \<open>Overlapping occurrences count as one.\<close>

theorem overlapping_text_counts_once: "str_count [97, 97] [97, 97, 97] = 1"
  by (simp add: str_count.simps)

text \<open>A line over the limit that ends within the chunk is not refused.\<close>

theorem long_line_within_chunk: "lines_loop 8 3 [] \<lparr>h_rest = [97, 97, 97, 97, 97, 10, 98], h_error = None\<rparr>
    = ([[97, 97, 97, 97, 97, 10], [98]], None)"
  by (simp add: lines_loop.simps read_chars_def line_break_def)

text \<open>A full disk truncates the file it edits: the write fails after the file has been emptied.\<close>

theorem full_disk_truncates:
  assumes "c_encode c t = Some b" and "open_for_write s p = None" and "fs_write_cut s p b = Some k"
  shows "write_text c p t s = (Inl OSError, put_file p (take k b) s)"
  using assms by (simp add: write_text_def)

end
