(* ===== verification/Search_Anchors.thy ===== *)
theory Search_Anchors
  imports Complex_Main File_Tools
begin

text \<open>
  Searches that hand out editable matches: the gate, the parser of search commands, the harvest of anchors and
  \<^verbatim>\<open>run\<close> of \<^verbatim>\<open>ShellTools\<close> in \<^verbatim>\<open>src/nooa/tools/shell_tools.py\<close>.

  \<^item> Regular expressions are matchers with continuations: \<open>m_star\<close>, \<open>m_plus\<close>, \<open>m_lit\<close> backtrack as
    Python's \<^verbatim>\<open>re\<close> does. The tables of word characters and decimal digits of Unicode are the parameter
    \<open>unicode\<close>.
  \<^item> \<open>shlex_split\<close> and \<open>shlex_quote\<close> are those of Python's library, as state machines.
  \<^item> The bash session is a parameter: a command yields its output and a new world, which holds the files.
  \<^item> Lemmas: a quoted command line is split into its words again; every match that \<open>run\<close> attaches was
    displayed and reported, and carries the text of its line.
\<close>

section \<open>White space and words\<close>

definition usp :: "nat \<Rightarrow> bool" where
  "usp c = (9 \<le> c \<and> c \<le> 13 \<or> 28 \<le> c \<and> c \<le> 32 \<or> 8192 \<le> c \<and> c \<le> 8202 \<or>
     c \<in> {133, 160, 5760, 8232, 8233, 8239, 8287, 12288})"

definition ustrip :: "utext \<Rightarrow> utext" where
  "ustrip s = rev (dropWhile usp (rev (dropWhile usp s)))"

definition letter :: "nat \<Rightarrow> bool" where
  "letter c = (65 \<le> c \<and> c \<le> 90 \<or> 97 \<le> c \<and> c \<le> 122)"

record unicode =
  uni_word :: "nat \<Rightarrow> bool"
  uni_digit :: "nat \<Rightarrow> nat option"

text \<open>\<open>s.split(sep)\<close> for a separator that is not empty; \<open>s.find(sub)\<close>, which is -1 if there is none.\<close>

function usplit :: "utext \<Rightarrow> utext \<Rightarrow> utext \<Rightarrow> utext list" where
  "usplit sep acc [] = [rev acc]"
| "usplit sep acc (c # cs) =
     (if sep \<noteq> [] \<and> prefix sep (c # cs) then rev acc # usplit sep [] (drop (length sep) (c # cs))
      else usplit sep (c # acc) cs)"
  by pat_completeness auto
termination
  by (relation "measure (\<lambda>(sep, acc, s). length s)") auto

fun ufind :: "utext \<Rightarrow> utext \<Rightarrow> int" where
  "ufind sub [] = (if sub = [] then 0 else -1)"
| "ufind sub (c # cs) =
     (if prefix sub (c # cs) then 0 else let i = ufind sub cs in if i < 0 then -1 else i + 1)"

definition uin :: "utext \<Rightarrow> utext \<Rightarrow> bool" where
  "uin sub s = (0 \<le> ufind sub s)"

section \<open>Regular expressions\<close>

type_synonym matcher = "utext \<Rightarrow> bool"

fun m_star :: "(nat \<Rightarrow> bool) \<Rightarrow> matcher \<Rightarrow> matcher" where
  "m_star cls k [] = k []"
| "m_star cls k (c # cs) = (k (c # cs) \<or> cls c \<and> m_star cls k cs)"

definition m_plus :: "(nat \<Rightarrow> bool) \<Rightarrow> matcher \<Rightarrow> matcher" where
  "m_plus cls k s = (case s of [] \<Rightarrow> False | c # cs \<Rightarrow> cls c \<and> m_star cls k cs)"

definition m_lit :: "utext \<Rightarrow> matcher \<Rightarrow> matcher" where
  "m_lit w k s = (prefix w s \<and> k (drop (length w) s))"

definition m_alt :: "utext list \<Rightarrow> matcher \<Rightarrow> matcher" where
  "m_alt ws k s = list_ex (\<lambda>w. m_lit w k s) ws"

text \<open>The end of the text, or its last line feed; a word boundary after a word.\<close>

definition m_end_of_text :: matcher where
  "m_end_of_text s = (s = [] \<or> s = [10])"

definition m_boundary :: "unicode \<Rightarrow> matcher" where
  "m_boundary uni s = (case s of [] \<Rightarrow> True | c # cs \<Rightarrow> \<not> uni_word uni c)"

fun m_search :: "matcher \<Rightarrow> matcher" where
  "m_search m [] = m []"
| "m_search m (c # cs) = (m (c # cs) \<or> m_search m cs)"

text \<open>\<^verbatim>\<open>_SAFE_TAIL_PIPE\<close>, and substituting the empty text for it: its match extends to the end.\<close>

definition tail_pipe_at :: matcher where
  "tail_pipe_at = m_lit (u ''|'') (m_star usp (m_alt [u ''head'', u ''tail''] (\<lambda>s.
     m_plus usp (m_lit (u ''-'') (m_plus (\<lambda>c. 48 \<le> c \<and> c \<le> 57 \<or> c = 110) (m_star usp m_end_of_text))) s \<or>
     m_star usp m_end_of_text s)))"

fun strip_tail_pipe :: "utext \<Rightarrow> utext" where
  "strip_tail_pipe [] = []"
| "strip_tail_pipe (c # cs) = (if tail_pipe_at (c # cs) then [] else c # strip_tail_pipe cs)"

text \<open>\<^verbatim>\<open>_XARGS_GREP\<close>, \<^verbatim>\<open>_SEARCH_HEAD\<close> and \<^verbatim>\<open>_MANGLING_PIPE\<close>.\<close>

definition xargs_grep_at :: matcher where
  "xargs_grep_at = m_lit (u ''find'') (m_plus usp (m_plus (\<lambda>c. c \<noteq> 10) (m_lit (u ''|'') (m_star usp
     (m_lit (u ''xargs'') (m_plus usp (m_lit (u ''grep'') (\<lambda>_. True))))))))"

definition search_head :: "unicode \<Rightarrow> matcher" where
  "search_head uni = m_star usp (m_alt [u ''grep'', u ''egrep'', u ''rg''] (m_boundary uni))"

definition mangling_pipe_at :: "unicode \<Rightarrow> matcher" where
  "mangling_pipe_at uni = m_lit (u ''|'') (m_star usp (m_alt [u ''sed'', u ''awk'', u ''cut'', u ''sort'',
     u ''uniq'', u ''tr'', u ''head'', u ''tail'', u ''wc'', u ''xargs'', u ''rev''] (m_boundary uni)))"

text \<open>The letters of the short flags: \<^verbatim>\<open>findall(r"(?:^|\s)-([A-Za-z]+)", s)\<close>.\<close>

function flag_clusters :: "bool \<Rightarrow> utext \<Rightarrow> utext list" where
  "flag_clusters start [] = []"
| "flag_clusters start (c # cs) =
     (if start \<and> c = 45 \<and> takeWhile letter cs \<noteq> []
      then takeWhile letter cs # flag_clusters False (dropWhile letter cs)
      else if usp c \<and> cs \<noteq> [] \<and> hd cs = 45 \<and> takeWhile letter (tl cs) \<noteq> []
      then takeWhile letter (tl cs) # flag_clusters False (dropWhile letter (tl cs))
      else flag_clusters False cs)"
  by pat_completeness auto
termination
proof (relation "measure (\<lambda>(b, s). length s)")
  fix start :: bool and c :: nat and cs :: utext
  show "((False, dropWhile letter cs), (start, c # cs)) \<in> measure (\<lambda>(b, s). length s)"
    using length_dropWhile_le [of letter cs] by simp
  have "length (dropWhile letter (tl cs)) \<le> length cs"
    using length_dropWhile_le [of letter "tl cs"] by (simp add: le_diff_conv)
  then show "((False, dropWhile letter (tl cs)), (start, c # cs)) \<in> measure (\<lambda>(b, s). length s)" by simp
qed simp_all

section \<open>The gate\<close>

definition ANCHOR_BREAKING_FLAGS :: utext where
  "ANCHOR_BREAKING_FLAGS = u ''oclLABCDzZP''"

definition LONG_ANCHOR_BREAKING :: "utext list" where
  "LONG_ANCHOR_BREAKING = [u ''--pcre2'', u ''--null-data'', u ''--count'', u ''--files-with-matches'',
     u ''--files-without-match'', u ''--only-matching'', u ''--multiline'', u ''--context'',
     u ''--after-context'', u ''--before-context'']"

fun unquoted_pipe :: "bool \<Rightarrow> bool \<Rightarrow> utext \<Rightarrow> bool" where
  "unquoted_pipe in_single in_double [] = False"
| "unquoted_pipe in_single in_double (c # cs) =
     (if c = 39 \<and> \<not> in_double then unquoted_pipe (\<not> in_single) in_double cs
      else if c = 34 \<and> \<not> in_single then unquoted_pipe in_single (\<not> in_double) cs
      else if c = 124 \<and> \<not> in_single \<and> \<not> in_double then True
      else unquoted_pipe in_single in_double cs)"

definition has_unquoted_pipe :: "utext \<Rightarrow> bool" where
  "has_unquoted_pipe cmd = unquoted_pipe False False cmd"

definition breaking_cluster :: "utext \<Rightarrow> bool" where
  "breaking_cluster cluster = list_ex (\<lambda>c. c \<in> set ANCHOR_BREAKING_FLAGS) cluster"

text \<open>What both the gate and the harvest cut away: what precedes \<^verbatim>\<open>&&\<close>, and a final \<^verbatim>\<open>head\<close> or \<^verbatim>\<open>tail\<close>.\<close>

definition last_command :: "utext \<Rightarrow> utext" where
  "last_command cmd =
     (let c = ustrip cmd in
      let c = (if uin (u ''&&'') c then ustrip (last (usplit (u ''&&'') [] c)) else c) in
      ustrip (strip_tail_pipe c))"

text \<open>\<open>"grep" + c[idx + len("xargs grep"):]\<close>, where the index may be -1.\<close>

definition xargs_grep_part :: "utext \<Rightarrow> utext" where
  "xargs_grep_part c = u ''grep'' @ slice_from c (ufind (u ''xargs grep'') c + 10)"

definition is_pure_search_command :: "unicode \<Rightarrow> utext \<Rightarrow> bool" where
  "is_pure_search_command uni cmd =
     (let c_no_tail = last_command cmd in
      if m_search xargs_grep_at c_no_tail then
        let grep_part = ustrip (strip_tail_pipe (xargs_grep_part c_no_tail)) in
        if list_ex breaking_cluster (flag_clusters True grep_part) then False
        else list_ex (\<lambda>cl. 110 \<in> set cl) (flag_clusters True grep_part)
      else if \<not> search_head uni c_no_tail then False
      else if m_search (mangling_pipe_at uni) c_no_tail then False
      else if has_unquoted_pipe c_no_tail then False
      else if list_ex (\<lambda>flag. uin flag c_no_tail) LONG_ANCHOR_BREAKING then False
      else \<not> list_ex breaking_cluster (flag_clusters True c_no_tail))"

section \<open>Words of a command line\<close>

datatype lex_state = LexSpace | LexWord | LexQuote nat | LexEscape lex_state

definition lex_space :: "nat \<Rightarrow> bool" where
  "lex_space c = (c \<in> {32, 9, 13, 10})"

text \<open>\<open>shlex.split(s)\<close>: the current word, whether part of it was quoted, the words so far.\<close>

fun lex :: "lex_state \<Rightarrow> utext \<Rightarrow> bool \<Rightarrow> utext list \<Rightarrow> utext \<Rightarrow> utext list py_res" where
  "lex LexSpace token quoted words [] = Inr words"
| "lex LexSpace token quoted words (c # cs) =
     (if lex_space c then lex LexSpace [] False words cs
      else if c = 92 then lex (LexEscape LexWord) [] False words cs
      else if c = 39 \<or> c = 34 then lex (LexQuote c) [] False words cs
      else lex LexWord [c] False words cs)"
| "lex (LexQuote q) token quoted words [] = Inl ValueError"
| "lex (LexQuote q) token quoted words (c # cs) =
     (if c = q then lex LexWord token True words cs
      else if c = 92 \<and> q = 34 then lex (LexEscape (LexQuote q)) token True words cs
      else lex (LexQuote q) (token @ [c]) True words cs)"
| "lex (LexEscape back) token quoted words [] = Inl ValueError"
| "lex (LexEscape back) token quoted words (c # cs) =
     lex back ((case back of LexQuote q \<Rightarrow> if c \<noteq> 92 \<and> c \<noteq> q then token @ [92] else token | _ \<Rightarrow> token) @ [c])
       quoted words cs"
| "lex LexWord token quoted words [] = Inr (if token \<noteq> [] \<or> quoted then words @ [token] else words)"
| "lex LexWord token quoted words (c # cs) =
     (if lex_space c then lex LexSpace [] False (if token \<noteq> [] \<or> quoted then words @ [token] else words) cs
      else if c = 39 \<or> c = 34 then lex (LexQuote c) token quoted words cs
      else if c = 92 then lex (LexEscape LexWord) token quoted words cs
      else lex LexWord (token @ [c]) quoted words cs)"

definition shlex_split :: "utext \<Rightarrow> utext list py_res" where
  "shlex_split s = lex LexSpace [] False [] s"

text \<open>\<open>shlex.quote(s)\<close>.\<close>

definition shell_safe :: "nat \<Rightarrow> bool" where
  "shell_safe c = (letter c \<or> 48 \<le> c \<and> c \<le> 57 \<or> c = 95 \<or> c \<in> set (u ''@%+=:,./-''))"

fun quote_body :: "utext \<Rightarrow> utext" where
  "quote_body [] = []"
| "quote_body (c # cs) = (if c = 39 then [39, 34, 39, 34, 39] @ quote_body cs else c # quote_body cs)"

definition shlex_quote :: "utext \<Rightarrow> utext" where
  "shlex_quote s =
     (if s = [] then [39, 39]
      else if list_all shell_safe s then s
      else [39] @ quote_body s @ [39])"

fun join_sp :: "utext list \<Rightarrow> utext" where
  "join_sp [] = []"
| "join_sp [x] = x"
| "join_sp (x # y # xs) = x @ 32 # join_sp (y # xs)"

section \<open>Search commands and displayed anchors\<close>

record search =
  se_pattern :: "utext option"
  se_paths :: "utext list"
  se_ignore_case :: bool
  se_fixed :: bool

definition no_search :: search where
  "no_search = \<lparr>se_pattern = None, se_paths = [], se_ignore_case = False, se_fixed = False\<rparr>"

text \<open>The letters of a short flag cluster; \<open>None\<close> is a letter that is not understood.\<close>

fun short_flags :: "utext \<Rightarrow> bool \<times> bool \<Rightarrow> (bool \<times> bool) option" where
  "short_flags [] (i, f) = Some (i, f)"
| "short_flags (ch # chs) (i, f) =
     (if ch = 105 then short_flags chs (True, f)
      else if ch = 70 then short_flags chs (i, True)
      else if ch \<in> {114, 82, 110, 72} then short_flags chs (i, f)
      else None)"

text \<open>The loop over the words after the program: positional words, and the flags seen.\<close>

fun search_words :: "utext list \<Rightarrow> utext list \<Rightarrow> bool \<Rightarrow> bool \<Rightarrow> (utext list \<times> bool \<times> bool) option" where
  "search_words [] positional i f = Some (positional, i, f)"
| "search_words (t # toks) positional i f =
     (if t = u ''--'' then Some (positional @ toks, i, f)
      else if prefix (u ''-'') t \<and> 1 < length t then
        (if t = u ''--ignore-case'' then search_words toks positional True f
         else if t = u ''--fixed-strings'' then search_words toks positional i True
         else if prefix (u ''--'') t then None
         else case short_flags (tl t) (i, f) of
                Some (i', f') \<Rightarrow> search_words toks positional i' f'
              | None \<Rightarrow> None)
      else search_words toks (positional @ [t]) i f)"

definition parse_search :: "utext \<Rightarrow> search py_res" where
  "parse_search command =
     py_bind (shlex_split command) (\<lambda>toks. Inr
       (case toks of
          [] \<Rightarrow> no_search
        | t # rest \<Rightarrow>
            if t \<notin> {u ''grep'', u ''egrep'', u ''rg''} then no_search
            else case search_words rest [] False False of
              None \<Rightarrow> no_search
            | Some ([], _, _) \<Rightarrow> no_search
            | Some (pattern # paths, i, f) \<Rightarrow>
                \<lparr>se_pattern = Some pattern, se_paths = paths, se_ignore_case = i, se_fixed = f\<rparr>))"

text \<open>\<open>stdout.splitlines()\<close>: the lines without their ends.\<close>

definition chomp :: "utext \<Rightarrow> utext" where
  "chomp l =
     (if l = [] then [] else
      if last l = 10 \<and> butlast l \<noteq> [] \<and> last (butlast l) = 13 then butlast (butlast l)
      else if line_break (last l) then butlast l else l)"

definition plain_lines :: "utext \<Rightarrow> utext list" where
  "plain_lines s = map chomp (splitlines s)"

fun digits_value :: "unicode \<Rightarrow> nat \<Rightarrow> utext \<Rightarrow> nat" where
  "digits_value uni acc [] = acc"
| "digits_value uni acc (c # cs) =
     digits_value uni (acc * 10 + (case uni_digit uni c of Some d \<Rightarrow> d | None \<Rightarrow> 0)) cs"

definition is_udigit :: "unicode \<Rightarrow> nat \<Rightarrow> bool" where
  "is_udigit uni c = (uni_digit uni c \<noteq> None)"

text \<open>\<^verbatim>\<open>(\d+):\<close> at the front of a text.\<close>

definition line_number :: "unicode \<Rightarrow> utext \<Rightarrow> int option" where
  "line_number uni s =
     (let d = takeWhile (is_udigit uni) s; r = dropWhile (is_udigit uni) s in
      if d \<noteq> [] \<and> r \<noteq> [] \<and> hd r = 58 then Some (int (digits_value uni 0 d)) else None)"

text \<open>\<^verbatim>\<open>([^:]+):(\d+):\<close>, and the same after an optional \<^verbatim>\<open>./\<close>.\<close>

definition path_and_line :: "unicode \<Rightarrow> utext \<Rightarrow> (utext \<times> int) option" where
  "path_and_line uni s =
     (let p = takeWhile (\<lambda>c. c \<noteq> 58) s; r = dropWhile (\<lambda>c. c \<noteq> 58) s in
      if p = [] \<or> r = [] then None else map_option (Pair p) (line_number uni (tl r)))"

definition anchor_of_line :: "unicode \<Rightarrow> utext \<Rightarrow> (utext \<times> int) option" where
  "anchor_of_line uni s =
     (case (if prefix (u ''./'') s then path_and_line uni (drop 2 s) else None) of
        Some a \<Rightarrow> Some a
      | None \<Rightarrow> path_and_line uni s)"

definition line_anchor :: "unicode \<Rightarrow> utext option \<Rightarrow> utext \<Rightarrow> (utext \<times> int) option" where
  "line_anchor uni single_file line =
     (case anchor_of_line uni line of
        Some a \<Rightarrow> Some a
      | None \<Rightarrow> (case single_file of
                   None \<Rightarrow> None
                 | Some f \<Rightarrow> map_option (Pair f) (line_number uni line)))"

text \<open>The set of displayed anchors as the list of what was found; \<open>None\<close> if nothing could be verified.\<close>

definition displayed_anchor_lines :: "unicode \<Rightarrow> utext \<Rightarrow> utext option \<Rightarrow> (utext \<times> int) list option" where
  "displayed_anchor_lines uni stdout single_file =
     (let lines = plain_lines stdout;
          found = List.map_filter (line_anchor uni single_file) lines in
      if lines = [] then Some []
      else if found = [] then None
      else Some found)"

section \<open>The harvest\<close>

text \<open>A line of \<^verbatim>\<open>rg --json\<close>: not JSON, an event of another type, or a match with the text of its path, which is
  absent when ripgrep gives the path as bytes. Lines that are JSON but no event of \<^verbatim>\<open>rg\<close> (a JSON value that is no
  object, a match without a line number), on which the code raises, are not modelled.\<close>

datatype rg_line = BadJson | OtherEvent | MatchEvent "utext option" int

definition drop_dot_slash :: "utext \<Rightarrow> utext" where
  "drop_dot_slash p = (if prefix (u ''./'') p then drop 2 p else p)"

fun rg_anchors :: "(utext \<Rightarrow> rg_line) \<Rightarrow> (utext \<times> int) list \<Rightarrow> utext list \<Rightarrow> (utext \<times> int) list option py_res" where
  "rg_anchors json anchors [] = Inr (Some anchors)"
| "rg_anchors json anchors (raw # raws) =
     (let raw = ustrip raw in
      if raw = [] then rg_anchors json anchors raws
      else case json raw of
        BadJson \<Rightarrow> Inr None
      | OtherEvent \<Rightarrow> rg_anchors json anchors raws
      | MatchEvent None line_no \<Rightarrow> Inl KeyError
      | MatchEvent (Some mpath) line_no \<Rightarrow> rg_anchors json (anchors @ [(drop_dot_slash mpath, line_no)]) raws)"

text \<open>\<open>wanted.setdefault(path, set()).add(line)\<close> for every anchor kept.\<close>

definition add_wanted :: "utext \<times> int \<Rightarrow> (utext, int list) dict \<Rightarrow> (utext, int list) dict" where
  "add_wanted a d = dict_set (fst a) ((case dict_get d (fst a) of Some ls \<Rightarrow> ls | None \<Rightarrow> []) @ [snd a]) d"

definition wanted_lines :: "(utext \<times> int) list \<Rightarrow> (utext, int list) dict" where
  "wanted_lines keep = fold add_wanted keep []"

text \<open>\<^verbatim>\<open>except (OSError, ValueError)\<close>, with the subclasses that reading can raise.\<close>

definition harvest_catches :: "py_error \<Rightarrow> bool" where
  "harvest_catches e =
     (e \<in> {OSError, FileNotFoundError, TimeoutError, ValueError, FileTooLargeError, UnicodeDecodeError, UnicodeEncodeError,
           StaleMatchError})"

fun read_wanted :: "codec \<Rightarrow> path_env \<Rightarrow> shell \<Rightarrow> fs \<Rightarrow> (utext, int list) dict \<Rightarrow>
    (utext, rpath \<times> (int, utext) dict) dict \<Rightarrow> (utext, rpath \<times> (int, utext) dict) dict option py_res" where
  "read_wanted c env sh s [] cache = Inr (Some cache)"
| "read_wanted c env sh s ((mpath, line_nos) # rest) cache =
     (let resolved = resolve_path env sh mpath in
      case read_specific_lines c s resolved line_nos (sh_max_file_bytes sh) of
        Inl e \<Rightarrow> (if harvest_catches e then Inr None else Inl e)
      | Inr lines \<Rightarrow> read_wanted c env sh s rest (dict_set mpath (resolved, lines) cache))"

fun build_matches :: "path_env \<Rightarrow> (utext, rpath \<times> (int, utext) dict) dict \<Rightarrow> (utext \<times> int) list \<Rightarrow>
    match list \<Rightarrow> match list option py_res" where
  "build_matches env cache [] out = Inr (Some out)"
| "build_matches env cache ((mpath, line_no) # keep) out =
     (case dict_get cache mpath of
        None \<Rightarrow> Inl KeyError
      | Some (resolved, lines) \<Rightarrow>
          (case dict_get lines line_no of
             None \<Rightarrow> Inr None
           | Some line \<Rightarrow>
               py_bind (new_match env mpath line_no line_no line resolved) (\<lambda>m.
                 build_matches env cache keep (out @ [m]))))"

text \<open>Which anchors are kept: all if the two sets agree, the displayed ones if the display was cut, else none.\<close>

definition reconcile :: "bool \<Rightarrow> (utext \<times> int) list \<Rightarrow> (utext \<times> int) list \<Rightarrow> (utext \<times> int) list option" where
  "reconcile truncated anchors displayed =
     (if truncated then
        (if \<not> set displayed \<subseteq> set anchors then None
         else Some (filter (\<lambda>a. a \<in> set displayed) anchors))
      else if set anchors \<noteq> set displayed then None
      else Some anchors)"

text \<open>The command line of ripgrep.\<close>

definition rg_command :: "search \<Rightarrow> utext \<Rightarrow> utext" where
  "rg_command se pattern =
     u ''PATH=/opt/harbor/cpython312/bin:/opt/harbor/bin:$PATH '' @
     join_sp (map shlex_quote
       ([u ''rg'', u ''--json'', u ''-n'', u ''--no-ignore''] @
        (if se_ignore_case se then [u ''-i''] else []) @ (if se_fixed se then [u ''-F''] else []) @
        [u ''--'', pattern] @ (if se_paths se = [] then [u ''.''] else se_paths se)))"

definition single_file_of :: "utext list \<Rightarrow> utext option" where
  "single_file_of paths =
     (case paths of
        [p] \<Rightarrow> if p \<noteq> [] \<and> last p = 47 then None else Some (drop_dot_slash p)
      | _ \<Rightarrow> None)"

record 'w session =
  se_run :: "utext \<Rightarrow> real \<Rightarrow> 'w \<Rightarrow> (utext \<times> utext \<times> int \<times> bool) py_res \<times> 'w"
  se_files :: "'w \<Rightarrow> fs"
  se_json :: "utext \<Rightarrow> rg_line"

definition harvest_matches :: "codec \<Rightarrow> path_env \<Rightarrow> unicode \<Rightarrow> 'w session \<Rightarrow> shell \<Rightarrow> utext \<Rightarrow> utext \<Rightarrow> 'w \<Rightarrow>
    match list option py_res \<times> 'w" where
  "harvest_matches c env uni sess sh command displayed_stdout w =
     (let cmd = last_command command;
          cmd = (if m_search xargs_grep_at cmd then xargs_grep_part cmd else cmd) in
      case parse_search cmd of
        Inl e \<Rightarrow> (Inr None, w)
      | Inr se \<Rightarrow>
      case se_pattern se of
        None \<Rightarrow> (Inr None, w)
      | Some pattern \<Rightarrow>
      case se_run sess (rg_command se pattern) 30 w of
        (Inl e, w') \<Rightarrow> (Inr None, w')
      | (Inr (rg_out, rg_err, rg_code, timed), w') \<Rightarrow>
      if rg_code \<notin> {0, 1} then (Inr None, w') else
      case rg_anchors (se_json sess) [] (plain_lines rg_out) of
        Inl e \<Rightarrow> (Inl e, w')
      | Inr None \<Rightarrow> (Inr None, w')
      | Inr (Some anchors) \<Rightarrow>
      case displayed_anchor_lines uni displayed_stdout (single_file_of (se_paths se)) of
        None \<Rightarrow> (Inr None, w')
      | Some displayed \<Rightarrow>
      case reconcile (m_search tail_pipe_at (ustrip command)) anchors displayed of
        None \<Rightarrow> (Inr None, w')
      | Some keep \<Rightarrow>
      case read_wanted c env sh (se_files sess w') (wanted_lines keep) [] of
        Inl e \<Rightarrow> (Inl e, w')
      | Inr None \<Rightarrow> (Inr None, w')
      | Inr (Some cache) \<Rightarrow> (build_matches env cache keep [], w'))"

section \<open>Running a command\<close>

text \<open>\<open>stdin.encode()\<close> is UTF-8; surrogates cannot be encoded.\<close>

definition utf8_char :: "nat \<Rightarrow> nat list option" where
  "utf8_char c =
     (if c < 128 then Some [c]
      else if c < 2048 then Some [192 + c div 64, 128 + c mod 64]
      else if 55296 \<le> c \<and> c < 57344 then None
      else if c < 65536 then Some [224 + c div 4096, 128 + c div 64 mod 64, 128 + c mod 64]
      else if c < 1114112 then Some [240 + c div 262144, 128 + c div 4096 mod 64, 128 + c div 64 mod 64, 128 + c mod 64]
      else None)"

fun utf8 :: "utext \<Rightarrow> nat list option" where
  "utf8 [] = Some []"
| "utf8 (c # cs) =
     (case utf8_char c of
        None \<Rightarrow> None
      | Some b \<Rightarrow> map_option (\<lambda>bs. b @ bs) (utf8 cs))"

definition b64_digit :: "nat \<Rightarrow> nat" where
  "b64_digit n =
     (if n < 26 then 65 + n else if n < 52 then 97 + (n - 26) else if n < 62 then 48 + (n - 52)
      else if n = 62 then 43 else 47)"

fun b64 :: "nat list \<Rightarrow> utext" where
  "b64 [] = []"
| "b64 [x] = [b64_digit (x div 4), b64_digit (x mod 4 * 16), 61, 61]"
| "b64 [x, y] = [b64_digit (x div 4), b64_digit (x mod 4 * 16 + y div 16), b64_digit (y mod 16 * 4), 61]"
| "b64 (x # y # z # rest) =
     [b64_digit (x div 4), b64_digit (x mod 4 * 16 + y div 16), b64_digit (y mod 16 * 4 + z div 64), b64_digit (z mod 64)]
     @ b64 rest"

definition with_stdin :: "utext \<Rightarrow> utext option \<Rightarrow> utext py_res" where
  "with_stdin command stdin =
     (case stdin of
        None \<Rightarrow> Inr command
      | Some t \<Rightarrow>
          (case utf8 t of
             None \<Rightarrow> Inl UnicodeEncodeError
           | Some bs \<Rightarrow> Inr (
               u ''__nemo_in=$(mktemp); base64 -d <<<'' @ [39] @ b64 bs @ [39] @ u '' > $__nemo_in; '' @
               u ''{ '' @ command @ [10] @ u ''} < $__nemo_in; __nemo_rc=$?; rm -f $__nemo_in; '' @
               u ''( exit $__nemo_rc )'')))"

definition in_directory :: "utext \<Rightarrow> utext option \<Rightarrow> utext" where
  "in_directory command cwd =
     (case cwd of
        None \<Rightarrow> command
      | Some d \<Rightarrow>
          u ''__nooa_back=$PWD; '' @
          u ''if CDPATH= cd -- '' @ shlex_quote d @ u ''; then { '' @ command @ [10] @ u ''}; '' @
          u ''__nooa_rc=$?; cd -- '' @ [34] @ u ''$__nooa_back'' @ [34] @ u ''; else __nooa_rc=$?; fi; '' @
          u ''( exit $__nooa_rc )'')"

record shell_result =
  sr_stdout :: utext
  sr_stderr :: utext
  sr_returncode :: int
  sr_timed_out :: bool
  sr_timeout_seconds :: real
  sr_matches :: "match list option"

definition sr_success :: "shell_result \<Rightarrow> bool" where
  "sr_success r = (sr_returncode r = 0)"

definition shell_run :: "codec \<Rightarrow> path_env \<Rightarrow> unicode \<Rightarrow> 'w session \<Rightarrow> real \<Rightarrow> shell \<Rightarrow> utext \<Rightarrow> utext option \<Rightarrow>
    real option \<Rightarrow> utext option \<Rightarrow> 'w \<Rightarrow> shell_result py_res \<times> shell \<times> 'w" where
  "shell_run c env uni sess default_timeout sh command stdin timeout cwd w =
     (let timeout = (case timeout of Some t \<Rightarrow> t | None \<Rightarrow> default_timeout) in
      case with_stdin (in_directory command cwd) stdin of
        Inl e \<Rightarrow> (Inl e, sh, w)
      | Inr run_cmd \<Rightarrow>
      case se_run sess run_cmd timeout w of
        (Inl e, w1) \<Rightarrow> (Inl e, sh, w1)
      | (Inr (stdout, stderr, code, timed_out), w1) \<Rightarrow>
      case se_run sess (u ''pwd'') 5 w1 of
        (Inl e, w2) \<Rightarrow> (Inl e, sh, w2)
      | (Inr (pwd_out, _, _, _), w2) \<Rightarrow>
          let sh' = (if ustrip pwd_out \<noteq> [] then sh\<lparr>sh_cwd := ustrip pwd_out\<rparr> else sh);
              (harvested, w3) =
                (if stdin = None \<and> cwd = None \<and> is_pure_search_command uni command
                 then harvest_matches c env uni sess sh' command stdout w2 else (Inr None, w2)) in
          case harvested of
            Inl e \<Rightarrow> (Inl e, sh', w3)
          | Inr matches \<Rightarrow>
              (Inr \<lparr>sr_stdout = stdout, sr_stderr = stderr, sr_returncode = code, sr_timed_out = timed_out,
                    sr_timeout_seconds = timeout, sr_matches = matches\<rparr>, sh', w3))"

section \<open>Quoting\<close>

lemma shell_safe_plain: "shell_safe c \<Longrightarrow> \<not> lex_space c \<and> c \<noteq> 39 \<and> c \<noteq> 34 \<and> c \<noteq> 92"
  by (auto simp: shell_safe_def letter_def lex_space_def u_def)

lemma lex_safe: "list_all shell_safe a \<Longrightarrow> lex LexWord token quoted words (a @ rest) = lex LexWord (token @ a) quoted words rest"
  by (induction a arbitrary: token) (simp_all add: shell_safe_plain)

lemma lex_quoted:
  "lex (LexQuote 39) token quoted words (quote_body a @ 39 # rest) = lex LexWord (token @ a) True words rest"
  by (induction a arbitrary: token quoted) (simp_all add: lex_space_def)

lemma lex_word:
  "rest = [] \<or> hd rest = 32 \<Longrightarrow> lex LexSpace [] False words (shlex_quote a @ rest)
    = lex LexSpace [] False (words @ [a]) rest"
proof -
  assume rest: "rest = [] \<or> hd rest = 32"
  have word: "lex LexWord a quoted words rest = lex LexSpace [] False (words @ [a]) rest" if "a \<noteq> [] \<or> quoted" for quoted
    using rest that by (cases rest) (auto simp: lex_space_def)
  show ?thesis
  proof (cases "a \<noteq> [] \<and> list_all shell_safe a")
    case True
    then obtain c cs where a: "a = c # cs" and c: "shell_safe c" "list_all shell_safe cs" by (cases a) auto
    have "shlex_quote a = a" using True by (simp add: shlex_quote_def)
    then show ?thesis using lex_safe [OF c(2)] shell_safe_plain [OF c(1)] word [of False] a by simp
  next
    case False
    then have q: "shlex_quote a = [39] @ quote_body a @ [39]" by (auto simp: shlex_quote_def)
    show ?thesis unfolding q using lex_quoted [of "[]" False words a rest] word [of True] by (simp add: lex_space_def)
  qed
qed

lemma lex_words: "lex LexSpace [] False words (join_sp (map shlex_quote args)) = Inr (words @ args)"
proof (induction args arbitrary: words rule: join_sp.induct)
  case (2 x)
  then show ?case using lex_word [of "[]" words x] by simp
next
  case (3 x y xs)
  have "lex LexSpace [] False words (shlex_quote x @ 32 # join_sp (map shlex_quote (y # xs)))
      = lex LexSpace [] False (words @ [x]) (32 # join_sp (map shlex_quote (y # xs)))"
    by (rule lex_word) simp
  then show ?case using 3 [of "words @ [x]"] by (simp add: lex_space_def)
qed simp

section \<open>Harvested matches\<close>

lemma reconcile_Some:
  assumes "reconcile truncated anchors displayed = Some keep"
  shows "set keep = set displayed" "set keep \<subseteq> set anchors"
  using assms by (auto simp: reconcile_def split: if_splits)

lemma wanted_lines_keys: "distinct (dict_keys (wanted_lines keep))"
proof -
  have "distinct (dict_keys d) \<Longrightarrow> distinct (dict_keys (fold add_wanted keep d))" for d
    by (induction keep arbitrary: d) (simp_all add: add_wanted_def)
  then show ?thesis by (simp add: wanted_lines_def)
qed

lemma wanted_lines_mem:
  assumes "(p, n) \<in> set keep"
  obtains ls where "dict_get (wanted_lines keep) p = Some ls" "n \<in> set ls"
proof -
  have more: "\<exists>ls'. dict_get (fold add_wanted keep d) p = Some ls' \<and> set ls \<subseteq> set ls'"
    if "dict_get d p = Some ls" for d ls keep
    using that
  proof (induction keep arbitrary: d ls)
    case (Cons a keep)
    have "\<exists>l. dict_get (add_wanted a d) p = Some l \<and> set ls \<subseteq> set l"
      using Cons.prems by (auto simp: add_wanted_def)
    then obtain l where l: "dict_get (add_wanted a d) p = Some l" "set ls \<subseteq> set l" by blast
    from Cons.IH [OF l(1)] l(2) show ?case by auto
  qed auto
  have "\<exists>ls. dict_get (fold add_wanted keep d) p = Some ls \<and> n \<in> set ls" for d
    using assms
  proof (induction keep arbitrary: d)
    case (Cons a keep)
    show ?case
    proof (cases "a = (p, n)")
      case True
      have "\<exists>l. dict_get (add_wanted a d) p = Some l \<and> n \<in> set l" using True by (simp add: add_wanted_def)
      then obtain l where l: "dict_get (add_wanted a d) p = Some l" "n \<in> set l" by blast
      from more [OF l(1), of keep] l(2) show ?thesis by auto
    next
      case False
      then show ?thesis using Cons.IH [of "add_wanted a d"] Cons.prems by simp
    qed
  qed simp
  then show thesis using that by (metis wanted_lines_def)
qed

lemma read_wanted_cached:
  assumes "read_wanted c env sh s d cache = Inr (Some cache')" and "distinct (dict_keys d)"
  shows "dict_get cache' p =
    (case dict_get d p of
       None \<Rightarrow> dict_get cache p
     | Some ls \<Rightarrow> map_option (Pair (resolve_path env sh p))
         (case read_specific_lines c s (resolve_path env sh p) ls (sh_max_file_bytes sh) of Inr l \<Rightarrow> Some l | Inl _ \<Rightarrow> None))"
  using assms
proof (induction d arbitrary: cache)
  case (Cons a d)
  obtain q ls where a: "a = (q, ls)" by (cases a)
  obtain l where l: "read_specific_lines c s (resolve_path env sh q) ls (sh_max_file_bytes sh) = Inr l"
      and r: "read_wanted c env sh s d (dict_set q (resolve_path env sh q, l) cache) = Inr (Some cache')"
    using Cons.prems(1) by (auto simp: a Let_def split: sum.splits if_splits)
  have "q \<notin> set (dict_keys d)" "distinct (dict_keys d)" using Cons.prems(2) a by auto
  then have "dict_get d q = None" by (simp add: map_of_eq_None_iff)
  then show ?case using Cons.IH [OF r \<open>distinct (dict_keys d)\<close>] l a by (auto split: option.split)
qed simp

definition match_anchor :: "match \<Rightarrow> utext \<times> int" where
  "match_anchor m = (m_path m, m_start m)"

lemma build_matches_Some:
  assumes "build_matches env cache keep out = Inr (Some ms)"
  shows "map match_anchor ms = map match_anchor out @ keep \<and>
    (\<forall>m \<in> set ms. m \<in> set out \<or> (\<exists>resolved lines line. dict_get cache (m_path m) = Some (resolved, lines) \<and>
      dict_get lines (m_start m) = Some line \<and>
      new_match env (m_path m) (m_start m) (m_start m) line resolved = Inr m))"
  using assms
proof (induction keep arbitrary: out)
  case (Cons a keep)
  obtain p n where a: "a = (p, n)" by (cases a)
  obtain resolved lines line m where m: "dict_get cache p = Some (resolved, lines)" "dict_get lines n = Some line"
      "new_match env p n n line resolved = Inr m" "build_matches env cache keep (out @ [m]) = Inr (Some ms)"
    using Cons.prems by (auto simp: a py_bind_Inr_iff split: option.splits)
  have f: "m_path m = p" "m_start m = n" using m(3) by (auto simp: new_match_def split: if_splits)
  show ?case using Cons.IH [OF m(4)] m(1,2,3) f a by (auto simp: match_anchor_def)
qed simp

lemma new_match_fields:
  "new_match env p i j t r = Inr m \<Longrightarrow> m_end m = j \<and> m_text m = t \<and> m_resolved_path m = pe_canonical env r"
  by (auto simp: new_match_def split: if_splits)

text \<open>The anchors of a successful harvest are the displayed ones; each match is its line of its file.\<close>

lemma harvest_sound:
  assumes h: "harvest_matches c env uni sess sh command stdout w = (Inr (Some ms), w')" and ok: "paths_ok env"
  shows "\<exists>single displayed. displayed_anchor_lines uni stdout single = Some displayed \<and>
    set (map match_anchor ms) = set displayed \<and>
    (\<forall>m \<in> set ms. m_end m = m_start m \<and> m_resolved_path m = resolve_path env sh (m_path m) \<and>
      (\<forall>t. text_of c (se_files sess w') (m_resolved_path m) = Some t \<longrightarrow> anchor_holds m t))"
proof -
  define cmd where "cmd = (if m_search xargs_grep_at (last_command command) then xargs_grep_part (last_command command)
    else last_command command)"
  note hh = h [unfolded harvest_matches_def Let_def, folded cmd_def]
  obtain se where se: "parse_search cmd = Inr se" using hh by (auto split: sum.splits)
  obtain pattern where p: "se_pattern se = Some pattern" using hh se by (auto split: option.splits)
  obtain rg_out rg_err rg_code timed where rg:
      "se_run sess (rg_command se pattern) 30 w = (Inr (rg_out, rg_err, rg_code, timed), w')" "rg_code \<in> {0, 1}"
    using hh se p by (auto split: prod.splits sum.splits if_splits option.splits)
  have rc: "(rg_code \<notin> {0, 1}) = False" using rg(2) by blast
  note h2 = hh [unfolded se p rg(1) rc sum.case option.case prod.case if_False]
  obtain anchors where an: "rg_anchors (se_json sess) [] (plain_lines rg_out) = Inr (Some anchors)"
    using h2 by (auto split: sum.splits option.splits)
  obtain displayed where di: "displayed_anchor_lines uni stdout (single_file_of (se_paths se)) = Some displayed"
    using h2 an by (auto split: option.splits)
  obtain keep where ke: "reconcile (m_search tail_pipe_at (ustrip command)) anchors displayed = Some keep"
    using h2 an di by (auto split: option.splits)
  obtain cache where ca: "read_wanted c env sh (se_files sess w') (wanted_lines keep) [] = Inr (Some cache)"
    using h2 an di ke by (auto split: sum.splits option.splits)
  have bu: "build_matches env cache keep [] = Inr (Some ms)"
    using h2 an di ke ca by auto
  note b = build_matches_Some [OF bu]
  have anchors: "map match_anchor ms = keep" using b by simp
  have "m_end m = m_start m \<and> m_resolved_path m = resolve_path env sh (m_path m) \<and>
      (\<forall>t. text_of c (se_files sess w') (m_resolved_path m) = Some t \<longrightarrow> anchor_holds m t)" if mem: "m \<in> set ms" for m
  proof -
    obtain resolved lines line where m: "dict_get cache (m_path m) = Some (resolved, lines)"
        "dict_get lines (m_start m) = Some line" "new_match env (m_path m) (m_start m) (m_start m) line resolved = Inr m"
      using b mem by auto
    have "(m_path m, m_start m) \<in> set keep" using mem anchors by (force simp: match_anchor_def)
    then obtain ls where ls: "dict_get (wanted_lines keep) (m_path m) = Some ls" "m_start m \<in> set ls"
      by (rule wanted_lines_mem)
    have res: "resolved = resolve_path env sh (m_path m)"
      and rd: "read_specific_lines c (se_files sess w') resolved ls (sh_max_file_bytes sh) = Inr lines"
      using read_wanted_cached [OF ca wanted_lines_keys, of "m_path m"] m(1) ls(1) by (auto split: sum.splits)
    have f: "m_end m = m_start m" "m_text m = line" "m_resolved_path m = resolved"
      using new_match_fields [OF m(3)] ok by (simp_all add: res resolve_path_def paths_ok_def)
    have "anchor_holds m t" if "text_of c (se_files sess w') resolved = Some t" for t
    proof -
      have "1 \<le> m_start m \<and> m_start m \<le> int (length (splitlines t))" "line = splitlines t ! nat (m_start m - 1)"
        using read_specific_lines_found [OF that rd ls(2)] m(2) by (auto split: if_splits)
      moreover from this have "nat (m_start m) = Suc (nat (m_start m - 1))"
          "nat (m_start m - 1) < length (splitlines t)" by linarith+
      then have "drop (nat (m_start m - 1)) (take (nat (m_start m)) (splitlines t)) = [splitlines t ! nat (m_start m - 1)]"
        by (simp only: take_Suc_conv_app_nth) simp
      ultimately show ?thesis using f by (simp add: anchor_holds_def)
    qed
    then show ?thesis using f res by simp
  qed
  then show ?thesis using di anchors reconcile_Some(1) [OF ke] by blast
qed

section \<open>Properties\<close>

text \<open>C7: When \<open>run\<close> attaches matches, the command was a pure search without input or directory of its own; the
  anchors of the matches are exactly the displayed ones; and each match is a single line that fits its file, so
  it can be edited.\<close>

theorem run_matches_fit_their_files:
  assumes "shell_run c env uni sess dt sh command stdin timeout cwd w = (Inr r, sh', w')"
    and "sr_matches r = Some ms" and "paths_ok env"
  shows "stdin = None \<and> cwd = None \<and> is_pure_search_command uni command \<and>
    (\<exists>single displayed. displayed_anchor_lines uni (sr_stdout r) single = Some displayed \<and>
      set (map match_anchor ms) = set displayed) \<and>
    (\<forall>m \<in> set ms. m_end m = m_start m \<and> m_resolved_path m = resolve_path env sh' (m_path m) \<and>
      (\<forall>t. text_of c (se_files sess w') (m_resolved_path m) = Some t \<longrightarrow> anchor_holds m t))"
proof -
  obtain w2 where g: "stdin = None \<and> cwd = None \<and> is_pure_search_command uni command"
      "harvest_matches c env uni sess sh' command (sr_stdout r) w2 = (Inr (Some ms), w')"
    using assms(1,2) by (auto simp: shell_run_def Let_def split: sum.splits prod.splits if_splits option.splits)
  from harvest_sound [OF g(2) assms(3)] g(1) show ?thesis by blast
qed

definition ex_unicode :: unicode where
  "ex_unicode = \<lparr>uni_word = (\<lambda>c. letter c \<or> 48 \<le> c \<and> c \<le> 57 \<or> c = 95),
     uni_digit = (\<lambda>c. if 48 \<le> c \<and> c \<le> 57 then Some (c - 48) else None)\<rparr>"

text \<open>The search \<^verbatim>\<open>rg -n b f\<close>, code point by code point.\<close>

definition ex_command :: utext where
  "ex_command = [114, 103, 32, 45, 110, 32, 98, 32, 102]"

lemma ex_command: "ex_command = u ''rg -n b f''"
  by (simp add: ex_command_def u_def)

lemma ex_words:
  "u ''&&'' = [38, 38]" "u ''|'' = [124]" "u ''-'' = [45]" "u ''--'' = [45, 45]" "u ''find'' = [102, 105, 110, 100]"
  "u ''f'' = [102]" "u ''b'' = [98]" "u ''grep'' = [103, 114, 101, 112]" "u ''egrep'' = [101, 103, 114, 101, 112]"
  "u ''rg'' = [114, 103]" "u ''./'' = [46, 47]" "u ''oclLABCDzZP'' = [111, 99, 108, 76, 65, 66, 67, 68, 122, 90, 80]"
  "u ''2:x'' = [50, 58, 120]" 
  by (simp_all add: u_def)

lemma ex_long: "list_all (prefix [45, 45]) LONG_ANCHOR_BREAKING"
  by (simp add: LONG_ANCHOR_BREAKING_def u_def)

lemma ex_last_command: "last_command ex_command = ex_command"
  by (simp add: last_command_def ustrip_def usp_def uin_def ex_words tail_pipe_at_def m_lit_def Let_def ex_command_def)

lemma ex_no_xargs: "\<not> m_search xargs_grep_at ex_command"
  by (simp add: xargs_grep_at_def m_lit_def ex_words ex_command_def)

lemma ex_no_tail: "\<not> m_search tail_pipe_at (ustrip ex_command)"
  by (simp add: tail_pipe_at_def m_lit_def ex_words ex_command_def ustrip_def usp_def)

lemma ex_no_long: "\<not> list_ex (\<lambda>flag. uin flag ex_command) LONG_ANCHOR_BREAKING"
  by (simp add: LONG_ANCHOR_BREAKING_def u_def uin_def ex_command_def)

lemma ex_pure: "is_pure_search_command ex_unicode ex_command"
proof -
  have "search_head ex_unicode ex_command"
    by (simp add: search_head_def m_alt_def m_lit_def ex_words ex_command_def m_boundary_def ex_unicode_def letter_def)
  moreover have "\<not> m_search (mangling_pipe_at ex_unicode) ex_command"
    by (simp add: mangling_pipe_at_def m_lit_def ex_words ex_command_def)
  moreover have "\<not> has_unquoted_pipe ex_command"
    by (simp add: has_unquoted_pipe_def ex_command_def)
  moreover have "flag_clusters True ex_command = [[110]]"
    by (simp add: ex_command_def letter_def usp_def)
  ultimately show ?thesis
    using ex_no_xargs ex_no_long
    by (simp add: is_pure_search_command_def ex_last_command breaking_cluster_def ANCHOR_BREAKING_FLAGS_def ex_words)
qed

lemma ex_parse: "parse_search ex_command =
    Inr \<lparr>se_pattern = Some [98], se_paths = [u ''f''], se_ignore_case = False, se_fixed = False\<rparr>"
  by (simp add: parse_search_def shlex_split_def ex_command_def lex_space_def u_def)

lemma ex_displayed:
  "single_file_of [u ''f''] = Some (u ''f'')"
  "plain_lines (u ''2:x'') = [u ''2:x'']" "ustrip (u ''2:x'') = u ''2:x''" "u ''2:x'' \<noteq> []"
  "displayed_anchor_lines ex_unicode (u ''2:x'') (Some (u ''f'')) = Some [(u ''f'', 2)]"
  "drop_dot_slash (u ''f'') = u ''f''"
  by (simp_all add: single_file_of_def ex_words drop_dot_slash_def plain_lines_def line_break_def chomp_def ustrip_def usp_def
      displayed_anchor_lines_def line_anchor_def anchor_of_line_def path_and_line_def line_number_def is_udigit_def
      ex_unicode_def letter_def List.map_filter_def)

text \<open>A session over given files in which the search displays, and reports, line 2 of a file.\<close>

definition ex_session :: "fs \<Rightarrow> unit session" where
  "ex_session s = \<lparr>
     se_run = (\<lambda>cmd timeout w. (Inr (u ''2:x'', [], 0, False), w)),
     se_files = (\<lambda>_. s),
     se_json = (\<lambda>_. MatchEvent (Some (u ''f'')) 2)\<rparr>"

lemma ex_harvest:
  assumes "read_specific_lines ex_latin1 s (u ''f'') [2] (sh_max_file_bytes sh) = Inr [(2, x)]"
  shows "harvest_matches ex_latin1 ex_paths ex_unicode (ex_session s) sh ex_command (u ''2:x'') () =
    (Inr (Some [\<lparr>m_path = u ''f'', m_resolved_path = u ''f'', m_start = 2, m_end = 2, m_text = x\<rparr>]), ())"
proof -
  have r: "resolve_path ex_paths sh p = p" for p by (simp add: resolve_path_def ex_paths_def)
  have se: "se_run (ex_session s) cmd t w = (Inr (u ''2:x'', [], 0, False), w)"
      "se_files (ex_session s) w = s" "se_json (ex_session s) l = MatchEvent (Some (u ''f'')) 2" for cmd t w l
    by (simp_all add: ex_session_def)
  have nm: "new_match ex_paths p i j t q = Inr \<lparr>m_path = p, m_resolved_path = q, m_start = i, m_end = j, m_text = t\<rparr>" for p i j t q
    by (simp add: new_match_def ex_paths_def)
  have an: "rg_anchors (se_json (ex_session s)) [] (plain_lines (u ''2:x'')) = Inr (Some [(u ''f'', 2)])"
    by (simp add: ex_displayed se)
  have w: "wanted_lines [(u ''f'', 2)] = [(u ''f'', [2])]" by (simp add: wanted_lines_def add_wanted_def)
  show ?thesis
    using assms
    by (simp add: harvest_matches_def Let_def ex_last_command ex_no_xargs ex_no_tail ex_parse se an ex_displayed reconcile_def w r nm)
qed

lemma ex_run:
  assumes "read_specific_lines ex_latin1 s (u ''f'') [2] (sh_max_file_bytes sh) = Inr [(2, x)]"
  shows "\<exists>r sh'. shell_run ex_latin1 ex_paths ex_unicode (ex_session s) 30 sh ex_command None None None ()
      = (Inr r, sh', ()) \<and> sr_stdout r = u ''2:x'' \<and>
    sr_matches r = Some [\<lparr>m_path = u ''f'', m_resolved_path = u ''f'', m_start = 2, m_end = 2, m_text = x\<rparr>]"
proof -
  have se: "se_run (ex_session s) cmd t w = (Inr (u ''2:x'', [], 0, False), w)" for cmd t w
    by (simp add: ex_session_def)
  have h: "harvest_matches ex_latin1 ex_paths ex_unicode (ex_session s) (sh\<lparr>sh_cwd := d\<rparr>) ex_command (u ''2:x'') () =
    (Inr (Some [\<lparr>m_path = u ''f'', m_resolved_path = u ''f'', m_start = 2, m_end = 2, m_text = x\<rparr>]), ())" for d
    using assms by (intro ex_harvest) simp
  show ?thesis
    by (simp add: shell_run_def Let_def with_stdin_def in_directory_def se ex_pure h ex_displayed)
qed

lemma ex_line_two: "read_specific_lines ex_latin1 ex_fs (u ''f'') [2] (sh_max_file_bytes ex_shell) = Inr [(2, [98, 10])]"
  by (simp add: read_specific_lines_def iter_lines_keepends_def open_text_def ex_fs_def ex_latin1_def ex_shell_def
      lines_loop.simps read_chars_def CHUNK_CHARS_def line_break_def)

theorem run_matches_fit_their_files_witness:
  "\<exists>r sh' ms. shell_run ex_latin1 ex_paths ex_unicode (ex_session ex_fs) 30 ex_shell ex_command None None None () = (Inr r, sh', ()) \<and>
    sr_matches r = Some ms \<and> list_all (\<lambda>m. m_end m = m_start m) ms \<and> ms \<noteq> []"
proof -
  from ex_run [OF ex_line_two] obtain r sh' where
      r: "shell_run ex_latin1 ex_paths ex_unicode (ex_session ex_fs) 30 ex_shell ex_command None None None () = (Inr r, sh', ())"
      "sr_matches r = Some [\<lparr>m_path = u ''f'', m_resolved_path = u ''f'', m_start = 2, m_end = 2, m_text = [98, 10]\<rparr>]"
    by blast
  from run_matches_fit_their_files [OF r ex_paths_ok] r show ?thesis by auto
qed

text \<open>A command line that is built from quoted words and spaces is split into those words again, whatever
  the words contain; so the pattern of a search reaches ripgrep as it was given.\<close>

theorem quoted_words_split_again: "shlex_split (join_sp (map shlex_quote args)) = Inr args"
  by (simp add: shlex_split_def lex_words)

section \<open>Where the harvest departs from its promise\<close>

text \<open>The lines of the file are those of \<^verbatim>\<open>splitlines\<close>, the line numbers those of grep, which counts line feeds. After a
  form feed the match that is attached is another line than the one displayed.\<close>

definition ex_form_feed_fs :: fs where
  "ex_form_feed_fs = \<lparr>fs_node = [u ''f'' \<mapsto> File \<lparr>f_data = [97, 12, 98, 10, 120, 10], f_stat_size = 6, f_writable = True\<rparr>],
            fs_create_error = (\<lambda>_. None),
            fs_mkdir_error = (\<lambda>_. None), fs_write_cut = (\<lambda>_ _. None)\<rparr>"

theorem anchor_of_another_line:
  "\<exists>r sh'. shell_run ex_latin1 ex_paths ex_unicode (ex_session ex_form_feed_fs) 30 ex_shell ex_command None None None ()
      = (Inr r, sh', ()) \<and> sr_stdout r = u ''2:x'' \<and>
    sr_matches r = Some [\<lparr>m_path = u ''f'', m_resolved_path = u ''f'', m_start = 2, m_end = 2, m_text = [98, 10]\<rparr>]"
proof -
  have "read_specific_lines ex_latin1 ex_form_feed_fs (u ''f'') [2] (sh_max_file_bytes ex_shell) = Inr [(2, [98, 10])]"
    by (simp add: read_specific_lines_def iter_lines_keepends_def open_text_def ex_form_feed_fs_def ex_latin1_def ex_shell_def
        lines_loop.simps read_chars_def CHUNK_CHARS_def line_break_def)
  then show ?thesis by (rule ex_run)
qed

text \<open>A path that ripgrep can only give as bytes makes the harvest raise instead of giving up.\<close>

theorem bytes_path_raises:
  assumes "ustrip raw \<noteq> []" and "json (ustrip raw) = MatchEvent None n"
  shows "rg_anchors json anchors (raw # raws) = Inl KeyError"
  using assms by (simp add: Let_def)

text \<open>A slice whose bounds are swapped has text, by the rules of negative indices, although its range is empty.\<close>

theorem swapped_slice_has_text:
  "match_getitem ex_paths \<lparr>m_path = p, m_resolved_path = p, m_start = 4, m_end = 6, m_text = [97, 10, 98, 10, 99, 10]\<rparr>
     (Slice (Some 4) (Some 2)) =
   Inr \<lparr>m_path = p, m_resolved_path = p, m_start = 4, m_end = 2, m_text = [97, 10, 98, 10]\<rparr>"
  by (simp add: match_getitem_def new_match_def ex_paths_def line_break_def py_slice_def py_idx_def Let_def)

end
