(* ===== verification/Summarization.thy ===== *)
theory Summarization
  imports Complex_Main Event_Manager
begin

text \<open>
  Background summaries of the history: \<^verbatim>\<open>src/nooa/agents/summarization.py\<close> with the limits of
  \<^verbatim>\<open>src/nooa/unifiedllm/limits.py\<close> and the settings of \<^verbatim>\<open>src/nooa/config/summarizer_config.py\<close>.

  \<^item> The state of a summarizer is the record \<open>summ\<close>; its subscriptions are entries of the event manager's
    tables. Asynchronous tasks are numbered, and the state of each is part of the system \<open>sys\<close>.
  \<^item> A coroutine is cut at its \<^verbatim>\<open>await\<close>s: \<open>fork_select\<close> runs before the parent's call, \<open>fork_decide\<close> after it,
    \<open>fork_finish\<close> when the fork's answer arrives, \<open>aclose_begin\<close> and \<open>aclose_end\<close> around the wait of \<^verbatim>\<open>aclose\<close>.
    The relation \<open>sum_step\<close> interleaves them with anything the host does to the history.
  \<^item> The model, the middleware of others, \<^verbatim>\<open>json.loads\<close>, the counter of tokens and the product of an
    integer and a float are parameters. Copies of request containers are values here, so what the source says of
    sharing between the request and its copy is not modelled.
  \<^item> Lemmas: whatever is interleaved, a summary replaces exactly the events that a request has shown to the model;
    a fork sends the parent's request and nothing of what middleware made of it.
\<close>

section \<open>Limits and settings\<close>

record budget_config =
  tb_max_tokens :: int
  tb_preserve_recent :: int
  tb_target_chars :: int

definition default_budget_config :: budget_config where
  "default_budget_config = \<lparr>tb_max_tokens = 100000, tb_preserve_recent = 10, tb_target_chars = 1000\<rparr>"

record method_config =
  mc_min_events :: int
  mc_exclude_root :: bool
  mc_target_chars :: int

definition default_method_config :: method_config where
  "default_method_config = \<lparr>mc_min_events = 3, mc_exclude_root = True, mc_target_chars = 1000\<rparr>"

text \<open>Values of request parameters and of attributes, as far as the limits look at them.\<close>

datatype 'p param = P_none | P_int int | P_other 'p
datatype attr_value = A_missing | A_int int | A_other bool   \<comment> \<open>its truth value\<close>

type_synonym 'p params = "(string, 'p param) dict"

text \<open>\<open>lim_reserved\<close> is \<open>None\<close> for a reply cap that is not a number.\<close>

record limits =
  lim_window :: "int option"
  lim_reserved :: "int option"
  lim_fallback :: bool

definition make_limits :: "int option \<Rightarrow> int option \<Rightarrow> bool \<Rightarrow> limits py_res" where
  "make_limits w r fb =
     (let l = \<lparr>lim_window = w, lim_reserved = r, lim_fallback = fb\<rparr> in
      if fb then Inr l
      else case w of None \<Rightarrow> Inr l
           | Some n \<Rightarrow> (case r of None \<Rightarrow> Inl TypeError
                       | Some k \<Rightarrow> if k \<ge> n then Inl ValueError else Inr l))"

definition usable_input_tokens :: "limits \<Rightarrow> int option py_res" where
  "usable_input_tokens l =
     (case lim_window l of None \<Rightarrow> Inr None
      | Some n \<Rightarrow> (case lim_reserved l of None \<Rightarrow> Inl TypeError | Some k \<Rightarrow> Inr (Some (max 1 (n - k)))))"

record 'p client =
  cl_id :: nat
  cl_resolver :: "('p params \<Rightarrow> int \<Rightarrow> limits py_res) option"
  cl_context_window :: attr_value
  cl_context_limit :: attr_value

fun truthy_attr :: "attr_value \<Rightarrow> bool" where
  "truthy_attr A_missing = False"
| "truthy_attr (A_int n) = (n \<noteq> 0)"
| "truthy_attr (A_other b) = b"

text \<open>The keys of a reply cap are a set: \<open>ks\<close> is the order in which it is walked.\<close>

definition reply_cap_keys :: "string set" where
  "reply_cap_keys = {''max_tokens'', ''max_completion_tokens'', ''max_output_tokens''}"

fun first_cap :: "string list \<Rightarrow> 'p params \<Rightarrow> 'p param" where
  "first_cap [] ps = P_none"
| "first_cap (k # ks) ps =
     (case dict_get ps k of Some (P_int n) \<Rightarrow> P_int n | Some (P_other x) \<Rightarrow> P_other x | _ \<Rightarrow> first_cap ks ps)"

definition context_limits_for :: "string list \<Rightarrow> 'p client \<Rightarrow> 'p params \<Rightarrow> int \<Rightarrow> limits py_res" where
  "context_limits_for ks c ps fallback =
     (case cl_resolver c of
        Some f \<Rightarrow> f ps fallback
      | None \<Rightarrow>
          let a = (if truthy_attr (cl_context_window c) then cl_context_window c else cl_context_limit c);
              w = (case a of A_int n \<Rightarrow> if n \<le> 0 then None else Some n | _ \<Rightarrow> None)
          in case first_cap ks ps of
               P_none \<Rightarrow> make_limits w (Some fallback) True
             | P_int n \<Rightarrow> make_limits w (Some n) False
             | P_other _ \<Rightarrow> make_limits w None False)"

text \<open>\<open>scaled n p\<close> is \<^verbatim>\<open>int(n * p)\<close> with the rounding of floats.\<close>

definition context_budget ::
    "(int \<Rightarrow> rat \<Rightarrow> int) \<Rightarrow> string list \<Rightarrow> 'p client \<Rightarrow> rat \<Rightarrow> int option \<Rightarrow> 'p params \<Rightarrow> int \<Rightarrow> int option py_res" where
  "context_budget scaled ks c percent fallback ps reserve =
     (if percent \<le> 0 then Inl ValueError
      else py_bind (context_limits_for ks c ps reserve) (\<lambda>l.
           py_bind (usable_input_tokens l) (\<lambda>u.
             Inr (case u of Some n \<Rightarrow> Some (max 1 (scaled n percent)) | None \<Rightarrow> fallback))))"

section \<open>Requests and responses\<close>

text \<open>The value under \<^verbatim>\<open>result\<close>, or the content of a response: a text, \<^verbatim>\<open>None\<close> or something else.\<close>

datatype answer = Ans_text string | Ans_none | Ans_other
datatype json_doc = J_object "(string, answer) dict" | J_other

record tool_call =
  tc_name :: string
  tc_arguments :: string

record llm_response =
  r_content :: answer
  r_tool_calls :: "tool_call list"
  r_finish_reason :: string
  r_input_tokens :: "int option"   \<comment> \<open>\<^verbatim>\<open>None\<close> if no usage is reported\<close>

datatype 'm message = Parent_msg 'm | User_msg string

record ('m, 'p) llm_call =
  c_messages :: "'m message list"
  c_params :: "'p params"
  c_client :: "'p client option"
  c_filtered :: bool
  c_response :: "llm_response option"

definition instruction :: "tag \<Rightarrow> tag \<Rightarrow> int \<Rightarrow> string" where
  "instruction a z n =
     ''Background memory compaction: summarize only events '' @ a @ '' through '' @ z @
     '' in approximately '' @ int_str n @ '' characters. Other events are context only. Preserve decisions, exact numbers, outcomes, files, failed approaches and pending work. Distinguish completed work from proposals. For this request only, produce a memory summary rather than continuing the original task. Respond directly with the summary as text. Do not call python_cell, execute_python, return_result, or any other tool; do not write code to produce the summary. Earlier execution instructions are historical context for this isolated summary turn.''"

section \<open>The base class\<close>

text \<open>
  The ends of a range are optional, since \<^verbatim>\<open>MethodSummarizer\<close> may put \<^verbatim>\<open>None\<close> there. The three subscriptions
  are the numbers of the callbacks while they can be revoked.
\<close>

record summ =
  s_task :: "nat option"
  s_range :: "(tag option \<times> tag option) option"
  s_summary :: "string option"
  s_unsub_before :: "nat option"
  s_unsub_after :: "nat option"
  s_unsub_close :: "nat option"

type_synonym source = "(tag \<times> string) list"

fun range_walk :: "(tag \<Rightarrow> event py_res) \<Rightarrow> tag option \<Rightarrow> tag option \<Rightarrow> bool \<Rightarrow> tag list \<Rightarrow> (tag \<times> event) list py_res" where
  "range_walk look a z inr [] = Inr []"
| "range_walk look a z inr (t # ts) =
     (let inr' = (inr \<or> a = Some t) in
      py_bind (if inr' then py_bind (look t) (\<lambda>e. Inr [(t, e)]) else Inr []) (\<lambda>here.
      if z = Some t then Inr here
      else py_bind (range_walk look a z inr' ts) (\<lambda>rest. Inr (here @ rest))))"

definition events_in_range :: "'b backend_ops \<Rightarrow> 'b em \<Rightarrow> tag option \<times> tag option \<Rightarrow> (tag \<times> event) list py_res" where
  "events_in_range ops m r = range_walk (\<lambda>t. em_getitem ops t m) (fst r) (snd r) False (em_keys ops m)"

text \<open>\<^verbatim>\<open>_apply_pending_summary\<close> of the base class; an error of \<^verbatim>\<open>collapse\<close> is logged and dropped.\<close>

definition base_apply ::
    "'b backend_ops \<Rightarrow> handler_effect \<Rightarrow> string \<Rightarrow> (nat \<Rightarrow> bool) \<Rightarrow> 's summ_scheme \<Rightarrow> 'b em \<Rightarrow> 's summ_scheme \<times> 'b em" where
  "base_apply ops beh uid fin s m =
     (case s_task s of
        None \<Rightarrow> (s, m)
      | Some i \<Rightarrow>
          if \<not> fin i then (s, m)
          else
            (s\<lparr>s_task := None, s_range := None, s_summary := None\<rparr>,
             case (s_summary s, s_range s) of
               (Some text, Some (Some a, Some z)) \<Rightarrow> snd (snd (em_collapse ops beh uid a z (Some text) m))
             | _ \<Rightarrow> m))"

definition base_uninstall :: "'s summ_scheme \<Rightarrow> 'b em \<Rightarrow> 's summ_scheme \<times> 'b em" where
  "base_uninstall s m =
     (let m1 = (case s_unsub_close s of None \<Rightarrow> m | Some h \<Rightarrow> em_off_close h m);
          m2 = (case s_unsub_before s of None \<Rightarrow> m1 | Some h \<Rightarrow> em_unsubscribe ''BeforeTurn'' h m1);
          m3 = (case s_unsub_after s of None \<Rightarrow> m2 | Some h \<Rightarrow> em_unsubscribe ''AfterTurn'' h m2)
      in (s\<lparr>s_unsub_close := None, s_unsub_before := None, s_unsub_after := None\<rparr>, m3))"

text \<open>The end of \<^verbatim>\<open>_uninstall\<close>: the task to cancel, if it is still running.\<close>

definition cancel_pending :: "(nat \<Rightarrow> bool) \<Rightarrow> 's summ_scheme \<Rightarrow> 's summ_scheme \<times> nat option" where
  "cancel_pending fin s =
     (case s_task s of
        Some i \<Rightarrow> if fin i then (s, None) else (s\<lparr>s_task := None\<rparr>, Some i)
      | None \<Rightarrow> (s, None))"

text \<open>\<^verbatim>\<open>aclose\<close> after its wait.\<close>

definition aclose_end :: "'s summ_scheme \<Rightarrow> 's summ_scheme" where
  "aclose_end s = s\<lparr>s_task := None, s_range := None, s_summary := None\<rparr>"

section \<open>Summaries within a token budget\<close>

record tb = summ +
  t_config :: budget_config
  t_unsub_llm :: "nat option"
  t_source :: "source option"
  t_warned :: bool
  t_failed :: nat
  t_auto :: bool
  t_auto_percent :: rat

text \<open>\<^verbatim>\<open>_install\<close> with the callbacks \<open>hb\<close>, \<open>hm\<close> and \<open>hc\<close>; \<open>agent_query\<close>: the agent has a query of its own.\<close>

definition tb_install :: "nat \<Rightarrow> nat \<Rightarrow> nat \<Rightarrow> bool \<Rightarrow> tb \<Rightarrow> 'b em \<Rightarrow> (tb \<times> 'b em) py_res" where
  "tb_install hb hm hc agent_query s m =
     py_bind (em_on ''BeforeTurn'' hb m) (\<lambda>m1.
     py_bind (em_intercept ''llm_call'' hm m1) (\<lambda>m2.
       Inr (s\<lparr>s_unsub_before := Some hb, t_unsub_llm := Some hm, s_unsub_close := Some hc,
              t_warned := (t_warned s \<or> agent_query \<or> em_event_query m2 \<noteq> None)\<rparr>, em_on_close hc m2)))"

definition em_unintercept :: "string \<Rightarrow> nat \<Rightarrow> 'b em \<Rightarrow> 'b em" where
  "em_unintercept kind h m =
     (case dict_get (em_middleware m) kind of
        None \<Rightarrow> m | Some l \<Rightarrow> m\<lparr>em_middleware := dict_set kind (remove1 h l) (em_middleware m)\<rparr>)"

definition drop_interceptor :: "tb \<Rightarrow> 'b em \<Rightarrow> tb \<times> 'b em" where
  "drop_interceptor s m =
     (case t_unsub_llm s of None \<Rightarrow> (s, m) | Some h \<Rightarrow> (s\<lparr>t_unsub_llm := None\<rparr>, em_unintercept ''llm_call'' h m))"

definition tb_aclose_begin :: "(nat \<Rightarrow> bool) \<Rightarrow> tb \<Rightarrow> 'b em \<Rightarrow> tb \<times> 'b em \<times> nat option" where
  "tb_aclose_begin fin s m =
     (let (s1, m1) = drop_interceptor s m; (s2, m2) = base_uninstall s1 m1; (s3, c) = cancel_pending fin s2
      in (s3, m2, c))"

text \<open>\<^verbatim>\<open>_fork_after_call\<close> up to the parent's call: what it selects, or nothing if it passes the call through.\<close>

definition selected_tags :: "budget_config \<Rightarrow> 'a list \<Rightarrow> 'a list" where
  "selected_tags cfg ts = (if tb_preserve_recent cfg \<noteq> 0 then slice_to ts (- tb_preserve_recent cfg) else ts)"

definition fork_select :: "'b backend_ops \<Rightarrow> bool \<Rightarrow> tb \<Rightarrow> 'b em \<Rightarrow> source option py_res" where
  "fork_select ops in_fork s m =
     (if in_fork \<or> s_task s \<noteq> None then Inr None
      else py_bind (py_mapM (\<lambda>t. py_bind (em_getitem ops t m) (\<lambda>e. Inr (t, ev_id e)))
             (selected_tags (t_config s) (em_keys ops m))) (\<lambda>src. Inr (Some src)))"

definition over_budget :: "tb \<Rightarrow> ('m, 'p) llm_call \<Rightarrow> bool" where
  "over_budget s ctx =
     (case c_response ctx of None \<Rightarrow> False
      | Some r \<Rightarrow> (case r_input_tokens r of None \<Rightarrow> False | Some n \<Rightarrow> n > tb_max_tokens (t_config s)))"

text \<open>The request of the fork.\<close>

definition fork_of :: "tb \<Rightarrow> source \<Rightarrow> ('m, 'p) llm_call \<Rightarrow> ('m, 'p) llm_call" where
  "fork_of s src ctx =
     ctx\<lparr>c_messages := c_messages ctx @
           [User_msg (instruction (fst (hd src)) (fst (last src)) (tb_target_chars (t_config s)))],
         c_params := (if dict_has (c_params ctx) ''output_model'' then c_params ctx
                      else dict_set ''output_model'' P_none (c_params ctx)),
         c_response := None\<rparr>"

text \<open>
  \<^verbatim>\<open>_fork_after_call\<close> from the parent's answer to the wait for the fork: the new state and the fork, if one starts
  as task \<open>i\<close>. \<open>budget\<close> is the automatic budget; \<open>copyable\<close> says whether the containers can be copied.
\<close>

definition fork_decide ::
    "('p client \<Rightarrow> rat \<Rightarrow> 'p params \<Rightarrow> int py_res) \<Rightarrow> bool \<Rightarrow> nat \<Rightarrow> source \<Rightarrow> ('m, 'p) llm_call \<Rightarrow> tb \<Rightarrow>
     (tb \<times> ('m, 'p) llm_call option) py_res" where
  "fork_decide budget copyable i src ctx s =
     py_bind (case c_client ctx of
                Some c \<Rightarrow>
                  if t_auto s
                  then py_bind (budget c (t_auto_percent s) (c_params ctx))
                         (\<lambda>b. Inr (s\<lparr>t_config := (t_config s)\<lparr>tb_max_tokens := b\<rparr>\<rparr>))
                  else Inr s
              | None \<Rightarrow> Inr s) (\<lambda>s1.
     if s_task s1 \<noteq> None \<or> src = [] \<or> \<not> over_budget s1 ctx then Inr (s1, None)
     else if c_filtered ctx then Inr (s1\<lparr>t_warned := True\<rparr>, None)
     else if c_client ctx = None then Inr (s1, None)
     else if \<not> copyable then Inr (s1, None)
     else Inr (s1\<lparr>t_source := Some src, s_range := Some (Some (fst (hd src)), Some (fst (last src))), s_task := Some i\<rparr>,
               Some (fork_of s1 src ctx)))"

text \<open>\<^verbatim>\<open>_run_fork\<close>: middleware sees the request; what is sent is the snapshot.\<close>

definition run_fork ::
    "(nat \<Rightarrow> ('m, 'p) llm_call mw) \<Rightarrow> ('p client \<Rightarrow> 'm message list \<Rightarrow> 'p params \<Rightarrow> llm_response py_res) \<Rightarrow>
     ('m, 'p) llm_call \<Rightarrow> 'b em \<Rightarrow> ('m, 'p) llm_call option py_res" where
  "run_fork impl acall ctx m =
     run_middleware impl ''llm_call'' ctx
       (\<lambda>request. case c_client ctx of
          None \<Rightarrow> Inl AttributeError
        | Some c \<Rightarrow> py_bind (acall c (c_messages ctx) (c_params ctx)) (\<lambda>r. Inr (Some (request\<lparr>c_response := Some r\<rparr>)))) m"

definition answer_of :: "(string \<Rightarrow> json_doc py_res) \<Rightarrow> llm_response \<Rightarrow> answer py_res" where
  "answer_of loads r =
     (case r_tool_calls r of
        [] \<Rightarrow> Inr (r_content r)
      | [tc] \<Rightarrow>
          if tc_name tc \<noteq> ''return_result'' then Inl ValueError
          else py_bind (loads (tc_arguments tc)) (\<lambda>d. case d of
                 J_object kv \<Rightarrow> Inr (case dict_get kv ''result'' of None \<Rightarrow> Ans_none | Some a \<Rightarrow> a)
               | J_other \<Rightarrow> Inl AttributeError)
      | _ \<Rightarrow> Inl ValueError)"

definition usable_text :: "(string \<Rightarrow> json_doc py_res) \<Rightarrow> ('m, 'p) llm_call option py_res \<Rightarrow> string py_res" where
  "usable_text loads res =
     py_bind res (\<lambda>c. case c of None \<Rightarrow> Inl AttributeError | Some ctx \<Rightarrow>
       (case c_response ctx of None \<Rightarrow> Inl ValueError | Some r \<Rightarrow>
          py_bind (answer_of loads r) (\<lambda>a. case a of
            Ans_text t \<Rightarrow> if strip t = [] then Inl ValueError
                          else if r_finish_reason r \<in> {''length'', ''error''} then Inl ValueError
                          else Inr t
          | _ \<Rightarrow> Inl ValueError)))"

definition fork_finish ::
    "(string \<Rightarrow> json_doc py_res) \<Rightarrow> ('m, 'p) llm_call option py_res \<Rightarrow> tb \<Rightarrow> 'b em \<Rightarrow> tb \<times> 'b em" where
  "fork_finish loads res s m =
     (case usable_text loads res of
        Inr text \<Rightarrow> (s\<lparr>s_summary := Some text, t_failed := 0\<rparr>, m)
      | Inl _ \<Rightarrow>
          let s1 = s\<lparr>s_summary := None, t_failed := Suc (t_failed s)\<rparr> in
          if t_failed s1 \<ge> 2 then drop_interceptor s1 m else (s1, m))"

text \<open>\<^verbatim>\<open>_handle_before_turn\<close>; an error of the range's walk leaves the handler, and the emitter drops it.\<close>

definition tb_before_turn ::
    "'b backend_ops \<Rightarrow> handler_effect \<Rightarrow> string \<Rightarrow> (nat \<Rightarrow> bool) \<Rightarrow> tb \<Rightarrow> 'b em \<Rightarrow> tb \<times> 'b em" where
  "tb_before_turn ops beh uid fin s m =
     (case s_task s of
        Some i \<Rightarrow>
          if fin i then
            (case (case (t_source s, s_range s) of
                     (Some src, Some r) \<Rightarrow>
                       if src \<noteq> []
                       then py_bind (events_in_range ops m r)
                              (\<lambda>cur. Inr (if map (\<lambda>(t, e). (t, ev_id e)) cur \<noteq> src then s\<lparr>s_summary := None\<rparr> else s))
                       else Inr s
                   | _ \<Rightarrow> Inr s) of
               Inl _ \<Rightarrow> (s, m)
             | Inr s1 \<Rightarrow> base_apply ops beh uid fin (s1\<lparr>t_source := None\<rparr>) m)
          else base_apply ops beh uid fin s m
      | None \<Rightarrow> base_apply ops beh uid fin s m)"

section \<open>Summaries after a method\<close>

record after_turn =
  at_turn_number :: int
  at_is_final :: bool
  at_metadata :: "(string, py_val) dict"

record ms = summ +
  m_config :: method_config

definition ms_install :: "nat \<Rightarrow> nat \<Rightarrow> nat \<Rightarrow> ms \<Rightarrow> 'b em \<Rightarrow> (ms \<times> 'b em) py_res" where
  "ms_install hb ha hc s m =
     py_bind (em_on ''BeforeTurn'' hb m) (\<lambda>m1.
     py_bind (em_on ''AfterTurn'' ha m1) (\<lambda>m2.
       Inr (s\<lparr>s_unsub_before := Some hb, s_unsub_after := Some ha, s_unsub_close := Some hc\<rparr>, em_on_close hc m2)))"

definition is_root_call :: "after_turn \<Rightarrow> bool" where
  "is_root_call e = (at_turn_number e = 1 \<and> at_is_final e)"

definition should_summarize :: "method_config \<Rightarrow> after_turn \<Rightarrow> bool" where
  "should_summarize cfg e =
     (if \<not> at_is_final e then False else if mc_exclude_root cfg \<and> is_root_call e then False else True)"

definition compute_range ::
    "'b backend_ops \<Rightarrow> method_config \<Rightarrow> after_turn \<Rightarrow> 'b em \<Rightarrow> (tag option \<times> tag option) option py_res" where
  "compute_range ops cfg e m =
     (case dict_get (at_metadata e) ''call_id'' of
        None \<Rightarrow> Inr None
      | Some VNone \<Rightarrow> Inr None
      | Some c \<Rightarrow>
          py_bind (py_mapM (\<lambda>t. py_bind (em_getitem ops t m) (\<lambda>ev. Inr (t, ev))) (em_keys ops m)) (\<lambda>tes.
            let hits = map fst (filter (\<lambda>(t, ev). dict_get (ev_metadata ev) ''call_id'' = Some c) tes)
            in if int (length hits) < mc_min_events cfg then Inr None
               else if hits = [] then Inr (Some (None, None))
               else Inr (Some (Some (hd hits), Some (last hits)))))"

text \<open>\<^verbatim>\<open>_handle_after_turn\<close>; \<open>e\<close> is \<open>None\<close> for an event of another class. The range starts as task \<open>i\<close>.\<close>

definition ms_after_turn ::
    "'b backend_ops \<Rightarrow> nat \<Rightarrow> after_turn option \<Rightarrow> ms \<Rightarrow> 'b em \<Rightarrow> (ms \<times> (tag option \<times> tag option) option) py_res" where
  "ms_after_turn ops i e s m =
     (if s_task s \<noteq> None then Inr (s, None)
      else case e of
        None \<Rightarrow> Inr (s, None)
      | Some e \<Rightarrow>
          if should_summarize (m_config s) e then
            py_bind (compute_range ops (m_config s) e m) (\<lambda>r. case r of
              None \<Rightarrow> Inr (s, None)
            | Some r \<Rightarrow> Inr (s\<lparr>s_range := Some r, s_task := Some i\<rparr>, Some r))
          else Inr (s, None))"

text \<open>
  The text for the model: the newest parts within the budget, in chronological order. The parts come newest
  first; \<open>kept\<close> is what was kept so far. The second value tells whether the walk stopped early.
\<close>

fun keep_newest :: "(string \<Rightarrow> int) \<Rightarrow> int \<Rightarrow> int \<Rightarrow> string list \<Rightarrow> string list \<Rightarrow> string list \<times> bool" where
  "keep_newest count budget used kept [] = (kept, False)"
| "keep_newest count budget used kept (p # ps) =
     (let cost = count p + 4 in
      if used + cost > budget \<and> kept \<noteq> [] then (kept, True)
      else keep_newest count budget (used + cost) (p # kept) ps)"

definition omitted_marker :: "nat \<Rightarrow> string" where
  "omitted_marker n = ''[... '' @ int_str (int n) @
     '' older event(s) omitted to fit the summarizer's input budget; summarize what remains ...]''"

definition render_parts :: "int option \<Rightarrow> (string \<Rightarrow> int) \<Rightarrow> string list \<Rightarrow> string list" where
  "render_parts budget count rendered =
     (case budget of
        None \<Rightarrow> rendered
      | Some b \<Rightarrow>
          (case keep_newest count b 0 [] (rev rendered) of
             (kept, True) \<Rightarrow> omitted_marker (length rendered - length kept) # kept
           | (kept, False) \<Rightarrow> kept))"

definition render_range ::
    "'b backend_ops \<Rightarrow> (tag \<Rightarrow> event \<Rightarrow> string) \<Rightarrow> int option \<Rightarrow> (string \<Rightarrow> int) \<Rightarrow> 'b em \<Rightarrow>
     tag option \<times> tag option \<Rightarrow> string py_res" where
  "render_range ops show_event budget count m r =
     py_bind (events_in_range ops m r) (\<lambda>tes.
       Inr (str_join [CHR 0x0A, CHR 0x0A] (render_parts budget count (map (\<lambda>(t, e). show_event t e) tes))))"

text \<open>\<^verbatim>\<open>_run_summarization\<close>: the text goes to the model, any exception leaves no summary.\<close>

definition run_summarization ::
    "'b backend_ops \<Rightarrow> (tag \<Rightarrow> event \<Rightarrow> string) \<Rightarrow> int option \<Rightarrow> (string \<Rightarrow> int) \<Rightarrow> (string \<Rightarrow> int \<Rightarrow> string py_res) \<Rightarrow>
     'b em \<Rightarrow> tag option \<times> tag option \<Rightarrow> ms \<Rightarrow> ms" where
  "run_summarization ops show_event budget count summarize m r s =
     (case py_bind (render_range ops show_event budget count m r)
             (\<lambda>text. summarize text (mc_target_chars (m_config s))) of
        Inr t \<Rightarrow> s\<lparr>s_summary := Some t\<rparr> | Inl _ \<Rightarrow> s\<lparr>s_summary := None\<rparr>)"

section \<open>Runs\<close>

text \<open>
  \<open>y_calls\<close> holds what calls in flight have selected, \<open>y_tasks\<close> the forks by number, each with the events that it
  is to summarize, its request and, when it is over, the text that it got, if any. \<open>y_log\<close> keeps, for every call
  that the summarizer watched, the view at that moment and what was selected of it.
\<close>

datatype 'f fork_state = Fork_running source 'f | Fork_done source 'f "string option"

record ('b, 'm, 'p) sys =
  y_sum :: tb
  y_em :: "'b em"
  y_calls :: "source list"
  y_tasks :: "('m, 'p) llm_call fork_state list"
  y_log :: "(source \<times> source) list"

definition fork_over :: "('m, 'p) llm_call fork_state list \<Rightarrow> nat \<Rightarrow> bool" where
  "fork_over ts i = (i < length ts \<and> (case ts ! i of Fork_done _ _ _ \<Rightarrow> True | Fork_running _ _ \<Rightarrow> False))"

text \<open>The text that a fork leaves: none after an error.\<close>

definition fork_text :: "(string \<Rightarrow> json_doc py_res) \<Rightarrow> ('m, 'p) llm_call option py_res \<Rightarrow> string option" where
  "fork_text loads res = (case usable_text loads res of Inr text \<Rightarrow> Some text | Inl _ \<Rightarrow> None)"

text \<open>The tags of a view with the ids of their events.\<close>

definition view_ids :: "'b backend_ops \<Rightarrow> 'b em \<Rightarrow> source" where
  "view_ids ops m =
     map (\<lambda>t. (t, case em_getitem ops t m of Inr e \<Rightarrow> ev_id e | Inl _ \<Rightarrow> [])) (em_keys ops m)"

text \<open>
  One step. \<open>binv\<close> is the invariant of the backend that the host keeps; the answers \<open>ctx\<close> and \<open>res\<close>, the errors and
  the order of everything are arbitrary. A cancelled fork is one whose task ends without \<open>fork_finish\<close>.
\<close>

inductive sum_step ::
    "'b backend_ops \<Rightarrow> ('b \<Rightarrow> bool) \<Rightarrow> handler_effect \<Rightarrow> (string \<Rightarrow> json_doc py_res) \<Rightarrow>
     ('p client \<Rightarrow> rat \<Rightarrow> 'p params \<Rightarrow> int py_res) \<Rightarrow> ('b, 'm, 'p) sys \<Rightarrow> ('b, 'm, 'p) sys \<Rightarrow> bool"
  for ops binv beh loads budget where
  step_host: "em_ok ops binv m \<Longrightarrow> sum_step ops binv beh loads budget y (y\<lparr>y_em := m\<rparr>)"
| step_call:
    "t_unsub_llm (y_sum y) \<noteq> None \<Longrightarrow> fork_select ops in_fork (y_sum y) (y_em y) = Inr (Some src) \<Longrightarrow>
     sum_step ops binv beh loads budget y
       (y\<lparr>y_calls := src # y_calls y, y_log := (view_ids ops (y_em y), src) # y_log y\<rparr>)"
| step_answer:
    "src \<in> set (y_calls y) \<Longrightarrow>
     fork_decide budget copyable (length (y_tasks y)) src ctx (y_sum y) = Inr (s, f) \<Longrightarrow>
     sum_step ops binv beh loads budget y
       (y\<lparr>y_calls := remove1 src (y_calls y), y_sum := s,
          y_tasks := y_tasks y @ (case f of None \<Rightarrow> [] | Some r \<Rightarrow> [Fork_running src r])\<rparr>)"
| step_raise:
    "src \<in> set (y_calls y) \<Longrightarrow>
     sum_step ops binv beh loads budget y (y\<lparr>y_calls := remove1 src (y_calls y)\<rparr>)"
| step_finish:
    "i < length (y_tasks y) \<Longrightarrow> y_tasks y ! i = Fork_running src f \<Longrightarrow>
     fork_finish loads (res :: ('m, 'p) llm_call option py_res) (y_sum y) (y_em y) = (s, m) \<Longrightarrow>
     sum_step ops binv beh loads budget y
       (y\<lparr>y_sum := s, y_em := m, y_tasks := (y_tasks y)[i := Fork_done src f (fork_text loads res)]\<rparr>)"
| step_cancelled:
    "i < length (y_tasks y) \<Longrightarrow> y_tasks y ! i = Fork_running src f \<Longrightarrow>
     sum_step ops binv beh loads budget y (y\<lparr>y_tasks := (y_tasks y)[i := Fork_done src f None]\<rparr>)"
| step_turn:
    "s_unsub_before (y_sum y) \<noteq> None \<Longrightarrow>
     tb_before_turn ops beh uid (fork_over (y_tasks y)) (y_sum y) (y_em y) = (s, m) \<Longrightarrow>
     sum_step ops binv beh loads budget y (y\<lparr>y_sum := s, y_em := m\<rparr>)"
| step_close:
    "tb_aclose_begin (fork_over (y_tasks y)) (y_sum y) (y_em y) = (s, m, c) \<Longrightarrow>
     sum_step ops binv beh loads budget y (y\<lparr>y_sum := s, y_em := m\<rparr>)"
| step_closed:
    "s_unsub_before (y_sum y) = None \<Longrightarrow>
     sum_step ops binv beh loads budget y (y\<lparr>y_sum := aclose_end (y_sum y)\<rparr>)"

definition sum_reach where
  "sum_reach ops binv beh loads budget = (sum_step ops binv beh loads budget)\<^sup>*\<^sup>*"

text \<open>A summarizer just installed on a manager.\<close>

definition tb_fresh :: "budget_config \<Rightarrow> tb" where
  "tb_fresh cfg = \<lparr>s_task = None, s_range = None, s_summary = None, s_unsub_before = None, s_unsub_after = None,
     s_unsub_close = None, t_config = cfg, t_unsub_llm = None, t_source = None, t_warned = False, t_failed = 0,
     t_auto = False, t_auto_percent = 4 / 5\<rparr>"

definition sum_start :: "'b backend_ops \<Rightarrow> ('b \<Rightarrow> bool) \<Rightarrow> ('b, 'm, 'p) sys \<Rightarrow> bool" where
  "sum_start ops binv y = (em_ok ops binv (y_em y) \<and> y_calls y = [] \<and> y_tasks y = [] \<and> y_log y = [] \<and>
     (\<exists>cfg hb hm hc q m. tb_install hb hm hc q (tb_fresh cfg) m = Inr (y_sum y, y_em y)))"

section \<open>Blocks of a view\<close>

lemma view_ok_meets_block:
  assumes "view_ok (pre @ sel @ post)" and "sel \<noteq> []"
  shows "filter (meets (start_of (hd sel)) (end_of (last sel))) (pre @ sel @ post) = sel"
proof -
  note ok = assms(1) [unfolded view_ok_append]
  have le: "start_of t \<le> end_of t" if "t \<in> set (pre @ sel @ post)" for t
    using assms(1) that by (auto simp: view_ok_def list_all_iff tag_ok_def)
  have hd: "start_of (hd sel) \<le> start_of t" "end_of t \<le> end_of (last sel)" if "t \<in> set sel" for t
    using view_ok_Min_start [OF _ assms(2)] view_ok_Max_end [OF _ assms(2)] ok that
    by (metis List.finite_set Min_le Max_ge image_eqI list.set_map)+
  have out: "end_of t < start_of (hd sel)" if "t \<in> set pre" for t
    using ok assms(2) that by simp
  have out': "end_of (last sel) < start_of t" if "t \<in> set post" for t
    using ok assms(2) that by simp
  have "filter (meets (start_of (hd sel)) (end_of (last sel))) pre = []"
    by (auto simp: filter_empty_conv meets_def dest!: out)
  moreover have "filter (meets (start_of (hd sel)) (end_of (last sel))) post = []"
    by (auto simp: filter_empty_conv meets_def dest!: out')
  moreover have "filter (meets (start_of (hd sel)) (end_of (last sel))) sel = sel"
    using hd le by (fastforce simp: filter_id_conv meets_def)
  ultimately show ?thesis by simp
qed

text \<open>What a walk yields stands side by side in the view, and each event is the one under its tag.\<close>

lemma range_walk_in:
  "range_walk look a z True ts = Inr es \<Longrightarrow>
   \<exists>post. ts = map fst es @ post \<and> (\<forall>(t, e) \<in> set es. look t = Inr e)"
proof (induction ts arbitrary: es)
  case (Cons t ts)
  then show ?case
    by (fastforce simp: py_bind_Inr_iff split: if_splits)
qed simp

lemma range_walk_block:
  "range_walk look a z inr ts = Inr es \<Longrightarrow>
   \<exists>pre post. ts = pre @ map fst es @ post \<and> (\<forall>(t, e) \<in> set es. look t = Inr e)"
proof (induction ts arbitrary: inr es)
  case (Cons t ts)
  show ?case
  proof (cases "inr \<or> a = Some t")
    case True
    with Cons.prems have "range_walk look a z True (t # ts) = Inr es" by simp
    from range_walk_in [OF this] show ?thesis by (metis append_Nil)
  next
    case False
    show ?thesis
    proof (cases "z = Some t")
      case True
      then have "es = []" using Cons.prems False by (simp add: py_bind_Inr_iff)
      then show ?thesis by (intro exI [of _ "[]"] exI [of _ "t # ts"]) simp
    next
      case nz: False
      then have "range_walk look a z False ts = Inr es"
        using Cons.prems False by (simp add: py_bind_Inr_iff)
      from Cons.IH [OF this] show ?thesis by (metis append_Cons)
    qed
  qed
qed simp

text \<open>A walk from the first to the last tag of a block yields the block.\<close>

lemma range_walk_to_last:
  assumes "distinct (xs @ post)" and "xs \<noteq> []" and "\<forall>t \<in> set xs. look t = Inr (f t)"
  shows "range_walk look a (Some (last xs)) True (xs @ post) = Inr (map (\<lambda>t. (t, f t)) xs)"
  using assms
proof (induction xs)
  case (Cons x xs)
  show ?case
  proof (cases "xs = []")
    case False
    then have "last xs \<noteq> x" using Cons.prems by (auto dest: last_in_set)
    with Cons False show ?thesis by simp
  qed (use Cons.prems in simp)
qed simp

lemma range_walk_prefix:
  assumes "distinct (xs @ post)" and "xs \<noteq> []" and "\<forall>t \<in> set xs. look t = Inr (f t)"
  shows "range_walk look (Some (hd xs)) (Some (last xs)) False (xs @ post) = Inr (map (\<lambda>t. (t, f t)) xs)"
proof -
  obtain x ys where xs: "xs = x # ys" using assms(2) by (cases xs) auto
  have "range_walk look (Some (hd xs)) (Some (last xs)) False (xs @ post)
      = range_walk look (Some (hd xs)) (Some (last xs)) True (xs @ post)"
    by (simp add: xs)
  then show ?thesis using range_walk_to_last [OF assms] by simp
qed

section \<open>What a turn does to the history\<close>

text \<open>The block \<open>ts\<close> of the view gave way to a summary with this text; its events are archived.\<close>

definition replaced :: "'b backend_ops \<Rightarrow> string \<Rightarrow> string \<Rightarrow> tag list \<Rightarrow> 'b em \<Rightarrow> 'b em \<Rightarrow> bool" where
  "replaced ops uid text ts m m' \<longleftrightarrow>
     (let a = start_of (hd ts); z = end_of (last ts); st = range_tag a z in
      ts \<noteq> [] \<and>
      (\<exists>pre post. em_keys ops m = pre @ ts @ post \<and> em_keys ops m' = pre @ st # post) \<and>
      be_get ops st (em_backend m') = Some (make_summary uid st a z ts (Some text)) \<and>
      (\<forall>u. u \<noteq> st \<longrightarrow> be_get ops u (em_backend m') =
         (if u \<in> set ts then map_option (\<lambda>e. e\<lparr>ev_status := ARCHIVED\<rparr>) (be_get ops u (em_backend m))
          else be_get ops u (em_backend m))))"

lemma view_ids_tags: "map fst (view_ids ops m) = em_keys ops m"
  by (simp add: view_ids_def comp_def)

lemma tag_ok_parse:
  "tag_ok t \<Longrightarrow> parse_tag_start t = Inr (start_of t)" "tag_ok t \<Longrightarrow> parse_tag_end t = Inr (end_of t)"
  by (cases "parse_tag_start t"; cases "parse_tag_end t"; simp add: tag_ok_def start_of_def end_of_def)+

lemma block_position:
  "distinct (pre @ ts @ post) \<Longrightarrow> ts \<noteq> [] \<Longrightarrow> takeWhile (\<lambda>t. t \<noteq> hd ts) (pre @ ts @ post) = pre"
  by (cases ts) (auto simp: takeWhile_append)

lemma view_ids_cong: "em_backend m' = em_backend m \<Longrightarrow> view_ids ops m' = view_ids ops m"
  unfolding view_ids_def em_keys_def em_getitem_def em_get_def by (erule ssubst) (rule refl)

context event_backend begin

lemma ends_parse:
  assumes "em_ok ops inv m" and "t \<in> set (em_keys ops m)"
  shows "parse_tag_start t = Inr (start_of t)" and "parse_tag_end t = Inr (end_of t)"
  using assms by (auto simp: em_ok_def view_ok_def list_all_iff intro: tag_ok_parse)

lemma collapse_of_block:
  assumes ok: "em_ok ops inv m" and keys: "em_keys ops m = pre @ ts @ post" and ne: "ts \<noteq> []"
  shows "\<exists>fired m'. em_collapse ops beh uid (hd ts) (last ts) (Some text) m =
      (Inr (range_tag (start_of (hd ts)) (end_of (last ts))), fired, m') \<and>
      replaced ops uid text ts m m' \<and> em_ok ops inv m' \<and>
      em_keys ops m' = pre @ range_tag (start_of (hd ts)) (end_of (last ts)) # post"
proof -
  let ?a = "start_of (hd ts)" and ?z = "end_of (last ts)"
  have view: "view_ok (em_keys ops m)" using ok by (simp add: em_ok_def)
  have mem: "hd ts \<in> set (em_keys ops m)" "last ts \<in> set (em_keys ops m)" using ne by (simp_all add: keys)
  note parse = ends_parse(1) [OF ok mem(1)] ends_parse(2) [OF ok mem(2)]
  have all: "\<forall>t \<in> set (em_keys ops m). is_ok (parse_tag_start t) \<and> is_ok (parse_tag_end t)"
    using view by (auto simp: view_ok_def list_all_iff tag_ok_def)
  have sel: "filter (meets ?a ?z) (em_keys ops m) = ts"
    using view_ok_meets_block [OF view [unfolded keys] ne] by (simp add: keys)
  have "is_ok (fst (em_collapse ops beh uid (hd ts) (last ts) (Some text) m))"
    using collapse_select_total [OF all, of ?a ?z] parse ne
    by (simp add: em_collapse_def em_keys_def [symmetric] sel Let_def split: prod.splits)
  then obtain st fired m' where
    run: "em_collapse ops beh uid (hd ts) (last ts) (Some text) m = (Inr st, fired, m')"
    by (metis is_ok_simps(1) old.sum.exhaust prod.collapse)
  have inv: "inv (em_backend m)" using ok by (simp add: em_ok_def)
  have gst: "be_get ops st (em_backend m') = Some (make_summary uid st (Min (set (map start_of ts))) (Max (set (map end_of ts))) ts (Some text))"
    using collapse_success [OF inv view_ok_distinct [OF view] run] parse sel by auto
  from collapse_block [OF ok run] obtain pre' sel' post' where
    b: "sel' \<noteq> []" "em_keys ops m = pre' @ sel' @ post'" "em_keys ops m' = pre' @ st # post'"
      "st = range_tag (start_of (hd sel')) (end_of (last sel'))"
      "be_get ops st (em_backend m') =
        Some (make_summary uid st (start_of (hd sel')) (end_of (last sel')) sel' (Some text))"
      "\<forall>u. u \<noteq> st \<longrightarrow> be_get ops u (em_backend m') =
         (if u \<in> set sel' then map_option (\<lambda>e. e\<lparr>ev_status := ARCHIVED\<rparr>) (be_get ops u (em_backend m))
          else be_get ops u (em_backend m))"
    by blast
  have eq: "sel' = ts" using gst b(5) by (simp add: make_summary_def)
  have "pre' = pre \<and> post' = post"
    using block_position [of pre ts post] block_position [of pre' ts post'] view_ok_distinct [OF view] b(2) ne
    unfolding keys eq by (metis same_append_eq)
  then show ?thesis
    using run b collapse_ok [OF ok run] unfolding eq replaced_def Let_def by blast
qed

end

section \<open>The invariant of a run\<close>

definition shown :: "int \<Rightarrow> source \<Rightarrow> source \<Rightarrow> bool" where
  "shown p view src \<longleftrightarrow> src = (if p \<noteq> 0 then slice_to view (- p) else view)"

definition sum_inv :: "'b backend_ops \<Rightarrow> ('b \<Rightarrow> bool) \<Rightarrow> int \<Rightarrow> ('b, 'm, 'p) sys \<Rightarrow> bool" where
  "sum_inv ops binv p y \<longleftrightarrow>
     em_ok ops binv (y_em y) \<and> tb_preserve_recent (t_config (y_sum y)) = p \<and>
     (\<forall>r. s_range (y_sum y) = Some r \<longrightarrow>
        (\<exists>src. t_source (y_sum y) = Some src \<and> src \<noteq> [] \<and> r = (Some (fst (hd src)), Some (fst (last src))))) \<and>
     (\<forall>src. t_source (y_sum y) = Some src \<longrightarrow> src \<in> snd ` set (y_log y)) \<and>
     set (y_calls y) \<subseteq> snd ` set (y_log y) \<and> (\<forall>(view, src) \<in> set (y_log y). shown p view src)"

lemma slice_to_map: "slice_to (map f xs) i = map f (slice_to xs i)"
  by (simp add: slice_to_def take_map)

lemma fork_select_shown:
  assumes "fork_select ops in_fork s m = Inr (Some src)"
  shows "shown (tb_preserve_recent (t_config s)) (view_ids ops m) src \<and> s_task s = None"
proof -
  let ?f = "\<lambda>t. (t, case em_getitem ops t m of Inr e \<Rightarrow> ev_id e | Inl _ \<Rightarrow> [])"
  from assms have none: "\<not> (in_fork \<or> s_task s \<noteq> None)"
    by (auto simp: fork_select_def split: if_splits)
  with assms have "list_all2 (\<lambda>t p. py_bind (em_getitem ops t m) (\<lambda>e. Inr (t, ev_id e)) = Inr p)
      (selected_tags (t_config s) (em_keys ops m)) src"
    by (simp add: fork_select_def py_bind_Inr_iff py_mapM_Inr_iff)
  then have "src = map ?f (selected_tags (t_config s) (em_keys ops m))"
    by (induction rule: list_all2_induct) (auto simp: py_bind_Inr_iff)
  with none show ?thesis
    by (simp add: shown_def selected_tags_def view_ids_def slice_to_map)
qed

lemma drop_interceptor_keeps:
  assumes "drop_interceptor s m = (s', m')"
  shows "s_range s' = s_range s \<and> t_source s' = t_source s \<and> t_config s' = t_config s \<and> s_task s' = s_task s \<and>
    s_summary s' = s_summary s \<and> em_backend m' = em_backend m"
  using assms by (auto simp: drop_interceptor_def em_unintercept_def split: option.splits)

lemma base_uninstall_keeps:
  assumes "base_uninstall s m = (s', m')"
  shows "s_range s' = s_range s \<and> summ.more s' = summ.more s \<and> s_task s' = s_task s \<and>
    s_summary s' = s_summary s \<and> em_backend m' = em_backend m"
  using assms
  by (auto simp: base_uninstall_def Let_def em_off_close_def em_unsubscribe_def split: option.splits)

lemma tb_more_keeps:
  fixes s s' :: tb
  assumes "summ.more s' = summ.more s"
  shows "t_source s' = t_source s \<and> t_config s' = t_config s"
  using assms by (cases s; cases s') (simp add: tb.defs summ.defs)

lemma fork_finish_keeps:
  assumes "fork_finish loads res s m = (s', m')"
  shows "s_range s' = s_range s \<and> t_source s' = t_source s \<and> t_config s' = t_config s \<and> s_task s' = s_task s \<and>
    em_backend m' = em_backend m"
  using assms by (auto simp: fork_finish_def Let_def dest!: drop_interceptor_keeps split: sum.splits if_splits)

lemma fork_decide_cases:
  assumes "fork_decide budget copyable i src ctx s = Inr (s', f)"
  obtains (stay) "f = None" "s_range s' = s_range s" "t_source s' = t_source s"
      "tb_preserve_recent (t_config s') = tb_preserve_recent (t_config s)" "s_task s' = s_task s"
      "s_summary s' = s_summary s" "s_unsub_before s' = s_unsub_before s"
    | (fork) s1 where "f = Some (fork_of s1 src ctx)" "src \<noteq> []" "t_source s' = Some src" "s_task s = None"
      "s_range s' = Some (Some (fst (hd src)), Some (fst (last src)))" "s_task s' = Some i"
      "tb_preserve_recent (t_config s') = tb_preserve_recent (t_config s)"
      "t_config s1 = t_config s'" "over_budget s1 ctx" "\<not> c_filtered ctx"
      "s_summary s' = s_summary s" "s_unsub_before s' = s_unsub_before s"
  using assms
  by (auto simp: fork_decide_def py_bind_Inr_iff split: option.splits if_splits)

lemma walked_ids:
  assumes "events_in_range ops m r = Inr cur" and "map (\<lambda>(t, e). (t, ev_id e)) cur = src"
  shows "\<exists>pre post. view_ids ops m = pre @ src @ post"
proof -
  let ?f = "\<lambda>t. (t, case em_getitem ops t m of Inr e \<Rightarrow> ev_id e | Inl _ \<Rightarrow> [])"
  from range_walk_block [OF assms(1) [unfolded events_in_range_def]] obtain pre post where
    keys: "em_keys ops m = pre @ map fst cur @ post" and look: "\<forall>(t, e) \<in> set cur. em_getitem ops t m = Inr e"
    by blast
  have "map ?f (map fst cur) = src"
    using look unfolding assms(2) [symmetric] by (auto simp: comp_def)
  then show ?thesis
    by (intro exI [of _ "map ?f pre"] exI [of _ "map ?f post"]) (simp add: view_ids_def keys)
qed

text \<open>Every way a turn can go: nothing is pending, the fork is not over, or the pending state is settled.\<close>

definition settled :: "tb \<Rightarrow> tb" where
  "settled s = s\<lparr>s_task := None, s_range := None, s_summary := None, t_source := None\<rparr>"

context event_backend begin

lemma before_turn_cases:
  assumes ok: "em_ok ops inv m" and run: "tb_before_turn ops beh uid fin s m = (s', m')"
    and range: "\<forall>r. s_range s = Some r \<longrightarrow>
        (\<exists>src. t_source s = Some src \<and> src \<noteq> [] \<and> r = (Some (fst (hd src)), Some (fst (last src))))"
  obtains (none) "s' = s" "m' = m" | (dropped) i where "s' = settled s" "m' = m" "s_task s = Some i" "fin i"
    | (applied) i src words pre post where "s_task s = Some i" "fin i" "s' = settled s" "t_source s = Some src" "src \<noteq> []" "s_summary s = Some words"
      "view_ids ops m = pre @ src @ post" "replaced ops uid words (map fst src) m m'" "em_ok ops inv m'"
proof (cases "\<exists>i. s_task s = Some i \<and> fin i")
  case False
  then have "s' = s" "m' = m" using run by (auto simp: tb_before_turn_def base_apply_def split: option.splits if_splits)
  then show thesis by (rule none)
next
  case True
  then obtain i where i: "s_task s = Some i" "fin i" by blast
  show thesis
  proof (cases "s_range s")
    case None
    then have "s' = settled s" "m' = m"
      using run i by (auto simp: tb_before_turn_def base_apply_def settled_def split: option.splits)
    then show thesis using i by (rule dropped)
  next
    case (Some r)
    with range obtain src where src: "t_source s = Some src" "src \<noteq> []"
        and r: "r = (Some (fst (hd src)), Some (fst (last src)))" by blast
    show thesis
    proof (cases "events_in_range ops m r")
      case (Inl e)
      then show thesis using run i Some src none by (simp add: tb_before_turn_def)
    next
      case (Inr cur)
      show thesis
      proof (cases "map (\<lambda>(t, e). (t, ev_id e)) cur = src \<and> s_summary s \<noteq> None")
        case False
        then have "(s', m') = (settled s, m)"
          using run [symmetric] i Some src Inr
          by (cases "map (\<lambda>(t, e). (t, ev_id e)) cur = src")
             (simp_all add: tb_before_turn_def base_apply_def settled_def)
        then show thesis using dropped [of i] i by blast
      next
        case True
        then obtain words where words: "s_summary s = Some words" by blast
        from walked_ids [OF Inr] True obtain pre post where ids: "view_ids ops m = pre @ src @ post" by blast
        have keys: "em_keys ops m = map fst pre @ map fst src @ map fst post"
          using arg_cong [OF ids, of "map fst"] by (simp add: view_ids_tags)
        have ends: "hd (map fst src) = fst (hd src)" "last (map fst src) = fst (last src)"
          using src(2) by (simp_all add: hd_map last_map)
        from collapse_of_block [OF ok keys, of beh uid words] src(2) obtain fired m1 where
          c: "snd (snd (em_collapse ops beh uid (fst (hd src)) (fst (last src)) (Some words) m)) = m1"
            "replaced ops uid words (map fst src) m m1" "em_ok ops inv m1"
          unfolding ends by auto
        have "s' = settled s" "m' = m1"
          using run i Some src Inr True words c(1) r
          by (auto simp: tb_before_turn_def base_apply_def settled_def)
        with c show thesis using applied [of i src words pre post] i src words ids by blast
      qed
    qed
  qed
qed

end

lemma tb_aclose_begin_keeps:
  assumes "tb_aclose_begin fin s m = (s', m', c)"
  shows "s_range s' = s_range s \<and> t_source s' = t_source s \<and> t_config s' = t_config s \<and> em_backend m' = em_backend m \<and>
    s_unsub_before s' = None \<and> t_unsub_llm s' = None"
proof -
  obtain s1 m1 where 1: "drop_interceptor s m = (s1, m1)" by fastforce
  obtain s2 m2 where 2: "base_uninstall s1 m1 = (s2, m2)" by fastforce
  have e: "s' = fst (cancel_pending fin s2)" "m' = m2"
    using assms by (auto simp: tb_aclose_begin_def 1 2 split: prod.splits)
  have "t_unsub_llm s1 = None" using 1 by (auto simp: drop_interceptor_def split: option.splits)
  then have "t_unsub_llm s2 = None \<and> s_unsub_before s2 = None"
    using 2 by (auto simp: base_uninstall_def Let_def)
  then show ?thesis
    using drop_interceptor_keeps [OF 1] base_uninstall_keeps [OF 2] tb_more_keeps [of s2 s1] unfolding e
    by (auto simp: cancel_pending_def split: option.splits)
qed

lemma tb_install_fresh:
  assumes "tb_install hb hm hc q (tb_fresh cfg) m = Inr (s, m')"
  shows "s_range s = None \<and> t_source s = None \<and> s_task s = None \<and> s_summary s = None \<and> t_config s = cfg \<and> t_unsub_llm s = Some hm \<and>
    s_unsub_before s = Some hb \<and> \<not> t_auto s \<and> t_failed s = 0 \<and> em_backend m' = em_backend m"
  using assms
  by (auto simp: tb_install_def tb_fresh_def py_bind_Inr_iff em_on_close_def em_on_def em_intercept_def
      split: option.splits)

lemma sum_start_inv:
  assumes "sum_start ops binv y"
  shows "sum_inv ops binv (tb_preserve_recent (t_config (y_sum y))) y"
  using assms by (auto simp: sum_start_def sum_inv_def dest!: tb_install_fresh)

text \<open>
  While the summarizer is subscribed at most one fork is pending, and the text that waits is that fork's: none
  while it runs, and none left over from a fork before it.
\<close>

definition asks_for :: "source \<Rightarrow> ('m, 'p) llm_call \<Rightarrow> bool" where
  "asks_for src f = (\<exists>n. last (c_messages f) = User_msg (instruction (fst (hd src)) (fst (last src)) n))"

definition own_text :: "tb \<Rightarrow> ('m, 'p) llm_call fork_state list \<Rightarrow> bool" where
  "own_text s ts =
     ((\<forall>j < length ts. Some j \<noteq> s_task s \<longrightarrow> fork_over ts j) \<and>
      (case s_task s of
         None \<Rightarrow> s_summary s = None
       | Some i \<Rightarrow> i < length ts \<and>
           (case ts ! i of
              Fork_running src f \<Rightarrow> s_summary s = None \<and> t_source s = Some src \<and> asks_for src f
            | Fork_done src f r \<Rightarrow> s_summary s = r \<and> t_source s = Some src \<and> asks_for src f)))"

lemma fork_of_asks: "asks_for src (fork_of s src ctx)"
  by (auto simp: asks_for_def fork_of_def)

lemma own_text_over: "own_text s ts \<Longrightarrow> s_task s = Some i \<Longrightarrow> fork_over ts i \<Longrightarrow> own_text (settled s) ts"
  by (auto simp: own_text_def settled_def)

lemma own_text_started:
  assumes "own_text s ts" and "s_task s = None" and "s_task s' = Some (length ts)" and "s_summary s' = s_summary s"
    and "t_source s' = Some src" and "asks_for src f"
  shows "own_text s' (ts @ [Fork_running src f])"
proof -
  have "fork_over (ts @ [Fork_running src f]) j" if "j < length ts" for j
  proof -
    have "fork_over ts j" using assms(1,2) that by (simp add: own_text_def)
    then show ?thesis by (simp add: fork_over_def nth_append)
  qed
  then show ?thesis using assms by (auto simp: own_text_def less_Suc_eq)
qed

text \<open>A running fork is the pending one; it ends with its own text or with none.\<close>

lemma own_text_ended:
  assumes own: "own_text s ts" and i: "i < length ts" "ts ! i = Fork_running src f"
    and keep: "s_task s' = s_task s" "t_source s' = t_source s" and words: "s_summary s' = r"
  shows "own_text s' (ts[i := Fork_done src f r])"
proof -
  have "\<not> fork_over ts i" using i by (simp add: fork_over_def)
  then have t: "s_task s = Some i" using own i(1) by (auto simp: own_text_def)
  have "fork_over (ts[i := Fork_done src f r]) j" if "j < length ts" for j
  proof (cases "j = i")
    case False
    then have "fork_over ts j" using own that t by (simp add: own_text_def)
    then show ?thesis using False by (simp add: fork_over_def)
  qed (use i in \<open>simp add: fork_over_def\<close>)
  then show ?thesis using own t i keep words by (simp add: own_text_def)
qed

lemma own_text_same:
  "own_text s ts \<Longrightarrow> s_task s' = s_task s \<Longrightarrow> s_summary s' = s_summary s \<Longrightarrow> t_source s' = t_source s \<Longrightarrow> own_text s' ts"
  by (auto simp: own_text_def split: option.splits fork_state.splits)

context event_backend begin

lemma sum_step_inv:
  assumes "sum_step ops inv beh loads budget y y'" and I: "sum_inv ops inv p y"
  shows "sum_inv ops inv p y'"
  using assms(1)
proof cases
  case (step_host m)
  then show ?thesis using I by (simp add: sum_inv_def)
next
  case (step_call in_fork src)
  then show ?thesis using I fork_select_shown [OF step_call(3)] by (auto simp: sum_inv_def)
next
  case (step_answer src copyable ctx s f)
  have log: "src \<in> snd ` set (y_log y)" using I step_answer(2) by (auto simp: sum_inv_def)
  have "set (remove1 src (y_calls y)) \<subseteq> set (y_calls y)" by (rule set_remove1_subset)
  with step_answer(3) show ?thesis using I log unfolding step_answer(1)
    by (cases rule: fork_decide_cases) (auto simp: sum_inv_def)
next
  case (step_raise src)
  then show ?thesis using I set_remove1_subset [of src "y_calls y"] by (auto simp: sum_inv_def)
next
  case (step_finish i src f res s m)
  then show ?thesis using I fork_finish_keeps [OF step_finish(4)] em_ok_backend_cong [of m "y_em y"]
    by (simp add: sum_inv_def)
next
  case (step_cancelled i src f)
  then show ?thesis using I by (simp add: sum_inv_def)
next
  case (step_turn uid s m)
  have "em_ok ops inv (y_em y)" "\<forall>r. s_range (y_sum y) = Some r \<longrightarrow>
        (\<exists>src. t_source (y_sum y) = Some src \<and> src \<noteq> [] \<and> r = (Some (fst (hd src)), Some (fst (last src))))"
    using I by (simp_all add: sum_inv_def)
  from before_turn_cases [OF this(1) step_turn(3) this(2)] show ?thesis
    using I unfolding step_turn(1) by cases (auto simp: sum_inv_def settled_def)
next
  case (step_close s m c)
  then show ?thesis using I tb_aclose_begin_keeps [OF step_close(2)] em_ok_backend_cong [of m "y_em y"]
    by (simp add: sum_inv_def)
next
  case step_closed
  then show ?thesis using I by (simp add: sum_inv_def aclose_end_def)
qed

lemma sum_reach_inv:
  assumes "sum_reach ops inv beh loads budget y y'" and "sum_inv ops inv p y"
  shows "sum_inv ops inv p y'"
  using assms unfolding sum_reach_def by (induction rule: rtranclp_induct) (auto intro: sum_step_inv)

lemma own_text_step:
  assumes "sum_step ops inv beh loads budget y y'" and "sum_inv ops inv p y"
    and own: "s_unsub_before (y_sum y) \<noteq> None \<Longrightarrow> own_text (y_sum y) (y_tasks y)"
    and sub: "s_unsub_before (y_sum y') \<noteq> None"
  shows "own_text (y_sum y') (y_tasks y')"
  using assms(1)
proof cases
  case (step_answer src copyable ctx s f)
  from step_answer(3) show ?thesis
  proof (cases rule: fork_decide_cases)
    case stay
    then show ?thesis using own sub step_answer(1) by (simp add: own_text_same [of "y_sum y"])
  next
    case (fork s1)
    then show ?thesis using own sub unfolding step_answer(1)
      by (simp add: own_text_started [of "y_sum y" _ s src] fork_of_asks)
  qed
next
  case (step_finish i src f res s m)
  have k: "s_task s = s_task (y_sum y)" "t_source s = t_source (y_sum y)" using fork_finish_keeps [OF step_finish(4)] by simp_all
  have "s_unsub_before s = s_unsub_before (y_sum y) \<and> s_summary s = fork_text loads res"
    using step_finish(4) by (auto simp: fork_finish_def fork_text_def Let_def drop_interceptor_def split: sum.splits option.splits if_splits)
  then show ?thesis using own sub unfolding step_finish(1)
    by (simp add: own_text_ended [OF _ step_finish(2,3) k])
next
  case (step_cancelled i src f)
  then have own: "own_text (y_sum y) (y_tasks y)" using own sub by simp
  have "\<not> fork_over (y_tasks y) i" using step_cancelled by (simp add: fork_over_def)
  then have "s_task (y_sum y) = Some i" using own step_cancelled(2) by (auto simp: own_text_def)
  then have "s_summary (y_sum y) = None" using own step_cancelled(2,3) by (auto simp: own_text_def)
  then show ?thesis using own_text_ended [OF own step_cancelled(2,3) refl refl] step_cancelled(1) by simp
next
  case (step_turn uid s m)
  have own: "own_text (y_sum y) (y_tasks y)" by (rule own) (rule step_turn(2))
  have "em_ok ops inv (y_em y)" "\<forall>r. s_range (y_sum y) = Some r \<longrightarrow>
        (\<exists>src. t_source (y_sum y) = Some src \<and> src \<noteq> [] \<and> r = (Some (fst (hd src)), Some (fst (last src))))"
    using assms(2) by (simp_all add: sum_inv_def)
  from before_turn_cases [OF this(1) step_turn(3) this(2)] show ?thesis
    using own own_text_over [OF own] unfolding step_turn(1) by cases auto
next
  case (step_close s m c)
  then show ?thesis using tb_aclose_begin_keeps [OF step_close(2)] sub by simp
next
  case step_closed
  then show ?thesis using sub by (simp add: aclose_end_def)
qed (use own sub in simp_all)

lemma own_text_reach:
  assumes "sum_reach ops inv beh loads budget y0 y" and "sum_start ops inv y0" and "s_unsub_before (y_sum y) \<noteq> None"
  shows "own_text (y_sum y) (y_tasks y)"
  using assms(1,3) unfolding sum_reach_def
proof (induction rule: rtranclp_induct)
  case base
  then show ?case using assms(2) by (auto simp: sum_start_def own_text_def dest!: tb_install_fresh)
next
  case (step y z)
  have "sum_reach ops inv beh loads budget y0 y" using step(1) by (simp add: sum_reach_def)
  from sum_reach_inv [OF this sum_start_inv [OF assms(2)]] have I: "sum_inv ops inv (tb_preserve_recent (t_config (y_sum y0))) y" .
  show ?case by (rule own_text_step [OF step(2) I step(3) step(4)])
qed

lemma summary_only_of_shown:
  assumes start: "sum_start ops inv y0" and reach: "sum_reach ops inv beh loads budget y0 y"
    and sub: "s_unsub_before (y_sum y) \<noteq> None"
    and turn: "tb_before_turn ops beh uid (fork_over (y_tasks y)) (y_sum y) (y_em y) = (s, m)" and change: "m \<noteq> y_em y"
  shows "\<exists>i f words view src pre post. i < length (y_tasks y) \<and> y_tasks y ! i = Fork_done src f (Some words) \<and>
    asks_for src f \<and> (view, src) \<in> set (y_log y) \<and> shown (tb_preserve_recent (t_config (y_sum y0))) view src \<and>
    view_ids ops (y_em y) = pre @ src @ post \<and> replaced ops uid words (map fst src) (y_em y) m \<and>
    s_task s = None \<and> s_summary s = None"
proof -
  have I: "sum_inv ops inv (tb_preserve_recent (t_config (y_sum y0))) y"
    by (rule sum_reach_inv [OF reach sum_start_inv [OF start]])
  have own: "own_text (y_sum y) (y_tasks y)" by (rule own_text_reach [OF reach start sub])
  have ok: "em_ok ops inv (y_em y)" and range: "\<forall>r. s_range (y_sum y) = Some r \<longrightarrow>
        (\<exists>src. t_source (y_sum y) = Some src \<and> src \<noteq> [] \<and> r = (Some (fst (hd src)), Some (fst (last src))))"
    using I by (simp_all add: sum_inv_def)
  from ok turn range show ?thesis
  proof (cases rule: before_turn_cases)
    case (applied i src words pre post)
    then obtain view where v: "(view, src) \<in> set (y_log y)" "shown (tb_preserve_recent (t_config (y_sum y0))) view src"
      using I by (fastforce simp: sum_inv_def)
    obtain f where "i < length (y_tasks y)" "y_tasks y ! i = Fork_done src f (Some words)" "asks_for src f"
      using own applied by (auto simp: own_text_def fork_over_def split: fork_state.splits)
    then show ?thesis using applied v
      by (intro exI [of _ i] exI [of _ f] exI [of _ words] exI [of _ view] exI [of _ src] exI [of _ pre] exI [of _ post])
        (simp add: settled_def)
  qed (use change in blast)+
qed

end

section \<open>A round of compaction\<close>

text \<open>A fork with a usable answer, while the host only appends: at the next turn the selected events give way.\<close>

lemma shown_prefix: "shown p view src \<Longrightarrow> view = src @ drop (length src) view"
  by (cases "p = 0") (auto simp: shown_def slice_to_def min_def append_eq_conv_conj)

context event_backend begin

lemma getitem_in_view:
  assumes "em_ok ops inv m" and "t \<in> set (em_keys ops m)"
  shows "em_getitem ops t m = Inr (the (be_get ops t (em_backend m)))"
  using assms by (auto simp: em_ok_def em_getitem_def em_get_def)

lemma compaction_lands:
  assumes ok: "em_ok ops inv m" and ids: "view_ids ops m = src @ rest" and src: "src \<noteq> []"
    and s: "s_task s = Some i" "fin i" "t_source s = Some src" "s_summary s = Some words"
      "s_range s = Some (Some (fst (hd src)), Some (fst (last src)))"
  shows "\<exists>m'. tb_before_turn ops beh uid fin s m = (settled s, m') \<and> em_ok ops inv m' \<and>
    replaced ops uid words (map fst src) m m' \<and>
    em_keys ops m' = range_tag (start_of (fst (hd src))) (end_of (fst (last src))) # map fst rest"
proof -
  let ?f = "\<lambda>t. the (be_get ops t (em_backend m))"
  have keys: "em_keys ops m = map fst src @ map fst rest"
    using arg_cong [OF ids, of "map fst"] by (simp add: view_ids_tags)
  have dist: "distinct (map fst src @ map fst rest)"
    using ok view_ok_distinct unfolding em_ok_def keys by blast
  have look: "\<forall>t \<in> set (map fst src). em_getitem ops t m = Inr (?f t)"
    using getitem_in_view [OF ok] by (simp add: keys)
  have ends: "hd (map fst src) = fst (hd src)" "last (map fst src) = fst (last src)"
    using src by (simp_all add: hd_map last_map)
  have cur: "events_in_range ops m (Some (fst (hd src)), Some (fst (last src))) = Inr (map (\<lambda>t. (t, ?f t)) (map fst src))"
    using range_walk_prefix [OF dist _ look] src unfolding events_in_range_def keys ends by simp
  have "map (\<lambda>t. (t, case em_getitem ops t m of Inr e \<Rightarrow> ev_id e | Inl _ \<Rightarrow> [])) (map fst src) = src"
    using ids by (simp add: view_ids_def keys)
  then have same: "map (\<lambda>(t, e). (t, ev_id e)) (map (\<lambda>t. (t, ?f t)) (map fst src)) = src"
    using look by (simp add: comp_def cong: map_cong)
  have "em_keys ops m = [] @ map fst src @ map fst rest" by (simp add: keys)
  from collapse_of_block [OF ok this, of beh uid words] src obtain fired m' where
    c: "em_collapse ops beh uid (fst (hd src)) (fst (last src)) (Some words) m =
        (Inr (range_tag (start_of (fst (hd src))) (end_of (fst (last src)))), fired, m')"
      "replaced ops uid words (map fst src) m m'" "em_ok ops inv m'"
      "em_keys ops m' = range_tag (start_of (fst (hd src))) (end_of (fst (last src))) # map fst rest"
    unfolding ends by auto
  have "tb_before_turn ops beh uid fin s m = (settled s, m')"
    using s src cur same c(1) by (simp add: tb_before_turn_def base_apply_def settled_def)
  with c show ?thesis by blast
qed

lemma compaction_round_lemma:
  assumes ok: "em_ok ops inv m1" and sel: "fork_select ops in_fork s m = Inr (Some src)"
    and dec: "fork_decide budget copyable i src ctx s = Inr (s1, Some f)"
    and ans: "usable_text loads res = Inr words" and grown: "view_ids ops m1 = view_ids ops m @ new" and fin: "fin i"
  shows "\<exists>s2 m2. tb_before_turn ops beh uid fin (fst (fork_finish loads res s1 m1)) (snd (fork_finish loads res s1 m1)) =
      (s2, m2) \<and> s_task s2 = None \<and> em_ok ops inv m2 \<and> replaced ops uid words (map fst src) m1 m2 \<and>
      em_keys ops m2 = range_tag (start_of (fst (hd src))) (end_of (fst (last src))) #
        drop (length src) (em_keys ops m) @ map fst new"
proof -
  have fin': "fork_finish loads res s1 m1 = (s1\<lparr>s_summary := Some words, t_failed := 0\<rparr>, m1)"
    by (simp add: fork_finish_def ans)
  from shown_prefix [OF conjunct1 [OF fork_select_shown [OF sel]]]
  have view: "view_ids ops m = src @ drop (length src) (view_ids ops m)" .
  from dec show ?thesis
  proof (cases rule: fork_decide_cases)
    case (fork s0)
    let ?s = "s1\<lparr>s_summary := Some words, t_failed := 0\<rparr>"
    have "view_ids ops m1 = src @ drop (length src) (view_ids ops m) @ new"
      using grown view by (metis append.assoc)
    from compaction_lands [OF ok this fork(2), of ?s i fin words beh uid] fork fin
    obtain m2 where "tb_before_turn ops beh uid fin ?s m1 = (settled ?s, m2)" "em_ok ops inv m2"
      "replaced ops uid words (map fst src) m1 m2"
      "em_keys ops m2 = range_tag (start_of (fst (hd src))) (end_of (fst (last src))) #
         map fst (drop (length src) (view_ids ops m) @ new)" by auto
    moreover have "map fst (drop (length src) (view_ids ops m)) = drop (length src) (em_keys ops m)"
      by (metis drop_map view_ids_tags)
    ultimately show ?thesis by (simp add: fin' settled_def)
  qed simp
qed

end

section \<open>Forks that fail, requests and ranges\<close>

lemma fork_finish_failed:
  assumes "fork_finish loads res s m = (s', m')" and "t_failed s \<ge> 2 \<longrightarrow> t_unsub_llm s = None"
  shows "(t_failed s' \<ge> 2 \<longrightarrow> t_unsub_llm s' = None)"
  using assms
  by (auto simp: fork_finish_def Let_def drop_interceptor_def split: sum.splits if_splits option.splits)

lemma tb_aclose_begin_failed: "tb_aclose_begin fin s m = (s', m', c) \<Longrightarrow> t_unsub_llm s' = None"
  by (blast dest: tb_aclose_begin_keeps)

lemma before_turn_failed:
  assumes "tb_before_turn ops beh uid fin s m = (s', m')"
  shows "t_failed s' = t_failed s \<and> t_unsub_llm s' = t_unsub_llm s"
  using assms
  by (auto simp: tb_before_turn_def base_apply_def py_bind_def split: option.splits if_splits sum.splits)

lemma fork_decide_failed:
  assumes "fork_decide budget copyable i src ctx s = Inr (s', f)"
  shows "t_failed s' = t_failed s \<and> t_unsub_llm s' = t_unsub_llm s"
  using assms by (auto simp: fork_decide_def py_bind_Inr_iff split: option.splits if_splits)

lemma sum_step_failed:
  assumes "sum_step ops binv beh loads budget y y'" and "t_failed (y_sum y) \<ge> 2 \<longrightarrow> t_unsub_llm (y_sum y) = None"
  shows "t_failed (y_sum y') \<ge> 2 \<longrightarrow> t_unsub_llm (y_sum y') = None"
  using assms
proof cases
  case (step_answer src copyable ctx s f)
  then show ?thesis using assms(2) fork_decide_failed [OF step_answer(3)] by simp
next
  case (step_finish i src f res s m)
  then show ?thesis using fork_finish_failed [OF step_finish(4) assms(2)] by simp
next
  case (step_turn uid s m)
  then show ?thesis using assms(2) before_turn_failed [OF step_turn(3)] by simp
next
  case (step_close s m c)
  then show ?thesis using tb_aclose_begin_failed [OF step_close(2)] by simp
qed (use assms(2) in \<open>auto simp: aclose_end_def\<close>)

text \<open>After two forks that failed in a row no further call is watched; a call in flight may still fork.\<close>

theorem two_failures_disable:
  assumes "sum_start ops binv y0" and "sum_reach ops binv beh loads budget y0 y" and "t_failed (y_sum y) \<ge> 2"
    and "sum_step ops binv beh loads budget y y'"
  shows "y_log y' = y_log y \<and> t_unsub_llm (y_sum y) = None"
proof -
  have "t_failed (y_sum y0) \<ge> 2 \<longrightarrow> t_unsub_llm (y_sum y0) = None"
    using assms(1) by (auto simp: sum_start_def dest!: tb_install_fresh)
  with assms(2) [unfolded sum_reach_def] have "t_failed (y_sum y) \<ge> 2 \<longrightarrow> t_unsub_llm (y_sum y) = None"
  proof (induction rule: rtranclp_induct)
    case (step y z)
    show ?case by (rule sum_step_failed [OF step(2) step(3) [OF step(4)]])
  qed
  with assms(3) have "t_unsub_llm (y_sum y) = None" by simp
  with assms(4) show ?thesis by (cases rule: sum_step.cases) auto
qed

text \<open>What is sent is the parent's request with one instruction after it, whatever middleware does to the fork.\<close>

theorem fork_sends_the_snapshot:
  assumes "fork_decide budget copyable i src ctx s = Inr (s', Some f)"
    and "\<And>c. acall' c (c_messages f) (c_params f) = acall c (c_messages f) (c_params f)"
  shows "c_messages f = c_messages ctx @ [User_msg (instruction (fst (hd src)) (fst (last src)) (tb_target_chars (t_config s')))]
    \<and> (\<forall>k. k \<noteq> ''output_model'' \<longrightarrow> dict_get (c_params f) k = dict_get (c_params ctx) k)
    \<and> run_fork impl acall' f m = run_fork impl acall f m"
proof -
  have "run_fork impl acall' f m = run_fork impl acall f m"
    unfolding run_fork_def assms(2) ..
  with assms(1) show ?thesis
    by (cases rule: fork_decide_cases) (auto simp: fork_of_def)
qed

text \<open>The cost of a text as the walk counts it.\<close>

definition parts_cost :: "(string \<Rightarrow> int) \<Rightarrow> string list \<Rightarrow> int" where
  "parts_cost count ps = (\<Sum>p\<leftarrow>ps. count p + 4)"

lemma keep_newest_spec:
  assumes "\<forall>p. 0 \<le> count p" and "used = parts_cost count kept" and "used \<le> budget \<or> length kept = 1"
    and "keep_newest count budget used kept ps = (ks, stopped)"
  shows "\<exists>n. ks = rev (take n ps) @ kept \<and> n \<le> length ps \<and> (stopped \<longleftrightarrow> n < length ps) \<and>
    (ks = [] \<or> parts_cost count ks \<le> budget \<or> length ks = 1) \<and>
    (n < length ps \<longrightarrow> ks \<noteq> [] \<and> parts_cost count (ps ! n # ks) > budget)"
  using assms(2-)
proof (induction ps arbitrary: used kept)
  case Nil
  then show ?case by (auto simp: parts_cost_def)
next
  case (Cons p ps)
  have pos: "0 \<le> count p + 4" using assms(1) by simp
  show ?case
  proof (cases "used + (count p + 4) > budget \<and> kept \<noteq> []")
    case True
    with Cons.prems show ?thesis by (intro exI [of _ 0]) (auto simp: parts_cost_def)
  next
    case False
    have "parts_cost count (p # kept) \<le> budget \<or> length (p # kept) = 1"
      using False Cons.prems(1) by (auto simp: parts_cost_def)
    moreover have "used + (count p + 4) = parts_cost count (p # kept)"
      using Cons.prems(1) by (simp add: parts_cost_def)
    moreover have "keep_newest count budget (used + (count p + 4)) (p # kept) ps = (ks, stopped)"
      using Cons.prems(3) False by (auto simp: Let_def)
    ultimately obtain n where n: "ks = rev (take n ps) @ p # kept" "n \<le> length ps" "stopped \<longleftrightarrow> n < length ps"
      "ks = [] \<or> parts_cost count ks \<le> budget \<or> length ks = 1"
      "n < length ps \<longrightarrow> ks \<noteq> [] \<and> parts_cost count (ps ! n # ks) > budget"
      using Cons.IH [of "parts_cost count (p # kept)" "p # kept"] by auto
    then show ?thesis by (intro exI [of _ "Suc n"]) auto
  qed
qed

text \<open>C34: The text for the model holds the newest events: as many as fit the budget, but at least one. If some are left
  out, the next older one would not have fitted.\<close>

theorem newest_events_kept:
  assumes "\<forall>p. 0 \<le> count p"
  shows "\<exists>k. render_parts (Some b) count rendered =
      (if k = 0 then rendered else omitted_marker k # drop k rendered) \<and>
    (parts_cost count (drop k rendered) \<le> b \<or> length (drop k rendered) \<le> 1) \<and>
    (0 < k \<longrightarrow> k < length rendered \<and> b < parts_cost count (drop (k - 1) rendered))"
proof -
  obtain ks stopped where run: "keep_newest count b 0 [] (rev rendered) = (ks, stopped)" by fastforce
  have "\<exists>n. ks = rev (take n (rev rendered)) \<and> n \<le> length rendered \<and> (stopped \<longleftrightarrow> n < length rendered) \<and>
    (parts_cost count ks \<le> b \<or> length ks \<le> 1) \<and> (rendered \<noteq> [] \<longrightarrow> ks \<noteq> []) \<and>
    (n < length rendered \<longrightarrow> ks \<noteq> [] \<and> b < parts_cost count (rev rendered ! n # ks))"
  proof (cases "rev rendered")
    case Nil
    then show ?thesis using run by simp
  next
    case (Cons p ps)
    have "keep_newest count b (count p + 4) [p] ps = (ks, stopped)" using run by (simp add: Cons Let_def)
    moreover have "count p + 4 = parts_cost count [p]" "count p + 4 \<le> b \<or> length [p] = 1" by (simp_all add: parts_cost_def)
    ultimately obtain n where
      n: "ks = rev (take n ps) @ [p]" "n \<le> length ps" "stopped \<longleftrightarrow> n < length ps"
      "ks = [] \<or> parts_cost count ks \<le> b \<or> length ks = 1"
      "n < length ps \<longrightarrow> ks \<noteq> [] \<and> parts_cost count (ps ! n # ks) > b"
      using keep_newest_spec [OF assms] by blast
    have len: "length rendered = Suc (length ps)" using arg_cong [OF Cons, of length] by simp
    show ?thesis using n by (intro exI [of _ "Suc n"]) (auto simp: Cons len)
  qed
  then obtain n where n: "ks = rev (take n (rev rendered))" "n \<le> length rendered" "stopped \<longleftrightarrow> n < length rendered"
    "parts_cost count ks \<le> b \<or> length ks \<le> 1" "rendered \<noteq> [] \<longrightarrow> ks \<noteq> []"
    "n < length rendered \<longrightarrow> ks \<noteq> [] \<and> b < parts_cost count (rev rendered ! n # ks)" by blast
  let ?k = "length rendered - n"
  have ks: "ks = drop ?k rendered" using n(1,2) by (simp add: rev_take)
  have "rev rendered ! n # ks = drop (?k - 1) rendered" if "n < length rendered"
    using that Cons_nth_drop_Suc [of "length rendered - Suc n" rendered]
    by (simp add: ks rev_nth Suc_diff_Suc)
  moreover have "0 < n" if "n < length rendered" using n(1,5) that by (cases n) auto
  moreover have "length rendered - length ks = ?k" using n(2) by (simp add: ks)
  ultimately show ?thesis using n run
    by (intro exI [of _ ?k]) (auto simp: render_parts_def ks split: if_splits)
qed

text \<open>A sample run: two events, of which the newest is preserved, and a request over the budget.\<close>

definition ex_budget :: budget_config where
  "ex_budget = \<lparr>tb_max_tokens = 100, tb_preserve_recent = 1, tb_target_chars = 50\<rparr>"

definition ex_client :: "unit client" where
  "ex_client = \<lparr>cl_id = 0, cl_resolver = None, cl_context_window = A_int 1000, cl_context_limit = A_missing\<rparr>"

definition ex_response :: "string \<Rightarrow> llm_response" where
  "ex_response t = \<lparr>r_content = Ans_text t, r_tool_calls = [], r_finish_reason = ''stop'', r_input_tokens = Some 200\<rparr>"

definition ex_call :: "(unit, unit) llm_call" where
  "ex_call = \<lparr>c_messages = [Parent_msg ()], c_params = [], c_client = Some ex_client, c_filtered = False,
     c_response = Some (ex_response ''done'')\<rparr>"

definition ex_installed :: "tb \<times> imb em" where
  "ex_installed = projr (tb_install 7 8 9 False (tb_fresh ex_budget) ex_state2)"

definition ex_src :: source where
  "ex_src = [(int_str 1, ''u1'')]"

definition ex_loads :: "string \<Rightarrow> json_doc py_res" where
  "ex_loads s = Inr J_other"

definition ex_limit :: "unit client \<Rightarrow> rat \<Rightarrow> unit params \<Rightarrow> int py_res" where
  "ex_limit c p ps = Inr 100"

definition ex_answer :: "(unit, unit) llm_call option py_res" where
  "ex_answer = Inr (Some (ex_call\<lparr>c_response := Some (ex_response ''summary'')\<rparr>))"

lemma ex_install:
  "tb_install 7 8 9 False (tb_fresh ex_budget) ex_state2 = Inr (fst ex_installed, snd ex_installed)"
proof -
  have "em_middleware ex_state2 = em_middleware (em_init imb_init)"
    by (simp add: ex_state2_def ex_state1_def em_add_def Let_def em_emit_def stamp_metadata_def ex_event_def
        split: prod.splits)
  then have "is_ok (tb_install 7 8 9 False (tb_fresh ex_budget) ex_state2)"
    by (simp add: tb_install_def em_on_def validate_event_type_name_def removed_event_types_def em_intercept_def em_init_def)
  then show ?thesis unfolding ex_installed_def by (cases "tb_install 7 8 9 False (tb_fresh ex_budget) ex_state2") simp_all
qed

lemmas ex_installed_facts = tb_install_fresh [OF ex_install]

lemma ex_watched_ok: "em_ok inmem_ops imb_inv (snd ex_installed)"
  using ex_ok2 imb.em_ok_backend_cong ex_installed_facts by blast

lemma ex_view_ids: "view_ids inmem_ops (snd ex_installed) = [(int_str 1, ''u1''), (int_str 2, ''u1'')]"
proof -
  have "view_ids inmem_ops ex_state2 = [(int_str 1, ''u1''), (int_str 2, ''u1'')]"
    unfolding view_ids_def ex_keys2
    by (simp add: ex_state2_def ex_state1_def em_add_def Let_def em_emit_def emit_def em_init_def stamp_metadata_def
        ex_event_def em_getitem_def em_get_def imb_get_def imb_obj_def imb_allocate_next_tag_def imb_store_def imb_init_def
        imb_max_tag_num_def split: prod.splits)
  moreover have "em_backend (snd ex_installed) = em_backend ex_state2" using ex_installed_facts by blast
  ultimately show ?thesis by (metis view_ids_cong)
qed

lemma ex_select: "fork_select inmem_ops False (fst ex_installed) (snd ex_installed) = Inr (Some ex_src)"
proof -
  let ?m = "snd ex_installed"
  have keys: "em_keys inmem_ops ?m = [int_str 1, int_str 2]"
    using arg_cong [OF ex_view_ids, of "map fst"] by (simp add: view_ids_tags)
  have "is_ok (em_getitem inmem_ops (int_str 1) ?m)"
    using imb.getitem_in_view [OF ex_watched_ok, of "int_str 1"] by (simp add: keys)
  then obtain e where e: "em_getitem inmem_ops (int_str 1) ?m = Inr e"
    by (cases "em_getitem inmem_ops (int_str 1) ?m") auto
  have "ev_id e = ''u1''" using ex_view_ids e by (simp add: view_ids_def keys)
  then show ?thesis
    using ex_installed_facts e
    by (simp add: fork_select_def selected_tags_def keys ex_budget_def slice_to_def py_idx_def ex_src_def)
qed

lemma ex_decide:
  "\<exists>s1 f. fork_decide ex_limit True 0 ex_src ex_call (fst ex_installed) = Inr (s1, Some f)"
  using ex_installed_facts
  by (simp add: fork_decide_def ex_call_def ex_src_def over_budget_def ex_response_def ex_budget_def)

lemma ex_usable: "usable_text ex_loads ex_answer = Inr ''summary''"
  by (simp add: usable_text_def ex_answer_def ex_response_def answer_of_def strip_no_ws is_ws_def)

section \<open>Properties\<close>

text \<open>C8: Whatever a host does to an in-memory history in between, as long as it keeps the view in order, and however
  calls, forks, cancellations and the closing interleave: if a turn of a subscribed summarizer changes the history,
  it replaces one block of the view by a summary. The words are those that one fork got, and that fork was asked for
  just this block. The block is what the view held, without its newest events, when some watched call was sent,
  with the same event ids. After the turn nothing is pending.\<close>

theorem summary_replaces_only_shown:
  assumes "sum_start inmem_ops imb_inv y0" and "sum_reach inmem_ops imb_inv beh loads budget y0 y"
    and "s_unsub_before (y_sum y) \<noteq> None"
    and "tb_before_turn inmem_ops beh uid (fork_over (y_tasks y)) (y_sum y) (y_em y) = (s, m)" and "m \<noteq> y_em y"
  shows "\<exists>i f words view src pre post. i < length (y_tasks y) \<and> y_tasks y ! i = Fork_done src f (Some words) \<and>
    asks_for src f \<and> (view, src) \<in> set (y_log y) \<and> shown (tb_preserve_recent (t_config (y_sum y0))) view src \<and>
    view_ids inmem_ops (y_em y) = pre @ src @ post \<and> replaced inmem_ops uid words (map fst src) (y_em y) m \<and>
    s_task s = None \<and> s_summary s = None"
  by (rule imb.summary_only_of_shown [OF assms])



text \<open>The state in which the fork of the sample run has ended.\<close>

lemma ex_sum_run:
  "\<exists>y0 y s m. sum_start inmem_ops imb_inv (y0 :: (imb, unit, unit) sys) \<and>
    sum_reach inmem_ops imb_inv ex_beh ex_loads ex_limit y0 y \<and> s_unsub_before (y_sum y) \<noteq> None \<and>
    tb_before_turn inmem_ops ex_beh ''u9'' (fork_over (y_tasks y)) (y_sum y) (y_em y) = (s, m) \<and> m \<noteq> y_em y"
proof -
  let ?S = "sum_step inmem_ops imb_inv ex_beh ex_loads ex_limit"
  let ?m = "snd ex_installed"
  let ?y0 = "\<lparr>y_sum = fst ex_installed, y_em = ?m, y_calls = [], y_tasks = [], y_log = []\<rparr> :: (imb, unit, unit) sys"
  obtain s1 f where d: "fork_decide ex_limit True 0 ex_src ex_call (fst ex_installed) = Inr (s1, Some f)"
    using ex_decide by blast
  have start: "sum_start inmem_ops imb_inv ?y0"
    using ex_watched_ok ex_install by (auto simp: sum_start_def intro!: exI)
  let ?y1 = "?y0\<lparr>y_calls := [ex_src], y_log := [(view_ids inmem_ops ?m, ex_src)]\<rparr>"
  have 1: "?S ?y0 ?y1"
    using sum_step.step_call [of ?y0 inmem_ops False ex_src imb_inv ex_beh ex_loads ex_limit] ex_select ex_installed_facts
    by simp
  let ?y2 = "?y1\<lparr>y_calls := [], y_sum := s1, y_tasks := [Fork_running ex_src f]\<rparr>"
  have 2: "?S ?y1 ?y2"
    using sum_step.step_answer [of ex_src ?y1 ex_limit True ex_call s1 "Some f" inmem_ops imb_inv ex_beh ex_loads] d
    by simp
  let ?s2 = "s1\<lparr>s_summary := Some ''summary'', t_failed := 0\<rparr>"
  let ?y3 = "?y2\<lparr>y_sum := ?s2, y_em := ?m, y_tasks := [Fork_done ex_src f (Some ''summary'')]\<rparr>"
  have fin: "fork_finish ex_loads ex_answer s1 ?m = (?s2, ?m)"
    by (simp add: fork_finish_def ex_usable)
  have 3: "?S ?y2 ?y3"
    using sum_step.step_finish [of 0 ?y2 ex_src f ex_loads ex_answer ?s2 ?m inmem_ops imb_inv ex_beh ex_limit] fin
    by (simp add: fork_text_def ex_usable)
  have reach: "sum_reach inmem_ops imb_inv ex_beh ex_loads ex_limit ?y0 ?y3"
    unfolding sum_reach_def using 1 2 3 by (meson converse_rtranclp_into_rtranclp rtranclp.rtrancl_refl)
  have keys: "em_keys inmem_ops ?m = [int_str 1, int_str 2]"
    using arg_cong [OF ex_view_ids, of "map fst"] by (simp add: view_ids_tags)
  have "view_ids inmem_ops ?m = view_ids inmem_ops ?m @ []" by simp
  from imb.compaction_round_lemma [where fin = "fork_over (y_tasks ?y3)" and beh = ex_beh and uid = "''u9''",
      OF ex_watched_ok ex_select d ex_usable this]
  obtain s3 m3 where t: "tb_before_turn inmem_ops ex_beh ''u9'' (fork_over (y_tasks ?y3)) ?s2 ?m = (s3, m3)"
    "em_keys inmem_ops m3 = [range_tag 1 1, int_str 2]"
    by (auto simp: fork_over_def fin keys ex_src_def)
  have "range_tag 1 1 \<noteq> int_str 1" by (metis int_str_no_range range_tag_contains)
  then have "m3 \<noteq> ?m" using t(2) keys by auto
  moreover have "s_unsub_before ?s2 \<noteq> None" using d ex_installed_facts ex_install
    by (auto simp: fork_decide_def py_bind_Inr_iff tb_install_def split: option.splits if_splits)
  ultimately show ?thesis using start reach t(1) by (intro exI [of _ ?y0] exI [of _ ?y3] exI [of _ s3] exI [of _ m3]) simp
qed

theorem summary_replaces_only_shown_witness:
  "\<exists>(y :: (imb, unit, unit) sys) s m src f words. Fork_done src f (Some words) \<in> set (y_tasks y) \<and> asks_for src f \<and>
    tb_before_turn inmem_ops ex_beh ''u9'' (fork_over (y_tasks y)) (y_sum y) (y_em y) = (s, m) \<and>
    replaced inmem_ops ''u9'' words (map fst src) (y_em y) m"
proof -
  obtain y0 y :: "(imb, unit, unit) sys" and s m where "sum_start inmem_ops imb_inv y0"
      "sum_reach inmem_ops imb_inv ex_beh ex_loads ex_limit y0 y" "s_unsub_before (y_sum y) \<noteq> None"
      "tb_before_turn inmem_ops ex_beh ''u9'' (fork_over (y_tasks y)) (y_sum y) (y_em y) = (s, m)" "m \<noteq> y_em y"
    using ex_sum_run by blast
  from summary_replaces_only_shown [OF this] this(4) show ?thesis by (metis nth_mem)
qed

theorem newest_events_kept_witness:
  "render_parts (Some 12) (\<lambda>p. int (length p)) [''aaa'', ''bb'', ''cc''] = [omitted_marker 1, ''bb'', ''cc''] \<and>
   (\<exists>k. render_parts (Some 12) (\<lambda>p. int (length p)) [''aaa'', ''bb'', ''cc''] =
      (if k = 0 then [''aaa'', ''bb'', ''cc''] else omitted_marker k # drop k [''aaa'', ''bb'', ''cc'']))"
proof
  show "render_parts (Some 12) (\<lambda>p. int (length p)) [''aaa'', ''bb'', ''cc''] = [omitted_marker 1, ''bb'', ''cc'']"
    by (simp add: render_parts_def Let_def)
  have "\<forall>p :: string. 0 \<le> int (length p)" by simp
  from newest_events_kept [OF this] show "\<exists>k. render_parts (Some 12) (\<lambda>p. int (length p)) [''aaa'', ''bb'', ''cc''] =
      (if k = 0 then [''aaa'', ''bb'', ''cc''] else omitted_marker k # drop k [''aaa'', ''bb'', ''cc''])"
    by blast
qed

section \<open>Observations\<close>

text \<open>The newest event goes to the model however large it is, so the text need not fit the model's window.\<close>

theorem oversized_event_is_sent: "render_parts (Some b) count [p] = [p]"
  by (simp add: render_parts_def)

text \<open>A call in flight while the summarizer is closed starts a fork afterwards: nothing tells it of the closing.\<close>

theorem fork_after_close:
  assumes "fork_select ops False s m = Inr (Some src)" and "src \<noteq> []" and "\<not> t_auto s"
    and "tb_aclose_begin fin s m = (s1, m1, c)"
    and "c_client ctx \<noteq> None" and "\<not> c_filtered ctx" and "over_budget s ctx"
  shows "\<exists>s2 f. fork_decide budget True i src ctx (aclose_end s1) = Inr (s2, Some f) \<and> t_unsub_llm s2 = None"
proof -
  obtain s' m' where 1: "drop_interceptor s m = (s', m')" by fastforce
  obtain s'' m'' where 2: "base_uninstall s' m' = (s'', m'')" by fastforce
  have s1: "s1 = fst (cancel_pending fin s'')" using assms(4) by (auto simp: tb_aclose_begin_def 1 2 split: prod.splits)
  have "t_auto s' = t_auto s" using 1 by (auto simp: drop_interceptor_def split: option.splits)
  moreover have "t_auto s'' = t_auto s'" using 2 by (auto simp: base_uninstall_def Let_def)
  moreover have "t_auto s1 = t_auto s''" unfolding s1 by (simp add: cancel_pending_def split: option.splits)
  ultimately have "\<not> t_auto (aclose_end s1)" using assms(3) by (simp add: aclose_end_def)
  moreover have "over_budget (aclose_end s1) ctx"
    using assms(7) tb_aclose_begin_keeps [OF assms(4)]
    by (auto simp: over_budget_def aclose_end_def split: option.splits)
  moreover have "s_task (aclose_end s1) = None" "t_unsub_llm (aclose_end s1) = None"
    using tb_aclose_begin_keeps [OF assms(4)] by (simp_all add: aclose_end_def)
  ultimately show ?thesis using assms(2,5,6) by (auto simp: fork_decide_def)
qed

text \<open>\<^verbatim>\<open>exclude_root\<close> looks at the number of turns, not at the nesting of calls: every method that ends in its first turn
  is left out, nested or not, and a root call of several turns is not.\<close>

theorem exclude_root_counts_turns:
  "mc_exclude_root cfg \<Longrightarrow> should_summarize cfg e = (at_is_final e \<and> at_turn_number e \<noteq> 1)"
  by (simp add: should_summarize_def is_root_call_def)

text \<open>The base class does not look whether its range is still what it was. If the range was collapsed meanwhile, the
  pending summary replaces that Summary by one whose only child is itself.\<close>

lemma collapse_parse_cong:
  assumes "parse_tag_start t1 = parse_tag_start u1" and "parse_tag_end t2 = parse_tag_end u2"
  shows "em_collapse ops beh uid t1 t2 stext m = em_collapse ops beh uid u1 u2 stext m"
  by (simp add: em_collapse_def assms)

theorem late_summary_hides_events:
  assumes "em_ok inmem_ops imb_inv m" and "range_tag a z \<in> set (em_keys inmem_ops m)"
    and "s_task s = Some i" and "fin i" and "s_summary s = Some words" and "s_range s = Some (Some (int_str a), Some (int_str z))"
  shows "\<exists>m'. base_apply inmem_ops beh uid fin s m = (s\<lparr>s_task := None, s_range := None, s_summary := None\<rparr>, m') \<and>
    imb_get (range_tag a z) (em_backend m') = Some (make_summary uid (range_tag a z) a z [range_tag a z] (Some words)) \<and>
    (\<forall>n. all_originals n inmem_ops (range_tag a z) (em_backend m') = None)"
proof -
  have "em_collapse inmem_ops beh uid (int_str a) (int_str z) (Some words) m
      = em_collapse inmem_ops beh uid (range_tag a z) (range_tag a z) (Some words) m"
    by (rule collapse_parse_cong) simp_all
  then show ?thesis
    using recollapse_self_reference [OF assms(1,2), of beh uid "Some words"] assms(3-6)
    by (auto simp: base_apply_def)
qed

end
