(* ===== verification/Py_Json.thy ===== *)
theory Py_Json
  imports File_Tools
begin

text \<open>
  Python's \<^verbatim>\<open>json.loads\<close> and \<^verbatim>\<open>json.dumps\<close> as the telemetry of \<^verbatim>\<open>src/nooa/tracing\<close> uses them (compact
  separators, \<^verbatim>\<open>ensure_ascii=False\<close>).

  \<^item> The decoder is a machine over the characters that are left, with a stack of open containers; the length of
    the stack is bounded by the interpreter's recursion limit.
  \<^item> A float is its \<^verbatim>\<open>repr\<close>; \<open>fl\<close> is \<^verbatim>\<open>repr(float(s))\<close> of a literal. An integer literal of more than 4300 digits
    raises \<^verbatim>\<open>ValueError\<close>, which is not a \<^verbatim>\<open>JSONDecodeError\<close>.
  \<^item> Lemmas: decoding gives a value that can be encoded, and decoding what was encoded gives the value back.
\<close>

section \<open>Values\<close>

text \<open>A key of a dictionary that is not a string has an identity and a text, its \<^verbatim>\<open>str\<close>.\<close>

datatype seq_kind = Py_list | Py_tuple
datatype pkey = K_str utext | K_other nat utext
datatype pval =
    D_none | D_bool bool | D_int int | D_float utext | D_str utext
  | D_seq seq_kind "pval list" | D_dict "(pkey \<times> pval) list" | D_other nat

section \<open>Decoding\<close>

definition jspace :: "nat \<Rightarrow> bool" where
  "jspace c = (c \<in> {32, 9, 10, 13})"

abbreviation skip_ws :: "utext \<Rightarrow> utext" where
  "skip_ws s \<equiv> dropWhile jspace s"

definition dec_digit :: "nat \<Rightarrow> bool" where
  "dec_digit c = (48 \<le> c \<and> c \<le> 57)"

definition hex_digit :: "nat \<Rightarrow> nat option" where
  "hex_digit c =
     (if 48 \<le> c \<and> c \<le> 57 then Some (c - 48) else if 97 \<le> c \<and> c \<le> 102 then Some (c - 87)
      else if 65 \<le> c \<and> c \<le> 70 then Some (c - 55) else None)"

fun hex4 :: "utext \<Rightarrow> (nat \<times> utext) option" where
  "hex4 (a # b # c # d # r) =
     (case (hex_digit a, hex_digit b, hex_digit c, hex_digit d) of
        (Some a, Some b, Some c, Some d) \<Rightarrow> Some (((a * 16 + b) * 16 + c) * 16 + d, r)
      | _ \<Rightarrow> None)"
| "hex4 _ = None"

definition short_escape :: "nat \<Rightarrow> nat option" where
  "short_escape c = map_of [(34, 34), (92, 92), (47, 47), (98, 8), (102, 12), (110, 10), (114, 13), (116, 9)] c"

lemma hex4_length: "hex4 s = Some (n, r) \<Longrightarrow> length r < length s"
  by (induction s rule: hex4.induct) (auto split: option.splits)

text \<open>What follows a backslash: the character meant, and the rest.\<close>

definition scan_escape :: "utext \<Rightarrow> (nat \<times> utext) option" where
  "scan_escape s =
     (case s of [] \<Rightarrow> None
      | e # r \<Rightarrow>
          if e = 117 then
            (case hex4 r of
               None \<Rightarrow> None
             | Some (n, r') \<Rightarrow>
                 if 0xD800 \<le> n \<and> n \<le> 0xDBFF \<and> take 2 r' = [92, 117] then
                   (case hex4 (drop 2 r') of
                      None \<Rightarrow> None
                    | Some (m, r'') \<Rightarrow>
                        if 0xDC00 \<le> m \<and> m \<le> 0xDFFF
                        then Some (0x10000 + (n - 0xD800) * 0x400 + (m - 0xDC00), r'')
                        else Some (n, r'))
                 else Some (n, r'))
          else map_option (\<lambda>x. (x, r)) (short_escape e))"

lemma scan_escape_length: "scan_escape s = Some (x, r) \<Longrightarrow> length r < length s"
proof -
  assume a: "scan_escape s = Some (x, r)"
  then obtain e t where s: "s = e # t" by (cases s) (auto simp: scan_escape_def)
  show ?thesis
  proof (cases "e = 117")
    case True
    then obtain n r' where n: "hex4 t = Some (n, r')" using a by (auto simp: scan_escape_def s split: option.splits)
    have "length r \<le> length r'"
      using a True n by (auto simp: scan_escape_def s split: if_splits option.splits prod.splits dest!: hex4_length)
    then show ?thesis using hex4_length [OF n] by (simp add: s)
  qed (use a in \<open>auto simp: scan_escape_def s\<close>)
qed

text \<open>A string after its opening quote: the characters read so far, in reverse, and the rest.\<close>

function (sequential) scan_str :: "utext \<Rightarrow> utext \<Rightarrow> (utext \<times> utext) option" where
  "scan_str acc [] = None"
| "scan_str acc (c # cs) =
     (if c = 34 then Some (rev acc, cs)
      else if c = 92 then (case scan_escape cs of None \<Rightarrow> None | Some (x, r) \<Rightarrow> scan_str (x # acc) r)
      else if c < 32 then None
      else scan_str (c # acc) cs)"
  by pat_completeness auto
termination
  by (relation "measure (\<lambda>(acc, s). length s)") (auto dest!: scan_escape_length)

lemma scan_str_length: "scan_str acc s = Some (t, r) \<Longrightarrow> length r < length s"
proof (induction acc s rule: scan_str.induct)
  case (2 acc c cs)
  show ?case
  proof (cases "c = 92")
    case True
    then obtain x r' where e: "scan_escape cs = Some (x, r')" "scan_str (x # acc) r' = Some (t, r)"
      using "2.prems" by (auto split: option.splits)
    have "length r < length r'" using "2.IH"(1) [OF _ True e(1) refl e(2)] True by simp
    then show ?thesis using scan_escape_length [OF e(1)] by simp
  qed (use 2 in \<open>auto split: if_splits\<close>)
qed simp

definition max_int_digits :: nat where
  "max_int_digits = 4300"

definition digits_nat :: "utext \<Rightarrow> nat" where
  "digits_nat ds = fold (\<lambda>d n. n * 10 + (d - 48)) ds 0"

definition starts :: "nat \<Rightarrow> utext \<Rightarrow> bool" where
  "starts c s = (s \<noteq> [] \<and> hd s = c)"

text \<open>The fraction and the exponent of a number, if they are there.\<close>

definition take_frac :: "utext \<Rightarrow> utext" where
  "take_frac s =
     (if starts 46 s then let ds = takeWhile dec_digit (tl s) in if ds = [] then [] else 46 # ds else [])"

definition take_exp :: "utext \<Rightarrow> utext" where
  "take_exp s =
     (if starts 101 s \<or> starts 69 s then
        let r = tl s; sg = (if starts 43 r \<or> starts 45 r then [hd r] else []);
            ds = takeWhile dec_digit (drop (length sg) r)
        in if ds = [] then [] else hd s # sg @ ds
      else [])"

definition scan_number :: "(utext \<Rightarrow> utext) \<Rightarrow> utext \<Rightarrow> (pval \<times> utext) py_res" where
  "scan_number fl s =
     (let sg = (if starts 45 s then [45] else []);
          r = drop (length sg) s;
          ds = (if starts 48 r then [48] else takeWhile dec_digit r)
      in if ds = [] then Inl JSONDecodeError
         else
           let r1 = drop (length ds) r; fr = take_frac r1; r2 = drop (length fr) r1; ex = take_exp r2
           in if fr = [] \<and> ex = []
              then if length ds > max_int_digits then Inl ValueError
                   else Inr (D_int (if sg = [] then int (digits_nat ds) else - int (digits_nat ds)), r1)
              else Inr (D_float (fl (sg @ ds @ fr @ ex)), drop (length ex) r2))"

lemma take_Nil [simp]: "take_frac [] = []" "take_exp [] = []"
  by (simp_all add: take_frac_def take_exp_def starts_def)

text \<open>A value that is not a container; \<open>words\<close> are tried in this order.\<close>

definition words :: "(utext \<times> pval) list" where
  "words = [(u ''null'', D_none), (u ''true'', D_bool True), (u ''false'', D_bool False), (u ''NaN'', D_float (u ''nan'')),
     (u ''Infinity'', D_float (u ''inf'')), (u ''-Infinity'', D_float (u ''-inf''))]"

definition scan_scalar :: "(utext \<Rightarrow> utext) \<Rightarrow> utext \<Rightarrow> (pval \<times> utext) py_res" where
  "scan_scalar fl s =
     (if starts 34 s then (case scan_str [] (tl s) of None \<Rightarrow> Inl JSONDecodeError | Some (t, r) \<Rightarrow> Inr (D_str t, r))
      else
          (case find (\<lambda>(w, v). prefix w s) words of
             Some (w, v) \<Rightarrow> Inr (v, drop (length w) s)
           | None \<Rightarrow> scan_number fl s))"

datatype frame = In_list "pval list" | In_dict "(pkey \<times> pval) list" utext

datatype jstate =
    Want_value "frame list" | Want_first "frame list" | Want_key bool "(pkey \<times> pval) list" "frame list"
  | Have "frame list" pval

fun jrank :: "jstate \<Rightarrow> nat" where
  "jrank (Want_first k) = 1"
| "jrank _ = 0"

lemma find_SomeD: "find P xs = Some x \<Longrightarrow> P x \<and> x \<in> set xs"
  by (induction xs) (auto split: if_splits)

lemma scan_number_length:
  assumes "scan_number fl s = Inr (v, r)"
  shows "length r < length s"
proof -
  define sg where "sg = (if starts 45 s then [45 :: nat] else [])"
  define r0 where "r0 = drop (length sg) s"
  define ds where "ds = (if starts 48 r0 then [48] else takeWhile dec_digit r0)"
  have ne: "ds \<noteq> []" using assms by (auto simp: scan_number_def Let_def sg_def r0_def ds_def)
  then have "r0 \<noteq> []" by (auto simp: ds_def starts_def)
  then have "0 < length ds" "0 < length r0" "length r0 \<le> length s" using ne by (simp_all add: r0_def)
  then have "length (drop (length ds) r0) < length s" unfolding length_drop by linarith
  moreover have "length r \<le> length (drop (length ds) r0)"
    using assms unfolding scan_number_def Let_def sg_def [symmetric] r0_def [symmetric] ds_def [symmetric]
    by (auto split: if_splits)
  ultimately show ?thesis by simp
qed

lemma scan_scalar_length:
  assumes "scan_scalar fl s = Inr (v, r)"
  shows "length r < length s"
proof (cases "starts 34 s")
  case True
  then show ?thesis using assms
    by (cases s) (auto simp: scan_scalar_def starts_def split: option.splits dest!: scan_str_length)
next
  case False
  show ?thesis
  proof (cases "find (\<lambda>(w, v). prefix w s) words")
    case None
    then show ?thesis using assms False scan_number_length by (simp add: scan_scalar_def)
  next
    case (Some p)
    then obtain w x where p: "p = (w, x)" "(w, x) \<in> set words" "prefix w s"
      by (cases p) (auto dest!: find_SomeD)
    then have "w \<noteq> []" by (auto simp: words_def u_def)
    with p show ?thesis using assms False Some by (cases s) (auto simp: scan_scalar_def)
  qed
qed

lemma starts_length: "starts c (skip_ws s) \<Longrightarrow> length (skip_ws s) - Suc 0 < length s"
  using length_dropWhile_le [of jspace s] by (cases "skip_ws s") (auto simp: starts_def)

lemma key_length:
  "scan_str [] (tl (skip_ws s)) = Some (k, r) \<Longrightarrow> length (skip_ws r) - Suc 0 < length s"
  using scan_str_length [of "[]" "tl (skip_ws s)" k r] length_dropWhile_le [of jspace s] length_dropWhile_le [of jspace r]
  by simp

lemma scalar_length: "scan_scalar fl (skip_ws s) = Inr (v, r) \<Longrightarrow> length r < length s"
  using scan_scalar_length [of fl "skip_ws s" v r] length_dropWhile_le [of jspace s] by simp

text \<open>The decoder; \<open>n\<close> bounds the nesting.\<close>

function jrun :: "(utext \<Rightarrow> utext) \<Rightarrow> nat \<Rightarrow> jstate \<Rightarrow> utext \<Rightarrow> pval py_res" where
  "jrun fl n (Have [] v) s = (if skip_ws s = [] then Inr v else Inl JSONDecodeError)"
| "jrun fl n (Have (In_list vs # k) v) s =
     (let t = skip_ws s in
      if starts 44 t then jrun fl n (Want_value (In_list (v # vs) # k)) (tl t)
      else if starts 93 t then jrun fl n (Have k (D_seq Py_list (rev (v # vs)))) (tl t)
      else Inl JSONDecodeError)"
| "jrun fl n (Have (In_dict d key # k) v) s =
     (let t = skip_ws s; d' = dict_set (K_str key) v d in
      if starts 44 t then jrun fl n (Want_key False d' k) (tl t)
      else if starts 125 t then jrun fl n (Have k (D_dict d')) (tl t)
      else Inl JSONDecodeError)"
| "jrun fl n (Want_key first d k) s =
     (let t = skip_ws s in
      if starts 34 t then
        (case scan_str [] (tl t) of
           None \<Rightarrow> Inl JSONDecodeError
         | Some (key, r) \<Rightarrow>
             if starts 58 (skip_ws r) then jrun fl n (Want_value (In_dict d key # k)) (tl (skip_ws r))
             else Inl JSONDecodeError)
      else if first \<and> starts 125 t then jrun fl n (Have k (D_dict d)) (tl t)
      else Inl JSONDecodeError)"
| "jrun fl n (Want_first k) s =
     (if starts 93 (skip_ws s) then jrun fl n (Have k (D_seq Py_list [])) (tl (skip_ws s))
      else jrun fl n (Want_value (In_list [] # k)) s)"
| "jrun fl n (Want_value k) s =
     (let t = skip_ws s in
      if starts 91 t \<or> starts 123 t then
        if length k \<ge> n then Inl RecursionError
        else if starts 91 t then jrun fl n (Want_first k) (tl t)
        else jrun fl n (Want_key True [] k) (tl t)
      else case scan_scalar fl t of Inl e \<Rightarrow> Inl e | Inr (v, r) \<Rightarrow> jrun fl n (Have k v) r)"
  by pat_completeness auto

termination
proof (relation "measures [\<lambda>(fl, n, st, s). length s, \<lambda>(fl, n, st, s). jrank st]", simp_all only: wf_measures)
qed (simp_all add: starts_length key_length scalar_length,
    (metis key_length | metis scalar_length | metis starts_length)+)

declare jrun.simps [simp del]

definition json_loads :: "(utext \<Rightarrow> utext) \<Rightarrow> nat \<Rightarrow> utext \<Rightarrow> pval py_res" where
  "json_loads fl n s = jrun fl n (Want_value []) s"

section \<open>Encoding\<close>

definition hex_char :: "nat \<Rightarrow> nat" where
  "hex_char d = (if d < 10 then 48 + d else 87 + d)"

definition escape_char :: "nat \<Rightarrow> utext" where
  "escape_char c =
     (if c = 34 then [92, 34] else if c = 92 then [92, 92] else if c = 10 then [92, 110] else if c = 13 then [92, 114]
      else if c = 9 then [92, 116] else if c = 12 then [92, 102] else if c = 8 then [92, 98]
      else if c < 32 then [92, 117, 48, 48, hex_char (c div 16), hex_char (c mod 16)] else [c])"

definition quoted :: "utext \<Rightarrow> utext" where
  "quoted s = 34 # concat (map escape_char s) @ [34]"

definition float_text :: "utext \<Rightarrow> utext" where
  "float_text r = (if r = u ''nan'' then u ''NaN'' else if r = u ''inf'' then u ''Infinity''
     else if r = u ''-inf'' then u ''-Infinity'' else r)"

fun key_text :: "pkey \<Rightarrow> utext" where
  "key_text (K_str s) = s"
| "key_text (K_other n s) = s"

fun sep_join :: "utext list \<Rightarrow> utext" where
  "sep_join [] = []"
| "sep_join [x] = x"
| "sep_join (x # y # xs) = x @ 44 # sep_join (y # xs)"

fun jtext :: "pval \<Rightarrow> utext" where
  "jtext D_none = u ''null''"
| "jtext (D_bool b) = (if b then u ''true'' else u ''false'')"
| "jtext (D_int i) = u_int i"
| "jtext (D_float r) = float_text r"
| "jtext (D_str s) = quoted s"
| "jtext (D_seq k vs) = 91 # sep_join (map jtext vs) @ [93]"
| "jtext (D_dict d) = 123 # sep_join (map (\<lambda>(k, v). quoted (key_text k) @ 58 # jtext v) d) @ [125]"
| "jtext (D_other n) = []"

fun pdepth :: "pval \<Rightarrow> nat" where
  "pdepth (D_seq k vs) = Suc (fold max (map pdepth vs) 0)"
| "pdepth (D_dict d) = Suc (fold max (map (\<lambda>(k, v). pdepth v) d) 0)"
| "pdepth _ = 0"

text \<open>What decoding can yield: no tuples, no objects of other kinds, keys that are strings and not repeated.\<close>

definition int_fits :: "int \<Rightarrow> bool" where
  "int_fits i = (length (nat_str (nat \<bar>i\<bar>)) \<le> max_int_digits)"

definition float_fits :: "(utext \<Rightarrow> utext) \<Rightarrow> utext \<Rightarrow> bool" where
  "float_fits fl r = (r \<in> {u ''nan'', u ''inf'', u ''-inf''} \<or> scan_number fl r = Inr (D_float r, []))"

fun json_like :: "(utext \<Rightarrow> utext) \<Rightarrow> pval \<Rightarrow> bool" where
  "json_like fl (D_int i) = int_fits i"
| "json_like fl (D_float r) = float_fits fl r"
| "json_like fl (D_seq k vs) = (k = Py_list \<and> list_all (json_like fl) vs)"
| "json_like fl (D_dict d) =
     (distinct (map fst d) \<and> list_all (\<lambda>(k, v). (\<exists>s. k = K_str s) \<and> json_like fl v) d)"
| "json_like fl (D_other n) = False"
| "json_like fl _ = True"

text \<open>\<^verbatim>\<open>json.dumps\<close> of a value that was decoded.\<close>

definition json_dumps :: "nat \<Rightarrow> pval \<Rightarrow> utext py_res" where
  "json_dumps n v = (if pdepth v > n then Inl RecursionError else Inr (jtext v))"

section \<open>Decoding what was encoded\<close>

lemma hex_digit_char: "d < 16 \<Longrightarrow> hex_digit (hex_char d) = Some d"
  by (auto simp: hex_digit_def hex_char_def)

lemma scan_escape_char:
  assumes "escape_char c = 92 # e"
  shows "scan_escape (e @ r) = Some (c, r)"
proof -
  consider "c \<in> {34, 92, 10, 13, 9, 12, 8}" | "c < 32" "c \<notin> {34, 92, 10, 13, 9, 12, 8}"
    using assms by (auto simp: escape_char_def split: if_splits)
  then show ?thesis
  proof cases
    case 1
    then show ?thesis using assms by (auto simp: escape_char_def scan_escape_def short_escape_def)
  next
    case 2
    then have e: "e = [117, 48, 48, hex_char (c div 16), hex_char (c mod 16)]"
      using assms by (auto simp: escape_char_def)
    have "hex_digit 48 = Some 0" by (simp add: hex_digit_def)
    then have "hex4 ([48, 48, hex_char (c div 16), hex_char (c mod 16)] @ r) = Some (c, r)"
      using 2(1) by (simp add: hex_digit_char)
    then show ?thesis using 2(1) by (simp add: e scan_escape_def)
  qed
qed

lemma scan_str_escape: "scan_str acc (escape_char c @ r) = scan_str (c # acc) r"
proof (cases "\<exists>e. escape_char c = 92 # e")
  case True
  then obtain e where e: "escape_char c = 92 # e" by blast
  then show ?thesis using scan_escape_char [OF e] by simp
next
  case False
  then have "escape_char c = [c]" "c \<noteq> 34" "c \<noteq> 92" "\<not> c < 32" by (auto simp: escape_char_def split: if_splits)
  then show ?thesis by simp
qed

lemma scan_str_quoted: "scan_str acc (concat (map escape_char s) @ 34 # r) = Some (rev acc @ s, r)"
  by (induction s arbitrary: acc) (simp_all add: scan_str_escape del: scan_str.simps(2), simp)

text \<open>A number is scanned alike in front of what may follow a value in a container.\<close>

definition closes :: "utext \<Rightarrow> bool" where
  "closes r = (r = [] \<or> hd r \<in> {44, 93, 125})"

lemma takeWhile_closes: "closes r \<Longrightarrow> takeWhile dec_digit (s @ r) = takeWhile dec_digit s"
  by (induction s) (cases r, auto simp: closes_def dec_digit_def)

lemma starts_closes: "closes r \<Longrightarrow> c \<notin> {44, 93, 125} \<Longrightarrow> starts c (s @ r) = starts c s"
  by (cases s; cases r) (auto simp: closes_def starts_def)

lemma take_frac_closes: "closes r \<Longrightarrow> take_frac (s @ r) = take_frac s"
proof -
  assume c: "closes r"
  have "starts 46 (s @ r) = starts 46 s" using c by (simp add: starts_closes)
  then show ?thesis using takeWhile_closes [OF c, of "tl s"] by (cases s) (auto simp: take_frac_def starts_def)
qed

lemma take_exp_closes: "closes r \<Longrightarrow> take_exp (s @ r) = take_exp s"
proof -
  assume c: "closes r"
  have st: "starts x (s @ r) = starts x s" "starts x (tl s @ r) = starts x (tl s)" if "x \<notin> {44, 93, 125}" for x
    using c that by (simp_all add: starts_closes)
  show ?thesis
  proof (cases s)
    case Nil
    then show ?thesis using st(1) [of 101] st(1) [of 69] by (auto simp: take_exp_def starts_def)
  next
    case (Cons e t)
    have "takeWhile dec_digit (drop n t @ r) = takeWhile dec_digit (drop n t)" for n by (rule takeWhile_closes [OF c])
    moreover have "starts 43 (t @ r) = starts 43 t" "starts 45 (t @ r) = starts 45 t"
      using c by (simp_all add: starts_closes)
    ultimately show ?thesis
      by (cases t) (auto simp: take_exp_def Cons starts_def Let_def takeWhile_closes [OF c])
  qed
qed

lemma take_frac_prefix: "\<exists>r. s = take_frac s @ r"
  using takeWhile_dropWhile_id [of dec_digit "tl s"]
  by (cases s) (auto simp: take_frac_def starts_def Let_def intro: exI [of _ "dropWhile dec_digit (tl s)"])

lemma take_exp_prefix: "\<exists>r. s = take_exp s @ r"
proof (cases "starts 101 s \<or> starts 69 s")
  case True
  then obtain e t where s: "s = e # t" by (cases s) (auto simp: starts_def)
  define sg where "sg = (if starts 43 t \<or> starts 45 t then [hd t] else [])"
  have "t = sg @ drop (length sg) t" by (cases t) (auto simp: sg_def starts_def)
  then have "s = (e # sg @ takeWhile dec_digit (drop (length sg) t)) @ dropWhile dec_digit (drop (length sg) t)"
    by (simp add: s)
  moreover have "take_exp s = (if takeWhile dec_digit (drop (length sg) t) = [] then []
      else e # sg @ takeWhile dec_digit (drop (length sg) t))"
    using True by (simp add: take_exp_def s Let_def sg_def [symmetric])
  ultimately show ?thesis by (metis append_Nil)
qed (auto simp: take_exp_def)

lemma scan_number_closes:
  assumes "closes r" and ok: "scan_number fl s = Inr (v, r0)"
  shows "scan_number fl (s @ r) = Inr (v, r0 @ r)"
proof -
  define sg where "sg = (if starts 45 s then [45 :: nat] else [])"
  define s1 where "s1 = drop (length sg) s"
  define ds where "ds = (if starts 48 s1 then [48] else takeWhile dec_digit s1)"
  define s2 where "s2 = drop (length ds) s1"
  define s3 where "s3 = drop (length (take_frac s2)) s2"
  have sg_le: "length sg \<le> length s" by (cases s) (auto simp: sg_def starts_def)
  have sg': "(if starts 45 (s @ r) then [45 :: nat] else []) = sg"
    using assms(1) by (simp add: sg_def starts_closes)
  have s1': "drop (length sg) (s @ r) = s1 @ r" using sg_le by (simp add: s1_def)
  have ds': "(if starts 48 (s1 @ r) then [48] else takeWhile dec_digit (s1 @ r)) = ds"
    using assms(1) by (simp add: ds_def starts_closes takeWhile_closes)
  have "length ds \<le> length s1" by (cases s1) (auto simp: ds_def starts_def length_takeWhile_le)
  then have s2': "drop (length ds) (s1 @ r) = s2 @ r" by (simp add: s2_def)
  have s3': "drop (length (take_frac s2)) (s2 @ r) = s3 @ r"
    using take_frac_prefix [of s2] by (metis append.assoc append_eq_conv_conj s3_def)
  have s4': "drop (length (take_exp s3)) (s3 @ r) = drop (length (take_exp s3)) s3 @ r"
    using take_exp_prefix [of s3] by (metis append.assoc append_eq_conv_conj)
  note fold = sg_def [symmetric] s1_def [symmetric] ds_def [symmetric] s2_def [symmetric] s3_def [symmetric]
  have "scan_number fl s = (if ds = [] then Inl JSONDecodeError
      else if take_frac s2 = [] \<and> take_exp s3 = []
        then if length ds > max_int_digits then Inl ValueError
             else Inr (D_int (if sg = [] then int (digits_nat ds) else - int (digits_nat ds)), s2)
        else Inr (D_float (fl (sg @ ds @ take_frac s2 @ take_exp s3)), drop (length (take_exp s3)) s3))"
    unfolding scan_number_def Let_def fold ..
  moreover have "scan_number fl (s @ r) = (if ds = [] then Inl JSONDecodeError
      else if take_frac s2 = [] \<and> take_exp s3 = []
        then if length ds > max_int_digits then Inl ValueError
             else Inr (D_int (if sg = [] then int (digits_nat ds) else - int (digits_nat ds)), s2 @ r)
        else Inr (D_float (fl (sg @ ds @ take_frac s2 @ take_exp s3)), drop (length (take_exp s3)) s3 @ r))"
    unfolding scan_number_def Let_def sg' s1' ds' s2' take_frac_closes [OF assms(1)] s3'
      take_exp_closes [OF assms(1)] s4' ..
  ultimately show ?thesis using ok by (auto split: if_splits)
qed

lemma dec_digit_digit_char: "d < 10 \<Longrightarrow> dec_digit (of_char (digit_char d))"
  by (simp add: of_char_digit_char dec_digit_def)

lemma digits_of_nat_str: "list_all dec_digit (u (nat_str n))"
  using nat_str_set dec_digit_digit_char by (fastforce simp: u_def list_all_iff)

lemma digits_nat_of_nat_str: "digits_nat (u (nat_str n)) = n"
proof -
  have "fold (\<lambda>d n. n * 10 + (d - 48)) (u s) a = fold (\<lambda>c a. a * 10 + digit_val c) s a" for s a
    by (induction s arbitrary: a) (simp_all add: u_def digit_val_def)
  then show ?thesis by (simp add: digits_nat_def fold_nat_str)
qed

lemma nat_str_leading: "0 < n \<Longrightarrow> of_char (hd (nat_str n)) \<noteq> (48 :: nat)"
proof (induction n rule: nat_str.induct)
  case (1 n)
  show ?case
  proof (cases "n < 10")
    case True
    then show ?thesis using "1.prems" by (simp add: nat_str.simps [of n] of_char_digit_char)
  next
    case False
    then have "0 < n div 10" by simp
    with "1.IH" False show ?thesis by (simp add: nat_str.simps [of n] hd_append)
  qed
qed

lemma scan_number_nat:
  assumes "length (nat_str m) \<le> max_int_digits" and "sg = [] \<or> sg = [45]"
  shows "scan_number fl (sg @ u (nat_str m)) = Inr (D_int (if sg = [] then int m else - int m), [])"
proof -
  let ?d = "u (nat_str m)"
  have all: "list_all dec_digit ?d" by (rule digits_of_nat_str)
  have ne: "?d \<noteq> []" by (simp add: u_def)
  have hd: "dec_digit (hd ?d)" using all ne by (cases ?d) auto
  have sg: "(if starts 45 (sg @ ?d) then [45 :: nat] else []) = sg"
    using assms(2) hd ne by (auto simp: starts_def dec_digit_def)
  have ds: "(if starts 48 ?d then [48] else takeWhile dec_digit ?d) = ?d"
  proof (cases "m = 0")
    case True
    have "nat_str 0 = [digit_char 0]" by (simp add: nat_str.simps [of 0])
    then show ?thesis by (simp add: True u_def starts_def of_char_digit_char)
  next
    case False
    then have "\<not> starts 48 ?d" using nat_str_leading [of m] by (simp add: starts_def u_def hd_map)
    moreover have "takeWhile dec_digit ?d = ?d" using all by (simp add: list_all_iff)
    ultimately show ?thesis by simp
  qed
  have dr: "drop (length sg) (sg @ ?d) = ?d" by simp
  have fits: "\<not> max_int_digits < length ?d" using assms(1) by (simp add: u_def)
  show ?thesis
    unfolding scan_number_def Let_def sg dr ds using ne fits by (simp add: digits_nat_of_nat_str)
qed

lemma scan_number_int: "int_fits i \<Longrightarrow> scan_number fl (u_int i) = Inr (D_int i, [])"
  using scan_number_nat [of "nat \<bar>i\<bar>" "if i < 0 then [45] else []" fl]
  by (auto simp: u_int_def int_str_def int_fits_def u_def split: if_splits)

lemma scan_number_front:
  assumes "scan_number fl s = Inr p"
  shows "s \<noteq> [] \<and> (dec_digit (hd s) \<or> hd s = 45 \<and> tl s \<noteq> [] \<and> dec_digit (hd (tl s)))"
proof (cases "starts 45 s")
  case True
  then obtain t where s: "s = 45 # t" by (cases s) (auto simp: starts_def)
  have "(if starts 48 t then [48] else takeWhile dec_digit t) \<noteq> []"
    using assms by (auto simp: scan_number_def s starts_def [of 45] Let_def)
  then show ?thesis by (cases t) (auto simp: s starts_def dec_digit_def split: if_splits)
next
  case False
  have "(if starts 48 s then [48] else takeWhile dec_digit s) \<noteq> []"
    using assms False by (auto simp: scan_number_def Let_def)
  then show ?thesis by (cases s) (auto simp: starts_def dec_digit_def split: if_splits)
qed

lemma words_front:
  "(w, x) \<in> set words \<Longrightarrow> \<exists>w'. w = 45 # 73 # w' \<or> (\<exists>c \<in> {110, 116, 102, 78, 73}. w = c # w')"
  by (auto simp: words_def u_def)

lemma scan_scalar_number:
  assumes "scan_number fl s = Inr (v, [])" and "closes r"
  shows "scan_scalar fl (s @ r) = Inr (v, r) \<and> s \<noteq> [] \<and> hd s \<notin> {91, 93, 123} \<and> \<not> jspace (hd s)"
proof -
  note front = scan_number_front [OF assms(1)]
  then obtain c t where s: "s = c # t" by (cases s) auto
  have "c \<noteq> 34" using front by (auto simp: s dec_digit_def)
  moreover have "find (\<lambda>(w, v). prefix w (s @ r)) words = None"
  proof -
    have "\<not> prefix w (s @ r)" if "(w, x) \<in> set words" for w x
      using words_front [OF that] front by (cases t) (auto simp: s dec_digit_def)
    then show ?thesis by (auto simp: find_None_iff)
  qed
  ultimately have "scan_scalar fl (s @ r) = scan_number fl (s @ r)"
    by (simp add: scan_scalar_def starts_def s)
  then show ?thesis
    using scan_number_closes [OF assms(2,1)] front by (auto simp: s dec_digit_def jspace_def)
qed

fun is_scalar :: "pval \<Rightarrow> bool" where
  "is_scalar (D_seq _ _) = False"
| "is_scalar (D_dict _) = False"
| "is_scalar (D_other _) = False"
| "is_scalar _ = True"

lemma scan_scalar_text:
  assumes "json_like fl v" and "is_scalar v" and "closes r"
  shows "scan_scalar fl (jtext v @ r) = Inr (v, r) \<and> jtext v \<noteq> [] \<and> hd (jtext v) \<notin> {91, 93, 123} \<and> \<not> jspace (hd (jtext v))"
proof (cases v)
  case (D_bool b)
  then show ?thesis by (cases b) (simp_all add: scan_scalar_def starts_def words_def u_def jspace_def)
next
  case (D_int i)
  then show ?thesis using assms(1) scan_scalar_number [OF scan_number_int [of i fl] assms(3)] by simp
next
  case (D_float f)
  show ?thesis
  proof (cases "f \<in> {u ''nan'', u ''inf'', u ''-inf''}")
    case True
    then show ?thesis using D_float
      by (auto simp: scan_scalar_def starts_def words_def u_def jspace_def float_text_def)
  next
    case False
    then have "scan_number fl f = Inr (D_float f, [])" "float_text f = f"
      using assms(1) D_float by (auto simp: float_fits_def float_text_def)
    then show ?thesis using scan_scalar_number [OF _ assms(3)] D_float by simp
  qed
next
  case (D_str s)
  then show ?thesis using scan_str_quoted [of "[]" s r]
    by (simp add: scan_scalar_def starts_def quoted_def jspace_def)
qed (use assms(2) in \<open>simp_all add: scan_scalar_def starts_def words_def u_def jspace_def\<close>)

abbreviation entry_text :: "pkey \<times> pval \<Rightarrow> utext" where
  "entry_text \<equiv> \<lambda>(k, v). quoted (key_text k) @ 58 # jtext v"

lemma starts_Cons [simp]: "starts c (x # s) = (x = c)" "\<not> starts c []"
  by (simp_all add: starts_def)

lemma skip_ws_Cons [simp]: "\<not> jspace c \<Longrightarrow> skip_ws (c # s) = c # s"
  by simp

lemma not_jspace [simp]: "\<not> jspace 44" "\<not> jspace 93" "\<not> jspace 125" "\<not> jspace 34" "\<not> jspace 58" "\<not> jspace 91" "\<not> jspace 123"
  by (simp_all add: jspace_def)

lemma closes_simps [simp]: "closes []" "closes (44 # r)" "closes (93 # r)" "closes (125 # r)"
  by (simp_all add: closes_def)

lemma jtext_front: "json_like fl v \<Longrightarrow> jtext v \<noteq> [] \<and> hd (jtext v) \<noteq> 93 \<and> \<not> jspace (hd (jtext v))"
  using scan_scalar_text [of fl v "[]"] by (cases "is_scalar v"; cases v) auto

lemma skip_ws_jtext: "json_like fl v \<Longrightarrow> skip_ws (jtext v @ r) = jtext v @ r \<and> \<not> starts 93 (jtext v @ r)"
  using jtext_front [of fl v] by (cases "jtext v") auto

lemma jrun_scalar:
  assumes "json_like fl v" and "is_scalar v" and "closes r"
  shows "jrun fl n (Want_value k) (jtext v @ r) = jrun fl n (Have k v) r"
proof -
  note t = scan_scalar_text [OF assms]
  have "skip_ws (jtext v @ r) = jtext v @ r" "\<not> starts 91 (jtext v @ r)" "\<not> starts 123 (jtext v @ r)"
    using t by (cases "jtext v"; auto)+
  then show ?thesis using t by (simp add: jrun.simps(6) Let_def)
qed

lemma jrun_list:
  assumes "\<And>w acc r. w \<in> set (v # vs) \<Longrightarrow> closes r \<Longrightarrow>
      jrun fl n (Want_value (In_list acc # k)) (jtext w @ r) = jrun fl n (Have (In_list acc # k) w) r"
  shows "jrun fl n (Want_value (In_list acc # k)) (sep_join (map jtext (v # vs)) @ 93 # r) =
    jrun fl n (Have k (D_seq Py_list (rev acc @ v # vs))) r"
  using assms
proof (induction vs arbitrary: v acc)
  case Nil
  then show ?case by (simp add: jrun.simps(2) Let_def)
next
  case (Cons w vs)
  have "jrun fl n (Want_value (In_list acc # k)) (sep_join (map jtext (v # w # vs)) @ 93 # r) =
    jrun fl n (Have (In_list acc # k) v) (44 # sep_join (map jtext (w # vs)) @ 93 # r)"
    using Cons.prems [of v "44 # sep_join (map jtext (w # vs)) @ 93 # r" acc] by simp
  also have "\<dots> = jrun fl n (Want_value (In_list (v # acc) # k)) (sep_join (map jtext (w # vs)) @ 93 # r)"
    by (simp add: jrun.simps(2) Let_def)
  also have "\<dots> = jrun fl n (Have k (D_seq Py_list (rev (v # acc) @ w # vs))) r"
    by (rule Cons.IH) (rule Cons.prems, simp_all)
  finally show ?case by simp
qed

lemma jrun_entry:
  assumes "closes r" and "\<And>r. closes r \<Longrightarrow>
      jrun fl n (Want_value (In_dict d0 s # k)) (jtext v @ r) = jrun fl n (Have (In_dict d0 s # k) v) r"
  shows "jrun fl n (Want_key first d0 k) (entry_text (K_str s, v) @ r) = jrun fl n (Have (In_dict d0 s # k) v) r"
  using assms(2) [OF assms(1)] scan_str_quoted [of "[]" s "58 # jtext v @ r"]
  by (simp add: jrun.simps(4) Let_def quoted_def)

lemma jrun_dict:
  assumes "\<And>w d s' r. w \<in> snd ` set (p # ps) \<Longrightarrow> closes r \<Longrightarrow>
      jrun fl n (Want_value (In_dict d s' # k)) (jtext w @ r) = jrun fl n (Have (In_dict d s' # k) w) r"
    and "list_all (\<lambda>(k, v). \<exists>s. k = K_str s) (p # ps)" and "distinct (map fst (d0 @ p # ps))"
  shows "jrun fl n (Want_key first d0 k) (sep_join (map entry_text (p # ps)) @ 125 # r) =
    jrun fl n (Have k (D_dict (d0 @ p # ps))) r"
  using assms
proof (induction ps arbitrary: p d0 first)
  case Nil
  then obtain s v where p: "p = (K_str s, v)" by (cases p) auto
  have "jrun fl n (Want_key first d0 k) (entry_text (K_str s, v) @ 125 # r) =
      jrun fl n (Have (In_dict d0 s # k) v) (125 # r)"
    by (rule jrun_entry) (simp, rule Nil.prems(1), simp_all add: p)
  then show ?case using Nil.prems(3) by (simp add: p jrun.simps(3) Let_def dict_set_fresh)
next
  case (Cons q ps)
  from Cons.prems(2) obtain s v where p: "p = (K_str s, v)" by (cases p) auto
  let ?rest = "sep_join (map entry_text (q # ps)) @ 125 # r"
  have "jrun fl n (Want_key first d0 k) (entry_text (K_str s, v) @ 44 # ?rest) =
      jrun fl n (Have (In_dict d0 s # k) v) (44 # ?rest)"
    by (rule jrun_entry) (simp, rule Cons.prems(1), simp_all add: p)
  also have "\<dots> = jrun fl n (Want_key False (d0 @ [p]) k) ?rest"
    using Cons.prems(3) by (simp add: p jrun.simps(3) Let_def dict_set_fresh)
  also have "\<dots> = jrun fl n (Have k (D_dict ((d0 @ [p]) @ q # ps))) r"
    by (rule Cons.IH) (rule Cons.prems(1), use Cons.prems(2,3) in simp_all)
  finally show ?case by (simp add: p)
qed

lemma fold_max_start: "(a :: nat) \<le> fold max xs a"
  by (induction xs arbitrary: a) (auto, metis max.bounded_iff)

lemma fold_max_ge: "x \<in> set xs \<Longrightarrow> x \<le> fold max xs (a :: nat)"
proof (induction xs arbitrary: a)
  case (Cons y ys)
  then show ?case using fold_max_start [of "max y a" ys] by auto
qed simp

lemma pdepth_seq: "v \<in> set vs \<Longrightarrow> pdepth v < pdepth (D_seq k vs)"
  using fold_max_ge [of "pdepth v" "map pdepth vs" 0] by (simp add: less_Suc_eq_le)

lemma pdepth_dict: "(key, v) \<in> set d \<Longrightarrow> pdepth v < pdepth (D_dict d)"
  using fold_max_ge [of "pdepth v" "map (\<lambda>(k, v). pdepth v) d" 0] by (force simp: less_Suc_eq_le)

lemma jrun_text:
  "json_like fl v \<Longrightarrow> length k + pdepth v \<le> n \<Longrightarrow> closes r \<Longrightarrow>
   jrun fl n (Want_value k) (jtext v @ r) = jrun fl n (Have k v) r"
proof (induction v arbitrary: k r)
  case (D_seq kd vs)
  have kd: "kd = Py_list" and ok: "\<forall>w \<in> set vs. json_like fl w"
    using D_seq.prems(1) by (simp_all add: list_all_iff)
  have lim: "length k < n" using D_seq.prems(2) by simp
  have open_it: "jrun fl n (Want_value k) (jtext (D_seq kd vs) @ r) = jrun fl n (Want_first k) (sep_join (map jtext vs) @ 93 # r)"
    using lim by (simp add: jrun.simps(6) Let_def)
  show ?case
  proof (cases vs)
    case Nil
    then show ?thesis using open_it by (simp add: jrun.simps(5) kd)
  next
    case (Cons w ws)
    have front: "\<not> starts 93 (skip_ws (sep_join (map jtext vs) @ 93 # r))"
      using skip_ws_jtext [of fl w] ok Cons by (cases ws) auto
    have step: "jrun fl n (Want_value (In_list acc # k)) (jtext x @ r') = jrun fl n (Have (In_list acc # k) x) r'"
      if "x \<in> set (w # ws)" "closes r'" for x acc r'
      using D_seq.IH [of x "In_list acc # k" r'] that ok pdepth_seq [of x vs kd] D_seq.prems(2) Cons by auto
    show ?thesis using open_it front jrun_list [of w ws, OF step, of "[]" r]
      by (simp add: jrun.simps(5) Cons kd)
  qed
next
  case (D_dict d)
  have ok: "\<forall>(key, w) \<in> set d. json_like fl w" "list_all (\<lambda>(k, v). \<exists>s. k = K_str s) d" "distinct (map fst d)"
    using D_dict.prems(1) by (auto simp: list_all_iff)
  have lim: "length k < n" using D_dict.prems(2) by simp
  have open_it: "jrun fl n (Want_value k) (jtext (D_dict d) @ r) =
      jrun fl n (Want_key True [] k) (sep_join (map entry_text d) @ 125 # r)"
    using lim by (simp add: jrun.simps(6) Let_def)
  show ?case
  proof (cases d)
    case Nil
    then show ?thesis using open_it by (simp add: jrun.simps(4))
  next
    case (Cons p ps)
    have step: "jrun fl n (Want_value (In_dict d' s' # k)) (jtext w @ r') = jrun fl n (Have (In_dict d' s' # k) w) r'"
      if "w \<in> snd ` set (p # ps)" "closes r'" for w d' s' r'
    proof -
      from that(1) obtain key where key: "(key, w) \<in> set d" unfolding Cons by force
      then show ?thesis
        using D_dict.IH [of "(key, w)" w "In_dict d' s' # k" r'] that(2) ok(1) pdepth_dict [OF key] D_dict.prems(2)
        by auto
    qed
    show ?thesis
      using open_it jrun_dict [of p ps fl n k "[]" True r] step ok(2,3) unfolding Cons by auto
  qed
next
  case D_none
  show ?case by (rule jrun_scalar [OF D_none(1) _ D_none(3)]) simp
next
  case (D_bool b)
  show ?case by (rule jrun_scalar [OF D_bool(1) _ D_bool(3)]) simp
next
  case (D_int i)
  show ?case by (rule jrun_scalar [OF D_int(1) _ D_int(3)]) simp
next
  case (D_float f)
  show ?case by (rule jrun_scalar [OF D_float(1) _ D_float(3)]) simp
next
  case (D_str s)
  show ?case by (rule jrun_scalar [OF D_str(1) _ D_str(3)]) simp
qed simp

text \<open>Decoding what was encoded.\<close>

theorem loads_of_text:
  assumes "json_like fl v" and "pdepth v \<le> n"
  shows "json_loads fl n (jtext v) = Inr v"
  using jrun_text [OF assms(1), of "[]" n "[]"] assms(2) by (simp add: json_loads_def jrun.simps(1))

section \<open>What decoding yields\<close>

text \<open>
  What the code relies on of Python's floats: the text \<^verbatim>\<open>repr\<close> gives for a float is \<^verbatim>\<open>nan\<close>, \<^verbatim>\<open>inf\<close>, \<^verbatim>\<open>-inf\<close> or a
  literal that reads back as the same float.
\<close>

definition float_law :: "(utext \<Rightarrow> utext) \<Rightarrow> bool" where
  "float_law fl = (\<forall>s x r. scan_number fl s = Inr (D_float x, r) \<longrightarrow> float_fits fl x)"

lemma nat_str_length: "n < 10 ^ m \<Longrightarrow> 0 < m \<Longrightarrow> length (nat_str n) \<le> m"
proof (induction n arbitrary: m rule: nat_str.induct)
  case (1 n)
  show ?case
  proof (cases "n < 10")
    case False
    have m: "1 < m"
    proof (rule ccontr)
      assume "\<not> 1 < m"
      with "1.prems"(2) have "m = 1" by simp
      with "1.prems"(1) False show False by simp
    qed
    have "n div 10 < 10 ^ (m - 1)" using "1.prems"(1) m by (simp add: div_less_iff_less_mult power_Suc2 [symmetric])
    with "1.IH" [OF False this] m False show ?thesis by (simp add: nat_str.simps [of n])
  qed (use "1.prems" in \<open>simp add: nat_str.simps [of n]\<close>)
qed

lemma digits_nat_less: "list_all dec_digit ds \<Longrightarrow> digits_nat ds < 10 ^ length ds"
proof -
  have "list_all dec_digit ds \<Longrightarrow> fold (\<lambda>d n. n * 10 + (d - 48)) ds a < (a + 1) * 10 ^ length ds" for a
  proof (induction ds arbitrary: a)
    case (Cons d ds)
    then have "fold (\<lambda>d n. n * 10 + (d - 48)) (d # ds) a < (a * 10 + (d - 48) + 1) * 10 ^ length ds" by simp
    also have "\<dots> \<le> ((a + 1) * 10) * 10 ^ length ds"
      using Cons.prems by (intro mult_right_mono) (auto simp: dec_digit_def)
    finally show ?case by (simp add: algebra_simps)
  qed simp
  from this [of 0] show "list_all dec_digit ds \<Longrightarrow> digits_nat ds < 10 ^ length ds" by (simp add: digits_nat_def)
qed

lemma scan_number_like:
  assumes "float_law fl" and "scan_number fl s = Inr (v, r)"
  shows "json_like fl v \<and> pdepth v = 0"
proof -
  define sg where "sg = (if starts 45 s then [45 :: nat] else [])"
  define s1 where "s1 = drop (length sg) s"
  define ds where "ds = (if starts 48 s1 then [48] else takeWhile dec_digit s1)"
  have ds: "list_all dec_digit ds" by (auto simp: ds_def list_all_iff dec_digit_def dest: set_takeWhileD)
  have "(\<exists>x. v = D_float x) \<or> (\<exists>m. m = digits_nat ds \<and> ds \<noteq> [] \<and> length ds \<le> max_int_digits \<and> (v = D_int (int m) \<or> v = D_int (- int m)))"
    using assms(2) unfolding scan_number_def Let_def sg_def [symmetric] s1_def [symmetric] ds_def [symmetric]
    by (auto split: if_splits)
  then show ?thesis
  proof
    assume "\<exists>x. v = D_float x"
    then obtain x where x: "v = D_float x" by blast
    then have "float_fits fl x" using assms unfolding float_law_def by blast
    then show ?thesis by (simp add: x)
  next
    assume "\<exists>m. m = digits_nat ds \<and> ds \<noteq> [] \<and> length ds \<le> max_int_digits \<and> (v = D_int (int m) \<or> v = D_int (- int m))"
    moreover have "length (nat_str (digits_nat ds)) \<le> length ds" if "ds \<noteq> []"
      using nat_str_length [OF digits_nat_less [OF ds]] that by simp
    ultimately show ?thesis by (auto simp: int_fits_def)
  qed
qed

lemma scan_scalar_like:
  assumes "float_law fl" and "scan_scalar fl s = Inr (v, r)"
  shows "json_like fl v \<and> pdepth v = 0"
proof (cases "find (\<lambda>(w, v). prefix w s) words")
  case None
  then show ?thesis using assms scan_number_like by (auto simp: scan_scalar_def split: if_splits option.splits)
next
  case (Some p)
  then have "p \<in> set words" by (auto dest: find_SomeD)
  then have "json_like fl (snd p) \<and> pdepth (snd p) = 0" by (auto simp: words_def float_fits_def)
  then show ?thesis using assms(2) Some
    by (auto simp: scan_scalar_def split: if_splits option.splits prod.splits)
qed

fun frame_values :: "frame \<Rightarrow> pval list" where
  "frame_values (In_list vs) = vs"
| "frame_values (In_dict d key) = map snd d"

fun frame_like :: "(utext \<Rightarrow> utext) \<Rightarrow> frame \<Rightarrow> bool" where
  "frame_like fl (In_list vs) = list_all (json_like fl) vs"
| "frame_like fl (In_dict d key) = json_like fl (D_dict d)"

fun stack_ok :: "(utext \<Rightarrow> utext) \<Rightarrow> nat \<Rightarrow> frame list \<Rightarrow> bool" where
  "stack_ok fl n [] = True"
| "stack_ok fl n (f # k) =
     (frame_like fl f \<and> length k < n \<and> (\<forall>v \<in> set (frame_values f). Suc (length k) + pdepth v \<le> n) \<and> stack_ok fl n k)"

fun state_ok :: "(utext \<Rightarrow> utext) \<Rightarrow> nat \<Rightarrow> jstate \<Rightarrow> bool" where
  "state_ok fl n (Want_value k) = stack_ok fl n k"
| "state_ok fl n (Want_first k) = (stack_ok fl n k \<and> length k < n)"
| "state_ok fl n (Want_key first d k) = stack_ok fl n (In_dict d [] # k)"
| "state_ok fl n (Have k v) = (stack_ok fl n k \<and> json_like fl v \<and> length k + pdepth v \<le> n)"

lemma fold_max_less: "(\<forall>x \<in> set xs. x < m) \<Longrightarrow> a < m \<Longrightarrow> fold max xs a < (m :: nat)"
  by (induction xs arbitrary: a) auto

lemma close_list:
  assumes "\<forall>v \<in> set vs. Suc (length k) + pdepth v \<le> n" and "length k < n"
  shows "length k + pdepth (D_seq kd vs) \<le> n"
proof -
  have "fold max (map pdepth vs) 0 < n - length k" by (rule fold_max_less) (use assms in auto)
  then show ?thesis using assms(2) by simp
qed

lemma close_dict:
  assumes "\<forall>v \<in> set (map snd d). Suc (length k) + pdepth v \<le> n" and "length k < n"
  shows "length k + pdepth (D_dict d) \<le> n"
proof -
  have "fold max (map (\<lambda>(k, v). pdepth v) d) 0 < n - length k" by (rule fold_max_less) (use assms in fastforce)+
  then show ?thesis using assms(2) by simp
qed

lemma dict_set_entries: "set (dict_set k v d) \<subseteq> insert (k, v) (set d)"
  by (induction d) auto

lemma dict_set_like:
  assumes "json_like fl (D_dict d)" and "json_like fl v"
  shows "json_like fl (D_dict (dict_set (K_str key) v d))"
proof -
  have "distinct (map fst (dict_set (K_str key) v d))" using assms(1) by simp
  moreover have "\<forall>(k, w) \<in> set (dict_set (K_str key) v d). (\<exists>s. k = K_str s) \<and> json_like fl w"
    using assms dict_set_entries [of "K_str key" v d] by (auto simp: list_all_iff)
  ultimately show ?thesis by (simp add: list_all_iff)
qed

lemma dict_set_values: "x \<in> snd ` set (dict_set k v d) \<Longrightarrow> x = v \<or> x \<in> snd ` set d"
  using dict_set_entries [of k v d] by force

lemma stack_length: "stack_ok fl n k \<Longrightarrow> length k \<le> n"
  by (cases k) auto

lemma jrun_like:
  "jrun fl n st s = Inr v \<Longrightarrow> state_ok fl n st \<and> float_law fl \<Longrightarrow> json_like fl v \<and> pdepth v \<le> n"
proof (induction fl n st s rule: jrun.induct)
  case (1 fl n v s)
  then show ?case by (auto simp: jrun.simps(1) split: if_splits)
next
  case (2 fl n vs k v s)
  have "stack_ok fl n (In_list (v # vs) # k)" using "2.prems"(2) by auto
  moreover have "length k + pdepth (D_seq Py_list (rev (v # vs))) \<le> n"
    using "2.prems"(2) by (intro close_list) auto
  ultimately show ?case using "2.prems" "2.IH" by (auto simp: jrun.simps(2) Let_def list_all_iff split: if_splits)
next
  case (3 fl n d key k v s)
  let ?d = "dict_set (K_str key) v d"
  have vals: "\<forall>x \<in> snd ` set ?d. Suc (length k) + pdepth x \<le> n"
    using "3.prems"(2) dict_set_values [of _ "K_str key" v d] by fastforce
  have like: "json_like fl (D_dict ?d)" using dict_set_like [of fl d v key] "3.prems"(2) by simp
  have "length k + pdepth (D_dict ?d) \<le> n" using vals "3.prems"(2) by (intro close_dict) auto
  with vals like show ?case using "3.prems" "3.IH"
    by (auto simp: jrun.simps(3) Let_def simp del: json_like.simps pdepth.simps split: if_splits)
next
  case (4 fl n first d k s)
  have "length k + pdepth (D_dict d) \<le> n" using "4.prems"(2) by (intro close_dict) auto
  then show ?case using "4.prems" "4.IH"
    by (auto simp: jrun.simps(4) Let_def simp del: json_like.simps pdepth.simps split: if_splits option.splits)
next
  case (5 fl n k s)
  then show ?case by (auto simp: jrun.simps(5) split: if_splits)
next
  case (6 fl n k s)
  show ?case
    using "6.prems" "6.IH" scan_scalar_like [of fl "skip_ws s"] stack_length [of fl n k]
    by (auto simp: jrun.simps(6) Let_def split: if_splits sum.splits)
qed

theorem loads_like: "float_law fl \<Longrightarrow> json_loads fl n s = Inr v \<Longrightarrow> json_like fl v \<and> pdepth v \<le> n"
  using jrun_like [of fl n "Want_value []" s v] by (simp add: json_loads_def)

end
