(* ===== verification/Spec2Isabelle.thy ===== *)
theory Spec2Isabelle
  imports Layered_Config Context_Builder Queue_Manager SQLite_Backend Todo Cooldown Retry Loop_Guard Truncating_Stream Agent_Snapshot Search_Anchors
    Summarization Scrubbed_Values
begin

text \<open>
  A verification library for the core of the agent framework under \<^verbatim>\<open>src/nooa/\<close>.

  \<^bold>\<open>The program.\<close> An agent is a Python object whose methods a language model carries out. Around the
  model the framework keeps state and enforces rules: a log of \<^emph>\<open>events\<close> that can be collapsed into
  summaries, \<^emph>\<open>context blocks\<close> and a builder that turns both into the prompt, \<^emph>\<open>storage\<close> of events in
  memory or in SQLite, \<^emph>\<open>snapshots\<close> of the agent's fields, a \<^emph>\<open>todo list\<close>, \<^emph>\<open>channels\<close> by which
  background jobs and users reach the agent, \<^emph>\<open>admission control\<close> with overload feedback and retries for
  calls to the provider, a \<^emph>\<open>guard\<close> against loops of the model, \<^emph>\<open>bounded buffers\<close> for output,
  \<^emph>\<open>file tools\<close> that read and edit files through anchors, \<^emph>\<open>background summaries\<close> that keep the history within
  the model's window, a \<^emph>\<open>scrubber\<close> that keeps credentials out of telemetry, and \<^emph>\<open>layered configuration\<close>
  files. These parts are modelled; each theory models the code of one part, with records for classes, datatypes for enumerations and unions, one definition per method or step, errors as
  values, and names of the source where Isabelle allows them.

  \<^bold>\<open>How the parts interact.\<close> The event manager calls a storage backend through the protocol
  \<^verbatim>\<open>EventBackend\<close>; both backends implement it. The context builder reads the context manager and the event
  manager and writes the resolved values back. The retry loop calls the provider through an admitted attempt,
  which holds a permit of the admission group and reports overload to it. The queue manager owns channels,
  feeds them from jobs and races them for the dispatcher; consumed items are published to the event manager.
  The summarizers intercept calls to the provider, fork them and collapse the events that a call has shown.

  \<^bold>\<open>Theories, code and lemmas.\<close>

  \<^item> \<open>Py_Prelude\<close>: exceptions and results, dictionaries as association lists in insertion order, slices,
    strings, \<^verbatim>\<open>int()\<close> and \<^verbatim>\<open>str()\<close>; the locale \<open>layering\<close> (a state built by layers that each act on every
    key: a lookup is the words of the layers in order, the last word wins) and the locale \<open>step_invariant\<close>
    (an invariant of enabled steps holds after every run).
  \<^item> \<open>Event_Backend\<close>: \<^verbatim>\<open>context_blocks/events.py\<close>, \<^verbatim>\<open>runtime/event_backend.py\<close>, \<^verbatim>\<open>events.py\<close>. Events, the
    protocol as a record of methods, the in-memory backend over a heap of event objects; the abstract
    store \<open>astore\<close> and the locales \<open>event_store\<close> and \<open>event_backend\<close> that state what a backend promises, interpreted
    on the in-memory backend.
  \<^item> \<open>Event_Manager\<close>: \<^verbatim>\<open>runtime/event_manager.py\<close>, \<^verbatim>\<open>runtime/event_query.py\<close>, \<^verbatim>\<open>runtime/events.py\<close>. Adding,
    emitting, middleware, filtering, updating, removing, collapsing and the traversal of summaries. The
    view of active tags stays ordered and without overlap, a collapse replaces one block by its summary,
    errors change nothing.
  \<^item> \<open>SQLite_Backend\<close>: \<^verbatim>\<open>storage/sqlite.py\<close>. Tables as lists of rows with their constraints, every method, the
    reconnect-and-retry paths, reopening. Refinement of the abstract store, hence agreement with the
    in-memory backend; where collapsing goes wrong after gaps; what an I/O error leaves.
  \<^item> \<open>Context_Manager\<close>, \<open>Context_Builder\<close>: \<^verbatim>\<open>runtime/context_manager.py\<close>, \<^verbatim>\<open>context_blocks/models.py\<close>,
    \<^verbatim>\<open>runtime/context_builder.py\<close> and the end of \<^verbatim>\<open>_prepare_context\<close>. Well-formedness under every operation,
    protection of framework blocks, the priority of the layers (an interpretation of \<open>layering\<close>), the
    order of blocks, agreement of prompts and reads.
  \<^item> \<open>Channels\<close>, \<open>Channel_Runs\<close>, \<open>Queue_Manager\<close>: \<^verbatim>\<open>runtime/channels.py\<close>. Channels with their waiters, futures,
    consumer tasks and cross-thread callbacks as one state; every interleaving of calls, tasks and
    callbacks as a run. Items are conserved and leave in order, no wake-up is lost, a cancelled consumer takes
    nothing, the loops come to rest; registry and jobs stay consistent; a race delivers one item and gives
    the others back.
  \<^item> \<open>Todo\<close>: \<^verbatim>\<open>tools/todo.py\<close>, \<^verbatim>\<open>storage/snapshot_vars.py\<close>. The manager's operations, three-way merge,
    dependency closure with its explicit stack, snapshots, the bounded status text.
  \<^item> \<open>Snapshot_Codec\<close>, \<open>Snapshot_Roundtrip\<close>: \<^verbatim>\<open>storage/serialization.py\<close>. Serialisation of an object graph on a heap
    and restoring it: round trip, confinement to the allowlist, depth limits, cycles, lenient dicts.
  \<^item> \<open>Agent_Snapshot\<close>: \<^verbatim>\<open>storage/snapshot.py\<close>, the snapshots of \<^verbatim>\<open>storage/sqlite.py\<close>, \<^verbatim>\<open>storage/in_memory.py\<close>. An agent's
    context blocks and attributes saved with the codec, stored as rows and restored: what a resume gives back, what
    a failing attribute costs, that stored snapshots stay.
  \<^item> \<open>Bounded_Read\<close>, \<open>File_Tools\<close>, \<open>Search_Anchors\<close>: \<^verbatim>\<open>tools/_bounded_io.py\<close>, \<^verbatim>\<open>tools/shell_tools.py\<close>. Text as code
    points with Python's line boundaries, files as bytes behind an encoding; reading in chunks is reading lines,
    edits replace their region and nothing else, stale anchors change nothing, and searches attach only matches
    that fit their files.
  \<^item> \<open>Admission\<close>, \<open>Cooldown\<close>, \<open>Retry\<close>: \<^verbatim>\<open>unifiedllm/admission.py\<close>, \<^verbatim>\<open>cooldown.py\<close>, \<^verbatim>\<open>retry.py\<close>, \<^verbatim>\<open>retry_config.py\<close>.
    The permit pool as a step relation with arbitrary clock readings: accounting, order, pacing, liveness of
    the queue, error paths; overload feedback; the retry loops.
  \<^item> \<open>Loop_Guard\<close>, \<open>Truncating_Stream\<close>, \<open>Layered_Config\<close>: \<^verbatim>\<open>strategies/loop_guard.py\<close>,
    \<^verbatim>\<open>agentdoc/_truncating_stream.py\<close>, \<^verbatim>\<open>layered_config.py\<close>. The guard's verdicts, the exact content of the
    buffers, the chain of files and the deep merge (an interpretation of \<open>layering\<close>).
  \<^item> \<open>Summarization\<close>: \<^verbatim>\<open>agents/summarization.py\<close>, \<^verbatim>\<open>unifiedllm/limits.py\<close>, \<^verbatim>\<open>config/summarizer_config.py\<close>.
    Forks of a request, their answers and the turn that applies them as steps among those of the host: a summary
    only replaces what a request has shown, unchanged since; one round of compaction; the text that is summarized.
  \<^item> \<open>Py_Json\<close>, \<open>Secret_Scrubber\<close>, \<open>Scrubbed_Values\<close>: \<^verbatim>\<open>tracing/_secret_scrubber.py\<close> over the decoder and encoder of
    Python's \<^verbatim>\<open>json\<close> (decoding what was encoded gives it back). The patterns as data, the traversal of attributes
    with its statistics: no token is left, keys of credentials hold the mark, also inside encoded JSON.
  \<^item> This theory: what the model sees after a collapse, which needs events, storage and prompt together.

  \<^bold>\<open>Bounds and fuel.\<close> The traversal of summaries follows child tags and takes fuel, because a summary can be
  made its own child; where it must end the lemmas give the fuel that is enough. Snapshots are
  limited to \<open>max_snapshot_depth\<close> levels as in the code, and the recursion on them is over that depth. The
  dependency closure, the event loops and the retry loop have measures or bounds proved in their theories.
  The scrubber and the decoder take the depth that Python's stack allows; running out is the \<open>RecursionError\<close> that
  the source handles, and the properties hold for every depth.
  Integers are unbounded as in Python; no theory bounds the number of events, tasks, rows or layers.

  \<^bold>\<open>Parameters.\<close> What the code calls but does not define is an argument: the file system, the encoding of the locale, the
  bash session with ripgrep, the text of floats, Unicode tables, the YAML parser, the JSON codec, \<^verbatim>\<open>ast.unparse\<close>, \<^verbatim>\<open>compile\<close>, module import and constructors, date parsing, URL splitting and
  hashing, the clock, random jitter, the provider, subscribers, middleware and spawned jobs. Of asyncio the models use
  that a task runs alone until it awaits, and the documented effect of cancelling a task or a future.

  \<^bold>\<open>Not modelled\<close>, and why: the execution of model-written Python (\<^verbatim>\<open>strategies/codeact.py\<close> and the sandbox), which
  would need a semantics of Python; reflection over classes (\<^verbatim>\<open>agent.py\<close>, \<^verbatim>\<open>agentdoc/\<close>); adapters of provider
  libraries and MCP; the bash session itself; telemetry but for the scrubber, viewers and command line tools; the HTTP client of an external admission
  broker; operating-system processes and timers. Message texts of exceptions and log output are left out.

  \<^bold>\<open>What the models showed.\<close> Besides the properties, some lemmas record where the code departs from its
  documentation: \<open>sqlite_collapse_misplaces_summary\<close>, \<open>sqlite_io_error_retry\<close> and \<open>sq_update_stale_columns\<close> (SQLite),
  \<open>recollapse_self_reference\<close> and \<open>filter_limit_zero_returns_all\<close> (events), \<open>protected_block_overwritten\<close> (context),
  \<open>flush_misses_woken_consumer\<close>, \<open>foreign_put_between_test_and_park\<close> and \<open>race_failure_gives_back\<close> (channels),
  \<open>dict_restores_as_tuple\<close>, \<open>dict_saved_but_not_restorable\<close>, \<open>restored_block_leaves_prefix\<close>,
  \<open>none_block_restored_as_disabled\<close> and \<open>skipped_block_breaks_save\<close> (snapshots), \<open>anchor_of_another_line\<close>,
  \<open>bytes_path_raises\<close>, \<open>unencodable_edit_empties_file\<close>, \<open>edit_normalises_other_lines\<close> and \<open>form_feed_line_grows\<close> (file tools), \<open>small_window_never_blocks\<close> (loop guard),
  \<open>fork_after_close\<close>, \<open>late_summary_hides_events\<close>, \<open>exclude_root_counts_turns\<close> and \<open>oversized_event_is_sent\<close> (summaries),
  \<open>repeated_key_hides_a_token\<close>, \<open>long_integer_loses_the_span\<close>, \<open>short_secret_mangles_its_key\<close> and
  \<open>camel_case_keys_are_exported\<close> (scrubbing),
  \<open>tail_above_limit_loses_text\<close> (buffers) and \<open>calculate_delay_bounds\<close> (retries).
\<close>

section \<open>Collapsing as the model sees it\<close>

text \<open>The blocks of the events that a list of tags names.\<close>

definition shown :: "'b event_source \<Rightarrow> 'b \<Rightarrow> tag list \<Rightarrow> rblock list" where
  "shown es b ts = map event_block
     (filter (\<lambda>e. \<not> es_is_empty es e) (List.map_filter (\<lambda>t. be_get (es_ops es) t b) ts))"

lemma shown_append [simp]: "shown es b (ts @ us) = shown es b ts @ shown es b us"
  by (simp add: shown_def List.map_filter_def)

lemma phase_events_shown:
  assumes "active_query (es_queries es) = None"
  shows "phase_events es blocks =
    Inr (blocks @ shown es (em_backend (es_manager es)) (em_keys (es_ops es) (es_manager es)))"
  using assms by (simp add: phase_events_def em_values_def shown_def)

lemma shown_cong:
  "(\<And>t. t \<in> set ts \<Longrightarrow> be_get (es_ops es) t b = be_get (es_ops es) t b') \<Longrightarrow> shown es b ts = shown es b' ts"
  unfolding shown_def by (induction ts) (auto simp: List.map_filter_simps split: option.split)

text \<open>C21: Over the in-memory backend, with an ordered view (every reached state has one) and no event query in force:
  after a successful collapse the next prompt shows the summary in the place of the events whose ranges meet the
  requested one, and every other event exactly where and as it was. (The class \<^verbatim>\<open>Summary\<close> inherits an \<^verbatim>\<open>is_empty\<close>
  that is never true.)\<close>

theorem prompt_after_collapse:
  assumes ok: "em_ok inmem_ops imb_inv s"
    and run: "em_collapse inmem_ops beh uid t1 t2 stext s = (Inr st, fired, s')"
    and es: "es_ops es = inmem_ops" "es_manager es = s" "active_query (es_queries es) = None"
    and summary_shown: "\<And>e. ev_class e = ''Summary'' \<Longrightarrow> \<not> es_is_empty es e"
  shows "\<exists>a b pre sel post. parse_tag_start t1 = Inr a \<and> parse_tag_end t2 = Inr b \<and>
    sel = filter (meets a b) (em_keys inmem_ops s) \<and> sel \<noteq> [] \<and> em_keys inmem_ops s = pre @ sel @ post \<and>
    phase_events es blocks = Inr (blocks @ shown es (em_backend s) pre @
      shown es (em_backend s) sel @ shown es (em_backend s) post) \<and>
    phase_events (es\<lparr>es_manager := s'\<rparr>) blocks = Inr (blocks @ shown es (em_backend s) pre @
      [event_block (make_summary uid st (start_of (hd sel)) (end_of (last sel)) sel stext)] @
      shown es (em_backend s) post)"
proof -
  obtain a b pre sel post where r: "parse_tag_start t1 = Inr a" "parse_tag_end t2 = Inr b"
      "sel = filter (meets a b) (em_keys inmem_ops s)" and c: "sel \<noteq> []" "em_keys inmem_ops s = pre @ sel @ post"
      "em_keys inmem_ops s' = pre @ st # post" "view_ok (em_keys inmem_ops s')"
      "imb_get st (em_backend s') =
        Some (make_summary uid st (start_of (hd sel)) (end_of (last sel)) sel stext)"
      "\<forall>u. u \<noteq> st \<longrightarrow> imb_get u (em_backend s') =
         (if u \<in> set sel then map_option (\<lambda>e. e\<lparr>ev_status := ARCHIVED\<rparr>) (imb_get u (em_backend s))
          else imb_get u (em_backend s))"
    using imb.collapse_range_block [OF ok run] unfolding inmem_ops_simps by blast
  have d: "distinct (pre @ sel @ post)" using view_ok_distinct ok c(2) by (metis em_ok_def)
  have d': "distinct (pre @ st # post)" using view_ok_distinct c(3,4) by metis
  have same: "imb_get u (em_backend s') = imb_get u (em_backend s)" if "u \<in> set pre \<union> set post" for u
  proof -
    have "u \<noteq> st" "u \<notin> set sel" using that d d' by auto
    then show ?thesis using c(6) by simp
  qed
  have pre: "shown es (em_backend s') pre = shown es (em_backend s) pre"
    and post: "shown es (em_backend s') post = shown es (em_backend s) post"
    by (rule shown_cong, use same es in simp)+
  have before: "phase_events es blocks = Inr (blocks @ shown es (em_backend s) (pre @ sel @ post))"
    using phase_events_shown [OF es(3), of blocks] by (simp only: es c(2))
  have sh: "shown (es\<lparr>es_manager := s'\<rparr>) b ts = shown es b ts" for b ts by (simp add: shown_def)
  have k: "es_manager (es\<lparr>es_manager := s'\<rparr>) = s'" "es_ops (es\<lparr>es_manager := s'\<rparr>) = inmem_ops"
    by (simp_all add: es)
  have "active_query (es_queries (es\<lparr>es_manager := s'\<rparr>)) = None" using es by simp
  from phase_events_shown [OF this, of blocks]
  have after: "phase_events (es\<lparr>es_manager := s'\<rparr>) blocks = Inr (blocks @ shown es (em_backend s') (pre @ [st] @ post))"
    by (simp only: k c(3) sh append.simps)
  have "shown es (em_backend s') [st] =
      [event_block (make_summary uid st (start_of (hd sel)) (end_of (last sel)) sel stext)]"
    using summary_shown [of "make_summary uid st (start_of (hd sel)) (end_of (last sel)) sel stext"]
    by (simp add: shown_def List.map_filter_def es(1) c(5) make_summary_def)
  then show ?thesis unfolding before after pre post shown_append append_assoc
    using r c(1,2) by metis
qed

theorem prompt_after_collapse_witness:
  "\<exists>st fired s' pre sel post sm.
     em_collapse inmem_ops ex_beh ''u2'' (int_str 1) (int_str 2) None ex_state2 = (Inr st, fired, s') \<and>
     sel \<noteq> [] \<and> [int_str 1, int_str 2] = pre @ sel @ post \<and> ev_class sm = ''Summary'' \<and>
     phase_events (ex_source\<lparr>es_manager := s'\<rparr>) [] =
       Inr (shown ex_source (em_backend ex_state2) pre @ [event_block sm] @
            shown ex_source (em_backend ex_state2) post)"
proof -
  obtain st fired s' where run:
    "em_collapse inmem_ops ex_beh ''u2'' (int_str 1) (int_str 2) None ex_state2 = (Inr st, fired, s')"
    using ex_collapse2 by blast
  define es where "es = ex_source\<lparr>es_manager := ex_state2\<rparr>"
  have es: "es_ops es = inmem_ops" "es_manager es = ex_state2" "active_query (es_queries es) = None"
    by (simp_all add: es_def ex_source_def active_query_def List.map_filter_def)
  have never: "\<And>e. ev_class e = ''Summary'' \<Longrightarrow> \<not> es_is_empty es e" by (simp add: es_def ex_source_def)
  have upd: "es\<lparr>es_manager := m\<rparr> = ex_source\<lparr>es_manager := m\<rparr>" for m by (simp add: es_def)
  have sh: "shown es b ts = shown ex_source b ts" for b ts by (simp add: shown_def es_def)
  have cls: "ev_class (make_summary uid t a b ch x) = ''Summary''" for uid t a b ch x by (simp add: make_summary_def)
  from prompt_after_collapse [OF ex_ok2 run es never, of "[]"] run ex_keys2 cls show ?thesis
    unfolding upd sh append_Nil by metis
qed

end
